(* ===== verification/Prelude.thy ===== *)
theory Prelude
  imports Main "HOL-Library.Signed_Division" "HOL-Library.Monad_Syntax"
begin

text \<open>
  The shared basis of the development: the machine integers of the Rust source as
  wrap-around functions on \<^typ>\<open>nat\<close> and \<^typ>\<open>int\<close>, the panic monad, and the generic
  lemmas on lists, counting and residues that the component theories use.

  Integers. The repository's release profile leaves Rust's overflow checks off, so an
  arithmetic operation wraps around; a narrowing cast (\<open>as\<close>) wraps in every profile.
  \<open>u8 .. u64\<close> and \<open>i16\<close>, \<open>i32\<close> below are those wrap-around functions. Unsigned values
  are \<^typ>\<open>nat\<close>, signed ones \<^typ>\<open>int\<close>. Subtraction of unsigned values is \<open>wsub w\<close>.

  Panics. A computation that may panic (\<open>assert!\<close>, \<open>unwrap\<close>, \<open>expect\<close>, an index out of
  bounds) has an option type and \<^const>\<open>None\<close> is the panic; \<open>debug_assert!\<close> is not
  evaluated in the release profile and is not part of the model.
\<close>

named_theorems arith_wrap "wrap-around functions are the identity on in-range values"
named_theorems panic_simps "unfolding of the assertion combinators"

section \<open>Machine integers\<close>

definition wrapu :: "nat \<Rightarrow> nat \<Rightarrow> nat" where
  "wrapu w x = x mod 2 ^ w"

definition wsub :: "nat \<Rightarrow> nat \<Rightarrow> nat \<Rightarrow> nat" where
  "wsub w a b = nat ((int a - int b) mod 2 ^ w)"

definition wraps :: "nat \<Rightarrow> int \<Rightarrow> int" where
  "wraps w x = (x + 2 ^ (w - 1)) mod 2 ^ w - 2 ^ (w - 1)"

abbreviation u8 :: "nat \<Rightarrow> nat" where "u8 \<equiv> wrapu 8"
abbreviation u16 :: "nat \<Rightarrow> nat" where "u16 \<equiv> wrapu 16"
abbreviation u32 :: "nat \<Rightarrow> nat" where "u32 \<equiv> wrapu 32"
abbreviation u64 :: "nat \<Rightarrow> nat" where "u64 \<equiv> wrapu 64"
abbreviation i16 :: "int \<Rightarrow> int" where "i16 \<equiv> wraps 16"
abbreviation i32 :: "int \<Rightarrow> int" where "i32 \<equiv> wraps 32"

text \<open>Casts of a signed value to an unsigned type (\<open>x as u8\<close>, \<open>x as u64\<close>).\<close>

definition cast_u :: "nat \<Rightarrow> int \<Rightarrow> nat" where
  "cast_u w x = nat (x mod 2 ^ w)"

text \<open>Unsigned values that the code mixes with signed ones are held as integers.\<close>

definition wrapi :: "nat \<Rightarrow> int \<Rightarrow> int" where
  "wrapi w x = x mod 2 ^ w"

abbreviation u32_max :: nat where "u32_max \<equiv> 4294967295"
abbreviation u64_max :: nat where "u64_max \<equiv> 18446744073709551615"

lemma wrapu_less [simp]: "wrapu w x < 2 ^ w"
  by (simp add: wrapu_def)

lemma wrapu_id [arith_wrap]: "x < 2 ^ w \<Longrightarrow> wrapu w x = x"
  by (simp add: wrapu_def)

lemma wsub_id [arith_wrap]:
  assumes "b \<le> a" "a < 2 ^ w" shows "wsub w a b = a - b"
proof -
  have "a - b < 2 ^ w" using assms(2) by simp
  then have "int (a - b) < int (2 ^ w)" by (simp only: of_nat_less_iff)
  then have "int (a - b) mod 2 ^ w = int (a - b)" by simp
  then show ?thesis
    unfolding wsub_def using assms(1) by (metis nat_int of_nat_diff)
qed

lemma wraps_id [arith_wrap]:
  assumes "- (2 ^ (w - 1)) \<le> x" "x < 2 ^ (w - 1)" "0 < w"
  shows "wraps w x = x"
proof -
  have two: "(2::int) ^ w = 2 ^ (w - 1) + 2 ^ (w - 1)"
    using assms(3) by (cases w) auto
  show ?thesis using assms two by (simp add: wraps_def)
qed

lemma i16_id [arith_wrap]: "- 32768 \<le> x \<Longrightarrow> x \<le> 32767 \<Longrightarrow> i16 x = x"
  by (simp add: wraps_def)

lemma i32_id [arith_wrap]: "- 2147483648 \<le> x \<Longrightarrow> x \<le> 2147483647 \<Longrightarrow> i32 x = x"
  by (simp add: wraps_def)

lemma wraps_range:
  assumes "0 < w" shows "- (2 ^ (w - 1)) \<le> wraps w x" "wraps w x < 2 ^ (w - 1)"
proof -
  have two: "(2::int) ^ w = 2 ^ (w - 1) + 2 ^ (w - 1)"
    using assms by (cases w) auto
  have "0 \<le> (x + 2 ^ (w - 1)) mod 2 ^ w" "(x + 2 ^ (w - 1)) mod 2 ^ w < 2 ^ w"
    by simp_all
  then show "- (2 ^ (w - 1)) \<le> wraps w x" "wraps w x < 2 ^ (w - 1)"
    unfolding wraps_def using two by linarith+
qed

lemma wraps_mod: "wraps w x mod 2 ^ w = x mod 2 ^ w"
  by (simp add: wraps_def mod_simps)

lemma cast_u_id [arith_wrap]: "0 \<le> x \<Longrightarrow> x < 2 ^ w \<Longrightarrow> cast_u w x = nat x"
  by (simp add: cast_u_def)

lemma wrapi_id [arith_wrap]: "0 \<le> x \<Longrightarrow> x < 2 ^ w \<Longrightarrow> wrapi w x = x"
  by (simp add: wrapi_def)

text \<open>The wrap-around value of a small number is below the bound (used for termination).\<close>

lemma i16_less: "\<bar>x\<bar> < b \<Longrightarrow> i16 x < b"
proof (cases "- 32768 \<le> x \<and> x \<le> 32767")
  case True
  then show "\<bar>x\<bar> < b \<Longrightarrow> i16 x < b" by (simp add: i16_id)
next
  case False
  assume "\<bar>x\<bar> < b"
  moreover have "i16 x < 32768" using wraps_range(2)[of 16 x] by simp
  ultimately show ?thesis using False by linarith
qed

section \<open>The panic monad\<close>

text \<open>\<open>assert!(c); k\<close>\<close>

definition assert_that :: "bool \<Rightarrow> unit option" where
  "assert_that c = (if c then Some () else None)"

lemma assert_that_simps [simp, panic_simps]:
  "assert_that True = Some ()" "assert_that False = None"
  by (simp_all add: assert_that_def)

lemma assert_that_Some [simp, panic_simps]: "assert_that c = Some u \<longleftrightarrow> c"
  by (simp add: assert_that_def)

lemma assert_that_None [simp, panic_simps]: "assert_that c = None \<longleftrightarrow> \<not> c"
  by (simp add: assert_that_def)

text \<open>\<open>v[i]\<close>: reading a \<open>Vec\<close> out of bounds panics.\<close>

definition vec_get :: "'a list \<Rightarrow> nat \<Rightarrow> 'a option" where
  "vec_get xs i = (if i < length xs then Some (xs ! i) else None)"

lemma vec_get_Some [simp]: "vec_get xs i = Some x \<longleftrightarrow> i < length xs \<and> x = xs ! i"
  by (auto simp: vec_get_def)

lemma vec_get_None [simp]: "vec_get xs i = None \<longleftrightarrow> length xs \<le> i"
  by (auto simp: vec_get_def)

lemma vec_get_in [simp]: "i < length xs \<Longrightarrow> vec_get xs i = Some (xs ! i)"
  by (simp add: vec_get_def)

section \<open>Lists\<close>

lemma concat_replicate_replicate: "concat (replicate n (replicate m x)) = replicate (n * m) x"
  by (induction n) (simp_all add: replicate_add)

end
