(* ===== verification/Common.thy ===== *)
theory Common
  imports Prelude
begin

text \<open>
  \<open>bfffs/src/common/mod.rs\<close>: the error type, transaction numbers, block addresses,
  rounding division, scatter-gather lists and the checksum helpers.

  The values of the \<open>libc\<close> errno constants and the MetroHash64 hasher are not part of the
  repository: they are arguments (\<open>libc\<close>, \<open>hwrite\<close>) of the definitions that use them.
\<close>

section \<open>Errors\<close>

text \<open>\<open>enum Error\<close>, with every constructor of the source.\<close>

datatype (plugins only: size) error =
    EPERM | ENOENT | ESRCH | EINTR | EIO | ENXIO | E2BIG | ENOEXEC | EBADF | ECHILD
    | EDEADLK | ENOMEM | EACCES | EFAULT | ENOTBLK | EBUSY | EEXIST | EXDEV | ENODEV
    | ENOTDIR | EISDIR | EINVAL | ENFILE | EMFILE | ENOTTY | ETXTBSY | EFBIG | ENOSPC
    | ESPIPE | EROFS | EMLINK | EPIPE | EDOM | ERANGE | EAGAIN | EINPROGRESS | EALREADY
    | ENOTSOCK | EDESTADDRREQ | EMSGSIZE | EPROTOTYPE | ENOPROTOOPT | EPROTONOSUPPORT
    | ESOCKTNOSUPPORT | ENOTSUP | EPFNOSUPPORT | EAFNOSUPPORT | EADDRINUSE
    | EADDRNOTAVAIL | ENETDOWN | ENETUNREACH | ENETRESET | ECONNABORTED | ECONNRESET
    | ENOBUFS | EISCONN | ENOTCONN | ESHUTDOWN | ETOOMANYREFS | ETIMEDOUT
    | ECONNREFUSED | ELOOP | ENAMETOOLONG | EHOSTDOWN | EHOSTUNREACH | ENOTEMPTY
    | EPROCLIM | EUSERS | EDQUOT | ESTALE | EREMOTE | EBADRPC | ERPCMISMATCH
    | EPROGUNAVAIL | EPROGMISMATCH | EPROCUNAVAIL | ENOLCK | ENOSYS | EFTYPE | EAUTH
    | ENEEDAUTH | EIDRM | ENOMSG | EOVERFLOW | ECANCELED | EILSEQ | ENOATTR | EDOOFUS
    | EBADMSG | EMULTIHOP | ENOLINK | EPROTO | ENOTCAPABLE | ECAPMODE | ENOTRECOVERABLE
    | EOWNERDEAD | EUNKNOWN | ECKSUM

type_synonym 'a result = "error + 'a"

text \<open>
  \<open>impl Into<i32> for Error\<close>: \<open>libc e\<close> is the number that \<open>to_i32\<close> gives for the constructor
  \<open>e\<close>. An unknown error must never reach the caller, and a checksum error is an I/O error.
\<close>

definition error_into_i32 :: "(error \<Rightarrow> int) \<Rightarrow> error \<Rightarrow> int option" where
  "error_into_i32 libc e =
     (if e = EUNKNOWN then None
      else if e = ECKSUM then Some (libc EIO)
      else Some (libc e))"

text \<open>
  \<open>impl From<nix::Error> for Error\<close>: a system error carries an errno (\<open>Some n\<close>), every other
  nix error becomes \<open>EUNKNOWN\<close>. \<open>from_i32\<close> is derived from the enum; \<open>unwrap\<close> panics when no
  constructor has the number.
\<close>

definition error_from_nix :: "(int \<Rightarrow> error option) \<Rightarrow> int option \<Rightarrow> error option" where
  "error_from_nix from_i32 e =
     (case e of Some errno \<Rightarrow> from_i32 errno | None \<Rightarrow> Some EUNKNOWN)"

section \<open>Numbers and addresses\<close>

type_synonym LbaT = nat
type_synonym ClusterT = nat
type_synonym ZoneT = nat
type_synonym byte = nat
type_synonym IoVec = "byte list"
type_synonym SGList = "IoVec list"

definition BYTES_PER_LBA :: nat where "BYTES_PER_LBA = 4096"

definition ZERO_REGION_LEN :: nat where "ZERO_REGION_LEN = 8 * BYTES_PER_LBA"

text \<open>\<open>TxgT\<close>: 32-bit transaction numbers; addition and subtraction wrap.\<close>

type_synonym TxgT = nat

definition txg_add :: "TxgT \<Rightarrow> nat \<Rightarrow> TxgT" where
  "txg_add t rhs = u32 (t + rhs)"

definition txg_sub :: "TxgT \<Rightarrow> nat \<Rightarrow> TxgT" where
  "txg_sub t rhs = wsub 32 t rhs"

lemma txg_add_sub: "t + d < 2 ^ 32 \<Longrightarrow> txg_sub (txg_add t d) d = t"
  by (simp add: txg_add_def txg_sub_def arith_wrap)

text \<open>\<open>Range<TxgT>\<close>\<close>

record txg_range =
  txg_start :: TxgT
  txg_end :: TxgT

text \<open>Physical block addresses, ordered by cluster and then by LBA (the derived \<open>Ord\<close>).\<close>

datatype PBA = PBA (pba_cluster: ClusterT) (pba_lba: LbaT)

instantiation PBA :: linorder
begin

definition less_eq_PBA :: "PBA \<Rightarrow> PBA \<Rightarrow> bool" where
  "p \<le> q \<longleftrightarrow> pba_cluster p < pba_cluster q \<or> pba_cluster p = pba_cluster q \<and> pba_lba p \<le> pba_lba q"

definition less_PBA :: "PBA \<Rightarrow> PBA \<Rightarrow> bool" where
  "p < q \<longleftrightarrow> pba_cluster p < pba_cluster q \<or> pba_cluster p = pba_cluster q \<and> pba_lba p < pba_lba q"

instance
  by standard (auto simp: less_eq_PBA_def less_PBA_def intro: PBA.expand)

end

text \<open>
  \<open>div_roundup\<close> on unsigned values of width \<open>w\<close>: division by zero panics, and the sum wraps.
\<close>

definition div_roundup :: "nat \<Rightarrow> nat \<Rightarrow> nat \<Rightarrow> nat option" where
  "div_roundup w dividend divisor =
     (if divisor = 0 then None
      else Some (wsub w (wrapu w (dividend + divisor)) 1 div divisor))"

lemma div_roundup_eq:
  assumes "0 < b" "a + b < 2 ^ w"
  shows "div_roundup w a b = Some ((a + b - 1) div b)"
  using assms by (simp add: div_roundup_def wrapu_id wsub_id)

lemma ceil_div_bounds:
  fixes a b :: nat
  assumes "0 < b"
  shows "a \<le> (a + b - 1) div b * b" "(a + b - 1) div b * b < a + b"
proof -
  have "(a + b - 1) div b * b + (a + b - 1) mod b = a + b - 1" by simp
  moreover have "(a + b - 1) mod b < b" using assms by simp
  ultimately show "a \<le> (a + b - 1) div b * b" "(a + b - 1) div b * b < a + b"
    using assms by linarith+
qed

section \<open>Scatter-gather lists\<close>

definition ZERO_REGION :: IoVec where "ZERO_REGION = replicate ZERO_REGION_LEN 0"

text \<open>\<open>DivBuf::slice_to(n)\<close> panics beyond the end of the buffer.\<close>

definition slice_to :: "IoVec \<Rightarrow> nat \<Rightarrow> IoVec option" where
  "slice_to v n = (if n \<le> length v then Some (take n v) else None)"

definition zero_sglist :: "nat \<Rightarrow> SGList option" where
  "zero_sglist len = do {
     zero_bufs \<leftarrow> div_roundup 64 len ZERO_REGION_LEN;
     let n = wsub 64 zero_bufs 1;
     tail \<leftarrow> slice_to ZERO_REGION (wsub 64 len (u64 (n * ZERO_REGION_LEN)));
     Some (replicate n ZERO_REGION @ [tail])
   }"

definition sglist_len :: "SGList \<Rightarrow> nat" where
  "sglist_len sgl = sum_list (map length sgl)"

lemma sglist_len_concat: "sglist_len sgl = length (concat sgl)"
  by (simp add: sglist_len_def length_concat)

section \<open>Checksums\<close>

text \<open>\<open>hwrite h bs\<close> is \<open>Hasher::write\<close> as a function on the hasher's state.\<close>

definition checksum_iovec :: "('h \<Rightarrow> IoVec \<Rightarrow> 'h) \<Rightarrow> IoVec \<Rightarrow> 'h \<Rightarrow> 'h" where
  "checksum_iovec hwrite iovec h = hwrite h iovec"

definition checksum_sglist :: "('h \<Rightarrow> IoVec \<Rightarrow> 'h) \<Rightarrow> SGList \<Rightarrow> 'h \<Rightarrow> 'h" where
  "checksum_sglist hwrite sgl h = fold (\<lambda>buf h. hwrite h buf) sgl h"

text \<open>
  The documented behaviour of a streaming hasher such as MetroHash64: writing two slices one
  after the other is writing their concatenation.
\<close>

definition streaming :: "('h \<Rightarrow> IoVec \<Rightarrow> 'h) \<Rightarrow> bool" where
  "streaming hwrite \<longleftrightarrow> (\<forall>h. hwrite h [] = h) \<and> (\<forall>h a b. hwrite (hwrite h a) b = hwrite h (a @ b))"

lemma checksum_sglist_concat:
  "streaming hwrite \<Longrightarrow> checksum_sglist hwrite sgl h = checksum_iovec hwrite (concat sgl) h"
proof (induction sgl arbitrary: h)
  case Nil
  then show ?case by (simp add: checksum_sglist_def checksum_iovec_def streaming_def)
next
  case (Cons buf sgl)
  have "checksum_sglist hwrite (buf # sgl) h = checksum_sglist hwrite sgl (hwrite h buf)"
    by (simp add: checksum_sglist_def)
  also have "\<dots> = hwrite (hwrite h buf) (concat sgl)"
    using Cons by (simp add: checksum_iovec_def)
  finally show ?case using Cons.prems by (simp add: checksum_iovec_def streaming_def)
qed

lemma zero_sglist_ok:
  assumes "0 < len" "len < 2 ^ 63"
  shows "\<exists>sgl. zero_sglist len = Some sgl \<and> concat sgl = replicate len 0"
proof -
  let ?Z = ZERO_REGION_LEN
  define q where "q = (len + ?Z - 1) div ?Z"
  have Z: "0 < ?Z" "?Z = 32768" by (simp_all add: ZERO_REGION_LEN_def BYTES_PER_LBA_def)
  have q: "len \<le> q * ?Z" "q * ?Z < len + ?Z"
    using ceil_div_bounds[OF Z(1), of len] by (simp_all add: q_def)
  have q1: "0 < q" using q(1) assms(1) by (cases q) auto
  have le: "(q - 1) * ?Z \<le> len" "len - (q - 1) * ?Z \<le> ?Z"
    using q q1 by (cases q; simp)+
  have rup: "div_roundup 64 len ?Z = Some q"
    using div_roundup_eq[OF Z(1), of len 64] assms(2) Z(2) by (simp add: q_def)
  have qlt: "q < 2 ^ 64" using q(2) assms(2) unfolding Z(2) by simp
  have w1: "wsub 64 q 1 = q - 1" using q1 qlt by (simp add: wsub_id)
  have w2: "u64 ((q - 1) * ?Z) = (q - 1) * ?Z"
    using le(1) assms(2) by (intro wrapu_id) simp
  have w3: "wsub 64 len ((q - 1) * ?Z) = len - (q - 1) * ?Z"
    using le(1) assms(2) by (intro wsub_id) simp_all
  have sl: "slice_to ZERO_REGION (len - (q - 1) * ?Z) = Some (replicate (len - (q - 1) * ?Z) 0)"
    using le(2) by (simp add: slice_to_def ZERO_REGION_def min_def)
  have "concat (replicate (q - 1) ZERO_REGION) = replicate ((q - 1) * ?Z) 0"
    by (simp add: ZERO_REGION_def concat_replicate_replicate)
  then have "concat (replicate (q - 1) ZERO_REGION @ [replicate (len - (q - 1) * ?Z) 0])
      = replicate len 0"
    using le(1) by (simp add: replicate_add[symmetric])
  then show ?thesis
    by (simp add: zero_sglist_def rup w1[simplified] w2[simplified] w3[simplified]
          sl[simplified] Let_def)
qed

end
