(* ===== verification/Property.thy ===== *)
theory Property
  imports Common
begin

text \<open>
  \<open>bfffs/src/common/property.rs\<close>: dataset properties, their names and default values, and the
  parser of the \<open>name=value\<close> strings given on the command line.
\<close>

section \<open>Properties and their names\<close>

datatype Property = Atime bool | RecordSize nat

datatype PropertyName = PN_Atime | PN_RecordSize | PN_Invalid

fun property_default_value :: "PropertyName \<Rightarrow> Property option" where
  "property_default_value PN_Atime = Some (Atime True)"
| "property_default_value PN_RecordSize = Some (RecordSize 12)"
| "property_default_value PN_Invalid = None"

fun property_name :: "Property \<Rightarrow> PropertyName" where
  "property_name (Atime _) = PN_Atime"
| "property_name (RecordSize _) = PN_RecordSize"

fun property_as_bool :: "Property \<Rightarrow> bool option" where
  "property_as_bool (Atime atime) = Some atime"
| "property_as_bool (RecordSize _) = None"

fun property_as_u8 :: "Property \<Rightarrow> nat option" where
  "property_as_u8 (RecordSize rs) = Some rs"
| "property_as_u8 (Atime _) = None"

fun propname_next :: "PropertyName \<Rightarrow> PropertyName" where
  "propname_next PN_Atime = PN_RecordSize"
| "propname_next PN_RecordSize = PN_Invalid"
| "propname_next PN_Invalid = PN_Invalid"

section \<open>Parsing\<close>

text \<open>\<open>s.splitn(2, '=')\<close>: the text before the first \<open>=\<close>, and the text after it if there is one.\<close>

fun splitn2 :: "string \<Rightarrow> string \<times> string option" where
  "splitn2 [] = ([], None)"
| "splitn2 (c # cs) =
     (if c = CHR ''='' then ([], Some cs)
      else (case splitn2 cs of (a, b) \<Rightarrow> (c # a, b)))"

text \<open>
  \<open>str::parse::<usize>\<close>: an optional plus sign and at least one decimal digit; anything else, and
  a number of more than 64 bits, is an error.
\<close>

definition digit_val :: "char \<Rightarrow> nat option" where
  "digit_val c =
     (let n = of_char c in if 48 \<le> n \<and> n \<le> (57 :: nat) then Some (n - 48) else None)"

fun parse_digits :: "nat \<Rightarrow> string \<Rightarrow> nat option" where
  "parse_digits acc [] = Some acc"
| "parse_digits acc (c # cs) =
     (case digit_val c of
        None \<Rightarrow> None
      | Some d \<Rightarrow> if acc * 10 + d < 2 ^ 64 then parse_digits (acc * 10 + d) cs else None)"

definition parse_usize :: "string \<Rightarrow> nat option" where
  "parse_usize s =
     (let ds = (if s \<noteq> [] \<and> hd s = CHR ''+'' then tl s else s)
      in if ds = [] then None else parse_digits 0 ds)"

text \<open>The lookup table of \<open>try_from\<close>, with the constants of the source.\<close>

definition record_size_of :: "nat \<Rightarrow> Property result" where
  "record_size_of rs =
     (if rs = 4096 then Inr (RecordSize 12)
      else if rs = 8192 then Inr (RecordSize 13)
      else if rs = 16384 then Inr (RecordSize 14)
      else if rs = 32768 then Inr (RecordSize 15)
      else if rs = 65536 then Inr (RecordSize 16)
      else if rs = 131072 then Inr (RecordSize 17)
      else if rs = 262144 then Inr (RecordSize 18)
      else if rs = 524388 then Inr (RecordSize 19)
      else if rs = 1048776 then Inr (RecordSize 20)
      else Inl EINVAL)"

definition property_try_from :: "string \<Rightarrow> Property result" where
  "property_try_from s =
     (case splitn2 s of
        (propname, None) \<Rightarrow>
          (if propname = ''atime'' then Inr (Atime True) else Inl EINVAL)
      | (propname, Some propval) \<Rightarrow>
          (if propname = ''atime'' then
             (if propval = ''true'' \<or> propval = ''on'' then Inr (Atime True)
              else if propval = ''false'' \<or> propval = ''off'' then Inr (Atime False)
              else Inl EINVAL)
           else if propname = ''record_size'' then
             (case parse_usize propval of
                Some rs \<Rightarrow> record_size_of rs
              | None \<Rightarrow> Inl EINVAL)
           else Inl EINVAL))"

section \<open>Lemmas\<close>

lemma splitn2_append:
  "CHR ''='' \<notin> set a \<Longrightarrow> splitn2 (a @ CHR ''='' # b) = (a, Some b)"
  by (induction a) auto

lemma splitn2_no_eq: "CHR ''='' \<notin> set a \<Longrightarrow> splitn2 a = (a, None)"
  by (induction a) auto

lemma property_try_from_record_size:
  "property_try_from (''record_size='' @ v) =
     (case parse_usize v of Some rs \<Rightarrow> record_size_of rs | None \<Rightarrow> Inl EINVAL)"
proof -
  have "splitn2 (''record_size'' @ CHR ''='' # v) = (''record_size'', Some v)"
    by (rule splitn2_append) simp
  then show ?thesis by (simp add: property_try_from_def)
qed

text \<open>The record size of a table entry is the power of two it names, except for the two largest.\<close>

lemma record_size_of_iff:
  "record_size_of n = Inr p \<longleftrightarrow>
     (\<exists>r. p = RecordSize r \<and>
        (12 \<le> r \<and> r \<le> 18 \<and> n = 2 ^ r \<or> r = 19 \<and> n = 524388 \<or> r = 20 \<and> n = 1048776))"
    (is "?L \<longleftrightarrow> ?R")
proof
  assume ?L
  then show ?R unfolding record_size_of_def
    by (auto split: if_splits)
next
  assume ?R
  then obtain r where r: "p = RecordSize r"
    "12 \<le> r \<and> r \<le> 18 \<and> n = 2 ^ r \<or> r = 19 \<and> n = 524388 \<or> r = 20 \<and> n = 1048776" by blast
  then have "r \<in> {12, 13, 14, 15, 16, 17, 18, 19, 20}" by auto
  then show ?L using r unfolding record_size_of_def by auto
qed

text \<open>The record sizes that the parser accepts. Every power of two from 4 KiB to 256 KiB is
  accepted and recorded as its logarithm. For the two largest sizes the table holds 524388 and
  1048776 instead of \<open>2 ^ 19\<close> and \<open>2 ^ 20\<close>, so those are the numbers accepted there.
\<close>

theorem record_size_accepted:
  "property_try_from (''record_size='' @ v) = Inr p \<longleftrightarrow>
     (\<exists>n r. parse_usize v = Some n \<and> p = RecordSize r \<and>
        (12 \<le> r \<and> r \<le> 18 \<and> n = 2 ^ r \<or> r = 19 \<and> n = 524388 \<or> r = 20 \<and> n = 1048776))"
  unfolding property_try_from_record_size by (auto simp: record_size_of_iff split: option.splits)


end
