(* ===== verification/Label.thy ===== *)
theory Label
  imports Common
begin

text \<open>
  \<open>bfffs/src/common/label.rs\<close>: the vdev label, a header with magic, checksum and length followed by
  the structures that each layer of the storage stack has added. Structures are added with
  \<open>LabelWriter::serialize\<close> from the top of the stack to the bottom and read back by \<open>LabelReader\<close>
  from the bottom to the top.

  MetroHash64 and bincode are not part of the repository. The hasher is given by its initial state
  \<open>h0\<close>, its \<open>write\<close> (\<open>hw\<close>), \<open>write_u64\<close> (\<open>hw64\<close>) and \<open>finish\<close> (\<open>hf\<close>); bincode by the encoder \<open>enc\<close> and
  the decoder \<open>dec\<close>, which returns a value and the number of bytes it took.
\<close>

section \<open>Big-endian numbers\<close>

fun be_bytes :: "nat \<Rightarrow> nat \<Rightarrow> byte list" where
  "be_bytes 0 x = []"
| "be_bytes (Suc n) x = be_bytes n (x div 256) @ [x mod 256]"

definition be_val :: "byte list \<Rightarrow> nat" where
  "be_val bs = foldl (\<lambda>acc b. acc * 256 + b) 0 bs"

lemma length_be_bytes [simp]: "length (be_bytes n x) = n"
  by (induction n arbitrary: x) auto

lemma be_val_be_bytes: "be_val (be_bytes n x) = x mod 256 ^ n"
proof (induction n arbitrary: x)
  case 0
  then show ?case by (simp add: be_val_def)
next
  case (Suc n)
  have "be_val (be_bytes (Suc n) x) = be_val (be_bytes n (x div 256)) * 256 + x mod 256"
    by (simp add: be_val_def)
  also have "\<dots> = x div 256 mod 256 ^ n * 256 + x mod 256" using Suc by simp
  also have "\<dots> = x mod (256 * 256 ^ n)" by (simp add: mod_mult2_eq algebra_simps)
  finally show ?case by (simp add: mult.commute)
qed

lemma be_val_u64: "x < 2 ^ 64 \<Longrightarrow> be_val (be_bytes 8 x) = x"
  by (simp add: be_val_be_bytes)

section \<open>Constants\<close>

definition MAGIC :: "byte list" where
  "MAGIC = [66, 70, 70, 70, 83, 32, 86, 100, 101, 118, 0, 0, 0, 0, 0, 0]"

definition MAGIC_LEN :: nat where "MAGIC_LEN = 16"
definition CHECKSUM_LEN :: nat where "CHECKSUM_LEN = 8"
definition LENGTH_LEN :: nat where "LENGTH_LEN = 8"
definition LABEL_COUNT :: LbaT where "LABEL_COUNT = 2"
definition LABEL_LBAS :: LbaT where "LABEL_LBAS = 4"
definition LABEL_SIZE :: nat where "LABEL_SIZE = LABEL_LBAS * BYTES_PER_LBA"
definition SPACEMAP_ZONES_PER_LBA :: nat where "SPACEMAP_ZONES_PER_LBA = 255"

lemmas label_consts = MAGIC_LEN_def CHECKSUM_LEN_def LENGTH_LEN_def LABEL_COUNT_def LABEL_LBAS_def
  LABEL_SIZE_def BYTES_PER_LBA_def

definition spacemap_space :: "nat \<Rightarrow> LbaT option" where
  "spacemap_space nzones = div_roundup 64 nzones SPACEMAP_ZONES_PER_LBA"

section \<open>The reader\<close>

record LabelReader =
  lr_buf :: IoVec
  lr_pos :: nat

text \<open>\<open>&db[a .. b]\<close> panics when \<open>b\<close> is beyond the end (or below \<open>a\<close>).\<close>

definition slice :: "IoVec \<Rightarrow> nat \<Rightarrow> nat \<Rightarrow> IoVec option" where
  "slice db a b = (if a \<le> b \<and> b \<le> length db then Some (take (b - a) (drop a db)) else None)"

definition label_from_dbs ::
    "'h \<Rightarrow> ('h \<Rightarrow> IoVec \<Rightarrow> 'h) \<Rightarrow> ('h \<Rightarrow> nat \<Rightarrow> 'h) \<Rightarrow> ('h \<Rightarrow> nat) \<Rightarrow> IoVec \<Rightarrow> LabelReader result option" where
  "label_from_dbs h0 hw hw64 hf db =
     (if length db < MAGIC_LEN + CHECKSUM_LEN + LENGTH_LEN then Some (Inl EINVAL)
      else do {
        m \<leftarrow> slice db 0 MAGIC_LEN;
        if MAGIC \<noteq> m then Some (Inl EINVAL)
        else do {
          c \<leftarrow> slice db MAGIC_LEN (MAGIC_LEN + CHECKSUM_LEN);
          let checksum = be_val c;
          let length_start = MAGIC_LEN + CHECKSUM_LEN;
          let contents_start = length_start + LENGTH_LEN;
          l \<leftarrow> slice db length_start contents_start;
          let contents_len = be_val l;
          contents \<leftarrow> slice db contents_start (u64 (contents_start + contents_len));
          if checksum \<noteq> hf (hw (hw64 h0 contents_len) contents) then Some (Inl ECKSUM)
          else Some (Inr \<lparr>lr_buf = db, lr_pos = contents_start\<rparr>)
        }
      })"

definition label_deserialize :: "(byte list \<Rightarrow> ('t \<times> nat) option) \<Rightarrow> LabelReader \<Rightarrow> 't option \<times> LabelReader" where
  "label_deserialize dec lr =
     (case dec (drop (lr_pos lr) (lr_buf lr)) of
        None \<Rightarrow> (None, lr)
      | Some (v, n) \<Rightarrow> (Some v, lr\<lparr>lr_pos := lr_pos lr + n\<rparr>))"

definition label_reader_lba :: "nat \<Rightarrow> LbaT option" where
  "label_reader_lba label = do { assert_that (label < LABEL_COUNT); Some (u64 (label * LABEL_LBAS)) }"

section \<open>The writer\<close>

record LabelWriter =
  lw_buffers :: SGList
  lw_label :: nat

definition label_writer_lba :: "LabelWriter \<Rightarrow> LbaT" where
  "label_writer_lba lw = u64 (lw_label lw * LABEL_LBAS)"

definition label_writer_new :: "nat \<Rightarrow> LabelWriter option" where
  "label_writer_new label =
     do { assert_that (label < LABEL_COUNT); Some \<lparr>lw_buffers = [], lw_label = label\<rparr> }"

definition label_serialize :: "('t \<Rightarrow> byte list) \<Rightarrow> LabelWriter \<Rightarrow> 't \<Rightarrow> LabelWriter" where
  "label_serialize enc lw t = lw\<lparr>lw_buffers := lw_buffers lw @ [enc t]\<rparr>"

definition label_into_sglist ::
    "'h \<Rightarrow> ('h \<Rightarrow> IoVec \<Rightarrow> 'h) \<Rightarrow> ('h \<Rightarrow> nat \<Rightarrow> 'h) \<Rightarrow> ('h \<Rightarrow> nat) \<Rightarrow> LabelWriter \<Rightarrow> SGList option" where
  "label_into_sglist h0 hw hw64 hf lw = do {
     let contents = rev (lw_buffers lw);
     let contents_len = u64 (sglist_len contents);
     let h = checksum_sglist hw contents (hw64 h0 contents_len);
     let header = MAGIC @ be_bytes 8 (hf h) @ be_bytes 8 contents_len;
     let len = u64 (MAGIC_LEN + CHECKSUM_LEN + LENGTH_LEN + contents_len);
     let padlen = wsub 64 LABEL_SIZE len;
     pad \<leftarrow> zero_sglist padlen;
     Some (header # contents @ pad)
   }"

section \<open>Lemmas\<close>

lemma length_MAGIC [simp]: "length MAGIC = 16"
  by (simp add: MAGIC_def)

text \<open>The bytes of a label, and what reading any buffer that starts like a label gives.\<close>

definition label_bytes :: "('h \<Rightarrow> nat) \<Rightarrow> 'h \<Rightarrow> byte list \<Rightarrow> byte list" where
  "label_bytes hf h contents = MAGIC @ be_bytes 8 (hf h) @ be_bytes 8 (length contents) @ contents"

lemma slices_of_label:
  assumes "length ck = 8" "length ln = 8"
  shows "slice (MAGIC @ ck @ ln @ contents @ pad) 0 16 = Some MAGIC"
    "slice (MAGIC @ ck @ ln @ contents @ pad) 16 24 = Some ck"
    "slice (MAGIC @ ck @ ln @ contents @ pad) 24 32 = Some ln"
    "slice (MAGIC @ ck @ ln @ contents @ pad) 32 (32 + length contents) = Some contents"
  using assms by (simp_all add: slice_def)

lemma from_dbs_label:
  assumes hf: "\<And>h. hf h < 2 ^ 64" and len: "length contents < 2 ^ 63"
  shows "label_from_dbs h0 hw hw64 hf (MAGIC @ be_bytes 8 ck @ be_bytes 8 (length contents) @ contents @ pad)
    = Some (if ck mod 2 ^ 64 = hf (hw (hw64 h0 (length contents)) contents)
            then Inr \<lparr>lr_buf = MAGIC @ be_bytes 8 ck @ be_bytes 8 (length contents) @ contents @ pad, lr_pos = 32\<rparr>
            else Inl ECKSUM)"
proof -
  have l: "be_val (be_bytes 8 (length contents)) = length contents" using len by (simp add: be_val_u64)
  have w: "u64 (32 + length contents) = 32 + length contents" using len by (simp add: wrapu_id)
  have c: "be_val (be_bytes 8 ck) = ck mod 2 ^ 64" by (simp add: be_val_be_bytes)
  show ?thesis
    unfolding label_from_dbs_def label_consts
    using slices_of_label[of "be_bytes 8 ck" "be_bytes 8 (length contents)" contents pad]
    by (simp add: l w c Let_def)
qed

lemma label_into_sglist_bytes:
  assumes st: "streaming hw" and len: "sglist_len (lw_buffers lw) < LABEL_SIZE - 32"
  shows "\<exists>sg pad. label_into_sglist h0 hw hw64 hf lw = Some sg \<and>
    concat sg = MAGIC @ be_bytes 8 (hf (hw (hw64 h0 (length (concat (rev (lw_buffers lw)))))
        (concat (rev (lw_buffers lw))))) @ be_bytes 8 (length (concat (rev (lw_buffers lw))))
        @ concat (rev (lw_buffers lw)) @ pad \<and>
    set pad \<subseteq> {0} \<and> length (concat sg) = LABEL_SIZE"
proof -
  let ?c = "rev (lw_buffers lw)"
  let ?n = "length (concat ?c)"
  have n: "sglist_len ?c = ?n" by (rule sglist_len_concat)
  have nl: "?n < LABEL_SIZE - 32"
    using len unfolding sglist_len_concat by (simp add: length_concat rev_map[symmetric])
  then have b: "?n < 16352" by (simp add: label_consts)
  have w: "u64 ?n = ?n" "u64 (16 + 8 + 8 + ?n) = 32 + ?n" "wsub 64 LABEL_SIZE (32 + ?n) = LABEL_SIZE - (32 + ?n)"
    using b by (simp_all add: wrapu_id wsub_id label_consts)
  have pl: "0 < LABEL_SIZE - (32 + ?n)" "LABEL_SIZE - (32 + ?n) < 2 ^ 63"
    using b by (simp_all add: label_consts)
  obtain pad where pad: "zero_sglist (LABEL_SIZE - (32 + ?n)) = Some pad"
      "concat pad = replicate (LABEL_SIZE - (32 + ?n)) 0"
    using zero_sglist_ok[OF pl] by blast
  have ck: "checksum_sglist hw ?c (hw64 h0 ?n) = hw (hw64 h0 ?n) (concat ?c)"
    using checksum_sglist_concat[OF st] by (simp add: checksum_iovec_def)
  let ?hd = "MAGIC @ be_bytes 8 (hf (hw (hw64 h0 ?n) (concat ?c))) @ be_bytes 8 ?n"
  have sg: "label_into_sglist h0 hw hw64 hf lw = Some (?hd # ?c @ pad)"
    unfolding label_into_sglist_def Let_def n w(1) ck label_consts(1-3) w(2,3) pad(1) by simp
  have "length (concat (?hd # ?c @ pad)) = LABEL_SIZE" using pl pad(2) by simp
  moreover have "set (concat pad) \<subseteq> {0}" unfolding pad(2) by auto
  ultimately show ?thesis using sg by (intro exI[of _ "?hd # ?c @ pad"] exI[of _ "concat pad"]) simp
qed

text \<open>Reading the structures of a label one after the other.\<close>

fun label_read_n :: "(byte list \<Rightarrow> ('t \<times> nat) option) \<Rightarrow> nat \<Rightarrow> LabelReader \<Rightarrow> 't list option" where
  "label_read_n dec 0 lr = Some []"
| "label_read_n dec (Suc n) lr =
     (case label_deserialize dec lr of
        (None, _) \<Rightarrow> None
      | (Some v, lr') \<Rightarrow> map_option ((#) v) (label_read_n dec n lr'))"

definition bincode_ok :: "('t \<Rightarrow> byte list) \<Rightarrow> (byte list \<Rightarrow> ('t \<times> nat) option) \<Rightarrow> bool" where
  "bincode_ok enc dec \<longleftrightarrow> (\<forall>v rest. dec (enc v @ rest) = Some (v, length (enc v)))"

lemma label_read_all:
  assumes "bincode_ok enc dec"
  shows "drop (lr_pos lr) (lr_buf lr) = concat (map enc vs) @ rest
    \<Longrightarrow> label_read_n dec (length vs) lr = Some vs"
proof (induction vs arbitrary: lr)
  case (Cons v vs)
  have d: "dec (drop (lr_pos lr) (lr_buf lr)) = Some (v, length (enc v))"
    using Cons.prems assms by (simp add: bincode_ok_def)
  have "drop (lr_pos lr + length (enc v)) (lr_buf lr) = drop (length (enc v)) (drop (lr_pos lr) (lr_buf lr))"
    by (simp add: add.commute)
  also have "\<dots> = concat (map enc vs) @ rest" unfolding Cons.prems by simp
  finally have "label_read_n dec (length vs) (lr\<lparr>lr_pos := lr_pos lr + length (enc v)\<rparr>) = Some vs"
    by (intro Cons.IH) simp
  then show ?case using d by (simp add: label_deserialize_def)
qed simp

lemma serialize_fold:
  "fold (\<lambda>t lw. label_serialize enc lw t) vs lw = lw\<lparr>lw_buffers := lw_buffers lw @ map enc vs\<rparr>"
  by (induction vs arbitrary: lw) (simp_all add: label_serialize_def)

section \<open>Properties\<close>

text \<open>C26. The label round trip. When every layer of the stack adds its structure to a label, and the
  structures fit, the writer produces exactly one label (\<open>LABEL_SIZE\<close> bytes), the reader accepts
  it, and it yields the structures in the opposite order (the last one written first). It holds for
  every streaming hasher and every self-delimiting encoding.\<close>

theorem label_roundtrip:
  assumes "streaming hw" "\<forall>h. hf h < 2 ^ 64" "bincode_ok enc dec" "idx < LABEL_COUNT"
    and "sglist_len (map enc vs) < LABEL_SIZE - 32"
  shows "\<exists>lw sg lr. label_writer_new idx = Some lw \<and>
     label_into_sglist h0 hw hw64 hf (fold (\<lambda>t lw. label_serialize enc lw t) vs lw) = Some sg \<and>
     sglist_len sg = LABEL_SIZE \<and>
     label_from_dbs h0 hw hw64 hf (concat sg) = Some (Inr lr) \<and>
     label_read_n dec (length vs) lr = Some (rev vs)"
proof -
  define lw where "lw = \<lparr>lw_buffers = map enc vs, lw_label = idx\<rparr>"
  let ?c = "concat (rev (map enc vs))"
  have w: "fold (\<lambda>t lw. label_serialize enc lw t) vs \<lparr>lw_buffers = [], lw_label = idx\<rparr> = lw"
    by (simp add: serialize_fold lw_def)
  have len: "sglist_len (lw_buffers lw) < LABEL_SIZE - 32" using assms(5) by (simp add: lw_def)
  from label_into_sglist_bytes[OF assms(1) this, of h0 hw64 hf]
  obtain sg pad where sg: "label_into_sglist h0 hw hw64 hf lw = Some sg" "length (concat sg) = LABEL_SIZE"
      "concat sg = MAGIC @ be_bytes 8 (hf (hw (hw64 h0 (length ?c)) ?c)) @ be_bytes 8 (length ?c) @ ?c @ pad"
    by (auto simp: lw_def)
  have "length ?c < 2 ^ 63"
    using assms(5) by (simp add: sglist_len_concat length_concat rev_map[symmetric] label_consts)
  then have fd: "label_from_dbs h0 hw hw64 hf (concat sg) = Some (Inr \<lparr>lr_buf = concat sg, lr_pos = 32\<rparr>)"
    unfolding sg(3) using assms(2) by (subst from_dbs_label) auto
  have "label_read_n dec (length (rev vs)) \<lparr>lr_buf = concat sg, lr_pos = 32\<rparr> = Some (rev vs)"
    by (rule label_read_all[OF assms(3), where rest = pad]) (simp add: sg(3) rev_map)
  then show ?thesis
    using sg w fd assms(4) by (auto simp: label_writer_new_def sglist_len_concat)
qed

theorem label_roundtrip_witness:
  "\<exists>lw sg lr. label_writer_new 1 = Some lw \<and>
     label_into_sglist 7 (\<lambda>h b. h + length b) (\<lambda>h n. h + n) (\<lambda>h. h mod 2 ^ 64)
       (fold (\<lambda>t lw. label_serialize (\<lambda>v. [v, v]) lw t) [5, 6] lw) = Some sg \<and>
     sglist_len sg = LABEL_SIZE \<and>
     label_from_dbs 7 (\<lambda>h b. h + length b) (\<lambda>h n. h + n) (\<lambda>h. h mod 2 ^ 64) (concat sg) = Some (Inr lr) \<and>
     label_read_n (\<lambda>bs. Some (hd bs, 2)) (Suc (Suc 0)) lr = Some [6, 5]"
  using label_roundtrip[of "\<lambda>h b. h + length b" "\<lambda>h. h mod 2 ^ 64" "\<lambda>v. [v, v]" "\<lambda>bs. Some (hd bs, 2)" 1
      "[5, 6 :: nat]" 7 "\<lambda>h n. h + n"]
  by (simp add: streaming_def bincode_ok_def label_consts sglist_len_def)

text \<open>C27. A damaged label is never accepted: if the contents no longer hash to the stored checksum, the
  reader returns \<open>ECKSUM\<close>; if the magic differs or the buffer is shorter than the header, it returns
  \<open>EINVAL\<close>.\<close>

theorem label_damage_detected:
  assumes "\<forall>h. hf h < 2 ^ 64" "length contents < 2 ^ 63" "ck < 2 ^ 64"
    and "hf (hw (hw64 h0 (length contents)) contents) \<noteq> ck"
    and "length m = 16" "m \<noteq> MAGIC" "length short < 32"
  shows "label_from_dbs h0 hw hw64 hf (MAGIC @ be_bytes 8 ck @ be_bytes 8 (length contents) @ contents @ pad)
       = Some (Inl ECKSUM) \<and>
     label_from_dbs h0 hw hw64 hf (m @ rest) = Some (Inl EINVAL) \<and>
     label_from_dbs h0 hw hw64 hf short = Some (Inl EINVAL)"
proof (intro conjI)
  show "label_from_dbs h0 hw hw64 hf (MAGIC @ be_bytes 8 ck @ be_bytes 8 (length contents) @ contents @ pad)
       = Some (Inl ECKSUM)"
    using assms(1-4) by (subst from_dbs_label) auto
  show "label_from_dbs h0 hw hw64 hf (m @ rest) = Some (Inl EINVAL)"
    using assms(5,6) by (simp add: label_from_dbs_def label_consts slice_def)
  show "label_from_dbs h0 hw hw64 hf short = Some (Inl EINVAL)"
    using assms(7) by (simp add: label_from_dbs_def label_consts)
qed

theorem label_damage_detected_witness:
  "label_from_dbs 0 (\<lambda>h b. h + sum_list b) (\<lambda>h n. h) (\<lambda>h. h mod 2 ^ 64)
     (MAGIC @ be_bytes 8 1 @ be_bytes 8 (length [3 :: nat]) @ [3] @ []) = Some (Inl ECKSUM)"
proof -
  have "hd (replicate 16 0 :: nat list) \<noteq> hd MAGIC" by (simp add: MAGIC_def)
  then have "replicate 16 0 \<noteq> MAGIC" by metis
  then show ?thesis
    using label_damage_detected[of "\<lambda>h. h mod 2 ^ 64" "[3 :: nat]" 1 "\<lambda>h b. h + sum_list b" "\<lambda>h n. h" 0
        "replicate 16 0" "[]" "[]" "[]"]
    by simp
qed

text \<open>C36. The reader trusts the length field before it has verified the checksum: a buffer with the right
  magic whose length field points beyond its end makes \<open>from_dbs\<close> panic instead of returning an
  error, so that the second label of the vdev is never tried.\<close>

theorem label_corrupt_length_panics:
  assumes "length rest < n" "n < 2 ^ 63"
  shows "label_from_dbs h0 hw hw64 hf (MAGIC @ be_bytes 8 ck @ be_bytes 8 n @ rest) = None"
proof -
  have l: "be_val (be_bytes 8 n) = n" using assms by (simp add: be_val_u64)
  have w: "u64 (32 + n) = 32 + n" using assms by (simp add: wrapu_id)
  show ?thesis
    unfolding label_from_dbs_def label_consts
    using slices_of_label[of "be_bytes 8 ck" "be_bytes 8 n" "[]" rest] assms
    by (simp add: l w Let_def) (simp add: slice_def)
qed

theorem label_corrupt_length_panics_witness:
  "label_from_dbs 0 (\<lambda>h b. h) (\<lambda>h n. h) (\<lambda>h. h) (MAGIC @ be_bytes 8 0 @ be_bytes 8 2 @ [1]) = None"
  using label_corrupt_length_panics[of "[1]" 2 0 "\<lambda>h b. h" "\<lambda>h n. h" "\<lambda>h. h" 0] by simp

end
