(* ===== verification/Vdev_Block.thy ===== *)
theory Vdev_Block
  imports Label
begin

text \<open>
  \<open>bfffs/src/common/vdev_block.rs\<close>: the I/O scheduler of one block device. Operations wait in two
  priority queues, ahead of and behind the last LBA, and in a FIFO behind a pending \<open>sync_all\<close>; up to
  \<open>optimum_queue_depth\<close> of them are in flight.

  A buffer to read into is represented by its length, and the oneshot channel that completes an
  operation by a number \<open>bo_sender\<close>, which identifies the operation. \<open>BinaryHeap::pop\<close> returns one of
  the greatest elements; which one is left open by the argument \<open>pick\<close>. Polling a leaf future is an
  argument \<open>poll\<close>.
\<close>

section \<open>Commands and operations\<close>

datatype Cmd =
    OpenZone
  | ReadAt nat
  | ReadSpacemap nat nat
  | ReadvAt "nat list"
  | WriteAt IoVec
  | WritevAt SGList
  | EraseZone LbaT
  | FinishZone LbaT
  | WriteLabel LabelWriter
  | WriteSpacemap SGList nat LbaT
  | SyncAll

fun cmd_discriminant :: "Cmd \<Rightarrow> int" where
  "cmd_discriminant OpenZone = 0"
| "cmd_discriminant (ReadAt _) = 1"
| "cmd_discriminant (ReadSpacemap _ _) = 2"
| "cmd_discriminant (ReadvAt _) = 3"
| "cmd_discriminant (WriteAt _) = 4"
| "cmd_discriminant (WritevAt _) = 5"
| "cmd_discriminant (EraseZone _) = 6"
| "cmd_discriminant (FinishZone _) = 7"
| "cmd_discriminant (WriteLabel _) = 8"
| "cmd_discriminant (WriteSpacemap _ _ _) = 9"
| "cmd_discriminant SyncAll = 10"

record BlockOp =
  bo_lba :: LbaT
  bo_cmd :: Cmd
  bo_sender :: nat

text \<open>\<open>op.cmd == Cmd::SyncAll\<close>: commands are compared by their type only.\<close>

definition cmd_eq :: "Cmd \<Rightarrow> Cmd \<Rightarrow> bool" where
  "cmd_eq a b \<longleftrightarrow> cmd_discriminant a = cmd_discriminant b"

abbreviation is_sync :: "BlockOp \<Rightarrow> bool" where
  "is_sync op \<equiv> cmd_eq (bo_cmd op) SyncAll"

text \<open>\<open>Ord for BlockOp\<close> is reversed, so that the heap yields the least LBA, then the least command:
  \<open>block_op_le a b\<close> says that \<open>a\<close> is to be issued no later than \<open>b\<close>.\<close>

definition block_op_le :: "BlockOp \<Rightarrow> BlockOp \<Rightarrow> bool" where
  "block_op_le a b \<longleftrightarrow> bo_lba a < bo_lba b \<or>
     bo_lba a = bo_lba b \<and> cmd_discriminant (bo_cmd a) \<le> cmd_discriminant (bo_cmd b)"

definition block_op_len :: "BlockOp \<Rightarrow> nat" where
  "block_op_len op =
     (case bo_cmd op of
        WriteAt iovec \<Rightarrow> length iovec
      | ReadAt n \<Rightarrow> n
      | WritevAt sglist \<Rightarrow> u64 (foldl (\<lambda>acc iovec. acc + length iovec) 0 sglist)
      | ReadvAt ns \<Rightarrow> u64 (foldl (+) 0 ns)
      | _ \<Rightarrow> 0)"

section \<open>The scheduler\<close>

record Inner =
  bi_delayed :: "BlockOp option"
  bi_optimum_queue_depth :: nat
  bi_queue_depth :: nat
  bi_last_lba :: LbaT
  bi_syncing :: bool
  bi_ahead :: "BlockOp list"
  bi_behind :: "BlockOp list"
  bi_after_sync :: "BlockOp list"

definition heap_pop :: "(BlockOp list \<Rightarrow> nat) \<Rightarrow> BlockOp list \<Rightarrow> (BlockOp \<times> BlockOp list) option" where
  "heap_pop pick h = (if h = [] then None else Some (h ! pick h, take (pick h) h @ drop (pick h + 1) h))"

definition heap_push :: "BlockOp \<Rightarrow> BlockOp list \<Rightarrow> BlockOp list" where
  "heap_push op h = h @ [op]"

definition sched :: "Inner \<Rightarrow> BlockOp \<Rightarrow> Inner" where
  "sched st op =
     (if is_sync op \<or> bi_syncing st then
        st\<lparr>bi_syncing := True, bi_after_sync := bi_after_sync st @ [op]\<rparr>
      else if bo_lba op \<ge> bi_last_lba st then st\<lparr>bi_ahead := heap_push op (bi_ahead st)\<rparr>
      else st\<lparr>bi_behind := heap_push op (bi_behind st)\<rparr>)"

text \<open>The loop of \<open>pop_op\<close> that reschedules the operations that follow a \<open>sync_all\<close>.\<close>

fun resched :: "BlockOp list \<Rightarrow> Inner \<Rightarrow> Inner" where
  "resched [] st = st\<lparr>bi_after_sync := []\<rparr>"
| "resched (op # rest) st =
     (if is_sync op then st\<lparr>bi_syncing := True, bi_after_sync := op # rest\<rparr>
      else resched rest (sched (st\<lparr>bi_after_sync := rest\<rparr>) op))"

definition pop_op :: "(BlockOp list \<Rightarrow> nat) \<Rightarrow> Inner \<Rightarrow> (BlockOp option \<times> Inner) option" where
  "pop_op pick st =
     (case heap_pop pick (bi_ahead st) of
        Some (op, h) \<Rightarrow> Some (Some op, st\<lparr>bi_ahead := h, bi_last_lba := bo_lba op\<rparr>)
      | None \<Rightarrow>
          (case heap_pop pick (bi_behind st) of
             Some (op, h) \<Rightarrow> Some (Some op, st\<lparr>bi_ahead := h, bi_behind := bi_ahead st, bi_last_lba := bo_lba op\<rparr>)
           | None \<Rightarrow>
               if bi_syncing st then
                 (case bi_after_sync st of
                    [] \<Rightarrow> None
                  | op # rest \<Rightarrow>
                      Some (Some op, if is_sync op then resched rest (st\<lparr>bi_syncing := False, bi_after_sync := rest\<rparr>)
                                     else st\<lparr>bi_after_sync := rest\<rparr>))
               else Some (None, st)))"

datatype Poll = EAgain | PollErr | NotReady | Ready

text \<open>\<open>make_fut\<close> counts the operation as queued; the leaf operation it starts is \<open>leaf_op\<close> below.\<close>

definition make_fut :: "Inner \<Rightarrow> BlockOp \<Rightarrow> Inner" where
  "make_fut st op = st\<lparr>bi_queue_depth := u32 (bi_queue_depth st + 1)\<rparr>"

datatype LeafOp =
    LWriteAt IoVec LbaT
  | LReadAt nat LbaT
  | LWritevAt SGList LbaT
  | LReadSpacemap nat nat
  | LReadvAt "nat list" LbaT
  | LEraseZone LbaT
  | LFinishZone LbaT
  | LOpenZone LbaT
  | LWriteLabel LabelWriter
  | LWriteSpacemap SGList nat LbaT
  | LSyncAll

definition leaf_op :: "BlockOp \<Rightarrow> LeafOp" where
  "leaf_op op =
     (let lba = bo_lba op in
      case bo_cmd op of
        WriteAt iovec \<Rightarrow> LWriteAt iovec lba
      | ReadAt n \<Rightarrow> LReadAt n lba
      | WritevAt sglist \<Rightarrow> LWritevAt sglist lba
      | ReadSpacemap n idx \<Rightarrow> LReadSpacemap n idx
      | ReadvAt ns \<Rightarrow> LReadvAt ns lba
      | EraseZone start \<Rightarrow> LEraseZone start
      | FinishZone start \<Rightarrow> LFinishZone start
      | OpenZone \<Rightarrow> LOpenZone lba
      | WriteLabel labeller \<Rightarrow> LWriteLabel labeller
      | WriteSpacemap sglist idx block \<Rightarrow> LWriteSpacemap sglist idx block
      | SyncAll \<Rightarrow> LSyncAll)"

text \<open>\<open>issue_fut\<close>: the outcome is whether the operation has to be delayed; an error other than \<open>EAGAIN\<close>
  is a panic.\<close>

definition issue_fut :: "(BlockOp \<Rightarrow> Poll) \<Rightarrow> Inner \<Rightarrow> BlockOp \<Rightarrow> (bool \<times> Inner) option" where
  "issue_fut poll st op =
     (case poll op of
        EAgain \<Rightarrow> Some (True, st)
      | PollErr \<Rightarrow> None
      | NotReady \<Rightarrow> Some (False, st)
      | Ready \<Rightarrow> Some (False, st\<lparr>bi_queue_depth := wsub 32 (bi_queue_depth st) 1\<rparr>))"

definition pending :: "Inner \<Rightarrow> BlockOp list" where
  "pending st = bi_ahead st @ bi_behind st @ bi_after_sync st"

text \<open>One turn of the loop of \<open>issue_all\<close>: the operation that was delayed, or the next pending one.\<close>

definition next_op :: "(BlockOp list \<Rightarrow> nat) \<Rightarrow> Inner \<Rightarrow> (BlockOp option \<times> Inner) option" where
  "next_op pick st =
     (case bi_delayed st of
        Some op \<Rightarrow> Some (Some op, st\<lparr>bi_delayed := None\<rparr>)
      | None \<Rightarrow> (case pop_op pick st of
          None \<Rightarrow> None
        | Some (None, st') \<Rightarrow> Some (None, st')
        | Some (Some op, st') \<Rightarrow> Some (Some op, make_fut st' op)))"

text \<open>
  \<open>issue_all\<close>, with the operations that were given to the leaf, in order. Each turn takes one
  operation, so that \<open>fuel\<close> turns, one more than there are operations, are enough.
\<close>

fun issue_loop :: "(BlockOp list \<Rightarrow> nat) \<Rightarrow> (BlockOp \<Rightarrow> Poll) \<Rightarrow> nat \<Rightarrow> Inner \<Rightarrow> (BlockOp list \<times> Inner) option" where
  "issue_loop pick poll 0 st = None"
| "issue_loop pick poll (Suc fuel) st =
     (if bi_queue_depth st < bi_optimum_queue_depth st then
        (case next_op pick st of
           None \<Rightarrow> None
         | Some (None, st') \<Rightarrow> Some ([], st')
         | Some (Some op, st') \<Rightarrow>
             (case issue_fut poll st' op of
                None \<Rightarrow> None
              | Some (True, st'') \<Rightarrow> Some ([], st''\<lparr>bi_delayed := Some op\<rparr>)
              | Some (False, st'') \<Rightarrow>
                  map_option (\<lambda>(ops, s). (op # ops, s)) (issue_loop pick poll fuel st'')))
      else Some ([], st))"

definition issue_all :: "(BlockOp list \<Rightarrow> nat) \<Rightarrow> (BlockOp \<Rightarrow> Poll) \<Rightarrow> Inner \<Rightarrow> (BlockOp list \<times> Inner) option" where
  "issue_all pick poll st =
     issue_loop pick poll (length (pending st) + (if bi_delayed st = None then 0 else 1) + 1) st"

definition sched_and_issue ::
    "(BlockOp list \<Rightarrow> nat) \<Rightarrow> (BlockOp \<Rightarrow> Poll) \<Rightarrow> Inner \<Rightarrow> BlockOp \<Rightarrow> (BlockOp list \<times> Inner) option" where
  "sched_and_issue pick poll st op = issue_all pick poll (sched st op)"

text \<open>The continuation that \<open>issue_fut\<close> spawns: an operation in flight completes.\<close>

definition op_complete :: "(BlockOp list \<Rightarrow> nat) \<Rightarrow> (BlockOp \<Rightarrow> Poll) \<Rightarrow> Inner \<Rightarrow> (BlockOp list \<times> Inner) option" where
  "op_complete pick poll st =
     issue_all pick poll (st\<lparr>bi_queue_depth := wsub 32 (bi_queue_depth st) 1\<rparr>)"

section \<open>The vdev\<close>

record VdevBlock =
  vb_inner :: Inner
  vb_size :: LbaT
  vb_spacemap_space :: LbaT

definition vdev_block_new :: "nat \<Rightarrow> LbaT \<Rightarrow> LbaT \<Rightarrow> VdevBlock" where
  "vdev_block_new optimum_queue_depth sz sm_space =
     \<lparr>vb_inner = \<lparr>bi_delayed = None, bi_optimum_queue_depth = optimum_queue_depth, bi_queue_depth = 0,
        bi_last_lba = 0, bi_syncing = False, bi_ahead = [], bi_behind = [], bi_after_sync = []\<rparr>,
      vb_size = sz, vb_spacemap_space = sm_space\<rparr>"

definition check_iovec_bounds :: "VdevBlock \<Rightarrow> LbaT \<Rightarrow> nat \<Rightarrow> unit option" where
  "check_iovec_bounds vb lba buflen =
     (let last_lba = u64 (lba + buflen div BYTES_PER_LBA) in assert_that (last_lba < vb_size vb))"

definition check_sglist_bounds :: "VdevBlock \<Rightarrow> LbaT \<Rightarrow> nat list \<Rightarrow> unit option" where
  "check_sglist_bounds vb lba buflens =
     (let len = u64 (foldl (+) 0 buflens)
      in assert_that (u64 (lba + len div BYTES_PER_LBA) < vb_size vb))"

text \<open>Each of the vdev's operations makes a \<open>BlockOp\<close>, which is scheduled when its future is polled.\<close>

definition vb_erase_zone :: "LbaT \<Rightarrow> LbaT \<Rightarrow> nat \<Rightarrow> BlockOp" where
  "vb_erase_zone start end sender = \<lparr>bo_lba = end, bo_cmd = EraseZone start, bo_sender = sender\<rparr>"

definition vb_finish_zone :: "LbaT \<Rightarrow> LbaT \<Rightarrow> nat \<Rightarrow> BlockOp" where
  "vb_finish_zone start end sender = \<lparr>bo_lba = end, bo_cmd = FinishZone start, bo_sender = sender\<rparr>"

definition vb_open_zone :: "LbaT \<Rightarrow> nat \<Rightarrow> BlockOp" where
  "vb_open_zone start sender = \<lparr>bo_lba = start, bo_cmd = OpenZone, bo_sender = sender\<rparr>"

definition vb_read_at :: "VdevBlock \<Rightarrow> nat \<Rightarrow> LbaT \<Rightarrow> nat \<Rightarrow> BlockOp option" where
  "vb_read_at vb buflen lba sender = do {
     check_iovec_bounds vb lba buflen;
     Some \<lparr>bo_lba = lba, bo_cmd = ReadAt buflen, bo_sender = sender\<rparr>
   }"

definition vb_read_spacemap :: "VdevBlock \<Rightarrow> nat \<Rightarrow> nat \<Rightarrow> nat \<Rightarrow> BlockOp" where
  "vb_read_spacemap vb buflen idx sender =
     \<lparr>bo_lba = u64 (1 + vb_spacemap_space vb * idx), bo_cmd = ReadSpacemap buflen idx, bo_sender = sender\<rparr>"

definition vb_readv_at :: "VdevBlock \<Rightarrow> nat list \<Rightarrow> LbaT \<Rightarrow> nat \<Rightarrow> BlockOp option" where
  "vb_readv_at vb buflens lba sender = do {
     check_sglist_bounds vb lba buflens;
     Some \<lparr>bo_lba = lba, bo_cmd = ReadvAt buflens, bo_sender = sender\<rparr>
   }"

definition vb_write_at :: "VdevBlock \<Rightarrow> IoVec \<Rightarrow> LbaT \<Rightarrow> nat \<Rightarrow> BlockOp option" where
  "vb_write_at vb buf lba sender = do {
     check_iovec_bounds vb lba (length buf);
     let op = \<lparr>bo_lba = lba, bo_cmd = WriteAt buf, bo_sender = sender\<rparr>;
     assert_that (block_op_len op mod BYTES_PER_LBA = 0);
     Some op
   }"

definition vb_write_label :: "LabelWriter \<Rightarrow> nat \<Rightarrow> BlockOp" where
  "vb_write_label labeller sender = \<lparr>bo_lba = 0, bo_cmd = WriteLabel labeller, bo_sender = sender\<rparr>"

definition vb_write_spacemap :: "VdevBlock \<Rightarrow> SGList \<Rightarrow> nat \<Rightarrow> LbaT \<Rightarrow> nat \<Rightarrow> BlockOp" where
  "vb_write_spacemap vb sglist idx block sender =
     \<lparr>bo_lba = u64 (1 + vb_spacemap_space vb * idx + block), bo_cmd = WriteSpacemap sglist idx block,
      bo_sender = sender\<rparr>"

definition vb_writev_at :: "VdevBlock \<Rightarrow> SGList \<Rightarrow> LbaT \<Rightarrow> nat \<Rightarrow> BlockOp option" where
  "vb_writev_at vb bufs lba sender = do {
     check_sglist_bounds vb lba (map length bufs);
     let op = \<lparr>bo_lba = lba, bo_cmd = WritevAt bufs, bo_sender = sender\<rparr>;
     assert_that (block_op_len op mod BYTES_PER_LBA = 0);
     Some op
   }"

definition vb_sync_all :: "nat \<Rightarrow> BlockOp" where
  "vb_sync_all sender = \<lparr>bo_lba = 0, bo_cmd = SyncAll, bo_sender = sender\<rparr>"

definition vb_poll :: "(BlockOp list \<Rightarrow> nat) \<Rightarrow> (BlockOp \<Rightarrow> Poll) \<Rightarrow> VdevBlock \<Rightarrow> BlockOp option \<Rightarrow>
    (BlockOp list \<times> VdevBlock) option" where
  "vb_poll pick poll vb block_op =
     (case block_op of
        None \<Rightarrow> Some ([], vb)
      | Some op \<Rightarrow> map_option (\<lambda>(ops, st). (ops, vb\<lparr>vb_inner := st\<rparr>)) (sched_and_issue pick poll (vb_inner vb) op))"

end
