(* ===== verification/Vdev_Block_Correct.thy ===== *)
theory Vdev_Block_Correct
  imports Vdev_Block "HOL-Library.Multiset"
begin

text \<open>
  The correctness of the I/O scheduler of \<open>vdev_block.rs\<close>. \<open>locale priority_queue\<close> is what the
  scheduler relies on of \<open>BinaryHeap\<close>; \<open>sched_run\<close> is the step relation of the scheduler, driven by
  submissions, completions and the timer that retries after \<open>EAGAIN\<close>. The invariant \<open>sched_inv\<close>
  gives the C-LOOK order, the \<open>sync_all\<close> barrier and that no operation is lost or repeated.
\<close>

section \<open>The contract of the priority queues\<close>

locale priority_queue =
  fixes push :: "'a \<Rightarrow> 'q \<Rightarrow> 'q"
    and pop :: "'p \<Rightarrow> 'q \<Rightarrow> ('a \<times> 'q) option"
    and ok :: "'p \<Rightarrow> bool"
    and elems :: "'q \<Rightarrow> 'a multiset"
    and le :: "'a \<Rightarrow> 'a \<Rightarrow> bool"
  assumes push_elems: "elems (push x q) = add_mset x (elems q)"
    and pop_None: "pop p q = None \<longleftrightarrow> elems q = {#}"
    and pop_elems: "ok p \<Longrightarrow> pop p q = Some (x, q') \<Longrightarrow> elems q = add_mset x (elems q')"
    and pop_least: "ok p \<Longrightarrow> pop p q = Some (x, q') \<Longrightarrow> y \<in># elems q \<Longrightarrow> le x y"
begin

lemma pop_push: "\<exists>y q'. pop p (push x q) = Some (y, q')"
  using pop_None[of p "push x q"] by (cases "pop p (push x q)") (auto simp: push_elems)

lemma pop_mem: "ok p \<Longrightarrow> pop p q = Some (x, q') \<Longrightarrow> x \<in># elems q"
  by (simp add: pop_elems)

lemma pop_subset: "ok p \<Longrightarrow> pop p q = Some (x, q') \<Longrightarrow> y \<in># elems q' \<Longrightarrow> y \<in># elems q"
  by (simp add: pop_elems)

lemma pops_in_order:
  "ok p \<Longrightarrow> pop p q = Some (x, q') \<Longrightarrow> pop p q' = Some (y, q'') \<Longrightarrow> le x y"
  by (rule pop_least[of p q x q'], assumption+) (simp add: pop_subset pop_mem)

lemma pop_size: "ok p \<Longrightarrow> pop p q = Some (x, q') \<Longrightarrow> size (elems q) = Suc (size (elems q'))"
  by (simp add: pop_elems)

end

text \<open>What \<open>BinaryHeap::pop\<close> promises: the element it removes is one of those to be issued first.\<close>

definition heap_pick_ok :: "(BlockOp list \<Rightarrow> nat) \<Rightarrow> bool" where
  "heap_pick_ok pick \<longleftrightarrow>
     (\<forall>h. h \<noteq> [] \<longrightarrow> pick h < length h \<and> (\<forall>x \<in> set h. block_op_le (h ! pick h) x))"

lemma mset_remove_nth:
  "i < length h \<Longrightarrow> mset h = add_mset (h ! i) (mset (take i h @ drop (i + 1) h))"
proof -
  assume i: "i < length h"
  have "mset h = mset (take i h @ h ! i # drop (i + 1) h)"
    using id_take_nth_drop[OF i] by simp
  then show ?thesis by simp
qed

interpretation heap: priority_queue heap_push heap_pop heap_pick_ok mset block_op_le
proof unfold_locales
  fix p q and x :: BlockOp and q'
  assume ok: "heap_pick_ok p" and pop: "heap_pop p q = Some (x, q')"
  then have q: "p q < length q" "x = q ! p q" "q' = take (p q) q @ drop (p q + 1) q"
    by (auto simp: heap_pop_def heap_pick_ok_def split: if_splits)
  then show "mset q = add_mset x (mset q')" using mset_remove_nth by simp
  show "block_op_le x y" if "y \<in># mset q" for y
    using that ok q by (cases "q = []") (auto simp: heap_pick_ok_def)
qed (auto simp: heap_push_def heap_pop_def)

section \<open>Each operation of the scheduler\<close>

text \<open>The operations that wait to be ordered by LBA; those behind a \<open>sync_all\<close> are not among them.\<close>

definition sortable :: "Inner \<Rightarrow> BlockOp multiset" where
  "sortable st = mset (bi_ahead st) + mset (bi_behind st)"

text \<open>
  The choice of C-LOOK: the least operation at or after the last LBA, and the least of all when there
  is none.
\<close>

definition clook_next :: "LbaT \<Rightarrow> BlockOp multiset \<Rightarrow> BlockOp \<Rightarrow> bool" where
  "clook_next last_lba ops op \<longleftrightarrow> op \<in># ops \<and>
     (\<forall>y \<in># ops. if last_lba \<le> bo_lba op then last_lba \<le> bo_lba y \<longrightarrow> block_op_le op y
                 else bo_lba y < last_lba \<and> block_op_le op y)"

definition inner_ok :: "Inner \<Rightarrow> bool" where
  "inner_ok st \<longleftrightarrow>
     (\<forall>op \<in># mset (bi_ahead st). bi_last_lba st \<le> bo_lba op \<and> \<not> is_sync op) \<and>
     (\<forall>op \<in># mset (bi_behind st). bo_lba op < bi_last_lba st \<and> \<not> is_sync op) \<and>
     (bi_syncing st \<longleftrightarrow> bi_after_sync st \<noteq> []) \<and>
     (bi_after_sync st \<noteq> [] \<longrightarrow> is_sync (hd (bi_after_sync st)))"

lemma sched_sync:
  "is_sync op \<or> bi_syncing st \<Longrightarrow>
     sortable (sched st op) = sortable st \<and> bi_after_sync (sched st op) = bi_after_sync st @ [op]"
  by (simp add: sched_def sortable_def)

lemma sched_plain:
  "\<not> is_sync op \<Longrightarrow> \<not> bi_syncing st \<Longrightarrow>
     sortable (sched st op) = add_mset op (sortable st) \<and> bi_after_sync (sched st op) = bi_after_sync st \<and>
     bi_syncing (sched st op) = bi_syncing st"
  by (simp add: sched_def sortable_def heap.push_elems)

lemma sched_ok: "inner_ok st \<Longrightarrow> inner_ok (sched st op)"
  by (auto simp: inner_ok_def sched_def heap_push_def)

lemma sched_frame [simp]:
  "bi_delayed (sched st op) = bi_delayed st" "bi_queue_depth (sched st op) = bi_queue_depth st"
  "bi_optimum_queue_depth (sched st op) = bi_optimum_queue_depth st"
  "bi_last_lba (sched st op) = bi_last_lba st"
  by (simp_all add: sched_def)

lemma resched_frame [simp]:
  "bi_delayed (resched ops st) = bi_delayed st" "bi_queue_depth (resched ops st) = bi_queue_depth st"
  "bi_optimum_queue_depth (resched ops st) = bi_optimum_queue_depth st"
  "bi_last_lba (resched ops st) = bi_last_lba st"
  by (induction ops st rule: resched.induct) auto

lemma sched_set_after: "\<not> is_sync op \<Longrightarrow> \<not> bi_syncing st \<Longrightarrow>
    (sched st op)\<lparr>bi_after_sync := r\<rparr> = sched (st\<lparr>bi_after_sync := r\<rparr>) op"
  by (simp add: sched_def)

lemma resched_ok:
  "\<not> bi_syncing st \<Longrightarrow> inner_ok (st\<lparr>bi_after_sync := []\<rparr>) \<Longrightarrow> inner_ok (resched ops st)"
proof (induction ops arbitrary: st)
  case (Cons op ops)
  show ?case
  proof (cases "is_sync op")
    case True
    then show ?thesis using Cons.prems by (simp add: inner_ok_def)
  next
    case False
    let ?st = "sched (st\<lparr>bi_after_sync := ops\<rparr>) op"
    have "?st\<lparr>bi_after_sync := []\<rparr> = sched (st\<lparr>bi_after_sync := []\<rparr>) op"
      using False Cons.prems by (simp add: sched_set_after)
    moreover have "\<not> bi_syncing ?st" using False Cons.prems by (simp add: sched_def)
    ultimately show ?thesis using False Cons.IH Cons.prems sched_ok by simp
  qed
qed simp

lemma resched_split:
  assumes "\<not> bi_syncing st"
  obtains pre where "ops = pre @ bi_after_sync (resched ops st)"
    and "sortable (resched ops st) = sortable st + mset pre"
  using assms
proof (induction ops arbitrary: st thesis)
  case Nil
  show ?case by (rule Nil(1)[of "[]"]) (simp_all add: sortable_def)
next
  case (Cons op ops)
  show ?case
  proof (cases "is_sync op")
    case True
    show ?thesis by (rule Cons.prems(1)[of "[]"]) (use True in \<open>simp_all add: sortable_def\<close>)
  next
    case False
    let ?st = "sched (st\<lparr>bi_after_sync := ops\<rparr>) op"
    have s: "\<not> bi_syncing ?st" "sortable ?st = add_mset op (sortable st)"
      using False Cons.prems(2) sched_plain[of op "st\<lparr>bi_after_sync := ops\<rparr>"] by (simp_all add: sortable_def)
    obtain pre where "ops = pre @ bi_after_sync (resched ops ?st)"
      "sortable (resched ops ?st) = sortable ?st + mset pre"
      using Cons.IH[OF _ s(1)] by blast
    then show ?thesis using False s by (intro Cons.prems(1)[of "op # pre"]) simp_all
  qed
qed

lemma pop_op_sortable:
  assumes ok: "inner_ok st" "heap_pick_ok pick" and ne: "sortable st \<noteq> {#}"
  shows "\<exists>op st'. pop_op pick st = Some (Some op, st') \<and> clook_next (bi_last_lba st) (sortable st) op \<and>
    sortable st = add_mset op (sortable st') \<and> bi_after_sync st' = bi_after_sync st \<and>
    bi_last_lba st' = bo_lba op \<and> inner_ok st'"
proof (cases "heap_pop pick (bi_ahead st)")
  case (Some r)
  obtain op h where pop: "heap_pop pick (bi_ahead st) = Some (op, h)" using Some by (cases r) auto
  have els: "mset (bi_ahead st) = add_mset op (mset h)" and
    least: "\<And>y. y \<in># mset (bi_ahead st) \<Longrightarrow> block_op_le op y"
    using heap.pop_elems[OF ok(2) pop] heap.pop_least[OF ok(2) pop] by auto
  have mem: "op \<in># mset (bi_ahead st)" using els by simp
  have "clook_next (bi_last_lba st) (sortable st) op"
    using ok(1) mem least unfolding clook_next_def inner_ok_def sortable_def by auto
  moreover have "inner_ok (st\<lparr>bi_ahead := h, bi_last_lba := bo_lba op\<rparr>)"
  proof -
    have "bo_lba op \<le> bo_lba y" if "y \<in># mset h" for y
      using least[of y] that els by (auto simp: block_op_le_def)
    moreover have "bi_last_lba st \<le> bo_lba op" using ok(1) mem by (auto simp: inner_ok_def)
    ultimately show ?thesis using ok(1) els unfolding inner_ok_def by fastforce
  qed
  ultimately show ?thesis using pop els by (auto simp: pop_op_def sortable_def)
next
  case None
  then have ah: "bi_ahead st = []" using heap.pop_None by auto
  then obtain op h where pop: "heap_pop pick (bi_behind st) = Some (op, h)"
    using ne heap.pop_None[of pick "bi_behind st"] by (cases "heap_pop pick (bi_behind st)") (auto simp: sortable_def)
  have els: "mset (bi_behind st) = add_mset op (mset h)" and
    least: "\<And>y. y \<in># mset (bi_behind st) \<Longrightarrow> block_op_le op y"
    using heap.pop_elems[OF ok(2) pop] heap.pop_least[OF ok(2) pop] by auto
  have mem: "op \<in># mset (bi_behind st)" using els by simp
  have "clook_next (bi_last_lba st) (sortable st) op"
    using ok(1) mem least ah unfolding clook_next_def inner_ok_def sortable_def by auto
  moreover have "inner_ok (st\<lparr>bi_ahead := h, bi_behind := [], bi_last_lba := bo_lba op\<rparr>)"
  proof -
    have "bo_lba op \<le> bo_lba y" if "y \<in># mset h" for y
      using least[of y] that els by (auto simp: block_op_le_def)
    then show ?thesis using ok(1) els unfolding inner_ok_def by fastforce
  qed
  ultimately show ?thesis using pop els None ah by (auto simp: pop_op_def sortable_def)
qed

lemma pop_op_sync:
  assumes ok: "inner_ok st" and e: "sortable st = {#}" and aft: "bi_after_sync st = op # rest"
  shows "is_sync op \<and> (\<exists>st' pre. pop_op pick st = Some (Some op, st') \<and> rest = pre @ bi_after_sync st' \<and>
    sortable st' = mset pre \<and> inner_ok st')"
proof -
  let ?st = "st\<lparr>bi_syncing := False, bi_after_sync := rest\<rparr>"
  have h: "bi_ahead st = []" "bi_behind st = []" using e by (auto simp: sortable_def)
  have s: "is_sync op" "bi_syncing st" using ok aft by (auto simp: inner_ok_def)
  have pop: "pop_op pick st = Some (Some op, resched rest ?st)"
    using h s aft by (simp add: pop_op_def heap_pop_def)
  obtain pre where "rest = pre @ bi_after_sync (resched rest ?st)"
    "sortable (resched rest ?st) = sortable ?st + mset pre"
    using resched_split[of ?st rest] by auto
  moreover have "sortable ?st = {#}" using h by (simp add: sortable_def)
  moreover have "inner_ok (resched rest ?st)" using h by (intro resched_ok) (auto simp: inner_ok_def)
  ultimately show ?thesis using pop s by auto
qed

lemma pop_op_idle:
  "inner_ok st \<Longrightarrow> sortable st = {#} \<Longrightarrow> bi_after_sync st = [] \<Longrightarrow> pop_op pick st = Some (None, st)"
  by (simp add: pop_op_def heap_pop_def inner_ok_def sortable_def)

lemma pop_op_frame:
  "pop_op pick st = Some (r, st') \<Longrightarrow> bi_delayed st' = bi_delayed st \<and>
     bi_queue_depth st' = bi_queue_depth st \<and> bi_optimum_queue_depth st' = bi_optimum_queue_depth st"
  by (auto simp: pop_op_def split: option.splits if_splits list.splits)

section \<open>Runs of the scheduler\<close>

text \<open>The operations taken out of the queues: those issued, then the one held back by \<open>EAGAIN\<close>.\<close>

definition taken :: "Inner \<Rightarrow> BlockOp list \<Rightarrow> BlockOp list" where
  "taken st issued = issued @ (case bi_delayed st of None \<Rightarrow> [] | Some op \<Rightarrow> [op])"

definition sync_barrier :: "BlockOp list \<Rightarrow> BlockOp list \<Rightarrow> bool" where
  "sync_barrier submitted issued \<longleftrightarrow>
     (\<forall>P s Q. issued = P @ s # Q \<and> is_sync s \<longrightarrow> (\<exists>A B. submitted = A @ s # B \<and> mset A = mset P))"

definition sched_inv :: "Inner \<Rightarrow> BlockOp list \<Rightarrow> BlockOp list \<Rightarrow> bool" where
  "sched_inv st submitted took \<longleftrightarrow> inner_ok st \<and>
     (\<exists>A. submitted = A @ bi_after_sync st \<and> mset A = mset took + sortable st) \<and>
     sync_barrier submitted took"

definition depth_ok :: "Inner \<Rightarrow> bool" where
  "depth_ok st \<longleftrightarrow> bi_queue_depth st \<le> bi_optimum_queue_depth st \<and> bi_optimum_queue_depth st < 2 ^ 32 \<and>
     (bi_delayed st \<noteq> None \<longrightarrow> 1 \<le> bi_queue_depth st)"

lemma inner_ok_update [simp]:
  "inner_ok (st\<lparr>bi_delayed := d\<rparr>) = inner_ok st" "inner_ok (st\<lparr>bi_queue_depth := n\<rparr>) = inner_ok st"
  "sortable (st\<lparr>bi_delayed := d\<rparr>) = sortable st" "sortable (st\<lparr>bi_queue_depth := n\<rparr>) = sortable st"
  by (simp_all add: inner_ok_def sortable_def)

lemma sched_inv_update [simp]:
  "sched_inv (st\<lparr>bi_delayed := d\<rparr>) sub took = sched_inv st sub took"
  "sched_inv (st\<lparr>bi_queue_depth := n\<rparr>) sub took = sched_inv st sub took"
  by (simp_all add: sched_inv_def)

lemma sync_barrier_submit: "sync_barrier sub took \<Longrightarrow> sync_barrier (sub @ [op]) took"
  unfolding sync_barrier_def by fastforce

lemma sync_barrier_take:
  assumes "sync_barrier sub took" "is_sync op \<Longrightarrow> \<exists>A B. sub = A @ op # B \<and> mset A = mset took"
  shows "sync_barrier sub (took @ [op])"
  unfolding sync_barrier_def
proof (intro allI impI)
  fix P s Q
  assume *: "took @ [op] = P @ s # Q \<and> is_sync s"
  show "\<exists>A B. sub = A @ s # B \<and> mset A = mset P"
  proof (cases Q rule: rev_cases)
    case Nil
    then show ?thesis using * assms(2) by simp
  next
    case (snoc Q' q)
    then have "took = P @ s # Q'" using * by simp
    then show ?thesis using * assms(1) unfolding sync_barrier_def by blast
  qed
qed

lemma sched_inv_sched: "sched_inv st sub took \<Longrightarrow> sched_inv (sched st op) (sub @ [op]) took"
proof -
  assume inv: "sched_inv st sub took"
  then obtain A where A: "sub = A @ bi_after_sync st" "mset A = mset took + sortable st"
    and ok: "inner_ok st" by (auto simp: sched_inv_def)
  have bar: "sync_barrier (sub @ [op]) took" using inv by (simp add: sched_inv_def sync_barrier_submit)
  show ?thesis
  proof (cases "is_sync op \<or> bi_syncing st")
    case True
    then have "sub @ [op] = A @ bi_after_sync (sched st op)" "mset A = mset took + sortable (sched st op)"
      using A sched_sync[of op st] by auto
    then show ?thesis using bar sched_ok[OF ok] unfolding sched_inv_def by blast
  next
    case False
    then have "bi_after_sync st = []" using ok by (simp add: inner_ok_def)
    then have "sub @ [op] = (A @ [op]) @ bi_after_sync (sched st op)"
      "mset (A @ [op]) = mset took + sortable (sched st op)"
      using A False sched_plain[of op st] by auto
    then show ?thesis using bar sched_ok[OF ok] unfolding sched_inv_def by blast
  qed
qed

lemma sched_inv_pop:
  assumes inv: "sched_inv st sub took" and pick: "heap_pick_ok pick"
    and pop: "pop_op pick st = Some (Some op, st')"
  shows "sched_inv st' sub (took @ [op])"
proof -
  obtain A where A: "sub = A @ bi_after_sync st" "mset A = mset took + sortable st"
    and ok: "inner_ok st" and bar: "sync_barrier sub took"
    using inv by (auto simp: sched_inv_def)
  show ?thesis
  proof (cases "sortable st = {#}")
    case False
    note p = pop_op_sortable[OF ok pick False]
    have s: "sortable st = add_mset op (sortable st')" "bi_after_sync st' = bi_after_sync st" "inner_ok st'"
      using p pop by auto
    have "op \<in># sortable st" using s(1) by simp
    then have "\<not> is_sync op" using ok by (auto simp: inner_ok_def sortable_def)
    then have "sync_barrier sub (took @ [op])" using sync_barrier_take[OF bar] by blast
    then show ?thesis using A s by (auto simp: sched_inv_def)
  next
    case True
    then obtain rest where aft: "bi_after_sync st = op # rest"
      using pop pop_op_idle[OF ok True, of pick] pop_op_sync[OF ok True, where pick = pick]
      by (cases "bi_after_sync st") auto
    obtain pre where s: "rest = pre @ bi_after_sync st'" "sortable st' = mset pre" "inner_ok st'"
      using pop_op_sync[OF ok True aft, of pick] pop by auto
    have sub: "sub = A @ op # rest" "mset A = mset took" using A True aft by auto
    then have "sync_barrier sub (took @ [op])" by (intro sync_barrier_take[OF bar]) blast
    moreover have "sub = (A @ op # pre) @ bi_after_sync st'" "mset (A @ op # pre) = mset (took @ [op]) + sortable st'"
      using s sub by auto
    ultimately show ?thesis using s(3) unfolding sched_inv_def by blast
  qed
qed

lemma next_op_inv:
  assumes inv: "sched_inv st sub (taken st issued)" and pick: "heap_pick_ok pick"
    and nxt: "next_op pick st = Some (Some op, st')"
  shows "sched_inv st' sub (issued @ [op]) \<and> bi_delayed st' = None"
proof (cases "bi_delayed st")
  case None
  then obtain st1 where pop: "pop_op pick st = Some (Some op, st1)" and st': "st' = make_fut st1 op"
    using nxt by (auto simp: next_op_def split: option.splits)
  have "sched_inv st1 sub (issued @ [op])" using sched_inv_pop[OF inv pick pop] None by (simp add: taken_def)
  then show ?thesis using pop_op_frame[OF pop] None st' by (simp add: make_fut_def)
next
  case (Some d)
  then show ?thesis using nxt inv by (auto simp: next_op_def taken_def)
qed

lemma issue_loop_inv:
  assumes "sched_inv st sub (taken st issued)" "heap_pick_ok pick"
    and "issue_loop pick poll fuel st = Some (ops, st')"
  shows "sched_inv st' sub (taken st' (issued @ ops))"
  using assms
proof (induction fuel arbitrary: st issued ops)
  case (Suc fuel)
  show ?case
  proof (cases "bi_queue_depth st < bi_optimum_queue_depth st")
    case True
    then obtain r st1 where nxt: "next_op pick st = Some (r, st1)"
      using Suc.prems(3) by (auto split: option.splits)
    show ?thesis
    proof (cases r)
      case None
      then have "pop_op pick st = Some (None, st1)" "ops = []" "st' = st1"
        using nxt True Suc.prems(3) by (auto simp: next_op_def split: option.splits)
      then have "st' = st" by (auto simp: pop_op_def split: option.splits if_splits list.splits)
      then show ?thesis using Suc.prems(1) \<open>ops = []\<close> by simp
    next
      case (Some op)
      note n = next_op_inv[OF Suc.prems(1,2), of op st1]
      obtain b st2 where iss: "issue_fut poll st1 op = Some (b, st2)"
        using Suc.prems(3) True nxt Some by (auto split: option.splits)
      have st2: "sched_inv st2 sub (issued @ [op])" "bi_delayed st2 = None"
        using n nxt Some iss by (auto simp: issue_fut_def split: Poll.splits)
      show ?thesis
      proof (cases b)
        case True
        then have "ops = []" "st' = st2\<lparr>bi_delayed := Some op\<rparr>"
          using Suc.prems(3) \<open>bi_queue_depth st < _\<close> nxt Some iss by auto
        then show ?thesis using st2 by (simp add: taken_def)
      next
        case False
        then obtain ops' where "issue_loop pick poll fuel st2 = Some (ops', st')" "ops = op # ops'"
          using Suc.prems(3) True nxt Some iss by auto
        then show ?thesis
          using Suc.IH[of st2 "issued @ [op]" ops'] st2 Suc.prems(2) by (simp add: taken_def)
      qed
    qed
  next
    case False
    then show ?thesis using Suc.prems by simp
  qed
qed simp

text \<open>
  A run of the scheduler of a new vdev: an operation is submitted, one in flight completes, or the
  timer that waits for resources fires. \<open>submitted\<close> is the sequence of operations given to it and
  \<open>issued\<close> the sequence it gave to the leaf.
\<close>

inductive sched_run :: "(BlockOp list \<Rightarrow> nat) \<Rightarrow> nat \<Rightarrow> Inner \<Rightarrow> BlockOp list \<Rightarrow> BlockOp list \<Rightarrow> bool"
  for pick depth where
  run_new: "sched_run pick depth (vb_inner (vdev_block_new depth sz sm_space)) [] []"
| run_submit: "sched_run pick depth st submitted issued \<Longrightarrow>
    sched_and_issue pick poll st op = Some (ops, st') \<Longrightarrow>
    sched_run pick depth st' (submitted @ [op]) (issued @ ops)"
| run_complete: "sched_run pick depth st submitted issued \<Longrightarrow>
    bi_queue_depth st > (if bi_delayed st = None then 0 else 1) \<Longrightarrow>
    op_complete pick poll st = Some (ops, st') \<Longrightarrow>
    sched_run pick depth st' submitted (issued @ ops)"
| run_timer: "sched_run pick depth st submitted issued \<Longrightarrow>
    issue_all pick poll st = Some (ops, st') \<Longrightarrow>
    sched_run pick depth st' submitted (issued @ ops)"

lemma sched_run_inv:
  "sched_run pick depth st submitted issued \<Longrightarrow> heap_pick_ok pick \<Longrightarrow> sched_inv st submitted (taken st issued)"
proof (induction rule: sched_run.induct)
  case (run_new sz sm_space)
  show ?case by (simp add: sched_inv_def vdev_block_new_def inner_ok_def taken_def sortable_def sync_barrier_def)
next
  case (run_submit st submitted issued poll op ops st')
  have "sched_inv (sched st op) (submitted @ [op]) (taken (sched st op) issued)"
    using run_submit sched_inv_sched by (simp add: taken_def)
  then show ?case
    using run_submit issue_loop_inv unfolding sched_and_issue_def issue_all_def by blast
next
  case (run_complete st submitted issued poll ops st')
  let ?st = "st\<lparr>bi_queue_depth := wsub 32 (bi_queue_depth st) 1\<rparr>"
  have "sched_inv ?st submitted (taken ?st issued)" using run_complete by (simp add: taken_def)
  then show ?case using run_complete issue_loop_inv unfolding op_complete_def issue_all_def by blast
next
  case (run_timer st submitted issued poll ops st')
  then show ?case using issue_loop_inv unfolding issue_all_def by blast
qed

section \<open>The loop returns and keeps the device busy\<close>

definition waiting :: "Inner \<Rightarrow> nat" where
  "waiting st = length (pending st) + (if bi_delayed st = None then 0 else 1)"

lemma waiting_alt: "waiting st = size (sortable st) + length (bi_after_sync st) + (if bi_delayed st = None then 0 else 1)"
  by (simp add: waiting_def pending_def sortable_def)

definition idle :: "Inner \<Rightarrow> bool" where
  "idle st \<longleftrightarrow> bi_delayed st = None \<and> pending st = []"

lemma pop_op_total:
  assumes "inner_ok st" "heap_pick_ok pick"
  obtains (none) "pop_op pick st = Some (None, st)" "pending st = []"
  | (some) op st' where "pop_op pick st = Some (Some op, st')" "inner_ok st'"
      "size (sortable st') + length (bi_after_sync st') < size (sortable st) + length (bi_after_sync st)"
proof (cases "sortable st = {#}")
  case True
  show thesis
  proof (cases "bi_after_sync st")
    case Nil
    then show thesis using pop_op_idle[OF assms(1) True] True by (intro none) (auto simp: pending_def sortable_def)
  next
    case (Cons op rest)
    obtain st' pre where "pop_op pick st = Some (Some op, st')" "rest = pre @ bi_after_sync st'"
      "sortable st' = mset pre" "inner_ok st'"
      using pop_op_sync[OF assms(1) True Cons] by blast
    then show thesis using Cons by (intro some[of op st']) simp_all
  qed
next
  case False
  obtain op st' where "pop_op pick st = Some (Some op, st')" "sortable st = add_mset op (sortable st')"
    "bi_after_sync st' = bi_after_sync st" "inner_ok st'"
    using pop_op_sortable[OF assms False] by blast
  then show thesis by (intro some[of op st']) simp_all
qed

lemma next_op_total:
  assumes "inner_ok st" "heap_pick_ok pick" "depth_ok st" "bi_queue_depth st < bi_optimum_queue_depth st"
  obtains (none) "next_op pick st = Some (None, st)" "idle st"
  | (some) op st' where "next_op pick st = Some (Some op, st')" "inner_ok st'" "depth_ok st'"
      "bi_delayed st' = None" "1 \<le> bi_queue_depth st'" "waiting st' < waiting st"
proof (cases "bi_delayed st")
  case None
  show thesis
  proof (rule pop_op_total[OF assms(1,2)])
    assume "pop_op pick st = Some (None, st)" "pending st = []"
    then show thesis using None by (intro none) (simp_all add: next_op_def idle_def)
  next
    fix op st1
    assume pop: "pop_op pick st = Some (Some op, st1)" "inner_ok st1"
      "size (sortable st1) + length (bi_after_sync st1) < size (sortable st) + length (bi_after_sync st)"
    have lt: "bi_queue_depth st + 1 < 2 ^ 32" using assms(3,4) by (simp add: depth_ok_def)
    have fr: "bi_delayed st1 = None" "bi_queue_depth st1 = bi_queue_depth st"
      "bi_optimum_queue_depth st1 = bi_optimum_queue_depth st"
      using pop_op_frame[OF pop(1)] None by simp_all
    show thesis
    proof (rule some)
      show "next_op pick st = Some (Some op, make_fut st1 op)" using None pop by (simp add: next_op_def)
      show "depth_ok (make_fut st1 op)"
        using assms(3,4) fr wrapu_id[OF lt] by (simp add: depth_ok_def make_fut_def)
      show "1 \<le> bi_queue_depth (make_fut st1 op)"
        using fr wrapu_id[OF lt] by (simp add: make_fut_def)
      show "waiting (make_fut st1 op) < waiting st"
        using pop fr None unfolding waiting_alt by (simp add: make_fut_def)
    qed (use pop fr in \<open>simp_all add: make_fut_def\<close>)
  qed
next
  case (Some d)
  show thesis
  proof (rule some)
    show "next_op pick st = Some (Some d, st\<lparr>bi_delayed := None\<rparr>)" using Some by (simp add: next_op_def)
  qed (use Some assms in \<open>simp_all add: depth_ok_def waiting_alt\<close>)
qed

lemma issue_loop_returns:
  assumes "inner_ok st" "depth_ok st" "waiting st < fuel" "heap_pick_ok pick" "\<And>op. poll op \<noteq> PollErr"
  shows "\<exists>ops st'. issue_loop pick poll fuel st = Some (ops, st') \<and> depth_ok st' \<and>
    (bi_delayed st' \<noteq> None \<or> bi_queue_depth st' = bi_optimum_queue_depth st' \<or> idle st')"
  using assms(1-3)
proof (induction fuel arbitrary: st)
  case (Suc fuel)
  show ?case
  proof (cases "bi_queue_depth st < bi_optimum_queue_depth st")
    case False
    then have "bi_queue_depth st = bi_optimum_queue_depth st" using Suc.prems by (simp add: depth_ok_def)
    then show ?thesis using Suc.prems by simp
  next
    case lt: True
    show ?thesis
    proof (rule next_op_total[OF Suc.prems(1) assms(4) Suc.prems(2) lt])
      assume "next_op pick st = Some (None, st)" "idle st"
      then show ?thesis using lt Suc.prems by simp
    next
      fix op st1
      assume n: "next_op pick st = Some (Some op, st1)" "inner_ok st1" "depth_ok st1"
        "bi_delayed st1 = None" "1 \<le> bi_queue_depth st1" "waiting st1 < waiting st"
      consider "poll op = EAgain" | st2 where "issue_fut poll st1 op = Some (False, st2)" "inner_ok st2"
          "depth_ok st2" "waiting st2 < fuel"
      proof (cases "poll op")
        case NotReady
        then show thesis using n Suc.prems(3) by (intro that(2)[of st1]) (simp_all add: issue_fut_def)
      next
        case Ready
        let ?st = "st1\<lparr>bi_queue_depth := wsub 32 (bi_queue_depth st1) 1\<rparr>"
        have "wsub 32 (bi_queue_depth st1) 1 = bi_queue_depth st1 - 1"
          using n by (intro wsub_id) (auto simp: depth_ok_def)
        then show thesis
          using Ready n Suc.prems(3) by (intro that(2)[of ?st]) (auto simp: issue_fut_def depth_ok_def waiting_alt)
      qed (use assms(5) that in auto)
      then show ?thesis
      proof cases
        case 1
        then have "issue_fut poll st1 op = Some (True, st1)" by (simp add: issue_fut_def)
        then show ?thesis using lt n by (simp add: depth_ok_def)
      next
        case 2
        then show ?thesis using Suc.IH[of st2] lt n by auto
      qed
    qed
  qed
qed simp

lemma issue_all_returns:
  assumes "inner_ok st" "depth_ok st" "heap_pick_ok pick" "\<And>op. poll op \<noteq> PollErr"
  shows "\<exists>ops st'. issue_all pick poll st = Some (ops, st') \<and> depth_ok st' \<and>
    (bi_delayed st' \<noteq> None \<or> bi_queue_depth st' = bi_optimum_queue_depth st' \<or> idle st')"
  unfolding issue_all_def by (rule issue_loop_returns[OF assms(1,2) _ assms(3,4)]) (simp add: waiting_def)

lemma issue_loop_depth_ok:
  "issue_loop pick poll fuel st = Some (ops, st') \<Longrightarrow> inner_ok st \<Longrightarrow> heap_pick_ok pick \<Longrightarrow> depth_ok st \<Longrightarrow>
     depth_ok st'"
proof (induction fuel arbitrary: st ops)
  case (Suc fuel)
  show ?case
  proof (cases "bi_queue_depth st < bi_optimum_queue_depth st")
    case lt: True
    show ?thesis
    proof (rule next_op_total[OF Suc.prems(2-4) lt])
      assume "next_op pick st = Some (None, st)"
      then show ?thesis using lt Suc.prems by simp
    next
      fix op st1
      assume n: "next_op pick st = Some (Some op, st1)" "inner_ok st1" "depth_ok st1"
        "bi_delayed st1 = None" "1 \<le> bi_queue_depth st1"
      have w: "wsub 32 (bi_queue_depth st1) 1 = bi_queue_depth st1 - 1"
        using n by (intro wsub_id) (auto simp: depth_ok_def)
      show ?thesis
        using Suc.prems Suc.IH lt n w
        by (cases "poll op") (fastforce simp: issue_fut_def depth_ok_def)+
    qed
  qed (use Suc.prems in simp)
qed simp

lemma next_op_optimum:
  "next_op pick st = Some (r, st') \<Longrightarrow> bi_optimum_queue_depth st' = bi_optimum_queue_depth st"
  using pop_op_frame[of pick st] by (auto simp: next_op_def make_fut_def split: option.splits)

lemma issue_fut_optimum:
  "issue_fut poll st op = Some (b, st') \<Longrightarrow> bi_optimum_queue_depth st' = bi_optimum_queue_depth st"
  by (auto simp: issue_fut_def split: Poll.splits)

lemma issue_loop_optimum:
  "issue_loop pick poll fuel st = Some (ops, st') \<Longrightarrow> bi_optimum_queue_depth st' = bi_optimum_queue_depth st"
proof (induction fuel arbitrary: st ops)
  case (Suc fuel)
  then show ?case
    by (auto split: option.splits if_splits bool.splits dest!: next_op_optimum issue_fut_optimum)
qed simp

lemma sched_run_depth_ok:
  assumes "sched_run pick depth st submitted issued" "heap_pick_ok pick" "depth < 2 ^ 32"
  shows "depth_ok st \<and> bi_optimum_queue_depth st = depth"
  using assms
proof (induction rule: sched_run.induct)
  case (run_new sz sm_space)
  then show ?case by (simp add: depth_ok_def vdev_block_new_def)
next
  case (run_submit st submitted issued poll op ops st')
  have "inner_ok (sched st op)" using sched_run_inv[OF run_submit(1,4)] sched_ok by (simp add: sched_inv_def)
  moreover have "depth_ok (sched st op)" using run_submit by (simp add: depth_ok_def)
  ultimately show ?case
    using run_submit issue_loop_depth_ok issue_loop_optimum
    unfolding sched_and_issue_def issue_all_def by (metis sched_frame(3))
next
  case (run_complete st submitted issued poll ops st')
  let ?st = "st\<lparr>bi_queue_depth := wsub 32 (bi_queue_depth st) 1\<rparr>"
  have "1 \<le> bi_queue_depth st" "bi_queue_depth st < 2 ^ 32"
    using run_complete by (auto simp: depth_ok_def)
  then have "wsub 32 (bi_queue_depth st) 1 = bi_queue_depth st - 1" by (rule wsub_id)
  then have "depth_ok ?st" using run_complete by (auto simp: depth_ok_def split: if_splits)
  moreover have "inner_ok ?st" using sched_run_inv[OF run_complete(1,5)] by (simp add: sched_inv_def)
  moreover have "bi_optimum_queue_depth ?st = depth" using run_complete by simp
  ultimately show ?case
    using run_complete issue_loop_depth_ok issue_loop_optimum
    unfolding op_complete_def issue_all_def by metis
next
  case (run_timer st submitted issued poll ops st')
  have "inner_ok st" using sched_run_inv[OF run_timer(1,4)] by (simp add: sched_inv_def)
  then show ?case
    using run_timer issue_loop_depth_ok issue_loop_optimum unfolding issue_all_def by metis
qed

section \<open>A concrete heap\<close>

fun least_index :: "BlockOp list \<Rightarrow> nat" where
  "least_index [] = 0"
| "least_index (x # h) = (if h = [] \<or> block_op_le x (h ! least_index h) then 0 else Suc (least_index h))"

lemma block_op_le_trans: "block_op_le a b \<Longrightarrow> block_op_le b c \<Longrightarrow> block_op_le a c"
  by (auto simp: block_op_le_def)

lemma block_op_le_total: "block_op_le a b \<or> block_op_le b a"
  by (auto simp: block_op_le_def)

lemma least_index_ok: "heap_pick_ok least_index"
  unfolding heap_pick_ok_def
proof (intro allI impI)
  fix h :: "BlockOp list"
  assume "h \<noteq> []"
  then show "least_index h < length h \<and> (\<forall>x \<in> set h. block_op_le (h ! least_index h) x)"
  proof (induction h)
    case (Cons a h)
    then show ?case
      using block_op_le_total[of a] block_op_le_trans[of a "h ! least_index h"] by (cases "h = []") auto
  qed simp
qed

text \<open>A run driven by a list of events, on a device that accepts every operation: an operation is submitted,
  or one in flight completes.\<close>

datatype Event = Submit BlockOp | Complete

fun drive :: "Event list \<Rightarrow> Inner \<times> BlockOp list \<times> BlockOp list \<Rightarrow> (Inner \<times> BlockOp list \<times> BlockOp list) option" where
  "drive [] s = Some s"
| "drive (Submit op # evs) (st, sub, iss) =
     (case sched_and_issue least_index (\<lambda>_. NotReady) st op of
        None \<Rightarrow> None
      | Some (ops, st') \<Rightarrow> drive evs (st', sub @ [op], iss @ ops))"
| "drive (Complete # evs) (st, sub, iss) =
     (if bi_queue_depth st > (if bi_delayed st = None then 0 else 1) then
        (case op_complete least_index (\<lambda>_. NotReady) st of
           None \<Rightarrow> None
         | Some (ops, st') \<Rightarrow> drive evs (st', sub, iss @ ops))
      else None)"

lemma drive_run:
  "drive evs (st, sub, iss) = Some (st', sub', iss') \<Longrightarrow> sched_run least_index depth st sub iss \<Longrightarrow>
     sched_run least_index depth st' sub' iss'"
proof (induction evs "(st, sub, iss)" arbitrary: st sub iss rule: drive.induct)
  case (2 op evs st sub iss)
  then show ?case by (fastforce split: option.splits intro: run_submit)
next
  case (3 evs st sub iss)
  then show ?case by (fastforce split: option.splits if_splits intro: run_complete)
qed simp

text \<open>A read is in flight at LBA 100 and the queue is full; then come two writes, at LBA 50 and at LBA 150,
  with a \<open>sync_all\<close> after them.\<close>

definition example_ops :: "BlockOp list" where
  "example_ops = [\<lparr>bo_lba = 100, bo_cmd = ReadAt 4096, bo_sender = 0\<rparr>, \<lparr>bo_lba = 50, bo_cmd = WriteAt [], bo_sender = 1\<rparr>,
     \<lparr>bo_lba = 150, bo_cmd = WriteAt [], bo_sender = 2\<rparr>, vb_sync_all 3, \<lparr>bo_lba = 7, bo_cmd = WriteAt [], bo_sender = 4\<rparr>]"

lemmas sched_eval = example_ops_def vdev_block_new_def vb_sync_all_def sched_and_issue_def op_complete_def
  issue_all_def sched_def pending_def heap_push_def heap_pop_def next_op_def pop_op_def make_fut_def
  issue_fut_def cmd_eq_def block_op_le_def wrapu_def wsub_def

lemma drive_new: "drive evs (vb_inner (vdev_block_new depth sz sm_space), [], []) = Some (st, sub, iss) \<Longrightarrow>
    sched_run least_index depth st sub iss"
  by (rule drive_run[OF _ run_new])

section \<open>The properties\<close>

text \<open>C17. No operation is lost, repeated or invented: those submitted are those issued, the one held back
  and those pending. A \<open>sync_all\<close> is a barrier: those issued before it are exactly those submitted
  before it.\<close>

theorem sched_sync_barrier:
  assumes "sched_run pick depth st submitted issued" "heap_pick_ok pick"
  shows "mset submitted = mset issued + mset (case bi_delayed st of None \<Rightarrow> [] | Some op \<Rightarrow> [op]) + mset (pending st) \<and>
    (\<forall>P s Q. issued = P @ s # Q \<and> is_sync s \<longrightarrow> (\<exists>A B. submitted = A @ s # B \<and> mset A = mset P))"
proof -
  have inv: "sched_inv st submitted (taken st issued)" using assms by (rule sched_run_inv)
  then have "mset submitted = mset (taken st issued) + mset (pending st)"
    by (auto simp: sched_inv_def pending_def sortable_def)
  moreover have "\<exists>A B. submitted = A @ s # B \<and> mset A = mset P" if "issued = P @ s # Q" "is_sync s" for P s Q
    using inv that unfolding sched_inv_def sync_barrier_def taken_def by fastforce
  ultimately show ?thesis by (auto simp: taken_def)
qed

text \<open>C18. \<open>pop_op\<close> implements C-LOOK. In a state that the scheduler keeps (the queue ahead holds what is at or
  after the last LBA, the queue behind the rest, a FIFO begins with a \<open>sync_all\<close>), it takes the least
  pending operation at or after the last LBA, or the least of all if there is none; it takes from the
  FIFO only when nothing else is pending, and \<open>sched\<close> and \<open>pop_op\<close> keep such a state.\<close>

theorem pop_op_clook:
  assumes "inner_ok st" "heap_pick_ok pick"
  shows "inner_ok (sched st op) \<and>
    (if sortable st \<noteq> {#} then
       \<exists>nxt st'. pop_op pick st = Some (Some nxt, st') \<and> clook_next (bi_last_lba st) (sortable st) nxt \<and>
         sortable st = add_mset nxt (sortable st') \<and> bi_last_lba st' = bo_lba nxt \<and> inner_ok st'
     else case bi_after_sync st of
       [] \<Rightarrow> pop_op pick st = Some (None, st)
     | nxt # rest \<Rightarrow> is_sync nxt \<and> (\<exists>st' pre. pop_op pick st = Some (Some nxt, st') \<and>
         rest = pre @ bi_after_sync st' \<and> sortable st' = mset pre \<and> inner_ok st'))"
proof (cases "sortable st = {#}")
  case True
  then show ?thesis
    using assms sched_ok pop_op_idle pop_op_sync[OF assms(1) True, of _ _ pick]
    by (auto split: list.splits)
next
  case False
  then show ?thesis using sched_ok[OF assms(1)] pop_op_sortable[OF assms False] by auto
qed

text \<open>C19. The scheduler never gets stuck: when the device reports no error but \<open>EAGAIN\<close>, scheduling an
  operation returns; the queue depth is at most the optimum and, unless the device ran out of
  resources, either the queue is full or nothing is left to issue.\<close>

theorem sched_and_issue_busy:
  assumes "sched_run pick depth st submitted issued" "heap_pick_ok pick" "depth < 2 ^ 32"
    and "\<And>op. poll op \<noteq> PollErr"
  shows "\<exists>ops st'. sched_and_issue pick poll st op = Some (ops, st') \<and> bi_queue_depth st' \<le> depth \<and>
    (bi_delayed st' \<noteq> None \<or> bi_queue_depth st' = depth \<or> pending st' = [])"
proof -
  have "inner_ok (sched st op)" using sched_run_inv[OF assms(1,2)] sched_ok by (simp add: sched_inv_def)
  moreover have "depth_ok (sched st op)"
    using sched_run_depth_ok[OF assms(1-3)] by (simp add: depth_ok_def)
  ultimately obtain ops st' where st': "issue_all pick poll (sched st op) = Some (ops, st')" "depth_ok st'"
    "bi_delayed st' \<noteq> None \<or> bi_queue_depth st' = bi_optimum_queue_depth st' \<or> idle st'"
    using issue_all_returns[of "sched st op" pick poll, OF _ _ assms(2,4)] by blast
  have "sched_run pick depth st' (submitted @ [op]) (issued @ ops)"
    by (rule run_submit[OF assms(1), of poll]) (simp add: sched_and_issue_def st'(1))
  then have "bi_optimum_queue_depth st' = depth" using sched_run_depth_ok assms by blast
  then show ?thesis using st' by (auto simp: sched_and_issue_def depth_ok_def idle_def)
qed


section \<open>Witnesses\<close>

definition example_state :: Inner where
  "example_state = \<lparr>bi_delayed = None, bi_optimum_queue_depth = 1, bi_queue_depth = 1, bi_last_lba = 100,
     bi_syncing = True, bi_ahead = [example_ops ! 2], bi_behind = [example_ops ! 1],
     bi_after_sync = drop 3 example_ops\<rparr>"

lemma example_state_run: "sched_run least_index 1 example_state example_ops [example_ops ! 0]"
proof -
  have "drive (map Submit example_ops) (vb_inner (vdev_block_new 1 1000 10), [], [])
    = Some (example_state, example_ops, [example_ops ! 0])"
    by (simp add: sched_eval example_state_def)
  then show ?thesis by (rule drive_new)
qed

lemma example_run: "\<exists>st. sched_run least_index 1 st example_ops
    [example_ops ! 0, example_ops ! 2, example_ops ! 1, example_ops ! 3, example_ops ! 4]"
proof -
  have "map_option snd (drive (map Submit example_ops @ [Complete, Complete, Complete, Complete])
      (vb_inner (vdev_block_new 1 1000 10), [], []))
    = Some (example_ops, [example_ops ! 0, example_ops ! 2, example_ops ! 1, example_ops ! 3, example_ops ! 4])"
    by (simp add: sched_eval)
  then show ?thesis using drive_new by fastforce
qed

lemma example_state_ok: "inner_ok example_state"
  using sched_run_inv[OF example_state_run least_index_ok] by (simp add: sched_inv_def)

theorem sched_sync_barrier_witness:
  "\<exists>A B. example_ops = A @ example_ops ! 3 # B \<and>
     mset A = mset [example_ops ! 0, example_ops ! 2, example_ops ! 1]"
proof -
  obtain st where run: "sched_run least_index 1 st example_ops
      [example_ops ! 0, example_ops ! 2, example_ops ! 1, example_ops ! 3, example_ops ! 4]"
    using example_run by blast
  have "is_sync (example_ops ! 3)" by (simp add: sched_eval)
  then show ?thesis
    using sched_sync_barrier[OF run least_index_ok, THEN conjunct2, rule_format,
        of "[example_ops ! 0, example_ops ! 2, example_ops ! 1]" "example_ops ! 3" "[example_ops ! 4]"]
    by simp
qed

theorem pop_op_clook_witness:
  "\<exists>nxt st'. pop_op least_index example_state = Some (Some nxt, st') \<and>
     clook_next 100 (sortable example_state) nxt \<and> inner_ok st'"
proof -
  have "sortable example_state \<noteq> {#}" "bi_last_lba example_state = 100"
    by (simp_all add: example_state_def sortable_def)
  then show ?thesis using pop_op_clook[OF example_state_ok least_index_ok, of "vb_sync_all 9"] by auto
qed

theorem sched_and_issue_busy_witness:
  "\<exists>ops st'. sched_and_issue least_index (\<lambda>_. Ready) example_state (vb_sync_all 9) = Some (ops, st') \<and>
     bi_queue_depth st' \<le> 1 \<and> (bi_delayed st' \<noteq> None \<or> bi_queue_depth st' = 1 \<or> pending st' = [])"
  using sched_and_issue_busy[OF example_state_run least_index_ok, of "\<lambda>_. Ready" "vb_sync_all 9"] by simp

end
