(* ===== verification/Vdev_File.thy ===== *)
theory Vdev_File
  imports Label
begin

text \<open>
  \<open>bfffs/src/common/vdev_file.rs\<close> (and the trait of \<open>vdev.rs\<close>): a vdev on a regular file or a device
  node. The file is reached by asynchronous I/O and by \<open>ioctl\<close>, which are not part of the
  repository: each operation returns the requests it makes, a \<open>FileOp\<close>, and what a read returns is
  an argument \<open>rd\<close> of the operations that use it. \<open>off_t\<close> is a signed 64-bit number.
\<close>

datatype FileOp =
    FRead nat nat
  | FReadv nat "nat list"
  | FWrite nat IoVec
  | FWritev nat SGList
  | FDelete int int
  | FSync

section \<open>The vdev\<close>

text \<open>\<open>struct Label\<close>, the vdev's part of the label.\<close>

record FileLabel =
  fl_uuid :: nat
  fl_lbas_per_zone :: LbaT
  fl_lbas :: LbaT
  fl_spacemap_space :: LbaT

record VdevFile =
  vf_spacemap_space :: LbaT
  vf_lbas_per_zone :: LbaT
  vf_size :: LbaT
  vf_uuid :: nat
  vf_candelete :: bool

definition DEFAULT_LBAS_PER_ZONE :: LbaT where "DEFAULT_LBAS_PER_ZONE = 2 ^ 16"

definition vf_reserved_space :: "VdevFile \<Rightarrow> LbaT" where
  "vf_reserved_space vf = u64 (LABEL_COUNT * u64 (LABEL_LBAS + vf_spacemap_space vf))"

section \<open>\<open>impl Vdev\<close>\<close>

definition vf_lba2zone :: "VdevFile \<Rightarrow> LbaT \<Rightarrow> ZoneT option option" where
  "vf_lba2zone vf lba =
     (if lba \<ge> vf_reserved_space vf
      then if vf_lbas_per_zone vf = 0 then None
           else Some (Some (u32 (lba div vf_lbas_per_zone vf)))
      else Some None)"

definition vf_optimum_queue_depth :: "VdevFile \<Rightarrow> nat" where
  "vf_optimum_queue_depth vf = 10"

definition vf_sync_all :: "VdevFile \<Rightarrow> FileOp" where
  "vf_sync_all vf = FSync"

definition vf_zone_limits :: "VdevFile \<Rightarrow> ZoneT \<Rightarrow> LbaT \<times> LbaT" where
  "vf_zone_limits vf zone =
     (if zone = 0 then (vf_reserved_space vf, vf_lbas_per_zone vf)
      else (u64 (zone * vf_lbas_per_zone vf), u64 (u32 (zone + 1) * vf_lbas_per_zone vf)))"

definition vf_zones :: "VdevFile \<Rightarrow> ZoneT option" where
  "vf_zones vf = map_option u32 (div_roundup 64 (vf_size vf) (vf_lbas_per_zone vf))"

section \<open>\<open>impl VdevLeafApi\<close>\<close>

definition off_of :: "LbaT \<Rightarrow> nat" where
  "off_of lba = u64 (lba * BYTES_PER_LBA)"

definition i64 :: "int \<Rightarrow> int" where "i64 = wraps 64"

definition vf_erase_zone :: "VdevFile \<Rightarrow> LbaT \<Rightarrow> FileOp list" where
  "vf_erase_zone vf lba =
     (if vf_candelete vf then
        [FDelete (i64 (i64 (int lba) * int BYTES_PER_LBA)) (i64 (i64 (int (vf_lbas_per_zone vf)) * int BYTES_PER_LBA))]
      else [])"

definition vf_finish_zone :: "VdevFile \<Rightarrow> LbaT \<Rightarrow> FileOp list" where
  "vf_finish_zone vf lba = []"

definition vf_open_zone :: "VdevFile \<Rightarrow> LbaT \<Rightarrow> FileOp list" where
  "vf_open_zone vf lba = []"

definition vf_read_at :: "VdevFile \<Rightarrow> nat \<Rightarrow> LbaT \<Rightarrow> FileOp" where
  "vf_read_at vf buflen lba = FRead (off_of lba) buflen"

definition vf_read_spacemap :: "VdevFile \<Rightarrow> nat \<Rightarrow> nat \<Rightarrow> FileOp option" where
  "vf_read_spacemap vf buflen idx = do {
     assert_that (idx < LABEL_COUNT);
     let lba = u64 (u64 (idx * vf_spacemap_space vf) + 2 * LABEL_LBAS);
     Some (FRead (off_of lba) buflen)
   }"

definition vf_readv_at :: "VdevFile \<Rightarrow> nat list \<Rightarrow> LbaT \<Rightarrow> FileOp" where
  "vf_readv_at vf buflens lba = FReadv (off_of lba) buflens"

definition vf_write_at :: "VdevFile \<Rightarrow> IoVec \<Rightarrow> LbaT \<Rightarrow> FileOp option" where
  "vf_write_at vf buf lba = do {
     assert_that (lba \<ge> vf_reserved_space vf);
     Some (FWrite (off_of lba) buf)
   }"

definition vf_writev_at :: "VdevFile \<Rightarrow> SGList \<Rightarrow> LbaT \<Rightarrow> FileOp" where
  "vf_writev_at vf buf lba = FWritev (off_of lba) buf"

definition vf_label :: "VdevFile \<Rightarrow> FileLabel" where
  "vf_label vf = \<lparr>fl_uuid = vf_uuid vf, fl_lbas_per_zone = vf_lbas_per_zone vf, fl_lbas = vf_size vf,
     fl_spacemap_space = vf_spacemap_space vf\<rparr>"

definition vf_write_label ::
    "'h \<Rightarrow> ('h \<Rightarrow> IoVec \<Rightarrow> 'h) \<Rightarrow> ('h \<Rightarrow> nat \<Rightarrow> 'h) \<Rightarrow> ('h \<Rightarrow> nat) \<Rightarrow> (FileLabel \<Rightarrow> byte list) \<Rightarrow>
       VdevFile \<Rightarrow> LabelWriter \<Rightarrow> FileOp option" where
  "vf_write_label h0 hw hw64 hf enc vf label_writer = do {
     let label_writer = label_serialize enc label_writer (vf_label vf);
     let lba = label_writer_lba label_writer;
     sglist \<leftarrow> label_into_sglist h0 hw hw64 hf label_writer;
     Some (vf_writev_at vf sglist lba)
   }"

definition vf_write_spacemap :: "VdevFile \<Rightarrow> SGList \<Rightarrow> nat \<Rightarrow> LbaT \<Rightarrow> FileOp option" where
  "vf_write_spacemap vf buf idx block = do {
     assert_that (idx < LABEL_COUNT);
     let lba = u64 (u64 (block + u64 (idx * vf_spacemap_space vf)) + 2 * LABEL_LBAS);
     let bytes = u64 (sglist_len buf);
     let lbas = bytes div BYTES_PER_LBA;
     assert_that (u64 (lba + lbas) \<le> vf_reserved_space vf);
     Some (FWritev (off_of lba) buf)
   }"

section \<open>Creating and opening\<close>

text \<open>\<open>candelete\<close>: the outcome of the \<open>ioctl\<close> is \<open>Inr\<close> the attribute's value, or an error.\<close>

definition candelete :: "int result \<Rightarrow> bool result" where
  "candelete r =
     (case r of
        Inl e \<Rightarrow> if e = ENOTTY then Inr False else Inl e
      | Inr i \<Rightarrow> Inr (i \<noteq> 0))"

definition unwrap :: "'a result \<Rightarrow> 'a option" where
  "unwrap r = (case r of Inl _ \<Rightarrow> None | Inr x \<Rightarrow> Some x)"

text \<open>\<open>flen\<close> is the length of the file, \<open>attr\<close> the outcome of the \<open>ioctl\<close> and \<open>uuid\<close> the new identifier.\<close>

definition vf_create :: "nat \<Rightarrow> int result \<Rightarrow> nat \<Rightarrow> LbaT option \<Rightarrow> VdevFile option" where
  "vf_create flen attr uuid lbas_per_zone = do {
     let lpz = (case lbas_per_zone of None \<Rightarrow> DEFAULT_LBAS_PER_ZONE | Some x \<Rightarrow> x);
     cd \<leftarrow> unwrap (candelete attr);
     let sz = flen div BYTES_PER_LBA;
     nzones \<leftarrow> div_roundup 64 sz lpz;
     ss \<leftarrow> spacemap_space nzones;
     Some \<lparr>vf_spacemap_space = ss, vf_lbas_per_zone = lpz, vf_size = sz, vf_uuid = uuid, vf_candelete = cd\<rparr>
   }"

text \<open>\<open>read_label\<close>: \<open>rd off n\<close> is the outcome of reading \<open>n\<close> bytes at \<open>off\<close>.\<close>

definition vf_read_label ::
    "'h \<Rightarrow> ('h \<Rightarrow> IoVec \<Rightarrow> 'h) \<Rightarrow> ('h \<Rightarrow> nat \<Rightarrow> 'h) \<Rightarrow> ('h \<Rightarrow> nat) \<Rightarrow> (nat \<Rightarrow> nat \<Rightarrow> IoVec result) \<Rightarrow>
       nat \<Rightarrow> LabelReader result option" where
  "vf_read_label h0 hw hw64 hf rd label = do {
     lba \<leftarrow> label_reader_lba label;
     let offset = u64 (lba * BYTES_PER_LBA);
     case rd offset LABEL_SIZE of
       Inl e \<Rightarrow> Some (Inl e)
     | Inr dbs \<Rightarrow> label_from_dbs h0 hw hw64 hf dbs
   }"

definition vf_open ::
    "'h \<Rightarrow> ('h \<Rightarrow> IoVec \<Rightarrow> 'h) \<Rightarrow> ('h \<Rightarrow> nat \<Rightarrow> 'h) \<Rightarrow> ('h \<Rightarrow> nat) \<Rightarrow> (byte list \<Rightarrow> (FileLabel \<times> nat) option) \<Rightarrow>
       (nat \<Rightarrow> nat \<Rightarrow> IoVec result) \<Rightarrow> nat \<Rightarrow> int result \<Rightarrow> (VdevFile \<times> LabelReader) result option" where
  "vf_open h0 hw hw64 hf dec rd flen attr = do {
     r0 \<leftarrow> vf_read_label h0 hw hw64 hf rd 0;
     r \<leftarrow> (case r0 of Inr lr \<Rightarrow> Some (Inr lr) | Inl _ \<Rightarrow> vf_read_label h0 hw hw64 hf rd 1);
     case r of
       Inl e \<Rightarrow> Some (Inl e)
     | Inr lr \<Rightarrow> do {
         cd \<leftarrow> unwrap (candelete attr);
         let sz = flen div BYTES_PER_LBA;
         let (l, lr) = label_deserialize dec lr;
         label \<leftarrow> l;
         assert_that (sz \<ge> fl_lbas label);
         Some (Inr (\<lparr>vf_spacemap_space = fl_spacemap_space label, vf_lbas_per_zone = fl_lbas_per_zone label,
           vf_size = fl_lbas label, vf_uuid = fl_uuid label, vf_candelete = cd\<rparr>, lr))
       }
   }"

end
