(* ===== verification/BTree_Map.thy ===== *)
theory BTree_Map
  imports Prelude
begin

text \<open>
  The ordered containers of the Rust standard library that the program uses: \<open>BTreeMap\<close> as an
  association list in strictly increasing order of the keys, which is the order in which the
  container is iterated. \<open>locale ordered_map\<close> is the contract that the components rely on.
\<close>

section \<open>The contract\<close>

locale ordered_map =
  fixes invar :: "'m \<Rightarrow> bool"
    and get :: "'m \<Rightarrow> 'k :: linorder \<Rightarrow> 'v option"
    and put :: "'k \<Rightarrow> 'v \<Rightarrow> 'm \<Rightarrow> 'm"
    and del :: "'k \<Rightarrow> 'm \<Rightarrow> 'm"
    and keys :: "'m \<Rightarrow> 'k list"
  assumes put_invar: "invar m \<Longrightarrow> invar (put k v m)"
    and del_invar: "invar m \<Longrightarrow> invar (del k m)"
    and get_put: "invar m \<Longrightarrow> get (put k v m) k' = (if k' = k then Some v else get m k')"
    and get_del: "invar m \<Longrightarrow> get (del k m) k' = (if k' = k then None else get m k')"
    and keys_sorted: "invar m \<Longrightarrow> sorted (keys m) \<and> distinct (keys m)"
    and keys_get: "invar m \<Longrightarrow> k \<in> set (keys m) \<longleftrightarrow> get m k \<noteq> None"
begin

lemma put_same: "invar m \<Longrightarrow> get (put k v m) k = Some v"
  by (simp add: get_put)

lemma keys_put: "invar m \<Longrightarrow> set (keys (put k v m)) = insert k (set (keys m))"
  using keys_get[OF put_invar] keys_get get_put by (auto split: if_splits)

lemma keys_del: "invar m \<Longrightarrow> set (keys (del k m)) = set (keys m) - {k}"
  using keys_get[OF del_invar] keys_get get_del by (auto split: if_splits)

lemma put_del_commute:
  "invar m \<Longrightarrow> k \<noteq> j \<Longrightarrow> get (put k v (del j m)) x = get (del j (put k v m)) x"
  by (simp add: get_put get_del put_invar del_invar)

end

section \<open>Sorted association lists\<close>

type_synonym ('k, 'v) btree_map = "('k \<times> 'v) list"

definition bt_ok :: "('k :: linorder \<times> 'v) list \<Rightarrow> bool" where
  "bt_ok m \<longleftrightarrow> sorted_wrt (<) (map fst m)"

definition bt_get :: "('k :: linorder \<times> 'v) list \<Rightarrow> 'k \<Rightarrow> 'v option" where
  "bt_get m k = map_of m k"

fun bt_insert :: "'k :: linorder \<Rightarrow> 'v \<Rightarrow> ('k \<times> 'v) list \<Rightarrow> ('k \<times> 'v) list" where
  "bt_insert k v [] = [(k, v)]"
| "bt_insert k v ((j, w) # m) =
     (if k < j then (k, v) # (j, w) # m
      else if k = j then (k, v) # m
      else (j, w) # bt_insert k v m)"

definition bt_remove :: "'k :: linorder \<Rightarrow> ('k \<times> 'v) list \<Rightarrow> ('k \<times> 'v) list" where
  "bt_remove k m = filter (\<lambda>(j, _). j \<noteq> k) m"

abbreviation bt_keys :: "('k \<times> 'v) list \<Rightarrow> 'k list" where
  "bt_keys m \<equiv> map fst m"

abbreviation bt_contains :: "('k :: linorder \<times> 'v) list \<Rightarrow> 'k \<Rightarrow> bool" where
  "bt_contains m k \<equiv> bt_get m k \<noteq> None"

lemma bt_ok_Nil [simp]: "bt_ok []"
  by (simp add: bt_ok_def)

lemma bt_ok_Cons: "bt_ok ((k, v) # m) \<longleftrightarrow> (\<forall>j \<in> set (bt_keys m). k < j) \<and> bt_ok m"
  by (simp add: bt_ok_def)

lemma bt_get_Nil [simp]: "bt_get [] k = None"
  by (simp add: bt_get_def)

lemma bt_get_Cons: "bt_get ((j, v) # m) k = (if k = j then Some v else bt_get m k)"
  by (simp add: bt_get_def)

lemma bt_get_eq_None: "bt_get m k = None \<longleftrightarrow> k \<notin> set (bt_keys m)"
  by (simp add: bt_get_def map_of_eq_None_iff)

lemma bt_get_Some_mem: "bt_get m k = Some v \<Longrightarrow> (k, v) \<in> set m"
  by (simp add: bt_get_def map_of_SomeD)

lemma bt_ok_distinct: "bt_ok m \<Longrightarrow> distinct (bt_keys m)"
  unfolding bt_ok_def by (simp add: strict_sorted_iff)

lemma bt_ok_sorted: "bt_ok m \<Longrightarrow> sorted (bt_keys m)"
  unfolding bt_ok_def by (simp add: strict_sorted_iff)

lemma bt_get_iff: "bt_ok m \<Longrightarrow> bt_get m k = Some v \<longleftrightarrow> (k, v) \<in> set m"
  by (simp add: bt_get_def bt_ok_distinct)

lemma bt_insert_keys: "set (bt_keys (bt_insert k v m)) = insert k (set (bt_keys m))"
  by (induction k v m rule: bt_insert.induct) auto

lemma bt_insert_ok [intro]: "bt_ok m \<Longrightarrow> bt_ok (bt_insert k v m)"
proof (induction k v m rule: bt_insert.induct)
  case (2 k v j w m)
  consider "k < j" | "k = j" | "j < k" by fastforce
  then show ?case
  proof cases
    case 3
    have "\<forall>x \<in> set (bt_keys (bt_insert k v m)). j < x"
      using 2(2) 3 unfolding bt_insert_keys bt_ok_Cons by simp
    then show ?thesis using 2 3 by (auto simp: bt_ok_Cons dest: order.asym)
  qed (use 2 in \<open>auto simp: bt_ok_Cons\<close>)
qed (simp add: bt_ok_def)

lemma bt_get_insert: "bt_get (bt_insert k v m) k' = (if k' = k then Some v else bt_get m k')"
  by (induction k v m rule: bt_insert.induct) (auto simp: bt_get_Cons)

lemma bt_remove_ok [intro]: "bt_ok m \<Longrightarrow> bt_ok (bt_remove k m)"
proof -
  have "map fst (bt_remove k m) = filter (\<lambda>j. j \<noteq> k) (map fst m)"
    by (induction m) (auto simp: bt_remove_def)
  then show "bt_ok m \<Longrightarrow> bt_ok (bt_remove k m)" by (simp add: bt_ok_def sorted_wrt_filter)
qed

lemma bt_get_remove: "bt_get (bt_remove k m) k' = (if k' = k then None else bt_get m k')"
  by (induction m) (auto simp: bt_remove_def bt_get_def)

interpretation bt: ordered_map bt_ok bt_get bt_insert bt_remove bt_keys
  by unfold_locales
    (auto simp: bt_get_insert bt_get_remove bt_ok_distinct bt_ok_sorted bt_get_eq_None)

lemma bt_get_map_update:
  "bt_get m k = Some v \<Longrightarrow> length (bt_insert k w m) = length m" if "bt_ok m"
  using that
proof (induction m)
  case (Cons x m)
  obtain j u where x: "x = (j, u)" by force
  have "k < j \<Longrightarrow> k \<notin> set (bt_keys m)" using Cons.prems(2) x by (force simp: bt_ok_Cons)
  then show ?case
    using Cons x bt_get_eq_None[of m k] by (auto simp: bt_get_Cons bt_ok_Cons split: if_splits)
qed simp

end
