(* ===== verification/Free_Space_Map.thy ===== *)
theory Free_Space_Map
  imports Label BTree_Map
begin

text \<open>
  \<open>FreeSpaceMap\<close> of \<open>bfffs/src/common/cluster.rs\<close>: which zones of a cluster are empty, open or
  closed, and how many blocks of each are allocated and freed. A \<open>BTreeMap\<close> is a sorted association
  list, a \<open>BTreeSet\<close> and the ones of a \<open>FixedBitSet\<close> are sets. A failed \<open>assert!\<close>, an \<open>unwrap\<close> of
  nothing and an index out of range are \<^const>\<open>None\<close>.
\<close>

section \<open>Data\<close>

record Zone =
  z_freed_blocks :: nat
  z_total_blocks :: nat
  z_txgs :: txg_range

definition zone_default :: Zone where
  "zone_default = \<lparr>z_freed_blocks = 0, z_total_blocks = 0, z_txgs = \<lparr>txg_start = 0, txg_end = 0\<rparr>\<rparr>"

record ClosedZone =
  cz_start :: LbaT
  cz_freed_blocks :: LbaT
  cz_total_blocks :: LbaT
  cz_txgs :: txg_range
  cz_zid :: ZoneT

record OpenZone =
  oz_start :: LbaT
  oz_allocated_blocks :: nat

definition oz_write_pointer :: "OpenZone \<Rightarrow> LbaT" where
  "oz_write_pointer oz = u64 (oz_start oz + oz_allocated_blocks oz)"

definition oz_waste_space :: "OpenZone \<Rightarrow> LbaT \<Rightarrow> OpenZone" where
  "oz_waste_space oz space = oz\<lparr>oz_allocated_blocks := u32 (oz_allocated_blocks oz + u32 space)\<rparr>"

record FreeSpaceMap =
  fsm_dirty :: "nat set"
  fsm_dirty_cap :: nat
  fsm_empty_zones :: "ZoneT set"
  fsm_open_zones :: "(ZoneT, OpenZone) btree_map"
  fsm_total_zones :: ZoneT
  fsm_zones :: "Zone list"

section \<open>Queries\<close>

definition fsm_is_empty :: "FreeSpaceMap \<Rightarrow> ZoneT \<Rightarrow> bool" where
  "fsm_is_empty fsm zone_id \<longleftrightarrow> zone_id \<ge> u32 (length (fsm_zones fsm)) \<or> zone_id \<in> fsm_empty_zones fsm"

definition fsm_is_open :: "FreeSpaceMap \<Rightarrow> ZoneT \<Rightarrow> bool" where
  "fsm_is_open fsm zone_id \<longleftrightarrow> bt_contains (fsm_open_zones fsm) zone_id"

definition fsm_is_closed :: "FreeSpaceMap \<Rightarrow> ZoneT \<Rightarrow> bool" where
  "fsm_is_closed fsm zone_id \<longleftrightarrow> zone_id < u32 (length (fsm_zones fsm)) \<and>
     zone_id \<notin> fsm_empty_zones fsm \<and> \<not> bt_contains (fsm_open_zones fsm) zone_id"

definition fsm_allocated :: "FreeSpaceMap \<Rightarrow> LbaT" where
  "fsm_allocated fsm =
     u64 (sum_list (map (\<lambda>idx.
       case bt_get (fsm_open_zones fsm) (u32 idx) of
         Some oz \<Rightarrow> oz_allocated_blocks oz
       | None \<Rightarrow> if u32 idx \<in> fsm_empty_zones fsm then 0 else z_total_blocks (fsm_zones fsm ! idx))
       [0..<length (fsm_zones fsm)]))"

definition fsm_assert_clean_zone :: "FreeSpaceMap \<Rightarrow> ZoneT \<Rightarrow> TxgT \<Rightarrow> unit option" where
  "fsm_assert_clean_zone fsm zone txg =
     (if fsm_is_empty fsm zone then Some ()
      else do { z \<leftarrow> vec_get (fsm_zones fsm) zone; assert_that (txg_start (z_txgs z) \<ge> txg) })"

definition fsm_available :: "FreeSpaceMap \<Rightarrow> ZoneT \<Rightarrow> LbaT option" where
  "fsm_available fsm zone_id =
     (case bt_get (fsm_open_zones fsm) zone_id of
        Some oz \<Rightarrow> do {
          z \<leftarrow> vec_get (fsm_zones fsm) zone_id;
          Some (wsub 32 (z_total_blocks z) (oz_allocated_blocks oz))
        }
      | None \<Rightarrow> Some 0)"

definition fsm_in_use :: "FreeSpaceMap \<Rightarrow> ZoneT \<Rightarrow> LbaT option" where
  "fsm_in_use fsm zone_id =
     (if fsm_is_empty fsm zone_id then Some 0
      else do {
        z \<leftarrow> vec_get (fsm_zones fsm) zone_id;
        Some (case bt_get (fsm_open_zones fsm) zone_id of
                Some oz \<Rightarrow> wsub 32 (oz_allocated_blocks oz) (z_freed_blocks z)
              | None \<Rightarrow> wsub 32 (z_total_blocks z) (z_freed_blocks z))
      })"

definition fsm_find_empty :: "FreeSpaceMap \<Rightarrow> ZoneT option" where
  "fsm_find_empty fsm =
     (if fsm_empty_zones fsm \<noteq> {} then Some (Min (fsm_empty_zones fsm))
      else if u32 (length (fsm_zones fsm)) < fsm_total_zones fsm then Some (u32 (length (fsm_zones fsm)))
      else None)"

definition fsm_find_closed_zone :: "FreeSpaceMap \<Rightarrow> ZoneT \<Rightarrow> ClosedZone option" where
  "fsm_find_closed_zone fsm start =
     (if start \<ge> length (fsm_zones fsm) then None
      else (case filter (\<lambda>zid. u32 zid \<notin> fsm_empty_zones fsm \<and> \<not> bt_contains (fsm_open_zones fsm) (u32 zid))
                  [start..<length (fsm_zones fsm)] of
              [] \<Rightarrow> None
            | zid # _ \<Rightarrow> (let z = fsm_zones fsm ! zid in
                Some \<lparr>cz_start = u64_max, cz_freed_blocks = z_freed_blocks z,
                  cz_total_blocks = z_total_blocks z, cz_txgs = z_txgs z, cz_zid = u32 zid\<rparr>)))"

definition fsm_open_zone_ids :: "FreeSpaceMap \<Rightarrow> ZoneT list" where
  "fsm_open_zone_ids fsm = bt_keys (fsm_open_zones fsm)"

section \<open>Operations\<close>

definition fsm_new :: "ZoneT \<Rightarrow> FreeSpaceMap option" where
  "fsm_new total_zones = do {
     spacemap_blocks \<leftarrow> spacemap_space total_zones;
     Some \<lparr>fsm_dirty = {0..<spacemap_blocks}, fsm_dirty_cap = spacemap_blocks, fsm_empty_zones = {},
           fsm_open_zones = [], fsm_total_zones = total_zones, fsm_zones = []\<rparr>
   }"

definition fsm_clear_dirty_zones :: "FreeSpaceMap \<Rightarrow> FreeSpaceMap" where
  "fsm_clear_dirty_zones fsm = fsm\<lparr>fsm_dirty := {}\<rparr>"

text \<open>\<open>FixedBitSet::insert\<close> panics beyond the capacity of the set.\<close>

definition fsm_dirty_zone :: "FreeSpaceMap \<Rightarrow> ZoneT \<Rightarrow> FreeSpaceMap option" where
  "fsm_dirty_zone fsm zone_id = do {
     let block = zone_id div SPACEMAP_ZONES_PER_LBA;
     assert_that (block < fsm_dirty_cap fsm);
     Some (fsm\<lparr>fsm_dirty := insert block (fsm_dirty fsm)\<rparr>)
   }"

definition fsm_erase_zone :: "FreeSpaceMap \<Rightarrow> ZoneT \<Rightarrow> FreeSpaceMap option" where
  "fsm_erase_zone fsm0 zone_id = do {
     fsm \<leftarrow> fsm_dirty_zone fsm0 zone_id;
     assert_that (\<not> fsm_is_open fsm zone_id);
     assert_that (zone_id < length (fsm_zones fsm));
     let fsm = fsm\<lparr>fsm_empty_zones := insert zone_id (fsm_empty_zones fsm)\<rparr>;
     let fsm = fsm\<lparr>fsm_zones := (fsm_zones fsm)[zone_id :=
                 (fsm_zones fsm ! zone_id)\<lparr>z_txgs := \<lparr>txg_start = 0, txg_end = 0\<rparr>\<rparr>]\<rparr>;
     Some (if zone_id = length (fsm_zones fsm) - 1 then
             (let first_empty =
                (case filter (\<lambda>i. \<not> fsm_is_empty fsm (u32 i)) (rev [0..<length (fsm_zones fsm)]) of
                   i # _ \<Rightarrow> u32 (i + 1)
                 | [] \<Rightarrow> 0)
              in fsm\<lparr>fsm_zones := take first_empty (fsm_zones fsm),
                     fsm_empty_zones := {z \<in> fsm_empty_zones fsm. z < first_empty}\<rparr>)
           else fsm)
   }"

definition fsm_finish_zone :: "FreeSpaceMap \<Rightarrow> ZoneT \<Rightarrow> TxgT \<Rightarrow> FreeSpaceMap option" where
  "fsm_finish_zone fsm0 zone_id txg = do {
     fsm \<leftarrow> fsm_dirty_zone fsm0 zone_id;
     available \<leftarrow> fsm_available fsm zone_id;
     assert_that (bt_contains (fsm_open_zones fsm) zone_id);
     z \<leftarrow> vec_get (fsm_zones fsm) zone_id;
     Some (fsm\<lparr>fsm_open_zones := bt_remove zone_id (fsm_open_zones fsm),
               fsm_zones := (fsm_zones fsm)[zone_id :=
                 z\<lparr>z_freed_blocks := u32 (z_freed_blocks z + u32 available),
                   z_txgs := (z_txgs z)\<lparr>txg_end := txg_add txg 1\<rparr>\<rparr>]\<rparr>)
   }"

definition fsm_free :: "FreeSpaceMap \<Rightarrow> ZoneT \<Rightarrow> LbaT \<Rightarrow> FreeSpaceMap option" where
  "fsm_free fsm0 zone_id len = do {
     fsm \<leftarrow> fsm_dirty_zone fsm0 zone_id;
     assert_that (\<not> fsm_is_empty fsm zone_id);
     z \<leftarrow> vec_get (fsm_zones fsm) zone_id;
     assert_that (len \<le> u32_max);
     let z = z\<lparr>z_freed_blocks := u32 (z_freed_blocks z + len)\<rparr>;
     assert_that (z_freed_blocks z \<le> z_total_blocks z);
     assert_that (case bt_get (fsm_open_zones fsm) zone_id of
                    Some oz \<Rightarrow> oz_allocated_blocks oz \<ge> z_freed_blocks z | None \<Rightarrow> True);
     Some (fsm\<lparr>fsm_zones := (fsm_zones fsm)[zone_id := z]\<rparr>)
   }"

definition fsm_open_zone ::
    "FreeSpaceMap \<Rightarrow> ZoneT \<Rightarrow> LbaT \<Rightarrow> LbaT \<Rightarrow> LbaT \<Rightarrow> TxgT \<Rightarrow>
       ((ZoneT \<times> LbaT) option result \<times> FreeSpaceMap) option" where
  "fsm_open_zone fsm0 zid start end lbas txg = do {
     fsm \<leftarrow> fsm_dirty_zone fsm0 zid;
     let space = wsub 64 end start;
     assert_that (fsm_is_empty fsm zid);
     if space < lbas then Some (Inl ENOSPC, fsm)
     else do {
       fsm \<leftarrow> (if zid \<ge> length (fsm_zones fsm) then do {
                  assert_that (\<forall>z \<in> {length (fsm_zones fsm)..<zid}. u32 z \<notin> fsm_empty_zones fsm);
                  Some (fsm\<lparr>fsm_empty_zones := fsm_empty_zones fsm \<union> u32 ` {length (fsm_zones fsm)..<zid},
                            fsm_zones := fsm_zones fsm
                              @ replicate (zid + 1 - length (fsm_zones fsm)) zone_default\<rparr>)
                } else Some fsm);
       let z = \<lparr>z_freed_blocks = 0, z_total_blocks = u32 space,
                z_txgs = \<lparr>txg_start = txg, txg_end = u32_max\<rparr>\<rparr>;
       let oz = \<lparr>oz_start = start, oz_allocated_blocks = u32 lbas\<rparr>;
       assert_that (\<not> bt_contains (fsm_open_zones fsm) zid);
       Some (Inr (if lbas > 0 then Some (zid, start) else None),
             fsm\<lparr>fsm_zones := (fsm_zones fsm)[zid := z],
                 fsm_empty_zones := fsm_empty_zones fsm - {zid},
                 fsm_open_zones := bt_insert zid oz (fsm_open_zones fsm)\<rparr>)
     }
   }"

text \<open>
  The search of \<open>try_allocate\<close> through the open zones, in the order of their ids: the first zone
  with enough space, and the zones before it, which have too little.
\<close>

fun try_allocate_find :: "Zone list \<Rightarrow> LbaT \<Rightarrow> (ZoneT \<times> OpenZone) list \<Rightarrow>
    ((ZoneT \<times> OpenZone) option \<times> ZoneT list) option" where
  "try_allocate_find zones space [] = Some (None, [])"
| "try_allocate_find zones space ((zone_id, oz) # rest) = do {
     zone \<leftarrow> vec_get zones zone_id;
     let avail_lbas = wsub 32 (z_total_blocks zone) (oz_allocated_blocks oz);
     assert_that (space < u32_max);
     if avail_lbas < u32 space then do {
       (r, nearly_full_zones) \<leftarrow> try_allocate_find zones space rest;
       Some (r, zone_id # nearly_full_zones)
     } else Some (Some (zone_id, oz), [])
   }"

definition fsm_try_allocate ::
    "FreeSpaceMap \<Rightarrow> LbaT \<Rightarrow> ((ZoneT \<times> LbaT) option \<times> ZoneT list \<times> FreeSpaceMap) option" where
  "fsm_try_allocate fsm space = do {
     (r, nearly_full_zones) \<leftarrow> try_allocate_find (fsm_zones fsm) space (fsm_open_zones fsm);
     case r of
       None \<Rightarrow> Some (None, nearly_full_zones, fsm)
     | Some (zone_id, oz) \<Rightarrow> do {
         let lba = oz_write_pointer oz;
         let oz' = oz\<lparr>oz_allocated_blocks := u32 (oz_allocated_blocks oz + u32 space)\<rparr>;
         fsm' \<leftarrow> fsm_dirty_zone (fsm\<lparr>fsm_open_zones := bt_insert zone_id oz' (fsm_open_zones fsm)\<rparr>) zone_id;
         Some (Some (zone_id, lba), nearly_full_zones, fsm')
       }
   }"

definition fsm_waste_space :: "FreeSpaceMap \<Rightarrow> ZoneT \<Rightarrow> LbaT \<Rightarrow> FreeSpaceMap option" where
  "fsm_waste_space fsm0 zid space = do {
     fsm \<leftarrow> fsm_dirty_zone fsm0 zid;
     oz \<leftarrow> bt_get (fsm_open_zones fsm) zid;
     z \<leftarrow> vec_get (fsm_zones fsm) zid;
     let oz' = oz_waste_space oz space;
     assert_that (oz_allocated_blocks oz' \<le> z_total_blocks z);
     Some (fsm\<lparr>fsm_open_zones := bt_insert zid oz' (fsm_open_zones fsm),
               fsm_zones := (fsm_zones fsm)[zid := z\<lparr>z_freed_blocks := u32 (z_freed_blocks z + u32 space)\<rparr>]\<rparr>)
   }"

section \<open>The map on disk\<close>

record ZoneOnDisk =
  zod_allocated_blocks :: nat
  zod_freed_blocks :: nat
  zod_txgs :: txg_range

record SpacemapOnDisk =
  sod_checksum :: nat
  sod_zones :: "ZoneOnDisk list"

text \<open>
  The hash of a block of zones, with the number of the block; MetroHash64 is the parameter \<open>zhash\<close>.
\<close>

definition sod_new :: "(nat \<Rightarrow> ZoneOnDisk list \<Rightarrow> nat) \<Rightarrow> nat \<Rightarrow> ZoneOnDisk list \<Rightarrow> SpacemapOnDisk" where
  "sod_new zhash i v = \<lparr>sod_checksum = zhash i v, sod_zones = v\<rparr>"

definition sod_deserialize ::
    "(nat \<Rightarrow> ZoneOnDisk list \<Rightarrow> nat) \<Rightarrow> (byte list \<Rightarrow> SpacemapOnDisk option) \<Rightarrow> LbaT \<Rightarrow> IoVec \<Rightarrow>
       SpacemapOnDisk result option" where
  "sod_deserialize zhash dec block buf =
     map_option (\<lambda>sod. if zhash block (sod_zones sod) = sod_checksum sod then Inr sod else Inl ECKSUM)
       (dec buf)"

definition zone_on_disk :: "FreeSpaceMap \<Rightarrow> ZoneT \<Rightarrow> ZoneOnDisk" where
  "zone_on_disk fsm z =
     \<lparr>zod_allocated_blocks = (if fsm_is_empty fsm z then 0
        else case bt_get (fsm_open_zones fsm) z of Some oz \<Rightarrow> oz_allocated_blocks oz | None \<Rightarrow> u32_max),
      zod_freed_blocks = (if fsm_is_empty fsm z then 0 else z_freed_blocks (fsm_zones fsm ! z)),
      zod_txgs = (if fsm_is_empty fsm z then \<lparr>txg_start = 0, txg_end = 0\<rparr> else z_txgs (fsm_zones fsm ! z))\<rparr>"

definition fsm_block :: "FreeSpaceMap \<Rightarrow> nat \<Rightarrow> ZoneOnDisk list" where
  "fsm_block fsm i =
     (let start = u32 (u32 i * SPACEMAP_ZONES_PER_LBA);
          end = min (u32 ((u32 i + 1) * SPACEMAP_ZONES_PER_LBA)) (fsm_total_zones fsm)
      in map (zone_on_disk fsm) [start..<end])"

definition fsm_serialize ::
    "(nat \<Rightarrow> ZoneOnDisk list \<Rightarrow> nat) \<Rightarrow> (SpacemapOnDisk \<Rightarrow> byte list) \<Rightarrow> FreeSpaceMap \<Rightarrow> (LbaT \<times> IoVec) list" where
  "fsm_serialize zhash enc fsm =
     map (\<lambda>i. (u32 i, enc (sod_new zhash (u32 i) (fsm_block fsm i)))) (sorted_list_of_set (fsm_dirty fsm))"

text \<open>
  \<open>deserialize\<close>: the zones of one block after the other. \<open>zl\<close> is the vdev's \<open>zone_limits\<close>; the result
  lists the zones that the vdev is told to reopen.
\<close>

definition fsm_load_zone ::
    "(ZoneT \<Rightarrow> LbaT \<times> LbaT) \<Rightarrow> ZoneOnDisk \<Rightarrow> FreeSpaceMap \<times> (ZoneT \<times> LbaT) list \<times> ZoneT \<Rightarrow>
       (FreeSpaceMap \<times> (ZoneT \<times> LbaT) list \<times> ZoneT) option" where
  "fsm_load_zone zl zod st = (case st of (fsm, reopened, zid) \<Rightarrow>
     (if zod_allocated_blocks zod > 0 then do {
        let (start, end) = zl zid;
        (r, fsm) \<leftarrow> fsm_open_zone fsm zid start end 0 (txg_start (zod_txgs zod));
        assert_that (case r of Inr _ \<Rightarrow> True | Inl _ \<Rightarrow> False);
        (fsm, reopened) \<leftarrow>
          (if zod_allocated_blocks zod = u32_max then do {
             fsm \<leftarrow> fsm_finish_zone fsm zid (txg_sub (txg_end (zod_txgs zod)) 1);
             Some (fsm, reopened)
           } else do {
             (a, _, fsm) \<leftarrow> fsm_try_allocate fsm (zod_allocated_blocks zod);
             (azid, _) \<leftarrow> a;
             assert_that (azid = zid);
             Some (fsm, reopened @ [(zid, zod_allocated_blocks zod)])
           });
        z \<leftarrow> vec_get (fsm_zones fsm) zid;
        Some (fsm\<lparr>fsm_zones := (fsm_zones fsm)[zid := z\<lparr>z_freed_blocks := zod_freed_blocks zod,
                z_txgs := zod_txgs zod\<rparr>]\<rparr>, reopened, u32 (zid + 1))
      } else Some (fsm, reopened, u32 (zid + 1))))"

fun fsm_load_zones ::
    "(ZoneT \<Rightarrow> LbaT \<times> LbaT) \<Rightarrow> ZoneOnDisk list \<Rightarrow> FreeSpaceMap \<times> (ZoneT \<times> LbaT) list \<times> ZoneT \<Rightarrow>
       (FreeSpaceMap \<times> (ZoneT \<times> LbaT) list \<times> ZoneT) option" where
  "fsm_load_zones zl [] st = Some st"
| "fsm_load_zones zl (zod # zods) st = do { st' \<leftarrow> fsm_load_zone zl zod st; fsm_load_zones zl zods st' }"

fun fsm_load_blocks ::
    "(nat \<Rightarrow> ZoneOnDisk list \<Rightarrow> nat) \<Rightarrow> (byte list \<Rightarrow> SpacemapOnDisk option) \<Rightarrow> (ZoneT \<Rightarrow> LbaT \<times> LbaT) \<Rightarrow>
       nat \<Rightarrow> IoVec list \<Rightarrow> FreeSpaceMap \<times> (ZoneT \<times> LbaT) list \<times> ZoneT \<Rightarrow>
       (FreeSpaceMap \<times> (ZoneT \<times> LbaT) list \<times> ZoneT) result option" where
  "fsm_load_blocks zhash dec zl i [] st = Some (Inr st)"
| "fsm_load_blocks zhash dec zl i (db # dbs) st = do {
     sod \<leftarrow> sod_deserialize zhash dec i db;
     case sod of
       Inl e \<Rightarrow> Some (Inl e)
     | Inr sod \<Rightarrow> do {
         st' \<leftarrow> fsm_load_zones zl (sod_zones sod) st;
         fsm_load_blocks zhash dec zl (i + 1) dbs st'
       }
   }"

definition fsm_deserialize ::
    "(nat \<Rightarrow> ZoneOnDisk list \<Rightarrow> nat) \<Rightarrow> (byte list \<Rightarrow> SpacemapOnDisk option) \<Rightarrow> (ZoneT \<Rightarrow> LbaT \<times> LbaT) \<Rightarrow>
       IoVec list \<Rightarrow> ZoneT \<Rightarrow> (FreeSpaceMap \<times> (ZoneT \<times> LbaT) list) result option" where
  "fsm_deserialize zhash dec zl chunks zones = do {
     fsm0 \<leftarrow> fsm_new zones;
     r \<leftarrow> fsm_load_blocks zhash dec zl 0 chunks (fsm0, [], 0);
     case r of
       Inl e \<Rightarrow> Some (Inl e)
     | Inr (fsm, reopened, zid) \<Rightarrow> do {
         assert_that (zid = zones);
         Some (Inr (fsm_clear_dirty_zones fsm, reopened))
       }
   }"

end
