(* ===== verification/Cluster.thy ===== *)
theory Cluster
  imports Free_Space_Map
begin

text \<open>
  \<open>Cluster\<close> of \<open>bfffs/src/common/cluster.rs\<close>: the log-structured writer on top of the free-space
  map. The vdev below is a \<open>dyn VdevRaidApi\<close>: its queries are the arguments \<open>zl\<close> (\<open>zone_limits\<close>),
  \<open>lz\<close> (\<open>lba2zone\<close>) and \<open>gap\<close> (the number of blocks that \<open>flush_zone\<close> reports as zero-filled), and the
  operations that the cluster starts on it are returned as a list, in the order of the calls.
\<close>

datatype VdevOp =
    VFinishZone ZoneT
  | VOpenZone ZoneT
  | VEraseZone ZoneT
  | VWriteAt IoVec ZoneT LbaT
  | VFlushZone ZoneT
  | VWriteSpacemap SGList nat LbaT

record Cluster =
  cl_fsm :: FreeSpaceMap

definition cluster_allocated :: "Cluster \<Rightarrow> LbaT" where
  "cluster_allocated c = fsm_allocated (cl_fsm c)"

definition cluster_assert_clean_zone :: "Cluster \<Rightarrow> ZoneT \<Rightarrow> TxgT \<Rightarrow> unit option" where
  "cluster_assert_clean_zone c zone txg = fsm_assert_clean_zone (cl_fsm c) zone txg"

definition cluster_new :: "FreeSpaceMap \<Rightarrow> Cluster" where
  "cluster_new fsm = \<lparr>cl_fsm = fsm\<rparr>"

definition cluster_create :: "ZoneT \<Rightarrow> Cluster option" where
  "cluster_create total_zones = map_option cluster_new (fsm_new total_zones)"

definition cluster_erase_zone :: "Cluster \<Rightarrow> ZoneT \<Rightarrow> (Cluster \<times> VdevOp list) option" where
  "cluster_erase_zone c zone = do {
     fsm \<leftarrow> fsm_erase_zone (cl_fsm c) zone;
     Some (c\<lparr>cl_fsm := fsm\<rparr>, [VEraseZone zone])
   }"

definition cluster_find_closed_zone :: "(ZoneT \<Rightarrow> LbaT \<times> LbaT) \<Rightarrow> Cluster \<Rightarrow> ZoneT \<Rightarrow> ClosedZone option" where
  "cluster_find_closed_zone zl c zid =
     map_option (\<lambda>zone. zone\<lparr>cz_start := fst (zl (cz_zid zone))\<rparr>) (fsm_find_closed_zone (cl_fsm c) zid)"

text \<open>The macro \<open>close_zones!\<close>.\<close>

fun close_zones :: "FreeSpaceMap \<Rightarrow> ZoneT list \<Rightarrow> TxgT \<Rightarrow> (FreeSpaceMap \<times> VdevOp list) option" where
  "close_zones fsm [] txg = Some (fsm, [])"
| "close_zones fsm (zone_id # zs) txg = do {
     fsm \<leftarrow> fsm_finish_zone fsm zone_id txg;
     (fsm, ops) \<leftarrow> close_zones fsm zs txg;
     Some (fsm, VFinishZone zone_id # ops)
   }"

fun waste_zones :: "(ZoneT \<Rightarrow> LbaT) \<Rightarrow> FreeSpaceMap \<Rightarrow> ZoneT list \<Rightarrow> (FreeSpaceMap \<times> VdevOp list) option" where
  "waste_zones gap fsm [] = Some (fsm, [])"
| "waste_zones gap fsm (zone_id # zs) = do {
     fsm \<leftarrow> fsm_waste_space fsm zone_id (gap zone_id);
     (fsm, ops) \<leftarrow> waste_zones gap fsm zs;
     Some (fsm, VFlushZone zone_id # ops)
   }"

definition pad_block :: "IoVec \<Rightarrow> SGList option" where
  "pad_block db =
     (if length db mod BYTES_PER_LBA \<noteq> 0 then do {
        let padlen = BYTES_PER_LBA - length db mod BYTES_PER_LBA;
        pad \<leftarrow> slice_to ZERO_REGION padlen;
        Some [db, pad]
      } else Some [db])"

fun write_spacemaps :: "nat \<Rightarrow> (LbaT \<times> IoVec) list \<Rightarrow> VdevOp list option" where
  "write_spacemaps idx [] = Some []"
| "write_spacemaps idx ((block, db) # rest) = do {
     sglist \<leftarrow> pad_block db;
     ops \<leftarrow> write_spacemaps idx rest;
     Some (VWriteSpacemap sglist idx block # ops)
   }"

definition cluster_flush ::
    "(nat \<Rightarrow> ZoneOnDisk list \<Rightarrow> nat) \<Rightarrow> (SpacemapOnDisk \<Rightarrow> byte list) \<Rightarrow> (ZoneT \<Rightarrow> LbaT) \<Rightarrow>
       Cluster \<Rightarrow> nat \<Rightarrow> (Cluster \<times> VdevOp list) option" where
  "cluster_flush zhash enc gap c idx = do {
     (fsm, flush_ops) \<leftarrow> waste_zones gap (cl_fsm c) (fsm_open_zone_ids (cl_fsm c));
     sm_ops \<leftarrow> write_spacemaps idx (fsm_serialize zhash enc fsm);
     Some (c\<lparr>cl_fsm := fsm_clear_dirty_zones fsm\<rparr>, flush_ops @ sm_ops)
   }"

definition cluster_free :: "(LbaT \<Rightarrow> ZoneT option) \<Rightarrow> Cluster \<Rightarrow> LbaT \<Rightarrow> LbaT \<Rightarrow> (Cluster \<times> VdevOp list) option" where
  "cluster_free lz c lba len = do {
     start_zone \<leftarrow> lz lba;
     fsm \<leftarrow> fsm_free (cl_fsm c) start_zone len;
     used \<leftarrow> fsm_in_use fsm start_zone;
     if fsm_is_closed fsm start_zone \<and> used = 0
     then cluster_erase_zone (c\<lparr>cl_fsm := fsm\<rparr>) start_zone
     else Some (c\<lparr>cl_fsm := fsm\<rparr>, [])
   }"

definition cluster_write ::
    "(ZoneT \<Rightarrow> LbaT \<times> LbaT) \<Rightarrow> Cluster \<Rightarrow> IoVec \<Rightarrow> TxgT \<Rightarrow> (LbaT result \<times> Cluster \<times> VdevOp list) option" where
  "cluster_write zl c buf txg = do {
     space \<leftarrow> div_roundup 64 (length buf) BYTES_PER_LBA;
     (alloc_result, nearly_full_zones, fsm) \<leftarrow> fsm_try_allocate (cl_fsm c) space;
     (fsm, finish_ops) \<leftarrow> close_zones fsm nearly_full_zones txg;
     (r, fsm, open_ops) \<leftarrow>
       (case alloc_result of
          Some (zone_id, lba) \<Rightarrow> Some (Some (zone_id, lba), fsm, [])
        | None \<Rightarrow>
            (case fsm_find_empty fsm of
               None \<Rightarrow> Some (None, fsm, [])
             | Some zone_id \<Rightarrow> do {
                 (e, fsm) \<leftarrow> fsm_open_zone fsm zone_id (fst (zl zone_id)) (snd (zl zone_id)) space txg;
                 case e of
                   Inl _ \<Rightarrow> Some (None, fsm, [])
                 | Inr (Some (zone_id, lba)) \<Rightarrow> Some (Some (zone_id, lba), fsm, [VOpenZone zone_id])
                 | Inr None \<Rightarrow> None
               }));
     case r of
       None \<Rightarrow> Some (Inl ENOSPC, c\<lparr>cl_fsm := fsm\<rparr>, finish_ops)
     | Some (zone_id, lba) \<Rightarrow>
         Some (Inr lba, c\<lparr>cl_fsm := fsm\<rparr>, finish_ops @ open_ops @ [VWriteAt buf zone_id lba])
   }"

definition cluster_open ::
    "(nat \<Rightarrow> ZoneOnDisk list \<Rightarrow> nat) \<Rightarrow> (byte list \<Rightarrow> SpacemapOnDisk option) \<Rightarrow> (ZoneT \<Rightarrow> LbaT \<times> LbaT) \<Rightarrow>
       IoVec list \<Rightarrow> ZoneT \<Rightarrow> (Cluster \<times> (ZoneT \<times> LbaT) list) result option" where
  "cluster_open zhash dec zl chunks total_zones =
     map_option (map_sum (\<lambda>e. e) (\<lambda>(fsm, reopened). (cluster_new fsm, reopened)))
       (fsm_deserialize zhash dec zl chunks total_zones)"

end
