(* ===== verification/Free_Space_Map_Correct.thy ===== *)
theory Free_Space_Map_Correct
  imports Free_Space_Map
begin

text \<open>
  The free-space map against its abstract state: each zone is empty, open or closed, and every
  operation changes the state of one zone and marks that zone's block of the on-disk map dirty.
\<close>

section \<open>The abstract state\<close>

datatype zstate = ZEmpty | ZOpen OpenZone Zone | ZClosed Zone

definition fsm_view :: "FreeSpaceMap \<Rightarrow> ZoneT \<Rightarrow> zstate" where
  "fsm_view fsm z =
     (if z \<ge> length (fsm_zones fsm) \<or> z \<in> fsm_empty_zones fsm then ZEmpty
      else case bt_get (fsm_open_zones fsm) z of
             Some oz \<Rightarrow> ZOpen oz (fsm_zones fsm ! z)
           | None \<Rightarrow> ZClosed (fsm_zones fsm ! z))"

fun zstate_ok :: "zstate \<Rightarrow> bool" where
  "zstate_ok ZEmpty \<longleftrightarrow> True"
| "zstate_ok (ZOpen oz z) \<longleftrightarrow> z_freed_blocks z \<le> oz_allocated_blocks oz \<and>
     oz_allocated_blocks oz \<le> z_total_blocks z \<and> z_total_blocks z < 2 ^ 32 \<and>
     oz_start oz + z_total_blocks z < 2 ^ 64"
| "zstate_ok (ZClosed z) \<longleftrightarrow> z_freed_blocks z \<le> z_total_blocks z \<and> z_total_blocks z < 2 ^ 32"

definition fsm_wf :: "FreeSpaceMap \<Rightarrow> bool" where
  "fsm_wf fsm \<longleftrightarrow>
     length (fsm_zones fsm) \<le> fsm_total_zones fsm \<and> fsm_total_zones fsm < 2 ^ 32 \<and>
     fsm_dirty_cap fsm = (fsm_total_zones fsm + 254) div 255 \<and>
     fsm_dirty fsm \<subseteq> {..<fsm_dirty_cap fsm} \<and>
     fsm_empty_zones fsm \<subseteq> {..<length (fsm_zones fsm)} \<and>
     (fsm_zones fsm \<noteq> [] \<longrightarrow> length (fsm_zones fsm) - 1 \<notin> fsm_empty_zones fsm) \<and>
     bt_ok (fsm_open_zones fsm) \<and>
     set (bt_keys (fsm_open_zones fsm)) \<subseteq> {..<length (fsm_zones fsm)} - fsm_empty_zones fsm \<and>
     (\<forall>z. zstate_ok (fsm_view fsm z))"

text \<open>What an operation on zone \<open>z\<close> does: it gives the zone the state \<open>st\<close> and leaves the rest.\<close>

definition fsm_sets :: "FreeSpaceMap \<Rightarrow> ZoneT \<Rightarrow> zstate \<Rightarrow> FreeSpaceMap \<Rightarrow> bool" where
  "fsm_sets fsm z st fsm' \<longleftrightarrow> fsm_wf fsm' \<and> fsm_view fsm' = (fsm_view fsm)(z := st) \<and>
     fsm_dirty fsm' = insert (z div 255) (fsm_dirty fsm) \<and> fsm_total_zones fsm' = fsm_total_zones fsm"

section \<open>Basic facts\<close>

lemma fsm_wfD:
  assumes "fsm_wf fsm"
  shows "length (fsm_zones fsm) \<le> fsm_total_zones fsm" "fsm_total_zones fsm < 2 ^ 32"
    "fsm_empty_zones fsm \<subseteq> {..<length (fsm_zones fsm)}" "bt_ok (fsm_open_zones fsm)"
    "set (bt_keys (fsm_open_zones fsm)) \<subseteq> {..<length (fsm_zones fsm)} - fsm_empty_zones fsm"
    "zstate_ok (fsm_view fsm z)" "fsm_dirty fsm \<subseteq> {..<fsm_dirty_cap fsm}"
    "fsm_dirty_cap fsm = (fsm_total_zones fsm + 254) div 255"
  using assms unfolding fsm_wf_def by blast+

lemma fsm_len32: "fsm_wf fsm \<Longrightarrow> u32 (length (fsm_zones fsm)) = length (fsm_zones fsm)"
  by (simp add: fsm_wf_def wrapu_id)

lemma fsm_is_empty_view: "fsm_wf fsm \<Longrightarrow> fsm_is_empty fsm z \<longleftrightarrow> fsm_view fsm z = ZEmpty"
  by (auto simp: fsm_is_empty_def fsm_view_def fsm_len32 split: option.splits)

lemma fsm_open_get:
  assumes "fsm_wf fsm"
  shows "bt_get (fsm_open_zones fsm) z = (case fsm_view fsm z of ZOpen oz _ \<Rightarrow> Some oz | _ \<Rightarrow> None)"
proof -
  have "bt_get (fsm_open_zones fsm) z = None" if "z \<ge> length (fsm_zones fsm) \<or> z \<in> fsm_empty_zones fsm"
  proof -
    have "set (bt_keys (fsm_open_zones fsm)) \<subseteq> {..<length (fsm_zones fsm)} - fsm_empty_zones fsm"
      using assms by (simp add: fsm_wf_def)
    then show ?thesis unfolding bt_get_eq_None using that by (auto dest!: subsetD)
  qed
  then show ?thesis by (auto simp: fsm_view_def split: option.splits)
qed

lemma fsm_is_open_view: "fsm_wf fsm \<Longrightarrow> fsm_is_open fsm z \<longleftrightarrow> (\<exists>oz zn. fsm_view fsm z = ZOpen oz zn)"
  by (auto simp: fsm_is_open_def fsm_open_get split: zstate.splits)

lemma fsm_is_closed_view: "fsm_wf fsm \<Longrightarrow> fsm_is_closed fsm z \<longleftrightarrow> (\<exists>zn. fsm_view fsm z = ZClosed zn)"
  by (auto simp: fsm_is_closed_def fsm_view_def fsm_len32 split: option.splits)

lemma fsm_get_zone:
  assumes "fsm_view fsm z = ZOpen oz zn \<or> fsm_view fsm z = ZClosed zn"
  shows "vec_get (fsm_zones fsm) z = Some zn" "z < length (fsm_zones fsm)" "z \<notin> fsm_empty_zones fsm"
    "fsm_zones fsm ! z = zn"
  using assms by (auto simp: fsm_view_def vec_get_def split: if_splits option.splits)

lemma fsm_dirty_zone_ok:
  assumes "fsm_wf fsm" "z < fsm_total_zones fsm"
  shows "fsm_dirty_zone fsm z = Some (fsm\<lparr>fsm_dirty := insert (z div 255) (fsm_dirty fsm)\<rparr>)"
    "fsm_wf (fsm\<lparr>fsm_dirty := insert (z div 255) (fsm_dirty fsm)\<rparr>)"
    "fsm_view (fsm\<lparr>fsm_dirty := insert (z div 255) (fsm_dirty fsm)\<rparr>) = fsm_view fsm"
proof -
  have "z div 255 < (fsm_total_zones fsm + 254) div 255" using assms(2) by linarith
  then have c: "z div 255 < fsm_dirty_cap fsm" using assms(1) by (simp add: fsm_wf_def)
  then show "fsm_dirty_zone fsm z = Some (fsm\<lparr>fsm_dirty := insert (z div 255) (fsm_dirty fsm)\<rparr>)"
    by (simp add: fsm_dirty_zone_def SPACEMAP_ZONES_PER_LBA_def)
  show v: "fsm_view (fsm\<lparr>fsm_dirty := insert (z div 255) (fsm_dirty fsm)\<rparr>) = fsm_view fsm"
    by (simp add: fsm_view_def fun_eq_iff split: option.splits)
  show "fsm_wf (fsm\<lparr>fsm_dirty := insert (z div 255) (fsm_dirty fsm)\<rparr>)"
    using assms(1) c unfolding fsm_wf_def v by auto
qed

lemma fsm_nonempty_in_range:
  "fsm_wf fsm \<Longrightarrow> fsm_view fsm z \<noteq> ZEmpty \<Longrightarrow> z < fsm_total_zones fsm"
  by (auto simp: fsm_wf_def fsm_view_def split: if_splits)

lemma view_zone_ok: "fsm_wf fsm \<Longrightarrow> fsm_view fsm z = st \<Longrightarrow> zstate_ok st"
  by (auto simp: fsm_wf_def)

text \<open>Updates in place of a zone that is not empty.\<close>

lemma fsm_sets_in_place:
  assumes wf: "fsm_wf fsm" and ne: "fsm_view fsm z \<noteq> ZEmpty" and st: "zstate_ok st" "st \<noteq> ZEmpty"
    and op: "bt_ok ozs" "\<And>k. bt_get ozs k = (if k = z then (case st of ZOpen oz _ \<Rightarrow> Some oz | _ \<Rightarrow> None)
               else bt_get (fsm_open_zones fsm) k)"
    and zn: "(\<exists>oz. st = ZOpen oz zn) \<or> st = ZClosed zn"
  shows "fsm_sets fsm z st (fsm\<lparr>fsm_dirty := insert (z div 255) (fsm_dirty fsm), fsm_open_zones := ozs,
           fsm_zones := (fsm_zones fsm)[z := zn]\<rparr>)"
proof -
  let ?f = "fsm\<lparr>fsm_dirty := insert (z div 255) (fsm_dirty fsm), fsm_open_zones := ozs,
           fsm_zones := (fsm_zones fsm)[z := zn]\<rparr>"
  have z: "z < length (fsm_zones fsm)" "z \<notin> fsm_empty_zones fsm"
    using ne by (auto simp: fsm_view_def split: if_splits)
  have v: "fsm_view ?f = (fsm_view fsm)(z := st)"
    using z zn op(2) st(2) by (auto simp: fun_eq_iff fsm_view_def split: option.splits zstate.splits)
  have "set (bt_keys ozs) \<subseteq> insert z (set (bt_keys (fsm_open_zones fsm)))"
    using op(2) bt_get_eq_None[of ozs] bt_get_eq_None[of "fsm_open_zones fsm"] by (metis insertCI subsetI)
  then have keys: "set (bt_keys ozs) \<subseteq> {..<length (fsm_zones fsm)} - fsm_empty_zones fsm"
    using wf z unfolding fsm_wf_def by blast
  have "z div 255 < (fsm_total_zones fsm + 254) div 255"
    using fsm_nonempty_in_range[OF wf ne] by linarith
  then have "fsm_wf ?f" using wf keys op(1) st(1) unfolding fsm_wf_def v by auto
  then show ?thesis using v by (simp add: fsm_sets_def)
qed

section \<open>Operations\<close>

lemma fsm_finish_zone_sets:
  assumes wf: "fsm_wf fsm" and v: "fsm_view fsm z = ZOpen oz zn"
  shows "\<exists>fsm'. fsm_finish_zone fsm z txg = Some fsm' \<and>
     fsm_sets fsm z (ZClosed (zn\<lparr>z_freed_blocks := z_freed_blocks zn + (z_total_blocks zn - oz_allocated_blocks oz),
       z_txgs := (z_txgs zn)\<lparr>txg_end := txg_add txg 1\<rparr>\<rparr>)) fsm'"
proof -
  have ok: "zstate_ok (ZOpen oz zn)" using view_zone_ok[OF wf v] .
  have r: "z < fsm_total_zones fsm" using fsm_nonempty_in_range[OF wf] v by simp
  have g: "bt_get (fsm_open_zones fsm) z = Some oz" using fsm_open_get[OF wf, of z] v by simp
  have vz: "vec_get (fsm_zones fsm) z = Some zn" using fsm_get_zone(1) v by blast
  have w: "u32 (wsub 32 (z_total_blocks zn) (oz_allocated_blocks oz)) = z_total_blocks zn - oz_allocated_blocks oz"
    "u32 (z_freed_blocks zn + (z_total_blocks zn - oz_allocated_blocks oz))
      = z_freed_blocks zn + (z_total_blocks zn - oz_allocated_blocks oz)"
    using ok by (auto simp: wsub_id wrapu_id)
  let ?zn = "zn\<lparr>z_freed_blocks := z_freed_blocks zn + (z_total_blocks zn - oz_allocated_blocks oz),
       z_txgs := (z_txgs zn)\<lparr>txg_end := txg_add txg 1\<rparr>\<rparr>"
  have "fsm_sets fsm z (ZClosed ?zn) (fsm\<lparr>fsm_dirty := insert (z div 255) (fsm_dirty fsm),
      fsm_open_zones := bt_remove z (fsm_open_zones fsm), fsm_zones := (fsm_zones fsm)[z := ?zn]\<rparr>)"
    using v ok wf by (intro fsm_sets_in_place) (auto simp: bt_get_remove fsm_wf_def bt_remove_ok)
  then show ?thesis
    unfolding fsm_finish_zone_def fsm_dirty_zone_ok(1)[OF wf r] by (simp add: g vz w fsm_available_def)
qed

lemma fsm_free_sets:
  assumes wf: "fsm_wf fsm" and z: "z < fsm_total_zones fsm"
    and v: "(\<exists>oz. fsm_view fsm z = ZOpen oz zn \<and> z_freed_blocks zn + len \<le> oz_allocated_blocks oz) \<or>
            fsm_view fsm z = ZClosed zn \<and> z_freed_blocks zn + len \<le> z_total_blocks zn"
  shows "\<exists>fsm'. fsm_free fsm z len = Some fsm' \<and>
     fsm_sets fsm z (case fsm_view fsm z of ZOpen oz _ \<Rightarrow> ZOpen oz (zn\<lparr>z_freed_blocks := z_freed_blocks zn + len\<rparr>)
       | _ \<Rightarrow> ZClosed (zn\<lparr>z_freed_blocks := z_freed_blocks zn + len\<rparr>)) fsm'"
proof -
  have v': "(\<exists>oz. fsm_view fsm z = ZOpen oz zn) \<or> fsm_view fsm z = ZClosed zn" using v by blast
  have ok: "zstate_ok (fsm_view fsm z)" using wf by (simp add: fsm_wf_def)
  have le: "z_freed_blocks zn + len \<le> z_total_blocks zn" "z_total_blocks zn < 2 ^ 32" using v ok by auto
  then have w: "u32 (z_freed_blocks zn + len) = z_freed_blocks zn + len" "len \<le> u32_max" by (auto simp: wrapu_id)
  have vz: "vec_get (fsm_zones fsm) z = Some zn" using fsm_get_zone(1) v' by blast
  note dz = fsm_dirty_zone_ok[OF wf z]
  let ?st = "case fsm_view fsm z of ZOpen oz _ \<Rightarrow> ZOpen oz (zn\<lparr>z_freed_blocks := z_freed_blocks zn + len\<rparr>)
       | _ \<Rightarrow> ZClosed (zn\<lparr>z_freed_blocks := z_freed_blocks zn + len\<rparr>)"
  have "fsm_sets fsm z ?st (fsm\<lparr>fsm_dirty := insert (z div 255) (fsm_dirty fsm),
      fsm_open_zones := fsm_open_zones fsm,
      fsm_zones := (fsm_zones fsm)[z := zn\<lparr>z_freed_blocks := z_freed_blocks zn + len\<rparr>]\<rparr>)"
    using v ok fsm_wfD(4)[OF wf] by (intro fsm_sets_in_place[OF wf])
      (auto simp: fsm_open_get[OF wf] split: zstate.splits)
  moreover have "\<not> fsm_is_empty (fsm\<lparr>fsm_dirty := insert (z div 255) (fsm_dirty fsm)\<rparr>) z"
    using fsm_is_empty_view[OF dz(2)] dz(3) v' by auto
  ultimately show ?thesis
    unfolding fsm_free_def dz(1)
    using v w le vz by (auto simp: fsm_open_get[OF wf] split: zstate.splits)
qed

lemma fsm_waste_space_sets:
  assumes wf: "fsm_wf fsm" and v: "fsm_view fsm z = ZOpen oz zn"
    and le: "oz_allocated_blocks oz + len \<le> z_total_blocks zn"
  shows "\<exists>fsm'. fsm_waste_space fsm z len = Some fsm' \<and>
     fsm_sets fsm z (ZOpen (oz\<lparr>oz_allocated_blocks := oz_allocated_blocks oz + len\<rparr>)
       (zn\<lparr>z_freed_blocks := z_freed_blocks zn + len\<rparr>)) fsm'"
proof -
  have ok: "zstate_ok (ZOpen oz zn)" using view_zone_ok[OF wf v] .
  have r: "z < fsm_total_zones fsm" using fsm_nonempty_in_range[OF wf] v by simp
  have g: "bt_get (fsm_open_zones fsm) z = Some oz" using fsm_open_get[OF wf, of z] v by simp
  have vz: "vec_get (fsm_zones fsm) z = Some zn" using fsm_get_zone(1) v by blast
  have w: "u32 (oz_allocated_blocks oz + len) = oz_allocated_blocks oz + len" "u32 len = len"
    "u32 (z_freed_blocks zn + len) = z_freed_blocks zn + len"
    using ok le by (auto simp: wrapu_id)
  let ?oz = "oz\<lparr>oz_allocated_blocks := oz_allocated_blocks oz + len\<rparr>"
  let ?zn = "zn\<lparr>z_freed_blocks := z_freed_blocks zn + len\<rparr>"
  have "fsm_sets fsm z (ZOpen ?oz ?zn) (fsm\<lparr>fsm_dirty := insert (z div 255) (fsm_dirty fsm),
      fsm_open_zones := bt_insert z ?oz (fsm_open_zones fsm), fsm_zones := (fsm_zones fsm)[z := ?zn]\<rparr>)"
    using v ok le wf by (intro fsm_sets_in_place) (auto simp: bt_get_insert fsm_wf_def bt_insert_ok)
  then show ?thesis
    unfolding fsm_waste_space_def fsm_dirty_zone_ok(1)[OF wf r] oz_waste_space_def
    using le by (simp add: g vz w)
qed

text \<open>Opening an empty zone, in the middle of the known zones or beyond them.\<close>

lemma fsm_open_zone_sets:
  fixes txg :: TxgT
  assumes wf: "fsm_wf fsm" and z: "z < fsm_total_zones fsm" and e: "fsm_view fsm z = ZEmpty"
    and lim: "start \<le> end" "end < 2 ^ 64" "end - start < 2 ^ 32" and sp: "lbas \<le> end - start"
  defines "st \<equiv> ZOpen \<lparr>oz_start = start, oz_allocated_blocks = lbas\<rparr>
     \<lparr>z_freed_blocks = 0, z_total_blocks = end - start, z_txgs = \<lparr>txg_start = txg, txg_end = u32_max\<rparr>\<rparr>"
  shows "\<exists>fsm'. fsm_open_zone fsm z start end lbas txg
       = Some (Inr (if lbas > 0 then Some (z, start) else None), fsm') \<and> fsm_sets fsm z st fsm'"
proof -
  let ?zn = "\<lparr>z_freed_blocks = 0, z_total_blocks = end - start, z_txgs = \<lparr>txg_start = txg, txg_end = u32_max\<rparr>\<rparr>"
  let ?oz = "\<lparr>oz_start = start, oz_allocated_blocks = lbas\<rparr>"
  note dz = fsm_dirty_zone_ok[OF wf z]
  have em: "fsm_is_empty (fsm\<lparr>fsm_dirty := insert (z div 255) (fsm_dirty fsm)\<rparr>) z"
    using fsm_is_empty_view[OF dz(2)] dz(3) e by simp
  have w: "wsub 64 end start = end - start" "u32 (end - start) = end - start" "u32 lbas = lbas"
    using lim sp by (auto simp: wsub_id wrapu_id)
  have g: "bt_get (fsm_open_zones fsm) z = None" using fsm_open_get[OF wf, of z] e by simp
  have stok: "zstate_ok st" using lim sp by (simp add: st_def)
  let ?L = "length (fsm_zones fsm)"
  let ?n = "z + 1 - ?L"
  define zs where "zs = (if z \<ge> ?L then fsm_zones fsm @ replicate ?n zone_default else fsm_zones fsm)"
  define es where "es = (if z \<ge> ?L then fsm_empty_zones fsm \<union> {?L..<z} else fsm_empty_zones fsm) - {z}"
  let ?f = "fsm\<lparr>fsm_dirty := insert (z div 255) (fsm_dirty fsm), fsm_empty_zones := es,
      fsm_open_zones := bt_insert z ?oz (fsm_open_zones fsm), fsm_zones := zs[z := ?zn]\<rparr>"
  have es_sub: "fsm_empty_zones fsm \<subseteq> {..<?L}" using wf by (simp add: fsm_wf_def)
  have len: "length zs = max ?L (z + 1)" by (simp add: zs_def max_def)
  have nth: "k < ?L \<Longrightarrow> zs ! k = fsm_zones fsm ! k" for k by (simp add: zs_def nth_append)
  have v: "fsm_view ?f = (fsm_view fsm)(z := st)"
  proof
    fix k
    show "fsm_view ?f k = ((fsm_view fsm)(z := st)) k"
    proof (cases "k = z")
      case True
      then show ?thesis using len by (auto simp: fsm_view_def es_def bt_get_insert st_def)
    next
      case False
      then show ?thesis
        using len nth es_sub fsm_open_get[OF wf, of k]
        by (auto simp: fsm_view_def es_def bt_get_insert max_def split: option.splits if_splits)
    qed
  qed
  have k32: "u32 ` {?L..<z} = {?L..<z}"
  proof -
    have "u32 k = k" if "k \<in> {?L..<z}" for k using that z wf by (auto simp: fsm_wf_def wrapu_id)
    then show ?thesis by force
  qed
  have d: "z div 255 < (fsm_total_zones fsm + 254) div 255" using z by linarith
  have keys: "set (bt_keys (bt_insert z ?oz (fsm_open_zones fsm))) \<subseteq> {..<length zs} - es"
  proof -
    have "k < ?L \<and> k \<notin> fsm_empty_zones fsm" if "k \<in> set (bt_keys (fsm_open_zones fsm))" for k
      using that fsm_wfD(5)[OF wf] by blast
    moreover have "k < ?L \<Longrightarrow> k \<notin> fsm_empty_zones fsm \<Longrightarrow> k < length zs \<and> k \<notin> es" for k
      using len by (auto simp: es_def)
    moreover have "z < length zs" "z \<notin> es" by (simp_all add: len es_def)
    ultimately show ?thesis unfolding bt_insert_keys by blast
  qed
  have last: "length zs - 1 \<notin> es"
  proof (cases "z \<ge> ?L")
    case True
    then show ?thesis by (simp add: len es_def)
  next
    case False
    then have "fsm_zones fsm \<noteq> []" by auto
    then show ?thesis using False wf by (simp add: len es_def max_def fsm_wf_def)
  qed
  have "fsm_wf ?f"
    using wf len keys last d stok es_sub z unfolding fsm_wf_def v
    by (auto simp: es_def bt_insert_ok split: if_splits)
  then have sets: "fsm_sets fsm z st ?f" using v by (simp add: fsm_sets_def)
  have "fsm_open_zone fsm z start end lbas txg = Some (Inr (if lbas > 0 then Some (z, start) else None), ?f)"
  proof (cases "z \<ge> ?L")
    case True
    have "u32 k \<notin> fsm_empty_zones fsm" if "k \<in> {?L..<z}" for k
    proof -
      have "u32 k = k" using that z wf by (auto simp: fsm_wf_def wrapu_id)
      then show ?thesis using that es_sub by auto
    qed
    then show ?thesis
      unfolding fsm_open_zone_def dz(1) using True sp g em k32 w by (auto simp: zs_def es_def)
  next
    case False
    then show ?thesis
      unfolding fsm_open_zone_def dz(1) using sp g em w by (auto simp: zs_def es_def)
  qed
  then show ?thesis using sets by blast
qed

lemma fsm_open_zone_nospace:
  assumes wf: "fsm_wf fsm" and z: "z < fsm_total_zones fsm" and e: "fsm_view fsm z = ZEmpty"
    and lim: "start \<le> end" "end < 2 ^ 64" and sp: "end - start < lbas"
  shows "\<exists>fsm'. fsm_open_zone fsm z start end lbas txg = Some (Inl ENOSPC, fsm') \<and> fsm_sets fsm z ZEmpty fsm'"
proof -
  note dz = fsm_dirty_zone_ok[OF wf z]
  have "fsm_is_empty (fsm\<lparr>fsm_dirty := insert (z div 255) (fsm_dirty fsm)\<rparr>) z"
    using fsm_is_empty_view[OF dz(2)] dz(3) e by simp
  moreover have "(fsm_view fsm)(z := ZEmpty) = fsm_view fsm" using e by auto
  ultimately show ?thesis
    using sp lim dz by (auto simp: fsm_open_zone_def wsub_id fsm_sets_def)
qed

text \<open>Erasing a zone, which truncates the list of zones when it was the last one.\<close>

definition last_end :: "(nat \<Rightarrow> bool) \<Rightarrow> nat \<Rightarrow> nat" where
  "last_end P n = (case filter P (rev [0..<n]) of i # _ \<Rightarrow> i + 1 | [] \<Rightarrow> 0)"

lemma last_end_Suc: "last_end P (Suc n) = (if P n then n + 1 else last_end P n)"
  by (simp add: last_end_def)

lemma last_end_le: "last_end P n \<le> n"
  by (induction n) (simp_all add: last_end_Suc, simp add: last_end_def)

lemma last_end_beyond: "last_end P n \<le> i \<Longrightarrow> i < n \<Longrightarrow> \<not> P i"
  by (induction n) (auto simp: last_end_Suc less_Suc_eq split: if_splits)

lemma last_end_last: "0 < last_end P n \<Longrightarrow> P (last_end P n - 1)"
  by (induction n) (auto simp: last_end_Suc, simp add: last_end_def)

lemma fsm_erase_zone_sets:
  assumes wf: "fsm_wf fsm" and v: "fsm_view fsm z = ZClosed zn"
  shows "\<exists>fsm'. fsm_erase_zone fsm z = Some fsm' \<and> fsm_sets fsm z ZEmpty fsm'"
proof -
  note D = fsm_wfD[OF wf]
  have r: "z < fsm_total_zones fsm" using fsm_nonempty_in_range[OF wf] v by simp
  note dz = fsm_dirty_zone_ok[OF wf r]
  have zz: "z < length (fsm_zones fsm)" "z \<notin> fsm_empty_zones fsm" using fsm_get_zone v by blast+
  have g: "bt_get (fsm_open_zones fsm) z = None" using fsm_open_get[OF wf, of z] v by simp
  then have zk: "z \<notin> set (bt_keys (fsm_open_zones fsm))" unfolding bt_get_eq_None .
  define zs where "zs = (fsm_zones fsm)[z := (fsm_zones fsm ! z)\<lparr>z_txgs := \<lparr>txg_start = 0, txg_end = 0\<rparr>\<rparr>]"
  define es where "es = insert z (fsm_empty_zones fsm)"
  have len: "length zs = length (fsm_zones fsm)" by (simp add: zs_def)
  define f1 where "f1 = fsm\<lparr>fsm_dirty := insert (z div 255) (fsm_dirty fsm), fsm_empty_zones := es, fsm_zones := zs\<rparr>"
  define F where "F = last_end (\<lambda>i. i \<notin> es) (length zs)"
  note FF = last_end_le[of "\<lambda>i. i \<notin> es" "length zs", folded F_def]
    last_end_beyond[of "\<lambda>i. i \<notin> es" "length zs", folded F_def]
    last_end_last[of "\<lambda>i. i \<notin> es" "length zs", folded F_def]
  define n where "n = (if z = length zs - 1 then F else length zs)"
  define f2 where "f2 = f1\<lparr>fsm_zones := take n zs, fsm_empty_zones := {k \<in> es. k < n}\<rparr>"
  have nl: "n \<le> length zs" using FF(1) by (simp add: n_def)
  have nn: "k \<in> es" if "n \<le> k" "k < length zs" for k
    using that FF(2) by (auto simp: n_def split: if_splits)
  have len32: "length zs < 2 ^ 32" using D(1,2) len by simp
  have v2: "fsm_view f2 = (fsm_view fsm)(z := ZEmpty)"
  proof
    fix k show "fsm_view f2 k = ((fsm_view fsm)(z := ZEmpty)) k"
      using nn[of k] nl len zz
      by (cases "k < n"; cases "k = z") (auto simp: fsm_view_def f2_def f1_def es_def zs_def intro: leI split: option.splits)
  qed
  have nl': "n - 1 \<notin> es" if "0 < n"
  proof (cases "z = length zs - 1")
    case True
    then show ?thesis using FF(3) that by (simp add: n_def)
  next
    case False
    moreover have "length (fsm_zones fsm) - 1 \<notin> fsm_empty_zones fsm"
      using wf zz by (auto simp: fsm_wf_def)
    ultimately show ?thesis using len by (auto simp: n_def es_def)
  qed
  have keys: "set (bt_keys (fsm_open_zones fsm)) \<subseteq> {..<n} - {k \<in> es. k < n}"
  proof
    fix k assume k: "k \<in> set (bt_keys (fsm_open_zones fsm))"
    have "k \<in> {..<length (fsm_zones fsm)} - fsm_empty_zones fsm" using D(5) k by (rule subsetD)
    moreover have "k \<noteq> z" using k zk by metis
    ultimately have "k < length zs" "k \<notin> es" using len by (simp_all add: es_def)
    moreover then have "k < n" using nn[of k] by (meson not_le)
    ultimately show "k \<in> {..<n} - {k \<in> es. k < n}" by simp
  qed
  have d: "z div 255 < (fsm_total_zones fsm + 254) div 255" using r by linarith
  have "fsm_wf f2"
    unfolding fsm_wf_def v2
  proof (intro conjI)
    show "fsm_zones f2 \<noteq> [] \<longrightarrow> length (fsm_zones f2) - 1 \<notin> fsm_empty_zones f2"
      using nl' nl by (auto simp: f2_def min_def)
    show "\<forall>za. zstate_ok (((fsm_view fsm)(z := ZEmpty)) za)" using D(6) by simp
    show "set (bt_keys (fsm_open_zones f2)) \<subseteq> {..<length (fsm_zones f2)} - fsm_empty_zones f2"
      using keys nl by (simp add: f2_def f1_def min_absorb2)
  qed (use D d nl len in \<open>auto simp: f2_def f1_def min_absorb2\<close>)
  then have sets: "fsm_sets fsm z ZEmpty f2" using v2 by (simp add: fsm_sets_def f2_def f1_def)
  have em: "fsm_is_empty f1 (u32 i) \<longleftrightarrow> i \<in> es" if "i < length zs" for i
    using that len32 by (simp add: fsm_is_empty_def f1_def wrapu_id)
  have flt: "filter (\<lambda>i. \<not> fsm_is_empty f1 (u32 i)) (rev [0..<length zs]) = filter (\<lambda>i. i \<notin> es) (rev [0..<length zs])"
    using em by (intro filter_cong) auto
  have F32: "(case filter (\<lambda>i. i \<notin> es) (rev [0..<length zs]) of i # _ \<Rightarrow> u32 (i + 1) | [] \<Rightarrow> 0) = F"
    using FF(1) len32 by (auto simp: F_def last_end_def wrapu_id split: list.splits)
  have full: "f1 = f2" if "z \<noteq> length zs - 1"
  proof -
    have "{k \<in> es. k < length zs} = es" using D(3) zz len by (auto simp: es_def)
    then show ?thesis using that by (simp add: f1_def f2_def n_def)
  qed
  have "fsm_erase_zone fsm z = Some f2"
  proof -
    have e1: "fsm_erase_zone fsm z = Some (if z = length zs - 1 then
        (let first_empty = (case filter (\<lambda>i. \<not> fsm_is_empty f1 (u32 i)) (rev [0..<length zs]) of
                   i # _ \<Rightarrow> u32 (i + 1) | [] \<Rightarrow> 0)
         in f1\<lparr>fsm_zones := take first_empty zs, fsm_empty_zones := {k \<in> es. k < first_empty}\<rparr>) else f1)"
      unfolding fsm_erase_zone_def dz(1) using zz g
      by (simp add: fsm_is_open_def f1_def es_def zs_def Let_def)
    then show ?thesis unfolding flt F32 Let_def using full by (auto simp: f2_def n_def)
  qed
  then show ?thesis using sets by blast
qed

text \<open>The search for an open zone with enough space.\<close>

definition oz_room :: "FreeSpaceMap \<Rightarrow> ZoneT \<Rightarrow> nat" where
  "oz_room fsm z = (case fsm_view fsm z of ZOpen oz zn \<Rightarrow> z_total_blocks zn - oz_allocated_blocks oz | _ \<Rightarrow> 0)"

lemma try_allocate_find_spec:
  assumes wf: "fsm_wf fsm" and sp: "space < u32_max" and sub: "set ozs \<subseteq> set (fsm_open_zones fsm)"
  shows "\<exists>r full. try_allocate_find (fsm_zones fsm) space ozs = Some (r, full) \<and>
     (\<forall>z \<in> set full. oz_room fsm z < space) \<and>
     (case r of None \<Rightarrow> full = bt_keys ozs
      | Some (z, oz) \<Rightarrow> (\<exists>rest. bt_keys ozs = full @ z # rest) \<and> (z, oz) \<in> set ozs \<and> space \<le> oz_room fsm z)"
  using sub
proof (induction ozs)
  case (Cons x ozs)
  obtain z oz where x: "x = (z, oz)" by force
  have g: "bt_get (fsm_open_zones fsm) z = Some oz"
    using bt_get_iff[OF fsm_wfD(4)[OF wf]] Cons.prems x by simp
  then obtain zn where v: "fsm_view fsm z = ZOpen oz zn"
    using fsm_open_get[OF wf, of z] by (auto split: zstate.splits)
  have ok: "zstate_ok (ZOpen oz zn)" using view_zone_ok[OF wf v] .
  have vz: "vec_get (fsm_zones fsm) z = Some zn" using fsm_get_zone(1) v by blast
  have w: "wsub 32 (z_total_blocks zn) (oz_allocated_blocks oz) = oz_room fsm z" "u32 space = space"
    using ok sp v by (auto simp: wsub_id wrapu_id oz_room_def)
  obtain r full where ih: "try_allocate_find (fsm_zones fsm) space ozs = Some (r, full)"
     "\<forall>z \<in> set full. oz_room fsm z < space"
     "case r of None \<Rightarrow> full = bt_keys ozs
      | Some (z, oz) \<Rightarrow> (\<exists>rest. bt_keys ozs = full @ z # rest) \<and> (z, oz) \<in> set ozs \<and> space \<le> oz_room fsm z"
    using Cons by auto
  show ?case
  proof (cases "oz_room fsm z < space")
    case True
    have "try_allocate_find (fsm_zones fsm) space (x # ozs) = Some (r, z # full)"
      using True x ih(1) vz w sp by simp
    then show ?thesis using ih(2,3) True x by (cases r) (auto split: option.splits)
  next
    case False
    then have "try_allocate_find (fsm_zones fsm) space (x # ozs) = Some (Some (z, oz), [])"
      using x vz w sp by simp
    then show ?thesis using False x by auto
  qed
qed simp

lemma fsm_try_allocate_none:
  assumes wf: "fsm_wf fsm" and sp: "space < u32_max"
    and none: "\<forall>z. oz_room fsm z < space"
  shows "fsm_try_allocate fsm space = Some (None, fsm_open_zone_ids fsm, fsm)"
proof -
  obtain r full where f: "try_allocate_find (fsm_zones fsm) space (fsm_open_zones fsm) = Some (r, full)"
     "case r of None \<Rightarrow> full = bt_keys (fsm_open_zones fsm)
      | Some (z, oz) \<Rightarrow> (\<exists>rest. bt_keys (fsm_open_zones fsm) = full @ z # rest) \<and>
          (z, oz) \<in> set (fsm_open_zones fsm) \<and> space \<le> oz_room fsm z"
    using try_allocate_find_spec[OF wf sp order_refl] by blast
  have "r = None" using f(2) none by (auto simp: not_le[symmetric] split: option.splits)
  then show ?thesis using f by (simp add: fsm_try_allocate_def fsm_open_zone_ids_def)
qed

lemma fsm_try_allocate_spec:
  assumes wf: "fsm_wf fsm" and sp: "space < u32_max" "0 < space"
  shows "(\<forall>z. oz_room fsm z < space) \<and> fsm_try_allocate fsm space = Some (None, fsm_open_zone_ids fsm, fsm) \<or>
    (\<exists>z oz zn full rest fsm'. fsm_view fsm z = ZOpen oz zn \<and> space \<le> oz_room fsm z \<and>
       fsm_open_zone_ids fsm = full @ z # rest \<and> (\<forall>k \<in> set full. oz_room fsm k < space) \<and>
       fsm_try_allocate fsm space = Some (Some (z, oz_start oz + oz_allocated_blocks oz), full, fsm') \<and>
       fsm_sets fsm z (ZOpen (oz\<lparr>oz_allocated_blocks := oz_allocated_blocks oz + space\<rparr>) zn) fsm')"
proof (cases "\<forall>z. oz_room fsm z < space")
  case True
  then show ?thesis using fsm_try_allocate_none[OF wf sp(1)] by blast
next
  case False
  obtain r full where f: "try_allocate_find (fsm_zones fsm) space (fsm_open_zones fsm) = Some (r, full)"
     "\<forall>z \<in> set full. oz_room fsm z < space"
     "case r of None \<Rightarrow> full = bt_keys (fsm_open_zones fsm)
      | Some (z, oz) \<Rightarrow> (\<exists>rest. bt_keys (fsm_open_zones fsm) = full @ z # rest) \<and>
          (z, oz) \<in> set (fsm_open_zones fsm) \<and> space \<le> oz_room fsm z"
    using try_allocate_find_spec[OF wf sp(1) order_refl] by blast
  have "r \<noteq> None"
  proof
    assume r: "r = None"
    obtain k where k: "space \<le> oz_room fsm k" using False by (auto simp: not_less)
    then obtain oz zn where "fsm_view fsm k = ZOpen oz zn"
      using sp by (cases "fsm_view fsm k") (auto simp: oz_room_def)
    then have "bt_get (fsm_open_zones fsm) k = Some oz" using fsm_open_get[OF wf] by simp
    then have "k \<in> set (bt_keys (fsm_open_zones fsm))" using bt_get_eq_None by (metis option.distinct(1))
    then show False using f(2,3) r k by (auto simp: not_less[symmetric])
  qed
  then obtain z oz rest where r: "r = Some (z, oz)" "bt_keys (fsm_open_zones fsm) = full @ z # rest"
      "(z, oz) \<in> set (fsm_open_zones fsm)" "space \<le> oz_room fsm z"
    using f(3) by auto
  have g: "bt_get (fsm_open_zones fsm) z = Some oz" using bt_get_iff[OF fsm_wfD(4)[OF wf]] r(3) by simp
  then obtain zn where v: "fsm_view fsm z = ZOpen oz zn"
    using fsm_open_get[OF wf, of z] by (auto split: zstate.splits)
  have ok: "zstate_ok (ZOpen oz zn)" using view_zone_ok[OF wf v] .
  have le: "oz_allocated_blocks oz + space \<le> z_total_blocks zn" using r(4) v ok by (auto simp: oz_room_def)
  have w: "u32 (oz_allocated_blocks oz + u32 space) = oz_allocated_blocks oz + space"
    "oz_write_pointer oz = oz_start oz + oz_allocated_blocks oz"
    using ok le sp by (auto simp: wrapu_id oz_write_pointer_def)
  have zr: "z < fsm_total_zones fsm" using fsm_nonempty_in_range[OF wf] v by simp
  let ?oz = "oz\<lparr>oz_allocated_blocks := oz_allocated_blocks oz + space\<rparr>"
  have zid: "(fsm_zones fsm)[z := zn] = fsm_zones fsm" using fsm_get_zone(4)[of fsm z oz zn] v by auto
  have sets: "fsm_sets fsm z (ZOpen ?oz zn) (fsm\<lparr>fsm_dirty := insert (z div 255) (fsm_dirty fsm),
      fsm_open_zones := bt_insert z ?oz (fsm_open_zones fsm), fsm_zones := (fsm_zones fsm)[z := zn]\<rparr>)"
    using v ok le fsm_wfD(4)[OF wf] by (intro fsm_sets_in_place[OF wf]) (auto simp: bt_get_insert bt_insert_ok)
  have "z div 255 < (fsm_total_zones fsm + 254) div 255" using zr by linarith
  then have "fsm_try_allocate fsm space = Some (Some (z, oz_start oz + oz_allocated_blocks oz), full,
      fsm\<lparr>fsm_dirty := insert (z div 255) (fsm_dirty fsm), fsm_open_zones := bt_insert z ?oz (fsm_open_zones fsm)\<rparr>)"
    using f(1) r(1) w fsm_wfD(8)[OF wf]
    by (simp add: fsm_try_allocate_def fsm_dirty_zone_def SPACEMAP_ZONES_PER_LBA_def)
  moreover have "fsm_sets fsm z (ZOpen ?oz zn)
      (fsm\<lparr>fsm_dirty := insert (z div 255) (fsm_dirty fsm), fsm_open_zones := bt_insert z ?oz (fsm_open_zones fsm)\<rparr>)"
    using sets unfolding zid by (cases fsm) simp
  ultimately show ?thesis
    using v r(2,4) f(2) unfolding fsm_open_zone_ids_def by blast
qed

section \<open>The map on disk\<close>

text \<open>What is written for a zone depends on its abstract state only.\<close>

fun zod_of :: "zstate \<Rightarrow> ZoneOnDisk" where
  "zod_of ZEmpty = \<lparr>zod_allocated_blocks = 0, zod_freed_blocks = 0, zod_txgs = \<lparr>txg_start = 0, txg_end = 0\<rparr>\<rparr>"
| "zod_of (ZOpen oz z) = \<lparr>zod_allocated_blocks = oz_allocated_blocks oz, zod_freed_blocks = z_freed_blocks z,
     zod_txgs = z_txgs z\<rparr>"
| "zod_of (ZClosed z) = \<lparr>zod_allocated_blocks = u32_max, zod_freed_blocks = z_freed_blocks z, zod_txgs = z_txgs z\<rparr>"

lemma zone_on_disk_view: "fsm_wf fsm \<Longrightarrow> zone_on_disk fsm z = zod_of (fsm_view fsm z)"
  by (cases "fsm_view fsm z")
    (auto simp: zone_on_disk_def fsm_is_empty_view fsm_open_get fsm_get_zone(4))

lemma fsm_block_eq:
  assumes wf: "fsm_wf fsm" and i: "i < fsm_dirty_cap fsm"
  shows "fsm_block fsm i = map (\<lambda>z. zod_of (fsm_view fsm z)) [i * 255..<min ((i + 1) * 255) (fsm_total_zones fsm)]"
proof -
  have t: "fsm_total_zones fsm < 2 ^ 32" "i * 255 < fsm_total_zones fsm"
    using fsm_wfD(2,8)[OF wf] i by auto
  have w: "u32 i = i" "u32 (i * 255) = i * 255" using t by (simp_all add: wrapu_id)
  have e: "min (u32 ((i + 1) * 255)) (fsm_total_zones fsm) = min ((i + 1) * 255) (fsm_total_zones fsm)"
  proof (cases "(i + 1) * 255 < 2 ^ 32")
    case False
    then have "fsm_total_zones fsm \<le> (i + 1) * 255" using t by linarith
    moreover have "i = 16843009" using False t by simp
    ultimately show ?thesis using t by (simp add: wrapu_def)
  qed (simp add: wrapu_id)
  show ?thesis unfolding fsm_block_def w SPACEMAP_ZONES_PER_LBA_def Let_def e
    by (simp add: zone_on_disk_view[OF wf])
qed

lemma fsm_new_ok:
  assumes "nz < 2 ^ 32"
  shows "\<exists>fsm. fsm_new nz = Some fsm \<and> fsm_wf fsm \<and> fsm_view fsm = (\<lambda>_. ZEmpty) \<and>
    fsm_total_zones fsm = nz \<and> fsm_dirty fsm = {0..<(nz + 254) div 255}"
proof -
  have "spacemap_space nz = Some ((nz + 254) div 255)"
    using assms div_roundup_eq[of 255 nz 64] by (simp add: spacemap_space_def SPACEMAP_ZONES_PER_LBA_def)
  then show ?thesis
    using assms by (auto simp: fsm_new_def fsm_wf_def fsm_view_def)
qed

section \<open>Reading the map back\<close>

text \<open>
  The states of a zone that survive a round trip: the limits of the zone are those of the vdev, and
  an open zone has had something allocated in it.
\<close>

fun zone_persistent :: "LbaT \<times> LbaT \<Rightarrow> zstate \<Rightarrow> bool" where
  "zone_persistent l ZEmpty \<longleftrightarrow> True"
| "zone_persistent l (ZOpen oz z) \<longleftrightarrow> oz_start oz = fst l \<and> z_total_blocks z = snd l - fst l \<and>
     0 < oz_allocated_blocks oz \<and> oz_allocated_blocks oz < u32_max"
| "zone_persistent l (ZClosed z) \<longleftrightarrow> z_total_blocks z = snd l - fst l"

definition limits_ok :: "LbaT \<times> LbaT \<Rightarrow> bool" where
  "limits_ok l \<longleftrightarrow> fst l \<le> snd l \<and> snd l < 2 ^ 64 \<and> snd l - fst l < 2 ^ 32"

definition one_open :: "FreeSpaceMap \<Rightarrow> bool" where
  "one_open fsm \<longleftrightarrow> (\<forall>z k oz zn oz' zn'. fsm_view fsm z = ZOpen oz zn \<longrightarrow> fsm_view fsm k = ZOpen oz' zn' \<longrightarrow> z = k)"

text \<open>Setting the freed blocks and transactions of a zone that is not empty.\<close>

lemma fsm_patch_zone:
  assumes wf: "fsm_wf fsm" and d: "z div 255 \<in> fsm_dirty fsm"
    and v: "(\<exists>oz. fsm_view fsm z = ZOpen oz zn \<and> st = ZOpen oz zn') \<or> fsm_view fsm z = ZClosed zn \<and> st = ZClosed zn'"
    and ok: "zstate_ok st"
  shows "fsm_sets fsm z st (fsm\<lparr>fsm_zones := (fsm_zones fsm)[z := zn']\<rparr>)"
proof -
  have "fsm_sets fsm z st (fsm\<lparr>fsm_dirty := insert (z div 255) (fsm_dirty fsm),
      fsm_open_zones := fsm_open_zones fsm, fsm_zones := (fsm_zones fsm)[z := zn']\<rparr>)"
    using v ok fsm_wfD(4)[OF wf] by (intro fsm_sets_in_place[OF wf]) (auto simp: fsm_open_get[OF wf])
  then show ?thesis using d by (simp add: insert_absorb)
qed

lemma fsm_sets_trans: "fsm_sets f z a g \<Longrightarrow> fsm_sets g z b h \<Longrightarrow> fsm_sets f z b h"
  by (auto simp: fsm_sets_def)

lemma fsm_load_zone_step:
  assumes wf: "fsm_wf fsm" and z: "z < fsm_total_zones fsm" and e: "fsm_view fsm z = ZEmpty"
    and st: "zstate_ok st" "zone_persistent (zl z) st" and l: "limits_ok (zl z)"
    and one: "\<And>oz zn. st = ZOpen oz zn \<Longrightarrow> (\<forall>k oz zn. fsm_view fsm k \<noteq> ZOpen oz zn)"
  shows "\<exists>fsm'. fsm_load_zone zl (zod_of st) (fsm, rs, z)
      = Some (fsm', rs @ (case st of ZOpen oz _ \<Rightarrow> [(z, oz_allocated_blocks oz)] | _ \<Rightarrow> []), z + 1) \<and>
     fsm_wf fsm' \<and> fsm_view fsm' = (fsm_view fsm)(z := st) \<and> fsm_total_zones fsm' = fsm_total_zones fsm"
proof -
  obtain s en where se: "zl z = (s, en)" by force
  have z32: "u32 (z + 1) = z + 1" using z fsm_wfD(2)[OF wf] by (simp add: wrapu_id)
  have lim: "s \<le> en" "en < 2 ^ 64" "en - s < 2 ^ 32" using l se by (simp_all add: limits_ok_def)
  show ?thesis
  proof (cases st)
    case ZEmpty
    then have "(fsm_view fsm)(z := st) = fsm_view fsm" using e by auto
    then show ?thesis using ZEmpty wf z32 by (simp add: fsm_load_zone_def)
  next
    case (ZClosed zn)
    let ?t = "txg_start (z_txgs zn)"
    obtain f1 where f1: "fsm_open_zone fsm z s en 0 ?t = Some (Inr None, f1)"
      "fsm_sets fsm z (ZOpen \<lparr>oz_start = s, oz_allocated_blocks = 0\<rparr>
         \<lparr>z_freed_blocks = 0, z_total_blocks = en - s, z_txgs = \<lparr>txg_start = ?t, txg_end = u32_max\<rparr>\<rparr>) f1"
      using fsm_open_zone_sets[OF wf z e lim, of 0 ?t] by auto
    have v1: "fsm_view f1 z = ZOpen \<lparr>oz_start = s, oz_allocated_blocks = 0\<rparr>
         \<lparr>z_freed_blocks = 0, z_total_blocks = en - s, z_txgs = \<lparr>txg_start = ?t, txg_end = u32_max\<rparr>\<rparr>"
      and wf1: "fsm_wf f1" using f1(2) by (simp_all add: fsm_sets_def)
    obtain f2 zn2 where f2: "fsm_finish_zone f1 z (txg_sub (txg_end (z_txgs zn)) 1) = Some f2"
      "fsm_sets f1 z (ZClosed zn2) f2" "z_total_blocks zn2 = en - s"
      using fsm_finish_zone_sets[OF wf1 v1] by fastforce
    have v2: "fsm_view f2 z = ZClosed zn2" and wf2: "fsm_wf f2" and d2: "z div 255 \<in> fsm_dirty f2"
      using f2(2) by (simp_all add: fsm_sets_def)
    have vz: "vec_get (fsm_zones f2) z = Some zn2" using fsm_get_zone(1) v2 by blast
    have zeq: "zn2\<lparr>z_freed_blocks := z_freed_blocks zn, z_txgs := z_txgs zn\<rparr> = zn"
      using f2(3) st(2) ZClosed se by simp
    have "fsm_sets f2 z st (f2\<lparr>fsm_zones := (fsm_zones f2)[z := zn]\<rparr>)"
      using v2 ZClosed st by (intro fsm_patch_zone[OF wf2 d2]) auto
    then have "fsm_sets fsm z st (f2\<lparr>fsm_zones := (fsm_zones f2)[z := zn]\<rparr>)"
      using fsm_sets_trans f1(2) f2(2) by blast
    then show ?thesis
      using ZClosed f1(1) f2(1) vz se z32 zeq by (simp add: fsm_load_zone_def fsm_sets_def)
  next
    case (ZOpen oz zn)
    let ?t = "txg_start (z_txgs zn)"
    let ?a = "oz_allocated_blocks oz"
    have pers: "oz_start oz = s" "z_total_blocks zn = en - s" "0 < ?a" "?a < u32_max" "?a \<le> z_total_blocks zn"
      using st ZOpen se by simp_all
    let ?z0 = "\<lparr>z_freed_blocks = 0, z_total_blocks = en - s, z_txgs = \<lparr>txg_start = ?t, txg_end = u32_max\<rparr>\<rparr>"
    obtain f1 where f1: "fsm_open_zone fsm z s en 0 ?t = Some (Inr None, f1)"
      "fsm_sets fsm z (ZOpen \<lparr>oz_start = s, oz_allocated_blocks = 0\<rparr> ?z0) f1"
      using fsm_open_zone_sets[OF wf z e lim, of 0 ?t] by auto
    have v1: "fsm_view f1 = (fsm_view fsm)(z := ZOpen \<lparr>oz_start = s, oz_allocated_blocks = 0\<rparr> ?z0)"
      and wf1: "fsm_wf f1" using f1(2) by (simp_all add: fsm_sets_def)
    have room: "oz_room f1 z = en - s" "k \<noteq> z \<Longrightarrow> oz_room f1 k = 0" for k
      using one[OF ZOpen] by (auto simp: oz_room_def v1 split: zstate.splits)
    obtain full f2 where f2: "fsm_try_allocate f1 ?a = Some (Some (z, s), full, f2)"
      "fsm_sets f1 z (ZOpen \<lparr>oz_start = s, oz_allocated_blocks = ?a\<rparr> ?z0) f2"
    proof -
      have "\<not> (\<forall>k. oz_room f1 k < ?a)" using room(1) pers by (metis leD)
      then obtain k oz1 zn1 full f2 where k: "fsm_view f1 k = ZOpen oz1 zn1" "?a \<le> oz_room f1 k"
          "fsm_try_allocate f1 ?a = Some (Some (k, oz_start oz1 + oz_allocated_blocks oz1), full, f2)"
          "fsm_sets f1 k (ZOpen (oz1\<lparr>oz_allocated_blocks := oz_allocated_blocks oz1 + ?a\<rparr>) zn1) f2"
        using fsm_try_allocate_spec[OF wf1 pers(4,3)] by blast
      have "k = z" using room(2)[of k] k(2) pers(3) by (cases "k = z") auto
      then show thesis using k v1 that by auto
    qed
    have v2: "fsm_view f2 z = ZOpen \<lparr>oz_start = s, oz_allocated_blocks = ?a\<rparr> ?z0" and wf2: "fsm_wf f2"
      and d2: "z div 255 \<in> fsm_dirty f2"
      using f2(2) by (simp_all add: fsm_sets_def)
    have vz: "vec_get (fsm_zones f2) z = Some ?z0" using fsm_get_zone(1) v2 by blast
    have zeq: "?z0\<lparr>z_freed_blocks := z_freed_blocks zn, z_txgs := z_txgs zn\<rparr> = zn"
      "\<lparr>oz_start = s, oz_allocated_blocks = ?a\<rparr> = oz" using pers by simp_all
    have "fsm_sets f2 z st (f2\<lparr>fsm_zones := (fsm_zones f2)[z := zn]\<rparr>)"
      using v2 zeq(2) ZOpen st by (intro fsm_patch_zone[OF wf2 d2]) auto
    then have "fsm_sets fsm z st (f2\<lparr>fsm_zones := (fsm_zones f2)[z := zn]\<rparr>)"
      using fsm_sets_trans f1(2) f2(2) by blast
    then show ?thesis
      using ZOpen f1(1) f2(1) vz se z32 zeq pers by (simp add: fsm_load_zone_def fsm_sets_def)
  qed
qed

definition reopens :: "FreeSpaceMap \<Rightarrow> ZoneT list \<Rightarrow> (ZoneT \<times> LbaT) list" where
  "reopens fsm zs = concat (map (\<lambda>z. case fsm_view fsm z of ZOpen oz _ \<Rightarrow> [(z, oz_allocated_blocks oz)] | _ \<Rightarrow> []) zs)"

lemma fsm_load_zones_prefix:
  assumes wf: "fsm_wf fsm" and one: "one_open fsm"
    and pers: "\<And>z. z < fsm_total_zones fsm \<Longrightarrow> zone_persistent (zl z) (fsm_view fsm z)"
      "\<And>z. z < fsm_total_zones fsm \<Longrightarrow> limits_ok (zl z)"
  shows "a \<le> b \<Longrightarrow> b \<le> fsm_total_zones fsm \<Longrightarrow> fsm_wf g \<Longrightarrow> fsm_total_zones g = fsm_total_zones fsm
    \<Longrightarrow> fsm_view g = (\<lambda>z. if z < a then fsm_view fsm z else ZEmpty)
    \<Longrightarrow> \<exists>g'. fsm_load_zones zl (map (\<lambda>z. zod_of (fsm_view fsm z)) [a..<b]) (g, rs, a)
          = Some (g', rs @ reopens fsm [a..<b], b) \<and> fsm_wf g' \<and> fsm_total_zones g' = fsm_total_zones fsm \<and>
        fsm_view g' = (\<lambda>z. if z < b then fsm_view fsm z else ZEmpty)"
proof (induction "b - a" arbitrary: a g rs)
  case 0
  then show ?case by (simp add: reopens_def)
next
  case (Suc n)
  then have ab: "a < b" by simp
  have noop: "\<forall>k oz zn. fsm_view g k \<noteq> ZOpen oz zn" if "fsm_view fsm a = ZOpen oz0 zn0" for oz0 zn0
  proof (intro allI notI)
    fix k oz zn assume k: "fsm_view g k = ZOpen oz zn"
    then have "k < a" "fsm_view fsm k = ZOpen oz zn" using Suc.prems(5) by (auto split: if_splits)
    then show False using one that unfolding one_open_def by blast
  qed
  obtain g1 where g1: "fsm_load_zone zl (zod_of (fsm_view fsm a)) (g, rs, a)
      = Some (g1, rs @ (case fsm_view fsm a of ZOpen oz _ \<Rightarrow> [(a, oz_allocated_blocks oz)] | _ \<Rightarrow> []), a + 1)"
     "fsm_wf g1" "fsm_view g1 = (fsm_view g)(a := fsm_view fsm a)" "fsm_total_zones g1 = fsm_total_zones g"
    using fsm_load_zone_step[OF Suc.prems(3), of a "fsm_view fsm a" zl rs] noop Suc.prems ab pers
      fsm_wfD(6)[OF wf] by auto
  have v1: "fsm_view g1 = (\<lambda>z. if z < a + 1 then fsm_view fsm z else ZEmpty)"
    unfolding g1(3) Suc.prems(5) by (auto simp: fun_eq_iff less_Suc_eq)
  have "\<exists>g'. fsm_load_zones zl (map (\<lambda>z. zod_of (fsm_view fsm z)) [a + 1..<b])
        (g1, rs @ (case fsm_view fsm a of ZOpen oz _ \<Rightarrow> [(a, oz_allocated_blocks oz)] | _ \<Rightarrow> []), a + 1)
      = Some (g', (rs @ (case fsm_view fsm a of ZOpen oz _ \<Rightarrow> [(a, oz_allocated_blocks oz)] | _ \<Rightarrow> []))
          @ reopens fsm [a + 1..<b], b) \<and> fsm_wf g' \<and> fsm_total_zones g' = fsm_total_zones fsm \<and>
        fsm_view g' = (\<lambda>z. if z < b then fsm_view fsm z else ZEmpty)"
    using Suc ab g1 v1 by (intro Suc.hyps) auto
  then show ?case using g1(1) ab by (simp add: upt_rec[of a] reopens_def)
qed

text \<open>Loading the blocks \<open>i, i + 1, ...\<close> of the map.\<close>

lemma fsm_load_blocks_prefix:
  assumes wf: "fsm_wf fsm" and one: "one_open fsm"
    and pers: "\<And>z. z < fsm_total_zones fsm \<Longrightarrow> zone_persistent (zl z) (fsm_view fsm z)"
      "\<And>z. z < fsm_total_zones fsm \<Longrightarrow> limits_ok (zl z)"
    and dec: "\<And>i. i < fsm_dirty_cap fsm \<Longrightarrow> dec (img i) = Some (sod_new zhash i (fsm_block fsm i))"
  shows "n + i = fsm_dirty_cap fsm \<Longrightarrow> fsm_wf g \<Longrightarrow> fsm_total_zones g = fsm_total_zones fsm
    \<Longrightarrow> a = min (i * 255) (fsm_total_zones fsm)
    \<Longrightarrow> fsm_view g = (\<lambda>z. if z < a then fsm_view fsm z else ZEmpty)
    \<Longrightarrow> \<exists>g'. fsm_load_blocks zhash dec zl i (map img [i..<fsm_dirty_cap fsm]) (g, rs, a)
          = Some (Inr (g', rs @ reopens fsm [a..<fsm_total_zones fsm], fsm_total_zones fsm)) \<and>
        fsm_wf g' \<and> fsm_total_zones g' = fsm_total_zones fsm \<and> fsm_view g' = fsm_view fsm"
proof (induction n arbitrary: i g rs a)
  case 0
  have "fsm_total_zones fsm \<le> i * 255" using 0(1) fsm_wfD(8)[OF wf] by simp
  then have a: "a = fsm_total_zones fsm" using 0 by simp
  have "fsm_view fsm z = ZEmpty" if "\<not> z < fsm_total_zones fsm" for z
    using that fsm_nonempty_in_range[OF wf] by blast
  then have "fsm_view g = fsm_view fsm" using 0 a by (auto simp: fun_eq_iff)
  then show ?case using 0 a by (simp add: reopens_def)
next
  case (Suc n)
  have i: "i < fsm_dirty_cap fsm" using Suc by simp
  then have it: "i * 255 < fsm_total_zones fsm" using fsm_wfD(8)[OF wf] by simp
  let ?b = "min ((i + 1) * 255) (fsm_total_zones fsm)"
  have a: "a = i * 255" "a \<le> ?b" using it Suc.prems(4) by simp_all
  obtain g1 where g1: "fsm_load_zones zl (fsm_block fsm i) (g, rs, a) = Some (g1, rs @ reopens fsm [a..<?b], ?b)"
      "fsm_wf g1" "fsm_total_zones g1 = fsm_total_zones fsm"
      "fsm_view g1 = (\<lambda>z. if z < ?b then fsm_view fsm z else ZEmpty)"
    unfolding fsm_block_eq[OF wf i] a(1)[symmetric]
    using fsm_load_zones_prefix[OF wf one pers a(2) _ Suc.prems(2,3,5)] by auto
  have "\<exists>g'. fsm_load_blocks zhash dec zl (i + 1) (map img [i + 1..<fsm_dirty_cap fsm]) (g1, rs @ reopens fsm [a..<?b], ?b)
          = Some (Inr (g', (rs @ reopens fsm [a..<?b]) @ reopens fsm [?b..<fsm_total_zones fsm], fsm_total_zones fsm)) \<and>
        fsm_wf g' \<and> fsm_total_zones g' = fsm_total_zones fsm \<and> fsm_view g' = fsm_view fsm"
    using Suc.prems(1) g1 by (intro Suc.IH) auto
  moreover have "reopens fsm [a..<?b] @ reopens fsm [?b..<fsm_total_zones fsm] = reopens fsm [a..<fsm_total_zones fsm]"
    using upt_add_eq_append[of a ?b "fsm_total_zones fsm - ?b"] a(2)
    by (simp add: reopens_def flip: concat_append map_append)
  moreover have "sod_deserialize zhash dec i (img i) = Some (Inr (sod_new zhash i (fsm_block fsm i)))"
    using dec[OF i] by (simp add: sod_deserialize_def sod_new_def)
  ultimately show ?case
    using g1(1) i by (simp add: upt_rec[of i] sod_new_def)
qed

lemma fsm_deserialize_blocks:
  assumes "fsm_wf fsm" "one_open fsm"
    and "\<forall>z < fsm_total_zones fsm. zone_persistent (zl z) (fsm_view fsm z) \<and> limits_ok (zl z)"
    and "\<forall>sod pad. dec (enc sod @ pad) = Some sod"
  shows "\<exists>fsm'. fsm_deserialize zhash dec zl
       (map (\<lambda>i. enc (sod_new zhash i (fsm_block fsm i)) @ pad i) [0..<fsm_dirty_cap fsm]) (fsm_total_zones fsm)
     = Some (Inr (fsm', reopens fsm [0..<fsm_total_zones fsm])) \<and>
     fsm_wf fsm' \<and> fsm_view fsm' = fsm_view fsm \<and> fsm_dirty fsm' = {}"
proof -
  note D = fsm_wfD[OF assms(1)]
  obtain g where g: "fsm_new (fsm_total_zones fsm) = Some g" "fsm_wf g" "fsm_view g = (\<lambda>_. ZEmpty)"
      "fsm_total_zones g = fsm_total_zones fsm"
    using fsm_new_ok[OF D(2)] by blast
  let ?img = "\<lambda>i. enc (sod_new zhash i (fsm_block fsm i)) @ pad i"
  obtain g' where g': "fsm_load_blocks zhash dec zl 0 (map ?img [0..<fsm_dirty_cap fsm]) (g, [], 0)
      = Some (Inr (g', reopens fsm [0..<fsm_total_zones fsm], fsm_total_zones fsm))"
      "fsm_wf g'" "fsm_view g' = fsm_view fsm"
    using fsm_load_blocks_prefix[OF assms(1,2), of zl dec ?img zhash "fsm_dirty_cap fsm" 0 g 0 "[]"] g assms(3,4)
    by auto
  have "fsm_wf (fsm_clear_dirty_zones g')" "fsm_view (fsm_clear_dirty_zones g') = fsm_view g'"
  proof -
    show v: "fsm_view (fsm_clear_dirty_zones g') = fsm_view g'"
      by (simp add: fsm_view_def fsm_clear_dirty_zones_def fun_eq_iff split: option.splits)
    show "fsm_wf (fsm_clear_dirty_zones g')"
      using g'(2) unfolding fsm_wf_def v by (simp add: fsm_clear_dirty_zones_def)
  qed
  then show ?thesis using g(1) g' by (simp add: fsm_deserialize_def) (simp add: fsm_clear_dirty_zones_def)
qed

section \<open>Properties\<close>


text \<open>An example map: zone 0 is closed, zone 1 empty, zone 2 open with 5 of 60 blocks allocated.\<close>

definition example_fsm :: FreeSpaceMap where
  "example_fsm = \<lparr>fsm_dirty = {0}, fsm_dirty_cap = 1, fsm_empty_zones = {1},
     fsm_open_zones = [(2, \<lparr>oz_start = 200, oz_allocated_blocks = 5\<rparr>)], fsm_total_zones = 4,
     fsm_zones = [\<lparr>z_freed_blocks = 7, z_total_blocks = 60, z_txgs = \<lparr>txg_start = 1, txg_end = 3\<rparr>\<rparr>,
       zone_default,
       \<lparr>z_freed_blocks = 2, z_total_blocks = 60, z_txgs = \<lparr>txg_start = 3, txg_end = u32_max\<rparr>\<rparr>]\<rparr>"

lemma example_fsm_view:
  "fsm_view example_fsm z =
    (if z = 0 then ZClosed \<lparr>z_freed_blocks = 7, z_total_blocks = 60, z_txgs = \<lparr>txg_start = 1, txg_end = 3\<rparr>\<rparr>
     else if z = 2 then ZOpen \<lparr>oz_start = 200, oz_allocated_blocks = 5\<rparr>
       \<lparr>z_freed_blocks = 2, z_total_blocks = 60, z_txgs = \<lparr>txg_start = 3, txg_end = u32_max\<rparr>\<rparr>
     else ZEmpty)"
proof -
  have "z = 0 \<or> z = 1 \<or> z = 2 \<or> 3 \<le> z" by linarith
  then show ?thesis by (auto simp: fsm_view_def example_fsm_def bt_get_def)
qed

lemma example_fsm_total: "fsm_total_zones example_fsm = 4"
  by (simp add: example_fsm_def)

lemma example_fsm_wf: "fsm_wf example_fsm" "one_open example_fsm"
proof -
  have "\<forall>z. zstate_ok (fsm_view example_fsm z)" by (simp add: example_fsm_view)
  then show "fsm_wf example_fsm"
    unfolding fsm_wf_def by (simp add: example_fsm_def bt_ok_def)
  show "one_open example_fsm" by (auto simp: one_open_def example_fsm_view split: if_splits)
qed

text \<open>An example encoding of a block, one number per field.\<close>

definition example_enc :: "SpacemapOnDisk \<Rightarrow> byte list" where
  "example_enc sod = sod_checksum sod # length (sod_zones sod) #
     concat (map (\<lambda>z. [zod_allocated_blocks z, zod_freed_blocks z, txg_start (zod_txgs z), txg_end (zod_txgs z)]) (sod_zones sod))"

fun example_dec_zones :: "nat \<Rightarrow> byte list \<Rightarrow> ZoneOnDisk list option" where
  "example_dec_zones 0 bs = Some []"
| "example_dec_zones (Suc n) (a # f # s # e # bs) =
     map_option ((#) \<lparr>zod_allocated_blocks = a, zod_freed_blocks = f, zod_txgs = \<lparr>txg_start = s, txg_end = e\<rparr>\<rparr>)
       (example_dec_zones n bs)"
| "example_dec_zones (Suc n) bs = None"

definition example_dec :: "byte list \<Rightarrow> SpacemapOnDisk option" where
  "example_dec bs = (case bs of c # n # r \<Rightarrow>
     map_option (\<lambda>zs. \<lparr>sod_checksum = c, sod_zones = zs\<rparr>) (example_dec_zones n r) | _ \<Rightarrow> None)"

lemma example_dec_enc: "example_dec (example_enc sod @ pad) = Some sod"
proof -
  have "example_dec_zones (length zs) (concat (map (\<lambda>z. [zod_allocated_blocks z, zod_freed_blocks z,
      txg_start (zod_txgs z), txg_end (zod_txgs z)]) zs) @ pad) = Some zs" for zs
    by (induction zs) simp_all
  then show ?thesis by (simp add: example_dec_def example_enc_def)
qed


end
