(* ===== verification/Cluster_Correct.thy ===== *)
theory Cluster_Correct
  imports Cluster Free_Space_Map_Correct
begin

text \<open>
  Safety of the cluster: the extents that its clients hold never overlap, lie inside the zones they
  were written to, and a zone is erased only when no client holds an extent of it. The proof keeps
  the set of live extents as a ghost state beside the free-space map.
\<close>

section \<open>Zones and extents\<close>

text \<open>What the cluster relies on from \<open>zone_limits\<close> and \<open>lba2zone\<close> of the vdev below.\<close>

definition zone_geometry :: "(ZoneT \<Rightarrow> LbaT \<times> LbaT) \<Rightarrow> (LbaT \<Rightarrow> ZoneT option) \<Rightarrow> ZoneT \<Rightarrow> bool" where
  "zone_geometry zl lz n \<longleftrightarrow> (\<forall>z < n. limits_ok (zl z) \<and> snd (zl z) - fst (zl z) < u32_max \<and>
     (\<forall>lba. fst (zl z) \<le> lba \<longrightarrow> lba < snd (zl z) \<longrightarrow> lz lba = Some z))"

type_synonym extent = "LbaT \<times> LbaT"

definition extents_disjoint :: "extent \<Rightarrow> extent \<Rightarrow> bool" where
  "extents_disjoint e e' \<longleftrightarrow> fst e + snd e \<le> fst e' \<or> fst e' + snd e' \<le> fst e"

lemma extents_disjoint_sym: "extents_disjoint e e' \<Longrightarrow> extents_disjoint e' e"
  by (auto simp: extents_disjoint_def)

definition zone_extents :: "(ZoneT \<Rightarrow> LbaT \<times> LbaT) \<Rightarrow> extent set \<Rightarrow> ZoneT \<Rightarrow> extent set" where
  "zone_extents zl live z = {e \<in> live. fst (zl z) \<le> fst e \<and> fst e < snd (zl z)}"

fun zone_top :: "LbaT \<times> LbaT \<Rightarrow> zstate \<Rightarrow> LbaT" where
  "zone_top l ZEmpty = fst l"
| "zone_top l (ZOpen oz z) = fst l + oz_allocated_blocks oz"
| "zone_top l (ZClosed z) = snd l"

fun zone_used :: "zstate \<Rightarrow> nat" where
  "zone_used ZEmpty = 0"
| "zone_used (ZOpen oz z) = oz_allocated_blocks oz - z_freed_blocks z"
| "zone_used (ZClosed z) = z_total_blocks z - z_freed_blocks z"

definition extent_placed :: "(ZoneT \<Rightarrow> LbaT \<times> LbaT) \<Rightarrow> FreeSpaceMap \<Rightarrow> extent \<Rightarrow> bool" where
  "extent_placed zl fsm e \<longleftrightarrow> 0 < snd e \<and>
     (\<exists>z < fsm_total_zones fsm. fst (zl z) \<le> fst e \<and> fst e + snd e \<le> zone_top (zl z) (fsm_view fsm z))"

definition cluster_inv :: "(ZoneT \<Rightarrow> LbaT \<times> LbaT) \<Rightarrow> (LbaT \<Rightarrow> ZoneT option) \<Rightarrow> Cluster \<Rightarrow> extent set \<Rightarrow> bool" where
  "cluster_inv zl lz c live \<longleftrightarrow>
     fsm_wf (cl_fsm c) \<and> one_open (cl_fsm c) \<and> zone_geometry zl lz (fsm_total_zones (cl_fsm c)) \<and>
     (\<forall>z < fsm_total_zones (cl_fsm c). zone_persistent (zl z) (fsm_view (cl_fsm c) z)) \<and>
     finite live \<and> (\<forall>e \<in> live. extent_placed zl (cl_fsm c) e) \<and>
     (\<forall>e \<in> live. \<forall>e' \<in> live. e \<noteq> e' \<longrightarrow> extents_disjoint e e') \<and>
     (\<forall>z < fsm_total_zones (cl_fsm c).
        (\<Sum>e \<in> zone_extents zl live z. snd e) = zone_used (fsm_view (cl_fsm c) z))"

lemma zone_top_le:
  assumes "limits_ok l" "zone_persistent l st" "zstate_ok st"
  shows "fst l \<le> zone_top l st" "zone_top l st \<le> snd l"
  using assms by (cases st; auto simp: limits_ok_def)+

lemma geometry_zone_unique:
  assumes "zone_geometry zl lz n" "z < n" "k < n"
    "fst (zl z) \<le> a" "a < snd (zl z)" "fst (zl k) \<le> a" "a < snd (zl k)"
  shows "z = k"
  using assms unfolding zone_geometry_def by (metis option.inject)

lemma cluster_invD:
  assumes "cluster_inv zl lz c live"
  shows "fsm_wf (cl_fsm c)" "one_open (cl_fsm c)" "zone_geometry zl lz (fsm_total_zones (cl_fsm c))"
    "z < fsm_total_zones (cl_fsm c) \<Longrightarrow> zone_persistent (zl z) (fsm_view (cl_fsm c) z)"
    "z < fsm_total_zones (cl_fsm c) \<Longrightarrow> limits_ok (zl z)"
    "finite live" "e \<in> live \<Longrightarrow> extent_placed zl (cl_fsm c) e"
    "e \<in> live \<Longrightarrow> e' \<in> live \<Longrightarrow> e \<noteq> e' \<Longrightarrow> extents_disjoint e e'"
    "z < fsm_total_zones (cl_fsm c) \<Longrightarrow>
       (\<Sum>e \<in> zone_extents zl live z. snd e) = zone_used (fsm_view (cl_fsm c) z)"
  using assms unfolding cluster_inv_def zone_geometry_def by blast+

text \<open>A placed extent starts inside its zone.\<close>

lemma placed_zone:
  assumes inv: "cluster_inv zl lz c live" and e: "e \<in> live"
  shows "\<exists>z < fsm_total_zones (cl_fsm c). e \<in> zone_extents zl live z \<and>
     fst e + snd e \<le> zone_top (zl z) (fsm_view (cl_fsm c) z) \<and> 0 < snd e"
proof -
  obtain z where z: "z < fsm_total_zones (cl_fsm c)" "fst (zl z) \<le> fst e"
      "fst e + snd e \<le> zone_top (zl z) (fsm_view (cl_fsm c) z)" "0 < snd e"
    using cluster_invD(7)[OF inv e] by (auto simp: extent_placed_def)
  have "zone_top (zl z) (fsm_view (cl_fsm c) z) \<le> snd (zl z)"
    using zone_top_le(2)[OF cluster_invD(5)[OF inv z(1)] cluster_invD(4)[OF inv z(1)]]
      fsm_wfD(6)[OF cluster_invD(1)[OF inv]] by blast
  then show ?thesis using z e by (auto simp: zone_extents_def)
qed

section \<open>Changes of one zone\<close>

text \<open>
  The zone \<open>z\<close> changes to \<open>st\<close> and the live extents to \<open>live'\<close>, where the extents of the other
  zones stay the same, those of \<open>z\<close> lie below its new top and account for its used blocks.
\<close>

lemma cluster_inv_change:
  assumes inv: "cluster_inv zl lz c live" and z: "z < fsm_total_zones (cl_fsm c)"
    and sets: "fsm_sets (cl_fsm c) z st fsm'" and one: "one_open fsm'" and pers: "zone_persistent (zl z) st"
    and fin: "finite live'"
    and other: "\<And>k. k < fsm_total_zones (cl_fsm c) \<Longrightarrow> k \<noteq> z \<Longrightarrow> zone_extents zl live' k = zone_extents zl live k"
    and all: "\<And>e. e \<in> live' \<Longrightarrow> e \<in> live \<or> e \<in> zone_extents zl live' z"
    and here: "\<And>e. e \<in> zone_extents zl live' z \<Longrightarrow> 0 < snd e \<and> fst e + snd e \<le> zone_top (zl z) st"
    and disj: "\<And>e e'. e \<in> live' \<Longrightarrow> e' \<in> live' \<Longrightarrow> e \<noteq> e' \<Longrightarrow> extents_disjoint e e'"
    and used: "(\<Sum>e \<in> zone_extents zl live' z. snd e) = zone_used st"
  shows "cluster_inv zl lz (c\<lparr>cl_fsm := fsm'\<rparr>) live'"
proof -
  let ?n = "fsm_total_zones (cl_fsm c)"
  have v: "fsm_view fsm' = (fsm_view (cl_fsm c))(z := st)" "fsm_total_zones fsm' = ?n" "fsm_wf fsm'"
    using sets by (simp_all add: fsm_sets_def)
  have placed: "extent_placed zl fsm' e" if e: "e \<in> live'" for e
  proof (cases "e \<in> zone_extents zl live' z")
    case True
    then show ?thesis
      using here[OF True] z v by (auto simp: extent_placed_def zone_extents_def intro!: exI[of _ z])
  next
    case False
    then have el: "e \<in> live" using all e by blast
    obtain k where k: "k < ?n" "e \<in> zone_extents zl live k" "0 < snd e"
        "fst e + snd e \<le> zone_top (zl k) (fsm_view (cl_fsm c) k)"
      using placed_zone[OF inv el] by blast
    have "k \<noteq> z" using False e k(2) by (auto simp: zone_extents_def)
    then show ?thesis
      using k v by (auto simp: extent_placed_def zone_extents_def intro!: exI[of _ k])
  qed
  have sum: "(\<Sum>e \<in> zone_extents zl live' k. snd e) = zone_used (fsm_view fsm' k)" if "k < ?n" for k
    using that other[of k] used cluster_invD(9)[OF inv that] v(1) by (cases "k = z") auto
  show ?thesis
    unfolding cluster_inv_def
    using v one cluster_invD(3,4)[OF inv] pers fin placed disj sum by auto
qed

lemma sum_zone_extents_insert:
  assumes "finite live" "e \<notin> live" "fst (zl z) \<le> fst e" "fst e < snd (zl z)"
  shows "(\<Sum>x \<in> zone_extents zl (insert e live) z. snd x) = (\<Sum>x \<in> zone_extents zl live z. snd x) + snd e"
proof -
  have "zone_extents zl (insert e live) z = insert e (zone_extents zl live z)"
    using assms by (auto simp: zone_extents_def)
  moreover have "e \<notin> zone_extents zl live z" "finite (zone_extents zl live z)"
    using assms by (auto simp: zone_extents_def)
  ultimately show ?thesis by simp
qed

text \<open>The state changes without an effect on the extents: closing a zone and wasting space.\<close>

lemma cluster_inv_same_live:
  assumes inv: "cluster_inv zl lz c live" and z: "z < fsm_total_zones (cl_fsm c)"
    and sets: "fsm_sets (cl_fsm c) z st fsm'" and one: "one_open fsm'" and pers: "zone_persistent (zl z) st"
    and top: "zone_top (zl z) (fsm_view (cl_fsm c) z) \<le> zone_top (zl z) st"
    and used: "zone_used (fsm_view (cl_fsm c) z) = zone_used st"
  shows "cluster_inv zl lz (c\<lparr>cl_fsm := fsm'\<rparr>) live"
proof (rule cluster_inv_change[OF inv z sets one pers])
  fix e assume e: "e \<in> zone_extents zl live z"
  then obtain k where k: "k < fsm_total_zones (cl_fsm c)" "e \<in> zone_extents zl live k" "0 < snd e"
      "fst e + snd e \<le> zone_top (zl k) (fsm_view (cl_fsm c) k)"
    using placed_zone[OF inv, of e] by (auto simp: zone_extents_def)
  have "k = z"
    using geometry_zone_unique[OF cluster_invD(3)[OF inv] k(1) z, of "fst e"] e k(2) by (auto simp: zone_extents_def)
  then show "0 < snd e \<and> fst e + snd e \<le> zone_top (zl z) st" using k top by simp
qed (use cluster_invD[OF inv] z used in auto)

text \<open>An allocation at the top of a zone.\<close>

lemma cluster_inv_alloc:
  assumes inv: "cluster_inv zl lz c live" and z: "z < fsm_total_zones (cl_fsm c)"
    and sets: "fsm_sets (cl_fsm c) z st fsm'" and one: "one_open fsm'" and pers: "zone_persistent (zl z) st"
    and ok: "zstate_ok st" and len: "0 < len"
    and lba: "lba = zone_top (zl z) (fsm_view (cl_fsm c) z)"
    and top: "zone_top (zl z) st = lba + len"
    and used: "zone_used st = zone_used (fsm_view (cl_fsm c) z) + len"
  shows "cluster_inv zl lz (c\<lparr>cl_fsm := fsm'\<rparr>) (insert (lba, len) live)" "(lba, len) \<notin> live"
    "\<And>e. e \<in> live \<Longrightarrow> extents_disjoint (lba, len) e"
proof -
  note I = cluster_invD[OF inv]
  have zt: "fst (zl z) \<le> lba" "lba + len \<le> snd (zl z)"
    using zone_top_le[OF I(5)[OF z] I(4)[OF z]] zone_top_le[OF I(5)[OF z] pers ok] fsm_wfD(6)[OF I(1)]
      lba top by auto
  show disj: "extents_disjoint (lba, len) e" if el: "e \<in> live" for e
  proof -
    obtain k where k: "k < fsm_total_zones (cl_fsm c)" "e \<in> zone_extents zl live k" "0 < snd e"
        "fst e + snd e \<le> zone_top (zl k) (fsm_view (cl_fsm c) k)"
      using placed_zone[OF inv el] by blast
    show ?thesis
    proof (cases "k = z")
      case True
      then show ?thesis using k(4) lba by (simp add: extents_disjoint_def)
    next
      case False
      have ke: "fst (zl k) \<le> fst e" "fst e < snd (zl k)" using k(2) by (auto simp: zone_extents_def)
      have et: "fst e + snd e \<le> snd (zl k)"
        using k(4) zone_top_le(2)[OF I(5)[OF k(1)] I(4)[OF k(1)]] fsm_wfD(6)[OF I(1), of k] by linarith
      show ?thesis
      proof (rule ccontr)
        assume "\<not> extents_disjoint (lba, len) e"
        then have o: "fst e < lba + len" "lba < fst e + snd e" by (auto simp: extents_disjoint_def)
        define a where "a = max lba (fst e)"
        have "fst (zl z) \<le> a" "a < snd (zl z)" "fst (zl k) \<le> a" "a < snd (zl k)"
          using o zt ke et len k(3) by (auto simp: a_def)
        then show False using geometry_zone_unique[OF I(3) z k(1)] False by blast
      qed
    qed
  qed
  show nl: "(lba, len) \<notin> live"
    using disj[of "(lba, len)"] len by (auto simp: extents_disjoint_def)
  have zin: "fst (zl z) \<le> fst (lba, len)" "fst (lba, len) < snd (zl z)" using zt len by auto
  show "cluster_inv zl lz (c\<lparr>cl_fsm := fsm'\<rparr>) (insert (lba, len) live)"
  proof (rule cluster_inv_change[OF inv z sets one pers])
    show "(\<Sum>e \<in> zone_extents zl (insert (lba, len) live) z. snd e) = zone_used st"
      using sum_zone_extents_insert[OF I(6) nl, of zl z] zin I(9)[OF z] used by simp
    fix e
    show "e \<in> insert (lba, len) live \<Longrightarrow> e \<in> live \<or> e \<in> zone_extents zl (insert (lba, len) live) z"
      using zin by (auto simp: zone_extents_def)
    assume e: "e \<in> zone_extents zl (insert (lba, len) live) z"
    show "0 < snd e \<and> fst e + snd e \<le> zone_top (zl z) st"
    proof (cases "e = (lba, len)")
      case False
      then have el: "e \<in> live" "e \<in> zone_extents zl live z" using e by (auto simp: zone_extents_def)
      obtain k where k: "k < fsm_total_zones (cl_fsm c)" "e \<in> zone_extents zl live k" "0 < snd e"
          "fst e + snd e \<le> zone_top (zl k) (fsm_view (cl_fsm c) k)"
        using placed_zone[OF inv el(1)] by blast
      have "k = z"
        using geometry_zone_unique[OF I(3) k(1) z, of "fst e"] el(2) k(2) by (auto simp: zone_extents_def)
      then show ?thesis using k lba top by simp
    qed (use len top in simp)
  next
    fix k assume k: "k < fsm_total_zones (cl_fsm c)" "k \<noteq> z"
    show "zone_extents zl (insert (lba, len) live) k = zone_extents zl live k"
      using geometry_zone_unique[OF I(3) k(1) z, of lba] k(2) zin by (auto simp: zone_extents_def)
  next
    fix e e' assume "e \<in> insert (lba, len) live" "e' \<in> insert (lba, len) live" "e \<noteq> e'"
    then show "extents_disjoint e e'" using disj I(8) extents_disjoint_sym by blast
  qed (use I(6) in simp)
qed

text \<open>Freeing an extent.\<close>

lemma cluster_inv_free:
  assumes inv: "cluster_inv zl lz c live" and z: "z < fsm_total_zones (cl_fsm c)"
    and e: "e \<in> zone_extents zl live z"
    and sets: "fsm_sets (cl_fsm c) z st fsm'" and one: "one_open fsm'" and pers: "zone_persistent (zl z) st"
    and top: "zone_top (zl z) (fsm_view (cl_fsm c) z) \<le> zone_top (zl z) st"
    and used: "zone_used (fsm_view (cl_fsm c) z) = zone_used st + snd e"
  shows "cluster_inv zl lz (c\<lparr>cl_fsm := fsm'\<rparr>) (live - {e})"
proof (rule cluster_inv_change[OF inv z sets one pers])
  note I = cluster_invD[OF inv]
  have el: "e \<in> live" and ez: "fst (zl z) \<le> fst e" "fst e < snd (zl z)" using e by (auto simp: zone_extents_def)
  show "(\<Sum>e \<in> zone_extents zl (live - {e}) z. snd e) = zone_used st"
    using sum_zone_extents_insert[where e = e and live = "live - {e}" and zl = zl and z = z] el ez I(6)
      I(9)[OF z] used by (simp add: insert_absorb)
  fix x assume x: "x \<in> zone_extents zl (live - {e}) z"
  then obtain k where k: "k < fsm_total_zones (cl_fsm c)" "x \<in> zone_extents zl live k" "0 < snd x"
      "fst x + snd x \<le> zone_top (zl k) (fsm_view (cl_fsm c) k)"
    using placed_zone[OF inv, of x] by (auto simp: zone_extents_def)
  have "k = z" using geometry_zone_unique[OF I(3) k(1) z, of "fst x"] x k(2) by (auto simp: zone_extents_def)
  then show "0 < snd x \<and> fst x + snd x \<le> zone_top (zl z) st" using k top by simp
next
  fix k assume k: "k < fsm_total_zones (cl_fsm c)" "k \<noteq> z"
  then show "zone_extents zl (live - {e}) k = zone_extents zl live k"
    using geometry_zone_unique[OF cluster_invD(3)[OF inv] k(1) z, of "fst e"] e by (auto simp: zone_extents_def)
qed (use cluster_invD[OF inv] in auto)

section \<open>The map on disk\<close>

text \<open>
  A spacemap area of the disk is a function from block numbers to bytes. It is in step with a map if
  every block that is not dirty holds the serialization of the map's current state.
\<close>

type_synonym area = "nat \<Rightarrow> byte list"

fun apply_op :: "nat \<Rightarrow> VdevOp \<Rightarrow> area \<Rightarrow> area" where
  "apply_op idx (VWriteSpacemap sg i block) a = (if i = idx then a(block := concat sg) else a)"
| "apply_op idx _ a = a"

definition synced :: "(nat \<Rightarrow> ZoneOnDisk list \<Rightarrow> nat) \<Rightarrow> (SpacemapOnDisk \<Rightarrow> byte list) \<Rightarrow> FreeSpaceMap \<Rightarrow> area \<Rightarrow> bool" where
  "synced zhash enc fsm a \<longleftrightarrow> (\<forall>i < fsm_dirty_cap fsm. i \<notin> fsm_dirty fsm \<longrightarrow>
     (\<exists>pad. a i = enc (sod_new zhash i (fsm_block fsm i)) @ pad))"

lemma fsm_sets_block:
  assumes "fsm_wf fsm" "fsm_sets fsm z st fsm'" "i < fsm_dirty_cap fsm" "i \<noteq> z div 255"
  shows "fsm_block fsm' i = fsm_block fsm i"
proof -
  have s: "fsm_wf fsm'" "fsm_view fsm' = (fsm_view fsm)(z := st)" "fsm_total_zones fsm' = fsm_total_zones fsm"
    using assms(2) by (simp_all add: fsm_sets_def)
  have c: "fsm_dirty_cap fsm' = fsm_dirty_cap fsm" using fsm_wfD(8)[OF s(1)] fsm_wfD(8)[OF assms(1)] s(3) by simp
  have "z \<notin> set [i * 255..<min ((i + 1) * 255) (fsm_total_zones fsm)]" using assms(4) by auto
  then show ?thesis
    using fsm_block_eq[OF assms(1,3)] fsm_block_eq[OF s(1), of i] assms(3) c s(2,3) by auto
qed

lemma synced_sets:
  assumes "fsm_wf fsm" "fsm_sets fsm z st fsm'" "synced zhash enc fsm a"
  shows "synced zhash enc fsm' a"
  unfolding synced_def
proof (intro allI impI)
  have s: "fsm_wf fsm'" "fsm_total_zones fsm' = fsm_total_zones fsm" "fsm_dirty fsm' = insert (z div 255) (fsm_dirty fsm)"
    using assms(2) by (simp_all add: fsm_sets_def)
  fix i assume i: "i < fsm_dirty_cap fsm'" "i \<notin> fsm_dirty fsm'"
  have c: "fsm_dirty_cap fsm' = fsm_dirty_cap fsm" using fsm_wfD(8)[OF s(1)] fsm_wfD(8)[OF assms(1)] s(2) by simp
  then show "\<exists>pad. a i = enc (sod_new zhash i (fsm_block fsm' i)) @ pad"
    using fsm_sets_block[OF assms(1,2), of i] i s(3) assms(3) by (auto simp: synced_def)
qed

definition keeps_sync :: "FreeSpaceMap \<Rightarrow> FreeSpaceMap \<Rightarrow> bool" where
  "keeps_sync fsm fsm' \<longleftrightarrow> (\<forall>zhash enc a. synced zhash enc fsm a \<longrightarrow> synced zhash enc fsm' a)"

lemma keeps_sync_refl [simp]: "keeps_sync fsm fsm"
  by (simp add: keeps_sync_def)

lemma keeps_sync_trans: "keeps_sync f g \<Longrightarrow> keeps_sync g h \<Longrightarrow> keeps_sync f h"
  by (simp add: keeps_sync_def)

lemma keeps_sync_sets: "fsm_wf fsm \<Longrightarrow> fsm_sets fsm z st fsm' \<Longrightarrow> keeps_sync fsm fsm'"
  using synced_sets unfolding keeps_sync_def by blast

section \<open>Operations\<close>

text \<open>The list of the open zones has at most one element.\<close>

lemma open_ids_view: "fsm_wf fsm \<Longrightarrow> z \<in> set (fsm_open_zone_ids fsm) \<longleftrightarrow> (\<exists>oz zn. fsm_view fsm z = ZOpen oz zn)"
  using bt_get_eq_None[of "fsm_open_zones fsm" z] fsm_open_get[of fsm z]
  by (auto simp: fsm_open_zone_ids_def split: zstate.splits)

lemma open_ids_cases:
  assumes "fsm_wf fsm" "one_open fsm"
  shows "fsm_open_zone_ids fsm = [] \<and> (\<forall>z oz zn. fsm_view fsm z \<noteq> ZOpen oz zn) \<or>
    (\<exists>z oz zn. fsm_open_zone_ids fsm = [z] \<and> fsm_view fsm z = ZOpen oz zn)"
proof (cases "fsm_open_zone_ids fsm")
  case Nil
  then show ?thesis using open_ids_view[OF assms(1)] by (metis empty_iff list.set(1))
next
  case (Cons z zs)
  obtain oz zn where v: "fsm_view fsm z = ZOpen oz zn" using open_ids_view[OF assms(1), of z] Cons by auto
  have "k = z" if "k \<in> set (fsm_open_zone_ids fsm)" for k
    using that open_ids_view[OF assms(1), of k] v assms(2) unfolding one_open_def by blast
  moreover have "distinct (fsm_open_zone_ids fsm)"
    using bt_ok_distinct[OF fsm_wfD(4)[OF assms(1)]] by (simp add: fsm_open_zone_ids_def)
  ultimately have "zs = []" using Cons by (cases zs) auto
  then show ?thesis using Cons v by blast
qed

lemma one_open_sets:
  assumes "fsm_sets fsm z st fsm'" "\<And>k oz zn. k \<noteq> z \<Longrightarrow> fsm_view fsm k \<noteq> ZOpen oz zn"
  shows "one_open fsm'"
  unfolding one_open_def
proof (intro allI impI)
  fix a b oz zn oz' zn' assume "fsm_view fsm' a = ZOpen oz zn" "fsm_view fsm' b = ZOpen oz' zn'"
  then have "a = z" "b = z" using assms unfolding fsm_sets_def by (metis fun_upd_other)+
  then show "a = b" by simp
qed

lemma one_open_sets_same:
  assumes "one_open fsm" "fsm_sets fsm z st fsm'" "(\<exists>oz zn. fsm_view fsm z = ZOpen oz zn) \<or> (\<forall>oz zn. st \<noteq> ZOpen oz zn)"
  shows "one_open fsm'"
  unfolding one_open_def
proof (intro allI impI)
  fix a b oz zn oz' zn' assume v: "fsm_view fsm' a = ZOpen oz zn" "fsm_view fsm' b = ZOpen oz' zn'"
  have "fsm_view fsm' = (fsm_view fsm)(z := st)" using assms(2) by (simp add: fsm_sets_def)
  then have "\<exists>oz zn. fsm_view fsm a = ZOpen oz zn" "\<exists>oz zn. fsm_view fsm b = ZOpen oz zn"
    using v assms(3) by (auto split: if_splits)
  then show "a = b" using assms(1) unfolding one_open_def by blast
qed

lemma find_empty_spec:
  assumes wf: "fsm_wf fsm"
  shows "case fsm_find_empty fsm of Some z \<Rightarrow> z < fsm_total_zones fsm \<and> fsm_view fsm z = ZEmpty
    | None \<Rightarrow> (\<forall>z < fsm_total_zones fsm. fsm_view fsm z \<noteq> ZEmpty)"
proof (cases "fsm_empty_zones fsm = {}")
  case True
  then show ?thesis
    using fsm_wfD(1)[OF wf]
    by (auto simp: fsm_find_empty_def fsm_len32[OF wf] fsm_view_def split: option.splits)
next
  case False
  have "finite (fsm_empty_zones fsm)" using fsm_wfD(3)[OF wf] finite_subset by blast
  then have m: "Min (fsm_empty_zones fsm) \<in> fsm_empty_zones fsm" using False by simp
  then have "Min (fsm_empty_zones fsm) < length (fsm_zones fsm)" using fsm_wfD(3)[OF wf] by auto
  then show ?thesis
    using m False fsm_wfD(1)[OF wf] by (simp add: fsm_find_empty_def fsm_view_def)
qed

text \<open>Closing an open zone leaves the invariant and no open zone.\<close>

lemma close_open_zone:
  assumes inv: "cluster_inv zl lz c live" and v: "fsm_view (cl_fsm c) z = ZOpen oz zn"
  shows "\<exists>fsm' zn'. fsm_finish_zone (cl_fsm c) z txg = Some fsm' \<and> cluster_inv zl lz (c\<lparr>cl_fsm := fsm'\<rparr>) live \<and>
    (\<forall>k oz zn. fsm_view fsm' k \<noteq> ZOpen oz zn) \<and> fsm_sets (cl_fsm c) z (ZClosed zn') fsm'"
proof -
  note I = cluster_invD[OF inv]
  let ?zn = "zn\<lparr>z_freed_blocks := z_freed_blocks zn + (z_total_blocks zn - oz_allocated_blocks oz),
       z_txgs := (z_txgs zn)\<lparr>txg_end := txg_add txg 1\<rparr>\<rparr>"
  obtain fsm' where f: "fsm_finish_zone (cl_fsm c) z txg = Some fsm'" "fsm_sets (cl_fsm c) z (ZClosed ?zn) fsm'"
    using fsm_finish_zone_sets[OF I(1) v] by blast
  have z: "z < fsm_total_zones (cl_fsm c)" using fsm_nonempty_in_range[OF I(1)] v by simp
  have ok: "zstate_ok (ZOpen oz zn)" using view_zone_ok[OF I(1) v] .
  have pers: "zone_persistent (zl z) (ZOpen oz zn)" using I(4)[OF z] v by simp
  have none: "fsm_view fsm' k \<noteq> ZOpen oz1 zn1" for k oz1 zn1
  proof
    assume a: "fsm_view fsm' k = ZOpen oz1 zn1"
    have "fsm_view fsm' = (fsm_view (cl_fsm c))(z := ZClosed ?zn)" using f(2) by (simp add: fsm_sets_def)
    then have "k \<noteq> z" "fsm_view (cl_fsm c) k = ZOpen oz1 zn1" using a by (auto split: if_splits)
    then show False using v I(2) unfolding one_open_def by blast
  qed
  have "cluster_inv zl lz (c\<lparr>cl_fsm := fsm'\<rparr>) live"
  proof (rule cluster_inv_same_live[OF inv z f(2)])
    show "one_open fsm'" using none by (simp add: one_open_def)
    show "zone_persistent (zl z) (ZClosed ?zn)" using pers by simp
    show "zone_top (zl z) (fsm_view (cl_fsm c) z) \<le> zone_top (zl z) (ZClosed ?zn)"
      using pers ok v I(5)[OF z] by (auto simp: limits_ok_def)
    show "zone_used (fsm_view (cl_fsm c) z) = zone_used (ZClosed ?zn)" using ok v by auto
  qed
  then show ?thesis using f none by blast
qed

lemma close_zones_all:
  assumes inv: "cluster_inv zl lz c live"
  shows "\<exists>fsm'. close_zones (cl_fsm c) (fsm_open_zone_ids (cl_fsm c)) txg
      = Some (fsm', map VFinishZone (fsm_open_zone_ids (cl_fsm c))) \<and>
    cluster_inv zl lz (c\<lparr>cl_fsm := fsm'\<rparr>) live \<and> (\<forall>k oz zn. fsm_view fsm' k \<noteq> ZOpen oz zn) \<and>
    fsm_total_zones fsm' = fsm_total_zones (cl_fsm c) \<and>
    (\<forall>k. fsm_view fsm' k = ZEmpty \<longleftrightarrow> fsm_view (cl_fsm c) k = ZEmpty) \<and> keeps_sync (cl_fsm c) fsm'"
  using open_ids_cases[OF cluster_invD(1,2)[OF inv]]
proof (elim disjE exE conjE)
  assume "fsm_open_zone_ids (cl_fsm c) = []" "\<forall>z oz zn. fsm_view (cl_fsm c) z \<noteq> ZOpen oz zn"
  then show ?thesis using inv by simp
next
  fix z oz zn assume z: "fsm_open_zone_ids (cl_fsm c) = [z]" "fsm_view (cl_fsm c) z = ZOpen oz zn"
  obtain fsm' zn' where f: "fsm_finish_zone (cl_fsm c) z txg = Some fsm'"
      "cluster_inv zl lz (c\<lparr>cl_fsm := fsm'\<rparr>) live" "\<forall>k oz zn. fsm_view fsm' k \<noteq> ZOpen oz zn"
      "fsm_sets (cl_fsm c) z (ZClosed zn') fsm'"
    using close_open_zone[OF inv z(2)] by blast
  have v: "fsm_view fsm' = (fsm_view (cl_fsm c))(z := ZClosed zn')" "fsm_total_zones fsm' = fsm_total_zones (cl_fsm c)"
    using f(4) by (simp_all add: fsm_sets_def)
  show ?thesis using f z v keeps_sync_sets[OF cluster_invD(1)[OF inv] f(4)] by auto
qed

definition blocks_of :: "IoVec \<Rightarrow> LbaT" where
  "blocks_of buf = (length buf + 4095) div 4096"

lemma blocks_of_roundup:
  assumes "blocks_of buf < u32_max"
  shows "div_roundup 64 (length buf) BYTES_PER_LBA = Some (blocks_of buf)"
proof -
  have "length buf < 2 ^ 64 - 4096" using assms by (simp add: blocks_of_def)
  then show ?thesis using div_roundup_eq[of 4096 "length buf" 64] by (simp add: BYTES_PER_LBA_def blocks_of_def)
qed

text \<open>The outcome of a write that opens a new zone.\<close>

lemma open_and_alloc:
  assumes inv: "cluster_inv zl lz c live" and noop: "\<forall>k oz zn. fsm_view (cl_fsm c) k \<noteq> ZOpen oz zn"
    and z: "z < fsm_total_zones (cl_fsm c)" and e: "fsm_view (cl_fsm c) z = ZEmpty" and len: "0 < len" "len < u32_max"
  shows "\<exists>fsm'. if snd (zl z) - fst (zl z) < len
     then fsm_open_zone (cl_fsm c) z (fst (zl z)) (snd (zl z)) len txg = Some (Inl ENOSPC, fsm') \<and>
       cluster_inv zl lz (c\<lparr>cl_fsm := fsm'\<rparr>) live \<and> keeps_sync (cl_fsm c) fsm'
     else fsm_open_zone (cl_fsm c) z (fst (zl z)) (snd (zl z)) len txg = Some (Inr (Some (z, fst (zl z))), fsm') \<and>
       cluster_inv zl lz (c\<lparr>cl_fsm := fsm'\<rparr>) (insert (fst (zl z), len) live) \<and> keeps_sync (cl_fsm c) fsm' \<and>
       (\<forall>e \<in> live. extents_disjoint (fst (zl z), len) e)"
proof -
  note I = cluster_invD[OF inv]
  have lim: "fst (zl z) \<le> snd (zl z)" "snd (zl z) < 2 ^ 64" "snd (zl z) - fst (zl z) < 2 ^ 32"
    using I(5)[OF z] by (simp_all add: limits_ok_def)
  show ?thesis
  proof (cases "snd (zl z) - fst (zl z) < len")
    case True
    obtain fsm' where f: "fsm_open_zone (cl_fsm c) z (fst (zl z)) (snd (zl z)) len txg = Some (Inl ENOSPC, fsm')"
        "fsm_sets (cl_fsm c) z ZEmpty fsm'"
      using fsm_open_zone_nospace[OF I(1) z e lim(1,2) True] by blast
    have "cluster_inv zl lz (c\<lparr>cl_fsm := fsm'\<rparr>) live"
      using e one_open_sets_same[OF I(2) f(2)] by (intro cluster_inv_same_live[OF inv z f(2)]) auto
    then show ?thesis using f(1) True keeps_sync_sets[OF I(1) f(2)] by auto
  next
    case False
    let ?st = "ZOpen \<lparr>oz_start = fst (zl z), oz_allocated_blocks = len\<rparr>
     \<lparr>z_freed_blocks = 0, z_total_blocks = snd (zl z) - fst (zl z), z_txgs = \<lparr>txg_start = txg, txg_end = u32_max\<rparr>\<rparr>"
    obtain fsm' where f: "fsm_open_zone (cl_fsm c) z (fst (zl z)) (snd (zl z)) len txg = Some (Inr (Some (z, fst (zl z))), fsm')"
        "fsm_sets (cl_fsm c) z ?st fsm'"
      using fsm_open_zone_sets[OF I(1) z e lim, of len txg] False len by auto
    have ok: "zstate_ok ?st"
      using f(2) fsm_wfD(6)[of fsm' z] by (simp add: fsm_sets_def)
    have "cluster_inv zl lz (c\<lparr>cl_fsm := fsm'\<rparr>) (insert (fst (zl z), len) live)"
      "\<And>e. e \<in> live \<Longrightarrow> extents_disjoint (fst (zl z), len) e"
      using e len noop one_open_sets[OF f(2)] ok
      by (intro cluster_inv_alloc[OF inv z f(2)]; simp)+
    then show ?thesis using f(1) False keeps_sync_sets[OF I(1) f(2)] by auto
  qed
qed

text \<open>What a successful write has done, and when a write fails.\<close>

definition write_ok :: "(ZoneT \<Rightarrow> LbaT \<times> LbaT) \<Rightarrow> (LbaT \<Rightarrow> ZoneT option) \<Rightarrow> IoVec \<Rightarrow> extent set \<Rightarrow> LbaT \<Rightarrow> Cluster \<Rightarrow>
    VdevOp list \<Rightarrow> bool" where
  "write_ok zl lz buf live lba c' ops \<longleftrightarrow>
     cluster_inv zl lz c' (insert (lba, blocks_of buf) live) \<and>
     (\<forall>e \<in> live. extents_disjoint (lba, blocks_of buf) e) \<and>
     (\<exists>z < fsm_total_zones (cl_fsm c'). fst (zl z) \<le> lba \<and> lba + blocks_of buf \<le> snd (zl z) \<and>
        last ops = VWriteAt buf z lba \<and> ops \<noteq> [])"

definition no_room :: "(ZoneT \<Rightarrow> LbaT \<times> LbaT) \<Rightarrow> FreeSpaceMap \<Rightarrow> LbaT \<Rightarrow> bool" where
  "no_room zl fsm len \<longleftrightarrow> (\<forall>z. oz_room fsm z < len) \<and>
     (case fsm_find_empty fsm of None \<Rightarrow> True | Some z \<Rightarrow> snd (zl z) - fst (zl z) < len)"

lemma alloc_in_zone:
  assumes "cluster_inv zl lz c' live" "(lba, len) \<in> live" "0 < len" "z < fsm_total_zones (cl_fsm c')"
    "fst (zl z) \<le> lba" "lba < snd (zl z)"
  shows "lba + len \<le> snd (zl z)"
proof -
  obtain k where k: "k < fsm_total_zones (cl_fsm c')" "(lba, len) \<in> zone_extents zl live k"
      "lba + len \<le> zone_top (zl k) (fsm_view (cl_fsm c') k)"
    using placed_zone[OF assms(1,2)] by auto
  have "k = z" using geometry_zone_unique[OF cluster_invD(3)[OF assms(1)] k(1) assms(4), of lba] k(2) assms
    by (auto simp: zone_extents_def)
  moreover have "zone_top (zl z) (fsm_view (cl_fsm c') z) \<le> snd (zl z)"
    using zone_top_le(2)[OF cluster_invD(5)[OF assms(1,4)] cluster_invD(4)[OF assms(1,4)]]
      fsm_wfD(6)[OF cluster_invD(1)[OF assms(1)]] by blast
  ultimately show ?thesis using k(3) by simp
qed

lemma fsm_find_empty_same:
  assumes "fsm_wf fsm" "fsm_wf fsm'" "fsm_total_zones fsm' = fsm_total_zones fsm"
    "\<forall>k. fsm_view fsm' k = ZEmpty \<longleftrightarrow> fsm_view fsm k = ZEmpty"
  shows "fsm_find_empty fsm' = fsm_find_empty fsm"
proof -
  have len: "length (fsm_zones f) = (if \<forall>k. fsm_view f k = ZEmpty then 0 else Suc (GREATEST k. fsm_view f k \<noteq> ZEmpty))"
    if wf: "fsm_wf f" for f
  proof (cases "fsm_zones f = []")
    case True
    then show ?thesis by (simp add: fsm_view_def)
  next
    case False
    have "0 < length (fsm_zones f)" using False by simp
    then have l1: "length (fsm_zones f) - 1 \<notin> fsm_empty_zones f" "\<not> length (fsm_zones f) \<le> length (fsm_zones f) - 1"
      using wf False unfolding fsm_wf_def by (blast, linarith)
    have "fsm_view f (length (fsm_zones f) - 1) \<noteq> ZEmpty"
      unfolding fsm_view_def using l1 by (simp only: if_False simp_thms split: option.splits) simp
    moreover have "k \<le> length (fsm_zones f) - 1" if "fsm_view f k \<noteq> ZEmpty" for k
      using that by (auto simp: fsm_view_def split: if_splits)
    ultimately have "(GREATEST k. fsm_view f k \<noteq> ZEmpty) = length (fsm_zones f) - 1"
      by (intro Greatest_equality) auto
    then show ?thesis using False \<open>fsm_view f (length (fsm_zones f) - 1) \<noteq> ZEmpty\<close> by auto
  qed
  have l: "length (fsm_zones fsm') = length (fsm_zones fsm)"
    unfolding len[OF assms(1)] len[OF assms(2)] using assms(4) by simp
  have em: "fsm_empty_zones f = {k. k < length (fsm_zones f) \<and> fsm_view f k = ZEmpty}" if "fsm_wf f" for f
    using fsm_wfD(3)[OF that] by (auto simp: fsm_view_def split: option.splits)
  have "fsm_empty_zones fsm' = fsm_empty_zones fsm" unfolding em[OF assms(1)] em[OF assms(2)] l using assms(4) by simp
  then show ?thesis using l assms(3) by (simp add: fsm_find_empty_def)
qed

lemma cluster_write_spec:
  assumes inv: "cluster_inv zl lz c live" and buf: "0 < length buf" "blocks_of buf < u32_max"
  shows "\<exists>r c' ops. cluster_write zl c buf txg = Some (r, c', ops) \<and> keeps_sync (cl_fsm c) (cl_fsm c') \<and>
    (if no_room zl (cl_fsm c) (blocks_of buf) then r = Inl ENOSPC \<and> cluster_inv zl lz c' live
     else \<exists>lba. r = Inr lba \<and> write_ok zl lz buf live lba c' ops)"
proof -
  note I = cluster_invD[OF inv]
  let ?n = "blocks_of buf"
  have n0: "0 < ?n" using buf(1) by (cases "length buf") (simp_all add: blocks_of_def)
  from fsm_try_allocate_spec[OF I(1) buf(2) n0] show ?thesis
  proof (elim disjE exE conjE)
    fix z oz zn full rest fsm'
    assume v: "fsm_view (cl_fsm c) z = ZOpen oz zn" and room: "?n \<le> oz_room (cl_fsm c) z"
      and ids: "fsm_open_zone_ids (cl_fsm c) = full @ z # rest"
      and ta: "fsm_try_allocate (cl_fsm c) ?n = Some (Some (z, oz_start oz + oz_allocated_blocks oz), full, fsm')"
      and sets: "fsm_sets (cl_fsm c) z (ZOpen (oz\<lparr>oz_allocated_blocks := oz_allocated_blocks oz + ?n\<rparr>) zn) fsm'"
    have full: "full = []" using open_ids_cases[OF I(1,2)] ids by (cases full) auto
    have z: "z < fsm_total_zones (cl_fsm c)" using fsm_nonempty_in_range[OF I(1)] v by simp
    have ok: "zstate_ok (ZOpen oz zn)" using view_zone_ok[OF I(1) v] .
    have pers: "zone_persistent (zl z) (ZOpen oz zn)" using I(4)[OF z] v by simp
    have tot: "z_total_blocks zn < u32_max" using pers I(3) z by (auto simp: zone_geometry_def)
    have le: "oz_allocated_blocks oz + ?n \<le> z_total_blocks zn" using room v ok by (auto simp: oz_room_def)
    let ?st = "ZOpen (oz\<lparr>oz_allocated_blocks := oz_allocated_blocks oz + ?n\<rparr>) zn"
    have lba: "oz_start oz + oz_allocated_blocks oz = zone_top (zl z) (fsm_view (cl_fsm c) z)" using v pers by simp
    have st: "one_open fsm'" "zone_persistent (zl z) ?st" "zstate_ok ?st"
      using one_open_sets_same[OF I(2) sets] v pers le tot ok by auto
    note A = cluster_inv_alloc[OF inv z sets st n0 lba]
    have inv': "cluster_inv zl lz (c\<lparr>cl_fsm := fsm'\<rparr>) (insert (oz_start oz + oz_allocated_blocks oz, ?n) live)"
      and dj: "\<And>e. e \<in> live \<Longrightarrow> extents_disjoint (oz_start oz + oz_allocated_blocks oz, ?n) e"
      using A(1,3) v pers ok le by auto
    have tz: "fsm_total_zones fsm' = fsm_total_zones (cl_fsm c)" using sets by (simp add: fsm_sets_def)
    have inz: "fst (zl z) \<le> oz_start oz + oz_allocated_blocks oz"
      "oz_start oz + oz_allocated_blocks oz + ?n \<le> snd (zl z)" using pers le I(5)[OF z] by (auto simp: limits_ok_def)
    have "\<not> no_room zl (cl_fsm c) ?n" using room by (auto simp: no_room_def not_less)
    then show ?thesis
      using inv' dj inz z tz keeps_sync_sets[OF I(1) sets]
      by (auto simp: cluster_write_def blocks_of_roundup[OF buf(2)] ta full write_ok_def intro!: exI[of _ z])
  next
    assume none: "\<forall>z. oz_room (cl_fsm c) z < ?n"
      and ta: "fsm_try_allocate (cl_fsm c) ?n = Some (None, fsm_open_zone_ids (cl_fsm c), cl_fsm c)"
    obtain f1 where f1: "close_zones (cl_fsm c) (fsm_open_zone_ids (cl_fsm c)) txg
          = Some (f1, map VFinishZone (fsm_open_zone_ids (cl_fsm c)))"
        "cluster_inv zl lz (c\<lparr>cl_fsm := f1\<rparr>) live" "\<forall>k oz zn. fsm_view f1 k \<noteq> ZOpen oz zn"
        "fsm_total_zones f1 = fsm_total_zones (cl_fsm c)"
        "\<forall>k. fsm_view f1 k = ZEmpty \<longleftrightarrow> fsm_view (cl_fsm c) k = ZEmpty" "keeps_sync (cl_fsm c) f1"
      using close_zones_all[OF inv] by blast
    have wf1: "fsm_wf f1" using cluster_invD(1)[OF f1(2)] by simp
    have fe: "fsm_find_empty f1 = fsm_find_empty (cl_fsm c)"
      by (rule fsm_find_empty_same[OF I(1) wf1 f1(4,5)])
    show ?thesis
    proof (cases "fsm_find_empty f1")
      case None
      then show ?thesis
        using f1 fe none by (auto simp: cluster_write_def blocks_of_roundup[OF buf(2)] ta no_room_def)
    next
      case (Some z)
      have z: "z < fsm_total_zones f1" "fsm_view f1 z = ZEmpty" using find_empty_spec[OF wf1] Some by auto
      have oa: "\<exists>fsm'. if snd (zl z) - fst (zl z) < ?n
         then fsm_open_zone f1 z (fst (zl z)) (snd (zl z)) ?n txg = Some (Inl ENOSPC, fsm') \<and>
           cluster_inv zl lz (c\<lparr>cl_fsm := fsm'\<rparr>) live \<and> keeps_sync f1 fsm'
         else fsm_open_zone f1 z (fst (zl z)) (snd (zl z)) ?n txg = Some (Inr (Some (z, fst (zl z))), fsm') \<and>
           cluster_inv zl lz (c\<lparr>cl_fsm := fsm'\<rparr>) (insert (fst (zl z), ?n) live) \<and> keeps_sync f1 fsm' \<and>
           (\<forall>e \<in> live. extents_disjoint (fst (zl z), ?n) e)"
        using open_and_alloc[OF f1(2), of z ?n txg] f1(3) z n0 buf(2) by (auto split: if_splits)
      show ?thesis
      proof (cases "snd (zl z) - fst (zl z) < ?n")
        case True
        then have "no_room zl (cl_fsm c) ?n" using none Some fe by (auto simp: no_room_def)
        then show ?thesis
          using True oa f1(1) Some keeps_sync_trans[OF f1(6)]
          by (auto simp: cluster_write_def blocks_of_roundup[OF buf(2)] ta)
      next
        case False
        then obtain fsm' where f2: "fsm_open_zone f1 z (fst (zl z)) (snd (zl z)) ?n txg = Some (Inr (Some (z, fst (zl z))), fsm')"
           "cluster_inv zl lz (c\<lparr>cl_fsm := fsm'\<rparr>) (insert (fst (zl z), ?n) live)"
           "\<forall>e \<in> live. extents_disjoint (fst (zl z), ?n) e" "keeps_sync f1 fsm'" using oa by auto
        have fits: "fst (zl z) + ?n \<le> snd (zl z)" using False n0 by linarith
        have "\<exists>z' < fsm_total_zones fsm'. fst (zl z') \<le> fst (zl z) \<and> z' = z"
          using f2(1) z(1) by (auto simp: fsm_open_zone_def fsm_dirty_zone_def bind_eq_Some_conv Let_def split: if_splits)
        then have "write_ok zl lz buf live (fst (zl z)) (c\<lparr>cl_fsm := fsm'\<rparr>)
            (map VFinishZone (fsm_open_zone_ids (cl_fsm c)) @ [VOpenZone z] @ [VWriteAt buf z (fst (zl z))])"
          using f2 fits by (auto simp: write_ok_def intro!: exI[of _ z])
        moreover have "\<not> no_room zl (cl_fsm c) ?n" using False Some fe by (auto simp: no_room_def)
        ultimately show ?thesis
          using f1(1) Some f2(1) keeps_sync_trans[OF f1(6) f2(4)]
          by (auto simp: cluster_write_def blocks_of_roundup[OF buf(2)] ta)
      qed
    qed
  qed
qed

lemma fsm_in_use_view:
  assumes "fsm_wf fsm"
  shows "fsm_in_use fsm z = Some (zone_used (fsm_view fsm z))"
proof (cases "fsm_view fsm z")
  case ZEmpty
  then show ?thesis using assms by (simp add: fsm_in_use_def fsm_is_empty_view)
next
  case (ZOpen oz zn)
  then have "vec_get (fsm_zones fsm) z = Some zn" using fsm_get_zone(1) by blast
  then show ?thesis
    using assms ZOpen view_zone_ok[OF assms ZOpen]
    by (simp add: fsm_in_use_def fsm_is_empty_view fsm_open_get wsub_id)
next
  case (ZClosed zn)
  then have "vec_get (fsm_zones fsm) z = Some zn" using fsm_get_zone(1) by blast
  then show ?thesis
    using assms ZClosed view_zone_ok[OF assms ZClosed]
    by (simp add: fsm_in_use_def fsm_is_empty_view fsm_open_get wsub_id)
qed

lemma erase_unused:
  assumes inv: "cluster_inv zl lz c live" and v: "fsm_view (cl_fsm c) z = ZClosed zn"
    and u: "zone_used (ZClosed zn) = 0"
  shows "zone_extents zl live z = {}"
    "\<exists>c'. cluster_erase_zone c z = Some (c', [VEraseZone z]) \<and> cluster_inv zl lz c' live \<and>
       keeps_sync (cl_fsm c) (cl_fsm c')"
proof -
  note I = cluster_invD[OF inv]
  have z: "z < fsm_total_zones (cl_fsm c)" using fsm_nonempty_in_range[OF I(1)] v by simp
  have "(\<Sum>e \<in> zone_extents zl live z. snd e) = 0" using I(9)[OF z] v u by simp
  moreover have "finite (zone_extents zl live z)" using I(6) by (simp add: zone_extents_def)
  ultimately have "\<forall>e \<in> zone_extents zl live z. snd e = 0" by simp
  moreover have "0 < snd e" if "e \<in> zone_extents zl live z" for e
    using I(7)[of e] that by (auto simp: zone_extents_def extent_placed_def)
  ultimately show none: "zone_extents zl live z = {}" by fastforce
  obtain fsm' where f: "fsm_erase_zone (cl_fsm c) z = Some fsm'" "fsm_sets (cl_fsm c) z ZEmpty fsm'"
    using fsm_erase_zone_sets[OF I(1) v] by blast
  have "cluster_inv zl lz (c\<lparr>cl_fsm := fsm'\<rparr>) live"
    by (rule cluster_inv_change[OF inv z f(2)])
      (use none one_open_sets_same[OF I(2) f(2)] I in auto)
  then show "\<exists>c'. cluster_erase_zone c z = Some (c', [VEraseZone z]) \<and> cluster_inv zl lz c' live \<and>
       keeps_sync (cl_fsm c) (cl_fsm c')"
    using f(1) keeps_sync_sets[OF I(1) f(2)] by (simp add: cluster_erase_zone_def)
qed

lemma cluster_free_spec:
  assumes inv: "cluster_inv zl lz c live" and e: "(lba, len) \<in> live"
  shows "\<exists>c' ops. cluster_free lz c lba len = Some (c', ops) \<and> keeps_sync (cl_fsm c) (cl_fsm c') \<and> cluster_inv zl lz c' (live - {(lba, len)}) \<and>
    (\<forall>z. VEraseZone z \<in> set ops \<longrightarrow> zone_extents zl (live - {(lba, len)}) z = {})"
proof -
  note I = cluster_invD[OF inv]
  obtain z where z: "z < fsm_total_zones (cl_fsm c)" "(lba, len) \<in> zone_extents zl live z"
      "lba + len \<le> zone_top (zl z) (fsm_view (cl_fsm c) z)" "0 < len"
    using placed_zone[OF inv e] by auto
  have lz: "lz lba = Some z"
    using I(3) z(1,2) by (auto simp: zone_geometry_def zone_extents_def)
  have "fsm_view (cl_fsm c) z \<noteq> ZEmpty" using z by (auto simp: zone_extents_def)
  then obtain zn where zn: "(\<exists>oz. fsm_view (cl_fsm c) z = ZOpen oz zn) \<or> fsm_view (cl_fsm c) z = ZClosed zn"
    by (cases "fsm_view (cl_fsm c) z") auto
  have "len \<le> (\<Sum>e \<in> zone_extents zl live z. snd e)"
    using member_le_sum[of "(lba, len)" "zone_extents zl live z" snd] z(2) I(6) by (simp add: zone_extents_def)
  then have used: "len \<le> zone_used (fsm_view (cl_fsm c) z)" using I(9)[OF z(1)] by simp
  let ?st = "case fsm_view (cl_fsm c) z of ZOpen oz _ \<Rightarrow> ZOpen oz (zn\<lparr>z_freed_blocks := z_freed_blocks zn + len\<rparr>)
       | _ \<Rightarrow> ZClosed (zn\<lparr>z_freed_blocks := z_freed_blocks zn + len\<rparr>)"
  obtain f1 where f1: "fsm_free (cl_fsm c) z len = Some f1" "fsm_sets (cl_fsm c) z ?st f1"
    using fsm_free_sets[OF I(1) z(1), of zn len] zn used z(4) by fastforce
  have pers: "zone_persistent (zl z) (fsm_view (cl_fsm c) z)" using I(4)[OF z(1)] .
  have one: "one_open f1" using one_open_sets_same[OF I(2) f1(2)] zn by auto
  have inv1: "cluster_inv zl lz (c\<lparr>cl_fsm := f1\<rparr>) (live - {(lba, len)})"
    using zn pers used z(4) one by (intro cluster_inv_free[OF inv z(1,2) f1(2)]) auto
  have wf1: "fsm_wf f1" and v1: "fsm_view f1 z = ?st" using f1(2) by (simp_all add: fsm_sets_def)
  have iu: "fsm_in_use f1 z = Some (zone_used ?st)" using fsm_in_use_view[OF wf1, of z] v1 by simp
  show ?thesis
  proof (cases "fsm_is_closed f1 z \<and> zone_used ?st = 0")
    case True
    then obtain zn1 where zn1: "fsm_view f1 z = ZClosed zn1" using fsm_is_closed_view[OF wf1] by blast
    then have "zone_used (ZClosed zn1) = 0" using True v1 by simp
    note er = erase_unused[OF inv1, of z zn1]
    obtain c' where "cluster_erase_zone (c\<lparr>cl_fsm := f1\<rparr>) z = Some (c', [VEraseZone z])"
        "cluster_inv zl lz c' (live - {(lba, len)})" "keeps_sync f1 (cl_fsm c')"
      using er(2) zn1 \<open>zone_used (ZClosed zn1) = 0\<close> by auto
    then show ?thesis
      using lz f1(1) iu True er(1) zn1 keeps_sync_trans[OF keeps_sync_sets[OF I(1) f1(2)]] \<open>zone_used (ZClosed zn1) = 0\<close> by (simp add: cluster_free_def)
  next
    case False
    then show ?thesis using lz f1(1) iu inv1 keeps_sync_sets[OF I(1) f1(2)] by (auto simp: cluster_free_def)
  qed
qed

section \<open>Flushing\<close>

definition gaps_ok :: "(ZoneT \<Rightarrow> LbaT) \<Rightarrow> FreeSpaceMap \<Rightarrow> bool" where
  "gaps_ok gap fsm \<longleftrightarrow> (\<forall>z oz zn. fsm_view fsm z = ZOpen oz zn \<longrightarrow> oz_allocated_blocks oz + gap z \<le> z_total_blocks zn)"

lemma waste_zones_spec:
  assumes inv: "cluster_inv zl lz c live" and gap: "gaps_ok gap (cl_fsm c)"
  shows "\<exists>fsm'. waste_zones gap (cl_fsm c) (fsm_open_zone_ids (cl_fsm c))
      = Some (fsm', map VFlushZone (fsm_open_zone_ids (cl_fsm c))) \<and> cluster_inv zl lz (c\<lparr>cl_fsm := fsm'\<rparr>) live \<and>
    (fsm' = cl_fsm c \<or> (\<exists>z st. fsm_sets (cl_fsm c) z st fsm'))"
  using open_ids_cases[OF cluster_invD(1,2)[OF inv]]
proof (elim disjE exE conjE)
  assume "fsm_open_zone_ids (cl_fsm c) = []"
  then show ?thesis using inv by simp
next
  note I = cluster_invD[OF inv]
  fix z oz zn assume z: "fsm_open_zone_ids (cl_fsm c) = [z]" "fsm_view (cl_fsm c) z = ZOpen oz zn"
  have le: "oz_allocated_blocks oz + gap z \<le> z_total_blocks zn" using gap z(2) by (simp add: gaps_ok_def)
  let ?st = "ZOpen (oz\<lparr>oz_allocated_blocks := oz_allocated_blocks oz + gap z\<rparr>)
       (zn\<lparr>z_freed_blocks := z_freed_blocks zn + gap z\<rparr>)"
  obtain f1 where f1: "fsm_waste_space (cl_fsm c) z (gap z) = Some f1" "fsm_sets (cl_fsm c) z ?st f1"
    using fsm_waste_space_sets[OF I(1) z(2) le] by blast
  have zr: "z < fsm_total_zones (cl_fsm c)" using fsm_nonempty_in_range[OF I(1)] z(2) by simp
  have pers: "zone_persistent (zl z) (ZOpen oz zn)" using I(4)[OF zr] z(2) by simp
  have tot: "z_total_blocks zn < u32_max" using pers I(3) zr by (auto simp: zone_geometry_def)
  have "cluster_inv zl lz (c\<lparr>cl_fsm := f1\<rparr>) live"
    using z(2) pers tot le one_open_sets_same[OF I(2) f1(2)]
    by (intro cluster_inv_same_live[OF inv zr f1(2)]) auto
  then show ?thesis using z(1) f1 by auto
qed

lemma clear_dirty_inv:
  assumes "cluster_inv zl lz c live"
  shows "cluster_inv zl lz (c\<lparr>cl_fsm := fsm_clear_dirty_zones (cl_fsm c)\<rparr>) live"
    "fsm_view (fsm_clear_dirty_zones (cl_fsm c)) = fsm_view (cl_fsm c)"
proof -
  show v: "fsm_view (fsm_clear_dirty_zones (cl_fsm c)) = fsm_view (cl_fsm c)"
    by (simp add: fsm_view_def fsm_clear_dirty_zones_def fun_eq_iff split: option.splits)
  have "fsm_wf (fsm_clear_dirty_zones (cl_fsm c))"
    using cluster_invD(1)[OF assms] unfolding fsm_wf_def v by (simp add: fsm_clear_dirty_zones_def)
  then show "cluster_inv zl lz (c\<lparr>cl_fsm := fsm_clear_dirty_zones (cl_fsm c)\<rparr>) live"
    using assms v unfolding cluster_inv_def one_open_def extent_placed_def
    by (simp add: fsm_clear_dirty_zones_def)
qed

lemma pad_block_ok: "\<exists>sg pad. pad_block db = Some sg \<and> concat sg = db @ pad"
proof (cases "length db mod BYTES_PER_LBA = 0")
  case False
  then show ?thesis
    by (auto simp: pad_block_def slice_to_def ZERO_REGION_def ZERO_REGION_LEN_def BYTES_PER_LBA_def Let_def)
qed (simp add: pad_block_def)

lemma write_spacemaps_apply:
  "distinct (map fst bs) \<Longrightarrow> \<exists>ops. write_spacemaps idx bs = Some ops \<and>
    (\<forall>a i. \<exists>pad. fold (apply_op idx) ops a i = (case map_of bs i of Some db \<Rightarrow> db @ pad | None \<Rightarrow> a i))"
proof (induction bs)
  case (Cons x bs)
  obtain b db where x: "x = (b, db)" by force
  obtain sg pad where p: "pad_block db = Some sg" "concat sg = db @ pad" using pad_block_ok by blast
  obtain ops where ih: "write_spacemaps idx bs = Some ops"
      "\<forall>a i. \<exists>pad. fold (apply_op idx) ops a i = (case map_of bs i of Some db \<Rightarrow> db @ pad | None \<Rightarrow> a i)"
    using Cons by auto
  have nb: "map_of bs b = None" using Cons.prems x by (simp add: map_of_eq_None_iff)
  have "\<exists>pad. fold (apply_op idx) (VWriteSpacemap sg idx b # ops) a i
      = (case map_of (x # bs) i of Some db \<Rightarrow> db @ pad | None \<Rightarrow> a i)" for a i
    using ih(2)[rule_format, of "a(b := concat sg)" i] nb p(2) x by (cases "i = b") (auto split: option.splits)
  then show ?case using x p(1) ih(1) by auto
qed simp

lemma fsm_serialize_map:
  assumes "fsm_wf fsm"
  shows "distinct (map fst (fsm_serialize zhash enc fsm))"
    "map_of (fsm_serialize zhash enc fsm) i
      = (if i \<in> fsm_dirty fsm then Some (enc (sod_new zhash i (fsm_block fsm i))) else None)"
proof -
  have fin: "finite (fsm_dirty fsm)" using fsm_wfD(7)[OF assms] finite_subset by blast
  have lt: "k < 2 ^ 32" if "k \<in> fsm_dirty fsm" for k
    using that fsm_wfD(2,7,8)[OF assms] by (auto dest!: subsetD)
  let ?xs = "sorted_list_of_set (fsm_dirty fsm)"
  have "map (\<lambda>i. (u32 i, enc (sod_new zhash (u32 i) (fsm_block fsm i)))) ?xs
      = map (\<lambda>i. (i, enc (sod_new zhash i (fsm_block fsm i)))) ?xs"
    using fin lt by (intro map_cong) (auto simp: wrapu_id)
  then have e: "fsm_serialize zhash enc fsm = map (\<lambda>i. (i, enc (sod_new zhash i (fsm_block fsm i)))) ?xs"
    by (simp add: fsm_serialize_def)
  have "map fst (fsm_serialize zhash enc fsm) = ?xs" unfolding e by (simp add: comp_def)
  then show "distinct (map fst (fsm_serialize zhash enc fsm))" by simp
  show "map_of (fsm_serialize zhash enc fsm) i
      = (if i \<in> fsm_dirty fsm then Some (enc (sod_new zhash i (fsm_block fsm i))) else None)"
    unfolding e map_of_map_restrict using fin by (simp add: restrict_map_def)
qed

lemma apply_flush_ops: "fold (apply_op idx) (map VFlushZone zs) a = a"
  by (induction zs) simp_all

lemma cluster_flush_spec:
  assumes inv: "cluster_inv zl lz c live" and gap: "gaps_ok gap (cl_fsm c)"
    and sy: "synced zhash enc (cl_fsm c) a"
  shows "\<exists>c' ops. cluster_flush zhash enc gap c idx = Some (c', ops) \<and> cluster_inv zl lz c' live \<and>
    fsm_dirty (cl_fsm c') = {} \<and> synced zhash enc (cl_fsm c') (fold (apply_op idx) ops a)"
proof -
  obtain f1 where f1: "waste_zones gap (cl_fsm c) (fsm_open_zone_ids (cl_fsm c))
        = Some (f1, map VFlushZone (fsm_open_zone_ids (cl_fsm c)))" "cluster_inv zl lz (c\<lparr>cl_fsm := f1\<rparr>) live"
      "f1 = cl_fsm c \<or> (\<exists>z st. fsm_sets (cl_fsm c) z st f1)"
    using waste_zones_spec[OF inv gap] by blast
  have sy1: "synced zhash enc f1 a" using f1(3) sy synced_sets[OF cluster_invD(1)[OF inv]] by blast
  have wf1: "fsm_wf f1" using cluster_invD(1)[OF f1(2)] by simp
  obtain ops where ops: "write_spacemaps idx (fsm_serialize zhash enc f1) = Some ops"
      "\<forall>a i. \<exists>pad. fold (apply_op idx) ops a i
         = (case map_of (fsm_serialize zhash enc f1) i of Some db \<Rightarrow> db @ pad | None \<Rightarrow> a i)"
    using write_spacemaps_apply[OF fsm_serialize_map(1)[OF wf1]] by blast
  note cd = clear_dirty_inv[OF f1(2)]
  let ?f = "fsm_clear_dirty_zones f1"
  have wf2: "fsm_wf ?f" using cluster_invD(1)[OF cd(1)] by simp
  have cap: "fsm_dirty_cap ?f = fsm_dirty_cap f1" "fsm_total_zones ?f = fsm_total_zones f1" "fsm_dirty ?f = {}"
    by (simp_all add: fsm_clear_dirty_zones_def)
  have bl: "fsm_block ?f i = fsm_block f1 i" if "i < fsm_dirty_cap f1" for i
    using fsm_block_eq[OF wf2, of i] fsm_block_eq[OF wf1, of i] that cap cd(2) by simp
  have "synced zhash enc ?f (fold (apply_op idx) ops a)"
    unfolding synced_def
  proof (intro allI impI)
    fix i assume i: "i < fsm_dirty_cap ?f"
    obtain pad where pad: "fold (apply_op idx) ops a i
         = (case map_of (fsm_serialize zhash enc f1) i of Some db \<Rightarrow> db @ pad | None \<Rightarrow> a i)"
      using ops(2) by blast
    show "\<exists>pad. fold (apply_op idx) ops a i = enc (sod_new zhash i (fsm_block ?f i)) @ pad"
    proof (cases "i \<in> fsm_dirty f1")
      case True
      then show ?thesis using pad fsm_serialize_map(2)[OF wf1] bl i cap by auto
    next
      case False
      then show ?thesis using pad fsm_serialize_map(2)[OF wf1] bl i cap sy1 by (auto simp: synced_def)
    qed
  qed
  then show ?thesis
    using f1(1) ops(1) cd(1) cap
    by (simp add: cluster_flush_def apply_flush_ops del: fold_append) (simp add: apply_flush_ops)
qed

section \<open>Runs of a cluster\<close>

text \<open>
  The states that a cluster can reach from its creation by writes, frees of live extents and flushes
  to one spacemap area, with the live extents and the contents of that area.
\<close>

inductive cluster_run ::
    "(ZoneT \<Rightarrow> LbaT \<times> LbaT) \<Rightarrow> (LbaT \<Rightarrow> ZoneT option) \<Rightarrow> (nat \<Rightarrow> ZoneOnDisk list \<Rightarrow> nat) \<Rightarrow> (SpacemapOnDisk \<Rightarrow> byte list) \<Rightarrow>
       nat \<Rightarrow> Cluster \<Rightarrow> extent set \<Rightarrow> area \<Rightarrow> bool"
  for zl lz zhash enc idx where
  run_create: "cluster_create n = Some c \<Longrightarrow> n < 2 ^ 32 \<Longrightarrow> zone_geometry zl lz n
    \<Longrightarrow> cluster_run zl lz zhash enc idx c {} a"
| run_write: "cluster_run zl lz zhash enc idx c live a \<Longrightarrow> 0 < length buf \<Longrightarrow> blocks_of buf < u32_max
    \<Longrightarrow> cluster_write zl c buf txg = Some (Inr lba, c', ops)
    \<Longrightarrow> cluster_run zl lz zhash enc idx c' (insert (lba, blocks_of buf) live) a"
| run_write_error: "cluster_run zl lz zhash enc idx c live a \<Longrightarrow> 0 < length buf \<Longrightarrow> blocks_of buf < u32_max
    \<Longrightarrow> cluster_write zl c buf txg = Some (Inl e, c', ops)
    \<Longrightarrow> cluster_run zl lz zhash enc idx c' live a"
| run_free: "cluster_run zl lz zhash enc idx c live a \<Longrightarrow> (lba, len) \<in> live
    \<Longrightarrow> cluster_free lz c lba len = Some (c', ops)
    \<Longrightarrow> cluster_run zl lz zhash enc idx c' (live - {(lba, len)}) a"
| run_flush: "cluster_run zl lz zhash enc idx c live a \<Longrightarrow> gaps_ok gap (cl_fsm c)
    \<Longrightarrow> cluster_flush zhash enc gap c idx = Some (c', ops)
    \<Longrightarrow> cluster_run zl lz zhash enc idx c' live (fold (apply_op idx) ops a)"

inductive_cases cluster_runE: "cluster_run zl lz zhash enc idx c live a"

lemma run_inv:
  "cluster_run zl lz zhash enc idx c live a \<Longrightarrow> cluster_inv zl lz c live \<and> synced zhash enc (cl_fsm c) a"
proof (induction rule: cluster_run.induct)
  case (run_create n c a)
  obtain fsm where f: "fsm_new n = Some fsm" "fsm_wf fsm" "fsm_view fsm = (\<lambda>_. ZEmpty)"
      "fsm_total_zones fsm = n" "fsm_dirty fsm = {0..<(n + 254) div 255}"
    using fsm_new_ok[OF run_create(2)] by blast
  then have c: "c = \<lparr>cl_fsm = fsm\<rparr>" using run_create(1) by (simp add: cluster_create_def cluster_new_def)
  have "synced zhash enc fsm a" using f fsm_wfD(8)[OF f(2)] by (auto simp: synced_def)
  then show ?case
    using c f run_create(3) by (simp add: cluster_inv_def one_open_def zone_extents_def)
next
  case (run_write c live a buf txg lba c' ops)
  then have inv: "cluster_inv zl lz c live" "synced zhash enc (cl_fsm c) a" by simp_all
  from cluster_write_spec[OF inv(1) run_write(2,3), of txg] run_write(4) inv(2) show ?case
    by (auto simp: keeps_sync_def write_ok_def split: if_splits)
next
  case (run_write_error c live a buf txg e c' ops)
  then have inv: "cluster_inv zl lz c live" "synced zhash enc (cl_fsm c) a" by simp_all
  from cluster_write_spec[OF inv(1) run_write_error(2,3), of txg] run_write_error(4) inv(2) show ?case
    by (auto simp: keeps_sync_def split: if_splits)
next
  case (run_free c live a lba len c' ops)
  then have inv: "cluster_inv zl lz c live" "synced zhash enc (cl_fsm c) a" by simp_all
  from cluster_free_spec[OF inv(1) run_free(2)] run_free(3) inv(2) show ?case
    by (auto simp: keeps_sync_def)
next
  case (run_flush c live a gap c' ops)
  then have inv: "cluster_inv zl lz c live" "synced zhash enc (cl_fsm c) a" by simp_all
  from cluster_flush_spec[OF inv(1) run_flush(2) inv(2), of idx] run_flush(3) show ?case by auto
qed

section \<open>Properties\<close>

text \<open>C7. The extents that clients of a cluster hold never overlap, each lies within one zone of the
  vdev, and the blocks in use of a zone are exactly those of the live extents in it: in every state
  that a cluster reaches by writes, frees and flushes, whatever the outcome of the writes.\<close>

theorem cluster_extents_safe:
  assumes "cluster_run zl lz zhash enc idx c live a"
  shows "(\<forall>e \<in> live. \<forall>e' \<in> live. e \<noteq> e' \<longrightarrow> extents_disjoint e e') \<and>
    (\<forall>e \<in> live. \<exists>z < fsm_total_zones (cl_fsm c). fst (zl z) \<le> fst e \<and> fst e + snd e \<le> snd (zl z)) \<and>
    (\<forall>z < fsm_total_zones (cl_fsm c). fsm_in_use (cl_fsm c) z = Some (\<Sum>e \<in> zone_extents zl live z. snd e))"
proof (intro conjI ballI allI impI)
  have inv: "cluster_inv zl lz c live" using run_inv[OF assms] by blast
  note I = cluster_invD[OF inv]
  show "extents_disjoint e e'" if "e \<in> live" "e' \<in> live" "e \<noteq> e'" for e e' using I(8) that by blast
  show "\<exists>z < fsm_total_zones (cl_fsm c). fst (zl z) \<le> fst e \<and> fst e + snd e \<le> snd (zl z)" if e: "e \<in> live" for e
  proof -
    obtain z where z: "z < fsm_total_zones (cl_fsm c)" "fst (zl z) \<le> fst e"
        "fst e + snd e \<le> zone_top (zl z) (fsm_view (cl_fsm c) z)"
      using I(7)[OF e] by (auto simp: extent_placed_def)
    then show ?thesis
      using zone_top_le(2)[OF I(5)[OF z(1)] I(4)[OF z(1)]] fsm_wfD(6)[OF I(1)] le_trans by blast
  qed
  show "fsm_in_use (cl_fsm c) z = Some (\<Sum>e \<in> zone_extents zl live z. snd e)" if "z < fsm_total_zones (cl_fsm c)" for z
    using fsm_in_use_view[OF I(1)] I(9)[OF that] by simp
qed

abbreviation ex_zl :: "ZoneT \<Rightarrow> LbaT \<times> LbaT" where "ex_zl \<equiv> \<lambda>z. (z * 100, z * 100 + 60)"

abbreviation ex_lz :: "LbaT \<Rightarrow> ZoneT option" where
  "ex_lz \<equiv> \<lambda>lba. if lba mod 100 < 60 then Some (lba div 100) else None"

abbreviation ex_hash :: "nat \<Rightarrow> ZoneOnDisk list \<Rightarrow> nat" where "ex_hash \<equiv> \<lambda>i v. i + length v"

lemma ex_geometry: "zone_geometry ex_zl ex_lz 4"
  unfolding zone_geometry_def limits_ok_def
proof (intro allI impI conjI; (elim less_SucE)?)
  fix z lba :: nat assume "z < 4" "fst (z * 100, z * 100 + 60) \<le> lba" "lba < snd (z * 100, z * 100 + 60)"
  then obtain r where "lba = z * 100 + r" "r < 60" by (auto dest!: le_Suc_ex)
  then show "ex_lz lba = Some z" by simp
qed auto

definition ex_cluster :: "Cluster" where
  "ex_cluster = \<lparr>cl_fsm = \<lparr>fsm_dirty = {0}, fsm_dirty_cap = 1, fsm_empty_zones = {},
     fsm_open_zones = [(0, \<lparr>oz_start = 0, oz_allocated_blocks = 1\<rparr>)], fsm_total_zones = 4,
     fsm_zones = [\<lparr>z_freed_blocks = 0, z_total_blocks = 60, z_txgs = \<lparr>txg_start = 5, txg_end = u32_max\<rparr>\<rparr>]\<rparr>\<rparr>"

lemma ex_run: "cluster_run ex_zl ex_lz ex_hash example_enc 0 ex_cluster {(0, 1)} (\<lambda>_. [])"
proof -
  define c0 where "c0 = \<lparr>cl_fsm = \<lparr>fsm_dirty = {0}, fsm_dirty_cap = 1, fsm_empty_zones = {}, fsm_open_zones = [],
     fsm_total_zones = 4, fsm_zones = []\<rparr>\<rparr>"
  have "cluster_create 4 = Some c0"
    by (simp add: cluster_create_def cluster_new_def fsm_new_def spacemap_space_def SPACEMAP_ZONES_PER_LBA_def
        div_roundup_eq c0_def)
  then have r: "cluster_run ex_zl ex_lz ex_hash example_enc 0 c0 {} (\<lambda>_. [])"
    by (rule run_create) (use ex_geometry in auto)
  have w: "cluster_write ex_zl c0 [1] 5 = Some (Inr 0, ex_cluster, [VOpenZone 0, VWriteAt [1] 0 0])"
    by (simp add: cluster_write_def c0_def ex_cluster_def div_roundup_eq BYTES_PER_LBA_def fsm_try_allocate_def
        fsm_find_empty_def fsm_open_zone_def fsm_dirty_zone_def SPACEMAP_ZONES_PER_LBA_def fsm_is_empty_def
        wrapu_def wsub_id)
  have "cluster_run ex_zl ex_lz ex_hash example_enc 0 ex_cluster (insert (0, blocks_of [1]) {}) (\<lambda>_. [])"
    by (rule run_write[OF r _ _ w]) (simp_all add: blocks_of_def)
  then show ?thesis by (simp add: blocks_of_def)
qed

theorem cluster_extents_safe_witness:
  "fsm_in_use (cl_fsm ex_cluster) 0 = Some (\<Sum>e \<in> zone_extents ex_zl {(0, 1)} 0. snd e)"
  using cluster_extents_safe[OF ex_run] by (simp add: ex_cluster_def)

text \<open>C13. Writing. In every reachable state the write of a non-empty buffer (of fewer than \<open>2^32 - 1\<close>
  blocks) neither panics nor loses space: it fails with \<open>ENOSPC\<close> exactly when no open zone and not
  the first empty zone has room, and otherwise issues the write of the whole buffer to a fresh extent,
  inside one zone and disjoint from every live extent.\<close>

theorem cluster_write_outcome:
  assumes "cluster_run zl lz zhash enc idx c live a" "0 < length buf" "blocks_of buf < u32_max"
  shows "\<exists>r c' ops. cluster_write zl c buf txg = Some (r, c', ops) \<and>
    (if no_room zl (cl_fsm c) (blocks_of buf) then r = Inl ENOSPC \<and> cluster_inv zl lz c' live
     else \<exists>lba. r = Inr lba \<and> write_ok zl lz buf live lba c' ops)"
  using cluster_write_spec[OF _ assms(2,3)] run_inv[OF assms(1)] by blast

theorem cluster_write_outcome_witness:
  "\<exists>r c' ops. cluster_write ex_zl ex_cluster [7] 6 = Some (r, c', ops) \<and>
    (if no_room ex_zl (cl_fsm ex_cluster) (blocks_of [7]) then r = Inl ENOSPC \<and> cluster_inv ex_zl ex_lz c' {(0, 1)}
     else \<exists>lba. r = Inr lba \<and> write_ok ex_zl ex_lz [7] {(0, 1)} lba c' ops)"
  using cluster_write_outcome[OF ex_run, of "[7]" 6] by (simp add: blocks_of_def)

text \<open>C14. Freeing. Freeing a live extent never panics (no false double-free report), keeps the invariant
  for the remaining extents, and erases a zone only if no live extent is left in it.\<close>

theorem cluster_free_safe:
  assumes "cluster_run zl lz zhash enc idx c live a" "(lba, len) \<in> live"
  shows "\<exists>c' ops. cluster_free lz c lba len = Some (c', ops) \<and> cluster_inv zl lz c' (live - {(lba, len)}) \<and>
    (\<forall>z. VEraseZone z \<in> set ops \<longrightarrow> zone_extents zl (live - {(lba, len)}) z = {})"
  using cluster_free_spec[OF _ assms(2)] run_inv[OF assms(1)] by blast

theorem cluster_free_safe_witness:
  "\<exists>c' ops. cluster_free ex_lz ex_cluster 0 1 = Some (c', ops) \<and> cluster_inv ex_zl ex_lz c' ({(0, 1)} - {(0, 1)}) \<and>
    (\<forall>z. VEraseZone z \<in> set ops \<longrightarrow> zone_extents ex_zl ({(0, 1)} - {(0, 1)}) z = {})"
  by (rule cluster_free_safe[OF ex_run]) simp

text \<open>C15. Reopening after a flush. In every state of a run whose map has just been flushed (nothing is
  dirty), opening the cluster from the spacemap area restores the state of every zone, although each
  flush wrote the dirty blocks only; so marking blocks dirty never misses a change.\<close>

theorem cluster_reopen:
  assumes "cluster_run zl lz zhash enc idx c live a" "fsm_dirty (cl_fsm c) = {}"
    and "\<forall>sod pad. dec (enc sod @ pad) = Some sod"
  shows "\<exists>c' reopened. cluster_open zhash dec zl (map a [0..<fsm_dirty_cap (cl_fsm c)]) (fsm_total_zones (cl_fsm c))
      = Some (Inr (c', reopened)) \<and> fsm_view (cl_fsm c') = fsm_view (cl_fsm c)"
proof -
  have inv: "cluster_inv zl lz c live" and sy: "synced zhash enc (cl_fsm c) a" using run_inv[OF assms(1)] by blast+
  note I = cluster_invD[OF inv]
  have "\<forall>i < fsm_dirty_cap (cl_fsm c). \<exists>pad. a i = enc (sod_new zhash i (fsm_block (cl_fsm c) i)) @ pad"
    using sy assms(2) by (simp add: synced_def)
  then obtain pad where pad: "\<And>i. i < fsm_dirty_cap (cl_fsm c)
      \<Longrightarrow> a i = enc (sod_new zhash i (fsm_block (cl_fsm c) i)) @ pad i" by metis
  have m: "map a [0..<fsm_dirty_cap (cl_fsm c)]
      = map (\<lambda>i. enc (sod_new zhash i (fsm_block (cl_fsm c) i)) @ pad i) [0..<fsm_dirty_cap (cl_fsm c)]"
    using pad by (intro map_cong) auto
  have "\<exists>fsm'. fsm_deserialize zhash dec zl
       (map (\<lambda>i. enc (sod_new zhash i (fsm_block (cl_fsm c) i)) @ pad i) [0..<fsm_dirty_cap (cl_fsm c)])
       (fsm_total_zones (cl_fsm c))
     = Some (Inr (fsm', reopens (cl_fsm c) [0..<fsm_total_zones (cl_fsm c)])) \<and> fsm_view fsm' = fsm_view (cl_fsm c)"
    using fsm_deserialize_blocks[OF I(1,2) _ assms(3)] I(4,5) by blast
  then show ?thesis unfolding m by (auto simp: cluster_open_def cluster_new_def)
qed

theorem cluster_reopen_witness:
  "\<exists>(c :: Cluster) a c' reopened. fsm_dirty (cl_fsm c) = {} \<and> fsm_view (cl_fsm c) \<noteq> (\<lambda>_. ZEmpty) \<and>
     cluster_open ex_hash example_dec ex_zl (map a [0..<fsm_dirty_cap (cl_fsm c)]) (fsm_total_zones (cl_fsm c))
      = Some (Inr (c', reopened)) \<and> fsm_view (cl_fsm c') = fsm_view (cl_fsm c)"
proof -
  have inv: "cluster_inv ex_zl ex_lz ex_cluster {(0, 1)}" "synced ex_hash example_enc (cl_fsm ex_cluster) (\<lambda>_. [])"
    using run_inv[OF ex_run] by blast+
  have g: "gaps_ok (\<lambda>_. 0) (cl_fsm ex_cluster)"
    using fsm_wfD(6)[OF cluster_invD(1)[OF inv(1)]] unfolding gaps_ok_def by (metis add_0_right zstate_ok.simps(2))
  obtain c' ops where f: "cluster_flush ex_hash example_enc (\<lambda>_. 0) ex_cluster 0 = Some (c', ops)"
      "fsm_dirty (cl_fsm c') = {}" "cluster_inv ex_zl ex_lz c' {(0, 1)}"
    using cluster_flush_spec[OF inv(1) g inv(2), of 0] by blast
  have r: "cluster_run ex_zl ex_lz ex_hash example_enc 0 c' {(0, 1)} (fold (apply_op 0) ops (\<lambda>_. []))"
    by (rule run_flush[OF ex_run g f(1)])
  have "fsm_view (cl_fsm c') \<noteq> (\<lambda>_. ZEmpty)"
    using cluster_invD(7)[OF f(3), of "(0, 1)"] by (auto simp: extent_placed_def)
  moreover have "\<exists>c1 reopened. cluster_open ex_hash example_dec ex_zl
      (map (fold (apply_op 0) ops (\<lambda>_. [])) [0..<fsm_dirty_cap (cl_fsm c')]) (fsm_total_zones (cl_fsm c'))
      = Some (Inr (c1, reopened)) \<and> fsm_view (cl_fsm c1) = fsm_view (cl_fsm c')"
    by (rule cluster_reopen[OF r f(2)]) (simp add: example_dec_enc)
  ultimately show ?thesis
    using f(2) by blast
qed



end
