(* ===== verification/Zoned_Vdev.thy ===== *)
theory Zoned_Vdev
  imports Cluster_Correct
begin

text \<open>
  The interface \<open>Vdev\<close> of \<open>vdev.rs\<close> as the cluster uses it: \<open>zones\<close>, \<open>zone_limits\<close> and \<open>lba2zone\<close>, with
  the first LBA that is not reserved for labels and spacemaps. What a cluster promises on top of any
  vdev that keeps the contract is proved here once.
\<close>

locale zoned_vdev =
  fixes wf :: "'v \<Rightarrow> bool"
    and zl :: "'v \<Rightarrow> ZoneT \<Rightarrow> LbaT \<times> LbaT"
    and lz :: "'v \<Rightarrow> LbaT \<Rightarrow> ZoneT option"
    and nz :: "'v \<Rightarrow> ZoneT"
    and reserved :: "'v \<Rightarrow> LbaT"
  assumes geometry: "wf v \<Longrightarrow> zone_geometry (zl v) (lz v) (nz v)"
    and zones_u32: "wf v \<Longrightarrow> nz v < 2 ^ 32"
    and above_reserved: "wf v \<Longrightarrow> z < nz v \<Longrightarrow> reserved v \<le> fst (zl v z)"
begin

lemma zones_disjoint:
  assumes "wf v" "z < nz v" "k < nz v" "z \<noteq> k"
  shows "{fst (zl v z)..<snd (zl v z)} \<inter> {fst (zl v k)..<snd (zl v k)} = {}"
  using geometry_zone_unique[OF geometry[OF assms(1)] assms(2,3)] assms(4) by fastforce

lemma create_runs:
  assumes "wf v"
  shows "\<exists>c. cluster_create (nz v) = Some c \<and> cluster_run (zl v) (lz v) zhash enc idx c {} a \<and>
    fsm_total_zones (cl_fsm c) = nz v"
proof -
  obtain fsm where f: "fsm_new (nz v) = Some fsm" "fsm_total_zones fsm = nz v"
    using fsm_new_ok[OF zones_u32[OF assms]] by blast
  then have c: "cluster_create (nz v) = Some \<lparr>cl_fsm = fsm\<rparr>" by (simp add: cluster_create_def cluster_new_def)
  show ?thesis using run_create[OF c zones_u32[OF assms] geometry[OF assms]] c f by auto
qed

lemma extents_above_reserved:
  assumes "wf v" "cluster_run (zl v) (lz v) zhash enc idx c live a" "fsm_total_zones (cl_fsm c) = nz v"
    and e: "e \<in> live"
  shows "\<exists>z < nz v. reserved v \<le> fst e \<and> fst (zl v z) \<le> fst e \<and> fst e + snd e \<le> snd (zl v z)"
proof -
  have inv: "cluster_inv (zl v) (lz v) c live" using run_inv[OF assms(2)] by blast
  note I = cluster_invD[OF inv]
  obtain z where z: "z < nz v" "fst (zl v z) \<le> fst e"
      "fst e + snd e \<le> zone_top (zl v z) (fsm_view (cl_fsm c) z)"
    using I(7)[OF e] assms(3) by (auto simp: extent_placed_def)
  moreover have "zone_top (zl v z) (fsm_view (cl_fsm c) z) \<le> snd (zl v z)"
    using zone_top_le(2)[OF I(5) I(4)] z(1) assms(3) fsm_wfD(6)[OF I(1)] by simp
  ultimately show ?thesis using above_reserved[OF assms(1) z(1)] by (intro exI[of _ z]) simp
qed

end

end
