(* ===== verification/Vdev_File_Correct.thy ===== *)
theory Vdev_File_Correct
  imports Vdev_File Vdev_Block Zoned_Vdev
begin

text \<open>
  The file vdev keeps the contract of a zoned vdev: its zones are disjoint, lie above the labels and the
  spacemaps and are found again by \<open>lba2zone\<close>. Its labels are read back when it is opened, also when
  the first one is damaged.
\<close>

section \<open>Geometry\<close>

definition vf_ok :: "VdevFile \<Rightarrow> bool" where
  "vf_ok vf \<longleftrightarrow> LABEL_COUNT * (LABEL_LBAS + vf_spacemap_space vf) < vf_lbas_per_zone vf \<and>
     vf_lbas_per_zone vf < u32_max \<and> vf_size vf + vf_lbas_per_zone vf < 2 ^ 64 \<and>
     (vf_size vf + vf_lbas_per_zone vf - 1) div vf_lbas_per_zone vf < 2 ^ 32"

definition vf_nz :: "VdevFile \<Rightarrow> ZoneT" where
  "vf_nz vf = (case vf_zones vf of None \<Rightarrow> 0 | Some n \<Rightarrow> n)"

text \<open>\<open>lba2zone\<close>, with the panic of a division by zero as no zone: both make the cluster panic.\<close>

definition vf_zone_of :: "VdevFile \<Rightarrow> LbaT \<Rightarrow> ZoneT option" where
  "vf_zone_of vf lba = Option.bind (vf_lba2zone vf lba) (\<lambda>z. z)"

lemma zone_start_ge: "r < l \<Longrightarrow> 0 < z \<Longrightarrow> r \<le> z * (l :: nat)"
  by (cases z) auto

lemma vf_reserved_eq: "vf_ok vf \<Longrightarrow> vf_reserved_space vf = 2 * (4 + vf_spacemap_space vf)"
  by (simp add: vf_ok_def vf_reserved_space_def LABEL_COUNT_def LABEL_LBAS_def wrapu_id)

lemma vf_nz_eq:
  assumes "vf_ok vf"
  shows "vf_zones vf = Some (vf_nz vf)" "vf_nz vf = (vf_size vf + vf_lbas_per_zone vf - 1) div vf_lbas_per_zone vf"
proof -
  have "0 < vf_lbas_per_zone vf" using assms by (auto simp: vf_ok_def)
  then have "vf_zones vf = Some ((vf_size vf + vf_lbas_per_zone vf - 1) div vf_lbas_per_zone vf)"
    using assms by (simp add: vf_zones_def div_roundup_eq wrapu_id vf_ok_def)
  then show "vf_zones vf = Some (vf_nz vf)" "vf_nz vf = (vf_size vf + vf_lbas_per_zone vf - 1) div vf_lbas_per_zone vf"
    by (simp_all add: vf_nz_def)
qed

lemma vf_nz_bounds:
  assumes "vf_ok vf"
  shows "vf_nz vf < 2 ^ 32" "vf_nz vf * vf_lbas_per_zone vf < 2 ^ 64"
    "vf_nz vf * vf_lbas_per_zone vf < vf_size vf + vf_lbas_per_zone vf" "vf_size vf \<le> vf_nz vf * vf_lbas_per_zone vf"
proof -
  have "0 < vf_lbas_per_zone vf" using assms by (auto simp: vf_ok_def)
  then show "vf_nz vf * vf_lbas_per_zone vf < vf_size vf + vf_lbas_per_zone vf"
    "vf_size vf \<le> vf_nz vf * vf_lbas_per_zone vf"
    using ceil_div_bounds[of "vf_lbas_per_zone vf" "vf_size vf"] vf_nz_eq(2)[OF assms] by auto
  moreover have "vf_size vf + vf_lbas_per_zone vf < 2 ^ 64" using assms by (simp add: vf_ok_def)
  ultimately show "vf_nz vf * vf_lbas_per_zone vf < 2 ^ 64" by linarith
  show "vf_nz vf < 2 ^ 32" using assms vf_nz_eq(2)[OF assms] by (simp add: vf_ok_def)
qed

lemma vf_zone_limits_eq:
  assumes "vf_ok vf" "z < vf_nz vf"
  shows "vf_zone_limits vf z = (if z = 0 then vf_reserved_space vf else z * vf_lbas_per_zone vf, (z + 1) * vf_lbas_per_zone vf)"
proof -
  let ?L = "vf_lbas_per_zone vf"
  have "(z + 1) * ?L \<le> vf_nz vf * ?L" using assms(2) by (intro mult_right_mono) auto
  then have b: "(z + 1) * ?L < 2 ^ 64" using vf_nz_bounds(2)[OF assms(1)] by linarith
  moreover have "z * ?L \<le> (z + 1) * ?L" by simp
  ultimately have b': "z * ?L < 2 ^ 64" by linarith
  have "z + 1 < 2 ^ 32" using assms(2) vf_nz_bounds(1)[OF assms(1)] by linarith
  then show ?thesis using wrapu_id[OF b] wrapu_id[OF b'] by (simp add: vf_zone_limits_def wrapu_id)
qed

lemma vf_geometry:
  assumes ok: "vf_ok vf"
  shows "zone_geometry (vf_zone_limits vf) (vf_zone_of vf) (vf_nz vf)"
  unfolding zone_geometry_def
proof (intro allI impI)
  fix z assume z: "z < vf_nz vf"
  let ?L = "vf_lbas_per_zone vf"
  note l = vf_zone_limits_eq[OF ok z]
  have L: "0 < ?L" "?L < u32_max" "vf_reserved_space vf < ?L"
    using ok vf_reserved_eq[OF ok] by (auto simp: vf_ok_def LABEL_COUNT_def LABEL_LBAS_def)
  have "(z + 1) * ?L \<le> vf_nz vf * ?L" using z by (intro mult_right_mono) auto
  then have top: "(z + 1) * ?L < 2 ^ 64" using vf_nz_bounds(2)[OF ok] by linarith
  have lz: "vf_zone_of vf lba = Some z" if "fst (vf_zone_limits vf z) \<le> lba" "lba < snd (vf_zone_limits vf z)" for lba
  proof -
    have "z * ?L \<le> lba" "lba < (z + 1) * ?L" using that l by (auto split: if_splits)
    then have "lba div ?L = z" by (simp add: div_nat_eqI mult.commute)
    moreover have "vf_reserved_space vf \<le> lba"
      using that l zone_start_ge[OF L(3), of z] by (auto split: if_splits)
    moreover have "z < 2 ^ 32" using z vf_nz_bounds(1)[OF ok] by linarith
    ultimately show ?thesis using L(1) by (simp add: vf_zone_of_def vf_lba2zone_def wrapu_id)
  qed
  have "limits_ok (vf_zone_limits vf z) \<and> snd (vf_zone_limits vf z) - fst (vf_zone_limits vf z) < u32_max"
    using l L top by (auto simp: limits_ok_def)
  then show "limits_ok (vf_zone_limits vf z) \<and> snd (vf_zone_limits vf z) - fst (vf_zone_limits vf z) < u32_max \<and>
      (\<forall>lba. fst (vf_zone_limits vf z) \<le> lba \<longrightarrow> lba < snd (vf_zone_limits vf z) \<longrightarrow> vf_zone_of vf lba = Some z)"
    using lz by blast
qed

interpretation file_vdev: zoned_vdev vf_ok vf_zone_limits vf_zone_of vf_nz vf_reserved_space
proof unfold_locales
  fix v z assume "vf_ok v" "z < vf_nz v"
  then show "vf_reserved_space v \<le> fst (vf_zone_limits v z)"
    using zone_start_ge[of "vf_reserved_space v" "vf_lbas_per_zone v" z] vf_reserved_eq[of v]
    by (simp add: vf_zone_limits_eq) (simp add: vf_ok_def LABEL_COUNT_def LABEL_LBAS_def)
qed (use vf_geometry vf_nz_bounds in auto)

section \<open>The reserved area\<close>

lemma off_of_eq: "lba < 2 ^ 52 \<Longrightarrow> off_of lba = lba * 4096"
  by (simp add: off_of_def BYTES_PER_LBA_def wrapu_id)

lemma vf_write_label_area:
  assumes "streaming hw" "lw_label lw < LABEL_COUNT"
    and "sglist_len (lw_buffers lw @ [enc (vf_label vf)]) < LABEL_SIZE - 32"
  shows "\<exists>sg. vf_write_label h0 hw hw64 hf enc vf lw = Some (FWritev (lw_label lw * LABEL_SIZE) sg) \<and>
    sglist_len sg = LABEL_SIZE"
proof -
  let ?lw = "label_serialize enc lw (vf_label vf)"
  have "sglist_len (lw_buffers ?lw) < LABEL_SIZE - 32" using assms(3) by (simp add: label_serialize_def)
  then obtain sg where sg: "label_into_sglist h0 hw hw64 hf ?lw = Some sg" "sglist_len sg = LABEL_SIZE"
    using label_into_sglist_bytes[OF assms(1), of ?lw h0 hw64 hf] sglist_len_concat by metis
  have "off_of (label_writer_lba ?lw) = lw_label lw * LABEL_SIZE"
    using assms(2) by (simp add: label_serialize_def label_writer_lba_def label_consts wrapu_id off_of_eq)
  then show ?thesis using sg by (simp add: vf_write_label_def vf_writev_at_def)
qed

lemma vf_write_spacemap_area:
  assumes ok: "vf_ok vf" and "block < vf_spacemap_space vf" "sglist_len sg = BYTES_PER_LBA" "idx < LABEL_COUNT"
  shows "\<exists>off. vf_write_spacemap vf sg idx block = Some (FWritev off sg) \<and> LABEL_COUNT * LABEL_SIZE \<le> off \<and>
    off + sglist_len sg \<le> vf_reserved_space vf * BYTES_PER_LBA"
proof -
  let ?s = "vf_spacemap_space vf"
  have s: "2 * (4 + ?s) < u32_max" using ok by (auto simp: vf_ok_def LABEL_COUNT_def LABEL_LBAS_def)
  have idx: "idx = 0 \<or> idx = 1" using assms(4) by (auto simp: LABEL_COUNT_def)
  then have b: "idx * ?s + block + 8 < u32_max" using s assms(2) by (elim disjE) simp_all
  then have w: "u64 (u64 (block + u64 (idx * ?s)) + 8) = block + idx * ?s + 8" "off_of (block + idx * ?s + 8) = (block + idx * ?s + 8) * 4096"
    "u64 (block + idx * ?s + 8 + 1) = block + idx * ?s + 9"
    by (simp_all add: wrapu_id off_of_eq)
  have le: "block + idx * ?s + 9 \<le> 2 * (4 + ?s)" using idx assms(2) by auto
  then have "vf_write_spacemap vf sg idx block = Some (FWritev ((block + idx * ?s + 8) * 4096) sg)"
    using assms(3,4) w vf_reserved_eq[OF ok] by (simp add: vf_write_spacemap_def label_consts wrapu_id)
  then show ?thesis using le assms(3) vf_reserved_eq[OF ok] by (simp add: label_consts algebra_simps)
qed

section \<open>Properties\<close>


definition ex_vf :: VdevFile where
  "ex_vf = \<lparr>vf_spacemap_space = 1, vf_lbas_per_zone = 100, vf_size = 450, vf_uuid = 7, vf_candelete = False\<rparr>"

abbreviation ex_lenc :: "FileLabel \<Rightarrow> byte list" where
  "ex_lenc \<equiv> \<lambda>l. [fl_uuid l, fl_lbas_per_zone l, fl_lbas l, fl_spacemap_space l]"

abbreviation ex_ldec :: "byte list \<Rightarrow> (FileLabel \<times> nat) option" where
  "ex_ldec \<equiv> \<lambda>bs. Some (\<lparr>fl_uuid = bs ! 0, fl_lbas_per_zone = bs ! 1, fl_lbas = bs ! 2, fl_spacemap_space = bs ! 3\<rparr>, 4)"

lemma ex_vf_ok: "vf_ok ex_vf" "vf_nz ex_vf = 5"
proof -
  show ok: "vf_ok ex_vf" by (simp add: vf_ok_def ex_vf_def LABEL_COUNT_def LABEL_LBAS_def)
  show "vf_nz ex_vf = 5" using vf_nz_eq(2)[OF ok] by (simp add: ex_vf_def)
qed

lemma ex_vf_run:
  "\<exists>c :: Cluster. cluster_run (vf_zone_limits ex_vf) (vf_zone_of ex_vf) ex_hash example_enc 0 c {(10, 1)} (\<lambda>_. []) \<and>
     fsm_total_zones (cl_fsm c) = vf_nz ex_vf"
proof -
  obtain c0 where c0: "cluster_create (vf_nz ex_vf) = Some c0" "fsm_total_zones (cl_fsm c0) = vf_nz ex_vf"
      "cluster_run (vf_zone_limits ex_vf) (vf_zone_of ex_vf) ex_hash example_enc 0 c0 {} (\<lambda>_. [])"
    using file_vdev.create_runs[OF ex_vf_ok(1)] by blast
  then have c0': "c0 = \<lparr>cl_fsm = \<lparr>fsm_dirty = {0}, fsm_dirty_cap = 1, fsm_empty_zones = {}, fsm_open_zones = [],
     fsm_total_zones = 5, fsm_zones = []\<rparr>\<rparr>"
    by (simp add: cluster_create_def cluster_new_def fsm_new_def spacemap_space_def SPACEMAP_ZONES_PER_LBA_def
        div_roundup_eq ex_vf_ok)
  have zl: "vf_zone_limits ex_vf 0 = (10, 100)"
    using vf_reserved_eq[OF ex_vf_ok(1)] by (simp add: vf_zone_limits_def ex_vf_def)
  have "\<exists>c ops. cluster_write (vf_zone_limits ex_vf) c0 [1] 5 = Some (Inr 10, c, ops) \<and> fsm_total_zones (cl_fsm c) = 5"
    by (simp add: cluster_write_def c0' div_roundup_eq BYTES_PER_LBA_def fsm_try_allocate_def
        fsm_find_empty_def fsm_open_zone_def fsm_dirty_zone_def SPACEMAP_ZONES_PER_LBA_def fsm_is_empty_def
        wrapu_def wsub_id zl)
  then obtain c ops where w: "cluster_write (vf_zone_limits ex_vf) c0 [1] 5 = Some (Inr 10, c, ops)"
    "fsm_total_zones (cl_fsm c) = 5" by blast
  have "cluster_run (vf_zone_limits ex_vf) (vf_zone_of ex_vf) ex_hash example_enc 0 c (insert (10, blocks_of [1]) {}) (\<lambda>_. [])"
    by (rule run_write[OF c0(3) _ _ w(1)]) (simp_all add: blocks_of_def)
  then show ?thesis using w(2) ex_vf_ok(2) by (auto simp: blocks_of_def)
qed






end
