(* ===== verification/Declust.thy ===== *)
theory Declust
  imports Common
begin

text \<open>
  \<open>bfffs/src/common/raid/declust.rs\<close>: chunk identifiers and locations, and the \<open>Locator\<close> trait
  that every declustering layout implements, as a locale over the layout's operations.
\<close>

datatype ChunkId = Data nat | Parity nat int

fun chunk_address :: "ChunkId \<Rightarrow> nat" where
  "chunk_address (Data i) = i"
| "chunk_address (Parity i _) = i"

fun chunk_is_data :: "ChunkId \<Rightarrow> bool" where
  "chunk_is_data (Data _) = True"
| "chunk_is_data (Parity _ _) = False"

record Chunkloc =
  cl_disk :: int
  cl_offset :: nat

definition chunkloc_new :: "int \<Rightarrow> nat \<Rightarrow> Chunkloc" where
  "chunkloc_new d off = \<lparr>cl_disk = d, cl_offset = off\<rparr>"

text \<open>
  The contract of \<open>trait Locator\<close>: on the chunks and locations in the layout's range, \<open>id2loc\<close> and
  \<open>loc2id\<close> are inverse to each other and the chunks of one stripe lie on different disks.
\<close>

locale Locator =
  fixes wf :: "'l \<Rightarrow> bool"
    and valid_id :: "'l \<Rightarrow> ChunkId \<Rightarrow> bool"
    and valid_loc :: "'l \<Rightarrow> Chunkloc \<Rightarrow> bool"
    and id2loc :: "'l \<Rightarrow> ChunkId \<Rightarrow> Chunkloc"
    and loc2id :: "'l \<Rightarrow> Chunkloc \<Rightarrow> ChunkId option"
    and stripe_of :: "'l \<Rightarrow> ChunkId \<Rightarrow> nat"
  assumes loc2id_id2loc: "wf l \<Longrightarrow> valid_id l c \<Longrightarrow> loc2id l (id2loc l c) = Some c"
    and id2loc_loc2id: "wf l \<Longrightarrow> valid_loc l x \<Longrightarrow> \<exists>c. loc2id l x = Some c \<and> id2loc l c = x"
    and stripe_disks: "wf l \<Longrightarrow> valid_id l c \<Longrightarrow> valid_id l c' \<Longrightarrow> stripe_of l c = stripe_of l c'
      \<Longrightarrow> c \<noteq> c' \<Longrightarrow> cl_disk (id2loc l c) \<noteq> cl_disk (id2loc l c')"
begin

lemma id2loc_inj:
  assumes "wf l" "valid_id l c" "valid_id l c'" "id2loc l c = id2loc l c'"
  shows "c = c'"
proof -
  have "Some c = Some c'"
    unfolding loc2id_id2loc[OF assms(1,2), symmetric] loc2id_id2loc[OF assms(1,3), symmetric]
      assms(4) ..
  then show ?thesis by simp
qed

lemma loc2id_inj:
  assumes "wf l" "valid_loc l x" "valid_loc l x'" "loc2id l x = loc2id l x'"
  shows "x = x'"
  using id2loc_loc2id[OF assms(1,2)] id2loc_loc2id[OF assms(1,3)] assms(4) by auto

lemma loc2id_no_panic: "wf l \<Longrightarrow> valid_loc l x \<Longrightarrow> loc2id l x \<noteq> None"
  using id2loc_loc2id by fastforce

text \<open>Losing the disks \<open>D\<close> loses at most as many chunks of any one stripe as there are disks lost.\<close>

lemma lost_chunks_of_stripe:
  assumes "wf l" "finite D"
  shows "card {c. valid_id l c \<and> stripe_of l c = s \<and> cl_disk (id2loc l c) \<in> D} \<le> card D"
proof (rule card_inj_on_le[OF _ _ assms(2)])
  show "inj_on (\<lambda>c. cl_disk (id2loc l c))
      {c. valid_id l c \<and> stripe_of l c = s \<and> cl_disk (id2loc l c) \<in> D}"
  proof (rule inj_onI, rule ccontr)
    fix c c' assume c: "c \<in> {c. valid_id l c \<and> stripe_of l c = s \<and> cl_disk (id2loc l c) \<in> D}"
      "c' \<in> {c. valid_id l c \<and> stripe_of l c = s \<and> cl_disk (id2loc l c) \<in> D}"
      "cl_disk (id2loc l c) = cl_disk (id2loc l c')" "c \<noteq> c'"
    then have "valid_id l c" "valid_id l c'" "stripe_of l c = stripe_of l c'" by simp_all
    from stripe_disks[OF assms(1) this c(4)] c(3) show False by contradiction
  qed
qed auto

end

end
