(* ===== verification/Prime_S.thy ===== *)
theory Prime_S
  imports Declust
begin

text \<open>
  \<open>bfffs/src/common/raid/prime_s.rs\<close>: the PRIME-S declustering layout. The fields of the layout
  keep their Rust widths: every arithmetic expression of the source is followed by the
  wrap-around of its type (\<open>i16\<close>, \<open>i32\<close>, \<open>wrapi 8\<close> for \<open>u8\<close>, \<open>wrapi 64\<close> for \<open>u64\<close>); nested
  additions, subtractions and multiplications of one type are wrapped once, at the outside,
  which gives the same value.
\<close>

section \<open>Arithmetic helpers\<close>

text \<open>\<open>invmod\<close>, at the type \<open>i16\<close> with which the layout uses it: the loop and its result.\<close>

function invmod_loop :: "int \<Rightarrow> int \<Rightarrow> int \<Rightarrow> int \<Rightarrow> int \<times> int" where
  "invmod_loop t r newt newr =
     (if newr > 0 then
        (let q = r sdiv newr
         in invmod_loop newt newr (i16 (t - newt * q)) (i16 (r - newr * q)))
      else (t, r))"
  by pat_completeness auto
termination
proof (relation "measure (\<lambda>(t, r, newt, newr). nat newr)")
  fix t r newt newr q :: int
  assume "0 < newr" and q: "q = r sdiv newr"
  moreover have "r - newr * q = r smod newr"
    unfolding q by (simp add: minus_mult_sdiv_eq_smod)
  moreover have "\<bar>r smod newr\<bar> < newr"
    using \<open>0 < newr\<close> by (simp add: signed_modulo_int_def abs_mult)
  ultimately show "((newt, newr, i16 (t - newt * q), i16 (r - newr * q)), t, r, newt, newr)
      \<in> measure (\<lambda>(t, r, newt, newr). nat newr)"
    using i16_less[of "r - newr * q" newr] by auto
qed simp

definition invmod :: "int \<Rightarrow> int \<Rightarrow> int" where
  "invmod a n =
     (let t = fst (invmod_loop 0 n 1 a) in if t < 0 then i16 (t + n) else t)"

text \<open>\<open>is_prime\<close> at \<open>i16\<close>; \<^const>\<open>None\<close> is a loop that does not end.\<close>

partial_function (option) is_prime_loop :: "int \<Rightarrow> int \<Rightarrow> bool option" where
  "is_prime_loop n i =
     (if i16 (i * i) \<le> n then
        (if n smod i = 0 \<or> n smod (i16 (i + 2)) = 0 then Some False
         else is_prime_loop n (i16 (i + 6)))
      else Some True)"

declare is_prime_loop.simps [code]

definition is_prime :: "int \<Rightarrow> bool option" where
  "is_prime n =
     (if n \<le> 1 then Some False
      else if n \<le> 3 then Some True
      else if n smod 2 = 0 \<or> n smod 3 = 0 then Some False
      else is_prime_loop n 5)"

section \<open>The layout\<close>

record ChunklocInt =
  ci_a :: int
  ci_r :: int
  ci_s :: int
  ci_y :: int
  ci_z :: int

record PrimeS =
  ps_n :: int
  ps_k :: int
  ps_m :: int
  ps_m_inv :: int
  ps_f :: int
  ps_datachunks :: int
  ps_stripes :: int
  ps_depth :: int

definition primes_new :: "int \<Rightarrow> int \<Rightarrow> int \<Rightarrow> PrimeS option" where
  "primes_new num_disks disks_per_stripe redundancy = do {
     p \<leftarrow> is_prime num_disks;
     assert_that p;
     assert_that (num_disks \<le> 215);
     assert_that (disks_per_stripe > 1 \<and> disks_per_stripe \<le> num_disks);
     assert_that (redundancy > 0 \<and> redundancy < disks_per_stripe);
     let depth = i16 (disks_per_stripe * (num_disks - 1));
     let k = wrapi 8 disks_per_stripe;
     let f = wrapi 8 redundancy;
     let m = wrapi 8 (k - f);
     let m_inv = wrapi 8 (invmod m num_disks);
     let stripes = wrapi 16 (wrapi 16 num_disks * (wrapi 16 num_disks - 1));
     let datachunks = i32 (stripes * m);
     Some \<lparr>ps_n = wrapi 8 num_disks, ps_k = k, ps_m = m, ps_m_inv = m_inv, ps_f = f,
           ps_datachunks = datachunks, ps_stripes = stripes, ps_depth = depth\<rparr>
   }"

definition id2rep_and_iter :: "PrimeS \<Rightarrow> ChunkId \<Rightarrow> int \<times> int" where
  "id2rep_and_iter p chunkid =
     (let i = int (chunk_address chunkid);
          dc = wrapi 64 (ps_datachunks p);
          rep = i div dc;
          iter = i32 (i mod dc) sdiv i32 (ps_m p * ps_n p)
      in (rep, i16 iter))"

definition id2loc_int :: "PrimeS \<Rightarrow> ChunkId \<Rightarrow> ChunklocInt" where
  "id2loc_int p chunkid =
     (let i = int (chunk_address chunkid);
          a = i32 (i mod wrapi 64 (ps_datachunks p));
          (r, z) = id2rep_and_iter p chunkid;
          s = a sdiv ps_m p;
          y = i16 (z mod wrapi 8 (ps_n p - 1) + 1)
      in \<lparr>ci_a = a, ci_r = r, ci_s = i16 s, ci_y = y, ci_z = z\<rparr>)"

definition cb_stripe :: "PrimeS \<Rightarrow> int \<Rightarrow> int \<Rightarrow> int \<Rightarrow> int" where
  "cb_stripe p disk y_inv j =
     i32 ((disk * y_inv - j) * ps_m_inv p - 1) mod ps_n p"

definition offset_within_iteration :: "PrimeS \<Rightarrow> ChunklocInt \<Rightarrow> int \<Rightarrow> int \<Rightarrow> int" where
  "offset_within_iteration p cli b disk =
     (let s = ci_s cli;
          y_inv = invmod (ci_y cli) (ps_n p);
          o0 = i32 (s * ps_m p + b) sdiv ps_n p;
          o1 = i32 (ps_f p * ci_z cli);
          o2 = fold (\<lambda>j acc. i32 ((if s mod ps_n p > cb_stripe p disk y_inv j then 1 else 0) + acc))
                 [0..ps_f p - 1] 0
      in i32 (o0 + o1 + o2))"

fun offset_within_stripe :: "ChunkId \<Rightarrow> int \<Rightarrow> int \<Rightarrow> int \<Rightarrow> int" where
  "offset_within_stripe (Data _) a s m = wrapi 8 (i32 (a - i16 (s * m)))"
| "offset_within_stripe (Parity _ i) a s m = wrapi 8 (i32 (m + i))"

definition primes_id2loc :: "PrimeS \<Rightarrow> ChunkId \<Rightarrow> Chunkloc" where
  "primes_id2loc p chunkid =
     (let cli = id2loc_int p chunkid;
          b = offset_within_stripe chunkid (ci_a cli) (ci_s cli) (ps_m p);
          disk = i16 (i32 ((ci_s cli * ps_m p + b) * ci_y cli) mod ps_n p);
          o3 = wrapi 64 (ci_r cli * wrapi 64 (ps_depth p));
          off = wrapi 64 (wrapi 64 (offset_within_iteration p cli b disk) + o3)
      in \<lparr>cl_disk = disk, cl_offset = nat off\<rparr>)"

text \<open>
  \<open>loc2id\<close>. The \<open>FixedBitSet\<close> of the stripes that use the disk is the list of its members in
  increasing order; \<open>nth(..).unwrap()\<close> panics beyond its end.
\<close>

definition disk_stripes :: "PrimeS \<Rightarrow> int \<Rightarrow> int \<Rightarrow> int list" where
  "disk_stripes p disk y_inv =
     (let S = map (\<lambda>i. i32 ((disk * y_inv - i) * ps_m_inv p) mod ps_n p) [0..ps_k p - 1]
      in filter (\<lambda>x. x \<in> set S) [0..ps_n p - 1])"

definition primes_loc2id :: "PrimeS \<Rightarrow> Chunkloc \<Rightarrow> ChunkId option" where
  "primes_loc2id p chunkloc =
     (let dep = wrapi 64 (ps_depth p);
          r = int (cl_offset chunkloc) div dep;
          off = i32 (int (cl_offset chunkloc) mod dep);
          z = i16 (off sdiv ps_k p);
          y = i16 (z mod wrapi 8 (ps_n p - 1) + 1);
          y_inv = invmod y (ps_n p);
          disk = cl_disk chunkloc;
          stripes = disk_stripes p disk y_inv;
          offset_in_iter = i32 (off - ps_k p * z)
      in do {
        s0 \<leftarrow> vec_get stripes (cast_u 64 offset_in_iter);
        let s = i16 (i16 s0 + ps_n p * z);
        let b = wrapi 8 (i32 (disk * y_inv - s * ps_m p) mod ps_n p);
        let base = wrapi 64 (r * wrapi 64 (ps_datachunks p));
        Some (if b \<ge> ps_m p
              then Parity (nat (wrapi 64 (base + wrapi 64 s * ps_m p))) (wrapi 8 (b - ps_m p))
              else Data (nat (wrapi 64 (base + wrapi 64 s * ps_m p + b))))
      })"

definition primes_parallel_read_count :: "PrimeS \<Rightarrow> nat \<Rightarrow> nat option" where
  "primes_parallel_read_count p consecutive_data_chunks =
     map_option (\<lambda>q. u64 (q + 1)) (div_roundup 64 consecutive_data_chunks (nat (ps_n p)))"

definition primes_datachunks :: "PrimeS \<Rightarrow> nat" where
  "primes_datachunks p = cast_u 64 (ps_datachunks p)"

definition primes_depth :: "PrimeS \<Rightarrow> nat" where
  "primes_depth p = cast_u 32 (ps_depth p)"

definition primes_protection :: "PrimeS \<Rightarrow> int" where
  "primes_protection p = ps_f p"

definition primes_stripes :: "PrimeS \<Rightarrow> int" where
  "primes_stripes p = ps_stripes p"

definition primes_stripesize :: "PrimeS \<Rightarrow> int" where
  "primes_stripesize p = ps_k p"

end
