(* ===== verification/Prime_S_Iter.thy ===== *)
theory Prime_S_Iter
  imports Prime_S
begin

text \<open>
  \<open>PrimeSIter\<close> and \<open>PrimeSIterData\<close> of \<open>bfffs/src/common/raid/prime_s.rs\<close>: the incremental
  iterators over the chunks of a layout, which keep a running offset for each disk. An index out of
  the vector of offsets is a panic (\<^const>\<open>None\<close>), as is the \<open>unreachable!()\<close> of the data iterator.
\<close>

record PrimeSIter =
  it_a :: int
  it_f :: int
  it_depth :: int
  it_end :: ChunkId
  it_id :: ChunkId
  it_m :: int
  it_n :: int
  it_o :: "int list"
  it_r :: int
  it_stripe :: int
  it_stripe_iter :: int
  it_y :: int
  it_z :: int

definition iterations_per_rep :: "PrimeSIter \<Rightarrow> int" where
  "iterations_per_rep it = wrapi 8 (it_n it - 1)"

definition stripes_per_iteration :: "PrimeSIter \<Rightarrow> int" where
  "stripes_per_iteration it = it_n it"

text \<open>\<open>o[disk as usize] += 1\<close>, the statement that every step of the iterators performs.\<close>

definition bump :: "int list \<Rightarrow> int \<Rightarrow> int list option" where
  "bump os disk = do {
     let i = cast_u 64 disk;
     v \<leftarrow> vec_get os i;
     Some (os[i := i16 (v + 1)])
   }"

fun bump_all :: "int list \<Rightarrow> int list \<Rightarrow> int list option" where
  "bump_all os [] = Some os"
| "bump_all os (d # ds) = bump os d \<bind> (\<lambda>os'. bump_all os' ds)"

definition iter_new :: "PrimeS \<Rightarrow> ChunkId \<Rightarrow> ChunkId \<Rightarrow> PrimeSIter option" where
  "iter_new layout start end = do {
     let cli = id2loc_int layout start;
     let s_z = ci_s cli mod ps_n layout;
     let b = offset_within_stripe start (ci_a cli) (ci_s cli) (ps_m layout);
     let o0 = i16 (ps_k layout * ci_z cli);
     let disks = concat (map (\<lambda>s. map (\<lambda>b. i32 ((s * ps_m layout + b) * ci_y cli) mod ps_n layout)
                                    [0..(if s = s_z then b else ps_k layout) - 1]) [0..s_z]);
     os \<leftarrow> bump_all (replicate (nat (ps_n layout)) o0) disks;
     Some \<lparr>it_a = ci_a cli, it_f = ps_f layout, it_depth = ps_depth layout, it_end = end,
           it_id = start, it_m = ps_m layout, it_n = ps_n layout, it_o = os, it_r = ci_r cli,
           it_stripe = ci_s cli, it_stripe_iter = wrapi 8 s_z, it_y = wrapi 8 (ci_y cli),
           it_z = wrapi 8 (ci_z cli)\<rparr>
   }"

definition next_elem :: "PrimeSIter \<Rightarrow> (int \<times> nat) option" where
  "next_elem it = do {
     let b = offset_within_stripe (it_id it) (it_a it) (it_stripe it) (it_m it);
     let disk = i16 (i32 ((it_stripe it * it_m it + b) * it_y it) mod it_n it);
     let o3 = wrapi 64 (it_r it * wrapi 64 (it_depth it));
     v \<leftarrow> vec_get (it_o it) (cast_u 64 disk);
     Some (disk, cast_u 64 (wrapi 64 v + o3))
   }"

text \<open>The roll-over to the next stripe; \<open>inc\<close> is what the source adds to \<open>a\<close> within a repetition.\<close>

definition roll_over :: "PrimeSIter \<Rightarrow> int \<Rightarrow> int \<Rightarrow> PrimeSIter option" where
  "roll_over it disk inc =
     (if it_stripe_iter it = wrapi 8 (stripes_per_iteration it - 1) then
        (let it = it\<lparr>it_stripe_iter := 0\<rparr> in
         if it_z it = wrapi 8 (iterations_per_rep it - 1) then
           Some (it\<lparr>it_o := map (\<lambda>_. 0) (it_o it), it_a := 0, it_r := wrapi 64 (it_r it + 1),
                    it_stripe := 0, it_y := 1, it_z := 0\<rparr>)
         else do {
           os \<leftarrow> bump (it_o it) disk;
           let z = wrapi 8 (it_z it + 1);
           Some (it\<lparr>it_a := i32 (it_a it + inc), it_o := os, it_z := z,
                    it_stripe := i16 (it_stripe it + 1),
                    it_y := wrapi 8 (z mod wrapi 8 (it_n it - 1) + 1)\<rparr>)
         })
      else do {
        os \<leftarrow> bump (it_o it) disk;
        Some (it\<lparr>it_a := i32 (it_a it + inc), it_o := os,
                 it_stripe_iter := wrapi 8 (it_stripe_iter it + 1),
                 it_stripe := i16 (it_stripe it + 1)\<rparr>)
      })"

definition iter_next :: "PrimeSIter \<Rightarrow> ((ChunkId \<times> Chunkloc) option \<times> PrimeSIter) option" where
  "iter_next it =
     (if it_id it = it_end it then Some (None, it)
      else do {
        (disk, off) \<leftarrow> next_elem it;
        let result = Some (it_id it, \<lparr>cl_disk = disk, cl_offset = off\<rparr>);
        it' \<leftarrow> (case it_id it of
           Data i \<Rightarrow> do {
             os \<leftarrow> bump (it_o it) disk;
             let it = it\<lparr>it_o := os\<rparr>;
             if it_a it < i32 (i16 (it_stripe it + 1) * it_m it - 1)
             then Some (it\<lparr>it_a := i32 (it_a it + 1), it_id := Data (u64 (i + 1))\<rparr>)
             else Some (it\<lparr>it_a := i32 (it_stripe it * it_m it),
                           it_id := Parity (wsub 64 i (nat (wrapi 8 (it_m it - 1)))) 0\<rparr>)
           }
         | Parity a i \<Rightarrow>
             if i < wrapi 8 (it_f it - 1) then do {
               os \<leftarrow> bump (it_o it) disk;
               Some (it\<lparr>it_o := os, it_id := Parity a (i16 (i + 1))\<rparr>)
             } else do {
               it' \<leftarrow> roll_over it disk (it_m it);
               Some (it'\<lparr>it_id := Data (u64 (a + nat (it_m it)))\<rparr>)
             });
        Some (result, it')
      })"

definition iter_data_next :: "PrimeSIter \<Rightarrow> ((ChunkId \<times> Chunkloc) option \<times> PrimeSIter) option" where
  "iter_data_next it =
     (if it_id it = it_end it then Some (None, it)
      else do {
        (disk, off) \<leftarrow> next_elem it;
        let result = Some (it_id it, \<lparr>cl_disk = disk, cl_offset = off\<rparr>);
        it' \<leftarrow> (case it_id it of
           Data a \<Rightarrow>
             let stripe = it_stripe it in
             if it_a it < i32 ((stripe + 1) * it_m it - 1) then do {
               os \<leftarrow> bump (it_o it) disk;
               Some (it\<lparr>it_o := os, it_a := i32 (it_a it + 1), it_id := Data (u64 (a + 1))\<rparr>)
             } else do {
               os \<leftarrow> bump_all (it_o it)
                 (map (\<lambda>i. wrapi 8 (i32 ((stripe * it_m it + wrapi 8 (it_m it + i)) * it_y it) mod it_n it))
                    [0..it_f it - 1]);
               it' \<leftarrow> roll_over (it\<lparr>it_o := os\<rparr>) disk 1;
               Some (it'\<lparr>it_id := Data (u64 (a + 1))\<rparr>)
             }
         | Parity _ _ \<Rightarrow> None);
        Some (result, it')
      })"

text \<open>\<open>iter\<close> and \<open>iter_data\<close> of the layout.\<close>

definition primes_iter :: "PrimeS \<Rightarrow> ChunkId \<Rightarrow> ChunkId \<Rightarrow> PrimeSIter option" where
  "primes_iter layout start end = iter_new layout start end"

definition primes_iter_data :: "PrimeS \<Rightarrow> ChunkId \<Rightarrow> ChunkId \<Rightarrow> PrimeSIter option" where
  "primes_iter_data layout start end = do {
     assert_that (chunk_is_data start);
     assert_that (chunk_is_data end);
     iter_new layout start end
   }"

text \<open>A \<open>for\<close> loop over an iterator, with at most \<open>fuel\<close> calls of \<open>next\<close>; \<^const>\<open>None\<close> if the iterator has not
  ended by then (or has panicked).\<close>

fun iter_collect :: "('i \<Rightarrow> ('x option \<times> 'i) option) \<Rightarrow> nat \<Rightarrow> 'i \<Rightarrow> 'x list option" where
  "iter_collect nxt 0 it = None"
| "iter_collect nxt (Suc fuel) it =
     (case nxt it of
        None \<Rightarrow> None
      | Some (None, _) \<Rightarrow> Some []
      | Some (Some x, it') \<Rightarrow> map_option ((#) x) (iter_collect nxt fuel it'))"

end
