(* ===== verification/Residues.thy ===== *)
theory Residues
  imports Main "HOL-Library.FuncSet"
begin

text \<open>
  Arithmetic facts used by the declustering layout: primes, inverses modulo a prime, counting
  the members of a residue class below a bound, and the rank of an element of a sorted list.
\<close>

section \<open>Primes\<close>

definition prime_int :: "int \<Rightarrow> bool" where
  "prime_int p \<longleftrightarrow> 1 < p \<and> (\<forall>d. 1 < d \<and> d < p \<longrightarrow> \<not> d dvd p)"

lemma prime_int_coprime:
  assumes "prime_int p" "0 < a" "a < p"
  shows "coprime a p"
proof -
  let ?g = "gcd a p"
  have "?g dvd p" "?g dvd a" by simp_all
  have "0 < ?g" using assms(2) by (simp add: gcd_pos_int)
  have "?g \<le> a" using assms(2) \<open>?g dvd a\<close> zdvd_imp_le by blast
  then have "\<not> 1 < ?g" using assms(1,3) \<open>?g dvd p\<close> unfolding prime_int_def by fastforce
  then have "?g = 1" using \<open>0 < ?g\<close> by linarith
  then show ?thesis by (simp add: coprime_iff_gcd_eq_1)
qed

text \<open>A number without a divisor up to its square root is prime.\<close>

lemma prime_int_sqrt:
  assumes "1 < n" "n < i * i" "0 < i" "\<And>d. 1 < d \<Longrightarrow> d < i \<Longrightarrow> \<not> d dvd n"
  shows "prime_int n"
  unfolding prime_int_def
proof (intro conjI allI impI notI)
  fix d assume d: "1 < d \<and> d < n" and dvd: "d dvd n"
  then obtain e where e: "n = d * e" by blast
  have e0: "0 < e"
    by (rule ccontr) (use assms(1) d e in \<open>auto simp: mult_le_0_iff not_less\<close>)
  have "1 < e" using e d e0 by (cases "e = 1") auto
  have "\<not> d < i" using assms(4) d dvd by blast
  moreover have "\<not> e < i" using assms(4) \<open>1 < e\<close> e by (metis dvd_triv_right)
  ultimately have "i * i \<le> d * e" using assms(3) by (intro mult_mono) auto
  then show False using e assms(2) by simp
qed (use assms in simp)

section \<open>Residues\<close>

lemma mod_eqI: "x = y + n * q \<Longrightarrow> 0 \<le> y \<Longrightarrow> y < n \<Longrightarrow> x mod n = (y :: int)"
  by simp

lemma mod_eq_iff_dvd: "(x :: int) mod n = y mod n \<longleftrightarrow> n dvd (x - y)"
  by (rule mod_eq_dvd_iff)

text \<open>
  The placement equation. With \<open>m mi = 1\<close> and \<open>y yi = 1\<close> modulo \<open>n\<close>, unit \<open>b\<close> of stripe \<open>s\<close> is on
  disk \<open>d\<close> exactly when \<open>s\<close> is the residue that \<open>loc2id\<close> computes.
\<close>

lemma placement:
  fixes n m mi y yi s b d :: int
  assumes n: "1 < n" and mi: "m * mi mod n = 1" and yi: "y * yi mod n = 1"
    and s: "0 \<le> s" "s < n" and d: "0 \<le> d" "d < n"
  shows "(s * m + b) * y mod n = d \<longleftrightarrow> ((d * yi - b) * mi) mod n = s"
proof -
  have one: "(1::int) mod n = 1" using n by simp
  have dm: "n dvd (m * mi - 1)" using mi one mod_eq_dvd_iff by metis
  have dy: "n dvd (y * yi - 1)" using yi one mod_eq_dvd_iff by metis
  obtain e where e: "m * mi = 1 + n * e" using dm by (auto simp: dvd_def algebra_simps)
  obtain c where c: "y * yi = 1 + n * c" using dy by (auto simp: dvd_def algebra_simps)
  show ?thesis
  proof
    assume "(s * m + b) * y mod n = d"
    then obtain q where q: "(s * m + b) * y = d + n * q" using mult_div_mod_eq by (metis add.commute)
    have "d * yi = (s * m + b) * (y * yi) - n * q * yi"
    proof -
      have "(s * m + b) * (y * yi) - n * q * yi = ((s * m + b) * y) * yi - n * q * yi"
        by (simp add: algebra_simps)
      then show ?thesis unfolding q by (simp add: algebra_simps)
    qed
    then have A: "d * yi - b = s * m + n * ((s * m + b) * c - q * yi)"
      unfolding c by (simp add: algebra_simps)
    have "(d * yi - b) * mi = s * (m * mi) + n * ((s * m + b) * c - q * yi) * mi"
      unfolding A by (simp add: algebra_simps)
    then have "(d * yi - b) * mi = s + n * (s * e + ((s * m + b) * c - q * yi) * mi)"
      unfolding e by (simp add: algebra_simps)
    then show "((d * yi - b) * mi) mod n = s" by (rule mod_eqI) (use s in auto)
  next
    assume "((d * yi - b) * mi) mod n = s"
    then obtain q where q: "(d * yi - b) * mi = s + n * q" using mult_div_mod_eq by (metis add.commute)
    have "s * m = (d * yi - b) * (m * mi) - n * q * m"
    proof -
      have "(d * yi - b) * (m * mi) - n * q * m = ((d * yi - b) * mi) * m - n * q * m"
        by (simp add: algebra_simps)
      then show ?thesis unfolding q by (simp add: algebra_simps)
    qed
    then have A: "s * m + b = d * yi + n * ((d * yi - b) * e - q * m)"
      unfolding e by (simp add: algebra_simps)
    have "(s * m + b) * y = d * (y * yi) + n * ((d * yi - b) * e - q * m) * y"
      unfolding A by (simp add: algebra_simps)
    then have "(s * m + b) * y = d + n * (d * c + ((d * yi - b) * e - q * m) * y)"
      unfolding c by (simp add: algebra_simps)
    then show "(s * m + b) * y mod n = d" by (rule mod_eqI) (use d in auto)
  qed
qed

lemma placement_disk_residue:
  fixes n y yi x d :: int
  assumes n: "1 < n" and yi: "y * yi mod n = 1" and d: "0 \<le> d" "d < n"
  shows "x * y mod n = d \<longleftrightarrow> x mod n = (d * yi) mod n"
proof -
  have r: "0 \<le> x mod n" "x mod n < n" using n by simp_all
  have "x * y mod n = (x mod n * 1 + 0) * y mod n" by (simp add: mod_mult_left_eq)
  moreover have "(1::int) * 1 mod n = 1" using n by simp
  ultimately show ?thesis
    using placement[OF n, of 1 1 y yi "x mod n" d 0] yi r d by auto
qed

lemma residue_class_count:
  fixes x n :: int
  assumes "0 < n" "0 \<le> x"
  shows "card {x' \<in> {0..<x}. x' mod n = x mod n} = nat (x div n)"
proof -
  have "{x' \<in> {0..<x}. x' mod n = x mod n} = (\<lambda>j. n * j + x mod n) ` {0..<x div n}"
  proof (intro set_eqI iffI)
    fix x' assume "x' \<in> {x' \<in> {0..<x}. x' mod n = x mod n}"
    then have x': "0 \<le> x'" "x' < x" "x' mod n = x mod n" by simp_all
    have e: "x' = n * (x' div n) + x mod n" "x = n * (x div n) + x mod n"
      using x'(3) mult_div_mod_eq[of n x'] mult_div_mod_eq[of n x] by simp_all
    then have "n * (x' div n) < n * (x div n)" using x'(2) by linarith
    then have "x' div n < x div n" using assms(1) by simp
    moreover have "0 \<le> x' div n" using x'(1) assms(1) by (simp add: pos_imp_zdiv_nonneg_iff)
    ultimately show "x' \<in> (\<lambda>j. n * j + x mod n) ` {0..<x div n}"
      using e(1) by (intro image_eqI[where x = "x' div n"]) auto
  next
    fix x' assume "x' \<in> (\<lambda>j. n * j + x mod n) ` {0..<x div n}"
    then obtain j where j: "0 \<le> j" "j < x div n" "x' = n * j + x mod n" by auto
    have "n * j < n * (x div n)" using j(2) assms(1) by simp
    then have "x' < x" using j(3) mult_div_mod_eq[of n x] by linarith
    moreover have "0 \<le> n * j" "0 \<le> x mod n" using j(1) assms(1) by simp_all
    then have "0 \<le> x'" using j(3) by linarith
    ultimately show "x' \<in> {x' \<in> {0..<x}. x' mod n = x mod n}" using j(3) by simp
  qed
  moreover have "inj_on (\<lambda>j. n * j + x mod n) {0..<x div n}"
    using assms(1) by (auto intro: inj_onI)
  ultimately show ?thesis by (simp add: card_image)
qed

section \<open>Ranks in sorted lists\<close>

lemma rank_nth:
  fixes xs :: "'a :: linorder list"
  assumes "sorted xs" "distinct xs" "i < length xs"
  shows "card {y \<in> set xs. y < xs ! i} = i"
proof -
  have "{y \<in> set xs. y < xs ! i} = (!) xs ` {..<i}"
  proof (intro set_eqI iffI)
    fix y assume "y \<in> {y \<in> set xs. y < xs ! i}"
    then obtain j where j: "j < length xs" "y = xs ! j" "xs ! j < xs ! i"
      by (auto simp: in_set_conv_nth)
    have "j < i"
    proof (rule ccontr)
      assume "\<not> j < i"
      then have "xs ! i \<le> xs ! j" using assms(1) j(1) by (simp add: sorted_nth_mono)
      then show False using j(3) by simp
    qed
    then show "y \<in> (!) xs ` {..<i}" using j(2) by simp
  next
    fix y assume "y \<in> (!) xs ` {..<i}"
    then obtain j where j: "j < i" "y = xs ! j" by auto
    have "xs ! j \<le> xs ! i" using assms j by (simp add: sorted_nth_mono)
    moreover have "xs ! j \<noteq> xs ! i" using assms j by (simp add: nth_eq_iff_index_eq)
    ultimately show "y \<in> {y \<in> set xs. y < xs ! i}" using j assms(3) by simp
  qed
  moreover have "inj_on ((!) xs) {..<i}"
    using assms(2,3) by (intro inj_on_nth) auto
  ultimately show ?thesis by (simp add: card_image)
qed

lemma nth_rank:
  fixes xs :: "'a :: linorder list"
  assumes "sorted xs" "distinct xs" "x \<in> set xs"
  shows "card {y \<in> set xs. y < x} < length xs" "xs ! card {y \<in> set xs. y < x} = x"
proof -
  obtain i where i: "i < length xs" "x = xs ! i" using assms(3) by (auto simp: in_set_conv_nth)
  have "card {y \<in> set xs. y < x} = i" using rank_nth[OF assms(1,2) i(1)] i(2) by simp
  then show "card {y \<in> set xs. y < x} < length xs" "xs ! card {y \<in> set xs. y < x} = x"
    using i by simp_all
qed

section \<open>One iteration of the layout\<close>

text \<open>
  In one iteration every disk holds \<open>k\<close> units, unit \<open>b\<close> of them in stripe \<open>stripe_at n mi yi d b\<close>.
  \<open>mi\<close> and \<open>yi\<close> are the inverses of the stripe's data width \<open>m\<close> and of the stride \<open>y\<close>.
\<close>

definition stripe_at :: "int \<Rightarrow> int \<Rightarrow> int \<Rightarrow> int \<Rightarrow> int \<Rightarrow> int" where
  "stripe_at n mi yi d b = ((d * yi - b) * mi) mod n"

definition iter_geometry :: "int \<Rightarrow> int \<Rightarrow> int \<Rightarrow> int \<Rightarrow> int \<Rightarrow> int \<Rightarrow> bool" where
  "iter_geometry n k m mi y yi \<longleftrightarrow>
     1 < n \<and> 0 < m \<and> m < k \<and> k \<le> n \<and> m * mi mod n = 1 \<and> y * yi mod n = 1"

lemma stripe_at_range: "1 < n \<Longrightarrow> 0 \<le> stripe_at n mi yi d b \<and> stripe_at n mi yi d b < n"
  by (simp add: stripe_at_def)

lemma stripe_at_iff:
  assumes "iter_geometry n k m mi y yi" "0 \<le> s" "s < n" "0 \<le> d" "d < n"
  shows "(s * m + b) * y mod n = d \<longleftrightarrow> stripe_at n mi yi d b = s"
  using placement[of n m mi y yi s d b] assms by (simp add: stripe_at_def iter_geometry_def)

lemma unit_residue:
  assumes "iter_geometry n k m mi y yi" "0 \<le> d" "d < n"
  shows "(stripe_at n mi yi d b * m + b) mod n = (d * yi) mod n"
proof -
  have n: "1 < n" "y * yi mod n = 1" using assms(1) by (simp_all add: iter_geometry_def)
  have "(stripe_at n mi yi d b * m + b) * y mod n = d"
    using stripe_at_iff[OF assms(1) _ _ assms(2,3)] stripe_at_range[OF n(1)] by blast
  then show ?thesis using placement_disk_residue[OF n assms(2,3)] by blast
qed

lemma stripe_at_inj:
  assumes g: "iter_geometry n k m mi y yi" and d: "0 \<le> d" "d < n"
    and b: "0 \<le> b" "b < n" "0 \<le> b'" "b' < n"
    and eq: "stripe_at n mi yi d b = stripe_at n mi yi d b'"
  shows "b = b'"
proof -
  have "(stripe_at n mi yi d b * m + b) mod n = (stripe_at n mi yi d b * m + b') mod n"
    using unit_residue[OF g d, of b] unit_residue[OF g d, of b'] eq by simp
  then have "n dvd (b - b')" by (simp add: mod_eq_dvd_iff)
  then have "b mod n = b' mod n" by (simp add: mod_eq_dvd_iff)
  then show ?thesis using b by simp
qed

lemma stripe_at_inj_on:
  assumes "iter_geometry n k m mi y yi" "0 \<le> d" "d < n" "B \<subseteq> {0..<k}"
  shows "inj_on (stripe_at n mi yi d) B"
proof (rule inj_onI)
  fix b b' assume B: "b \<in> B" "b' \<in> B"
    and eq: "stripe_at n mi yi d b = stripe_at n mi yi d b'"
  have "k \<le> n" using assms(1) by (simp add: iter_geometry_def)
  moreover have "0 \<le> b" "b < k" "0 \<le> b'" "b' < k" using B assms(4) by auto
  ultimately show "b = b'" using stripe_at_inj[OF assms(1-3) _ _ _ _ eq] by linarith
qed

text \<open>Two units of one stripe never share a disk.\<close>

lemma stripe_disks_distinct:
  assumes g: "iter_geometry n k m mi y yi" and b: "0 \<le> b" "b < k" "0 \<le> b'" "b' < k"
    and eq: "(s * m + b) * y mod n = (s * m + b') * y mod n"
  shows "b = b'"
proof -
  have n: "1 < n" "k \<le> n" "y * yi mod n = 1" using g by (simp_all add: iter_geometry_def)
  define d where "d = (s * m + b) * y mod n"
  have d: "0 \<le> d" "d < n" using n(1) by (simp_all add: d_def)
  have "(s * m + b) mod n = (d * yi) mod n" "(s * m + b') mod n = (d * yi) mod n"
    using placement_disk_residue[OF n(1,3) d, of "s * m + b"]
      placement_disk_residue[OF n(1,3) d, of "s * m + b'"] eq d_def by auto
  then have "(s * m + b) mod n = (s * m + b') mod n" by simp
  then have "b mod n = b' mod n" by (simp add: mod_eq_dvd_iff)
  then show ?thesis using b n(2) by simp
qed

text \<open>A data unit of an earlier position with the same residue lies in an earlier stripe.\<close>

lemma x'_stripe:
  assumes g: "iter_geometry n k m mi y yi" and d: "0 \<le> d" "d < n"
    and s: "0 \<le> s" "s < n" and b: "0 \<le> b" "b < k" and on: "(s * m + b) * y mod n = d"
    and x': "0 \<le> x'" "x' < s * m + b" "x' mod n = (s * m + b) mod n"
  shows "stripe_at n mi yi d (x' mod m) < s \<and> stripe_at n mi yi d (x' mod m) * m + x' mod m = x'"
proof -
  have n: "1 < n" "0 < m" "m < k" "k \<le> n" "y * yi mod n = 1"
    using g by (simp_all add: iter_geometry_def)
  have "n dvd (s * m + b - x')" using x'(3) by (simp add: mod_eq_dvd_iff[symmetric])
  then have "n \<le> s * m + b - x'" using x'(2) zdvd_imp_le[of n] by auto
  then have "x' < s * m" using b(2) n(4) by linarith
  have lt: "x' div m < s"
  proof (rule ccontr)
    assume "\<not> x' div m < s"
    then have "s * m \<le> x' div m * m" using n(2) by (intro mult_right_mono) auto
    then show False using \<open>x' < s * m\<close> div_mult_mod_eq[of x' m] n(2)
      by (smt (verit) pos_mod_sign)
  qed
  have ge: "0 \<le> x' div m" using x'(1) n(2) by (simp add: pos_imp_zdiv_nonneg_iff)
  have e: "x' div m * m + x' mod m = x'" by simp
  have "(x' div m * m + x' mod m) mod n = (d * yi) mod n"
    unfolding e x'(3) using placement_disk_residue[OF n(1,5) d] on by blast
  then have "(x' div m * m + x' mod m) * y mod n = d"
    using placement_disk_residue[OF n(1,5) d] by blast
  then have "stripe_at n mi yi d (x' mod m) = x' div m"
    using stripe_at_iff[OF g ge _ d, of "x' mod m"] lt s(2) by simp
  then show ?thesis using lt e by simp
qed

text \<open>
  The data units on disk \<open>d\<close> in earlier stripes of the iteration are counted by one division.
\<close>

lemma data_units_before:
  assumes g: "iter_geometry n k m mi y yi" and d: "0 \<le> d" "d < n"
    and s: "0 \<le> s" "s < n" and b: "0 \<le> b" "b < k" and on: "(s * m + b) * y mod n = d"
  shows "card {b' \<in> {0..<m}. stripe_at n mi yi d b' < s} = nat ((s * m + b) div n)"
proof -
  let ?x = "s * m + b"
  let ?\<sigma> = "stripe_at n mi yi d"
  have n: "1 < n" "0 < m" "m < k" "k \<le> n" "y * yi mod n = 1"
    using g by (simp_all add: iter_geometry_def)
  have x0: "0 \<le> ?x" using s b n by simp
  have res: "?x mod n = (d * yi) mod n"
    using placement_disk_residue[OF n(1,5) d] on by blast
  have "bij_betw (\<lambda>b'. ?\<sigma> b' * m + b') {b' \<in> {0..<m}. ?\<sigma> b' < s} {x' \<in> {0..<?x}. x' mod n = ?x mod n}"
  proof (rule bij_betwI[where g = "\<lambda>x'. x' mod m"])
    show "(\<lambda>b'. ?\<sigma> b' * m + b') \<in> {b' \<in> {0..<m}. ?\<sigma> b' < s} \<rightarrow> {x' \<in> {0..<?x}. x' mod n = ?x mod n}"
    proof
      fix b' assume b': "b' \<in> {b' \<in> {0..<m}. ?\<sigma> b' < s}"
      then have "?\<sigma> b' + 1 \<le> s" by simp
      then have "(?\<sigma> b' + 1) * m \<le> s * m" using n(2) by (intro mult_right_mono) auto
      then have "?\<sigma> b' * m + b' < ?x" using b' b(1) by (simp add: algebra_simps)
      moreover have "0 \<le> ?\<sigma> b' * m + b'" using stripe_at_range[OF n(1)] n(2) b' by simp
      ultimately show "?\<sigma> b' * m + b' \<in> {x' \<in> {0..<?x}. x' mod n = ?x mod n}"
        using unit_residue[OF g d, of b'] res by simp
    qed
  next
    show "(\<lambda>x'. x' mod m) \<in> {x' \<in> {0..<?x}. x' mod n = ?x mod n} \<rightarrow> {b' \<in> {0..<m}. ?\<sigma> b' < s}"
    proof
      fix x' assume "x' \<in> {x' \<in> {0..<?x}. x' mod n = ?x mod n}"
      then have x': "0 \<le> x'" "x' < ?x" "x' mod n = ?x mod n" by simp_all
      note st = x'_stripe[OF g d s b on x']
      then show "x' mod m \<in> {b' \<in> {0..<m}. ?\<sigma> b' < s}" using n(2) by simp
    qed
  next
    fix b' assume "b' \<in> {b' \<in> {0..<m}. ?\<sigma> b' < s}"
    then show "(?\<sigma> b' * m + b') mod m = b'" by simp
  next
    fix x' assume "x' \<in> {x' \<in> {0..<?x}. x' mod n = ?x mod n}"
    then have x': "0 \<le> x'" "x' < ?x" "x' mod n = ?x mod n" by simp_all
    note st = x'_stripe[OF g d s b on x']
    then show "?\<sigma> (x' mod m) * m + x' mod m = x'" by simp
  qed
  then have "card {b' \<in> {0..<m}. ?\<sigma> b' < s} = card {x' \<in> {0..<?x}. x' mod n = ?x mod n}"
    by (rule bij_betw_same_card)
  also have "\<dots> = nat (?x div n)" using residue_class_count[of n ?x] n(1) x0 by simp
  finally show ?thesis .
qed

lemma shifted_units:
  "{b' \<in> {m..<k}. P b'} = (\<lambda>j. m + j) ` {j \<in> {0..<k - m}. P (m + j)}" for m k :: int
proof (intro set_eqI iffI)
  fix b assume "b \<in> {b' \<in> {m..<k}. P b'}"
  then show "b \<in> (\<lambda>j. m + j) ` {j \<in> {0..<k - m}. P (m + j)}"
    by (intro image_eqI[where x = "b - m"]) auto
qed auto

text \<open>The rank of a unit among all units of its disk, in stripe order.\<close>

lemma unit_rank:
  assumes g: "iter_geometry n k m mi y yi" and d: "0 \<le> d" "d < n"
    and s: "0 \<le> s" "s < n" and b: "0 \<le> b" "b < k" and on: "(s * m + b) * y mod n = d"
  shows "card {t \<in> stripe_at n mi yi d ` {0..<k}. t < s}
       = nat ((s * m + b) div n) + card {j \<in> {0..<k - m}. stripe_at n mi yi d (m + j) < s}"
proof -
  let ?\<sigma> = "stripe_at n mi yi d"
  have n: "0 < m" "m < k" using g by (simp_all add: iter_geometry_def)
  have "{t \<in> ?\<sigma> ` {0..<k}. t < s} = ?\<sigma> ` {b' \<in> {0..<k}. ?\<sigma> b' < s}" by auto
  then have "card {t \<in> ?\<sigma> ` {0..<k}. t < s} = card {b' \<in> {0..<k}. ?\<sigma> b' < s}"
    using card_image[OF stripe_at_inj_on[OF g d Collect_subset]] by simp
  also have "{b' \<in> {0..<k}. ?\<sigma> b' < s}
      = {b' \<in> {0..<m}. ?\<sigma> b' < s} \<union> {b' \<in> {m..<k}. ?\<sigma> b' < s}" using n by auto
  also have "card \<dots> = card {b' \<in> {0..<m}. ?\<sigma> b' < s} + card {b' \<in> {m..<k}. ?\<sigma> b' < s}"
  proof (rule card_Un_disjoint)
    show "finite {b' \<in> {0..<m}. ?\<sigma> b' < s}" by (rule finite_subset[of _ "{0..<m}"]) auto
    show "finite {b' \<in> {m..<k}. ?\<sigma> b' < s}" by (rule finite_subset[of _ "{m..<k}"]) auto
  qed auto
  also have "{b' \<in> {m..<k}. ?\<sigma> b' < s} = (\<lambda>j. m + j) ` {j \<in> {0..<k - m}. ?\<sigma> (m + j) < s}"
    by (rule shifted_units)
  also have "card \<dots> = card {j \<in> {0..<k - m}. ?\<sigma> (m + j) < s}"
    by (rule card_image) simp
  finally show ?thesis using data_units_before[OF assms] by simp
qed

end
