(* ===== verification/Prime_S_Correct.thy ===== *)
theory Prime_S_Correct
  imports Prime_S Residues
begin

text \<open>
  Correctness of the PRIME-S layout: modular inverses, the primality test, and the fact that
  \<open>id2loc\<close> and \<open>loc2id\<close> are inverse bijections for every layout of up to 181 disks, although the
  code computes with 8, 16 and 32-bit integers.
\<close>

section \<open>Modular inverses\<close>

lemma zdiv_less_iff: "0 < m \<Longrightarrow> x div m < y \<longleftrightarrow> x < y * (m :: int)"
proof -
  assume m: "0 < m"
  have e: "x = x div m * m + x mod m" "0 \<le> x mod m" "x mod m < m" using m by simp_all
  show ?thesis
  proof
    assume "x div m < y"
    then have "(x div m + 1) * m \<le> y * m" using m by (intro mult_right_mono) auto
    then have "x div m * m + m \<le> y * m" by (simp add: distrib_right)
    then show "x < y * m" using e by linarith
  next
    assume "x < y * m"
    then have "x div m * m < y * m" using e by linarith
    then show "x div m < y" using m by simp
  qed
qed

lemma sdiv_nonneg: "0 \<le> a \<Longrightarrow> 0 < b \<Longrightarrow> a sdiv b = a div (b :: int)"
  by (cases "a = 0") (simp_all add: signed_divide_int_def)

lemma smod_nonneg: "0 \<le> a \<Longrightarrow> 0 < b \<Longrightarrow> a smod b = a mod (b :: int)"
  by (cases "a = 0") (simp_all add: signed_modulo_int_def)

declare invmod_loop.simps [simp del]

lemma abs_alternate: "t * newt \<le> 0 \<Longrightarrow> 0 \<le> q \<Longrightarrow> \<bar>t - newt * q\<bar> = \<bar>t\<bar> + \<bar>newt\<bar> * (q :: int)"
proof -
  assume a: "t * newt \<le> 0" "0 \<le> q"
  then have "(t \<le> 0 \<and> 0 \<le> newt) \<or> (0 \<le> t \<and> newt \<le> 0)" by (auto simp: mult_le_0_iff)
  then show ?thesis
  proof
    assume s: "t \<le> 0 \<and> 0 \<le> newt"
    then have "0 \<le> newt * q" using a(2) by simp
    then show ?thesis using s by simp
  next
    assume s: "0 \<le> t \<and> newt \<le> 0"
    then have "newt * q \<le> 0" using a(2) by (simp add: mult_le_0_iff)
    then show ?thesis using s by simp
  qed
qed

text \<open>The invariant of the extended Euclidean loop; it bounds every intermediate value by \<open>n\<close>.\<close>

definition euclid_inv :: "int \<Rightarrow> int \<Rightarrow> int \<Rightarrow> int \<Rightarrow> int \<Rightarrow> int \<Rightarrow> bool" where
  "euclid_inv a n t r newt newr \<longleftrightarrow>
     0 \<le> newr \<and> newr < r \<and> t * newt \<le> 0 \<and> \<bar>t\<bar> * newr + \<bar>newt\<bar> * r = n \<and> 2 * \<bar>t\<bar> \<le> n \<and>
     n dvd (a * t - r) \<and> n dvd (a * newt - newr)"

lemma euclid_step:
  assumes inv: "euclid_inv a n t r newt newr" and pos: "0 < newr"
    and q: "q = r div newr"
  shows "euclid_inv a n newt newr (t - newt * q) (r - newr * q)"
    and "\<bar>t - newt * q\<bar> \<le> n"
proof -
  note i = inv[unfolded euclid_inv_def]
  have q0: "0 \<le> q" using i pos q by (simp add: pos_imp_zdiv_nonneg_iff)
  have rem: "r - newr * q = r mod newr" using q by (simp add: minus_mult_div_eq_mod)
  then have rr: "0 \<le> r - newr * q" "r - newr * q < newr" using pos by simp_all
  have ab: "\<bar>t - newt * q\<bar> = \<bar>t\<bar> + \<bar>newt\<bar> * q" using abs_alternate i q0 by blast
  have sum: "\<bar>newt\<bar> * (r - newr * q) + \<bar>t - newt * q\<bar> * newr = n"
    using i unfolding ab by (simp add: algebra_simps)
  have sgn: "newt * (t - newt * q) \<le> 0"
  proof -
    have "0 \<le> newt * newt * q" using q0 by simp
    then show ?thesis using i by (simp add: algebra_simps)
  qed
  have two: "2 * \<bar>newt\<bar> \<le> n"
  proof -
    have "0 \<le> \<bar>t\<bar> * newr" using pos by simp
    then have "\<bar>newt\<bar> * r \<le> n" using i by linarith
    moreover have "\<bar>newt\<bar> * 2 \<le> \<bar>newt\<bar> * r" using i pos by (intro mult_left_mono) auto
    ultimately show ?thesis by simp
  qed
  have "n dvd (a * (t - newt * q) - (r - newr * q))"
  proof -
    have "a * (t - newt * q) - (r - newr * q) = (a * t - r) - q * (a * newt - newr)"
      by (simp add: algebra_simps)
    then show ?thesis using i by (metis dvd_diff dvd_mult)
  qed
  then show "euclid_inv a n newt newr (t - newt * q) (r - newr * q)"
    unfolding euclid_inv_def using rr sum sgn two i by blast
  have "\<bar>t - newt * q\<bar> * 1 \<le> \<bar>t - newt * q\<bar> * newr" using pos by (intro mult_left_mono) auto
  also have "\<dots> \<le> \<bar>newt\<bar> * (r - newr * q) + \<bar>t - newt * q\<bar> * newr" using rr by simp
  finally show "\<bar>t - newt * q\<bar> \<le> n" unfolding sum by simp
qed

lemma invmod_loop_result:
  assumes "euclid_inv a n t r newt newr" "n \<le> 32767" "r \<le> 32767"
  shows "\<exists>t' r'. invmod_loop t r newt newr = (t', r') \<and> r' = gcd r newr \<and>
     n dvd (a * t' - r') \<and> 2 * \<bar>t'\<bar> \<le> n"
  using assms
proof (induction t r newt newr rule: invmod_loop.induct)
  case (1 t r newt newr)
  note i = "1.prems"(1)[unfolded euclid_inv_def]
  show ?case
  proof (cases "0 < newr")
    case False
    then have z: "newr = 0" using i by simp
    have "invmod_loop t r newt newr = (t, r)" using False by (simp add: invmod_loop.simps)
    moreover have "r = gcd r newr" using i z by simp
    ultimately show ?thesis using i by blast
  next
    case True
    define q where "q = r div newr"
    have sd: "r sdiv newr = q" using True i by (simp add: sdiv_nonneg q_def)
    note st = euclid_step[OF "1.prems"(1) True q_def]
    have rem: "r - newr * q = r mod newr" using q_def by (simp add: minus_mult_div_eq_mod)
    have rr: "0 \<le> r mod newr" "r mod newr < newr" using True by simp_all
    have w1: "i16 (t - newt * q) = t - newt * q" using st(2) "1.prems"(2) by (intro i16_id) linarith+
    have w2: "i16 (r - newr * q) = r - newr * q"
      using rr rem i "1.prems"(3) by (intro i16_id) linarith+
    have un: "invmod_loop t r newt newr = invmod_loop newt newr (t - newt * q) (r - newr * q)"
      using True w1 w2 sd by (simp add: invmod_loop.simps[of t r newt newr] Let_def)
    have le: "newr \<le> 32767" using i "1.prems"(3) by linarith
    have g: "gcd r newr = gcd newr (r - newr * q)"
      unfolding rem by (simp add: gcd_red_int[of r newr])
    show ?thesis
      using "1.IH"[OF True refl] st(1) "1.prems"(2) le unfolding un g sd w1 w2 by blast
  qed
qed

lemma invmod_correct:
  assumes "1 < n" "n \<le> 32767" "0 < a" "a < n" "coprime a n"
  shows "0 \<le> invmod a n" "invmod a n < n" "a * invmod a n mod n = 1"
proof -
  have "euclid_inv a n 0 n 1 a" using assms by (simp add: euclid_inv_def)
  then obtain t where t: "fst (invmod_loop 0 n 1 a) = t" "n dvd (a * t - 1)" "2 * \<bar>t\<bar> \<le> n"
    using invmod_loop_result[of a n 0 n 1 a] assms
    by (auto simp: gcd.commute coprime_iff_gcd_eq_1)
  have w: "t < 0 \<Longrightarrow> i16 (t + n) = t + n"
    using t(3) assms(1,2) by (intro i16_id) linarith+
  have im: "invmod a n = (if t < 0 then t + n else t)"
    using w by (simp add: invmod_def t(1) Let_def)
  have "t \<noteq> 0" using t(2) assms(1) by auto
  then show "0 \<le> invmod a n" "invmod a n < n" using im t(3) assms(1) by (auto split: if_splits)
  have "n dvd (a * invmod a n - 1)"
  proof (cases "t < 0")
    case True
    have "a * (t + n) - 1 = (a * t - 1) + n * a" by (simp add: algebra_simps)
    then show ?thesis using True im t(2) by (metis dvd_add dvd_triv_left)
  next
    case False
    then show ?thesis using im t(2) by simp
  qed
  then have "a * invmod a n mod n = 1 mod n" by (simp add: mod_eq_dvd_iff)
  then show "a * invmod a n mod n = 1" using assms(1) by simp
qed

section \<open>The primality test\<close>

lemma smod_eq_0_iff: "0 < i \<Longrightarrow> 0 < n \<Longrightarrow> n smod i = 0 \<longleftrightarrow> i dvd (n :: int)"
  by (simp add: smod_nonneg dvd_eq_mod_eq_0)

lemma no_divisor_step:
  fixes n i :: int
  assumes "\<And>d. 1 < d \<Longrightarrow> d < i \<Longrightarrow> \<not> d dvd n" "i mod 6 = 5" "\<not> 2 dvd n" "\<not> 3 dvd n"
    "\<not> i dvd n" "\<not> (i + 2) dvd n" "1 < d" "d < i + 6"
  shows "\<not> d dvd n"
proof
  assume dn: "d dvd n"
  then have "i \<le> d" using assms(1,7) by force
  then consider "d = i" | "d = i + 1" | "d = i + 2" | "d = i + 3" | "d = i + 4" | "d = i + 5"
    using assms(8) by fastforce
  then show False
  proof cases
    case 2
    have "2 dvd (i + 1)" using assms(2) by presburger
    then show False using assms(3) dn 2 dvd_trans by blast
  next
    case 4
    have "2 dvd (i + 3)" using assms(2) by presburger
    then show False using assms(3) dn 4 dvd_trans by blast
  next
    case 5
    have "3 dvd (i + 4)" using assms(2) by presburger
    then show False using assms(4) dn 5 dvd_trans by blast
  next
    case 6
    have "2 dvd (i + 5)" using assms(2) by presburger
    then show False using assms(3) dn 6 dvd_trans by blast
  qed (use assms dn in auto)
qed

lemma is_prime_loop_correct:
  assumes "3 < n" "n < 32041" "5 \<le> i" "i \<le> 179" "i mod 6 = 5" "i * i \<le> n \<or> n < i * i"
    "\<And>d. 1 < d \<Longrightarrow> d < i \<Longrightarrow> \<not> d dvd n" "\<not> 2 dvd n" "\<not> 3 dvd n"
  shows "is_prime_loop n i = Some (prime_int n)"
  using assms
proof (induction "nat (179 - i)" arbitrary: i rule: less_induct)
  case less
  have "i * i \<le> 179 * 179" using less.prems by (intro mult_mono) auto
  moreover have "0 \<le> i * i" by simp
  ultimately have w: "i16 (i * i) = i * i" by (intro i16_id) linarith+
  have w2: "i16 (i + 2) = i + 2" "i16 (i + 6) = i + 6" using less.prems by (intro i16_id; linarith)+
  show ?case
  proof (cases "i * i \<le> n")
    case False
    then have "prime_int n" using less.prems by (intro prime_int_sqrt[of n i]) auto
    then show ?thesis using False w by (simp add: is_prime_loop.simps[of n i])
  next
    case True
    have lt: "i < 179"
      using True less.prems mult_mono[of 179 i 179 i] by (cases "i = 179") auto
    show ?thesis
    proof (cases "i dvd n \<or> (i + 2) dvd n")
      case True2: True
      have "i < n" "i + 2 < n"
        using True less.prems mult_right_mono[of 5 i i] by linarith+
      then have "\<not> prime_int n" using True2 less.prems unfolding prime_int_def by fastforce
      then show ?thesis
        using True True2 w w2 less.prems
        by (auto simp: is_prime_loop.simps[of n i] smod_eq_0_iff)
    next
      case False2: False
      have i6: "i + 6 \<le> 179"
      proof -
        have "i \<noteq> 174" "i \<noteq> 175" "i \<noteq> 176" "i \<noteq> 177" "i \<noteq> 178" using less.prems(5) by auto
        then show ?thesis using lt by linarith
      qed
      have "is_prime_loop n (i + 6) = Some (prime_int n)"
      proof (rule less.hyps)
        show "nat (179 - (i + 6)) < nat (179 - i)" using lt by simp
        show "(i + 6) mod 6 = 5" using less.prems(5) by simp
        fix d assume "1 < d" "d < i + 6"
        then show "\<not> d dvd n" using no_divisor_step[of i n d] less.prems False2 by blast
      qed (use less.prems i6 in auto)
      then show ?thesis
        using True False2 w w2 less.prems by (simp add: is_prime_loop.simps[of n i] smod_eq_0_iff)
    qed
  qed
qed

lemma is_prime_correct:
  assumes "n < 32041" shows "is_prime n = Some (prime_int n)"
proof -
  consider "n \<le> 1" | "n = 2" | "n = 3" | "3 < n" "2 dvd n \<or> 3 dvd n" | "3 < n" "\<not> 2 dvd n" "\<not> 3 dvd n"
    by fastforce
  then show ?thesis
  proof cases
    case 1
    then show ?thesis by (simp add: is_prime_def prime_int_def)
  next
    case 2
    then show ?thesis by (auto simp: is_prime_def prime_int_def)
  next
    case 3
    have "\<not> d dvd 3" if "1 < d" "d < 3" for d :: int
    proof -
      have "d = 2" using that by simp
      then show ?thesis by simp
    qed
    then show ?thesis using 3 by (auto simp: is_prime_def prime_int_def)
  next
    case 4
    then have "\<not> prime_int n" unfolding prime_int_def by fastforce
    then show ?thesis using 4 by (auto simp: is_prime_def smod_eq_0_iff)
  next
    case 5
    have "\<not> d dvd n" if "1 < d" "d < 5" for d
    proof -
      have "d = 2 \<or> d = 3 \<or> d = 4" using that by auto
      then show ?thesis using 5 by (auto dest: dvd_trans[of 2 4 n])
    qed
    then have "is_prime_loop n 5 = Some (prime_int n)"
      using 5 assms by (intro is_prime_loop_correct) auto
    then show ?thesis using 5 by (simp add: is_prime_def smod_eq_0_iff)
  qed
qed

section \<open>Well-formed layouts\<close>

text \<open>What the constructor establishes for up to 181 disks.\<close>

definition primes_ok :: "PrimeS \<Rightarrow> bool" where
  "primes_ok p \<longleftrightarrow>
     prime_int (ps_n p) \<and> ps_n p \<le> 181 \<and> 0 < ps_f p \<and> ps_f p < ps_k p \<and> ps_k p \<le> ps_n p \<and>
     ps_m p = ps_k p - ps_f p \<and>
     0 \<le> ps_m_inv p \<and> ps_m_inv p < ps_n p \<and> ps_m p * ps_m_inv p mod ps_n p = 1 \<and>
     ps_datachunks p = ps_n p * (ps_n p - 1) * ps_m p \<and>
     ps_stripes p = ps_n p * (ps_n p - 1) \<and>
     ps_depth p = ps_k p * (ps_n p - 1)"

lemma mult_mono_181: "0 \<le> a \<Longrightarrow> a \<le> 181 \<Longrightarrow> 0 \<le> b \<Longrightarrow> b \<le> B \<Longrightarrow> a * b \<le> 181 * (B :: int)"
  by (intro mult_mono) auto

lemma primes_new_ok:
  assumes new: "primes_new n k f = Some p" and n: "n \<le> 181"
  shows "primes_ok p" "ps_n p = n" "ps_k p = k" "ps_f p = f"
proof -
  have ip: "is_prime n = Some (prime_int n)" using n by (simp add: is_prime_correct)
  have a: "prime_int n" "1 < k" "k \<le> n" "0 < f" "f < k"
    using new by (auto simp: primes_new_def ip bind_eq_Some_conv Let_def)
  have n1: "1 < n" using a(1) by (simp add: prime_int_def)
  have w: "wrapi 8 n = n" "wrapi 8 k = k" "wrapi 8 f = f" "wrapi 8 (k - f) = k - f" "wrapi 16 n = n"
    using a n n1 by (simp_all add: wrapi_def)
  have cop: "coprime (k - f) n" using prime_int_coprime[OF a(1), of "k - f"] a by simp
  note im = invmod_correct[OF n1 _ _ _ cop]
  have inv: "0 \<le> invmod (k - f) n" "invmod (k - f) n < n" "(k - f) * invmod (k - f) n mod n = 1"
    using im n a by simp_all
  have wi: "wrapi 8 (invmod (k - f) n) = invmod (k - f) n" using inv n by (simp add: wrapi_def)
  have nn: "0 \<le> n * (n - 1)" "n * (n - 1) \<le> 181 * 180"
    using n n1 mult_mono_181[of n "n - 1" 180] by auto
  have ws: "wrapi 16 (n * (n - 1)) = n * (n - 1)" using nn by (simp add: wrapi_def)
  have "n * (n - 1) * (k - f) \<le> 181 * 180 * 181" using nn a n by (intro mult_mono) auto
  moreover have "0 \<le> n * (n - 1) * (k - f)" using nn(1) a by (intro mult_nonneg_nonneg) auto
  ultimately have wd: "i32 (n * (n - 1) * (k - f)) = n * (n - 1) * (k - f)" by (intro i32_id) linarith+
  have "k * (n - 1) \<le> 181 * 180" using n n1 a mult_mono_181[of k "n - 1" 180] by simp
  moreover have "0 \<le> k * (n - 1)" using n1 a by simp
  ultimately have wk: "i16 (k * (n - 1)) = k * (n - 1)" by (intro i16_id) linarith+
  have p: "p = \<lparr>ps_n = n, ps_k = k, ps_m = k - f, ps_m_inv = invmod (k - f) n, ps_f = f,
           ps_datachunks = n * (n - 1) * (k - f), ps_stripes = n * (n - 1), ps_depth = k * (n - 1)\<rparr>"
    using new n a by (simp add: primes_new_def ip Let_def w wi ws wd wk)
  show "primes_ok p" "ps_n p = n" "ps_k p = k" "ps_f p = f"
    using p a n inv by (simp_all add: primes_ok_def)
qed

lemma primes_new_total:
  assumes "prime_int n" "n \<le> 215" "1 < k" "k \<le> n" "0 < f" "f < k"
  shows "\<exists>p. primes_new n k f = Some p"
  using assms is_prime_correct[of n] by (simp add: primes_new_def Let_def)

text \<open>Bounds that hold in every well-formed layout.\<close>

lemma primes_ok_bounds:
  assumes "primes_ok p"
  shows "1 < ps_n p" "0 < ps_m p" "ps_m p < ps_k p" "ps_k p \<le> ps_n p" "ps_n p \<le> 181"
    "0 < ps_f p" "ps_m p + ps_f p = ps_k p" "0 \<le> ps_m_inv p" "ps_m_inv p < ps_n p"
    "0 < ps_datachunks p" "ps_datachunks p \<le> 5929560" "0 < ps_depth p" "ps_depth p \<le> 32580"
    "ps_depth p \<le> ps_datachunks p"
proof -
  note i = assms[unfolded primes_ok_def prime_int_def]
  show b: "1 < ps_n p" "0 < ps_m p" "ps_m p < ps_k p" "ps_k p \<le> ps_n p" "ps_n p \<le> 181"
    "0 < ps_f p" "ps_m p + ps_f p = ps_k p" "0 \<le> ps_m_inv p" "ps_m_inv p < ps_n p"
    using i by simp_all
  have nn: "0 < ps_n p * (ps_n p - 1)" "ps_n p * (ps_n p - 1) \<le> 181 * 180"
    using b mult_mono_181[of "ps_n p" "ps_n p - 1" 180] by auto
  have dc: "ps_datachunks p = ps_n p * (ps_n p - 1) * ps_m p" using i by simp
  show "0 < ps_datachunks p" unfolding dc using nn(1) b by simp
  have "ps_n p * (ps_n p - 1) * ps_m p \<le> 181 * 180 * 182" using nn b by (intro mult_mono) auto
  then show "ps_datachunks p \<le> 5929560" unfolding dc by simp
  have dep: "ps_depth p = ps_k p * (ps_n p - 1)" using i by simp
  show "0 < ps_depth p" unfolding dep using b by simp
  have "ps_k p * (ps_n p - 1) \<le> 181 * 180" using b by (intro mult_mono) auto
  then show "ps_depth p \<le> 32580" unfolding dep by simp
  have "ps_k p * (ps_n p - 1) * 1 \<le> ps_n p * (ps_n p - 1) * ps_m p" using b by (intro mult_mono) auto
  then show "ps_depth p \<le> ps_datachunks p" unfolding dep dc by simp
qed

section \<open>The stripe and the unit of a chunk\<close>

definition primes_stripe :: "PrimeS \<Rightarrow> ChunkId \<Rightarrow> int" where
  "primes_stripe p c = int (chunk_address c) mod ps_datachunks p div ps_m p"

definition primes_rep :: "PrimeS \<Rightarrow> ChunkId \<Rightarrow> int" where
  "primes_rep p c = int (chunk_address c) div ps_datachunks p"

fun primes_unit :: "PrimeS \<Rightarrow> ChunkId \<Rightarrow> int" where
  "primes_unit p (Data i) = int i mod ps_datachunks p mod ps_m p"
| "primes_unit p (Parity _ j) = ps_m p + j"

fun primes_valid_id :: "PrimeS \<Rightarrow> ChunkId \<Rightarrow> bool" where
  "primes_valid_id p (Data i) \<longleftrightarrow> i < 2 ^ 63"
| "primes_valid_id p (Parity i j) \<longleftrightarrow> i < 2 ^ 63 \<and> ps_m p dvd int i \<and> 0 \<le> j \<and> j < ps_f p"

lemma valid_id_address: "primes_valid_id p c \<Longrightarrow> chunk_address c < 2 ^ 63"
  by (cases c) simp_all

lemma primes_stripe_bounds:
  assumes "primes_ok p"
  shows "0 \<le> primes_stripe p c" "primes_stripe p c < ps_n p * (ps_n p - 1)"
    "0 \<le> primes_stripe p c div ps_n p" "primes_stripe p c div ps_n p < ps_n p - 1"
    "primes_stripe p c \<le> 32579"
proof -
  note b = primes_ok_bounds[OF assms]
  have A: "0 \<le> int (chunk_address c) mod ps_datachunks p"
    "int (chunk_address c) mod ps_datachunks p < ps_n p * (ps_n p - 1) * ps_m p"
    using b assms by (simp_all add: primes_ok_def)
  show s0: "0 \<le> primes_stripe p c"
    unfolding primes_stripe_def using A b by (simp add: pos_imp_zdiv_nonneg_iff)
  show s1: "primes_stripe p c < ps_n p * (ps_n p - 1)"
    unfolding primes_stripe_def using A(2) b(2) by (simp add: zdiv_less_iff)
  show "0 \<le> primes_stripe p c div ps_n p" using s0 b by (simp add: pos_imp_zdiv_nonneg_iff)
  show "primes_stripe p c div ps_n p < ps_n p - 1"
    using s1 b by (simp add: zdiv_less_iff mult.commute)
  have "ps_n p * (ps_n p - 1) \<le> 181 * 180"
    using b mult_mono_181[of "ps_n p" "ps_n p - 1" 180] by auto
  then show "primes_stripe p c \<le> 32579" using s1 by linarith
qed

lemma primes_unit_bounds:
  assumes "primes_ok p" "primes_valid_id p c"
  shows "0 \<le> primes_unit p c" "primes_unit p c < ps_k p"
  using primes_ok_bounds[OF assms(1)] assms(2)
  by (cases c; auto simp: less_trans[OF pos_mod_bound])+

lemma wrapi_i32_low:
  assumes "x mod 256 = b" "0 \<le> b" "b < 256" shows "wrapi 8 (i32 x) = b"
proof -
  have "i32 x mod 2 ^ 8 = (i32 x mod 2 ^ 32) mod 2 ^ 8" by (simp add: mod_mod_cancel)
  also have "\<dots> = (x mod 2 ^ 32) mod 2 ^ 8" unfolding wraps_mod ..
  also have "\<dots> = x mod 2 ^ 8" by (simp add: mod_mod_cancel)
  finally show ?thesis using assms by (simp add: wrapi_def)
qed

text \<open>
  The 16-bit product of \<open>offset_within_stripe\<close> can wrap, but the cast of the difference to \<open>u8\<close>
  gives the right unit all the same.
\<close>

lemma offset_within_stripe_eq:
  assumes ok: "primes_ok p" and v: "primes_valid_id p c"
  shows "offset_within_stripe c (int (chunk_address c) mod ps_datachunks p) (primes_stripe p c) (ps_m p)
       = primes_unit p c"
proof (cases c)
  case (Data i)
  note b = primes_ok_bounds[OF ok] primes_unit_bounds[OF ok v]
  let ?A = "int i mod ps_datachunks p"
  let ?sm = "primes_stripe p c * ps_m p"
  have unit: "?A - ?sm = primes_unit p c"
    using Data by (simp add: primes_stripe_def minus_div_mult_eq_mod)
  have "i16 ?sm mod 256 = (i16 ?sm mod 2 ^ 16) mod 256" by (simp add: mod_mod_cancel)
  also have "\<dots> = (?sm mod 2 ^ 16) mod 256" unfolding wraps_mod ..
  also have "\<dots> = ?sm mod 256" by (simp add: mod_mod_cancel)
  finally have "(?A - i16 ?sm) mod 256 = (?A - ?sm) mod 256" by (metis mod_diff_right_eq)
  then have "(?A - i16 ?sm) mod 256 = primes_unit p c" unfolding unit using b by simp
  then show ?thesis using Data b wrapi_i32_low[of "?A - i16 ?sm" "primes_unit p c"] by simp
next
  case (Parity i j)
  note b = primes_ok_bounds[OF ok]
  have "0 \<le> ps_m p + j" "ps_m p + j < 256" using Parity v b by simp_all
  then have "wrapi 8 (i32 (ps_m p + j)) = ps_m p + j" by (intro wrapi_i32_low) auto
  then show ?thesis using Parity by simp
qed

lemma id2loc_int_eq:
  assumes ok: "primes_ok p"
  shows "id2loc_int p c = \<lparr>ci_a = int (chunk_address c) mod ps_datachunks p, ci_r = primes_rep p c,
     ci_s = primes_stripe p c, ci_y = primes_stripe p c div ps_n p + 1,
     ci_z = primes_stripe p c div ps_n p\<rparr>"
proof -
  note b = primes_ok_bounds[OF ok]
  note sb = primes_stripe_bounds[OF ok, of c]
  let ?A = "int (chunk_address c) mod ps_datachunks p"
  have A: "0 \<le> ?A" "?A < ps_datachunks p" using b by simp_all
  have wA: "i32 ?A = ?A" using A b by (intro i32_id) linarith+
  have dc: "wrapi 64 (ps_datachunks p) = ps_datachunks p" using b by (intro wrapi_id) auto
  have "ps_m p * ps_n p \<le> 181 * 181" using b by (intro mult_mono) auto
  moreover have mn: "0 < ps_m p * ps_n p" using b by simp
  ultimately have wmn: "i32 (ps_m p * ps_n p) = ps_m p * ps_n p" by (intro i32_id) linarith+
  have z: "?A sdiv (ps_m p * ps_n p) = primes_stripe p c div ps_n p"
    using A mn b by (simp add: sdiv_nonneg primes_stripe_def zdiv_zmult2_eq)
  have wz: "i16 (primes_stripe p c div ps_n p) = primes_stripe p c div ps_n p"
    using sb b by (intro i16_id) linarith+
  have s: "?A sdiv ps_m p = primes_stripe p c" using A b by (simp add: sdiv_nonneg primes_stripe_def)
  have ws: "i16 (primes_stripe p c) = primes_stripe p c" using sb by (intro i16_id) linarith+
  have wn: "wrapi 8 (ps_n p - 1) = ps_n p - 1" using b by (intro wrapi_id) auto
  have zm: "primes_stripe p c div ps_n p mod (ps_n p - 1) = primes_stripe p c div ps_n p"
    using sb by simp
  have wy: "i16 (primes_stripe p c div ps_n p + 1) = primes_stripe p c div ps_n p + 1"
    using sb b by (intro i16_id) linarith+
  show ?thesis
    by (simp add: id2loc_int_def id2rep_and_iter_def Let_def dc wA wmn z wz s ws wn zm wy primes_rep_def)
qed

section \<open>The location of a chunk\<close>

text \<open>The inverse of the stride of iteration \<open>z\<close>, and the geometry of that iteration.\<close>

definition stride_inv :: "PrimeS \<Rightarrow> int \<Rightarrow> int" where
  "stride_inv p z = invmod (z + 1) (ps_n p)"

lemma stride_geometry:
  assumes ok: "primes_ok p" and z: "0 \<le> z" "z < ps_n p - 1"
  shows "iter_geometry (ps_n p) (ps_k p) (ps_m p) (ps_m_inv p) (z + 1) (stride_inv p z)"
    and "0 \<le> stride_inv p z" "stride_inv p z < ps_n p"
proof -
  note b = primes_ok_bounds[OF ok]
  have pr: "prime_int (ps_n p)" using ok by (simp add: primes_ok_def)
  have cop: "coprime (z + 1) (ps_n p)" using prime_int_coprime[OF pr, of "z + 1"] z by simp
  have i: "0 \<le> stride_inv p z" "stride_inv p z < ps_n p" "(z + 1) * stride_inv p z mod ps_n p = 1"
    using invmod_correct[of "ps_n p" "z + 1"] cop b z by (simp_all add: stride_inv_def)
  then show "0 \<le> stride_inv p z" "stride_inv p z < ps_n p" by simp_all
  show "iter_geometry (ps_n p) (ps_k p) (ps_m p) (ps_m_inv p) (z + 1) (stride_inv p z)"
    using i(3) b ok by (simp add: iter_geometry_def primes_ok_def)
qed

abbreviation ps_stripe_at :: "PrimeS \<Rightarrow> int \<Rightarrow> int \<Rightarrow> int \<Rightarrow> int" where
  "ps_stripe_at p z d b \<equiv> stripe_at (ps_n p) (ps_m_inv p) (stride_inv p z) d b"

text \<open>The products of the placement formulas fit into 32 bits.\<close>

lemma placement_i32:
  assumes ok: "primes_ok p" and yi: "0 \<le> yi" "yi < ps_n p" and d: "0 \<le> d" "d < ps_n p"
    and j: "0 \<le> j" "j < ps_k p" and e: "0 \<le> e" "e \<le> 1"
  shows "i32 ((d * yi - j) * ps_m_inv p - e) = (d * yi - j) * ps_m_inv p - e"
proof -
  note b = primes_ok_bounds[OF ok]
  have "d * yi \<le> 181 * 181" using d yi b by (intro mult_mono) auto
  moreover have "0 \<le> d * yi" using d yi by simp
  ultimately have x: "- 181 \<le> d * yi - j" "d * yi - j \<le> 32761" using j b by linarith+
  have "(d * yi - j) * ps_m_inv p \<le> 32761 * ps_m_inv p" using x b by (intro mult_right_mono) auto
  moreover have "- 181 * ps_m_inv p \<le> (d * yi - j) * ps_m_inv p" using x b by (intro mult_right_mono) auto
  ultimately show ?thesis using b e by (intro i32_id) linarith+
qed

lemma cb_stripe_eq:
  assumes ok: "primes_ok p" and z: "0 \<le> z" "z < ps_n p - 1" and d: "0 \<le> d" "d < ps_n p"
    and j: "0 \<le> j" "j < ps_f p"
  shows "cb_stripe p d (stride_inv p z) j = ps_stripe_at p z d (ps_m p + j)"
proof -
  note b = primes_ok_bounds[OF ok]
  let ?yi = "stride_inv p z"
  have w: "i32 ((d * ?yi - j) * ps_m_inv p - 1) = (d * ?yi - j) * ps_m_inv p - 1"
    using placement_i32[OF ok stride_geometry(2,3)[OF ok z] d, of j 1] j b by simp
  have one: "ps_m p * ps_m_inv p mod ps_n p = 1 mod ps_n p" using ok b by (simp add: primes_ok_def)
  have "((d * ?yi - j) * ps_m_inv p - 1) mod ps_n p
      = ((d * ?yi - j) * ps_m_inv p - ps_m p * ps_m_inv p) mod ps_n p"
    using one by (metis mod_diff_right_eq)
  also have "(d * ?yi - j) * ps_m_inv p - ps_m p * ps_m_inv p = (d * ?yi - (ps_m p + j)) * ps_m_inv p"
    by (simp add: algebra_simps)
  finally show ?thesis by (simp add: cb_stripe_def w stripe_at_def)
qed

lemma fold_count:
  assumes "0 \<le> acc" "acc + int (length xs) \<le> 2147483647"
  shows "fold (\<lambda>j acc. i32 ((if P j then 1 else 0) + acc)) xs acc = acc + int (length (filter P xs))"
  using assms
proof (induction xs arbitrary: acc)
  case (Cons x xs)
  have "i32 ((if P x then 1 else 0) + acc) = (if P x then 1 else 0) + acc"
    using Cons.prems by (intro i32_id) auto
  then show ?case using Cons by auto
qed simp

lemma card_filter_upto: "length (filter P [0..f - 1]) = card {j \<in> {0..<f}. P j}" for f :: int
proof -
  have "length (filter P [0..f - 1]) = card (set (filter P [0..f - 1]))"
    by (rule distinct_card[symmetric]) simp
  moreover have "set (filter P [0..f - 1]) = {j \<in> {0..<f}. P j}" by auto
  ultimately show ?thesis by simp
qed

text \<open>The rank of a stripe among the stripes of its iteration that use disk \<open>d\<close>.\<close>

definition disk_rank :: "PrimeS \<Rightarrow> int \<Rightarrow> int \<Rightarrow> int \<Rightarrow> nat" where
  "disk_rank p z d t = card {t' \<in> ps_stripe_at p z d ` {0..<ps_k p}. t' < t}"

lemma offset_within_iteration_eq:
  assumes ok: "primes_ok p" and s: "0 \<le> s" "s < ps_n p * (ps_n p - 1)" "s \<le> 32579"
    and b: "0 \<le> b" "b < ps_k p"
    and cli: "ci_s cli = s" "ci_y cli = s div ps_n p + 1" "ci_z cli = s div ps_n p"
    and d: "d = (s * ps_m p + b) * (s div ps_n p + 1) mod ps_n p"
  shows "offset_within_iteration p cli b d
       = s div ps_n p * ps_k p + int (disk_rank p (s div ps_n p) d (s mod ps_n p))"
proof -
  note pb = primes_ok_bounds[OF ok]
  define z where "z = s div ps_n p"
  define t where "t = s mod ps_n p"
  have st: "s = z * ps_n p + t" "0 \<le> t" "t < ps_n p" using pb by (simp_all add: z_def t_def)
  have z: "0 \<le> z" "z < ps_n p - 1"
    using s pb by (simp_all add: z_def pos_imp_zdiv_nonneg_iff zdiv_less_iff mult.commute)
  have dr: "0 \<le> d" "d < ps_n p" using d pb by simp_all
  note g = stride_geometry[OF ok z]
  have "(s * ps_m p + b) * (z + 1) = (t * ps_m p + b) * (z + 1) + ps_n p * (z * ps_m p * (z + 1))"
    unfolding st(1) by (simp add: algebra_simps)
  then have on: "(t * ps_m p + b) * (z + 1) mod ps_n p = d"
    using d unfolding z_def[symmetric] by simp
  note rk = unit_rank[OF g(1) dr st(2,3) b on]
  have "s * ps_m p \<le> 32579 * 181" by (rule mult_mono) (use s pb in auto)
  moreover have "0 \<le> s * ps_m p" using s pb by simp
  ultimately have smb: "0 \<le> s * ps_m p" "s * ps_m p \<le> 32579 * 181" by simp_all
  have w0: "i32 (s * ps_m p + b) = s * ps_m p + b" using smb b pb by (intro i32_id) linarith+
  have dv: "(s * ps_m p + b) div ps_n p = z * ps_m p + (t * ps_m p + b) div ps_n p"
  proof -
    have e: "s * ps_m p + b = t * ps_m p + b + (z * ps_m p) * ps_n p"
      unfolding st(1) by (simp add: algebra_simps)
    have "ps_n p \<noteq> 0" using pb by simp
    then show ?thesis unfolding e by (rule div_mult_self1)
  qed
  have q0: "0 \<le> (t * ps_m p + b) div ps_n p" using st b pb by (simp add: pos_imp_zdiv_nonneg_iff)
  have o0: "i32 (s * ps_m p + b) sdiv ps_n p = z * ps_m p + (t * ps_m p + b) div ps_n p"
    unfolding w0 using smb b pb dv by (simp add: sdiv_nonneg)
  have "ps_f p * z \<le> 181 * 181" by (rule mult_mono) (use z pb in auto)
  moreover have "0 \<le> ps_f p * z" using z pb by simp
  ultimately have fz: "0 \<le> ps_f p * z" "ps_f p * z \<le> 181 * 181" by simp_all
  have o1: "i32 (ps_f p * z) = ps_f p * z" using fz by (intro i32_id) linarith+
  let ?P = "\<lambda>j. t > ps_stripe_at p z d (ps_m p + j)"
  have "fold (\<lambda>j acc. i32 ((if t > cb_stripe p d (stride_inv p z) j then 1 else 0) + acc)) [0..ps_f p - 1] 0
      = fold (\<lambda>j acc. i32 ((if ?P j then 1 else 0) + acc)) [0..ps_f p - 1] 0"
    using cb_stripe_eq[OF ok z dr] by (intro fold_cong) auto
  also have "\<dots> = int (card {j \<in> {0..<ps_f p}. ?P j})"
    using fold_count[of 0 "[0..ps_f p - 1]" ?P] pb card_filter_upto[of ?P "ps_f p"] by simp
  finally have o2: "fold (\<lambda>j acc. i32 ((if t > cb_stripe p d (stride_inv p z) j then 1 else 0) + acc))
      [0..ps_f p - 1] 0 = int (card {j \<in> {0..<ps_f p}. ?P j})" .
  have km: "ps_k p - ps_m p = ps_f p" using pb by linarith
  have R: "int (disk_rank p z d t)
      = (t * ps_m p + b) div ps_n p + int (card {j \<in> {0..<ps_f p}. ?P j})"
    unfolding disk_rank_def rk km using q0 by simp
  have sum: "z * ps_m p + (t * ps_m p + b) div ps_n p + ps_f p * z + int (card {j \<in> {0..<ps_f p}. ?P j})
      = z * ps_k p + int (disk_rank p z d t)"
    unfolding R using km by (simp add: algebra_simps)
  have "disk_rank p z d t \<le> card (ps_stripe_at p z d ` {0..<ps_k p})"
    unfolding disk_rank_def by (intro card_mono) auto
  also have "\<dots> \<le> card {0..<ps_k p}" by (rule card_image_le) simp
  finally have "int (disk_rank p z d t) \<le> ps_k p" using pb by simp
  moreover have "z * ps_k p \<le> 181 * 181" by (rule mult_mono) (use z pb in auto)
  moreover have "0 \<le> z * ps_k p" using z pb by simp
  ultimately have w: "i32 (z * ps_k p + int (disk_rank p z d t)) = z * ps_k p + int (disk_rank p z d t)"
    using pb by (intro i32_id) linarith+
  show ?thesis
    unfolding offset_within_iteration_def Let_def cli
      stride_inv_def[symmetric] z_def[symmetric] t_def[symmetric] o0 o1 o2 sum w ..
qed

end
