(* ===== verification/Prime_S_Layout.thy ===== *)
theory Prime_S_Layout
  imports Prime_S_Correct
begin

text \<open>
  The PRIME-S layout as a bijection: closed forms of \<open>id2loc\<close> and \<open>loc2id\<close> in terms of the
  repetition, stripe and unit of a chunk, the two round trips, and the interpretation of the
  \<open>Locator\<close> contract.
\<close>

section \<open>Chunks by repetition, stripe and unit\<close>

definition chunk_of :: "PrimeS \<Rightarrow> int \<Rightarrow> int \<Rightarrow> int \<Rightarrow> ChunkId" where
  "chunk_of p r s b =
     (if b < ps_m p then Data (nat (r * ps_datachunks p + s * ps_m p + b))
      else Parity (nat (r * ps_datachunks p + s * ps_m p)) (b - ps_m p))"

lemma m_dvd_datachunks: "primes_ok p \<Longrightarrow> ps_m p dvd ps_datachunks p"
  by (simp add: primes_ok_def)

lemma chunk_of_id:
  assumes ok: "primes_ok p" and v: "primes_valid_id p c"
  shows "chunk_of p (primes_rep p c) (primes_stripe p c) (primes_unit p c) = c"
proof (cases c)
  case (Data i)
  have "primes_rep p c * ps_datachunks p + primes_stripe p c * ps_m p + primes_unit p c = int i"
    using Data by (simp add: primes_rep_def primes_stripe_def)
  moreover have "primes_unit p c < ps_m p" using Data primes_ok_bounds[OF ok] by simp
  ultimately show ?thesis using Data by (simp add: chunk_of_def)
next
  case (Parity i j)
  then have "ps_m p dvd int i mod ps_datachunks p"
    using v m_dvd_datachunks[OF ok] by (simp add: dvd_mod)
  then have "primes_rep p c * ps_datachunks p + primes_stripe p c * ps_m p = int i"
    using Parity by (simp add: primes_rep_def primes_stripe_def)
  then show ?thesis using Parity v by (simp add: chunk_of_def)
qed

lemma chunk_of_coords:
  assumes ok: "primes_ok p" and r: "0 \<le> r" "(r + 1) * ps_datachunks p \<le> 2 ^ 63"
    and s: "0 \<le> s" "s < ps_n p * (ps_n p - 1)" and b: "0 \<le> b" "b < ps_k p"
  defines "c \<equiv> chunk_of p r s b"
  shows "primes_valid_id p c" "primes_rep p c = r" "primes_stripe p c = s" "primes_unit p c = b"
    "int (chunk_address c) < (r + 1) * ps_datachunks p"
proof -
  note pb = primes_ok_bounds[OF ok]
  define b0 where "b0 = (if b < ps_m p then b else 0)"
  have b0: "0 \<le> b0" "b0 < ps_m p" using b pb by (simp_all add: b0_def)
  have "(s + 1) * ps_m p \<le> ps_n p * (ps_n p - 1) * ps_m p" using s pb by (intro mult_right_mono) auto
  then have sm: "s * ps_m p + b0 < ps_datachunks p" "0 \<le> s * ps_m p"
    using ok b0 s pb by (simp_all add: primes_ok_def distrib_right)
  have rd: "0 \<le> r * ps_datachunks p" using r pb by simp
  have ad: "int (chunk_address c) = r * ps_datachunks p + (s * ps_m p + b0)"
    using sm rd b0 b by (simp add: c_def chunk_of_def b0_def)
  show lt: "int (chunk_address c) < (r + 1) * ps_datachunks p"
    unfolding ad using sm by (simp add: distrib_right)
  have md: "int (chunk_address c) mod ps_datachunks p = s * ps_m p + b0"
    unfolding ad using sm b0 by simp
  show "primes_rep p c = r"
    unfolding primes_rep_def ad using sm b0 pb by (simp add: div_pos_pos_trivial)
  show "primes_stripe p c = s"
    unfolding primes_stripe_def md using b0 pb by (simp add: div_pos_pos_trivial)
  have a63: "chunk_address c < 2 ^ 63" using lt r(2) by simp
  have "ps_m p dvd r * ps_datachunks p + s * ps_m p" using m_dvd_datachunks[OF ok] by simp
  then show "primes_valid_id p c"
    using a63 b pb rd sm(2) by (auto simp: c_def chunk_of_def)
  show "primes_unit p c = b"
  proof (cases "b < ps_m p")
    case True
    then have "c = Data (chunk_address c)" by (simp add: c_def chunk_of_def)
    then have "primes_unit p c = int (chunk_address c) mod ps_datachunks p mod ps_m p"
      by (metis primes_unit.simps(1))
    then show ?thesis unfolding md using True b0 by (simp add: b0_def)
  next
    case False
    then show ?thesis by (simp add: c_def chunk_of_def)
  qed
qed

section \<open>The stripes of one disk in one iteration\<close>

lemma disk_stripes_spec:
  assumes ok: "primes_ok p" and z: "0 \<le> z" "z < ps_n p - 1" and d: "0 \<le> d" "d < ps_n p"
  defines "xs \<equiv> disk_stripes p d (stride_inv p z)"
  shows "set xs = ps_stripe_at p z d ` {0..<ps_k p}" "sorted xs" "distinct xs"
    "length xs = nat (ps_k p)"
proof -
  note pb = primes_ok_bounds[OF ok]
  note g = stride_geometry[OF ok z]
  have w: "i32 ((d * stride_inv p z - i) * ps_m_inv p) mod ps_n p = ps_stripe_at p z d i"
    if "i \<in> {0..<ps_k p}" for i
    using placement_i32[OF ok g(2,3) d, of i 0] that pb by (simp add: stripe_at_def)
  have S: "set (map (\<lambda>i. i32 ((d * stride_inv p z - i) * ps_m_inv p) mod ps_n p) [0..ps_k p - 1])
      = ps_stripe_at p z d ` {0..<ps_k p}"
  proof -
    have "set [0..ps_k p - 1] = {0..<ps_k p}" by auto
    then show ?thesis using w by (simp cong: image_cong_simp)
  qed
  show st: "set xs = ps_stripe_at p z d ` {0..<ps_k p}"
    unfolding xs_def disk_stripes_def Let_def S using stripe_at_range[of "ps_n p"] pb by auto
  show "sorted xs" "distinct xs"
    unfolding xs_def disk_stripes_def Let_def by (simp_all add: sorted_wrt_filter)
  then have "length xs = card (ps_stripe_at p z d ` {0..<ps_k p})" using st distinct_card by metis
  also have "\<dots> = card {0..<ps_k p}"
    using stripe_at_inj_on[OF g(1) d] by (intro card_image) simp
  finally show "length xs = nat (ps_k p)" by simp
qed

lemma disk_rank_set:
  assumes "primes_ok p" "0 \<le> z" "z < ps_n p - 1" "0 \<le> d" "d < ps_n p"
  shows "disk_rank p z d t = card {t' \<in> set (disk_stripes p d (stride_inv p z)). t' < t}"
  unfolding disk_rank_def disk_stripes_spec(1)[OF assms] ..

section \<open>Closed form of the location of a chunk\<close>

definition primes_disk :: "PrimeS \<Rightarrow> int \<Rightarrow> int \<Rightarrow> int" where
  "primes_disk p s b = (s * ps_m p + b) * (s div ps_n p + 1) mod ps_n p"

lemma primes_disk_range: "primes_ok p \<Longrightarrow> 0 \<le> primes_disk p s b \<and> primes_disk p s b < ps_n p"
  using primes_ok_bounds[of p] by (simp add: primes_disk_def)

lemma stripe_split:
  assumes ok: "primes_ok p" and s: "0 \<le> s" "s < ps_n p * (ps_n p - 1)"
  shows "0 \<le> s div ps_n p" "s div ps_n p < ps_n p - 1" "0 \<le> s mod ps_n p" "s mod ps_n p < ps_n p"
  using s primes_ok_bounds[OF ok]
  by (simp_all add: pos_imp_zdiv_nonneg_iff zdiv_less_iff mult.commute)

lemma stripe_on_disk:
  assumes ok: "primes_ok p" and s: "0 \<le> s" "s < ps_n p * (ps_n p - 1)" and d: "0 \<le> d" "d < ps_n p"
  shows "primes_disk p s b = d \<longleftrightarrow> ps_stripe_at p (s div ps_n p) d b = s mod ps_n p"
proof -
  note sp = stripe_split[OF ok s]
  define z where "z = s div ps_n p"
  have "s = s mod ps_n p + z * ps_n p" by (simp add: z_def)
  then have "(s * ps_m p + b) * (z + 1)
      = (s mod ps_n p * ps_m p + b) * (z + 1) + ps_n p * (z * ps_m p * (z + 1))"
    by (metis (no_types, opaque_lifting) add.assoc add.commute distrib_left distrib_right mult.assoc mult.commute)
  then have "primes_disk p s b = (s mod ps_n p * ps_m p + b) * (z + 1) mod ps_n p"
    by (simp add: primes_disk_def z_def)
  then show ?thesis
    using stripe_at_iff[OF stride_geometry(1)[OF ok sp(1,2)] sp(3,4) d, of b] by (simp add: z_def)
qed

lemma disk_rank_bound:
  assumes ok: "primes_ok p" and s: "0 \<le> s" "s < ps_n p * (ps_n p - 1)" and b: "0 \<le> b" "b < ps_k p"
  defines "xs \<equiv> disk_stripes p (primes_disk p s b) (stride_inv p (s div ps_n p))"
    and "rk \<equiv> disk_rank p (s div ps_n p) (primes_disk p s b) (s mod ps_n p)"
  shows "rk < length xs" "xs ! rk = s mod ps_n p" "int rk < ps_k p"
proof -
  note sp = stripe_split[OF ok s]
  have d: "0 \<le> primes_disk p s b" "primes_disk p s b < ps_n p" using primes_disk_range[OF ok] by auto
  note ds = disk_stripes_spec[OF ok sp(1,2) d]
  have "ps_stripe_at p (s div ps_n p) (primes_disk p s b) b = s mod ps_n p"
    using stripe_on_disk[OF ok s d] by blast
  then have "s mod ps_n p \<in> set xs" unfolding xs_def ds(1) using b by force
  from nth_rank[OF _ _ this] ds(2,3)
  show "rk < length xs" "xs ! rk = s mod ps_n p"
    unfolding rk_def disk_rank_set[OF ok sp(1,2) d] xs_def[symmetric] by auto
  then show "int rk < ps_k p" using ds(4) xs_def by simp
qed

lemma iteration_offset_bound:
  assumes "primes_ok p" "0 \<le> z" "z < ps_n p - 1" "0 \<le> i" "i < ps_k p"
  shows "z * ps_k p + i < ps_depth p" "0 \<le> z * ps_k p + i"
proof -
  note pb = primes_ok_bounds[OF assms(1)]
  have "(z + 1) * ps_k p \<le> (ps_n p - 1) * ps_k p" using assms pb by (intro mult_right_mono) auto
  moreover have "(ps_n p - 1) * ps_k p = ps_depth p"
    using assms(1) by (simp add: primes_ok_def mult.commute)
  moreover have "(z + 1) * ps_k p = z * ps_k p + ps_k p" by (simp add: distrib_right)
  ultimately show "z * ps_k p + i < ps_depth p" using assms(5) by linarith
  show "0 \<le> z * ps_k p + i" using assms pb by simp
qed

lemma primes_id2loc_eq:
  assumes ok: "primes_ok p" and v: "primes_valid_id p c"
  defines "s \<equiv> primes_stripe p c" and "b \<equiv> primes_unit p c"
  shows "primes_id2loc p c = \<lparr>cl_disk = primes_disk p s b,
     cl_offset = nat (primes_rep p c * ps_depth p + (s div ps_n p * ps_k p
       + int (disk_rank p (s div ps_n p) (primes_disk p s b) (s mod ps_n p))))\<rparr>"
proof -
  note pb = primes_ok_bounds[OF ok]
  note sb = primes_stripe_bounds[OF ok, of c, folded s_def]
  note ub = primes_unit_bounds[OF ok v, folded b_def]
  note sp = stripe_split[OF ok sb(1,2)]
  let ?z = "s div ps_n p"
  let ?rk = "disk_rank p ?z (primes_disk p s b) (s mod ps_n p)"
  define io where "io = ?z * ps_k p + int ?rk"
  have rk: "0 \<le> int ?rk" "int ?rk < ps_k p" using disk_rank_bound(3)[OF ok sb(1,2) ub] by simp_all
  have iob: "0 \<le> io" "io < ps_depth p"
    unfolding io_def using iteration_offset_bound[OF ok sp(1,2) rk] by simp_all
  have "s * ps_m p \<le> 32579 * 181" by (rule mult_mono) (use sb pb in auto)
  moreover have "0 \<le> s * ps_m p" using sb pb by simp
  ultimately have smb: "0 \<le> s * ps_m p + b" "s * ps_m p + b \<le> 5896980" using ub pb by linarith+
  have "(s * ps_m p + b) * (?z + 1) \<le> 5896980 * 181" by (rule mult_mono) (use smb sp pb in auto)
  moreover have "0 \<le> (s * ps_m p + b) * (?z + 1)" using smb sp by simp
  ultimately have w1: "i32 ((s * ps_m p + b) * (?z + 1)) = (s * ps_m p + b) * (?z + 1)"
    by (intro i32_id) linarith+
  have w2: "i16 (primes_disk p s b) = primes_disk p s b"
    using primes_disk_range[OF ok, of s b] pb by (intro i16_id) linarith+
  have ow: "offset_within_iteration p (id2loc_int p c) b (primes_disk p s b) = io"
    unfolding io_def
    by (rule offset_within_iteration_eq[OF ok sb(1,2,5) ub])
      (simp_all add: id2loc_int_eq[OF ok] s_def primes_disk_def)
  let ?r = "primes_rep p c"
  have r0: "0 \<le> ?r" using pb by (simp add: primes_rep_def pos_imp_zdiv_nonneg_iff)
  have "?r * ps_datachunks p \<le> int (chunk_address c)"
    using pb by (simp add: primes_rep_def minus_mod_eq_div_mult[symmetric])
  moreover have "?r * ps_depth p \<le> ?r * ps_datachunks p" using r0 pb by (intro mult_left_mono) auto
  ultimately have rd: "?r * ps_depth p < 2 ^ 63" "0 \<le> ?r * ps_depth p"
    using valid_id_address[OF v] r0 pb by auto
  have w3: "wrapi 64 (ps_depth p) = ps_depth p" "wrapi 64 io = io"
    "wrapi 64 (?r * ps_depth p) = ?r * ps_depth p" "wrapi 64 (io + ?r * ps_depth p) = io + ?r * ps_depth p"
    using rd iob pb by (simp_all add: wrapi_def)
  have ow8: "offset_within_stripe c (int (chunk_address c) mod ps_datachunks p) s (ps_m p) = b"
    unfolding s_def b_def by (rule offset_within_stripe_eq[OF ok v])
  have cli: "ci_a (id2loc_int p c) = int (chunk_address c) mod ps_datachunks p"
    "ci_s (id2loc_int p c) = s" "ci_r (id2loc_int p c) = ?r" "ci_y (id2loc_int p c) = ?z + 1"
    by (simp_all add: id2loc_int_eq[OF ok] s_def)
  show ?thesis
    unfolding primes_id2loc_def Let_def cli ow8 w1 primes_disk_def[symmetric] w2 ow w3
    by (simp add: io_def add.commute)
qed

section \<open>Closed form of the chunk at a location\<close>

lemma primes_loc2id_eq:
  assumes ok: "primes_ok p" and d: "0 \<le> d" "d < ps_n p" and r: "0 \<le> r"
    and z: "0 \<le> z" "z < ps_n p - 1" and i: "i < nat (ps_k p)"
    and b: "0 \<le> b" "b < ps_k p"
    and t: "disk_stripes p d (stride_inv p z) ! i = t" "ps_stripe_at p z d b = t"
    and nw: "int (chunk_address (chunk_of p r (t + ps_n p * z) b)) < 2 ^ 64"
  shows "primes_loc2id p \<lparr>cl_disk = d, cl_offset = nat (r * ps_depth p + (z * ps_k p + int i))\<rparr>
       = Some (chunk_of p r (t + ps_n p * z) b)"
proof -
  note pb = primes_ok_bounds[OF ok]
  note g = stride_geometry[OF ok z]
  note ds = disk_stripes_spec[OF ok z d]
  let ?io = "z * ps_k p + int i"
  let ?s = "t + ps_n p * z"
  have ib: "0 \<le> int i" "int i < ps_k p" using i by auto
  note iob = iteration_offset_bound[OF ok z ib]
  have tb: "0 \<le> t" "t < ps_n p" using t(2) stripe_at_range[of "ps_n p"] pb by auto
  have dep: "wrapi 64 (ps_depth p) = ps_depth p" using pb by (simp add: wrapi_def)
  have off: "int (nat (r * ps_depth p + ?io)) = r * ps_depth p + ?io" using iob r pb by simp
  have rdiv: "(r * ps_depth p + ?io) div ps_depth p = r" "(r * ps_depth p + ?io) mod ps_depth p = ?io"
    using iob pb by (simp_all add: div_pos_pos_trivial)
  have wio: "i32 ?io = ?io" using iob pb by (intro i32_id) linarith+
  have zdiv: "?io sdiv ps_k p = z"
    using iob ib pb by (simp add: sdiv_nonneg div_pos_pos_trivial)
  have wz: "i16 z = z" using z pb by (intro i16_id) linarith+
  have wy: "i16 (z mod wrapi 8 (ps_n p - 1) + 1) = z + 1"
    using z pb by (simp add: wrapi_def i16_id)
  have wi: "i32 (?io - ps_k p * z) = int i" using ib pb by (simp add: mult.commute i32_id)
  have yi: "invmod (z + 1) (ps_n p) = stride_inv p z" by (simp add: stride_inv_def)
  have "cast_u 64 (int i) = i" using ib pb by (simp add: cast_u_def wrapi_def nat_mod_distrib)
  then have get: "vec_get (disk_stripes p d (stride_inv p z)) (cast_u 64 (int i)) = Some t"
    using ds(4) i t(1) by (simp add: vec_get_def)
  have nz: "0 \<le> ps_n p * z" "ps_n p * z \<le> 181 * 179"
    using z pb mult_mono_181[of "ps_n p" z 179] by auto
  have ws: "i16 (i16 t + ps_n p * z) = ?s" using tb nz pb by (simp add: i16_id)
  have sb: "0 \<le> ?s" "?s \<le> 32579" using tb nz pb by linarith+
  have "?s * ps_m p \<le> 32579 * 181" by (rule mult_mono) (use sb pb in auto)
  then have smb: "0 \<le> ?s * ps_m p" "?s * ps_m p \<le> 5896799" using sb pb by simp_all
  have "d * stride_inv p z \<le> 181 * 181" by (rule mult_mono) (use d g pb in auto)
  moreover have "0 \<le> d * stride_inv p z" using d g by simp
  ultimately have wb: "i32 (d * stride_inv p z - ?s * ps_m p) = d * stride_inv p z - ?s * ps_m p"
    using smb by (intro i32_id) linarith+
  have "(t * ps_m p + b) mod ps_n p = (d * stride_inv p z) mod ps_n p"
    using unit_residue[OF g(1) d, of b] t(2) by simp
  then have "(d * stride_inv p z - t * ps_m p) mod ps_n p = (t * ps_m p + b - t * ps_m p) mod ps_n p"
    by (metis mod_diff_left_eq)
  then have bt: "(d * stride_inv p z - t * ps_m p) mod ps_n p = b" using b pb by simp
  have "d * stride_inv p z - ?s * ps_m p
      = (d * stride_inv p z - t * ps_m p) + ps_n p * (- z * ps_m p)" by (simp add: algebra_simps)
  then have "(d * stride_inv p z - ?s * ps_m p) mod ps_n p = b"
    unfolding bt[symmetric] by (metis mod_mult_self2)
  then have bb: "wrapi 8 (i32 (d * stride_inv p z - ?s * ps_m p) mod ps_n p) = b"
    unfolding wb using b pb by (simp add: wrapi_def)
  have rdc: "0 \<le> r * ps_datachunks p" using r pb by simp
  have lt: "r * ps_datachunks p + ?s * ps_m p + (if b < ps_m p then b else 0) < 2 ^ 64"
    using nw rdc smb b by (simp add: chunk_of_def split: if_splits)
  have base: "wrapi 64 (r * wrapi 64 (ps_datachunks p)) = r * ps_datachunks p"
    using lt smb rdc b pb by (simp add: wrapi_def split: if_splits)
  have w64: "wrapi 64 ?s = ?s" using sb by (simp add: wrapi_def)
  have res: "wrapi 64 (r * ps_datachunks p + ?s * ps_m p + (if b < ps_m p then b else 0))
      = r * ps_datachunks p + ?s * ps_m p + (if b < ps_m p then b else 0)"
    using lt smb rdc b by (intro wrapi_id) auto
  have w8: "\<not> b < ps_m p \<Longrightarrow> wrapi 8 (b - ps_m p) = b - ps_m p" using b pb by (simp add: wrapi_def)
  show ?thesis
    unfolding primes_loc2id_def Let_def Chunkloc.select_convs off dep rdiv wio zdiv wz wy yi wi get
      bind.bind_lunit ws bb base w64 chunk_of_def
    using res w8 by (cases "b < ps_m p") simp_all
qed

section \<open>The round trips\<close>

lemma primes_loc2id_id2loc:
  assumes ok: "primes_ok p" and v: "primes_valid_id p c"
  shows "primes_loc2id p (primes_id2loc p c) = Some c"
proof -
  note pb = primes_ok_bounds[OF ok]
  define s where "s = primes_stripe p c"
  define b where "b = primes_unit p c"
  note sb = primes_stripe_bounds[OF ok, of c, folded s_def]
  note ub = primes_unit_bounds[OF ok v, folded b_def]
  note sp = stripe_split[OF ok sb(1,2)]
  note rk = disk_rank_bound[OF ok sb(1,2) ub]
  have d: "0 \<le> primes_disk p s b" "primes_disk p s b < ps_n p" using primes_disk_range[OF ok] by auto
  have on: "ps_stripe_at p (s div ps_n p) (primes_disk p s b) b = s mod ps_n p"
    using stripe_on_disk[OF ok sb(1,2) d] by blast
  have r0: "0 \<le> primes_rep p c" using pb by (simp add: primes_rep_def pos_imp_zdiv_nonneg_iff)
  have s: "s mod ps_n p + ps_n p * (s div ps_n p) = s" by simp
  have c: "chunk_of p (primes_rep p c) s b = c" unfolding s_def b_def by (rule chunk_of_id[OF ok v])
  show ?thesis
    unfolding primes_id2loc_eq[OF ok v, folded s_def b_def]
    using primes_loc2id_eq[OF ok d r0 sp(1,2) _ ub rk(2) on, unfolded s c]
      rk(3) valid_id_address[OF v] by simp
qed

text \<open>The locations of the layout: a disk of the cluster, in a repetition with addresses below \<open>2^63\<close>.\<close>

definition primes_valid_loc :: "PrimeS \<Rightarrow> Chunkloc \<Rightarrow> bool" where
  "primes_valid_loc p x \<longleftrightarrow> 0 \<le> cl_disk x \<and> cl_disk x < ps_n p \<and>
     (int (cl_offset x) div ps_depth p + 1) * ps_datachunks p \<le> 2 ^ 63"

lemma primes_id2loc_loc2id:
  assumes ok: "primes_ok p" and v: "primes_valid_loc p x"
  shows "\<exists>c. primes_loc2id p x = Some c \<and> primes_valid_id p c \<and> primes_id2loc p c = x"
proof -
  note pb = primes_ok_bounds[OF ok]
  define r where "r = int (cl_offset x) div ps_depth p"
  define io where "io = int (cl_offset x) mod ps_depth p"
  define z where "z = io div ps_k p"
  define i where "i = nat (io mod ps_k p)"
  define d where "d = cl_disk x"
  have d: "0 \<le> d" "d < ps_n p" using v by (simp_all add: primes_valid_loc_def d_def)
  have r: "0 \<le> r" "(r + 1) * ps_datachunks p \<le> 2 ^ 63"
    using v pb by (simp_all add: primes_valid_loc_def r_def pos_imp_zdiv_nonneg_iff)
  have io: "0 \<le> io" "io < ps_depth p" using pb by (simp_all add: io_def)
  have z: "0 \<le> z" "z < ps_n p - 1"
    using io pb ok by (simp_all add: z_def pos_imp_zdiv_nonneg_iff zdiv_less_iff primes_ok_def mult.commute)
  have i: "i < nat (ps_k p)" "int i = io mod ps_k p" using pb by (simp_all add: i_def nat_less_iff)
  have x: "x = \<lparr>cl_disk = d, cl_offset = nat (r * ps_depth p + (z * ps_k p + int i))\<rparr>"
    by (simp add: i(2) z_def r_def d_def io_def)
  note ds = disk_stripes_spec[OF ok z d]
  define t where "t = disk_stripes p d (stride_inv p z) ! i"
  have il: "i < length (disk_stripes p d (stride_inv p z))" using ds(4) i(1) by simp
  have "t \<in> ps_stripe_at p z d ` {0..<ps_k p}" using nth_mem[OF il] ds(1) t_def by simp
  then obtain b where b: "0 \<le> b" "b < ps_k p" "ps_stripe_at p z d b = t" by auto
  have tb: "0 \<le> t" "t < ps_n p" using b(3) stripe_at_range[of "ps_n p"] pb by auto
  define s where "s = t + ps_n p * z"
  have sz: "s div ps_n p = z" "s mod ps_n p = t" using tb pb by (simp_all add: s_def div_pos_pos_trivial)
  have "s < ps_n p * z + ps_n p * 1" using tb by (simp add: s_def)
  also have "\<dots> \<le> ps_n p * (ps_n p - 1)"
    unfolding distrib_left[symmetric] using z pb by (intro mult_left_mono) auto
  finally have s: "0 \<le> s" "s < ps_n p * (ps_n p - 1)" using tb z pb by (simp_all add: s_def)
  note co = chunk_of_coords[OF ok r s b(1,2)]
  have l: "primes_loc2id p x = Some (chunk_of p r s b)"
    unfolding x s_def using co(5) r(2) b t_def
    by (intro primes_loc2id_eq[OF ok d r(1) z i(1)]) (simp_all add: s_def)
  have pd: "primes_disk p s b = d" using stripe_on_disk[OF ok s d] b(3) sz by simp
  have "disk_rank p z d t = i"
    unfolding disk_rank_set[OF ok z d] t_def using rank_nth[OF ds(2,3) il] .
  then have "primes_id2loc p (chunk_of p r s b) = x"
    unfolding primes_id2loc_eq[OF ok co(1)] co(2-4) sz pd by (simp add: x)
  then show ?thesis using l co(1) by blast
qed

section \<open>Stripes and disks\<close>

text \<open>The number of the stripe of a chunk, counted from the start of the disks.\<close>

definition primes_stripe_no :: "PrimeS \<Rightarrow> ChunkId \<Rightarrow> nat" where
  "primes_stripe_no p c = chunk_address c div nat (ps_m p)"

lemma stripe_no_coords:
  assumes ok: "primes_ok p"
  shows "int (primes_stripe_no p c) = primes_rep p c * (ps_n p * (ps_n p - 1)) + primes_stripe p c"
proof -
  note pb = primes_ok_bounds[OF ok]
  let ?a = "int (chunk_address c)"
  have dc: "ps_datachunks p = ps_n p * (ps_n p - 1) * ps_m p" using ok by (simp add: primes_ok_def)
  have "?a = (primes_rep p c * (ps_n p * (ps_n p - 1))) * ps_m p + ?a mod ps_datachunks p"
    by (simp add: primes_rep_def dc mult.assoc[symmetric])
      (metis dc div_mult_mod_eq mult.assoc)
  then have "?a div ps_m p = primes_rep p c * (ps_n p * (ps_n p - 1)) + primes_stripe p c"
    unfolding primes_stripe_def using pb
    by (metis add.commute div_mult_self1 less_irrefl)
  then show ?thesis using pb by (simp add: primes_stripe_no_def zdiv_int)
qed

lemma primes_stripe_disks:
  assumes ok: "primes_ok p" and v: "primes_valid_id p c" "primes_valid_id p c'"
    and s: "primes_stripe_no p c = primes_stripe_no p c'" and ne: "c \<noteq> c'"
  shows "cl_disk (primes_id2loc p c) \<noteq> cl_disk (primes_id2loc p c')"
proof
  assume eq: "cl_disk (primes_id2loc p c) = cl_disk (primes_id2loc p c')"
  let ?S = "ps_n p * (ps_n p - 1)"
  have e: "primes_rep p c * ?S + primes_stripe p c = primes_rep p c' * ?S + primes_stripe p c'"
    using s stripe_no_coords[OF ok, of c] stripe_no_coords[OF ok, of c'] by simp
  note sb = primes_stripe_bounds[OF ok, of c] primes_stripe_bounds[OF ok, of c']
  have "primes_stripe p c = (primes_rep p c * ?S + primes_stripe p c) mod ?S" using sb by simp
  also have "\<dots> = primes_stripe p c'" unfolding e using sb by simp
  finally have st: "primes_stripe p c = primes_stripe p c'" .
  then have rp: "primes_rep p c = primes_rep p c'" using e sb(2,7) sb(1) by auto
  have "primes_disk p (primes_stripe p c) (primes_unit p c)
      = primes_disk p (primes_stripe p c) (primes_unit p c')"
    using eq st by (simp add: primes_id2loc_eq[OF ok] v)
  then have "primes_unit p c = primes_unit p c'"
    unfolding primes_disk_def
    using stripe_disks_distinct[OF stride_geometry(1)[OF ok sb(3,4)]]
      primes_unit_bounds[OF ok v(1)] primes_unit_bounds[OF ok v(2)] by blast
  then have "c = c'" using chunk_of_id[OF ok v(1)] chunk_of_id[OF ok v(2)] st rp by metis
  then show False using ne by simp
qed

interpretation primes: Locator primes_ok primes_valid_id primes_valid_loc primes_id2loc primes_loc2id
  primes_stripe_no
proof unfold_locales
  fix l c assume "primes_ok l" "primes_valid_id l c"
  then show "primes_loc2id l (primes_id2loc l c) = Some c" by (rule primes_loc2id_id2loc)
next
  fix l x assume "primes_ok l" "primes_valid_loc l x"
  then show "\<exists>c. primes_loc2id l x = Some c \<and> primes_id2loc l c = x"
    using primes_id2loc_loc2id by blast
qed (rule primes_stripe_disks)

section \<open>Monotonicity on each disk\<close>

lemma disk_rank_mono:
  assumes "ps_stripe_at p z d b = t" "0 \<le> b" "b < ps_k p" "t < t'"
  shows "disk_rank p z d t < disk_rank p z d t'"
  unfolding disk_rank_def
proof (rule psubset_card_mono)
  have "t \<in> {x \<in> ps_stripe_at p z d ` {0..<ps_k p}. x < t'}" using assms by force
  then show "{x \<in> ps_stripe_at p z d ` {0..<ps_k p}. x < t}
      \<subset> {x \<in> ps_stripe_at p z d ` {0..<ps_k p}. x < t'}" using assms(4) by auto
qed simp

lemma mixed_radix_less:
  fixes a b q :: int
  assumes "a < b" "r < q" "0 \<le> r'" "0 < q"
  shows "a * q + r < b * q + r'"
proof -
  have "(a + 1) * q \<le> b * q" using assms by (intro mult_right_mono) auto
  then show ?thesis using assms by (simp add: distrib_right)
qed

lemma primes_offset_mono:
  assumes ok: "primes_ok p" and v: "primes_valid_id p c" "primes_valid_id p c'"
    and d: "cl_disk (primes_id2loc p c) = cl_disk (primes_id2loc p c')"
    and lt: "primes_stripe_no p c < primes_stripe_no p c'"
  shows "cl_offset (primes_id2loc p c) < cl_offset (primes_id2loc p c')"
proof -
  note pb = primes_ok_bounds[OF ok]
  define S where "S = ps_n p * (ps_n p - 1)"
  define s where "s = primes_stripe p c"
  define s' where "s' = primes_stripe p c'"
  define D where "D = primes_disk p s (primes_unit p c)"
  have D': "primes_disk p s' (primes_unit p c') = D"
    using d by (simp add: primes_id2loc_eq[OF ok] v D_def s_def s'_def)
  have Dr: "0 \<le> D" "D < ps_n p" using primes_disk_range[OF ok] by (auto simp: D_def)
  note sb = primes_stripe_bounds[OF ok, of c, folded s_def] primes_stripe_bounds[OF ok, of c', folded s'_def]
  note ub = primes_unit_bounds[OF ok v(1)]
  let ?rk = "\<lambda>s. int (disk_rank p (s div ps_n p) D (s mod ps_n p))"
  let ?io = "\<lambda>s. s div ps_n p * ps_k p + ?rk s"
  have rb: "?rk s < ps_k p" "?rk s' < ps_k p"
    using disk_rank_bound(3)[OF ok sb(1,2) ub] disk_rank_bound(3)[OF ok sb(6,7) primes_unit_bounds[OF ok v(2)]]
    by (simp_all add: D_def[symmetric] D')
  have iob: "0 \<le> ?io s" "?io s < ps_depth p" "0 \<le> ?io s'" "?io s' < ps_depth p"
    using iteration_offset_bound[OF ok sb(3,4) _ rb(1)] iteration_offset_bound[OF ok sb(8,9) _ rb(2)] by simp_all
  have le: "primes_rep p c * S + s < primes_rep p c' * S + s'"
    using lt stripe_no_coords[OF ok, of c] stripe_no_coords[OF ok, of c'] by (simp add: S_def s_def s'_def)
  have r0: "0 \<le> primes_rep p c" "0 \<le> primes_rep p c'"
    using pb by (simp_all add: primes_rep_def pos_imp_zdiv_nonneg_iff)
  have key: "primes_rep p c * ps_depth p + ?io s < primes_rep p c' * ps_depth p + ?io s'"
  proof (cases "primes_rep p c < primes_rep p c'")
    case True
    then show ?thesis using iob pb by (intro mixed_radix_less) auto
  next
    case False
    have "\<not> primes_rep p c' < primes_rep p c"
    proof
      assume "primes_rep p c' < primes_rep p c"
      then have "primes_rep p c' * S + s' < primes_rep p c * S + s"
        using sb by (intro mixed_radix_less) (auto simp: S_def)
      then show False using le by simp
    qed
    then have r: "primes_rep p c = primes_rep p c'" using False by simp
    then have ss: "s < s'" using le by simp
    then have "s div ps_n p \<le> s' div ps_n p" using pb by (simp add: zdiv_mono1)
    then consider "s div ps_n p < s' div ps_n p" | "s div ps_n p = s' div ps_n p" by linarith
    then have "?io s < ?io s'"
    proof cases
      case 1
      then show ?thesis using rb pb by (intro mixed_radix_less) auto
    next
      case 2
      then have "s mod ps_n p < s' mod ps_n p"
        using ss by (metis add_less_cancel_left div_mult_mod_eq)
      moreover have "ps_stripe_at p (s div ps_n p) D (primes_unit p c) = s mod ps_n p"
        using stripe_on_disk[OF ok sb(1,2) Dr] D_def by blast
      ultimately show ?thesis using disk_rank_mono[OF _ ub] 2 by simp
    qed
    then show ?thesis using r by simp
  qed
  have "0 \<le> primes_rep p c * ps_depth p" using r0 pb by simp
  then show ?thesis
    using key iob by (simp add: primes_id2loc_eq[OF ok] v s_def[symmetric] s'_def[symmetric] D' D_def[symmetric])
qed

section \<open>Properties\<close>

abbreviation layout_5_4_1 :: PrimeS where
  "layout_5_4_1 \<equiv> \<lparr>ps_n = 5, ps_k = 4, ps_m = 3, ps_m_inv = 2, ps_f = 1, ps_datachunks = 60,
     ps_stripes = 20, ps_depth = 16\<rparr>"

lemma layout_5_4_1_new: "primes_new 5 4 1 = Some layout_5_4_1"
  by code_simp

text \<open>C20. A layout of at most 181 disks locates every chunk so that \<open>loc2id\<close> finds it again:
  for every data chunk below \<open>2^63\<close> and every parity chunk of a stripe, \<open>loc2id(id2loc(c)) = c\<close>,
  without a panic and without a wrap-around reaching the result.\<close>

theorem primes_id_roundtrip:
  assumes "primes_new n k f = Some p" "n \<le> 181" "primes_valid_id p c"
  shows "primes_loc2id p (primes_id2loc p c) = Some c"
  using primes.loc2id_id2loc[OF primes_new_ok(1)[OF assms(1,2)] assms(3)] .

theorem primes_id_roundtrip_witness:
  "primes_loc2id layout_5_4_1 (primes_id2loc layout_5_4_1 (Parity 1234567890 0)) = Some (Parity 1234567890 0)"
  using primes_id_roundtrip[OF layout_5_4_1_new, of "Parity 1234567890 0"] by simp

text \<open>C21. The layout wastes no space: every location on a disk of the cluster (in a repetition whose
  addresses are below \<open>2^63\<close>) holds a chunk, \<open>loc2id\<close> returns it without a panic, and \<open>id2loc\<close>
  maps it back to the location.\<close>

theorem primes_loc_roundtrip:
  assumes "primes_new n k f = Some p" "n \<le> 181" "primes_valid_loc p x"
  shows "\<exists>c. primes_loc2id p x = Some c \<and> primes_valid_id p c \<and> primes_id2loc p c = x"
  using primes_id2loc_loc2id[OF primes_new_ok(1)[OF assms(1,2)] assms(3)] .

theorem primes_loc_roundtrip_witness:
  "\<exists>c. primes_loc2id layout_5_4_1 \<lparr>cl_disk = 4, cl_offset = 123456\<rparr> = Some c \<and>
     primes_valid_id layout_5_4_1 c \<and> primes_id2loc layout_5_4_1 c = \<lparr>cl_disk = 4, cl_offset = 123456\<rparr>"
  by (rule primes_loc_roundtrip[OF layout_5_4_1_new]) (simp_all add: primes_valid_loc_def)

text \<open>C22. Fault tolerance of the placement: however many disks \<open>D\<close> are lost, as long as they are no
  more than the redundancy \<open>f\<close> of the layout, every stripe loses at most \<open>f\<close> of its chunks.\<close>

theorem primes_fault_tolerance:
  assumes "primes_new n k f = Some p" "n \<le> 181" "finite D" "int (card D) \<le> f"
  shows "int (card {c. primes_valid_id p c \<and> primes_stripe_no p c = s \<and>
           cl_disk (primes_id2loc p c) \<in> D}) \<le> primes_protection p"
  using primes.lost_chunks_of_stripe[OF primes_new_ok(1)[OF assms(1,2)] assms(3), of s]
    primes_new_ok(4)[OF assms(1,2)] assms(4) by (simp add: primes_protection_def)

theorem primes_fault_tolerance_witness:
  "int (card {c. primes_valid_id layout_5_4_1 c \<and> primes_stripe_no layout_5_4_1 c = 77 \<and>
     cl_disk (primes_id2loc layout_5_4_1 c) \<in> {3}}) \<le> 1"
  using primes_fault_tolerance[OF layout_5_4_1_new, of "{3}" 77] by (simp add: primes_protection_def)

text \<open>The layout is sequential (the S of PRIME-S): on each disk, chunks of later stripes have
  larger offsets.\<close>

theorem primes_monotonic:
  assumes "primes_new n k f = Some p" "n \<le> 181" "primes_valid_id p c" "primes_valid_id p c'"
    and "cl_disk (primes_id2loc p c) = cl_disk (primes_id2loc p c')"
    and "primes_stripe_no p c < primes_stripe_no p c'"
  shows "cl_offset (primes_id2loc p c) < cl_offset (primes_id2loc p c')"
  using primes_offset_mono[OF primes_new_ok(1)[OF assms(1,2)] assms(3-6)] .

theorem primes_monotonic_witness:
  "cl_offset (primes_id2loc layout_5_4_1 (Data 0)) < cl_offset (primes_id2loc layout_5_4_1 (Data 5))"
proof (rule primes_monotonic[OF layout_5_4_1_new])
  show "cl_disk (primes_id2loc layout_5_4_1 (Data 0)) = cl_disk (primes_id2loc layout_5_4_1 (Data 5))"
    by code_simp
qed (simp_all add: primes_stripe_no_def)




end
