(* ===== verification/Prime_S_Iter_Correct.thy ===== *)
theory Prime_S_Iter_Correct
  imports Prime_S_Iter Prime_S_Layout
begin

text \<open>
  The iterators agree with \<open>id2loc\<close>: the vector of running offsets is a function of the position of
  the iterator, so that the state after any number of steps is the state that \<open>new\<close> would build at
  the current chunk.
\<close>

section \<open>The running offsets\<close>

definition used_before :: "PrimeS \<Rightarrow> int \<Rightarrow> int \<Rightarrow> int \<Rightarrow> bool" where
  "used_before p s b d \<longleftrightarrow> (\<exists>b' \<in> {0..<b}. primes_disk p s b' = d)"

definition o_val :: "PrimeS \<Rightarrow> int \<Rightarrow> int \<Rightarrow> int \<Rightarrow> int" where
  "o_val p s b d = s div ps_n p * ps_k p + int (disk_rank p (s div ps_n p) d (s mod ps_n p))
     + (if used_before p s b d then 1 else 0)"

definition o_state :: "PrimeS \<Rightarrow> int \<Rightarrow> int \<Rightarrow> int list" where
  "o_state p s b = map (o_val p s b) [0..ps_n p - 1]"

lemma disk_rank_le:
  assumes "primes_ok p" shows "int (disk_rank p z d t) \<le> ps_k p"
proof -
  have "disk_rank p z d t \<le> card (ps_stripe_at p z d ` {0..<ps_k p})"
    unfolding disk_rank_def by (intro card_mono) auto
  also have "\<dots> \<le> card {0..<ps_k p}" by (rule card_image_le) simp
  finally show ?thesis using primes_ok_bounds[OF assms] by simp
qed

lemma o_val_bounds:
  assumes ok: "primes_ok p" and s: "0 \<le> s" "s < ps_n p * (ps_n p - 1)"
  shows "0 \<le> o_val p s b d" "o_val p s b d \<le> 32581"
proof -
  note pb = primes_ok_bounds[OF ok]
  note sp = stripe_split[OF ok s]
  show "0 \<le> o_val p s b d" using sp pb by (simp add: o_val_def)
  have "(s div ps_n p + 1) * ps_k p \<le> 180 * 181" by (rule mult_mono) (use sp pb in auto)
  then have "s div ps_n p * ps_k p + ps_k p \<le> 32580" by (simp add: distrib_right)
  then show "o_val p s b d \<le> 32581"
    using disk_rank_le[OF ok, of "s div ps_n p" d "s mod ps_n p"] by (simp add: o_val_def)
qed

lemma upto_nth: "0 \<le> d \<Longrightarrow> d < n \<Longrightarrow> nat d < length [0..n - 1] \<and> [0..n - 1] ! nat d = d"
  by (simp add: nth_upto)

lemma vec_get_map_upto:
  assumes "0 \<le> d" "d < n" shows "vec_get (map g [0..n - 1]) (nat d) = Some (g d)"
  using upto_nth[OF assms] by (simp add: vec_get_def)

lemma map_upto_update:
  assumes "0 \<le> d" "d < n"
  shows "(map g [0..n - 1])[nat d := v] = map (g(d := v)) [0..n - 1]"
proof (rule nth_equalityI)
  fix i assume "i < length ((map g [0..n - 1])[nat d := v])"
  then have "i < nat n" by simp
  then show "(map g [0..n - 1])[nat d := v] ! i = map (g(d := v)) [0..n - 1] ! i"
    using assms by (cases "i = nat d") (auto simp: nth_upto)
qed simp

lemma used_before_Suc:
  "0 \<le> b \<Longrightarrow> used_before p s (b + 1) d \<longleftrightarrow> used_before p s b d \<or> primes_disk p s b = d"
proof -
  assume "0 \<le> b"
  then have "{0..<b + 1} = insert b {0..<b}" by auto
  then show ?thesis by (auto simp: used_before_def)
qed

lemma used_before_self:
  assumes ok: "primes_ok p" and s: "0 \<le> s" "s < ps_n p * (ps_n p - 1)" and b: "0 \<le> b" "b < ps_k p"
  shows "\<not> used_before p s b (primes_disk p s b)"
proof
  note sp = stripe_split[OF ok s]
  assume "used_before p s b (primes_disk p s b)"
  then obtain b' where b': "0 \<le> b'" "b' < b" "primes_disk p s b' = primes_disk p s b"
    by (auto simp: used_before_def)
  then have "b' = b"
    using stripe_disks_distinct[OF stride_geometry(1)[OF ok sp(1,2)], of b' b s] b
    by (simp add: primes_disk_def)
  then show False using b' by simp
qed

lemma o_state_get:
  assumes ok: "primes_ok p" and s: "0 \<le> s" "s < ps_n p * (ps_n p - 1)" and b: "0 \<le> b" "b < ps_k p"
  shows "vec_get (o_state p s b) (nat (primes_disk p s b)) =
    Some (s div ps_n p * ps_k p + int (disk_rank p (s div ps_n p) (primes_disk p s b) (s mod ps_n p)))"
  using vec_get_map_upto[of "primes_disk p s b" "ps_n p"] primes_disk_range[OF ok, of s b]
    used_before_self[OF assms] by (simp add: o_state_def o_val_def)

lemma bump_o_state:
  assumes ok: "primes_ok p" and s: "0 \<le> s" "s < ps_n p * (ps_n p - 1)" and b: "0 \<le> b" "b < ps_k p"
  shows "bump (o_state p s b) (primes_disk p s b) = Some (o_state p s (b + 1))"
proof -
  note pb = primes_ok_bounds[OF ok]
  let ?d = "primes_disk p s b"
  have d: "0 \<le> ?d" "?d < ps_n p" using primes_disk_range[OF ok] by auto
  have c: "cast_u 64 ?d = nat ?d" using d pb by (intro cast_u_id) auto
  have w: "i16 (o_val p s b ?d + 1) = o_val p s b ?d + 1"
    using o_val_bounds[OF ok s, of b ?d] by (intro i16_id) linarith+
  have "(o_val p s b)(?d := o_val p s b ?d + 1) = o_val p s (b + 1)"
    using used_before_self[OF assms] used_before_Suc[OF b(1)] by (auto simp: o_val_def fun_eq_iff)
  then show ?thesis
    by (simp add: bump_def c o_state_def vec_get_map_upto[OF d] w map_upto_update[OF d])
qed

lemma below_succ:
  "{x \<in> S. x < t + 1} = (if t \<in> S then insert t {x \<in> S. x < t} else {x \<in> S. x < (t :: int)})"
proof -
  have "x < t + 1 \<longleftrightarrow> x < t \<or> x = t" for x by auto
  then show ?thesis by auto
qed

lemma divmod_succ:
  fixes s n :: int
  assumes "0 < n" "s mod n + 1 < n"
  shows "(s + 1) div n = s div n" "(s + 1) mod n = s mod n + 1"
proof -
  have e: "s + 1 = (s mod n + 1) + s div n * n" by simp
  have p: "0 \<le> s mod n + 1" using assms(1) pos_mod_sign[of n s] by linarith
  have "((s mod n + 1) + s div n * n) div n = s div n + (s mod n + 1) div n"
    using assms(1) by (intro div_mult_self1) simp
  also have "(s mod n + 1) div n = 0" using p assms(2) by (rule div_pos_pos_trivial)
  finally show "(s + 1) div n = s div n" unfolding e[symmetric] by simp
  have "((s mod n + 1) + s div n * n) mod n = (s mod n + 1) mod n" by (rule mod_mult_self1)
  also have "\<dots> = s mod n + 1" using p assms(2) by (rule mod_pos_pos_trivial)
  finally show "(s + 1) mod n = s mod n + 1" unfolding e[symmetric] .
qed

lemma disk_rank_Suc:
  assumes ok: "primes_ok p" and s: "0 \<le> s" "s < ps_n p * (ps_n p - 1)" and d: "0 \<le> d" "d < ps_n p"
  shows "int (disk_rank p (s div ps_n p) d (s mod ps_n p + 1))
    = int (disk_rank p (s div ps_n p) d (s mod ps_n p)) + (if used_before p s (ps_k p) d then 1 else 0)"
proof -
  let ?S = "ps_stripe_at p (s div ps_n p) d ` {0..<ps_k p}"
  let ?t = "s mod ps_n p"
  have u: "used_before p s (ps_k p) d \<longleftrightarrow> ?t \<in> ?S"
    using stripe_on_disk[OF ok s d] by (simp add: used_before_def image_iff) metis
  have "{x \<in> ?S. x < ?t + 1} = (if ?t \<in> ?S then insert ?t {x \<in> ?S. x < ?t} else {x \<in> ?S. x < ?t})"
    by (rule below_succ)
  then show ?thesis by (simp add: disk_rank_def u)
qed

lemma o_state_next_stripe:
  assumes ok: "primes_ok p" and s: "0 \<le> s" "s + 1 < ps_n p * (ps_n p - 1)"
  shows "o_state p s (ps_k p) = o_state p (s + 1) 0"
proof -
  note pb = primes_ok_bounds[OF ok]
  have s': "s < ps_n p * (ps_n p - 1)" using s by simp
  note sp = stripe_split[OF ok s(1) s']
  have "o_val p s (ps_k p) d = o_val p (s + 1) 0 d" if d: "0 \<le> d" "d < ps_n p" for d
  proof -
    have v: "o_val p s (ps_k p) d = s div ps_n p * ps_k p + int (disk_rank p (s div ps_n p) d (s mod ps_n p + 1))"
      using disk_rank_Suc[OF ok s(1) s' d] by (simp add: o_val_def)
    have nu: "\<not> used_before p (s + 1) 0 d" by (simp add: used_before_def)
    show ?thesis
    proof (cases "s mod ps_n p + 1 < ps_n p")
      case True
      note sd = divmod_succ[OF _ True]
      have "(s + 1) div ps_n p = s div ps_n p" "(s + 1) mod ps_n p = s mod ps_n p + 1"
        using sd pb by simp_all
      then show ?thesis using v nu by (simp add: o_val_def)
    next
      case False
      then have tm: "s mod ps_n p + 1 = ps_n p" using sp by linarith
      have e: "s + 1 = (s div ps_n p + 1) * ps_n p"
      proof -
        have "s + 1 = s div ps_n p * ps_n p + (s mod ps_n p + 1)" by simp
        then show ?thesis unfolding tm by (simp add: distrib_right)
      qed
      have z: "(s + 1) div ps_n p = s div ps_n p + 1" "(s + 1) mod ps_n p = 0"
        unfolding e using pb by simp_all
      let ?S = "\<lambda>z. ps_stripe_at p z d ` {0..<ps_k p}"
      have r: "0 \<le> x \<and> x < ps_n p" if "x \<in> ?S z" for x z
        using that stripe_at_range[of "ps_n p"] pb by auto
      have "{x \<in> ?S (s div ps_n p). x < ps_n p} = ?S (s div ps_n p)" using r by blast
      moreover have "card (?S (s div ps_n p)) = card {0..<ps_k p}"
        using stripe_at_inj_on[OF stride_geometry(1)[OF ok sp(1,2)] d] by (intro card_image) simp
      ultimately have full: "int (disk_rank p (s div ps_n p) d (ps_n p)) = ps_k p"
        using pb by (simp add: disk_rank_def)
      have "{x \<in> ?S (s div ps_n p + 1). x < 0} = {}"
        using stripe_at_range[OF pb(1)] by (auto simp: not_less)
      then have "disk_rank p (s div ps_n p + 1) d 0 = 0" by (simp add: disk_rank_def)
      then show ?thesis using v nu full tm z by (simp add: o_val_def distrib_right)
    qed
  qed
  then show ?thesis by (simp add: o_state_def)
qed

lemma o_state_iteration_start:
  assumes ok: "primes_ok p"
  shows "o_state p (z * ps_n p) 0 = replicate (nat (ps_n p)) (z * ps_k p)"
proof -
  note pb = primes_ok_bounds[OF ok]
  have "{x \<in> ps_stripe_at p z d ` {0..<ps_k p}. x < 0} = {}" for d
    using stripe_at_range[OF pb(1)] by (auto simp: not_less)
  then have "o_val p (z * ps_n p) 0 d = z * ps_k p" for d
    using pb by (simp add: o_val_def disk_rank_def used_before_def)
  then show ?thesis by (simp add: o_state_def map_replicate_const fun_eq_iff cong: map_cong)
qed

lemma bump_all_append: "bump_all os (xs @ ys) = bump_all os xs \<bind> (\<lambda>os'. bump_all os' ys)"
  by (induction xs arbitrary: os) (simp_all add: bind_assoc)

lemma bump_length: "bump os d = Some os' \<Longrightarrow> length os' = length os"
  by (auto simp: bump_def Let_def bind_eq_Some_conv)

lemma bump_all_length: "bump_all os ds = Some os' \<Longrightarrow> length os' = length os"
  by (induction ds arbitrary: os) (auto simp: bind_eq_Some_conv dest: bump_length)

lemma map_add_upto_shift: "map (\<lambda>i. i + c) [0..m - 1] = [c..c + m - 1]" for c m :: int
proof (rule nth_equalityI)
  fix i assume "i < length (map (\<lambda>i. i + c) [0..m - 1])"
  then have "int i \<le> m - 1" by simp
  then show "map (\<lambda>i. i + c) [0..m - 1] ! i = [c..c + m - 1] ! i" by (simp add: nth_upto)
qed simp

lemma bump_commute:
  "bump os a \<bind> (\<lambda>os'. bump os' b) = bump os b \<bind> (\<lambda>os'. bump os' a)"
proof (cases "cast_u 64 a = cast_u 64 b")
  case True
  then show ?thesis by (simp add: bump_def)
next
  case False
  then show ?thesis
    by (auto simp: bump_def vec_get_def Let_def list_update_swap[OF False])
qed

lemma bump_all_last:
  "bump_all os ds \<bind> (\<lambda>os'. bump os' d) = bump os d \<bind> (\<lambda>os'. bump_all os' ds)"
proof (induction ds arbitrary: os)
  case (Cons x ds)
  have "bump_all os (x # ds) \<bind> (\<lambda>os'. bump os' d)
      = bump os x \<bind> (\<lambda>os'. bump os' d \<bind> (\<lambda>os'. bump_all os' ds))"
    using Cons by (simp add: bind_assoc)
  also have "\<dots> = (bump os x \<bind> (\<lambda>os'. bump os' d)) \<bind> (\<lambda>os'. bump_all os' ds)"
    by (simp add: bind_assoc)
  also have "\<dots> = (bump os d \<bind> (\<lambda>os'. bump os' x)) \<bind> (\<lambda>os'. bump_all os' ds)"
    unfolding bump_commute[of os x d] ..
  also have "\<dots> = bump os d \<bind> (\<lambda>os'. bump_all os' (x # ds))" by (simp add: bind_assoc)
  finally show ?case .
qed simp

lemma bump_all_o_state:
  assumes ok: "primes_ok p" and s: "0 \<le> s" "s < ps_n p * (ps_n p - 1)"
    and b: "0 \<le> a" "a \<le> b" "b \<le> ps_k p"
  shows "bump_all (o_state p s a) (map (primes_disk p s) [a..b - 1]) = Some (o_state p s b)"
  using b
proof (induction "nat (b - a)" arbitrary: a)
  case 0
  then show ?case by simp
next
  case (Suc n)
  then have "[a..b - 1] = a # [a + 1..b - 1]" by (simp add: upto_rec1)
  moreover have "bump_all (o_state p s (a + 1)) (map (primes_disk p s) [a + 1..b - 1]) = Some (o_state p s b)"
    using Suc by (intro Suc.hyps) auto
  ultimately show ?case using bump_o_state[OF ok s, of a] Suc by simp
qed

section \<open>The state of an iterator as a function of its position\<close>

definition iter_at :: "PrimeS \<Rightarrow> int \<Rightarrow> int \<Rightarrow> int \<Rightarrow> ChunkId \<Rightarrow> PrimeSIter" where
  "iter_at p r s b e = \<lparr>it_a = s * ps_m p + (if b < ps_m p then b else 0), it_f = ps_f p,
     it_depth = ps_depth p, it_end = e, it_id = chunk_of p r s b, it_m = ps_m p, it_n = ps_n p,
     it_o = o_state p s b, it_r = r, it_stripe = s, it_stripe_iter = s mod ps_n p,
     it_y = s div ps_n p + 1, it_z = s div ps_n p\<rparr>"

text \<open>Positions of an iterator whose repetition lies below \<open>2^63\<close>.\<close>

definition iter_pos :: "PrimeS \<Rightarrow> int \<Rightarrow> int \<Rightarrow> int \<Rightarrow> bool" where
  "iter_pos p r s b \<longleftrightarrow> 0 \<le> r \<and> (r + 1) * ps_datachunks p \<le> 2 ^ 63 \<and>
     0 \<le> s \<and> s < ps_n p * (ps_n p - 1) \<and> 0 \<le> b \<and> b < ps_k p"

lemma disk_i32:
  assumes ok: "primes_ok p" and s: "0 \<le> s" "s < ps_n p * (ps_n p - 1)" and b: "0 \<le> b" "b < ps_k p"
    and y: "0 \<le> y" "y \<le> 181"
  shows "i32 ((s * ps_m p + b) * y) = (s * ps_m p + b) * y"
proof -
  note pb = primes_ok_bounds[OF ok]
  have "ps_n p * (ps_n p - 1) \<le> 181 * 180" by (rule mult_mono) (use pb in auto)
  then have "s * ps_m p \<le> 32580 * 181" by (intro mult_mono) (use s pb in auto)
  moreover have "0 \<le> s * ps_m p" using s pb by simp
  ultimately have smb: "0 \<le> s * ps_m p + b" "s * ps_m p + b \<le> 5897161" using b pb by linarith+
  have "(s * ps_m p + b) * y \<le> 5897161 * 181" by (rule mult_mono) (use smb y in auto)
  moreover have "0 \<le> (s * ps_m p + b) * y" using smb y by simp
  ultimately show ?thesis by (intro i32_id) linarith+
qed

lemma primes_disk_i32:
  assumes ok: "primes_ok p" and s: "0 \<le> s" "s < ps_n p * (ps_n p - 1)" and b: "0 \<le> b" "b < ps_k p"
  shows "i32 ((s * ps_m p + b) * (s div ps_n p + 1)) mod ps_n p = primes_disk p s b"
  using disk_i32[OF ok s b, of "s div ps_n p + 1"] stripe_split[OF ok s] primes_ok_bounds[OF ok]
  by (simp add: primes_disk_def)

lemma next_elem_iter_at:
  assumes ok: "primes_ok p" and pos: "iter_pos p r s b"
  shows "next_elem (iter_at p r s b e) =
    Some (primes_disk p s b, cl_offset (primes_id2loc p (chunk_of p r s b)))"
    "primes_id2loc p (chunk_of p r s b) = \<lparr>cl_disk = primes_disk p s b,
       cl_offset = cl_offset (primes_id2loc p (chunk_of p r s b))\<rparr>"
proof -
  note pb = primes_ok_bounds[OF ok]
  note q = pos[unfolded iter_pos_def]
  have r: "0 \<le> r" "(r + 1) * ps_datachunks p \<le> 2 ^ 63" and s: "0 \<le> s" "s < ps_n p * (ps_n p - 1)"
    and b: "0 \<le> b" "b < ps_k p" using q by auto
  let ?c = "chunk_of p r s b"
  note co = chunk_of_coords[OF ok r s b]
  note e = primes_id2loc_eq[OF ok co(1), unfolded co(2-4)]
  show "primes_id2loc p ?c = \<lparr>cl_disk = primes_disk p s b, cl_offset = cl_offset (primes_id2loc p ?c)\<rparr>"
    unfolding e by simp
  have a: "int (chunk_address ?c) mod ps_datachunks p = s * ps_m p + (if b < ps_m p then b else 0)"
  proof -
    have "int (chunk_address ?c) mod ps_datachunks p
        = primes_stripe p ?c * ps_m p + int (chunk_address ?c) mod ps_datachunks p mod ps_m p"
      by (simp add: primes_stripe_def)
    moreover have "int (chunk_address ?c) mod ps_datachunks p mod ps_m p = (if b < ps_m p then b else 0)"
    proof (cases "b < ps_m p")
      case True
      then show ?thesis using co(4) by (simp add: chunk_of_def)
    next
      case False
      then have "primes_valid_id p (Parity (chunk_address ?c) (b - ps_m p))" using co(1) by (simp add: chunk_of_def)
      then have "ps_m p dvd int (chunk_address ?c)" by simp
      then show ?thesis using False m_dvd_datachunks[OF ok] by (simp add: mod_mod_cancel)
    qed
    ultimately show ?thesis using co(3) by simp
  qed
  have ow: "offset_within_stripe ?c (s * ps_m p + (if b < ps_m p then b else 0)) s (ps_m p) = b"
    using offset_within_stripe_eq[OF ok co(1)] by (simp only: co(3,4) a)
  have dr: "0 \<le> primes_disk p s b" "primes_disk p s b < ps_n p" using primes_disk_range[OF ok] by auto
  have w: "i16 (primes_disk p s b) = primes_disk p s b" "cast_u 64 (primes_disk p s b) = nat (primes_disk p s b)"
    using dr pb by (simp_all add: i16_id cast_u_id)
  define v where "v = s div ps_n p * ps_k p + int (disk_rank p (s div ps_n p) (primes_disk p s b) (s mod ps_n p))"
  have v: "0 \<le> v" "v < ps_depth p"
    unfolding v_def using iteration_offset_bound[OF ok stripe_split(1,2)[OF ok s] _ disk_rank_bound(3)[OF ok s b]]
    by simp_all
  have "r * ps_depth p \<le> r * ps_datachunks p" using r(1) pb by (intro mult_left_mono) auto
  also have "\<dots> < 2 ^ 63" using r(2) pb by (simp add: distrib_right)
  finally have rd: "0 \<le> r * ps_depth p" "r * ps_depth p < 2 ^ 63" using r(1) pb by simp_all
  have w3: "wrapi 64 (ps_depth p) = ps_depth p" "wrapi 64 v = v" "wrapi 64 (r * ps_depth p) = r * ps_depth p"
    "cast_u 64 (v + r * ps_depth p) = nat (r * ps_depth p + v)"
    using rd v pb by (simp_all add: wrapi_def cast_u_def add.commute)
  have get: "vec_get (o_state p s b) (nat (primes_disk p s b)) = Some v"
    unfolding v_def by (rule o_state_get[OF ok s b])
  show "next_elem (iter_at p r s b e) = Some (primes_disk p s b, cl_offset (primes_id2loc p ?c))"
    unfolding next_elem_def iter_at_def PrimeSIter.select_convs Let_def ow
      primes_disk_i32[OF ok s b] w get e v_def[symmetric] by (simp add: w3)
qed

section \<open>The steps of the iterators\<close>

definition next_stripe :: "PrimeS \<Rightarrow> int \<Rightarrow> int \<Rightarrow> int \<times> int" where
  "next_stripe p r s = (if s + 1 < ps_n p * (ps_n p - 1) then (r, s + 1) else (r + 1, 0))"

lemma last_of_iteration:
  assumes ok: "primes_ok p" and s: "0 \<le> s" "s < ps_n p * (ps_n p - 1)" and l: "s mod ps_n p = ps_n p - 1"
  shows "s + 1 = (s div ps_n p + 1) * ps_n p"
    "s div ps_n p = ps_n p - 2 \<longleftrightarrow> \<not> s + 1 < ps_n p * (ps_n p - 1)"
proof -
  note pb = primes_ok_bounds[OF ok]
  note sp = stripe_split[OF ok s]
  have "s + 1 = s div ps_n p * ps_n p + (s mod ps_n p + 1)" by simp
  then show e: "s + 1 = (s div ps_n p + 1) * ps_n p" unfolding l by (simp add: distrib_right)
  have "s + 1 < ps_n p * (ps_n p - 1) \<longleftrightarrow> (s div ps_n p + 1) * ps_n p < (ps_n p - 1) * ps_n p"
    unfolding e[symmetric] by (simp add: mult.commute)
  also have "\<dots> \<longleftrightarrow> s div ps_n p + 1 < ps_n p - 1" using pb by simp
  finally show "s div ps_n p = ps_n p - 2 \<longleftrightarrow> \<not> s + 1 < ps_n p * (ps_n p - 1)" using sp by linarith
qed

lemma roll_over_at:
  assumes ok: "primes_ok p" and r: "0 \<le> r" "r < 2 ^ 63"
    and s: "0 \<le> s" "s < ps_n p * (ps_n p - 1)"
    and it: "it_n it = ps_n p" "it_stripe_iter it = s mod ps_n p" "it_z it = s div ps_n p" "it_stripe it = s"
      "it_r it = r" "it_y it = s div ps_n p + 1" "length (it_o it) = nat (ps_n p)"
    and a: "it_a it + inc = (s + 1) * ps_m p"
    and o: "bump (it_o it) disk = Some (o_state p s (ps_k p))"
    and ns: "next_stripe p r s = (r', s')"
  shows "roll_over it disk inc = Some (it\<lparr>it_a := s' * ps_m p, it_o := o_state p s' 0, it_r := r',
     it_stripe := s', it_stripe_iter := s' mod ps_n p, it_y := s' div ps_n p + 1,
     it_z := s' div ps_n p\<rparr>)"
proof -
  note pb = primes_ok_bounds[OF ok]
  note sp = stripe_split[OF ok s]
  have "ps_n p * (ps_n p - 1) \<le> 181 * 180" by (rule mult_mono) (use pb in auto)
  then have sl: "s < 32580" using s by simp
  have "(s + 1) * ps_m p \<le> 32580 * 181" by (rule mult_mono) (use sl s pb in auto)
  moreover have "0 \<le> (s + 1) * ps_m p" using s pb by simp
  ultimately have wa: "i32 (it_a it + inc) = (s + 1) * ps_m p" unfolding a by (intro i32_id) linarith+
  have ws: "i16 (s + 1) = s + 1" using sl s by (intro i16_id) linarith+
  have t256: "0 \<le> s mod ps_n p + 1" "s mod ps_n p + 1 < 256" using sp pb by linarith+
  have w8: "wrapi 8 (ps_n p - 1) = ps_n p - 1" "wrapi 8 (ps_n p - 1 - 1) = ps_n p - 2"
    "wrapi 8 (s div ps_n p + 1) = s div ps_n p + 1"
    using sp pb by (simp_all add: wrapi_def)
  have "wrapi 8 (s mod ps_n p + 1) = s mod ps_n p + 1"
    unfolding wrapi_def using t256 by (intro mod_pos_pos_trivial) auto
  note w8 = w8 this
  consider "s mod ps_n p < ps_n p - 1" | "s mod ps_n p = ps_n p - 1" "s + 1 < ps_n p * (ps_n p - 1)"
    | "s mod ps_n p = ps_n p - 1" "\<not> s + 1 < ps_n p * (ps_n p - 1)" using sp by linarith
  then show ?thesis
  proof cases
    case 1
    have d: "(s + 1) div ps_n p = s div ps_n p" "(s + 1) mod ps_n p = s mod ps_n p + 1"
      using divmod_succ[of "ps_n p" s] 1 pb by simp_all
    have lt: "s + 1 < ps_n p * (ps_n p - 1)"
    proof (rule ccontr)
      assume "\<not> s + 1 < ps_n p * (ps_n p - 1)"
      then have "s + 1 = (ps_n p - 1) * ps_n p" using s by (simp add: mult.commute)
      then have "(s + 1) mod ps_n p = 0" by simp
      then show False using d(2) sp by simp
    qed
    then have n: "r' = r" "s' = s + 1" using ns by (simp_all add: next_stripe_def)
    show ?thesis
      using 1 o_state_next_stripe[OF ok s(1) lt] it wa ws w8 d o
      by (simp add: roll_over_def stripes_per_iteration_def n)
  next
    case 2
    have n: "r' = r" "s' = s + 1" using ns 2 by (simp_all add: next_stripe_def)
    have ne: "s div ps_n p \<noteq> ps_n p - 2" using last_of_iteration(2)[OF ok s 2(1)] 2 by simp
    have d: "(s + 1) div ps_n p = s div ps_n p + 1" "(s + 1) mod ps_n p = 0"
      unfolding last_of_iteration(1)[OF ok s 2(1)] using pb by simp_all
    have y: "(s div ps_n p + 1) mod (ps_n p - 1) = s div ps_n p + 1" using ne sp by simp
    have wy: "wrapi 8 (s div ps_n p + 1 + 1) = s div ps_n p + 1 + 1" using sp pb by (simp add: wrapi_def)
    show ?thesis
      using 2 o_state_next_stripe[OF ok s(1) 2(2)] it wa ws w8 d o ne y wy
      by (simp add: roll_over_def stripes_per_iteration_def iterations_per_rep_def n)
  next
    case 3
    have n: "r' = r + 1" "s' = 0" using ns 3 by (simp_all add: next_stripe_def)
    have l: "s div ps_n p = ps_n p - 2" using last_of_iteration(2)[OF ok s 3(1)] 3 by simp
    have z: "map (\<lambda>_. 0) (it_o it) = o_state p 0 0"
      using o_state_iteration_start[OF ok, of 0] it by (simp add: map_replicate_const)
    have wr: "wrapi 64 (r + 1) = r + 1" using r by (simp add: wrapi_def)
    show ?thesis
      using 3 it w8 l z wr by (simp add: roll_over_def stripes_per_iteration_def iterations_per_rep_def n)
  qed
qed

lemma iter_at_simps [simp]:
  "it_id (iter_at p r s b e) = chunk_of p r s b" "it_end (iter_at p r s b e) = e"
  "it_a (iter_at p r s b e) = s * ps_m p + (if b < ps_m p then b else 0)"
  "it_f (iter_at p r s b e) = ps_f p" "it_depth (iter_at p r s b e) = ps_depth p"
  "it_m (iter_at p r s b e) = ps_m p" "it_n (iter_at p r s b e) = ps_n p"
  "it_o (iter_at p r s b e) = o_state p s b" "it_r (iter_at p r s b e) = r"
  "it_stripe (iter_at p r s b e) = s" "it_stripe_iter (iter_at p r s b e) = s mod ps_n p"
  "it_y (iter_at p r s b e) = s div ps_n p + 1" "it_z (iter_at p r s b e) = s div ps_n p"
  by (simp_all add: iter_at_def)

lemma iter_at_same_stripe:
  "(iter_at p r s b e)\<lparr>it_a := a, it_o := o_state p s b', it_id := c\<rparr> = iter_at p r s b' e"
  if "a = s * ps_m p + (if b' < ps_m p then b' else 0)" "c = chunk_of p r s b'"
  using that by (simp add: iter_at_def)

lemma iter_at_new_stripe:
  "(iter_at p r s b e)\<lparr>it_o := os, it_a := s' * ps_m p, it_o := o_state p s' 0, it_r := r',
     it_stripe := s', it_stripe_iter := s' mod ps_n p, it_y := s' div ps_n p + 1,
     it_z := s' div ps_n p, it_id := c\<rparr> = iter_at p r' s' 0 e"
  if "c = chunk_of p r' s' 0" "0 < ps_m p"
  using that by (simp add: iter_at_def)

lemma next_stripe_address:
  assumes ok: "primes_ok p" and ns: "next_stripe p r s = (r', s')" and s: "s < ps_n p * (ps_n p - 1)"
  shows "chunk_of p r' s' 0 = Data (nat (r * ps_datachunks p + s * ps_m p + ps_m p))"
proof (cases "s + 1 < ps_n p * (ps_n p - 1)")
  case True
  then show ?thesis
    using ns primes_ok_bounds[OF ok] by (auto simp: next_stripe_def chunk_of_def algebra_simps)
next
  case False
  then have "ps_datachunks p = (s + 1) * ps_m p" using s ok by (simp add: primes_ok_def)
  then show ?thesis
    using False ns primes_ok_bounds[OF ok] by (auto simp: next_stripe_def chunk_of_def algebra_simps)
qed

definition iter_succ :: "PrimeS \<Rightarrow> int \<times> int \<times> int \<Rightarrow> int \<times> int \<times> int" where
  "iter_succ p x = (case x of (r, s, b) \<Rightarrow>
     if b + 1 < ps_k p then (r, s, b + 1) else (case next_stripe p r s of (r', s') \<Rightarrow> (r', s', 0)))"

definition data_succ :: "PrimeS \<Rightarrow> int \<times> int \<times> int \<Rightarrow> int \<times> int \<times> int" where
  "data_succ p x = (case x of (r, s, b) \<Rightarrow>
     if b + 1 < ps_m p then (r, s, b + 1) else (case next_stripe p r s of (r', s') \<Rightarrow> (r', s', 0)))"

lemma iter_pos_bounds:
  assumes ok: "primes_ok p" and pos: "iter_pos p r s b"
  shows "s < 32580" "s * ps_m p \<le> 5896980" "0 \<le> s * ps_m p" "0 \<le> r * ps_datachunks p"
    "r * ps_datachunks p + s * ps_m p + ps_m p \<le> 2 ^ 63" "r < 2 ^ 63"
proof -
  note pb = primes_ok_bounds[OF ok]
  note q = pos[unfolded iter_pos_def]
  have "ps_n p * (ps_n p - 1) \<le> 181 * 180" by (rule mult_mono) (use pb in auto)
  then show s: "s < 32580" using q by simp
  have "s * ps_m p \<le> 32580 * 181" by (rule mult_mono) (use q s pb in auto)
  then show "s * ps_m p \<le> 5896980" by simp
  show "0 \<le> s * ps_m p" "0 \<le> r * ps_datachunks p" using q pb by simp_all
  have "(s + 1) * ps_m p \<le> ps_n p * (ps_n p - 1) * ps_m p" using q pb by (intro mult_right_mono) auto
  then have "s * ps_m p + ps_m p \<le> ps_datachunks p" using ok by (simp add: primes_ok_def distrib_right)
  then show "r * ps_datachunks p + s * ps_m p + ps_m p \<le> 2 ^ 63" using q by (simp add: distrib_right)
  have "1 * (r + 1) \<le> ps_datachunks p * (r + 1)" using q pb by (intro mult_right_mono) auto
  then have "r + 1 \<le> (r + 1) * ps_datachunks p" by (simp only: mult_1 mult.commute)
  then show "r < 2 ^ 63" using q by linarith
qed

lemma iter_next_step:
  assumes ok: "primes_ok p" and pos: "iter_pos p r s b" and ne: "chunk_of p r s b \<noteq> e"
    and sc: "iter_succ p (r, s, b) = (r', s', b')"
  shows "iter_next (iter_at p r s b e)
    = Some (Some (chunk_of p r s b, primes_id2loc p (chunk_of p r s b)), iter_at p r' s' b' e)"
proof -
  note pb = primes_ok_bounds[OF ok]
  note q = pos[unfolded iter_pos_def]
  note ib = iter_pos_bounds[OF ok pos]
  have s: "0 \<le> s" "s < ps_n p * (ps_n p - 1)" and b: "0 \<le> b" "b < ps_k p" using q by auto
  note ne1 = next_elem_iter_at[OF ok pos]
  note bu = bump_o_state[OF ok s b]
  let ?x = "nat (r * ps_datachunks p + s * ps_m p)"
  have wa: "b < ps_m p \<Longrightarrow> i32 (s * ps_m p + b + 1) = s * ps_m p + b + 1" "i32 (s * ps_m p) = s * ps_m p"
    using ib b pb by (intro i32_id; linarith)+
  have wl: "i16 (s + 1) = s + 1" using ib s by (intro i16_id) linarith+
  have wm: "i32 ((s + 1) * ps_m p - 1) = s * ps_m p + ps_m p - 1"
    using ib pb by (subst i32_id) (simp_all add: distrib_right)
  have w1: "wrapi 8 (ps_m p - 1) = ps_m p - 1" "wrapi 8 (ps_f p - 1) = ps_f p - 1"
    using pb by (simp_all add: wrapi_def)
  consider "b + 1 < ps_m p" | "b + 1 = ps_m p" | "ps_m p \<le> b" "b + 1 < ps_k p" | "b + 1 = ps_k p"
    using b by linarith
  then show ?thesis
  proof cases
    case 1
    have sc': "r' = r" "s' = s" "b' = b + 1" using sc 1 pb by (auto simp: iter_succ_def)
    define i where "i = nat (r * ps_datachunks p + s * ps_m p + b)"
    have c: "chunk_of p r s b = Data i" using 1 by (simp add: chunk_of_def i_def)
    have "u64 (i + 1) = nat (r * ps_datachunks p + s * ps_m p + (b + 1))"
      unfolding i_def using ib 1 b by (subst wrapu_id) (simp_all add: nat_add_distrib)
    then have c': "chunk_of p r s (b + 1) = Data (u64 (i + 1))" using 1 by (simp add: chunk_of_def)
    show ?thesis
      using 1 c ne ne1 bu wl wm wa(1) sc'
      by (simp add: iter_next_def) (simp add: iter_at_def c')
  next
    case 2
    have sc': "r' = r" "s' = s" "b' = b + 1" using sc 2 pb by (auto simp: iter_succ_def)
    define i where "i = nat (r * ps_datachunks p + s * ps_m p + b)"
    have c: "chunk_of p r s b = Data i" using 2 by (simp add: chunk_of_def i_def)
    have "wsub 64 i (nat (ps_m p - 1)) = i - nat (ps_m p - 1)"
      unfolding i_def using ib 2 b by (subst wsub_id) auto
    also have "\<dots> = nat (r * ps_datachunks p + s * ps_m p)" unfolding i_def using ib 2 b by auto
    finally have c': "chunk_of p r s (b + 1) = Parity (wsub 64 i (nat (ps_m p - 1))) 0"
      using 2 by (simp add: chunk_of_def)
    show ?thesis
      using 2 c ne ne1 bu wl wm wa(2) sc' w1
      by (simp add: iter_next_def) (simp add: iter_at_def c'[unfolded 2])
  next
    case 3
    have sc': "r' = r" "s' = s" "b' = b + 1" using sc 3 pb by (auto simp: iter_succ_def)
    have c: "chunk_of p r s b = Parity ?x (b - ps_m p)" using 3 by (simp add: chunk_of_def)
    have "i16 (b - ps_m p + 1) = b + 1 - ps_m p" using 3 pb by (subst i16_id) auto
    then have c': "chunk_of p r s (b + 1) = Parity ?x (i16 (b - ps_m p + 1))" using 3 by (simp add: chunk_of_def)
    have lt: "b - ps_m p < ps_f p - 1" using 3 pb by linarith
    show ?thesis
      using 3 c ne ne1 bu sc' w1 lt
      by (simp add: iter_next_def) (simp add: iter_at_def c')
  next
    case 4
    then have ns: "next_stripe p r s = (r', s')" "b' = 0" using sc by (auto simp: iter_succ_def split: prod.splits)
    have c: "chunk_of p r s b = Parity ?x (b - ps_m p)" using 4 pb by (simp add: chunk_of_def)
    have nlt: "\<not> b - ps_m p < ps_f p - 1" "\<not> b < ps_m p" using 4 pb by linarith+
    have "u64 (?x + nat (ps_m p)) = nat (r * ps_datachunks p + s * ps_m p + ps_m p)"
      using ib pb by (subst wrapu_id) (simp_all add: nat_add_distrib[symmetric])
    then have c': "chunk_of p r' s' 0 = Data (u64 (?x + nat (ps_m p)))"
      using next_stripe_address[OF ok ns(1) s(2)] by simp
    have ro: "roll_over (iter_at p r s b e) (primes_disk p s b) (ps_m p)
        = Some ((iter_at p r s b e)\<lparr>it_a := s' * ps_m p, it_o := o_state p s' 0, it_r := r',
            it_stripe := s', it_stripe_iter := s' mod ps_n p, it_y := s' div ps_n p + 1,
            it_z := s' div ps_n p\<rparr>)"
      using nlt bu 4 q ib pb
      by (intro roll_over_at[OF ok _ _ s _ _ _ _ _ _ _ _ _ ns(1)]) (auto simp: o_state_def distrib_right)
    show ?thesis
      using c ne ne1 ns(2) w1 nlt pb ro
      by (simp add: iter_next_def) (simp add: iter_at_def c')
  qed
qed

lemma iter_data_next_step:
  assumes ok: "primes_ok p" and pos: "iter_pos p r s b" and bm: "b < ps_m p" and ne: "chunk_of p r s b \<noteq> e"
    and sc: "data_succ p (r, s, b) = (r', s', b')"
  shows "iter_data_next (iter_at p r s b e)
    = Some (Some (chunk_of p r s b, primes_id2loc p (chunk_of p r s b)), iter_at p r' s' b' e)"
proof -
  note pb = primes_ok_bounds[OF ok]
  note q = pos[unfolded iter_pos_def]
  note ib = iter_pos_bounds[OF ok pos]
  have s: "0 \<le> s" "s < ps_n p * (ps_n p - 1)" and b: "0 \<le> b" "b < ps_k p" using q by auto
  note ne1 = next_elem_iter_at[OF ok pos]
  note bu = bump_o_state[OF ok s b]
  define i where "i = nat (r * ps_datachunks p + s * ps_m p + b)"
  have c: "chunk_of p r s b = Data i" using bm by (simp add: chunk_of_def i_def)
  have u: "u64 (i + 1) = nat (r * ps_datachunks p + s * ps_m p + (b + 1))"
    unfolding i_def using ib bm b by (subst wrapu_id) (simp_all add: nat_add_distrib)
  have wa: "i32 (s * ps_m p + b + 1) = s * ps_m p + b + 1" using ib b bm pb by (intro i32_id) linarith+
  have wm: "i32 ((s + 1) * ps_m p - 1) = s * ps_m p + ps_m p - 1"
    using ib pb by (subst i32_id) (simp_all add: distrib_right)
  show ?thesis
  proof (cases "b + 1 < ps_m p")
    case True
    have sc': "r' = r" "s' = s" "b' = b + 1" using sc True by (auto simp: data_succ_def)
    have c': "chunk_of p r s (b + 1) = Data (u64 (i + 1))" using True u by (simp add: chunk_of_def)
    show ?thesis
      using True bm c ne ne1 bu wm wa sc'
      by (simp add: iter_data_next_def) (simp add: iter_at_def c')
  next
    case False
    then have e1: "b + 1 = ps_m p" using bm by linarith
    have ns: "next_stripe p r s = (r', s')" "b' = 0"
      using sc False by (auto simp: data_succ_def split: prod.splits)
    have c': "chunk_of p r' s' 0 = Data (u64 (i + 1))"
      using next_stripe_address[OF ok ns(1) s(2)] u e1 by (simp add: add.assoc)
    let ?ds = "map (\<lambda>i. wrapi 8 (i32 ((s * ps_m p + wrapi 8 (ps_m p + i)) * (s div ps_n p + 1)) mod ps_n p))
        [0..ps_f p - 1]"
    have ds: "?ds = map (primes_disk p s) [b + 1..ps_k p - 1]"
    proof -
      have "?ds = map (\<lambda>i. primes_disk p s (i + ps_m p)) [0..ps_f p - 1]"
      proof (rule map_cong[OF refl])
        fix i assume "i \<in> set [0..ps_f p - 1]"
        then have i: "0 \<le> ps_m p + i" "ps_m p + i < ps_k p" using pb by auto
        then have "wrapi 8 (ps_m p + i) = ps_m p + i" using pb by (simp add: wrapi_def)
        moreover have "wrapi 8 (primes_disk p s (ps_m p + i)) = primes_disk p s (ps_m p + i)"
          using primes_disk_range[OF ok, of s "ps_m p + i"] pb by (simp add: wrapi_def)
        ultimately show "wrapi 8 (i32 ((s * ps_m p + wrapi 8 (ps_m p + i)) * (s div ps_n p + 1)) mod ps_n p)
            = primes_disk p s (i + ps_m p)"
          using primes_disk_i32[OF ok s i] by (simp add: add.commute)
      qed
      also have "\<dots> = map (primes_disk p s) (map (\<lambda>i. i + ps_m p) [0..ps_f p - 1])" by simp
      also have "map (\<lambda>i. i + ps_m p) [0..ps_f p - 1] = [b + 1..ps_k p - 1]"
        unfolding e1 using pb map_add_upto_shift by simp
      finally show ?thesis .
    qed
    have all: "bump_all (o_state p s (b + 1)) ?ds = Some (o_state p s (ps_k p))"
      unfolding ds using b by (intro bump_all_o_state[OF ok s]) auto
    have "bump_all (o_state p s b) ?ds \<bind> (\<lambda>os'. bump os' (primes_disk p s b)) = Some (o_state p s (ps_k p))"
      unfolding bump_all_last bu using all by simp
    then obtain os where os: "bump_all (o_state p s b) ?ds = Some os"
      "bump os (primes_disk p s b) = Some (o_state p s (ps_k p))" by (auto simp: bind_eq_Some_conv)
    have ln: "length os = nat (ps_n p)"
      using bump_all_length[OF os(1)] by (simp add: o_state_def)
    have ro: "roll_over ((iter_at p r s b e)\<lparr>it_o := os\<rparr>) (primes_disk p s b) 1
        = Some ((iter_at p r s b e)\<lparr>it_o := os, it_a := s' * ps_m p, it_o := o_state p s' 0, it_r := r',
            it_stripe := s', it_stripe_iter := s' mod ps_n p, it_y := s' div ps_n p + 1,
            it_z := s' div ps_n p\<rparr>)"
      using bm e1 q ib pb ln os(2)
      by (intro roll_over_at[OF ok _ _ s _ _ _ _ _ _ _ _ _ ns(1)]) (auto simp: distrib_right)
    show ?thesis
      using c ne ne1 ns(2) bm e1 pb ro os(1) wm
      by (simp add: iter_data_next_def) (simp add: iter_at_def c')
  qed
qed

section \<open>Construction\<close>

lemma disk_in_iteration:
  assumes ok: "primes_ok p" and z: "0 \<le> z" "z < ps_n p - 1" and t: "0 \<le> t" "t < ps_n p"
    and b: "0 \<le> b" "b < ps_k p"
  shows "i32 ((t * ps_m p + b) * (z + 1)) mod ps_n p = primes_disk p (z * ps_n p + t) b"
proof -
  note pb = primes_ok_bounds[OF ok]
  have "ps_n p * 1 \<le> ps_n p * (ps_n p - 1)" using pb by (intro mult_left_mono) auto
  then have "t < ps_n p * (ps_n p - 1)" using t by linarith
  then have w: "i32 ((t * ps_m p + b) * (z + 1)) = (t * ps_m p + b) * (z + 1)"
    using disk_i32[OF ok t(1) _ b, of "z + 1"] z pb by simp
  have d: "(z * ps_n p + t) div ps_n p = z" using t pb by (simp add: div_pos_pos_trivial)
  have "((z * ps_n p + t) * ps_m p + b) * (z + 1)
      = (t * ps_m p + b) * (z + 1) + ps_n p * (z * ps_m p * (z + 1))" by (simp add: algebra_simps)
  then show ?thesis unfolding primes_disk_def d w by simp
qed

lemma iteration_stripe_bound:
  assumes "primes_ok p" "0 \<le> z" "z < ps_n p - 1" "0 \<le> t" "t < ps_n p"
  shows "0 \<le> z * ps_n p + t" "z * ps_n p + t < ps_n p * (ps_n p - 1)"
proof -
  show "0 \<le> z * ps_n p + t" using assms primes_ok_bounds[OF assms(1)] by simp
  have "(z + 1) * ps_n p \<le> (ps_n p - 1) * ps_n p"
    using assms primes_ok_bounds[OF assms(1)] by (intro mult_right_mono) auto
  then have "z * ps_n p + ps_n p \<le> ps_n p * (ps_n p - 1)" by (simp add: algebra_simps)
  then show "z * ps_n p + t < ps_n p * (ps_n p - 1)" using assms(5) by linarith
qed

lemma bump_all_stripes:
  assumes ok: "primes_ok p" and z: "0 \<le> z" "z < ps_n p - 1"
  shows "int t < ps_n p \<Longrightarrow> bump_all (o_state p (z * ps_n p) 0)
    (concat (map (\<lambda>s. map (primes_disk p (z * ps_n p + s)) [0..ps_k p - 1]) [0..int t - 1]))
    = Some (o_state p (z * ps_n p + int t) 0)"
proof (induction t)
  case (Suc t)
  note pb = primes_ok_bounds[OF ok]
  have sb: "0 \<le> z * ps_n p + int t" "z * ps_n p + int t < ps_n p * (ps_n p - 1)"
    "z * ps_n p + int t + 1 < ps_n p * (ps_n p - 1)"
    using iteration_stripe_bound[OF ok z, of "int t"] iteration_stripe_bound[OF ok z, of "int t + 1"] Suc.prems
    by (auto simp: add.assoc)
  have up: "[0..int (Suc t) - 1] = [0..int t - 1] @ [int t]" by (simp add: upto_rec2)
  have "bump_all (o_state p (z * ps_n p + int t) 0) (map (primes_disk p (z * ps_n p + int t)) [0..ps_k p - 1])
      = Some (o_state p (z * ps_n p + int t) (ps_k p))"
    using pb by (intro bump_all_o_state[OF ok sb(1,2)]) auto
  then show ?case
    using Suc o_state_next_stripe[OF ok sb(1,3)] unfolding up
    by (simp add: bump_all_append add.assoc add.commute[of 1])
qed simp

lemma iter_new_at:
  assumes ok: "primes_ok p" and v: "primes_valid_id p c"
  shows "iter_new p c e = Some (iter_at p (primes_rep p c) (primes_stripe p c) (primes_unit p c) e)"
proof -
  note pb = primes_ok_bounds[OF ok]
  define s where "s = primes_stripe p c"
  define b where "b = primes_unit p c"
  define z where "z = s div ps_n p"
  define t where "t = s mod ps_n p"
  note sb = primes_stripe_bounds[OF ok, of c, folded s_def]
  note ub = primes_unit_bounds[OF ok v, folded b_def]
  have z: "0 \<le> z" "z < ps_n p - 1" and t: "0 \<le> t" "t < ps_n p"
    using stripe_split[OF ok sb(1,2)] by (simp_all add: z_def t_def)
  have st: "z * ps_n p + t = s" by (simp add: z_def t_def)
  have ow: "offset_within_stripe c (int (chunk_address c) mod ps_datachunks p) s (ps_m p) = b"
    unfolding s_def b_def by (rule offset_within_stripe_eq[OF ok v])
  have "ps_k p * z \<le> 181 * 179" by (rule mult_mono) (use z pb in auto)
  moreover have "0 \<le> ps_k p * z" using z pb by simp
  ultimately have w0: "i16 (ps_k p * z) = z * ps_k p" using i16_id[of "ps_k p * z"] by (simp add: mult.commute)
  have w8: "wrapi 8 t = t" "wrapi 8 (z + 1) = z + 1" "wrapi 8 z = z"
    using z t pb by (simp_all add: wrapi_def)
  let ?row = "\<lambda>x. map (\<lambda>b. i32 ((x * ps_m p + b) * (z + 1)) mod ps_n p) [0..(if x = t then b else ps_k p) - 1]"
  have row: "?row x = map (primes_disk p (z * ps_n p + x)) [0..(if x = t then b else ps_k p) - 1]"
    if "0 \<le> x" "x \<le> t" for x
    using disk_in_iteration[OF ok z that(1)] that(2) t(2) ub by (auto split: if_splits)
  have "concat (map ?row [0..t]) = concat (map (\<lambda>x. map (primes_disk p (z * ps_n p + x)) [0..ps_k p - 1]) [0..t - 1])
      @ map (primes_disk p s) [0..b - 1]"
  proof -
    have up: "[0..t] = [0..t - 1] @ [t]" using t by (simp add: upto_rec2)
    have "map ?row [0..t] = map (\<lambda>x. map (primes_disk p (z * ps_n p + x)) [0..(if x = t then b else ps_k p) - 1]) [0..t]"
      using row by (intro map_cong) auto
    then have m: "map ?row [0..t] = map (\<lambda>x. map (primes_disk p (z * ps_n p + x))
        [0..(if x = t then b else ps_k p) - 1]) ([0..t - 1] @ [t])" by (simp only: up)
    have f: "map (\<lambda>x. map (primes_disk p (z * ps_n p + x)) [0..(if x = t then b else ps_k p) - 1]) [0..t - 1]
        = map (\<lambda>x. map (primes_disk p (z * ps_n p + x)) [0..ps_k p - 1]) [0..t - 1]"
      by (intro map_cong) auto
    show ?thesis unfolding m map_append concat_append f by (simp add: st)
  qed
  then have "bump_all (replicate (nat (ps_n p)) (z * ps_k p)) (concat (map ?row [0..t])) = Some (o_state p s b)"
    using bump_all_stripes[OF ok z, of "nat t"] t bump_all_o_state[OF ok sb(1,2), of 0 b] ub st
    by (simp add: bump_all_append o_state_iteration_start[OF ok, symmetric])
  moreover have "int (chunk_address c) mod ps_datachunks p = s * ps_m p + (if b < ps_m p then b else 0)"
  proof (cases c)
    case (Data i)
    then show ?thesis using pb by (simp add: s_def b_def primes_stripe_def)
  next
    case (Parity i j)
    then have "ps_m p dvd int i mod ps_datachunks p" using v m_dvd_datachunks[OF ok] by (simp add: dvd_mod)
    then show ?thesis using Parity v by (simp add: s_def b_def primes_stripe_def)
  qed
  moreover have "chunk_of p (primes_rep p c) s b = c" unfolding s_def b_def by (rule chunk_of_id[OF ok v])
  ultimately show ?thesis
    unfolding iter_new_def id2loc_int_eq[OF ok] Let_def ChunklocInt.select_convs s_def[symmetric] b_def[symmetric]
      ow z_def[symmetric] t_def[symmetric] w0 w8
    by (simp add: iter_at_def z_def t_def)
qed

section \<open>Whole runs of the iterators\<close>

lemma iter_next_end: "chunk_of p r s b = e \<Longrightarrow> iter_next (iter_at p r s b e) = Some (None, iter_at p r s b e)"
  by (simp add: iter_next_def)

lemma iter_data_next_end:
  "chunk_of p r s b = e \<Longrightarrow> iter_data_next (iter_at p r s b e) = Some (None, iter_at p r s b e)"
  by (simp add: iter_data_next_def)

lemma data_succ_chunk:
  assumes ok: "primes_ok p" and pos: "iter_pos p r s b" and bm: "b < ps_m p" and c: "chunk_of p r s b = Data i"
    and sc: "data_succ p (r, s, b) = (r', s', b')"
  shows "chunk_of p r' s' b' = Data (i + 1)"
proof -
  note ib = iter_pos_bounds[OF ok pos]
  note q = pos[unfolded iter_pos_def]
  have i: "int i = r * ps_datachunks p + s * ps_m p + b" using c bm ib q by (auto simp: chunk_of_def)
  show ?thesis
  proof (cases "b + 1 < ps_m p")
    case True
    then show ?thesis using sc i by (auto simp: data_succ_def chunk_of_def)
  next
    case False
    then have "ps_m p = b + 1" using bm by linarith
    then have "nat (r * ps_datachunks p + s * ps_m p + ps_m p) = i + 1" using i by simp
    then show ?thesis
      using False sc next_stripe_address[OF ok _ , of r s r' s'] q
      by (auto simp: data_succ_def split: prod.splits)
  qed
qed

lemma data_pos:
  assumes ok: "primes_ok p" and i: "(int i div ps_datachunks p + 1) * ps_datachunks p \<le> 2 ^ 63"
  shows "iter_pos p (primes_rep p (Data i)) (primes_stripe p (Data i)) (primes_unit p (Data i))"
    "primes_valid_id p (Data i)" "primes_unit p (Data i) < ps_m p"
proof -
  note pb = primes_ok_bounds[OF ok]
  have "int i = int i div ps_datachunks p * ps_datachunks p + int i mod ps_datachunks p" by simp
  moreover have "int i mod ps_datachunks p < ps_datachunks p" using pb by simp
  ultimately have "int i < (int i div ps_datachunks p + 1) * ps_datachunks p"
    unfolding distrib_right mult_1 by linarith
  then have "int i < 2 ^ 63" using i by linarith
  then show v: "primes_valid_id p (Data i)" by simp
  show "primes_unit p (Data i) < ps_m p" using pb by simp
  show "iter_pos p (primes_rep p (Data i)) (primes_stripe p (Data i)) (primes_unit p (Data i))"
    using i primes_stripe_bounds[OF ok, of "Data i"] primes_unit_bounds[OF ok v] pb
    by (simp add: iter_pos_def primes_rep_def pos_imp_zdiv_nonneg_iff)
qed

lemma data_succ_coords:
  assumes ok: "primes_ok p" and i: "(int i div ps_datachunks p + 1) * ps_datachunks p \<le> 2 ^ 63"
    and i': "(int (i + 1) div ps_datachunks p + 1) * ps_datachunks p \<le> 2 ^ 63"
  shows "data_succ p (primes_rep p (Data i), primes_stripe p (Data i), primes_unit p (Data i))
       = (primes_rep p (Data (i + 1)), primes_stripe p (Data (i + 1)), primes_unit p (Data (i + 1)))"
proof -
  note pb = primes_ok_bounds[OF ok]
  note d = data_pos[OF ok i] and d' = data_pos[OF ok i']
  obtain r' s' b' where sc: "data_succ p (primes_rep p (Data i), primes_stripe p (Data i), primes_unit p (Data i)) = (r', s', b')"
    by (metis prod_cases3)
  have c: "chunk_of p r' s' b' = Data (i + 1)"
    by (rule data_succ_chunk[OF ok d(1) d(3) chunk_of_id[OF ok d(2)] sc])
  note q = d(1)[unfolded iter_pos_def]
  have rng: "0 \<le> r'" "0 \<le> s'" "s' < ps_n p * (ps_n p - 1)" "0 \<le> b'" "b' < ps_m p" "b' < ps_k p"
    using sc q d(3) pb by (auto simp: data_succ_def next_stripe_def split: if_splits)
  have a: "int (i + 1) = r' * ps_datachunks p + (s' * ps_m p + b')"
    using c rng pb by (auto simp: chunk_of_def split: if_splits)
  have "(s' + 1) * ps_m p \<le> ps_n p * (ps_n p - 1) * ps_m p" using rng pb by (intro mult_right_mono) auto
  then have "s' * ps_m p + b' < ps_datachunks p" "0 \<le> s' * ps_m p + b'"
    using rng pb ok by (simp_all add: primes_ok_def distrib_right)
  then have "(int (i + 1)) div ps_datachunks p = r'" unfolding a by (simp add: div_pos_pos_trivial)
  then have "(r' + 1) * ps_datachunks p \<le> 2 ^ 63" using i' by simp
  from chunk_of_coords[OF ok rng(1) this rng(2,3,4,6)] show ?thesis unfolding sc c by simp
qed

lemma collect_data:
  assumes ok: "primes_ok p" and j: "(int (i + n) div ps_datachunks p + 1) * ps_datachunks p \<le> 2 ^ 63"
  shows "iter_collect iter_data_next (n + 1) (iter_at p (primes_rep p (Data i)) (primes_stripe p (Data i))
       (primes_unit p (Data i)) (Data (i + n)))
     = Some (map (\<lambda>a. (Data a, primes_id2loc p (Data a))) [i..<i + n])"
  using j
proof (induction n arbitrary: i)
  case 0
  then have e: "chunk_of p (primes_rep p (Data i)) (primes_stripe p (Data i)) (primes_unit p (Data i)) = Data i"
    using chunk_of_id[OF ok data_pos(2)[OF ok]] by simp
  show ?case using iter_data_next_end[OF e] by simp
next
  case (Suc n)
  note pb = primes_ok_bounds[OF ok]
  have mono: "(int a div ps_datachunks p + 1) * ps_datachunks p \<le> 2 ^ 63" if "a \<le> i + Suc n" for a
  proof -
    have "int a div ps_datachunks p \<le> int (i + Suc n) div ps_datachunks p" using that pb by (intro zdiv_mono1) auto
    then have "(int a div ps_datachunks p + 1) * ps_datachunks p
        \<le> (int (i + Suc n) div ps_datachunks p + 1) * ps_datachunks p" using pb by (intro mult_right_mono) auto
    then show ?thesis using Suc.prems by linarith
  qed
  have mi: "(int i div ps_datachunks p + 1) * ps_datachunks p \<le> 2 ^ 63"
    and mi': "(int (i + 1) div ps_datachunks p + 1) * ps_datachunks p \<le> 2 ^ 63"
    by (intro mono; simp)+
  note d = data_pos[OF ok mi]
  note step = iter_data_next_step[OF ok d(1,3) _ data_succ_coords[OF ok mi mi'], of "Data (i + Suc n)",
      unfolded chunk_of_id[OF ok d(2)]]
  have "iter_collect iter_data_next (n + 1) (iter_at p (primes_rep p (Data (i + 1))) (primes_stripe p (Data (i + 1)))
       (primes_unit p (Data (i + 1))) (Data (i + 1 + n)))
     = Some (map (\<lambda>a. (Data a, primes_id2loc p (Data a))) [i + 1..<i + 1 + n])"
    using Suc.prems by (intro Suc.IH) (simp add: add.commute add.left_commute)
  then show ?case using step by (simp add: upt_rec[of i])
qed

lemma collect_data_range:
  assumes ok: "primes_ok p" and ij: "i \<le> j" and j: "(int j div ps_datachunks p + 1) * ps_datachunks p \<le> 2 ^ 63"
  shows "\<exists>it. primes_iter_data p (Data i) (Data j) = Some it \<and>
     iter_collect iter_data_next (j - i + 1) it = Some (map (\<lambda>a. (Data a, primes_id2loc p (Data a))) [i..<j])"
proof -
  note pb = primes_ok_bounds[OF ok]
  have "int i div ps_datachunks p \<le> int j div ps_datachunks p" using ij pb by (intro zdiv_mono1) auto
  then have "(int i div ps_datachunks p + 1) * ps_datachunks p \<le> (int j div ps_datachunks p + 1) * ps_datachunks p"
    using pb by (intro mult_right_mono) auto
  then have "(int i div ps_datachunks p + 1) * ps_datachunks p \<le> 2 ^ 63" using j by linarith
  note v = data_pos(2)[OF ok this]
  show ?thesis
    using collect_data[OF ok, of i "j - i"] ij j iter_new_at[OF ok v]
    by (simp add: primes_iter_data_def)
qed

section \<open>The successor of a chunk\<close>

text \<open>The order of the chunks: the data chunks of a stripe, then its parity chunks.\<close>

fun chunk_succ :: "PrimeS \<Rightarrow> ChunkId \<Rightarrow> ChunkId" where
  "chunk_succ p (Data i) =
     (if (i + 1) mod nat (ps_m p) = 0 then Parity (i + 1 - nat (ps_m p)) 0 else Data (i + 1))"
| "chunk_succ p (Parity i j) =
     (if j + 1 < ps_f p then Parity i (j + 1) else Data (i + nat (ps_m p)))"

lemma stripe_start_mod:
  assumes ok: "primes_ok p" and x: "0 \<le> r * ps_datachunks p" "0 \<le> s * ps_m p" "0 \<le> b"
  shows "(nat (r * ps_datachunks p + s * ps_m p + b)) mod nat (ps_m p) = nat (b mod ps_m p)"
proof -
  note pb = primes_ok_bounds[OF ok]
  have dc: "ps_datachunks p = ps_n p * (ps_n p - 1) * ps_m p" using ok by (simp add: primes_ok_def)
  have "r * ps_datachunks p + s * ps_m p + b = b + (r * (ps_n p * (ps_n p - 1)) + s) * ps_m p"
    unfolding dc by (simp add: algebra_simps)
  then have "(r * ps_datachunks p + s * ps_m p + b) mod ps_m p = b mod ps_m p"
    by (metis mod_mult_self1)
  then show ?thesis using x pb nat_mod_distrib[of "r * ps_datachunks p + s * ps_m p + b" "ps_m p"] by simp
qed

lemma chunk_succ_of:
  assumes ok: "primes_ok p" and pos: "iter_pos p r s b" and sc: "iter_succ p (r, s, b) = (r', s', b')"
  shows "chunk_of p r' s' b' = chunk_succ p (chunk_of p r s b)"
proof -
  note pb = primes_ok_bounds[OF ok]
  note ib = iter_pos_bounds[OF ok pos]
  note q = pos[unfolded iter_pos_def]
  have s: "s < ps_n p * (ps_n p - 1)" using q by simp
  let ?x = "r * ps_datachunks p + s * ps_m p"
  have m: "nat (?x + b + 1) mod nat (ps_m p) = nat ((b + 1) mod ps_m p)"
    using stripe_start_mod[OF ok ib(4,3), of "b + 1"] q by (simp add: add.assoc)
  have "0 \<le> ?x + b" using ib q by linarith
  then have n1: "nat (?x + b) + 1 = nat (?x + b + 1)" by simp
  consider "b + 1 < ps_m p" | "b + 1 = ps_m p" | "ps_m p \<le> b" "b + 1 < ps_k p" | "b + 1 = ps_k p"
    using q by linarith
  then show ?thesis
  proof cases
    case 1
    then have "nat (?x + b + 1) mod nat (ps_m p) \<noteq> 0" unfolding m using q by simp
    then show ?thesis using 1 sc pb n1 by (auto simp: iter_succ_def chunk_of_def add.assoc)
  next
    case 2
    then have z: "(nat (?x + b) + 1) mod nat (ps_m p) = 0" unfolding n1 m by simp
    have "nat (?x + b) + 1 - nat (ps_m p) = nat ?x" unfolding n1 using 2 ib pb by (simp add: nat_diff_distrib[symmetric])
    then show ?thesis using 2 sc pb z by (auto simp: iter_succ_def chunk_of_def)
  next
    case 3
    then show ?thesis using sc pb by (auto simp: iter_succ_def chunk_of_def)
  next
    case 4
    then have "next_stripe p r s = (r', s')" "b' = 0" using sc by (auto simp: iter_succ_def split: prod.splits)
    then show ?thesis
      using next_stripe_address[OF ok _ s] 4 pb ib by (auto simp: chunk_of_def nat_add_distrib[symmetric])
  qed
qed

lemma iter_succ_coords:
  assumes ok: "primes_ok p" and v: "primes_valid_id p c"
    and r: "(primes_rep p c + 2) * ps_datachunks p \<le> 2 ^ 63"
  shows "iter_succ p (primes_rep p c, primes_stripe p c, primes_unit p c)
      = (primes_rep p (chunk_succ p c), primes_stripe p (chunk_succ p c), primes_unit p (chunk_succ p c))"
    "primes_valid_id p (chunk_succ p c)" "iter_pos p (primes_rep p c) (primes_stripe p c) (primes_unit p c)"
proof -
  note pb = primes_ok_bounds[OF ok]
  have "(primes_rep p c + 1) * ps_datachunks p \<le> (primes_rep p c + 2) * ps_datachunks p"
    using pb by (intro mult_right_mono) auto
  then have r1: "(primes_rep p c + 1) * ps_datachunks p \<le> 2 ^ 63" using r by linarith
  show pos: "iter_pos p (primes_rep p c) (primes_stripe p c) (primes_unit p c)"
    using r1 primes_stripe_bounds[OF ok, of c] primes_unit_bounds[OF ok v] pb
    by (simp add: iter_pos_def primes_rep_def pos_imp_zdiv_nonneg_iff)
  obtain r' s' b' where sc: "iter_succ p (primes_rep p c, primes_stripe p c, primes_unit p c) = (r', s', b')"
    by (metis prod_cases3)
  note q = pos[unfolded iter_pos_def]
  have rng: "0 \<le> r'" "0 \<le> s'" "s' < ps_n p * (ps_n p - 1)" "0 \<le> b'" "b' < ps_k p"
    "r' = primes_rep p c \<or> r' = primes_rep p c + 1"
    using sc q pb by (auto simp: iter_succ_def next_stripe_def split: if_splits)
  have "(r' + 1) * ps_datachunks p \<le> 2 ^ 63" using rng(6) r r1 by (auto simp: add.assoc)
  note co = chunk_of_coords[OF ok rng(1) this rng(2-5)]
  have c: "chunk_of p r' s' b' = chunk_succ p c"
    using chunk_succ_of[OF ok pos sc] chunk_of_id[OF ok v] by simp
  show "iter_succ p (primes_rep p c, primes_stripe p c, primes_unit p c)
      = (primes_rep p (chunk_succ p c), primes_stripe p (chunk_succ p c), primes_unit p (chunk_succ p c))"
    "primes_valid_id p (chunk_succ p c)"
    using co c sc by simp_all
qed

section \<open>Properties\<close>

text \<open>C23. One step of the chunk iterator: an iterator built at chunk \<open>c\<close> returns \<open>c\<close> with the very
  location \<open>id2loc\<close> computes for it, and is then in the state that the constructor builds at the
  successor of \<open>c\<close>. So the incremental 8 and 16-bit state never drifts from the layout, across
  stripes, iterations and repetitions.\<close>

theorem iter_next_matches_layout:
  assumes "primes_new n k f = Some p" "n \<le> 181" "primes_valid_id p c" "c \<noteq> e"
    and "(primes_rep p c + 2) * ps_datachunks p \<le> 2 ^ 63"
  shows "\<exists>it it'. primes_iter p c e = Some it \<and> primes_iter p (chunk_succ p c) e = Some it' \<and>
     iter_next it = Some (Some (c, primes_id2loc p c), it')"
proof -
  have ok: "primes_ok p" using primes_new_ok(1)[OF assms(1,2)] .
  note sc = iter_succ_coords[OF ok assms(3,5)]
  note id = chunk_of_id[OF ok assms(3)]
  show ?thesis
    unfolding primes_iter_def iter_new_at[OF ok assms(3)] iter_new_at[OF ok sc(2)]
    using iter_next_step[OF ok sc(3) _ sc(1), of e, unfolded id] assms(4) by auto
qed

theorem iter_next_matches_layout_witness:
  "\<exists>it it'. primes_iter layout_5_4_1 (Parity 57 0) (Data 99) = Some it \<and>
     primes_iter layout_5_4_1 (Data 60) (Data 99) = Some it' \<and>
     iter_next it = Some (Some (Parity 57 0, primes_id2loc layout_5_4_1 (Parity 57 0)), it')"
  using iter_next_matches_layout[OF layout_5_4_1_new, of "Parity 57 0" "Data 99"]
  by (simp add: primes_rep_def)

text \<open>C24. The data iterator from \<open>Data i\<close> to \<open>Data j\<close> ends after \<open>j - i\<close> steps and yields exactly the
  data chunks in between, in order, each with the location \<open>id2loc\<close> computes for it; it neither
  panics nor returns a parity chunk.\<close>

theorem iter_data_enumerates:
  assumes "primes_new n k f = Some p" "n \<le> 181" "i \<le> j"
    and "(int j div ps_datachunks p + 1) * ps_datachunks p \<le> 2 ^ 63"
  shows "\<exists>it. primes_iter_data p (Data i) (Data j) = Some it \<and>
     iter_collect iter_data_next (j - i + 1) it = Some (map (\<lambda>a. (Data a, primes_id2loc p (Data a))) [i..<j])"
  by (rule collect_data_range[OF primes_new_ok(1)[OF assms(1,2)] assms(3,4)])

theorem iter_data_enumerates_witness:
  "\<exists>it. primes_iter_data layout_5_4_1 (Data 58) (Data 62) = Some it \<and>
     iter_collect iter_data_next 5 it = Some (map (\<lambda>a. (Data a, primes_id2loc layout_5_4_1 (Data a))) [58..<62])"
  using iter_data_enumerates[OF layout_5_4_1_new, of 58 62] by simp

end
