(* ===== verification/Raid_Layout.thy ===== *)
theory Raid_Layout
  imports Prime_S_Iter_Correct
begin

text \<open>
  What the RAID vdev relies on when it walks over the chunks of whole stripes with the layout's iterator:
  which chunks the iterator enumerates, and that the chunks of consecutive stripes fill a contiguous
  range of every disk.
\<close>

section \<open>Walking from chunk to chunk\<close>

text \<open>Chunks whose repetition and the next one lie below \<open>2^63\<close>.\<close>

definition chunk_in_range :: "PrimeS \<Rightarrow> nat \<Rightarrow> bool" where
  "chunk_in_range p a \<longleftrightarrow> (int a div ps_datachunks p + 2) * ps_datachunks p \<le> 2 ^ 63"

lemma chunk_in_range_mono: "primes_ok p \<Longrightarrow> chunk_in_range p b \<Longrightarrow> a \<le> b \<Longrightarrow> chunk_in_range p a"
proof -
  assume ok: "primes_ok p" and b: "chunk_in_range p b" and ab: "a \<le> b"
  note pb = primes_ok_bounds[OF ok]
  have "int a div ps_datachunks p \<le> int b div ps_datachunks p" using ab pb by (intro zdiv_mono1) auto
  then have "(int a div ps_datachunks p + 2) * ps_datachunks p \<le> (int b div ps_datachunks p + 2) * ps_datachunks p"
    using pb by (intro mult_right_mono) auto
  then show ?thesis using b by (simp add: chunk_in_range_def)
qed

lemma chunk_in_range_less:
  assumes "primes_ok p" "chunk_in_range p a" shows "a < 2 ^ 63"
proof -
  note pb = primes_ok_bounds[OF assms(1)]
  have "int a = int a div ps_datachunks p * ps_datachunks p + int a mod ps_datachunks p" by simp
  moreover have "int a mod ps_datachunks p < ps_datachunks p" using pb by simp
  ultimately have "int a < (int a div ps_datachunks p + 2) * ps_datachunks p"
    unfolding distrib_right using pb by linarith
  then have "int a < 2 ^ 63" using assms(2) by (simp add: chunk_in_range_def)
  then show ?thesis by simp
qed

text \<open>The steps of an iterator from chunk \<open>c\<close> through the chunks \<open>cs\<close>, none of which is its end \<open>e\<close>.\<close>

fun chunk_steps :: "PrimeS \<Rightarrow> ChunkId \<Rightarrow> ChunkId \<Rightarrow> ChunkId list \<Rightarrow> bool" where
  "chunk_steps p e c [] \<longleftrightarrow> True"
| "chunk_steps p e c (x # xs) \<longleftrightarrow>
     x = c \<and> c \<noteq> e \<and> chunk_in_range p (chunk_address c) \<and> chunk_steps p e (chunk_succ p c) xs"

fun chunk_after :: "PrimeS \<Rightarrow> ChunkId \<Rightarrow> 'a list \<Rightarrow> ChunkId" where
  "chunk_after p c [] = c"
| "chunk_after p c (x # xs) = chunk_after p (chunk_succ p c) xs"

lemma chunk_steps_append:
  "chunk_steps p e c (xs @ ys) \<longleftrightarrow> chunk_steps p e c xs \<and> chunk_steps p e (chunk_after p c xs) ys"
  by (induction xs arbitrary: c) auto

lemma chunk_after_append: "chunk_after p c (xs @ ys) = chunk_after p (chunk_after p c xs) ys"
  by (induction xs arbitrary: c) auto

text \<open>The iterator that stands at the chunk \<open>c\<close>.\<close>

definition iter_on :: "PrimeS \<Rightarrow> ChunkId \<Rightarrow> ChunkId \<Rightarrow> PrimeSIter" where
  "iter_on p c e = iter_at p (primes_rep p c) (primes_stripe p c) (primes_unit p c) e"

lemma iter_on_next:
  assumes "primes_ok p" "primes_valid_id p c" "chunk_in_range p (chunk_address c)" "c \<noteq> e"
  shows "iter_next (iter_on p c e) = Some (Some (c, primes_id2loc p c), iter_on p (chunk_succ p c) e)"
    "primes_valid_id p (chunk_succ p c)"
proof -
  have r: "(primes_rep p c + 2) * ps_datachunks p \<le> 2 ^ 63"
    using assms(3) by (simp add: chunk_in_range_def primes_rep_def)
  note sc = iter_succ_coords[OF assms(1,2) r]
  show "primes_valid_id p (chunk_succ p c)" by (rule sc(2))
  show "iter_next (iter_on p c e) = Some (Some (c, primes_id2loc p c), iter_on p (chunk_succ p c) e)"
    using iter_next_step[OF assms(1) sc(3) _ sc(1), of e, unfolded chunk_of_id[OF assms(1,2)]] assms(4)
    by (simp add: iter_on_def)
qed

lemma collect_steps:
  assumes "primes_ok p" "primes_valid_id p c" "chunk_steps p e c cs" "chunk_after p c cs = e" "length cs < fuel"
  shows "iter_collect iter_next fuel (iter_on p c e) = Some (map (\<lambda>c. (c, primes_id2loc p c)) cs)"
  using assms(2-)
proof (induction cs arbitrary: c fuel)
  case Nil
  then obtain g where "fuel = Suc g" by (cases fuel) auto
  moreover have "iter_next (iter_on p e e) = Some (None, iter_on p e e)"
    using chunk_of_id[OF assms(1) Nil(1)] Nil(3) unfolding iter_on_def by (intro iter_next_end) simp
  ultimately show ?case using Nil by simp
next
  case (Cons x xs)
  then obtain g where g: "fuel = Suc g" by (cases fuel) auto
  have st: "c \<noteq> e" "chunk_in_range p (chunk_address c)" "x = c" "chunk_steps p e (chunk_succ p c) xs" using Cons.prems by auto
  note n = iter_on_next[OF assms(1) Cons.prems(1) st(2,1)]
  show ?case using Cons.IH[OF n(2) st(4)] Cons.prems(3,4) st(3) n(1) by (simp add: g)
qed

section \<open>The chunks of a stripe\<close>

definition stripe_ids :: "PrimeS \<Rightarrow> nat \<Rightarrow> ChunkId list" where
  "stripe_ids p s = map Data [s * nat (ps_m p)..<s * nat (ps_m p) + nat (ps_m p)] @
     map (\<lambda>j. Parity (s * nat (ps_m p)) (int j)) [0..<nat (ps_f p)]"

lemma length_stripe_ids: "primes_ok p \<Longrightarrow> length (stripe_ids p s) = nat (ps_k p)"
  using primes_ok_bounds[of p] by (simp add: stripe_ids_def nat_add_distrib[symmetric])

lemma stripe_id_mod:
  assumes "primes_ok p" "i < nat (ps_m p)"
  shows "(s * nat (ps_m p) + i + 1) mod nat (ps_m p) = 0 \<longleftrightarrow> i + 1 = nat (ps_m p)"
proof -
  have "(s * nat (ps_m p) + i + 1) mod nat (ps_m p) = (i + 1) mod nat (ps_m p)" by (simp add: add.assoc)
  then show ?thesis using assms(2) by (cases "i + 1 = nat (ps_m p)") auto
qed

text \<open>From the \<open>i\<close>th data chunk of a stripe to its end.\<close>

lemma data_steps:
  assumes ok: "primes_ok p" and r: "chunk_in_range p (s * nat (ps_m p) + nat (ps_m p))"
    and e: "\<And>a. s * nat (ps_m p) \<le> a \<Longrightarrow> a < s * nat (ps_m p) + nat (ps_m p) \<Longrightarrow> Data a \<noteq> e"
    and i: "i + n \<le> nat (ps_m p)" "0 < n"
  defines "cs \<equiv> map Data [s * nat (ps_m p) + i..<s * nat (ps_m p) + i + n]"
  shows "chunk_steps p e (Data (s * nat (ps_m p) + i)) cs \<and>
    chunk_after p (Data (s * nat (ps_m p) + i)) cs
      = (if i + n = nat (ps_m p) then Parity (s * nat (ps_m p)) 0 else Data (s * nat (ps_m p) + i + n))"
  unfolding cs_def using i
proof (induction n arbitrary: i)
  case (Suc n)
  let ?b = "s * nat (ps_m p)" and ?M = "nat (ps_m p)"
  have i: "i < ?M" using Suc.prems by simp
  have l: "[?b + i..<?b + i + Suc n] = (?b + i) # [?b + (i + 1)..<?b + (i + 1) + n]" by (simp add: upt_rec)
  have rr: "chunk_in_range p (?b + i)" using chunk_in_range_mono[OF ok r] i by simp
  have wrap: "i + 1 = ?M \<Longrightarrow> ?b + i + 1 - ?M = ?b" by linarith
  have sc: "chunk_succ p (Data (?b + i)) = (if i + 1 = ?M then Parity ?b 0 else Data (?b + (i + 1)))"
    using stripe_id_mod[OF ok i, of s] wrap by simp
  show ?case
  proof (cases "n = 0")
    case True
    then show ?thesis using rr e[of "?b + i"] i sc by (simp add: l)
  next
    case False
    then have "i + 1 \<noteq> ?M" using Suc.prems by simp
    moreover have "i + 1 + n \<le> ?M" "0 < n" using Suc.prems False by simp_all
    ultimately show ?thesis
      unfolding l using rr e[of "?b + i"] i sc Suc.IH[of "i + 1"] by simp
  qed
qed simp

lemma parity_steps:
  assumes ok: "primes_ok p" and r: "chunk_in_range p a" and e: "\<And>j. Parity a j \<noteq> e"
    and j: "j + n \<le> nat (ps_f p)" "0 < n"
  shows "chunk_steps p e (Parity a (int j)) (map (\<lambda>j. Parity a (int j)) [j..<j + n]) \<and>
    chunk_after p (Parity a (int j)) (map (\<lambda>j. Parity a (int j)) [j..<j + n])
      = (if j + n = nat (ps_f p) then Data (a + nat (ps_m p)) else Parity a (int (j + n)))"
  using j
proof (induction n arbitrary: j)
  case (Suc n)
  have l: "[j..<j + Suc n] = j # [j + 1..<j + 1 + n]" by (simp add: upt_rec)
  have lt: "int j + 1 < ps_f p \<longleftrightarrow> j + 1 < nat (ps_f p)" by linarith
  have sc: "chunk_succ p (Parity a (int j)) = (if j + 1 < nat (ps_f p) then Parity a (int (j + 1)) else Data (a + nat (ps_m p)))"
    unfolding chunk_succ.simps lt by simp
  show ?case
  proof (cases "n = 0")
    case True
    then show ?thesis using r e sc Suc.prems by (simp add: l)
  next
    case False
    then have "j + 1 < nat (ps_f p)" "j + 1 + n \<le> nat (ps_f p)" "0 < n" using Suc.prems by simp_all
    then show ?thesis unfolding l using r e sc Suc.IH[of "j + 1"] by (simp del: upt_Suc chunk_succ.simps)
  qed
qed simp

lemma stripe_steps:
  assumes ok: "primes_ok p" and r: "chunk_in_range p (s * nat (ps_m p) + nat (ps_m p))"
    and e: "e = Data b" "s * nat (ps_m p) + nat (ps_m p) \<le> b"
  shows "chunk_steps p e (Data (s * nat (ps_m p))) (stripe_ids p s)"
    "chunk_after p (Data (s * nat (ps_m p))) (stripe_ids p s) = Data (Suc s * nat (ps_m p))"
proof -
  note pb = primes_ok_bounds[OF ok]
  let ?b = "s * nat (ps_m p)" and ?M = "nat (ps_m p)" and ?F = "nat (ps_f p)"
  have ne: "\<And>a. ?b \<le> a \<Longrightarrow> a < ?b + ?M \<Longrightarrow> Data a \<noteq> e" using e by auto
  have d: "chunk_steps p e (Data ?b) (map Data [?b..<?b + ?M])"
      "chunk_after p (Data ?b) (map Data [?b..<?b + ?M]) = Parity ?b 0"
    using data_steps[OF ok r ne, of 0 ?M] pb by simp_all
  have r': "chunk_in_range p ?b" using chunk_in_range_mono[OF ok r] by simp
  have pe: "\<And>j. Parity ?b j \<noteq> e" using e by simp
  have p: "chunk_steps p e (Parity ?b 0) (map (\<lambda>j. Parity ?b (int j)) [0..<?F])"
      "chunk_after p (Parity ?b 0) (map (\<lambda>j. Parity ?b (int j)) [0..<?F]) = Data (?b + ?M)"
    using parity_steps[OF ok r' pe, of 0 ?F] pb by simp_all
  show "chunk_steps p e (Data ?b) (stripe_ids p s)"
    unfolding stripe_ids_def chunk_steps_append d(2) using d(1) p(1) by simp
  show "chunk_after p (Data ?b) (stripe_ids p s) = Data (Suc s * ?M)"
    unfolding stripe_ids_def chunk_after_append d(2) p(2) by (simp add: add.commute)
qed

lemma stripes_steps:
  assumes ok: "primes_ok p" and r: "chunk_in_range p ((s + t) * nat (ps_m p))"
  shows "chunk_steps p (Data ((s + t) * nat (ps_m p))) (Data (s * nat (ps_m p))) (concat (map (stripe_ids p) [s..<s + t]))
    \<and> chunk_after p (Data (s * nat (ps_m p))) (concat (map (stripe_ids p) [s..<s + t])) = Data ((s + t) * nat (ps_m p))"
  using r
proof (induction t arbitrary: s)
  case (Suc t)
  let ?M = "nat (ps_m p)"
  have le: "s * ?M + ?M \<le> (s + Suc t) * ?M" by (simp add: algebra_simps)
  have r: "chunk_in_range p (s * ?M + ?M)" by (rule chunk_in_range_mono[OF ok Suc.prems le])
  note st = stripe_steps[OF ok r refl le]
  have l: "[s..<s + Suc t] = s # [Suc s..<Suc s + t]" by (simp add: upt_rec)
  show ?case
    using Suc.IH[of "Suc s"] Suc.prems st
    unfolding l list.map concat.simps chunk_steps_append chunk_after_append by simp
qed simp

text \<open>The iterator over whole stripes enumerates all their chunks, data before parity.\<close>

lemma collect_stripes:
  assumes ok: "primes_ok p" and r: "chunk_in_range p ((s + t) * nat (ps_m p))" and f: "t * nat (ps_k p) < fuel"
  shows "\<exists>it. primes_iter p (Data (s * nat (ps_m p))) (Data ((s + t) * nat (ps_m p))) = Some it \<and>
    iter_collect iter_next fuel it
      = Some (map (\<lambda>c. (c, primes_id2loc p c)) (concat (map (stripe_ids p) [s..<s + t])))"
proof -
  let ?M = "nat (ps_m p)"
  have "chunk_in_range p (s * ?M)" by (rule chunk_in_range_mono[OF ok r]) simp
  then have v: "primes_valid_id p (Data (s * ?M))" using chunk_in_range_less[OF ok] by simp
  have "length (concat (map (stripe_ids p) [s..<s + t])) = t * nat (ps_k p)"
    using length_stripe_ids[OF ok] by (simp add: length_concat o_def sum_list_triv)
  then show ?thesis
    using collect_steps[OF ok v, of "Data ((s + t) * ?M)" _ fuel] stripes_steps[OF ok r] f iter_new_at[OF ok v]
    by (simp add: primes_iter_def iter_on_def)
qed

section \<open>Consecutive stripes fill a contiguous range of each disk\<close>

lemma stripe_ids_valid:
  assumes ok: "primes_ok p" and r: "chunk_in_range p (Suc s * nat (ps_m p))" and c: "c \<in> set (stripe_ids p s)"
  shows "primes_valid_id p c" "primes_stripe_no p c = s" "chunk_in_range p (chunk_address c)"
proof -
  note pb = primes_ok_bounds[OF ok]
  have a: "s * nat (ps_m p) \<le> chunk_address c" "chunk_address c < s * nat (ps_m p) + nat (ps_m p)"
    using c pb by (auto simp: stripe_ids_def)
  show ir: "chunk_in_range p (chunk_address c)" using chunk_in_range_mono[OF ok r] a by simp
  show "primes_stripe_no p c = s"
    unfolding primes_stripe_no_def using a by (intro div_nat_eqI) (auto simp: mult.commute)
  have "chunk_address c < 2 ^ 63" by (rule chunk_in_range_less[OF ok ir])
  then show "primes_valid_id p c"
    using c pb by (auto simp: stripe_ids_def)
qed

lemma stripe_ids_distinct: "distinct (stripe_ids p s)"
  by (auto simp: stripe_ids_def distinct_map inj_on_def)

lemma in_stripe_ids:
  assumes ok: "primes_ok p" and v: "primes_valid_id p c"
  shows "c \<in> set (stripe_ids p (primes_stripe_no p c))"
proof -
  note pb = primes_ok_bounds[OF ok]
  let ?M = "nat (ps_m p)"
  have M: "0 < ?M" using pb by simp
  show ?thesis
  proof (cases c)
    case (Data i)
    have "i div ?M * ?M \<le> i" "i < i div ?M * ?M + ?M" using M dividend_less_div_times[of ?M i] by (simp_all add: add.commute)
    then show ?thesis using Data by (auto simp: stripe_ids_def primes_stripe_no_def)
  next
    case (Parity i j)
    have "?M dvd i" using v Parity pb by (simp add: nat_dvd_iff)
    then have "i div ?M * ?M = i" by simp
    moreover have "j = int (nat j)" "nat j < nat (ps_f p)" using v Parity by simp_all
    ultimately show ?thesis using Parity
      by (auto simp: stripe_ids_def primes_stripe_no_def image_iff Bex_def intro!: exI[of _ "nat j"])
  qed
qed

text \<open>The chunks come in the order of their stripes.\<close>

lemma stripes_sorted:
  assumes ok: "primes_ok p" and r: "chunk_in_range p ((s + t) * nat (ps_m p))"
  shows "sorted_wrt (\<lambda>c c'. primes_stripe_no p c \<le> primes_stripe_no p c' \<and> c \<noteq> c') (concat (map (stripe_ids p) [s..<s + t]))"
    "\<forall>c \<in> set (concat (map (stripe_ids p) [s..<s + t])).
       primes_valid_id p c \<and> s \<le> primes_stripe_no p c \<and> primes_stripe_no p c < s + t \<and> chunk_in_range p (chunk_address c)"
proof -
  have "sorted_wrt (\<lambda>c c'. primes_stripe_no p c \<le> primes_stripe_no p c' \<and> c \<noteq> c') (concat (map (stripe_ids p) [s..<s + t])) \<and>
    (\<forall>c \<in> set (concat (map (stripe_ids p) [s..<s + t])).
       primes_valid_id p c \<and> s \<le> primes_stripe_no p c \<and> primes_stripe_no p c < s + t \<and> chunk_in_range p (chunk_address c))"
    using r
  proof (induction t)
    case (Suc t)
    have le: "(s + t) * nat (ps_m p) \<le> (s + Suc t) * nat (ps_m p)" by simp
    have r': "chunk_in_range p (Suc (s + t) * nat (ps_m p))" using Suc.prems by simp
    note v = stripe_ids_valid[OF ok r']
    have "sorted_wrt (\<lambda>c c'. primes_stripe_no p c \<le> primes_stripe_no p c' \<and> c \<noteq> c') (stripe_ids p (s + t))"
      unfolding sorted_wrt_iff_nth_less
      using v(2) stripe_ids_distinct[of p "s + t"] by (auto simp: nth_eq_iff_index_eq)
    then show ?case
      using Suc.IH[OF chunk_in_range_mono[OF ok Suc.prems le]] v
      by (fastforce simp: sorted_wrt_append)
  qed simp
  then show "sorted_wrt (\<lambda>c c'. primes_stripe_no p c \<le> primes_stripe_no p c' \<and> c \<noteq> c') (concat (map (stripe_ids p) [s..<s + t]))"
    "\<forall>c \<in> set (concat (map (stripe_ids p) [s..<s + t])).
       primes_valid_id p c \<and> s \<le> primes_stripe_no p c \<and> primes_stripe_no p c < s + t \<and> chunk_in_range p (chunk_address c)"
    by blast+
qed

lemma sorted_convex_upt:
  fixes xs :: "nat list"
  assumes "sorted_wrt (<) xs" "\<And>x y z. x \<in> set xs \<Longrightarrow> z \<in> set xs \<Longrightarrow> x < y \<Longrightarrow> y < z \<Longrightarrow> y \<in> set xs"
  shows "xs = [hd xs..<hd xs + length xs]"
  using assms
proof (induction xs)
  case (Cons x xs)
  have conv: "y \<in> set xs" if "a \<in> set xs" "b \<in> set xs" "a < y" "y < b" for a y b
  proof -
    have "x < a" using Cons.prems(1) that(1) by simp
    then show ?thesis using Cons.prems(2)[of a b y] that by auto
  qed
  have IH: "xs = [hd xs..<hd xs + length xs]" using Cons.IH[OF _ conv] Cons.prems(1) by simp
  show ?case
  proof (cases xs)
    case (Cons y ys)
    have "x < y" using Cons.prems(1) Cons by simp
    have "Suc x \<in> set (x # xs)" if "Suc x < y" using Cons.prems(2)[of x y "Suc x"] Cons that by simp
    moreover have "\<forall>z \<in> set xs. y \<le> z" using Cons.prems(1) Cons by auto
    ultimately have "y = Suc x" using \<open>x < y\<close> by fastforce
    then show ?thesis using IH Cons by (simp add: upt_rec)
  qed simp
qed simp

lemma offset_in_rep:
  assumes ok: "primes_ok p" and v: "primes_valid_id p c"
  shows "int (cl_offset (primes_id2loc p c)) < (primes_rep p c + 1) * ps_depth p"
proof -
  note sb = primes_stripe_bounds[OF ok, of c]
  note ub = primes_unit_bounds[OF ok v]
  let ?z = "primes_stripe p c div ps_n p"
  let ?rk = "int (disk_rank p ?z (primes_disk p (primes_stripe p c) (primes_unit p c)) (primes_stripe p c mod ps_n p))"
  have b: "0 \<le> ?rk" "?rk < ps_k p" using disk_rank_bound(3)[OF ok sb(1,2) ub] by simp_all
  have "?z * ps_k p + ?rk < ps_depth p" using iteration_offset_bound[OF ok sb(3,4) b] by simp
  moreover have "0 \<le> primes_rep p c" using primes_ok_bounds[OF ok] by (simp add: primes_rep_def pos_imp_zdiv_nonneg_iff)
  ultimately show ?thesis using sb b primes_ok_bounds[OF ok] by (simp add: primes_id2loc_eq[OF ok v] distrib_right)
qed

definition disk_offsets :: "PrimeS \<Rightarrow> int \<Rightarrow> ChunkId list \<Rightarrow> nat list" where
  "disk_offsets p d cs = map (\<lambda>c. cl_offset (primes_id2loc p c)) (filter (\<lambda>c. cl_disk (primes_id2loc p c) = d) cs)"

lemma stripes_contiguous:
  assumes ok: "primes_ok p" and r: "chunk_in_range p ((s + t) * nat (ps_m p))"
  defines "cs \<equiv> concat (map (stripe_ids p) [s..<s + t])"
  shows "disk_offsets p d cs = [hd (disk_offsets p d cs)..<hd (disk_offsets p d cs) + length (disk_offsets p d cs)]"
proof (rule sorted_convex_upt)
  note ss = stripes_sorted[OF ok r, folded cs_def]
  let ?P = "\<lambda>c. cl_disk (primes_id2loc p c) = d"
  have off: "primes_stripe_no p c < primes_stripe_no p c'" if "c \<in> set cs" "c' \<in> set cs" "?P c" "?P c'"
      "primes_stripe_no p c \<le> primes_stripe_no p c'" "c \<noteq> c'" for c c'
    using primes.stripe_disks[OF ok, of c c'] ss(2) that by force
  show "sorted_wrt (<) (disk_offsets p d cs)"
    unfolding disk_offsets_def sorted_wrt_map
  proof (rule sorted_wrt_mono_rel[OF _ sorted_wrt_filter[OF ss(1)]])
    fix c c' assume c: "c \<in> set (filter ?P cs)" "c' \<in> set (filter ?P cs)"
      "primes_stripe_no p c \<le> primes_stripe_no p c' \<and> c \<noteq> c'"
    then show "cl_offset (primes_id2loc p c) < cl_offset (primes_id2loc p c')"
      using off[of c c'] ss(2) by (intro primes_offset_mono[OF ok]) auto
  qed
  fix x y z assume x: "x \<in> set (disk_offsets p d cs)" and z: "z \<in> set (disk_offsets p d cs)" and y: "x < y" "y < z"
  obtain cx cz where c: "cx \<in> set cs" "?P cx" "x = cl_offset (primes_id2loc p cx)"
      "cz \<in> set cs" "?P cz" "z = cl_offset (primes_id2loc p cz)"
    using x z by (auto simp: disk_offsets_def)
  have vz: "primes_valid_id p cz" "primes_valid_id p cx" "chunk_in_range p (chunk_address cz)" using ss(2) c by auto
  note pb = primes_ok_bounds[OF ok]
  have "int y < (primes_rep p cz + 1) * ps_depth p" using offset_in_rep[OF ok vz(1)] y(2) c(6) by simp
  moreover have "int y div ps_depth p * ps_depth p \<le> int y"
    using pb minus_mod_eq_div_mult[of "int y" "ps_depth p"] pos_mod_sign[of "ps_depth p" "int y"] by linarith
  ultimately have "int y div ps_depth p * ps_depth p < (primes_rep p cz + 1) * ps_depth p" by linarith
  then have "int y div ps_depth p < primes_rep p cz + 1" using pb mult_less_cancel_right_pos by blast
  then have "(int y div ps_depth p + 1) * ps_datachunks p \<le> (primes_rep p cz + 2) * ps_datachunks p"
    using pb by (intro mult_right_mono) auto
  moreover have "0 \<le> d" "d < ps_n p"
    using c(2) primes_disk_range[OF ok] by (auto simp: primes_id2loc_eq[OF ok vz(2)])
  ultimately have "primes_valid_loc p \<lparr>cl_disk = d, cl_offset = y\<rparr>"
    using vz(3) by (simp add: primes_valid_loc_def chunk_in_range_def primes_rep_def)
  then obtain c' where c': "primes_valid_id p c'" "primes_id2loc p c' = \<lparr>cl_disk = d, cl_offset = y\<rparr>"
    using primes_id2loc_loc2id[OF ok] by blast
  have "\<not> primes_stripe_no p c' < primes_stripe_no p cx" "\<not> primes_stripe_no p cz < primes_stripe_no p c'"
    using primes_offset_mono[OF ok c'(1) vz(2)] primes_offset_mono[OF ok vz(1) c'(1)] c c'(2) y by auto
  then have "s \<le> primes_stripe_no p c'" "primes_stripe_no p c' < s + t" using ss(2) c by force+
  then have "c' \<in> set cs" using in_stripe_ids[OF ok c'(1)] by (auto simp: cs_def)
  then show "y \<in> set (disk_offsets p d cs)" using c'(2) by (force simp: disk_offsets_def)
qed

end
