(* ===== verification/Sg_Cursor.thy ===== *)
theory Sg_Cursor
  imports Common
begin

text \<open>
  \<open>bfffs/src/common/raid/sgcursor.rs\<close>: a cursor over a scatter-gather list, and the loops that the RAID
  code runs over it. \<open>sg_rest\<close> is the byte sequence that is left to read.
\<close>

record SGCursor =
  sg_sglist :: SGList
  sg_sglist_idx :: nat
  sg_iovec_idx :: nat

definition sg_from :: "SGList \<Rightarrow> SGCursor" where
  "sg_from src = \<lparr>sg_sglist = src, sg_sglist_idx = 0, sg_iovec_idx = 0\<rparr>"

definition sg_peek_len :: "SGCursor \<Rightarrow> nat" where
  "sg_peek_len c =
     (if sg_sglist_idx c < length (sg_sglist c)
      then wsub 64 (length (sg_sglist c ! sg_sglist_idx c)) (sg_iovec_idx c)
      else 0)"

text \<open>\<open>DivBuf::slice(b, e)\<close> and \<open>slice_from(b)\<close> panic out of bounds, as does the index of the list.\<close>

definition divbuf_slice :: "IoVec \<Rightarrow> nat \<Rightarrow> nat \<Rightarrow> IoVec option" where
  "divbuf_slice v b e = (if b \<le> e \<and> e \<le> length v then Some (take (e - b) (drop b v)) else None)"

definition sg_next :: "nat \<Rightarrow> SGCursor \<Rightarrow> (IoVec option \<times> SGCursor) option" where
  "sg_next mx c =
     (let ncl = sg_peek_len c in
      if ncl = 0 then Some (None, c)
      else if mx < ncl then do {
        iovec \<leftarrow> vec_get (sg_sglist c) (sg_sglist_idx c);
        s \<leftarrow> divbuf_slice iovec (sg_iovec_idx c) (u64 (sg_iovec_idx c + mx));
        Some (Some s, c\<lparr>sg_iovec_idx := u64 (sg_iovec_idx c + mx)\<rparr>)
      } else if sg_iovec_idx c > 0 then do {
        iovec \<leftarrow> vec_get (sg_sglist c) (sg_sglist_idx c);
        s \<leftarrow> divbuf_slice iovec (sg_iovec_idx c) (length iovec);
        Some (Some s, c\<lparr>sg_iovec_idx := 0, sg_sglist_idx := u64 (sg_sglist_idx c + 1)\<rparr>)
      } else do {
        iovec \<leftarrow> vec_get (sg_sglist c) (sg_sglist_idx c);
        Some (Some iovec, c\<lparr>sg_sglist_idx := u64 (sg_sglist_idx c + 1)\<rparr>)
      })"

section \<open>What the cursor reads\<close>

definition sg_rest :: "SGCursor \<Rightarrow> byte list" where
  "sg_rest c = drop (sg_iovec_idx c) (concat (drop (sg_sglist_idx c) (sg_sglist c)))"

text \<open>A cursor over non-empty segments, in range.\<close>

definition sg_ok :: "SGCursor \<Rightarrow> bool" where
  "sg_ok c \<longleftrightarrow> [] \<notin> set (sg_sglist c) \<and> length (concat (sg_sglist c)) < 2 ^ 64 \<and>
     sg_sglist_idx c \<le> length (sg_sglist c) \<and>
     (if sg_sglist_idx c < length (sg_sglist c)
      then sg_iovec_idx c < length (sg_sglist c ! sg_sglist_idx c)
      else sg_iovec_idx c = 0)"

lemma segments_le_bytes: "[] \<notin> set sgl \<Longrightarrow> length sgl \<le> length (concat sgl)"
proof (induction sgl)
  case (Cons v sgl)
  then have "1 \<le> length v" by (cases v) auto
  then show ?case using Cons by simp
qed simp

lemma segment_le_bytes: "v \<in> set sgl \<Longrightarrow> length v \<le> length (concat sgl)"
  by (induction sgl) auto

lemma sg_from_ok: "[] \<notin> set sgl \<Longrightarrow> length (concat sgl) < 2 ^ 64 \<Longrightarrow> sg_ok (sg_from sgl) \<and> sg_rest (sg_from sgl) = concat sgl"
  by (cases sgl) (auto simp: sg_ok_def sg_from_def sg_rest_def)

lemma sg_rest_unfold:
  assumes "sg_ok c" "sg_sglist_idx c < length (sg_sglist c)"
  shows "sg_rest c = drop (sg_iovec_idx c) (sg_sglist c ! sg_sglist_idx c) @ concat (drop (Suc (sg_sglist_idx c)) (sg_sglist c))"
  using assms by (simp add: sg_rest_def sg_ok_def Cons_nth_drop_Suc[symmetric])

lemma sg_peek_len_eq:
  assumes ok: "sg_ok c"
  shows "sg_peek_len c = (if sg_sglist_idx c < length (sg_sglist c)
      then length (sg_sglist c ! sg_sglist_idx c) - sg_iovec_idx c else 0)"
    "sg_peek_len c = 0 \<longleftrightarrow> sg_rest c = []" "sg_peek_len c \<le> length (sg_rest c)"
proof -
  show 1: "sg_peek_len c = (if sg_sglist_idx c < length (sg_sglist c)
      then length (sg_sglist c ! sg_sglist_idx c) - sg_iovec_idx c else 0)"
  proof (cases "sg_sglist_idx c < length (sg_sglist c)")
    case True
    have "length (sg_sglist c ! sg_sglist_idx c) < 2 ^ 64"
      using segment_le_bytes[OF nth_mem[OF True]] ok by (simp add: sg_ok_def)
    then show ?thesis using True ok by (simp add: sg_peek_len_def sg_ok_def wsub_id)
  qed (simp add: sg_peek_len_def)
  show "sg_peek_len c = 0 \<longleftrightarrow> sg_rest c = []"
    using ok sg_rest_unfold[OF ok] by (auto simp: 1 sg_ok_def sg_rest_def)
  show "sg_peek_len c \<le> length (sg_rest c)"
    using sg_rest_unfold[OF ok] by (auto simp: 1)
qed

text \<open>\<open>next\<close> returns a non-empty prefix of what is left, of at most \<open>mx\<close> bytes, and moves behind it; it
  returns \<open>None\<close> exactly at the end.\<close>

lemma sg_next_end: "sg_ok c \<Longrightarrow> sg_rest c = [] \<Longrightarrow> sg_next mx c = Some (None, c)"
  using sg_peek_len_eq(2) by (simp add: sg_next_def)

lemma sg_next_spec:
  assumes ok: "sg_ok c" and ne: "sg_rest c \<noteq> []" and mx: "0 < mx"
  shows "\<exists>s c'. sg_next mx c = Some (Some s, c') \<and> sg_ok c' \<and> sg_rest c = s @ sg_rest c' \<and>
    length s = min mx (sg_peek_len c) \<and> s \<noteq> []"
proof -
  let ?i = "sg_sglist_idx c" and ?j = "sg_iovec_idx c" and ?l = "sg_sglist c"
  have i: "?i < length ?l" using ne by (cases "?i < length ?l") (auto simp: sg_rest_def)
  have j: "?j < length (?l ! ?i)" using ok i by (simp add: sg_ok_def)
  have ncl: "sg_peek_len c = length (?l ! ?i) - ?j" using sg_peek_len_eq(1)[OF ok] i by simp
  have b: "length (?l ! ?i) < 2 ^ 64"
    using segment_le_bytes[OF nth_mem[OF i]] ok by (simp add: sg_ok_def)
  have "?i + 1 \<le> length (concat ?l)" using segments_le_bytes[of ?l] ok i by (simp add: sg_ok_def)
  then have i64: "u64 (?i + 1) = Suc ?i" using ok by (simp add: sg_ok_def wrapu_id)
  have rest: "sg_rest c = drop ?j (?l ! ?i) @ concat (drop (Suc ?i) ?l)" by (rule sg_rest_unfold[OF ok i])
  have adv: "sg_ok (c\<lparr>sg_iovec_idx := 0, sg_sglist_idx := Suc ?i\<rparr>)"
    using ok i nth_mem[of "Suc ?i" ?l] by (fastforce simp: sg_ok_def)
  show ?thesis
  proof (cases "mx < sg_peek_len c")
    case True
    then have m: "?j + mx < length (?l ! ?i)" "u64 (?j + mx) = ?j + mx" using ncl b by (auto simp: wrapu_id)
    then have s: "sg_next mx c = Some (Some (take mx (drop ?j (?l ! ?i))), c\<lparr>sg_iovec_idx := ?j + mx\<rparr>)"
      using True i by (simp add: sg_next_def divbuf_slice_def)
    have r: "sg_rest (c\<lparr>sg_iovec_idx := ?j + mx\<rparr>) = drop (?j + mx) (?l ! ?i) @ concat (drop (Suc ?i) ?l)"
      using m i ok by (simp add: sg_rest_def Cons_nth_drop_Suc[symmetric])
    have "drop ?j (?l ! ?i) = take mx (drop ?j (?l ! ?i)) @ drop (?j + mx) (?l ! ?i)"
      by (metis append_take_drop_id drop_drop add.commute)
    moreover have "sg_ok (c\<lparr>sg_iovec_idx := ?j + mx\<rparr>)" using ok i m by (simp add: sg_ok_def)
    ultimately show ?thesis using s r rest True mx m ncl by auto
  next
    case False
    have "sg_next mx c = Some (Some (drop ?j (?l ! ?i)), c\<lparr>sg_iovec_idx := 0, sg_sglist_idx := Suc ?i\<rparr>)"
      using False ncl i j i64 by (cases "?j = 0") (simp_all add: sg_next_def divbuf_slice_def)
    moreover have "sg_rest (c\<lparr>sg_iovec_idx := 0, sg_sglist_idx := Suc ?i\<rparr>) = concat (drop (Suc ?i) ?l)"
      by (simp add: sg_rest_def)
    ultimately show ?thesis using adv rest False ncl j by auto
  qed
qed

section \<open>Splitting off a column\<close>

text \<open>The loop \<open>while l < len { next(len - l) }\<close> of \<open>writev_at_one\<close>, with enough turns: each takes at least a byte.\<close>

fun sg_take :: "nat \<Rightarrow> nat \<Rightarrow> SGCursor \<Rightarrow> (SGList \<times> SGCursor) option" where
  "sg_take 0 want c = (if want = 0 then Some ([], c) else None)"
| "sg_take (Suc fuel) want c =
     (if want = 0 then Some ([], c)
      else do {
        (r, c) \<leftarrow> sg_next want c;
        s \<leftarrow> r;
        (col, c) \<leftarrow> sg_take fuel (wsub 64 want (length s)) c;
        Some (s # col, c)
      })"

lemma sg_take_spec:
  assumes "sg_ok c" "want \<le> length (sg_rest c)" "want \<le> fuel"
  shows "\<exists>col c'. sg_take fuel want c = Some (col, c') \<and> sg_ok c' \<and> concat col = take want (sg_rest c) \<and>
    sg_rest c' = drop want (sg_rest c) \<and> [] \<notin> set col"
  using assms
proof (induction fuel arbitrary: want c)
  case (Suc fuel)
  show ?case
  proof (cases "want = 0")
    case False
    then have ne: "sg_rest c \<noteq> []" using Suc.prems by auto
    obtain s c1 where s: "sg_next want c = Some (Some s, c1)" "sg_ok c1" "sg_rest c = s @ sg_rest c1"
        "length s = min want (sg_peek_len c)" "s \<noteq> []"
      using sg_next_spec[OF Suc.prems(1) ne, of want] False by auto
    have "length (sg_rest c) < 2 ^ 64"
    proof -
      have "concat (sg_sglist c) = concat (take (sg_sglist_idx c) (sg_sglist c)) @ concat (drop (sg_sglist_idx c) (sg_sglist c))"
        by (metis append_take_drop_id concat_append)
      then have "length (sg_rest c) \<le> length (concat (sg_sglist c))" by (simp add: sg_rest_def)
      then show ?thesis using Suc.prems(1) by (simp add: sg_ok_def)
    qed
    then have w: "wsub 64 want (length s) = want - length s" using s(4) Suc.prems(2) by (intro wsub_id) auto
    have "want - length s \<le> fuel" using s(5) Suc.prems(3) by (cases s) auto
    moreover have "want - length s \<le> length (sg_rest c1)" using Suc.prems(2) s(3) by simp
    ultimately obtain col c' where c: "sg_take fuel (want - length s) c1 = Some (col, c')" "sg_ok c'"
        "concat col = take (want - length s) (sg_rest c1)" "sg_rest c' = drop (want - length s) (sg_rest c1)" "[] \<notin> set col"
      using Suc.IH[OF s(2)] by blast
    have "length s \<le> want" using s(4) by simp
    then show ?thesis using s c w False by auto
  qed (use Suc.prems in auto)
qed (auto simp: sg_rest_def)

end
