(* ===== verification/Codec.thy ===== *)
theory Codec
  imports Sg_Cursor
begin

text \<open>
  \<open>bfffs/src/common/raid/codec.rs\<close>: the erasure codec. ISA-L is not part of the repository: the matrices
  it generates and its encoder \<open>ec len k f tables data\<close>, which returns the \<open>f\<close> parity columns of the
  first \<open>len\<close> bytes of \<open>k\<close> data columns, are arguments. \<open>encodev\<close> encodes columns that are scattered
  over several buffers; it is shown to agree with \<open>encode\<close> on the gathered columns.
\<close>

type_synonym ec_fun = "nat \<Rightarrow> nat \<Rightarrow> nat \<Rightarrow> byte list \<Rightarrow> IoVec list \<Rightarrow> IoVec list"

record Codec =
  cd_m :: nat
  cd_f :: nat
  cd_enc_matrix :: "byte list"
  cd_enc_tables :: "byte list"

text \<open>\<open>rs\<close>, \<open>cauchy\<close> and \<open>init\<close> are \<open>gf_gen_rs_matrix\<close>, \<open>gf_gen_cauchy1_matrix\<close> and \<open>ec_init_tables\<close>.\<close>

definition codec_new ::
    "(nat \<Rightarrow> nat \<Rightarrow> byte list) \<Rightarrow> (nat \<Rightarrow> nat \<Rightarrow> byte list) \<Rightarrow> (nat \<Rightarrow> nat \<Rightarrow> byte list \<Rightarrow> byte list) \<Rightarrow>
       nat \<Rightarrow> nat \<Rightarrow> Codec option" where
  "codec_new rs cauchy init num_disks redundancy = do {
     let m = num_disks;
     let f = redundancy;
     let k = wsub 32 m f;
     let enc_matrix = (if f = 1 then rs m k else cauchy m k);
     assert_that (u32 (k * k) \<le> length enc_matrix);
     let enc_tables = init k f (drop (u32 (k * k)) enc_matrix);
     Some \<lparr>cd_m = m, cd_f = f, cd_enc_matrix = enc_matrix, cd_enc_tables = enc_tables\<rparr>
   }"

definition codec_protection :: "Codec \<Rightarrow> int" where
  "codec_protection c = i16 (int (cd_f c))"

definition codec_stripesize :: "Codec \<Rightarrow> int" where
  "codec_stripesize c = i16 (int (cd_m c))"

definition codec_encode :: "ec_fun \<Rightarrow> Codec \<Rightarrow> nat \<Rightarrow> IoVec list \<Rightarrow> IoVec list" where
  "codec_encode ec c len data = ec len (wsub 32 (cd_m c) (cd_f c)) (cd_f c) (cd_enc_tables c) data"

text \<open>\<open>cursors.iter_mut().map(|sg| sg.next(ncl).unwrap())\<close>\<close>

fun cursors_next :: "nat \<Rightarrow> SGCursor list \<Rightarrow> (IoVec list \<times> SGCursor list) option" where
  "cursors_next ncl [] = Some ([], [])"
| "cursors_next ncl (c # cs) = do {
     (r, c') \<leftarrow> sg_next ncl c;
     v \<leftarrow> r;
     (vs, cs') \<leftarrow> cursors_next ncl cs;
     Some (v # vs, c' # cs')
   }"

text \<open>The parity columns, with \<open>new\<close> stored from position \<open>l\<close> on; \<open>iov[l..]\<close> panics beyond the end.\<close>

definition store_parity :: "nat \<Rightarrow> IoVec list \<Rightarrow> IoVec list \<Rightarrow> IoVec list option" where
  "store_parity l new parity = do {
     assert_that (list_all (\<lambda>p. l \<le> length p) parity);
     Some (map2 (\<lambda>p n. take l p @ n @ drop (l + length n) p) parity new)
   }"

text \<open>The loop of \<open>encodev\<close>; every turn encodes at least one byte, so that \<open>len\<close> turns are enough.\<close>

fun encodev_loop :: "ec_fun \<Rightarrow> Codec \<Rightarrow> nat \<Rightarrow> nat \<Rightarrow> nat \<Rightarrow> SGCursor list \<Rightarrow> IoVec list \<Rightarrow> IoVec list option" where
  "encodev_loop ec c fuel len l cursors parity =
     (if l < len then
        (case fuel of
           0 \<Rightarrow> None
         | Suc fuel \<Rightarrow> do {
             assert_that (cursors \<noteq> []);
             let ncl = Min (set (map sg_peek_len cursors));
             (iovecs, cursors) \<leftarrow> cursors_next ncl cursors;
             parity \<leftarrow> store_parity l (codec_encode ec c ncl iovecs) parity;
             encodev_loop ec c fuel len (u64 (l + ncl)) cursors parity
           })
      else Some parity)"

declare encodev_loop.simps [simp del]

definition codec_encodev :: "ec_fun \<Rightarrow> Codec \<Rightarrow> nat \<Rightarrow> SGList list \<Rightarrow> IoVec list \<Rightarrow> IoVec list option" where
  "codec_encodev ec c len data parity = encodev_loop ec c len len 0 (map sg_from data) parity"

section \<open>Vectored encoding\<close>

text \<open>What ISA-L documents: the parity is computed byte by byte, each parity byte from the data bytes at
  the same position.\<close>

definition ec_bytewise :: "ec_fun \<Rightarrow> bool" where
  "ec_bytewise ec \<longleftrightarrow> (\<exists>g. \<forall>len k f t data. length data = k \<longrightarrow> (\<forall>d \<in> set data. len \<le> length d) \<longrightarrow>
     ec len k f t data = map (\<lambda>p. map (\<lambda>i. g k f t p (map (\<lambda>d. d ! i) data)) [0..<len]) [0..<f])"

lemma ec_length:
  assumes "ec_bytewise ec" "length data = k" "\<forall>d \<in> set data. len \<le> length d"
  shows "length (ec len k f t data) = f" "\<forall>p \<in> set (ec len k f t data). length p = len"
  using assms unfolding ec_bytewise_def by (auto simp del: upt.simps)

lemma ec_append:
  assumes bw: "ec_bytewise ec" and len: "length xs = k" "length ys = k"
    and xl: "\<forall>x \<in> set xs. length x = n" and yl: "\<forall>y \<in> set ys. m \<le> length y"
  shows "ec (n + m) k f t (map2 (@) xs ys) = map2 (@) (ec n k f t xs) (ec m k f t ys)"
proof -
  obtain g where g: "\<And>len k f t data. length data = k \<Longrightarrow> \<forall>d \<in> set data. len \<le> length d \<Longrightarrow>
     ec len k f t data = map (\<lambda>p. map (\<lambda>i. g k f t p (map (\<lambda>d. d ! i) data)) [0..<len]) [0..<f]"
    using bw unfolding ec_bytewise_def by blast
  have z: "\<And>i. i < k \<Longrightarrow> xs ! i \<in> set xs \<and> ys ! i \<in> set ys" using len by auto
  have low: "map (\<lambda>d. d ! i) (map2 (@) xs ys) = map (\<lambda>d. d ! i) xs" if "i < n" for i
    using that len xl z by (intro nth_equalityI) (auto simp: nth_append)
  have high: "map (\<lambda>d. d ! (i + n)) (map2 (@) xs ys) = map (\<lambda>d. d ! i) ys" for i
    using len xl z by (intro nth_equalityI) (auto simp: nth_append)
  have "\<forall>d \<in> set (map2 (@) xs ys). n + m \<le> length d"
  proof
    fix d assume "d \<in> set (map2 (@) xs ys)"
    then obtain x y where "d = x @ y" "x \<in> set xs" "y \<in> set ys" by (auto dest: set_zip_leftD set_zip_rightD)
    then show "n + m \<le> length d" using xl yl by simp
  qed
  then have l: "ec (n + m) k f t (map2 (@) xs ys)
      = map (\<lambda>p. map (\<lambda>i. g k f t p (map (\<lambda>d. d ! i) (map2 (@) xs ys))) [0..<n + m]) [0..<f]"
    using len by (intro g) auto
  have split: "[0..<n + m] = [0..<n] @ map (\<lambda>i. i + n) [0..<m]"
    using upt_add_eq_append[of 0 n m] map_add_upt[of n m] by (simp add: add.commute)
  have x: "ec n k f t xs = map (\<lambda>p. map (\<lambda>i. g k f t p (map (\<lambda>d. d ! i) xs)) [0..<n]) [0..<f]"
    and y: "ec m k f t ys = map (\<lambda>p. map (\<lambda>i. g k f t p (map (\<lambda>d. d ! i) ys)) [0..<m]) [0..<f]"
    using len xl yl by (auto intro!: g)
  have low': "map (\<lambda>i. g k f t p (map (\<lambda>d. d ! i) (map2 (@) xs ys))) [0..<n]
      = map (\<lambda>i. g k f t p (map (\<lambda>d. d ! i) xs)) [0..<n]" for p
    by (rule map_cong[OF refl]) (simp only: low set_upt atLeastLessThan_iff)
  have high': "map (\<lambda>i. g k f t p (map (\<lambda>d. d ! i) (map2 (@) xs ys))) (map (\<lambda>i. i + n) [0..<m])
      = map (\<lambda>i. g k f t p (map (\<lambda>d. d ! i) ys)) [0..<m]" for p
    by (subst map_map) (rule map_cong[OF refl], simp only: o_apply high)
  have m2: "map2 (@) (map F ps) (map G ps) = map (\<lambda>p. F p @ G p) ps" for F G :: "nat \<Rightarrow> byte list" and ps
    by (simp add: zip_map_map zip_same_conv_map)
  show ?thesis unfolding l x y split map_append low' high' m2 ..
qed

lemma ec_prefix:
  assumes bw: "ec_bytewise ec" and len: "length xs = k" and xl: "\<forall>x \<in> set xs. n \<le> length x"
  shows "ec n k f t (map (take n) xs) = ec n k f t xs"
proof -
  obtain g where g: "\<And>len k f t data. length data = k \<Longrightarrow> \<forall>d \<in> set data. len \<le> length d \<Longrightarrow>
     ec len k f t data = map (\<lambda>p. map (\<lambda>i. g k f t p (map (\<lambda>d. d ! i) data)) [0..<len]) [0..<f]"
    using bw unfolding ec_bytewise_def by blast
  show ?thesis
    using len xl by (subst (1 2) g) (auto simp: o_def intro!: map_cong)
qed

lemma cursors_next_spec:
  assumes "\<forall>c \<in> set cs. sg_ok c \<and> n \<le> sg_peek_len c" "0 < n"
  shows "\<exists>vs cs'. cursors_next n cs = Some (vs, cs') \<and> length vs = length cs \<and> length cs' = length cs \<and>
    (\<forall>v \<in> set vs. length v = n) \<and> (\<forall>c \<in> set cs'. sg_ok c) \<and> map sg_rest cs = map2 (@) vs (map sg_rest cs')"
  using assms(1)
proof (induction cs)
  case (Cons c cs)
  obtain vs cs' where IH: "cursors_next n cs = Some (vs, cs')" "length vs = length cs" "length cs' = length cs"
      "\<forall>v \<in> set vs. length v = n" "\<forall>c \<in> set cs'. sg_ok c" "map sg_rest cs = map2 (@) vs (map sg_rest cs')"
    using Cons by auto
  have ok: "sg_ok c" "n \<le> sg_peek_len c" using Cons.prems by auto
  then have "sg_rest c \<noteq> []" using sg_peek_len_eq(2)[OF ok(1)] assms(2) by auto
  then obtain s c' where "sg_next n c = Some (Some s, c')" "sg_ok c'" "sg_rest c = s @ sg_rest c'" "length s = n"
    using sg_next_spec[OF ok(1), of n] assms(2) ok(2) by (auto simp: min_def)
  then show ?case using IH by auto
qed simp

lemma map2_append_assoc:
  "length xs = length ys \<Longrightarrow> length ys = length zs \<Longrightarrow> map2 (@) xs (map2 (@) ys zs) = map2 (@) (map2 (@) xs ys) zs"
  by (induction xs ys zs rule: list_induct3) auto

lemma store_parity_spec:
  assumes "length new = length parity" "\<forall>p \<in> set parity. length p = len" "\<forall>n \<in> set new. length n = w" "l + w \<le> len"
  shows "\<exists>parity'. store_parity l new parity = Some parity' \<and> length parity' = length parity \<and>
    (\<forall>p \<in> set parity'. length p = len) \<and> map (take (l + w)) parity' = map2 (@) (map (take l) parity) new"
proof -
  let ?f = "\<lambda>(p, n). take l p @ n @ drop (l + length n) p"
  have z: "(p, n) \<in> set (zip parity new) \<Longrightarrow> length p = len \<and> length n = w" for p n
    using assms(2,3) by (auto dest: set_zip_leftD set_zip_rightD)
  have "store_parity l new parity = Some (map ?f (zip parity new))"
    using assms by (auto simp: store_parity_def list_all_iff)
  moreover have "\<forall>p \<in> set (map ?f (zip parity new)). length p = len" using z assms(4) by auto
  moreover have "map (take (l + w)) (map ?f (zip parity new)) = map (\<lambda>(p, n). take l p @ n) (zip parity new)"
    using z assms(4) by auto
  moreover have "map (\<lambda>(p, n). take l p @ n) (zip parity new) = map2 (@) (map (take l) parity) new"
    by (simp add: zip_map1 o_def case_prod_beta)
  ultimately show ?thesis using assms(1) by (intro exI[of _ "map ?f (zip parity new)"]) (simp only: length_map length_zip min.idem)
qed

lemma encode_nothing:
  assumes bw: "ec_bytewise ec" and k: "wsub 32 (cd_m c) (cd_f c) = length data"
    and p: "length parity = cd_f c" "\<forall>p \<in> set parity. length p = len"
  shows "map2 (@) (map (take len) parity) (codec_encode ec c 0 data) = parity"
proof -
  note e = ec_length[OF bw, of data "length data" 0 "cd_f c" "cd_enc_tables c"]
  have "codec_encode ec c 0 data = replicate (cd_f c) []"
    using e k by (intro replicate_eqI) (auto simp: codec_encode_def)
  moreover have "map (take len) parity = parity" using p(2) by (intro map_idI) auto
  ultimately show ?thesis using p(1) by (simp add: zip_replicate2 o_def)
qed

text \<open>The state of the loop after \<open>l\<close> bytes: each parity column begins with the parity of the first \<open>l\<close> bytes.\<close>

lemma encodev_loop_spec:
  assumes bw: "ec_bytewise ec"
  shows "\<lbrakk>wsub 32 (cd_m c) (cd_f c) = length cursors; cursors \<noteq> [];
      \<forall>x \<in> set cursors. sg_ok x \<and> length (sg_rest x) = len - l; l \<le> len; len < 2 ^ 64; len - l \<le> fuel;
      length parity = cd_f c; \<forall>p \<in> set parity. length p = len\<rbrakk>
    \<Longrightarrow> encodev_loop ec c fuel len l cursors parity
      = Some (map2 (@) (map (take l) parity) (codec_encode ec c (len - l) (map sg_rest cursors)))"
proof (induction fuel arbitrary: l cursors parity)
  case 0
  then have "l = len" by simp
  then show ?case using 0 encode_nothing[OF bw, of c "map sg_rest cursors" parity len] by (subst encodev_loop.simps) simp
next
  case (Suc fuel)
  note p = Suc.prems
  let ?k = "length cursors" and ?f = "cd_f c" and ?t = "cd_enc_tables c"
  show ?case
  proof (cases "l < len")
    case False
    then have "l = len" using p(4) by simp
    then show ?thesis
      using p encode_nothing[OF bw, of c "map sg_rest cursors" parity len] by (subst encodev_loop.simps) simp
  next
    case True
    define n where "n = Min (set (map sg_peek_len cursors))"
    have nm: "Min (sg_peek_len ` set cursors) = n" by (simp add: n_def)
    have nle: "\<forall>x \<in> set cursors. n \<le> sg_peek_len x" by (simp add: n_def)
    have "n \<in> set (map sg_peek_len cursors)" unfolding n_def using p(2) by (intro Min_in) auto
    then obtain x where x: "x \<in> set cursors" "n = sg_peek_len x" by auto
    have ox: "sg_ok x" "length (sg_rest x) = len - l" using p(3) x(1) by auto
    then have n: "0 < n" "n \<le> len - l"
      using sg_peek_len_eq(2,3)[OF ox(1)] True x(2) by fastforce+
    obtain vs cs' where cn: "cursors_next n cursors = Some (vs, cs')" "length vs = ?k" "length cs' = ?k"
        "\<forall>v \<in> set vs. length v = n" "\<forall>x \<in> set cs'. sg_ok x" "map sg_rest cursors = map2 (@) vs (map sg_rest cs')"
      using cursors_next_spec[of cursors n] p(3) nle n(1) by blast
    have rl: "\<forall>x \<in> set cs'. length (sg_rest x) = len - (l + n)"
    proof
      fix x assume "x \<in> set cs'"
      then obtain i where i: "i < length cs'" "x = cs' ! i" by (auto simp: in_set_conv_nth)
      have "map sg_rest cursors ! i = vs ! i @ sg_rest x" unfolding cn(6) using i cn(2,3) by simp
      moreover have "length (map sg_rest cursors ! i) = len - l" using p(3) i cn(3) by simp
      moreover have "length (vs ! i) = n" using cn(2-4) i by simp
      ultimately show "length (sg_rest x) = len - (l + n)" by simp
    qed
    let ?e1 = "codec_encode ec c n vs" and ?e2 = "codec_encode ec c (len - (l + n)) (map sg_rest cs')"
    have e1: "length ?e1 = ?f" "\<forall>q \<in> set ?e1. length q = n"
      using ec_length[OF bw, of vs ?k n ?f ?t] cn(2,4) p(1) by (auto simp: codec_encode_def)
    have e2: "length ?e2 = ?f"
      using ec_length(1)[OF bw, of "map sg_rest cs'" ?k "len - (l + n)" ?f ?t] cn(3) rl p(1) by (auto simp: codec_encode_def)
    have ln: "l + n \<le> len" using n p(4) by linarith
    obtain parity' where sp: "store_parity l ?e1 parity = Some parity'" "length parity' = length parity"
        "\<forall>q \<in> set parity'. length q = len" "map (take (l + n)) parity' = map2 (@) (map (take l) parity) ?e1"
      using store_parity_spec[OF _ p(8) e1(2) ln] e1(1) p(7) by auto
    have "encodev_loop ec c fuel len (l + n) cs' parity' = Some (map2 (@) (map (take (l + n)) parity') ?e2)"
    proof (rule Suc.IH)
      show "cs' \<noteq> []" using cn(3) p(2) by auto
    qed (use p cn sp rl n in auto)
    moreover have "map2 (@) (map2 (@) (map (take l) parity) ?e1) ?e2 = map2 (@) (map (take l) parity) (map2 (@) ?e1 ?e2)"
      using e1 e2 p(7) by (intro map2_append_assoc[symmetric]) auto
    moreover have "map2 (@) ?e1 ?e2 = codec_encode ec c (len - l) (map sg_rest cursors)"
    proof -
      have "ec (n + (len - (l + n))) ?k ?f ?t (map2 (@) vs (map sg_rest cs')) = map2 (@) (ec n ?k ?f ?t vs) (ec (len - (l + n)) ?k ?f ?t (map sg_rest cs'))"
        using cn rl by (intro ec_append[OF bw]) auto
      then show ?thesis using n p(1) cn(6) by (simp add: codec_encode_def)
    qed
    moreover have "u64 (l + n) = l + n" using n p(4,5) by (intro wrapu_id) auto
    ultimately show ?thesis
      using True p(2) cn(1) sp nm by (subst encodev_loop.simps) simp
  qed
qed

lemma codec_encodev_eq:
  assumes "ec_bytewise ec" "wsub 32 (cd_m c) (cd_f c) = length data" "data \<noteq> []"
    and "\<forall>col \<in> set data. [] \<notin> set col \<and> length (concat col) = len" "len < 2 ^ 64"
    and "length parity = cd_f c" "\<forall>p \<in> set parity. length p = len"
  shows "codec_encodev ec c len data parity = Some (codec_encode ec c len (map concat data))"
proof -
  have ok: "\<forall>col \<in> set data. sg_ok (sg_from col) \<and> sg_rest (sg_from col) = concat col"
    using sg_from_ok assms(4,5) by auto
  then have r: "map sg_rest (map sg_from data) = map concat data" by auto
  have "length (codec_encode ec c len (map concat data)) = cd_f c"
    using ec_length(1)[OF assms(1)] assms(2,4) by (simp add: codec_encode_def)
  then have "map2 (@) (map (take 0) parity) (codec_encode ec c len (map concat data)) = codec_encode ec c len (map concat data)"
    using assms(6) by (intro nth_equalityI) auto
  moreover have "encodev_loop ec c len len 0 (map sg_from data) parity
      = Some (map2 (@) (map (take 0) parity) (codec_encode ec c (len - 0) (map sg_rest (map sg_from data))))"
    using assms ok by (intro encodev_loop_spec) auto
  ultimately show ?thesis unfolding r codec_encodev_def by simp
qed

text \<open>C28. Vectored encoding is plain encoding: for every bytewise encoder, \<open>encodev\<close> of columns that are
  scattered over non-empty buffers returns (in at most \<open>len\<close> turns, without a panic) the parity
  \<open>encode\<close> computes of the gathered columns, whatever the parity buffers held before.\<close>

theorem encodev_equals_encode:
  assumes "ec_bytewise ec" "wsub 32 (cd_m c) (cd_f c) = length data" "data \<noteq> []"
    and "\<forall>col \<in> set data. [] \<notin> set col \<and> length (concat col) = len" "len < 2 ^ 64"
    and "length parity = cd_f c" "\<forall>p \<in> set parity. length p = len"
  shows "codec_encodev ec c len data parity = Some (codec_encode ec c len (map concat data))"
  using assms by (rule codec_encodev_eq)

text \<open>A single-parity code over two columns.\<close>

definition sum_ec :: ec_fun where
  "sum_ec len k f t data = map (\<lambda>p. map (\<lambda>i. sum_list (map (\<lambda>d. d ! i) data) mod 256) [0..<len]) [0..<f]"

lemma sum_ec_bytewise: "ec_bytewise sum_ec"
  unfolding ec_bytewise_def sum_ec_def by (rule exI[of _ "\<lambda>k f t p bs. sum_list bs mod 256"]) simp

theorem encodev_equals_encode_witness:
  "codec_encodev sum_ec \<lparr>cd_m = 3, cd_f = 1, cd_enc_matrix = [], cd_enc_tables = []\<rparr> 3 [[[1, 2], [3]], [[4], [5, 6]]] [[9, 9, 9]]
     = Some [[5, 7, 9]]"
  using encodev_equals_encode[OF sum_ec_bytewise, of "\<lparr>cd_m = 3, cd_f = 1, cd_enc_matrix = [], cd_enc_tables = []\<rparr>"
      "[[[1, 2], [3]], [[4], [5, 6]]]" 3 "[[9, 9, 9]]"]
  by (simp add: wsub_def codec_encode_def sum_ec_def upt_rec)

end
