(* ===== verification/Vdev_Raid.thy ===== *)
theory Vdev_Raid
  imports Prime_S_Iter Codec Vdev_File BTree_Map
begin

text \<open>
  \<open>bfffs/src/common/raid/vdev_raid.rs\<close>: the RAID transform. Data is buffered in one \<open>StripeBuffer\<close> per open
  zone until a stripe is full; whole stripes are split into chunks, encoded, and written to the disks
  that the layout gives for them.

  The disks are the leaf vdevs under the \<open>VdevBlock\<close>s, and an operation returns the requests it makes
  to them (\<open>DiskOp\<close>). A mutable buffer is a range \<open>(position, length)\<close> of the caller's buffer.
  \<open>ec\<close> is the encoder of ISA-L.
\<close>

type_synonym MutBuf = "nat \<times> nat"

datatype DiskOp =
    DReadAt nat MutBuf LbaT
  | DReadvAt nat "MutBuf list" LbaT
  | DWriteAt nat IoVec LbaT
  | DWritevAt nat SGList LbaT
  | DOpenZone nat LbaT
  | DFinishZone nat LbaT LbaT
  | DEraseZone nat LbaT LbaT
  | DReadSpacemap nat MutBuf nat
  | DWriteSpacemap nat SGList nat LbaT
  | DWriteLabel nat LabelWriter
  | DSyncAll nat

section \<open>The stripe buffer\<close>

record StripeBuffer =
  sb_buf :: SGList
  sb_lba :: LbaT
  sb_stripesize :: nat

definition sb_len :: "StripeBuffer \<Rightarrow> nat" where
  "sb_len sb = u64 (sglist_len (sb_buf sb))"

definition sb_fill :: "StripeBuffer \<Rightarrow> IoVec \<Rightarrow> (StripeBuffer \<times> IoVec) option" where
  "sb_fill sb iovec =
     (let want_bytes = wsub 64 (sb_stripesize sb) (sb_len sb);
          get_bytes = min want_bytes (length iovec) in
      if get_bytes > 0 then
        (let sb' = sb\<lparr>sb_buf := sb_buf sb @ [take get_bytes iovec]\<rparr>;
             partial = get_bytes mod BYTES_PER_LBA in
         if partial \<noteq> 0 then do {
           zbuf \<leftarrow> slice_to ZERO_REGION (BYTES_PER_LBA - partial);
           Some (sb'\<lparr>sb_buf := sb_buf sb' @ [zbuf]\<rparr>, drop get_bytes iovec)
         } else Some (sb', drop get_bytes iovec))
      else Some (sb, iovec))"

definition sb_is_full :: "StripeBuffer \<Rightarrow> bool" where
  "sb_is_full sb \<longleftrightarrow> sb_len sb = sb_stripesize sb"

definition sb_is_empty :: "StripeBuffer \<Rightarrow> bool" where
  "sb_is_empty sb \<longleftrightarrow> sb_buf sb = []"

definition sb_new :: "LbaT \<Rightarrow> LbaT \<Rightarrow> StripeBuffer option" where
  "sb_new lba stripe_lbas = do {
     assert_that (stripe_lbas \<noteq> 0 \<and> lba mod stripe_lbas = 0);
     Some \<lparr>sb_buf = [], sb_lba = lba, sb_stripesize = u64 (stripe_lbas * BYTES_PER_LBA)\<rparr>
   }"

definition sb_next_lba :: "StripeBuffer \<Rightarrow> LbaT" where
  "sb_next_lba sb = u64 (sb_lba sb + sb_len sb div BYTES_PER_LBA)"

text \<open>\<open>for _ in 0..n { fill(ZERO_REGION) }\<close>\<close>

fun sb_fill_zeros :: "nat \<Rightarrow> StripeBuffer \<Rightarrow> StripeBuffer option" where
  "sb_fill_zeros 0 sb = Some sb"
| "sb_fill_zeros (Suc n) sb = do { (sb, _) \<leftarrow> sb_fill sb ZERO_REGION; sb_fill_zeros n sb }"

definition sb_pad :: "StripeBuffer \<Rightarrow> (LbaT \<times> StripeBuffer) option" where
  "sb_pad sb = do {
     let padlen = wsub 64 (sb_stripesize sb) (sb_len sb);
     let zero_region_len = length ZERO_REGION;
     zero_bufs \<leftarrow> div_roundup 64 padlen zero_region_len;
     let n = wsub 64 zero_bufs 1;
     sb \<leftarrow> sb_fill_zeros n sb;
     z \<leftarrow> slice_to ZERO_REGION (wsub 64 padlen (u64 (n * zero_region_len)));
     (sb, _) \<leftarrow> sb_fill sb z;
     Some (padlen div BYTES_PER_LBA, sb)
   }"

definition sb_pop :: "StripeBuffer \<Rightarrow> SGList \<times> StripeBuffer" where
  "sb_pop sb = (sb_buf sb, sb\<lparr>sb_lba := sb_next_lba sb, sb_buf := []\<rparr>)"

definition sb_reset :: "StripeBuffer \<Rightarrow> LbaT \<Rightarrow> StripeBuffer option" where
  "sb_reset sb lba = do { assert_that (sb_is_empty sb); Some (sb\<lparr>sb_lba := lba\<rparr>) }"

section \<open>The vdev\<close>

datatype LayoutAlgorithm = LayoutPrimeS

record RaidLabel =
  rl_uuid :: nat
  rl_chunksize :: LbaT
  rl_disks_per_stripe :: int
  rl_redundancy :: int
  rl_layout_algorithm :: LayoutAlgorithm
  rl_children :: "nat list"

record VdevRaid =
  vr_chunksize :: LbaT
  vr_codec :: Codec
  vr_locator :: PrimeS
  vr_blockdevs :: "VdevFile list"
  vr_layout_algorithm :: LayoutAlgorithm
  vr_optimum_queue_depth :: nat
  vr_stripe_buffers :: "(ZoneT \<times> StripeBuffer) list"
  vr_uuid :: nat

text \<open>The values that most operations compute first: \<open>m\<close>, \<open>f\<close> and the bytes of a chunk.\<close>

definition vr_f :: "VdevRaid \<Rightarrow> nat" where
  "vr_f vr = cast_u 64 (codec_protection (vr_codec vr))"

definition vr_m :: "VdevRaid \<Rightarrow> nat" where
  "vr_m vr = cast_u 64 (i16 (codec_stripesize (vr_codec vr) - codec_protection (vr_codec vr)))"

definition vr_col_len :: "VdevRaid \<Rightarrow> nat" where
  "vr_col_len vr = u64 (vr_chunksize vr * BYTES_PER_LBA)"

definition DEFAULT_CHUNKSIZE :: LbaT where "DEFAULT_CHUNKSIZE = 16"

definition choose_layout :: "int \<Rightarrow> int \<Rightarrow> int \<Rightarrow> LbaT option \<Rightarrow> LayoutAlgorithm \<times> LbaT" where
  "choose_layout num_disks disks_per_stripe redundancy chunksize =
     (LayoutPrimeS, case chunksize of None \<Rightarrow> DEFAULT_CHUNKSIZE | Some c \<Rightarrow> c)"

definition vr_new ::
    "(nat \<Rightarrow> nat \<Rightarrow> byte list) \<Rightarrow> (nat \<Rightarrow> nat \<Rightarrow> byte list) \<Rightarrow> (nat \<Rightarrow> nat \<Rightarrow> byte list \<Rightarrow> byte list) \<Rightarrow>
       LbaT \<Rightarrow> int \<Rightarrow> int \<Rightarrow> nat \<Rightarrow> LayoutAlgorithm \<Rightarrow> VdevFile list \<Rightarrow> VdevRaid option" where
  "vr_new rs cauchy init chunksize disks_per_stripe redundancy uuid layout_algorithm blockdevs = do {
     let num_disks = i16 (int (length blockdevs));
     codec \<leftarrow> codec_new rs cauchy init (cast_u 32 disks_per_stripe) (cast_u 32 redundancy);
     locator \<leftarrow> primes_new num_disks disks_per_stripe redundancy;
     assert_that (list_all (\<lambda>bd. vf_size bd = vf_size (hd blockdevs) \<and>
       vf_zone_limits bd 0 = vf_zone_limits (hd blockdevs) 0) (tl blockdevs));
     let k = cast_u 32 (codec_stripesize codec);
     assert_that (k \<noteq> 0);
     let optimum_queue_depth = u32 (sum_list (map vf_optimum_queue_depth blockdevs)) div k;
     Some \<lparr>vr_chunksize = chunksize, vr_codec = codec, vr_locator = locator, vr_blockdevs = blockdevs,
       vr_layout_algorithm = layout_algorithm, vr_optimum_queue_depth = optimum_queue_depth,
       vr_stripe_buffers = [], vr_uuid = uuid\<rparr>
   }"

text \<open>\<open>open\<close>: the children are taken out of the map of block devices, in the order of the label.\<close>

fun take_children :: "nat list \<Rightarrow> (nat \<times> VdevFile) list \<Rightarrow> VdevFile list option" where
  "take_children [] blocks = Some []"
| "take_children (uuid # us) blocks = do {
     b \<leftarrow> bt_get blocks uuid;
     bs \<leftarrow> take_children us (bt_remove uuid blocks);
     Some (b # bs)
   }"

definition vr_open ::
    "(nat \<Rightarrow> nat \<Rightarrow> byte list) \<Rightarrow> (nat \<Rightarrow> nat \<Rightarrow> byte list) \<Rightarrow> (nat \<Rightarrow> nat \<Rightarrow> byte list \<Rightarrow> byte list) \<Rightarrow>
       RaidLabel \<Rightarrow> (nat \<times> VdevFile) list \<Rightarrow> VdevRaid option" where
  "vr_open rs cauchy init label blocks = do {
     assert_that (length blocks = length (rl_children label));
     children \<leftarrow> take_children (rl_children label) blocks;
     vr_new rs cauchy init (rl_chunksize label) (rl_disks_per_stripe label) (rl_redundancy label)
       (rl_uuid label) (rl_layout_algorithm label) children
   }"

section \<open>Zones\<close>

definition min_max :: "nat list \<Rightarrow> (nat \<times> nat) option" where
  "min_max xs = foldl (\<lambda>acc i. case acc of None \<Rightarrow> Some (i, i) | Some (a, b) \<Rightarrow> Some (min a i, max b i)) None xs"

text \<open>The chunks of the stripe, with their locations: \<open>locator.iter(minchunk, maxchunk)\<close>.\<close>

definition stripe_chunks :: "VdevRaid \<Rightarrow> nat \<Rightarrow> (ChunkId \<times> Chunkloc) list option" where
  "stripe_chunks vr stripe = do {
     it \<leftarrow> primes_iter (vr_locator vr) (Data (u64 (stripe * vr_m vr))) (Data (u64 (u64 (stripe + 1) * vr_m vr)));
     iter_collect iter_next (cast_u 64 (codec_stripesize (vr_codec vr)) + 1) it
   }"

text \<open>\<open>'stripe_loop\<close>\<close>

fun innermost_loop :: "VdevRaid \<Rightarrow> nat \<Rightarrow> bool \<Rightarrow> nat list \<Rightarrow> nat option \<Rightarrow> nat option option" where
  "innermost_loop vr boundary_chunk is_highend [] innermost = Some innermost"
| "innermost_loop vr boundary_chunk is_highend (stripe # rest) innermost = do {
     chunks \<leftarrow> stripe_chunks vr stripe;
     if is_highend \<and> list_ex (\<lambda>(_, loc). cl_offset loc > boundary_chunk) chunks
     then innermost_loop vr boundary_chunk is_highend rest innermost
     else if \<not> is_highend \<and> list_ex (\<lambda>(_, loc). cl_offset loc < boundary_chunk) chunks
     then innermost_loop vr boundary_chunk is_highend rest None
     else innermost_loop vr boundary_chunk is_highend rest
       (if innermost = None \<or> is_highend then Some stripe else innermost)
   }"

fun boundary_stripes :: "VdevRaid \<Rightarrow> nat \<Rightarrow> nat \<Rightarrow> nat list option" where
  "boundary_stripes vr boundary_chunk 0 = Some []"
| "boundary_stripes vr boundary_chunk (Suc i) = do {
     ss \<leftarrow> boundary_stripes vr boundary_chunk i;
     cid \<leftarrow> primes_loc2id (vr_locator vr) (chunkloc_new (i16 (int i)) boundary_chunk);
     assert_that (vr_m vr \<noteq> 0);
     Some (ss @ [chunk_address cid div vr_m vr])
   }"

definition endpoint_lba :: "VdevRaid \<Rightarrow> nat \<Rightarrow> bool \<Rightarrow> LbaT option" where
  "endpoint_lba vr boundary_chunk is_highend = do {
     stripes \<leftarrow> boundary_stripes vr boundary_chunk (length (vr_blockdevs vr));
     (min_stripe, max_stripe) \<leftarrow> min_max stripes;
     innermost \<leftarrow> innermost_loop vr boundary_chunk is_highend [min_stripe..<max_stripe + 1] None;
     s \<leftarrow> innermost;
     let limit_stripe = (if is_highend then u64 (s + 1) else s);
     Some (u64 (u64 (limit_stripe * vr_m vr) * vr_chunksize vr))
   }"

definition vr_zone_limits :: "VdevRaid \<Rightarrow> ZoneT \<Rightarrow> (LbaT \<times> LbaT) option" where
  "vr_zone_limits vr zone = do {
     bd0 \<leftarrow> vec_get (vr_blockdevs vr) 0;
     let (disk_lba_b, disk_lba_e) = vf_zone_limits bd0 zone;
     disk_chunk_b \<leftarrow> div_roundup 64 disk_lba_b (vr_chunksize vr);
     let disk_chunk_e = wsub 64 (disk_lba_e div vr_chunksize vr) 1;
     b \<leftarrow> endpoint_lba vr disk_chunk_b False;
     e \<leftarrow> endpoint_lba vr disk_chunk_e True;
     Some (b, e)
   }"

definition vr_lba2zone :: "VdevRaid \<Rightarrow> LbaT \<Rightarrow> ZoneT option option" where
  "vr_lba2zone vr lba = do {
     assert_that (vr_chunksize vr \<noteq> 0);
     let loc = primes_id2loc (vr_locator vr) (Data (lba div vr_chunksize vr));
     let disk_lba = u64 (cl_offset loc * vr_chunksize vr);
     bd \<leftarrow> vec_get (vr_blockdevs vr) (cast_u 64 (cl_disk loc));
     tentative \<leftarrow> vf_lba2zone bd disk_lba;
     case tentative of
       None \<Rightarrow> Some None
     | Some z \<Rightarrow> do {
         limits \<leftarrow> vr_zone_limits vr z;
         Some (if lba \<ge> fst limits \<and> lba < snd limits then Some z else None)
       }
   }"

definition vr_size :: "VdevRaid \<Rightarrow> LbaT option" where
  "vr_size vr = do {
     bd0 \<leftarrow> vec_get (vr_blockdevs vr) 0;
     assert_that (vr_chunksize vr \<noteq> 0 \<and> primes_depth (vr_locator vr) \<noteq> 0);
     let disk_size_in_chunks = vf_size bd0 div vr_chunksize vr;
     Some (u64 (u64 (disk_size_in_chunks * primes_datachunks (vr_locator vr)) * vr_chunksize vr)
       div primes_depth (vr_locator vr))
   }"

definition vr_zones :: "VdevRaid \<Rightarrow> ZoneT option" where
  "vr_zones vr = do { bd0 \<leftarrow> vec_get (vr_blockdevs vr) 0; vf_zones bd0 }"

definition vr_sync_all :: "VdevRaid \<Rightarrow> DiskOp list" where
  "vr_sync_all vr = map DSyncAll [0..<length (vr_blockdevs vr)]"

section \<open>Stripes\<close>

text \<open>
  The macro \<open>issue_1stripe_ops!\<close>: one operation for each column, at the locations that the iterator gives;
  the first one may begin in the middle of its chunk.
\<close>

fun issue_cols :: "(nat \<Rightarrow> 'c \<Rightarrow> LbaT \<Rightarrow> DiskOp) \<Rightarrow> VdevRaid \<Rightarrow> LbaT \<Rightarrow> PrimeSIter \<Rightarrow> 'c list \<Rightarrow> DiskOp list option" where
  "issue_cols mk vr chunk_offset it [] = Some []"
| "issue_cols mk vr chunk_offset it (d # ds) = do {
     (x, it) \<leftarrow> iter_next it;
     (_, loc) \<leftarrow> x;
     let disk_lba = u64 (u64 (cl_offset loc * vr_chunksize vr) + chunk_offset);
     let disk = cast_u 64 (cl_disk loc);
     assert_that (disk < length (vr_blockdevs vr));
     ops \<leftarrow> issue_cols mk vr 0 it ds;
     Some (mk disk d disk_lba # ops)
   }"

definition issue_1stripe_ops ::
    "(nat \<Rightarrow> 'c \<Rightarrow> LbaT \<Rightarrow> DiskOp) \<Rightarrow> VdevRaid \<Rightarrow> 'c list \<Rightarrow> LbaT \<Rightarrow> bool \<Rightarrow> DiskOp list option" where
  "issue_1stripe_ops mk vr buf lba parity = do {
     assert_that (vr_chunksize vr \<noteq> 0);
     let c = lba div vr_chunksize vr;
     let (start, end) = (if parity then (Parity c 0, Data (u64 (c + vr_m vr))) else (Data c, Parity c 0));
     it \<leftarrow> primes_iter (vr_locator vr) start end;
     issue_cols mk vr (lba mod vr_chunksize vr) it buf
   }"

text \<open>\<open>into_chunks(n)\<close> of a buffer: pieces of \<open>n\<close> bytes, the last one possibly shorter.\<close>

function into_chunks :: "nat \<Rightarrow> 'a list \<Rightarrow> 'a list list" where
  "into_chunks n xs = (if xs = [] \<or> n = 0 then [] else take n xs # into_chunks n (drop n xs))"
  by auto
termination by (relation "measure (\<lambda>(n, xs). length xs)") auto

declare into_chunks.simps [simp del]

function mut_chunks :: "nat \<Rightarrow> MutBuf \<Rightarrow> MutBuf list" where
  "mut_chunks n (p, l) = (if l = 0 \<or> n = 0 then [] else (p, min n l) # mut_chunks n (p + n, l - n))"
  by auto
termination by (relation "measure (\<lambda>(n, p, l). l)") auto

declare mut_chunks.simps [simp del]

text \<open>\<open>split_to(n)\<close> of a mutable buffer panics beyond its end.\<close>

definition mut_split_to :: "nat \<Rightarrow> MutBuf \<Rightarrow> (MutBuf \<times> MutBuf) option" where
  "mut_split_to n b = do {
     assert_that (n \<le> snd b);
     Some ((fst b, n), (fst b + n, snd b - n))
   }"

definition write_at_one :: "ec_fun \<Rightarrow> VdevRaid \<Rightarrow> IoVec \<Rightarrow> LbaT \<Rightarrow> DiskOp list option" where
  "write_at_one ec vr buf lba = do {
     let col_len = vr_col_len vr;
     let dcols = into_chunks col_len buf;
     let pw = codec_encode ec (vr_codec vr) col_len dcols;
     data_ops \<leftarrow> issue_1stripe_ops DWriteAt vr dcols lba False;
     parity_ops \<leftarrow> issue_1stripe_ops DWriteAt vr pw lba True;
     Some (data_ops @ parity_ops)
   }"

text \<open>The columns of \<open>writev_at_one\<close>.\<close>

fun split_columns :: "nat \<Rightarrow> nat \<Rightarrow> SGCursor \<Rightarrow> SGList list option" where
  "split_columns col_len 0 cursor = Some []"
| "split_columns col_len (Suc m) cursor = do {
     (col, cursor) \<leftarrow> sg_take col_len col_len cursor;
     cols \<leftarrow> split_columns col_len m cursor;
     Some (col # cols)
   }"

text \<open>The parity buffers are not initialized before \<open>encodev\<close> fills them: \<open>junk\<close> is what they hold.\<close>

definition writev_at_one :: "ec_fun \<Rightarrow> (nat \<Rightarrow> IoVec) \<Rightarrow> VdevRaid \<Rightarrow> SGList \<Rightarrow> LbaT \<Rightarrow> DiskOp list option" where
  "writev_at_one ec junk vr buf lba = do {
     let col_len = vr_col_len vr;
     dcols \<leftarrow> split_columns col_len (vr_m vr) (sg_from buf);
     pcols \<leftarrow> codec_encodev ec (vr_codec vr) col_len dcols (replicate (vr_f vr) (junk col_len));
     data_ops \<leftarrow> issue_1stripe_ops DWritevAt vr dcols lba False;
     parity_ops \<leftarrow> issue_1stripe_ops DWriteAt vr pcols lba True;
     Some (data_ops @ parity_ops)
   }"

text \<open>
  \<open>write_at_multi\<close>. \<open>parity\<close> holds the whole parity of the operation, one buffer for each parity column; the
  loop distributes the chunks over the disks. \<open>usize::MAX\<close> is the sentinel of \<open>start_lbas\<close>.
\<close>

definition parity_buffers :: "ec_fun \<Rightarrow> VdevRaid \<Rightarrow> IoVec \<Rightarrow> nat \<Rightarrow> IoVec list" where
  "parity_buffers ec vr buf stripes =
     (let col_len = vr_col_len vr; m = vr_m vr in
      map (\<lambda>p. concat (map (\<lambda>s. codec_encode ec (vr_codec vr) col_len
             (map (\<lambda>i. take col_len (drop ((s * m + i) * col_len) buf)) [0..<m]) ! p) [0..<stripes]))
        [0..<vr_f vr])"

fun distribute ::
    "VdevRaid \<Rightarrow> (ChunkId \<times> Chunkloc) list \<Rightarrow> IoVec \<Rightarrow> IoVec list \<Rightarrow> SGList list \<Rightarrow> LbaT list \<Rightarrow>
       (SGList list \<times> LbaT list) option" where
  "distribute vr [] buf parity sglists start_lbas = Some (sglists, start_lbas)"
| "distribute vr ((chunk_id, loc) # rest) buf parity sglists start_lbas = do {
     let col_len = vr_col_len vr;
     (col, buf, parity) \<leftarrow>
       (case chunk_id of
          Data _ \<Rightarrow> do { assert_that (col_len \<le> length buf); Some (take col_len buf, drop col_len buf, parity) }
        | Parity _ i \<Rightarrow> do {
            p \<leftarrow> vec_get parity (cast_u 64 i);
            assert_that (col_len \<le> length p);
            Some (take col_len p, buf, parity[cast_u 64 i := drop col_len p])
          });
     let disk_lba = u64 (cl_offset loc * vr_chunksize vr);
     let disk = cast_u 64 (cl_disk loc);
     start \<leftarrow> vec_get start_lbas disk;
     sgl \<leftarrow> vec_get sglists disk;
     distribute vr rest buf parity (sglists[disk := sgl @ [col]])
       (if start = u64_max then start_lbas[disk := disk_lba] else start_lbas)
   }"

definition write_at_multi :: "ec_fun \<Rightarrow> VdevRaid \<Rightarrow> IoVec \<Rightarrow> LbaT \<Rightarrow> DiskOp list option" where
  "write_at_multi ec vr buf lba = do {
     let col_len = vr_col_len vr;
     let k = cast_u 64 (codec_stripesize (vr_codec vr));
     let n = length (vr_blockdevs vr);
     assert_that (col_len \<noteq> 0 \<and> vr_m vr \<noteq> 0 \<and> vr_chunksize vr \<noteq> 0);
     let chunks = length buf div col_len;
     let stripes = chunks div vr_m vr;
     let start = Data (lba div vr_chunksize vr);
     let end = Data (u64 (lba + length buf div BYTES_PER_LBA) div vr_chunksize vr);
     it \<leftarrow> primes_iter (vr_locator vr) start end;
     items \<leftarrow> iter_collect iter_next (stripes * k + 1) it;
     (sglists, start_lbas) \<leftarrow> distribute vr items buf (parity_buffers ec vr buf stripes)
       (replicate n []) (replicate n u64_max);
     Some (map (\<lambda>d. DWritevAt d (sglists ! d) (start_lbas ! d)) (filter (\<lambda>d. start_lbas ! d \<noteq> u64_max) [0..<n]))
   }"

section \<open>Reading\<close>

definition read_at_one :: "VdevRaid \<Rightarrow> MutBuf \<Rightarrow> LbaT \<Rightarrow> DiskOp list option" where
  "read_at_one vr buf lba = do {
     let col_len = vr_col_len vr;
     assert_that (vr_chunksize vr \<noteq> 0);
     cols \<leftarrow>
       (if lba mod vr_chunksize vr = 0 then Some (mut_chunks col_len buf)
        else do {
          let lbas_into_chunk = lba mod vr_chunksize vr;
          let chunk0lbas = vr_chunksize vr - lbas_into_chunk;
          let chunk0size = min (u64 (chunk0lbas * BYTES_PER_LBA)) (snd buf);
          (col0, buf) \<leftarrow> mut_split_to chunk0size buf;
          Some (col0 # mut_chunks col_len buf)
        });
     issue_1stripe_ops DReadAt vr cols lba False
   }"

text \<open>
  The loop of \<open>read_at_multi\<close>: \<open>ops\<close> are the reads that had to be issued on the way, because a parity chunk
  interrupts the run of a disk.
\<close>

fun gather ::
    "VdevRaid \<Rightarrow> LbaT \<Rightarrow> (ChunkId \<times> Chunkloc) list \<Rightarrow> bool \<Rightarrow> MutBuf \<Rightarrow> MutBuf list list \<Rightarrow> LbaT list \<Rightarrow> LbaT list \<Rightarrow>
       (DiskOp list \<times> MutBuf list list \<times> LbaT list) option" where
  "gather vr lba [] starting buf sglists start_lbas next_lbas = Some ([], sglists, start_lbas)"
| "gather vr lba ((_, loc) # rest) starting buf sglists start_lbas next_lbas = do {
     let col_len = vr_col_len vr;
     ((col, buf), disk_lba, starting) \<leftarrow>
       (if starting \<and> lba mod vr_chunksize vr \<noteq> 0 then do {
          let lbas_into_chunk = lba mod vr_chunksize vr;
          let chunk0lbas = vr_chunksize vr - lbas_into_chunk;
          cb \<leftarrow> mut_split_to (u64 (chunk0lbas * BYTES_PER_LBA)) buf;
          Some (cb, u64 (u64 (cl_offset loc * vr_chunksize vr) + lbas_into_chunk), False)
        } else do {
          cb \<leftarrow> mut_split_to (min (snd buf) col_len) buf;
          Some (cb, u64 (cl_offset loc * vr_chunksize vr), starting)
        });
     let disk = cast_u 64 (cl_disk loc);
     start \<leftarrow> vec_get start_lbas disk;
     nxt \<leftarrow> vec_get next_lbas disk;
     sgl \<leftarrow> vec_get sglists disk;
     let (ops, sgl, start) =
       (if start = u64_max then ([], sgl, disk_lba)
        else if nxt < disk_lba then ([DReadvAt disk sgl start], [], disk_lba)
        else ([], sgl, start));
     (ops', r) \<leftarrow> gather vr lba rest starting buf (sglists[disk := sgl @ [col]]) (start_lbas[disk := start])
       (next_lbas[disk := u64 (disk_lba + vr_chunksize vr)]);
     Some (ops @ ops', r)
   }"

definition read_at_multi :: "VdevRaid \<Rightarrow> MutBuf \<Rightarrow> LbaT \<Rightarrow> DiskOp list option" where
  "read_at_multi vr buf lba = do {
     let n = length (vr_blockdevs vr);
     let lbas = snd buf div BYTES_PER_LBA;
     assert_that (vr_chunksize vr \<noteq> 0);
     let start = lba div vr_chunksize vr;
     end \<leftarrow> div_roundup 64 (u64 (lba + lbas)) (vr_chunksize vr);
     it \<leftarrow> primes_iter_data (vr_locator vr) (Data start) (Data end);
     items \<leftarrow> iter_collect iter_data_next (end - start + 1) it;
     (ops, sglists, start_lbas) \<leftarrow> gather vr lba items True buf (replicate n []) (replicate n u64_max) (replicate n u64_max);
     Some (ops @ map (\<lambda>d. DReadvAt d (sglists ! d) (start_lbas ! d)) (filter (\<lambda>d. start_lbas ! d \<noteq> u64_max) [0..<n]))
   }"

text \<open>
  \<open>read_at\<close>: the part that is still in a stripe buffer is copied from there at once (the first component,
  with its position), and the rest is read from the disks.
\<close>

definition find_buffer :: "VdevRaid \<Rightarrow> LbaT \<Rightarrow> LbaT \<Rightarrow> StripeBuffer option" where
  "find_buffer vr lba end_lba =
     find (\<lambda>sb. \<not> sb_is_empty sb \<and> lba < sb_next_lba sb \<and> end_lba \<ge> sb_lba sb) (map snd (vr_stripe_buffers vr))"

definition read_disks :: "VdevRaid \<Rightarrow> MutBuf \<Rightarrow> LbaT \<Rightarrow> LbaT \<Rightarrow> DiskOp list option" where
  "read_disks vr buf lba end_lba = do {
     let stripe_lbas = u64 (vr_chunksize vr * vr_m vr);
     assert_that (stripe_lbas \<noteq> 0);
     if lba div stripe_lbas = end_lba div stripe_lbas then read_at_one vr buf lba else read_at_multi vr buf lba
   }"

definition vr_read_at :: "VdevRaid \<Rightarrow> nat \<Rightarrow> LbaT \<Rightarrow> ((nat \<times> byte list) list \<times> DiskOp list) option" where
  "vr_read_at vr buflen lba = do {
     assert_that (buflen mod BYTES_PER_LBA = 0);
     let end_lba = u64 (lba + wsub 64 buflen 1 div BYTES_PER_LBA);
     case find_buffer vr lba end_lba of
       None \<Rightarrow> do { ops \<leftarrow> read_disks vr (0, buflen) lba end_lba; Some ([], ops) }
     | Some sb \<Rightarrow> do {
         let cursor = sg_from (sb_buf sb);
         (direct_len, cursor) \<leftarrow>
           (if sb_lba sb > lba then Some (u64 ((sb_lba sb - lba) * BYTES_PER_LBA), cursor)
            else do {
              let to_skip = u64 ((lba - sb_lba sb) * BYTES_PER_LBA);
              (_, cursor) \<leftarrow> sg_take to_skip to_skip cursor;
              Some (0, cursor)
            });
         assert_that (direct_len \<le> buflen);
         (iovecs, _) \<leftarrow> sg_take (buflen - direct_len) (buflen - direct_len) cursor;
         let copied = [(direct_len, concat iovecs)];
         if direct_len = 0 then Some (copied, [])
         else do {
           ops \<leftarrow> read_disks vr (0, direct_len) lba (wsub 64 (sb_lba sb) 1);
           Some (copied, ops)
         }
       }
   }"

section \<open>The other operations\<close>

definition vr_erase_zone :: "VdevRaid \<Rightarrow> ZoneT \<Rightarrow> DiskOp list option" where
  "vr_erase_zone vr zone = do {
     assert_that (\<not> bt_contains (vr_stripe_buffers vr) zone);
     bd0 \<leftarrow> vec_get (vr_blockdevs vr) 0;
     let (start, end) = vf_zone_limits bd0 zone;
     Some (map (\<lambda>d. DEraseZone d start (wsub 64 end 1)) [0..<length (vr_blockdevs vr)])
   }"

definition vr_finish_zone :: "ec_fun \<Rightarrow> (nat \<Rightarrow> IoVec) \<Rightarrow> VdevRaid \<Rightarrow> ZoneT \<Rightarrow> (VdevRaid \<times> DiskOp list) option" where
  "vr_finish_zone ec junk vr zone = do {
     sb \<leftarrow> bt_get (vr_stripe_buffers vr) zone;
     sb_ops \<leftarrow>
       (if \<not> sb_is_empty sb then do {
          (_, sb) \<leftarrow> sb_pad sb;
          let lba = sb_lba sb;
          let (sgl, sb) = sb_pop sb;
          writev_at_one ec junk vr sgl lba
        } else Some []);
     bd0 \<leftarrow> vec_get (vr_blockdevs vr) 0;
     let (start, end) = vf_zone_limits bd0 zone;
     Some (vr\<lparr>vr_stripe_buffers := bt_remove zone (vr_stripe_buffers vr)\<rparr>,
       sb_ops @ map (\<lambda>d. DFinishZone d start (wsub 64 end 1)) [0..<length (vr_blockdevs vr)])
   }"

definition vr_flush_zone :: "ec_fun \<Rightarrow> (nat \<Rightarrow> IoVec) \<Rightarrow> VdevRaid \<Rightarrow> ZoneT \<Rightarrow> (LbaT \<times> VdevRaid \<times> DiskOp list) option" where
  "vr_flush_zone ec junk vr zone =
     (case bt_get (vr_stripe_buffers vr) zone of
        None \<Rightarrow> Some (0, vr, [])
      | Some sb \<Rightarrow>
          if sb_is_empty sb then Some (0, vr, [])
          else do {
            (pad_lbas, sb) \<leftarrow> sb_pad sb;
            let lba = sb_lba sb;
            let (sgl, sb) = sb_pop sb;
            ops \<leftarrow> writev_at_one ec junk vr sgl lba;
            Some (pad_lbas, vr\<lparr>vr_stripe_buffers := bt_insert zone sb (vr_stripe_buffers vr)\<rparr>, ops)
          })"

text \<open>The loop of \<open>open_zone_priv\<close> that looks for the first chunk of a disk inside the zone.\<close>

fun first_usable :: "VdevRaid \<Rightarrow> nat \<Rightarrow> LbaT \<Rightarrow> nat \<Rightarrow> nat \<Rightarrow> LbaT option" where
  "first_usable vr idx start_lba 0 chunk = None"
| "first_usable vr idx start_lba (Suc fuel) chunk = do {
     chunk_id \<leftarrow> primes_loc2id (vr_locator vr) (chunkloc_new (i16 (int idx)) chunk);
     let chunk_lba = u64 (chunk_address chunk_id * vr_chunksize vr);
     if chunk_lba \<ge> start_lba then Some (u64 (chunk * vr_chunksize vr))
     else first_usable vr idx start_lba fuel (chunk + 1)
   }"

fun open_disks :: "VdevRaid \<Rightarrow> LbaT \<Rightarrow> LbaT \<Rightarrow> nat \<Rightarrow> nat \<Rightarrow> DiskOp list option" where
  "open_disks vr start_lba first_disk_lba start_disk_chunk 0 = Some []"
| "open_disks vr start_lba first_disk_lba start_disk_chunk (Suc idx) = do {
     ops \<leftarrow> open_disks vr start_lba first_disk_lba start_disk_chunk idx;
     first_usable_disk_lba \<leftarrow> first_usable vr idx start_lba (2 * primes_depth (vr_locator vr)) start_disk_chunk;
     zero_ops \<leftarrow>
       (if first_usable_disk_lba > first_disk_lba then do {
          let zero_lbas = first_usable_disk_lba - first_disk_lba;
          sglist \<leftarrow> zero_sglist (u64 (zero_lbas * BYTES_PER_LBA));
          Some [DWritevAt idx sglist first_disk_lba]
        } else Some []);
     Some (ops @ DOpenZone idx first_disk_lba # zero_ops)
   }"

definition open_zone_priv :: "VdevRaid \<Rightarrow> ZoneT \<Rightarrow> LbaT \<Rightarrow> (VdevRaid \<times> DiskOp list) option" where
  "open_zone_priv vr zone already_allocated = do {
     let stripe_lbas = u64 (vr_m vr * vr_chunksize vr);
     (start_lba, _) \<leftarrow> vr_zone_limits vr zone;
     sb \<leftarrow> sb_new (u64 (start_lba + already_allocated)) stripe_lbas;
     assert_that (\<not> bt_contains (vr_stripe_buffers vr) zone);
     bd0 \<leftarrow> vec_get (vr_blockdevs vr) 0;
     let first_disk_lba = fst (vf_zone_limits bd0 zone);
     start_disk_chunk \<leftarrow> div_roundup 64 first_disk_lba (vr_chunksize vr);
     ops \<leftarrow> open_disks vr start_lba first_disk_lba start_disk_chunk (length (vr_blockdevs vr));
     Some (vr\<lparr>vr_stripe_buffers := bt_insert zone sb (vr_stripe_buffers vr)\<rparr>, ops)
   }"

definition vr_open_zone :: "VdevRaid \<Rightarrow> ZoneT \<Rightarrow> (VdevRaid \<times> DiskOp list) option" where
  "vr_open_zone vr zone = open_zone_priv vr zone 0"

definition vr_reopen_zone :: "VdevRaid \<Rightarrow> ZoneT \<Rightarrow> LbaT \<Rightarrow> (VdevRaid \<times> DiskOp list) option" where
  "vr_reopen_zone vr zone allocated = open_zone_priv vr zone allocated"

text \<open>\<open>write_at\<close>: first the stripe buffer is filled, then whole stripes go straight to the disks, then the
  remainder is buffered.\<close>

definition write_head ::
    "ec_fun \<Rightarrow> (nat \<Rightarrow> IoVec) \<Rightarrow> VdevRaid \<Rightarrow> StripeBuffer \<Rightarrow> IoVec \<Rightarrow> LbaT \<Rightarrow>
       (StripeBuffer \<times> IoVec \<times> LbaT \<times> DiskOp list) option" where
  "write_head ec junk vr sb buf lba =
     (if \<not> sb_is_empty sb \<or> length buf < u64 (vr_col_len vr * vr_m vr) then do {
        (sb, buf2) \<leftarrow> sb_fill sb buf;
        if sb_is_full sb then do {
          let stripe_lba = sb_lba sb;
          let (sglist, sb) = sb_pop sb;
          ops \<leftarrow> writev_at_one ec junk vr sglist stripe_lba;
          Some (sb, buf2, u64 (lba + (length buf - length buf2) div BYTES_PER_LBA), ops)
        } else Some (sb, buf2, lba, [])
      } else Some (sb, buf, lba, []))"

definition write_tail ::
    "ec_fun \<Rightarrow> (nat \<Rightarrow> IoVec) \<Rightarrow> VdevRaid \<Rightarrow> StripeBuffer \<Rightarrow> IoVec \<Rightarrow> LbaT \<Rightarrow> (StripeBuffer \<times> DiskOp list) option" where
  "write_tail ec junk vr sb buf3 lba =
     (if buf3 = [] then Some (sb, [])
      else do {
        let stripe_len = u64 (vr_col_len vr * vr_m vr);
        assert_that (stripe_len \<noteq> 0);
        let nstripes = length buf3 div stripe_len;
        let writable_buf = take (nstripes * stripe_len) buf3;
        let buf3 = drop (nstripes * stripe_len) buf3;
        sb \<leftarrow> sb_reset sb (u64 (lba + u64 (u64 (nstripes * vr_m vr) * vr_chunksize vr)));
        (sb, ops) \<leftarrow>
          (if buf3 \<noteq> [] then do {
             (sb, _) \<leftarrow> sb_fill sb buf3;
             if sb_is_full sb then do {
               let slba = sb_lba sb;
               let (sglist, sb) = sb_pop sb;
               ops \<leftarrow> writev_at_one ec junk vr sglist slba;
               Some (sb, ops)
             } else Some (sb, [])
           } else Some (sb, []));
        ops' \<leftarrow> (if nstripes = 1 then write_at_one ec vr writable_buf lba else write_at_multi ec vr writable_buf lba);
        Some (sb, ops @ ops')
      })"

definition vr_write_at ::
    "ec_fun \<Rightarrow> (nat \<Rightarrow> IoVec) \<Rightarrow> VdevRaid \<Rightarrow> IoVec \<Rightarrow> ZoneT \<Rightarrow> LbaT \<Rightarrow> (VdevRaid \<times> DiskOp list) option" where
  "vr_write_at ec junk vr buf zone lba = do {
     sb \<leftarrow> bt_get (vr_stripe_buffers vr) zone;
     assert_that (sb_next_lba sb = lba);
     (sb, buf3, lba, ops) \<leftarrow> write_head ec junk vr sb buf lba;
     (sb, ops') \<leftarrow> write_tail ec junk vr sb buf3 lba;
     Some (vr\<lparr>vr_stripe_buffers := bt_insert zone sb (vr_stripe_buffers vr)\<rparr>, ops @ ops')
   }"

definition vr_write_label :: "(RaidLabel \<Rightarrow> byte list) \<Rightarrow> VdevRaid \<Rightarrow> LabelWriter \<Rightarrow> DiskOp list" where
  "vr_write_label enc vr labeller =
     (let raid_label = \<lparr>rl_uuid = vr_uuid vr, rl_chunksize = vr_chunksize vr,
            rl_disks_per_stripe = primes_stripesize (vr_locator vr), rl_redundancy = primes_protection (vr_locator vr),
            rl_layout_algorithm = vr_layout_algorithm vr, rl_children = map vf_uuid (vr_blockdevs vr)\<rparr>;
          labeller = label_serialize enc labeller raid_label
      in map (\<lambda>d. DWriteLabel d labeller) [0..<length (vr_blockdevs vr)])"

definition vr_write_spacemap :: "VdevRaid \<Rightarrow> SGList \<Rightarrow> nat \<Rightarrow> LbaT \<Rightarrow> DiskOp list" where
  "vr_write_spacemap vr sglist idx block =
     map (\<lambda>d. DWriteSpacemap d sglist idx block) [0..<length (vr_blockdevs vr)]"

definition vr_read_spacemap :: "VdevRaid \<Rightarrow> MutBuf \<Rightarrow> nat \<Rightarrow> DiskOp option" where
  "vr_read_spacemap vr buf idx = do { assert_that (vr_blockdevs vr \<noteq> []); Some (DReadSpacemap 0 buf idx) }"

end
