(* ===== verification/Stripe_Buffer.thy ===== *)
theory Stripe_Buffer
  imports Vdev_Raid
begin

text \<open>
  The stripe buffer as a queue of bytes: filling it appends the data, padded with zeros to whole LBAs, and
  padding it appends zeros up to the end of the stripe.
\<close>

section \<open>Whole LBAs\<close>

definition lba_pad :: "byte list \<Rightarrow> byte list" where
  "lba_pad xs = xs @ replicate ((4096 - length xs mod 4096) mod 4096) 0"

lemma lba_pad_dvd [simp]: "4096 dvd length (lba_pad xs)"
proof -
  have "(length xs + (4096 - length xs mod 4096) mod 4096) mod 4096 = 0"
  proof (cases "length xs mod 4096 = 0")
    case False
    have "length xs mod 4096 < 4096" by simp
    then have "length xs + (4096 - length xs mod 4096) = 4096 * (length xs div 4096 + 1)"
      unfolding distrib_left using mult_div_mod_eq[of 4096 "length xs"] by arith
    then show ?thesis by (metis mod_add_right_eq mod_mult_self1_is_0)
  qed simp
  then show ?thesis by (simp add: lba_pad_def mod_eq_0_iff_dvd)
qed

lemma lba_pad_id: "4096 dvd length xs \<Longrightarrow> lba_pad xs = xs"
  by (simp add: lba_pad_def)

lemma lba_pad_le: "4096 dvd n \<Longrightarrow> length xs \<le> n \<Longrightarrow> length (lba_pad xs) \<le> n"
proof -
  assume n: "4096 dvd n" "length xs \<le> n"
  obtain k where k: "n = 4096 * k" using n(1) by blast
  obtain j where j: "length (lba_pad xs) = 4096 * j" using lba_pad_dvd by (rule dvdE)
  have "length (lba_pad xs) < length xs + 4096" by (simp add: lba_pad_def)
  then have "4096 * j < 4096 * k + 4096" using j k n(2) by linarith
  then have "j \<le> k" by simp
  then show ?thesis using j k by simp
qed

lemma lba_pad_append: "4096 dvd length xs \<Longrightarrow> lba_pad (xs @ ys) = xs @ lba_pad ys"
  by (auto simp: lba_pad_def mod_add_left_eq[symmetric] dvd_eq_mod_eq_0 elim: dvdE)

lemma lba_pad_Nil [simp]: "lba_pad [] = []"
  by (simp add: lba_pad_def)

lemma lba_pad_eq_Nil [simp]: "lba_pad xs = [] \<longleftrightarrow> xs = []"
  by (auto simp: lba_pad_def)

section \<open>The buffer\<close>

definition sb_bytes :: "StripeBuffer \<Rightarrow> byte list" where
  "sb_bytes sb = concat (sb_buf sb)"

definition sb_ok :: "StripeBuffer \<Rightarrow> bool" where
  "sb_ok sb \<longleftrightarrow> [] \<notin> set (sb_buf sb) \<and> 4096 dvd length (sb_bytes sb) \<and> length (sb_bytes sb) \<le> sb_stripesize sb \<and>
     4096 dvd sb_stripesize sb \<and> 0 < sb_stripesize sb \<and> sb_stripesize sb < 2 ^ 62"

lemma sb_len_eq: "sb_ok sb \<Longrightarrow> sb_len sb = length (sb_bytes sb)"
  by (simp add: sb_len_def sglist_len_concat sb_bytes_def[symmetric] sb_ok_def wrapu_id)

lemma sb_is_empty_eq: "sb_ok sb \<Longrightarrow> sb_is_empty sb \<longleftrightarrow> sb_bytes sb = []"
  by (cases "sb_buf sb") (auto simp: sb_is_empty_def sb_bytes_def sb_ok_def)

lemma sb_is_full_eq: "sb_ok sb \<Longrightarrow> sb_is_full sb \<longleftrightarrow> length (sb_bytes sb) = sb_stripesize sb"
  by (simp add: sb_is_full_def sb_len_eq)

lemma sb_next_lba_eq:
  "sb_ok sb \<Longrightarrow> sb_lba sb < 2 ^ 63 \<Longrightarrow> sb_next_lba sb = sb_lba sb + length (sb_bytes sb) div 4096"
  using div_le_dividend[of "length (sb_bytes sb)" 4096]
  by (simp add: sb_next_lba_def sb_len_eq BYTES_PER_LBA_def sb_ok_def wrapu_id del: div_le_dividend)

lemma slice_zeros: "n \<le> ZERO_REGION_LEN \<Longrightarrow> slice_to ZERO_REGION n = Some (replicate n 0)"
  by (simp add: slice_to_def ZERO_REGION_def min_def)

lemma zero_region_len: "ZERO_REGION_LEN = 32768" "length ZERO_REGION = 32768"
  by (simp_all add: ZERO_REGION_LEN_def BYTES_PER_LBA_def ZERO_REGION_def)

lemma sb_fill_spec:
  fixes buf :: IoVec
  assumes ok: "sb_ok sb"
  defines "get \<equiv> min (sb_stripesize sb - length (sb_bytes sb)) (length buf)"
  shows "\<exists>sb'. sb_fill sb buf = Some (sb', drop get buf) \<and> sb_ok sb' \<and> sb_lba sb' = sb_lba sb \<and>
    sb_stripesize sb' = sb_stripesize sb \<and> sb_bytes sb' = sb_bytes sb @ lba_pad (take get buf)"
proof -
  let ?room = "sb_stripesize sb - length (sb_bytes sb)"
  have o: "4096 dvd length (sb_bytes sb)" "length (sb_bytes sb) \<le> sb_stripesize sb" "4096 dvd sb_stripesize sb"
      "[] \<notin> set (sb_buf sb)" "sb_stripesize sb < 2 ^ 62"
    using ok by (simp_all add: sb_ok_def)
  have w: "wsub 64 (sb_stripesize sb) (sb_len sb) = ?room"
    unfolding sb_len_eq[OF ok] using o by (intro wsub_id) auto
  have "4096 dvd ?room" using o by simp
  moreover have "length (take get buf) \<le> ?room" by (simp add: get_def)
  ultimately have fit: "length (lba_pad (take get buf)) \<le> ?room" by (rule lba_pad_le)
  have lt: "length (take get buf) = get" by (simp add: get_def)
  show ?thesis
  proof (cases "get = 0")
    case True
    then have "\<not> 0 < min (sb_stripesize sb - length (sb_bytes sb)) (length buf)" by (simp only: get_def)
    then have "sb_fill sb buf = Some (sb, buf)" unfolding sb_fill_def Let_def w by (simp only: if_False)
    then show ?thesis using True ok by simp
  next
    case False
    define sb1 where "sb1 = sb\<lparr>sb_buf := sb_buf sb @ [take get buf]\<rparr>"
    show ?thesis
    proof (cases "get mod 4096 = 0")
      case True
      then have p: "lba_pad (take get buf) = take get buf" using lt by (intro lba_pad_id) (simp add: dvd_eq_mod_eq_0)
      have f: "sb_fill sb buf = Some (sb1, drop get buf)"
        unfolding sb_fill_def Let_def w get_def[symmetric] using False True by (simp add: sb1_def BYTES_PER_LBA_def)
      have b: "sb_bytes sb1 = sb_bytes sb @ take get buf" by (simp add: sb1_def sb_bytes_def)
      have "sb_ok sb1"
        using ok fit False lba_pad_dvd[of "take get buf"] unfolding sb_ok_def b p by (auto simp: sb1_def get_def)
      then show ?thesis using f b p by (simp add: sb1_def)
    next
      case F: False
      let ?z = "replicate (4096 - get mod 4096) 0"
      have p: "lba_pad (take get buf) = take get buf @ ?z" using F lt by (simp add: lba_pad_def)
      have z: "slice_to ZERO_REGION (4096 - get mod 4096) = Some ?z" by (intro slice_zeros) (simp add: zero_region_len)
      let ?sb2 = "sb1\<lparr>sb_buf := sb_buf sb1 @ [?z]\<rparr>"
      have f: "sb_fill sb buf = Some (?sb2, drop get buf)"
        unfolding sb_fill_def Let_def w get_def[symmetric] using False F z by (simp add: sb1_def BYTES_PER_LBA_def)
      have b: "sb_bytes ?sb2 = sb_bytes sb @ lba_pad (take get buf)" by (simp add: sb1_def sb_bytes_def p)
      have "sb_ok ?sb2"
        using ok fit False lba_pad_dvd[of "take get buf"] unfolding sb_ok_def b by (auto simp: sb1_def get_def p)
      then show ?thesis using f b by (simp add: sb1_def)
    qed
  qed
qed

lemma sb_fill_zeros_spec:
  assumes "sb_ok sb" "length (sb_bytes sb) + n * 32768 \<le> sb_stripesize sb"
  shows "\<exists>sb'. sb_fill_zeros n sb = Some sb' \<and> sb_ok sb' \<and> sb_lba sb' = sb_lba sb \<and>
    sb_stripesize sb' = sb_stripesize sb \<and> sb_bytes sb' = sb_bytes sb @ replicate (n * 32768) 0"
  using assms
proof (induction n arbitrary: sb)
  case (Suc n)
  have "min (sb_stripesize sb - length (sb_bytes sb)) (length ZERO_REGION) = 32768"
    using Suc.prems(2) by (simp add: zero_region_len)
  then obtain sb' where s: "sb_fill sb ZERO_REGION = Some (sb', drop 32768 ZERO_REGION)" "sb_ok sb'"
      "sb_lba sb' = sb_lba sb" "sb_stripesize sb' = sb_stripesize sb"
      "sb_bytes sb' = sb_bytes sb @ lba_pad (take 32768 ZERO_REGION)"
    using sb_fill_spec[OF Suc.prems(1), of ZERO_REGION] by auto
  have z: "lba_pad (take 32768 ZERO_REGION) = replicate 32768 0"
    by (simp add: ZERO_REGION_def zero_region_len(1) lba_pad_id)
  have "length (sb_bytes sb') + n * 32768 \<le> sb_stripesize sb'"
    using Suc.prems(2) s(4,5) z by (simp)
  from Suc.IH[OF s(2) this] obtain sb'' where "sb_fill_zeros n sb' = Some sb''" "sb_ok sb''" "sb_lba sb'' = sb_lba sb'"
      "sb_stripesize sb'' = sb_stripesize sb'" "sb_bytes sb'' = sb_bytes sb' @ replicate (n * 32768) 0" by blast
  then show ?case using s z by (simp add: replicate_add)
qed simp

lemma sb_pad_spec:
  assumes ok: "sb_ok sb" and nf: "length (sb_bytes sb) < sb_stripesize sb"
  defines "padlen \<equiv> sb_stripesize sb - length (sb_bytes sb)"
  shows "\<exists>sb'. sb_pad sb = Some (padlen div 4096, sb') \<and> sb_ok sb' \<and> sb_lba sb' = sb_lba sb \<and>
    sb_stripesize sb' = sb_stripesize sb \<and> sb_bytes sb' = sb_bytes sb @ replicate padlen 0"
proof -
  have o: "4096 dvd length (sb_bytes sb)" "4096 dvd sb_stripesize sb" "sb_stripesize sb < 2 ^ 62"
    using ok by (simp_all add: sb_ok_def)
  have pd: "4096 dvd padlen" "0 < padlen" "padlen < 2 ^ 62" using o nf by (simp_all add: padlen_def)
  have w: "wsub 64 (sb_stripesize sb) (sb_len sb) = padlen"
    unfolding sb_len_eq[OF ok] padlen_def using nf o by (intro wsub_id) auto
  define q where "q = (padlen + 32768 - 1) div 32768"
  have q: "padlen \<le> q * 32768" "q * 32768 < padlen + 32768" using ceil_div_bounds[of 32768 padlen] by (simp_all add: q_def)
  have q1: "0 < q" using q(1) pd by (cases q) auto
  have dr: "div_roundup 64 padlen 32768 = Some q" using pd div_roundup_eq[of 32768 padlen 64] by (simp add: q_def)
  have n: "wsub 64 q 1 = q - 1" using q1 q(2) pd by (intro wsub_id) auto
  have le: "(q - 1) * 32768 \<le> padlen" "padlen - (q - 1) * 32768 \<le> 32768" "padlen - (q - 1) * 32768 > 0"
    using q q1 by (cases q; simp)+
  have r: "wsub 64 padlen (u64 ((q - 1) * 32768)) = padlen - (q - 1) * 32768"
    using le pd by (simp add: wrapu_id wsub_id)
  obtain sb1 where s1: "sb_fill_zeros (q - 1) sb = Some sb1" "sb_ok sb1" "sb_lba sb1 = sb_lba sb"
      "sb_stripesize sb1 = sb_stripesize sb" "sb_bytes sb1 = sb_bytes sb @ replicate ((q - 1) * 32768) 0"
    using sb_fill_zeros_spec[OF ok, of "q - 1"] le nf by (auto simp: padlen_def)
  let ?l = "padlen - (q - 1) * 32768"
  have sl: "slice_to ZERO_REGION ?l = Some (replicate ?l 0)" using le by (intro slice_zeros) (simp add: zero_region_len)
  have "sb_stripesize sb1 - length (sb_bytes sb1) = ?l" using s1 nf by (simp add: padlen_def)
  then obtain sb2 where s2: "sb_fill sb1 (replicate ?l 0) = Some (sb2, drop ?l (replicate ?l 0))" "sb_ok sb2"
      "sb_lba sb2 = sb_lba sb1" "sb_stripesize sb2 = sb_stripesize sb1"
      "sb_bytes sb2 = sb_bytes sb1 @ lba_pad (replicate ?l 0)"
    using sb_fill_spec[OF s1(2), of "replicate ?l 0"] by auto
  have "4096 dvd (q - 1) * 32768" by (intro dvd_mult) simp
  then have "lba_pad (replicate ?l (0 :: byte)) = replicate ?l 0" using pd by (intro lba_pad_id) simp
  then have "sb_bytes sb2 = sb_bytes sb @ replicate padlen 0"
    using s1 s2 le by (simp add: replicate_add[symmetric])
  moreover have "sb_pad sb = Some (padlen div 4096, sb2)"
    using w dr n r s1 s2 sl by (simp add: sb_pad_def zero_region_len BYTES_PER_LBA_def Let_def)
  ultimately show ?thesis using s1 s2 by auto
qed

lemma sb_pop_spec:
  assumes "sb_ok sb" "sb_lba sb < 2 ^ 63"
  shows "\<exists>sb'. sb_pop sb = (sb_buf sb, sb') \<and> sb_ok sb' \<and> sb_bytes sb' = [] \<and> sb_stripesize sb' = sb_stripesize sb \<and>
    sb_lba sb' = sb_lba sb + length (sb_bytes sb) div 4096"
  using assms sb_next_lba_eq[OF assms] by (auto simp: sb_pop_def sb_ok_def sb_bytes_def)

end
