(* ===== verification/Raid_Write.thy ===== *)
theory Raid_Write
  imports Raid_Layout Stripe_Buffer
begin

text \<open>
  What the requests of the RAID vdev do to the disks. A disk is a function from byte positions to bytes, and
  the effect of a set of write requests is described by the set of the bytes they write, which does not
  depend on the order in which the disks serve them. Each of the three ways to write stripes,
  \<open>write_at_one\<close>, \<open>writev_at_one\<close> and \<open>write_at_multi\<close>, writes every chunk of the stripes, parity included,
  to the place that the layout gives for it, and nothing else.
\<close>

section \<open>Disk images\<close>

type_synonym disks = "nat \<Rightarrow> nat \<Rightarrow> byte"

fun op_extent :: "DiskOp \<Rightarrow> (nat \<times> nat \<times> byte list) option" where
  "op_extent (DWriteAt d buf lba) = Some (d, lba * 4096, buf)"
| "op_extent (DWritevAt d sgl lba) = Some (d, lba * 4096, concat sgl)"
| "op_extent _ = None"

definition put_bytes :: "nat \<Rightarrow> byte list \<Rightarrow> (nat \<Rightarrow> byte) \<Rightarrow> nat \<Rightarrow> byte" where
  "put_bytes pos bs img i = (if pos \<le> i \<and> i < pos + length bs then bs ! (i - pos) else img i)"

definition exec_op :: "DiskOp \<Rightarrow> disks \<Rightarrow> disks" where
  "exec_op op D = (case op_extent op of None \<Rightarrow> D | Some (d, pos, bs) \<Rightarrow> D(d := put_bytes pos bs (D d)))"

definition exec_ops :: "DiskOp list \<Rightarrow> disks \<Rightarrow> disks" where
  "exec_ops ops D = fold exec_op ops D"

definition op_writes :: "DiskOp \<Rightarrow> (nat \<times> nat \<times> byte) set" where
  "op_writes op = (case op_extent op of None \<Rightarrow> {} | Some (d, pos, bs) \<Rightarrow> (\<lambda>i. (d, pos + i, bs ! i)) ` {..<length bs})"

definition writes :: "DiskOp list \<Rightarrow> (nat \<times> nat \<times> byte) set" where
  "writes ops = (\<Union>op \<in> set ops. op_writes op)"

lemma writes_simps [simp]:
  "writes [] = {}" "writes (op # ops) = op_writes op \<union> writes ops" "writes (xs @ ys) = writes xs \<union> writes ys"
  by (auto simp: writes_def)

lemma exec_op_at: "exec_op op D d i = (if \<exists>b. (d, i, b) \<in> op_writes op then THE b. (d, i, b) \<in> op_writes op else D d i)"
proof (cases "op_extent op")
  case None
  then show ?thesis by (simp add: exec_op_def op_writes_def)
next
  case (Some x)
  obtain d' pos bs where x: "x = (d', pos, bs)" by (cases x)
  have iff: "(d, i, b) \<in> op_writes op \<longleftrightarrow> d = d' \<and> pos \<le> i \<and> i < pos + length bs \<and> b = bs ! (i - pos)" for b
    using Some x by (auto simp: op_writes_def image_iff intro!: bexI[of _ "i - pos"])
  show ?thesis unfolding iff using Some x by (auto simp: exec_op_def put_bytes_def)
qed

lemma exec_unwritten: "(\<And>b. (d, i, b) \<notin> writes ops) \<Longrightarrow> exec_ops ops D d i = D d i"
  by (induction ops arbitrary: D) (auto simp: exec_ops_def exec_op_at)

lemma exec_written:
  assumes "(d, i, b) \<in> writes ops" "\<And>b'. (d, i, b') \<in> writes ops \<Longrightarrow> b' = b"
  shows "exec_ops ops D d i = b"
  using assms
proof (induction ops arbitrary: D)
  case (Cons op ops)
  show ?case
  proof (cases "\<exists>b'. (d, i, b') \<in> writes ops")
    case True
    then obtain b' where b': "(d, i, b') \<in> writes ops" by blast
    then have "(d, i, b) \<in> writes ops" using Cons.prems(2)[of b'] by simp
    then have "exec_ops ops (exec_op op D) d i = b" by (rule Cons.IH) (rule Cons.prems(2), simp)
    then show ?thesis by (simp add: exec_ops_def)
  next
    case False
    then have "(d, i, b) \<in> op_writes op" using Cons.prems(1) by auto
    moreover have "(THE b. (d, i, b) \<in> op_writes op) = b" using calculation Cons.prems(2) by (intro the_equality) auto
    ultimately have "exec_op op D d i = b" by (auto simp: exec_op_at)
    then show ?thesis using exec_unwritten[of d i ops "exec_op op D"] False by (simp add: exec_ops_def)
  qed
qed simp

section \<open>The geometry of a vdev\<close>

abbreviation vr_M :: "VdevRaid \<Rightarrow> nat" where "vr_M vr \<equiv> nat (ps_m (vr_locator vr))"
abbreviation vr_F :: "VdevRaid \<Rightarrow> nat" where "vr_F vr \<equiv> nat (ps_f (vr_locator vr))"

definition vr_C :: "VdevRaid \<Rightarrow> nat" where
  "vr_C vr = vr_chunksize vr * 4096"

definition raid_ok :: "VdevRaid \<Rightarrow> bool" where
  "raid_ok vr \<longleftrightarrow> primes_ok (vr_locator vr) \<and>
     int (cd_m (vr_codec vr)) = ps_k (vr_locator vr) \<and> int (cd_f (vr_codec vr)) = ps_f (vr_locator vr) \<and>
     length (vr_blockdevs vr) = nat (ps_n (vr_locator vr)) \<and>
     0 < vr_chunksize vr \<and> vr_M vr * vr_C vr < 2 ^ 62"

text \<open>Chunks whose place on the disks lies below \<open>2^63\<close> bytes.\<close>

definition raid_in_range :: "VdevRaid \<Rightarrow> nat \<Rightarrow> bool" where
  "raid_in_range vr a \<longleftrightarrow>
     (int a div ps_datachunks (vr_locator vr) + 2) * ps_datachunks (vr_locator vr) * int (vr_C vr) \<le> 2 ^ 63"

lemma raid_ok_simps:
  assumes ok: "raid_ok vr"
  shows "primes_ok (vr_locator vr)" "vr_m vr = vr_M vr" "vr_f vr = vr_F vr" "vr_col_len vr = vr_C vr" "0 < vr_C vr" "0 < vr_M vr"
    "wsub 32 (cd_m (vr_codec vr)) (cd_f (vr_codec vr)) = vr_M vr" "cd_f (vr_codec vr) = vr_F vr"
    "cast_u 64 (codec_stripesize (vr_codec vr)) = nat (ps_k (vr_locator vr))"
    "nat (ps_k (vr_locator vr)) = vr_M vr + vr_F vr" "0 < vr_F vr" "0 < vr_chunksize vr" "vr_C vr < 2 ^ 62"
    "vr_M vr * vr_C vr < 2 ^ 62"
proof -
  show p: "primes_ok (vr_locator vr)" "0 < vr_chunksize vr" "vr_M vr * vr_C vr < 2 ^ 62" using ok by (simp_all add: raid_ok_def)
  note pb = primes_ok_bounds[OF p(1)]
  show M: "0 < vr_M vr" "0 < vr_F vr" using pb by simp_all
  have "1 * vr_C vr \<le> vr_M vr * vr_C vr" using M by (intro mult_right_mono) auto
  then show c: "vr_C vr < 2 ^ 62" using p(3) by linarith
  have k: "int (cd_m (vr_codec vr)) = ps_k (vr_locator vr)" "int (cd_f (vr_codec vr)) = ps_f (vr_locator vr)"
    using ok by (simp_all add: raid_ok_def)
  show "cd_f (vr_codec vr) = vr_F vr" using k(2) by simp
  have cs: "codec_stripesize (vr_codec vr) = ps_k (vr_locator vr)" "codec_protection (vr_codec vr) = ps_f (vr_locator vr)"
    using k pb by (simp_all add: codec_stripesize_def codec_protection_def i16_id)
  have mk: "ps_k (vr_locator vr) - ps_f (vr_locator vr) = ps_m (vr_locator vr)" using pb by simp
  show "vr_m vr = vr_M vr" "vr_f vr = vr_F vr" "cast_u 64 (codec_stripesize (vr_codec vr)) = nat (ps_k (vr_locator vr))"
    using pb by (simp_all add: vr_m_def vr_f_def cs mk i16_id cast_u_id)
  show "vr_col_len vr = vr_C vr" using c by (simp add: vr_col_len_def BYTES_PER_LBA_def wrapu_id vr_C_def)
  show "0 < vr_C vr" using p by (simp add: vr_C_def)
  show "wsub 32 (cd_m (vr_codec vr)) (cd_f (vr_codec vr)) = vr_M vr" using k pb by (simp add: wsub_def mk)
  show "nat (ps_k (vr_locator vr)) = vr_M vr + vr_F vr" using pb by simp
qed

lemma raid_in_range_chunk:
  assumes ok: "raid_ok vr" and r: "raid_in_range vr a"
  shows "chunk_in_range (vr_locator vr) a" "a * vr_C vr < 2 ^ 63"
proof -
  note pb = primes_ok_bounds[OF raid_ok_simps(1)[OF ok]]
  let ?x = "(int a div ps_datachunks (vr_locator vr) + 2) * ps_datachunks (vr_locator vr)"
  have x: "0 \<le> ?x" using pb by (intro mult_nonneg_nonneg) (auto simp: pos_imp_zdiv_nonneg_iff)
  have "?x * 1 \<le> ?x * int (vr_C vr)" using x raid_ok_simps(5)[OF ok] by (intro mult_left_mono) auto
  then show ir: "chunk_in_range (vr_locator vr) a"
    using r unfolding chunk_in_range_def raid_in_range_def mult_1_right by (rule order_trans)
  have "int a mod ps_datachunks (vr_locator vr) < ps_datachunks (vr_locator vr)" using pb by simp
  then have "int a < ?x" unfolding distrib_right using pb div_mult_mod_eq[of "int a" "ps_datachunks (vr_locator vr)"] by linarith
  then have "int a * int (vr_C vr) < ?x * int (vr_C vr)" using raid_ok_simps(5)[OF ok] by (intro mult_strict_right_mono) auto
  then have "int (a * vr_C vr) < 2 ^ 63" using r unfolding raid_in_range_def of_nat_mult by linarith
  then show "a * vr_C vr < 2 ^ 63" by (simp only: of_nat_less_numeral_power_cancel_iff)
qed

lemma raid_in_range_mono: "raid_ok vr \<Longrightarrow> raid_in_range vr b \<Longrightarrow> a \<le> b \<Longrightarrow> raid_in_range vr a"
proof -
  assume ok: "raid_ok vr" and b: "raid_in_range vr b" and ab: "a \<le> b"
  note pb = primes_ok_bounds[OF raid_ok_simps(1)[OF ok]]
  have "int a div ps_datachunks (vr_locator vr) \<le> int b div ps_datachunks (vr_locator vr)" using ab pb by (intro zdiv_mono1) auto
  then have "(int a div ps_datachunks (vr_locator vr) + 2) * ps_datachunks (vr_locator vr) * int (vr_C vr)
      \<le> (int b div ps_datachunks (vr_locator vr) + 2) * ps_datachunks (vr_locator vr) * int (vr_C vr)"
    using pb by (intro mult_right_mono) auto
  then show ?thesis using b by (simp add: raid_in_range_def)
qed

text \<open>The place of a chunk: its disk exists, and its position does not wrap around.\<close>

definition chunk_disk :: "VdevRaid \<Rightarrow> ChunkId \<Rightarrow> nat" where
  "chunk_disk vr c = nat (cl_disk (primes_id2loc (vr_locator vr) c))"

definition chunk_off :: "VdevRaid \<Rightarrow> ChunkId \<Rightarrow> nat" where
  "chunk_off vr c = cl_offset (primes_id2loc (vr_locator vr) c)"

lemma chunk_place:
  assumes ok: "raid_ok vr" and v: "primes_valid_id (vr_locator vr) c" and r: "raid_in_range vr (chunk_address c)"
  shows "cast_u 64 (cl_disk (primes_id2loc (vr_locator vr) c)) = chunk_disk vr c"
    "chunk_disk vr c < length (vr_blockdevs vr)" "0 \<le> cl_disk (primes_id2loc (vr_locator vr) c)"
    "(chunk_off vr c + 1) * vr_C vr \<le> 2 ^ 63" "(chunk_off vr c + 1) * vr_chunksize vr \<le> 2 ^ 63"
proof -
  note p = raid_ok_simps(1)[OF ok]
  note pb = primes_ok_bounds[OF p]
  have d: "0 \<le> cl_disk (primes_id2loc (vr_locator vr) c)" "cl_disk (primes_id2loc (vr_locator vr) c) < ps_n (vr_locator vr)"
    using primes_disk_range[OF p] by (simp_all add: primes_id2loc_eq[OF p v])
  then show "0 \<le> cl_disk (primes_id2loc (vr_locator vr) c)"
    "cast_u 64 (cl_disk (primes_id2loc (vr_locator vr) c)) = chunk_disk vr c" "chunk_disk vr c < length (vr_blockdevs vr)"
    using pb ok by (simp_all add: cast_u_id chunk_disk_def raid_ok_def)
  have rep: "0 \<le> primes_rep (vr_locator vr) c" using pb by (simp add: primes_rep_def pos_imp_zdiv_nonneg_iff)
  have "int (chunk_off vr c) + 1 \<le> (primes_rep (vr_locator vr) c + 1) * ps_depth (vr_locator vr)"
    using offset_in_rep[OF p v] by (simp add: chunk_off_def)
  also have "\<dots> \<le> (primes_rep (vr_locator vr) c + 2) * ps_datachunks (vr_locator vr)"
    using pb rep by (intro mult_mono) auto
  finally have "(int (chunk_off vr c) + 1) * int (vr_C vr)
      \<le> (primes_rep (vr_locator vr) c + 2) * ps_datachunks (vr_locator vr) * int (vr_C vr)"
    by (intro mult_right_mono) auto
  also have "\<dots> \<le> 2 ^ 63" using r unfolding raid_in_range_def primes_rep_def .
  finally have "int ((chunk_off vr c + 1) * vr_C vr) \<le> 2 ^ 63" unfolding of_nat_mult of_nat_add of_nat_1 .
  then show b: "(chunk_off vr c + 1) * vr_C vr \<le> 2 ^ 63"
    by (simp only: of_nat_le_numeral_power_cancel_iff)
  have "(chunk_off vr c + 1) * vr_chunksize vr \<le> (chunk_off vr c + 1) * vr_C vr" unfolding vr_C_def by (intro mult_left_mono) auto
  then show "(chunk_off vr c + 1) * vr_chunksize vr \<le> 2 ^ 63" using b by linarith
qed

lemma chunk_place_inj:
  assumes ok: "raid_ok vr" and v: "primes_valid_id (vr_locator vr) c" "primes_valid_id (vr_locator vr) c'"
    and r: "raid_in_range vr (chunk_address c)" "raid_in_range vr (chunk_address c')"
    and e: "chunk_disk vr c = chunk_disk vr c'" "chunk_off vr c = chunk_off vr c'"
  shows "c = c'"
proof (rule primes.id2loc_inj[OF raid_ok_simps(1)[OF ok] v])
  show "primes_id2loc (vr_locator vr) c = primes_id2loc (vr_locator vr) c'"
    using e chunk_place(3)[OF ok v(1) r(1)] chunk_place(3)[OF ok v(2) r(2)]
    by (intro Chunkloc.equality) (simp_all add: chunk_disk_def chunk_off_def)
qed

section \<open>Columns and chunks\<close>

text \<open>The bytes written when the chunks get the given contents.\<close>

definition chunk_writes :: "VdevRaid \<Rightarrow> (ChunkId \<times> byte list) list \<Rightarrow> (nat \<times> nat \<times> byte) set" where
  "chunk_writes vr xs = (\<Union>(c, bs) \<in> set xs. (\<lambda>i. (chunk_disk vr c, chunk_off vr c * vr_C vr + i, bs ! i)) ` {..<length bs})"

lemma chunk_writes_simps [simp]:
  "chunk_writes vr [] = {}"
  "chunk_writes vr ((c, bs) # xs) = (\<lambda>i. (chunk_disk vr c, chunk_off vr c * vr_C vr + i, bs ! i)) ` {..<length bs} \<union> chunk_writes vr xs"
  "chunk_writes vr (xs @ ys) = chunk_writes vr xs \<union> chunk_writes vr ys"
  by (auto simp: chunk_writes_def)

text \<open>One request for each column, the first one \<open>o1\<close> LBAs into its chunk.\<close>

fun place_cols :: "(nat \<Rightarrow> 'c \<Rightarrow> LbaT \<Rightarrow> DiskOp) \<Rightarrow> VdevRaid \<Rightarrow> LbaT \<Rightarrow> ChunkId list \<Rightarrow> 'c list \<Rightarrow> DiskOp list" where
  "place_cols mk vr o1 (c # cs) (col # cols) =
     mk (chunk_disk vr c) col (chunk_off vr c * vr_chunksize vr + o1) # place_cols mk vr 0 cs cols"
| "place_cols mk vr o1 _ _ = []"

lemma issue_cols_steps:
  assumes ok: "raid_ok vr"
  shows "\<lbrakk>primes_valid_id (vr_locator vr) c; chunk_steps (vr_locator vr) e c cs; length cols = length cs;
      \<forall>x \<in> set cs. raid_in_range vr (chunk_address x); o1 < vr_chunksize vr\<rbrakk>
    \<Longrightarrow> issue_cols mk vr o1 (iter_on (vr_locator vr) c e) cols = Some (place_cols mk vr o1 cs cols)"
proof (induction cs arbitrary: c cols o1)
  case (Cons x xs)
  obtain col cols' where cols: "cols = col # cols'" using Cons.prems(3) by (cases cols) auto
  have x: "x = c" "c \<noteq> e" "chunk_in_range (vr_locator vr) (chunk_address c)" "chunk_steps (vr_locator vr) e (chunk_succ (vr_locator vr) c) xs"
    and r: "raid_in_range vr (chunk_address c)" using Cons.prems by auto
  note n = iter_on_next[OF raid_ok_simps(1)[OF ok] Cons.prems(1) x(3,2)]
  note pl = chunk_place[OF ok Cons.prems(1) r]
  have "chunk_off vr c * vr_chunksize vr + o1 < (chunk_off vr c + 1) * vr_chunksize vr" using Cons.prems(5) by simp
  then have w: "chunk_off vr c * vr_chunksize vr + o1 < 2 ^ 64" using pl(5) by simp
  then have "u64 (u64 (cl_offset (primes_id2loc (vr_locator vr) c) * vr_chunksize vr) + o1) = chunk_off vr c * vr_chunksize vr + o1"
    by (simp add: wrapu_id chunk_off_def[symmetric])
  moreover have "issue_cols mk vr 0 (iter_on (vr_locator vr) (chunk_succ (vr_locator vr) c) e) cols' = Some (place_cols mk vr 0 xs cols')"
    using Cons.prems cols raid_ok_simps(12)[OF ok] by (intro Cons.IH[OF n(2) x(4)]) auto
  ultimately show ?case using n(1) pl(1,2) x(1) cols by simp
qed simp

lemma place_cols_writes:
  "length cols = length cs \<Longrightarrow> writes (place_cols DWriteAt vr 0 cs cols) = chunk_writes vr (zip cs cols)"
  "length sgls = length cs \<Longrightarrow> writes (place_cols DWritevAt vr 0 cs sgls) = chunk_writes vr (zip cs (map concat sgls))"
proof -
  show "writes (place_cols DWriteAt vr 0 cs cols) = chunk_writes vr (zip cs cols)" if "length cols = length cs"
    using that by (induction cols cs rule: list_induct2) (auto simp: op_writes_def image_iff algebra_simps vr_C_def)
  show "writes (place_cols DWritevAt vr 0 cs sgls) = chunk_writes vr (zip cs (map concat sgls))" if "length sgls = length cs"
    using that by (induction sgls cs rule: list_induct2) (auto simp: op_writes_def image_iff algebra_simps vr_C_def)
qed

section \<open>Writing one stripe\<close>

text \<open>The contents of the chunks of a stripe: its data, cut into columns, and their parity.\<close>

definition data_cols :: "VdevRaid \<Rightarrow> byte list \<Rightarrow> IoVec list" where
  "data_cols vr buf = map (\<lambda>i. take (vr_C vr) (drop (i * vr_C vr) buf)) [0..<vr_M vr]"

definition parity_cols :: "ec_fun \<Rightarrow> VdevRaid \<Rightarrow> byte list \<Rightarrow> IoVec list" where
  "parity_cols ec vr buf = codec_encode ec (vr_codec vr) (vr_C vr) (data_cols vr buf)"

definition stripe_items :: "ec_fun \<Rightarrow> VdevRaid \<Rightarrow> nat \<Rightarrow> byte list \<Rightarrow> (ChunkId \<times> byte list) list" where
  "stripe_items ec vr s buf = zip (stripe_ids (vr_locator vr) s) (data_cols vr buf @ parity_cols ec vr buf)"

lemma length_data_cols [simp]: "length (data_cols vr buf) = vr_M vr"
  by (simp add: data_cols_def)

lemma data_cols_length: "length buf = vr_M vr * vr_C vr \<Longrightarrow> \<forall>col \<in> set (data_cols vr buf). length col = vr_C vr"
proof -
  assume l: "length buf = vr_M vr * vr_C vr"
  have "length (take (vr_C vr) (drop (i * vr_C vr) buf)) = vr_C vr" if "i < vr_M vr" for i
  proof -
    have "Suc i * vr_C vr \<le> length buf" unfolding l using that by (intro mult_le_mono1) simp
    then show ?thesis unfolding length_take length_drop mult_Suc by linarith
  qed
  then show ?thesis by (simp add: data_cols_def del: length_take length_drop)
qed

lemma raid_encode_eq:
  assumes ok: "raid_ok vr"
  shows "codec_encode ec (vr_codec vr) len data = ec len (vr_M vr) (vr_F vr) (cd_enc_tables (vr_codec vr)) data"
  using raid_ok_simps(7)[OF ok] unfolding codec_encode_def raid_ok_simps(8)[OF ok] by simp

lemma parity_cols_length:
  assumes ok: "raid_ok vr" and bw: "ec_bytewise ec" and l: "length buf = vr_M vr * vr_C vr"
  shows "length (parity_cols ec vr buf) = vr_F vr" "\<forall>col \<in> set (parity_cols ec vr buf). length col = vr_C vr"
proof -
  have d: "\<forall>col \<in> set (data_cols vr buf). vr_C vr \<le> length col" using data_cols_length[OF l] by (metis order_refl)
  show "length (parity_cols ec vr buf) = vr_F vr" "\<forall>col \<in> set (parity_cols ec vr buf). length col = vr_C vr"
    unfolding parity_cols_def raid_encode_eq[OF ok] by (rule ec_length[OF bw length_data_cols d])+
qed

lemma into_chunks_eq: "0 < n \<Longrightarrow> length xs = k * n \<Longrightarrow> into_chunks n xs = map (\<lambda>i. take n (drop (i * n) xs)) [0..<k]"
proof (induction k arbitrary: xs)
  case (Suc k)
  then have "xs \<noteq> []" by auto
  have u: "[0..<Suc k] = 0 # map Suc [0..<k]" by (simp add: map_Suc_upt upt_conv_Cons del: upt_Suc)
  have "into_chunks n (drop n xs) = map (\<lambda>i. take n (drop (i * n) (drop n xs))) [0..<k]" using Suc by simp
  then show ?case unfolding u using \<open>xs \<noteq> []\<close> Suc.prems(1)
    by (subst into_chunks.simps) (simp add: add.commute)
qed (simp add: into_chunks.simps)

lemma into_chunks_data_cols:
  "raid_ok vr \<Longrightarrow> length buf = vr_M vr * vr_C vr \<Longrightarrow> into_chunks (vr_C vr) buf = data_cols vr buf"
  unfolding data_cols_def by (rule into_chunks_eq) (simp_all add: raid_ok_simps)

text \<open>The calls of the macro \<open>issue_1stripe_ops!\<close>.\<close>

lemma issue_ops_data:
  assumes ok: "raid_ok vr" and c: "lba div vr_chunksize vr = b" and b: "b < 2 ^ 63"
    and st: "chunk_steps (vr_locator vr) (Parity b 0) (Data b) cs" and l: "length cols = length cs"
    and r: "\<forall>x \<in> set cs. raid_in_range vr (chunk_address x)"
  shows "issue_1stripe_ops mk vr cols lba False = Some (place_cols mk vr (lba mod vr_chunksize vr) cs cols)"
proof -
  have v: "primes_valid_id (vr_locator vr) (Data b)" using b by simp
  have "iter_new (vr_locator vr) (Data b) (Parity b 0) = Some (iter_on (vr_locator vr) (Data b) (Parity b 0))"
    unfolding iter_on_def by (rule iter_new_at[OF raid_ok_simps(1)[OF ok] v])
  moreover have "lba mod vr_chunksize vr < vr_chunksize vr" using raid_ok_simps(12)[OF ok] by simp
  ultimately show ?thesis
    using issue_cols_steps[OF ok v st l r, of "lba mod vr_chunksize vr" mk] raid_ok_simps(12)[OF ok]
    unfolding issue_1stripe_ops_def c primes_iter_def by simp
qed

lemma issue_ops_parity:
  assumes ok: "raid_ok vr" and c: "lba div vr_chunksize vr = b" and v: "primes_valid_id (vr_locator vr) (Parity b 0)"
    and u: "b + vr_M vr < 2 ^ 64"
    and st: "chunk_steps (vr_locator vr) (Data (b + vr_M vr)) (Parity b 0) cs" and l: "length cols = length cs"
    and r: "\<forall>x \<in> set cs. raid_in_range vr (chunk_address x)"
  shows "issue_1stripe_ops mk vr cols lba True = Some (place_cols mk vr (lba mod vr_chunksize vr) cs cols)"
proof -
  have "iter_new (vr_locator vr) (Parity b 0) (Data (b + vr_M vr))
      = Some (iter_on (vr_locator vr) (Parity b 0) (Data (b + vr_M vr)))"
    unfolding iter_on_def by (rule iter_new_at[OF raid_ok_simps(1)[OF ok] v])
  moreover have "lba mod vr_chunksize vr < vr_chunksize vr" using raid_ok_simps(12)[OF ok] by simp
  ultimately show ?thesis
    using issue_cols_steps[OF ok v st l r, of "lba mod vr_chunksize vr" mk] raid_ok_simps(12)[OF ok]
      wrapu_id[OF u]
    unfolding issue_1stripe_ops_def c primes_iter_def raid_ok_simps(2)[OF ok] by simp
qed

lemma stripe_lba:
  assumes ok: "raid_ok vr"
  shows "s * vr_M vr * vr_chunksize vr div vr_chunksize vr = s * vr_M vr" "s * vr_M vr * vr_chunksize vr mod vr_chunksize vr = 0"
  using raid_ok_simps(12)[OF ok] by simp_all

lemma issue_data_ops:
  assumes ok: "raid_ok vr" and r: "raid_in_range vr (Suc s * vr_M vr)" and l: "length cols = vr_M vr"
  shows "issue_1stripe_ops mk vr cols (s * vr_M vr * vr_chunksize vr) False
    = Some (place_cols mk vr 0 (map Data [s * vr_M vr..<s * vr_M vr + vr_M vr]) cols)"
proof -
  let ?b = "s * vr_M vr"
  note p = raid_ok_simps(1)[OF ok]
  have ci: "chunk_in_range (vr_locator vr) (?b + vr_M vr)" using raid_in_range_chunk(1)[OF ok r] by (simp add: add.commute)
  have b: "?b < 2 ^ 63" using chunk_in_range_less[OF p chunk_in_range_mono[OF p ci, of ?b]] by simp
  have st: "chunk_steps (vr_locator vr) (Parity ?b 0) (Data ?b) (map Data [?b..<?b + vr_M vr])"
    using data_steps[OF p ci, of "Parity ?b 0" 0 "vr_M vr"] raid_ok_simps(6)[OF ok] by simp
  have rr: "\<forall>x \<in> set (map Data [?b..<?b + vr_M vr]). raid_in_range vr (chunk_address x)"
    using raid_in_range_mono[OF ok r] by auto
  show ?thesis
    using issue_ops_data[OF ok stripe_lba(1)[OF ok] b st _ rr, of cols mk] l unfolding stripe_lba(2)[OF ok] by simp
qed

lemma issue_parity_ops:
  assumes ok: "raid_ok vr" and r: "raid_in_range vr (Suc s * vr_M vr)" and l: "length cols = vr_F vr"
  shows "issue_1stripe_ops mk vr cols (s * vr_M vr * vr_chunksize vr) True
    = Some (place_cols mk vr 0 (map (\<lambda>j. Parity (s * vr_M vr) (int j)) [0..<vr_F vr]) cols)"
proof -
  let ?p = "vr_locator vr" and ?b = "s * vr_M vr"
  note p = raid_ok_simps(1)[OF ok]
  have ci: "chunk_in_range ?p (?b + vr_M vr)" using raid_in_range_chunk(1)[OF ok r] by (simp add: add.commute)
  have b: "?b < 2 ^ 63" "chunk_in_range ?p ?b"
    using chunk_in_range_less[OF p chunk_in_range_mono[OF p ci, of ?b]] chunk_in_range_mono[OF p ci, of ?b] by simp_all
  have v: "primes_valid_id ?p (Parity ?b 0)" using b primes_ok_bounds[OF p] by simp
  have u: "?b + vr_M vr < 2 ^ 64" using chunk_in_range_less[OF p ci] by simp
  have st: "chunk_steps ?p (Data (?b + vr_M vr)) (Parity ?b 0) (map (\<lambda>j. Parity ?b (int j)) [0..<vr_F vr])"
    using parity_steps[OF p b(2), of "Data (?b + vr_M vr)" 0 "vr_F vr"] raid_ok_simps(11)[OF ok] by simp
  have rr: "\<forall>x \<in> set (map (\<lambda>j. Parity ?b (int j)) [0..<vr_F vr]). raid_in_range vr (chunk_address x)"
    using raid_in_range_mono[OF ok r] by auto
  show ?thesis
    using issue_ops_parity[OF ok stripe_lba(1)[OF ok] v u st _ rr, of cols mk] l unfolding stripe_lba(2)[OF ok] by simp
qed

lemma write_at_one_spec:
  assumes ok: "raid_ok vr" and bw: "ec_bytewise ec" and r: "raid_in_range vr (Suc s * vr_M vr)"
    and l: "length buf = vr_M vr * vr_C vr"
  shows "\<exists>ops. write_at_one ec vr buf (s * vr_M vr * vr_chunksize vr) = Some ops \<and>
    writes ops = chunk_writes vr (stripe_items ec vr s buf)"
  using issue_data_ops[OF ok r, of "data_cols vr buf" DWriteAt] issue_parity_ops[OF ok r, of "parity_cols ec vr buf" DWriteAt]
    parity_cols_length[OF ok bw l]
  by (simp add: write_at_one_def raid_ok_simps[OF ok] into_chunks_data_cols[OF ok l] parity_cols_def[symmetric]
      place_cols_writes stripe_items_def stripe_ids_def zip_append)

lemma split_columns_spec:
  assumes "sg_ok cur" "m * n \<le> length (sg_rest cur)"
  shows "\<exists>cols. split_columns n m cur = Some cols \<and> map concat cols = map (\<lambda>i. take n (drop (i * n) (sg_rest cur))) [0..<m] \<and>
    (\<forall>col \<in> set cols. [] \<notin> set col)"
  using assms
proof (induction m arbitrary: cur)
  case (Suc m)
  obtain col cur' where c: "sg_take n n cur = Some (col, cur')" "sg_ok cur'" "concat col = take n (sg_rest cur)"
      "sg_rest cur' = drop n (sg_rest cur)" "[] \<notin> set col"
    using sg_take_spec[OF Suc.prems(1), of n n] Suc.prems(2) by auto
  obtain cols where s: "split_columns n m cur' = Some cols"
      "map concat cols = map (\<lambda>i. take n (drop (i * n) (sg_rest cur'))) [0..<m]" "\<forall>col \<in> set cols. [] \<notin> set col"
    using Suc.IH[OF c(2)] Suc.prems(2) c(4) by (auto simp: le_diff_conv2)
  have u: "[0..<Suc m] = 0 # map Suc [0..<m]" by (simp add: map_Suc_upt upt_conv_Cons del: upt_Suc)
  show ?case unfolding u using c s by (auto simp: add.commute)
qed simp

lemma writev_at_one_spec:
  assumes ok: "raid_ok vr" and bw: "ec_bytewise ec" and junk: "\<And>n. length (junk n) = n"
    and r: "raid_in_range vr (Suc s * vr_M vr)" and l: "length (concat sgl) = vr_M vr * vr_C vr" and ne: "[] \<notin> set sgl"
  shows "\<exists>ops. writev_at_one ec junk vr sgl (s * vr_M vr * vr_chunksize vr) = Some ops \<and>
    writes ops = chunk_writes vr (stripe_items ec vr s (concat sgl))"
proof -
  note rs = raid_ok_simps[OF ok]
  have sg: "sg_ok (sg_from sgl)" "sg_rest (sg_from sgl) = concat sgl" using sg_from_ok[OF ne] l rs(14) by auto
  obtain cols where c: "split_columns (vr_C vr) (vr_M vr) (sg_from sgl) = Some cols" "map concat cols = data_cols vr (concat sgl)"
      "\<forall>col \<in> set cols. [] \<notin> set col"
    using split_columns_spec[OF sg(1), of "vr_M vr" "vr_C vr"] l unfolding sg(2) data_cols_def by auto
  have lc: "length cols = vr_M vr" using arg_cong[OF c(2), of length] by simp
  have cl: "\<forall>col \<in> set cols. [] \<notin> set col \<and> length (concat col) = vr_C vr"
    using c(3) data_cols_length[OF l, folded c(2)] by auto
  have en: "codec_encodev ec (vr_codec vr) (vr_C vr) cols (replicate (vr_F vr) (junk (vr_C vr))) = Some (parity_cols ec vr (concat sgl))"
    unfolding parity_cols_def c(2)[symmetric]
  proof (rule codec_encodev_eq[OF bw])
    show "cols \<noteq> []" using lc rs(6) by auto
    show "vr_C vr < 2 ^ 64" using rs(13) by simp
    show "wsub 32 (cd_m (vr_codec vr)) (cd_f (vr_codec vr)) = length cols" unfolding rs(7) lc ..
  qed (simp_all add: rs(8) cl junk)
  show ?thesis
    using issue_data_ops[OF ok r lc, of DWritevAt] issue_parity_ops[OF ok r, of "parity_cols ec vr (concat sgl)" DWriteAt]
      parity_cols_length[OF ok bw l] lc
    by (simp add: writev_at_one_def rs c en place_cols_writes stripe_items_def stripe_ids_def zip_append)
qed

end
