(* ===== verification/Raid_Write_Multi.thy ===== *)
theory Raid_Write_Multi
  imports Raid_Write
begin

text \<open>
  \<open>write_at_multi\<close> writes several stripes with one request per disk. This works because the chunks of
  consecutive stripes are contiguous on every disk; the bytes written are those of writing the stripes
  one by one.
\<close>

section \<open>The contents of several stripes\<close>

abbreviation vr_SL :: "VdevRaid \<Rightarrow> nat" where "vr_SL vr \<equiv> vr_M vr * vr_C vr"

fun stripes_cols :: "ec_fun \<Rightarrow> VdevRaid \<Rightarrow> nat \<Rightarrow> byte list \<Rightarrow> IoVec list" where
  "stripes_cols ec vr 0 buf = []"
| "stripes_cols ec vr (Suc t) buf =
     data_cols vr (take (vr_SL vr) buf) @ parity_cols ec vr (take (vr_SL vr) buf) @ stripes_cols ec vr t (drop (vr_SL vr) buf)"

fun stripes_items :: "ec_fun \<Rightarrow> VdevRaid \<Rightarrow> nat \<Rightarrow> nat \<Rightarrow> byte list \<Rightarrow> (ChunkId \<times> byte list) list" where
  "stripes_items ec vr s 0 buf = []"
| "stripes_items ec vr s (Suc t) buf =
     stripe_items ec vr s (take (vr_SL vr) buf) @ stripes_items ec vr (Suc s) t (drop (vr_SL vr) buf)"

lemma stripes_items_zip:
  assumes ok: "raid_ok vr" and bw: "ec_bytewise ec" and l: "length buf = t * vr_SL vr"
  shows "stripes_items ec vr s t buf = zip (concat (map (stripe_ids (vr_locator vr)) [s..<s + t])) (stripes_cols ec vr t buf)
    \<and> length (stripes_cols ec vr t buf) = length (concat (map (stripe_ids (vr_locator vr)) [s..<s + t]))
    \<and> (\<forall>col \<in> set (stripes_cols ec vr t buf). length col = vr_C vr)"
  using l
proof (induction t arbitrary: s buf)
  case (Suc t)
  let ?b = "take (vr_SL vr) buf"
  have l: "length ?b = vr_SL vr" "length (drop (vr_SL vr) buf) = t * vr_SL vr" using Suc.prems by simp_all
  note IH = Suc.IH[OF l(2), of "Suc s"]
  note pc = parity_cols_length[OF ok bw l(1)]
  have u: "[s..<s + Suc t] = s # [Suc s..<Suc s + t]" by (simp add: upt_conv_Cons)
  have ls: "length (stripe_ids (vr_locator vr) s) = length (data_cols vr ?b @ parity_cols ec vr ?b)"
    unfolding length_append length_data_cols pc(1) length_stripe_ids[OF raid_ok_simps(1)[OF ok]] raid_ok_simps(10)[OF ok] ..
  have c: "\<forall>col \<in> set (stripes_cols ec vr (Suc t) buf). length col = vr_C vr"
    unfolding stripes_cols.simps set_append ball_Un using IH pc(2) data_cols_length[OF l(1)] by blast
  have z: "zip (xs @ xs') (ys @ ys' @ ys'') = zip xs (ys @ ys') @ zip xs' ys''" if "length xs = length (ys @ ys')"
    for xs xs' :: "ChunkId list" and ys ys' ys'' :: "IoVec list"
    using zip_append[OF that, of xs' ys''] by simp
  show ?case
    unfolding u list.map concat.simps stripes_items.simps stripes_cols.simps z[OF ls] stripe_items_def
    using IH c ls by (simp only: stripes_cols.simps length_append add.assoc simp_thms)
qed simp

section \<open>The parity of several stripes\<close>

lemma data_cols_take:
  "data_cols vr (take (vr_SL vr) buf) = map (\<lambda>i. take (vr_C vr) (drop (i * vr_C vr) buf)) [0..<vr_M vr]"
proof -
  have "take (vr_C vr) (drop (i * vr_C vr) (take (vr_SL vr) buf)) = take (vr_C vr) (drop (i * vr_C vr) buf)" if "i < vr_M vr" for i
  proof -
    have "Suc i * vr_C vr \<le> vr_SL vr" using that by (intro mult_le_mono1) simp
    then have "min (vr_C vr) (vr_SL vr - i * vr_C vr) = vr_C vr" by simp
    then show ?thesis by (simp add: drop_take take_take)
  qed
  then show ?thesis unfolding data_cols_def by (intro map_cong[OF refl]) simp
qed

lemma parity_buffers_Suc:
  assumes ok: "raid_ok vr" and bw: "ec_bytewise ec" and l: "length buf = Suc t * vr_SL vr"
  shows "parity_buffers ec vr buf (Suc t)
    = map2 (@) (parity_cols ec vr (take (vr_SL vr) buf)) (parity_buffers ec vr (drop (vr_SL vr) buf) t)"
proof -
  note rs = raid_ok_simps[OF ok]
  have u: "[0..<Suc t] = 0 # map Suc [0..<t]" by (simp add: map_Suc_upt upt_conv_Cons del: upt_Suc)
  have d: "drop ((Suc s * vr_M vr + i) * vr_C vr) buf = drop ((s * vr_M vr + i) * vr_C vr) (drop (vr_SL vr) buf)" for s i
    by (simp add: algebra_simps)
  have lp: "length (parity_cols ec vr (take (vr_SL vr) buf)) = vr_F vr"
    using parity_cols_length(1)[OF ok bw] l by simp
  show ?thesis
  proof (rule nth_equalityI)
    show "length (parity_buffers ec vr buf (Suc t))
      = length (map2 (@) (parity_cols ec vr (take (vr_SL vr) buf)) (parity_buffers ec vr (drop (vr_SL vr) buf) t))"
      by (simp add: parity_buffers_def Let_def rs(3) lp)
    fix p assume "p < length (parity_buffers ec vr buf (Suc t))"
    then have p: "p < vr_F vr" by (simp add: parity_buffers_def Let_def rs(3))
    show "parity_buffers ec vr buf (Suc t) ! p
      = map2 (@) (parity_cols ec vr (take (vr_SL vr) buf)) (parity_buffers ec vr (drop (vr_SL vr) buf) t) ! p"
      using p lp unfolding parity_buffers_def Let_def rs(2,3,4) u list.map concat.simps map_map o_def d
      by (simp add: parity_cols_def data_cols_take)
  qed
qed

section \<open>Cutting the buffers into chunks\<close>

fun feed :: "nat \<Rightarrow> ChunkId list \<Rightarrow> IoVec \<Rightarrow> IoVec list \<Rightarrow> (IoVec list \<times> IoVec \<times> IoVec list) option" where
  "feed n [] buf par = Some ([], buf, par)"
| "feed n (Data a # cs) buf par =
     (if n \<le> length buf then map_option (\<lambda>(cols, r). (take n buf # cols, r)) (feed n cs (drop n buf) par) else None)"
| "feed n (Parity a i # cs) buf par =
     (if cast_u 64 i < length par \<and> n \<le> length (par ! cast_u 64 i)
      then map_option (\<lambda>(cols, r). (take n (par ! cast_u 64 i) # cols, r))
        (feed n cs buf (par[cast_u 64 i := drop n (par ! cast_u 64 i)]))
      else None)"

lemma feed_append:
  "feed n xs buf par = Some (cols, buf', par') \<Longrightarrow> feed n ys buf' par' = Some (cols', r) \<Longrightarrow>
     feed n (xs @ ys) buf par = Some (cols @ cols', r)"
  by (induction n xs buf par arbitrary: cols rule: feed.induct) (cases r; auto split: if_splits)+

lemma feed_data:
  "length xs * n \<le> length buf \<Longrightarrow> feed n (map Data xs) buf par
     = Some (map (\<lambda>i. take n (drop (i * n) buf)) [0..<length xs], drop (length xs * n) buf, par)"
proof (induction xs arbitrary: buf)
  case (Cons x xs)
  have u: "[0..<Suc k] = 0 # map Suc [0..<k]" for k by (simp add: map_Suc_upt upt_conv_Cons del: upt_Suc)
  have "length xs * n \<le> length (drop n buf)" using Cons.prems by simp
  from Cons.IH[OF this] show ?case using Cons.prems unfolding list.size add_0_right add_Suc_right u
    by (simp add: add.commute)
qed simp

lemma feed_parity:
  assumes "\<forall>q \<in> set (drop i ps). n \<le> length q" "length ps < 2 ^ 63" "i + k = length ps"
  shows "feed n (map (\<lambda>j. Parity a (int j)) [i..<i + k]) buf ps
    = Some (map (take n) (drop i ps), buf, take i ps @ map (drop n) (drop i ps))"
  using assms
proof (induction k arbitrary: i ps)
  case (Suc k)
  have u: "[i..<i + Suc k] = i # [Suc i..<Suc i + k]" by (simp add: upt_conv_Cons)
  have i: "i < length ps" "cast_u 64 (int i) = i" using Suc.prems by (simp_all add: cast_u_id)
  have di: "drop i ps = ps ! i # drop (Suc i) ps" using i by (simp add: Cons_nth_drop_Suc)
  have "feed n (map (\<lambda>j. Parity a (int j)) [Suc i..<Suc i + k]) buf (ps[i := drop n (ps ! i)])
      = Some (map (take n) (drop (Suc i) (ps[i := drop n (ps ! i)])), buf,
          take (Suc i) (ps[i := drop n (ps ! i)]) @ map (drop n) (drop (Suc i) (ps[i := drop n (ps ! i)])))"
    using Suc.prems di by (intro Suc.IH) auto
  then show ?case unfolding u using i Suc.prems(1) di by (simp add: take_Suc_conv_app_nth)
qed simp

text \<open>Over whole stripes this yields the columns of the stripes.\<close>

lemma parity_buffers_length:
  assumes ok: "raid_ok vr" and bw: "ec_bytewise ec" and l: "length buf = t * vr_SL vr"
  shows "length (parity_buffers ec vr buf t) = vr_F vr"
  by (simp add: parity_buffers_def Let_def raid_ok_simps(3)[OF ok])

lemma feed_stripes:
  assumes ok: "raid_ok vr" and bw: "ec_bytewise ec" and l: "length buf = t * vr_SL vr"
  shows "\<exists>r. feed (vr_C vr) (concat (map (stripe_ids (vr_locator vr)) [s..<s + t])) buf (parity_buffers ec vr buf t)
    = Some (stripes_cols ec vr t buf, r)"
  using l
proof (induction t arbitrary: s buf)
  case (Suc t)
  let ?b = "take (vr_SL vr) buf" and ?b' = "drop (vr_SL vr) buf" and ?p = "vr_locator vr" and ?C = "vr_C vr"
  have l: "length ?b = vr_SL vr" "length ?b' = t * vr_SL vr" "vr_SL vr \<le> length buf" using Suc.prems by simp_all
  have u: "[s..<s + Suc t] = s # [Suc s..<Suc s + t]" by (simp add: upt_conv_Cons)
  note pc = parity_cols_length[OF ok bw l(1)]
  note pl = parity_buffers_length[OF ok bw l(2)]
  let ?pb = "parity_buffers ec vr ?b' t" and ?pc = "parity_cols ec vr ?b"
  have pb: "parity_buffers ec vr buf (Suc t) = map2 (@) ?pc ?pb" by (rule parity_buffers_Suc[OF ok bw Suc.prems])
  have F: "vr_F vr < 2 ^ 63" using primes_ok_bounds[OF raid_ok_simps(1)[OF ok]] by simp
  have fd: "feed ?C (map Data [s * vr_M vr..<s * vr_M vr + vr_M vr]) buf (map2 (@) ?pc ?pb)
      = Some (data_cols vr ?b, ?b', map2 (@) ?pc ?pb)"
    using feed_data[of "[s * vr_M vr..<s * vr_M vr + vr_M vr]" ?C buf "map2 (@) ?pc ?pb"] l(3)
    unfolding data_cols_take by simp
  have le: "\<forall>q \<in> set (map2 (@) ?pc ?pb). ?C \<le> length q"
    using pc(2) by (auto dest!: set_zip_leftD)
  have tk: "map (take ?C) (map2 (@) ?pc ?pb) = ?pc" "map (drop ?C) (map2 (@) ?pc ?pb) = ?pb"
    using pc pl by (auto intro!: nth_equalityI)
  have fp: "feed ?C (map (\<lambda>j. Parity (s * vr_M vr) (int j)) [0..<vr_F vr]) ?b' (map2 (@) ?pc ?pb) = Some (?pc, ?b', ?pb)"
    using feed_parity[of 0 "map2 (@) ?pc ?pb" ?C "vr_F vr" "s * vr_M vr" ?b'] le pc(1) pl F unfolding drop_0 tk by simp
  obtain r where IH: "feed ?C (concat (map (stripe_ids ?p) [Suc s..<Suc s + t])) ?b' ?pb = Some (stripes_cols ec vr t ?b', r)"
    using Suc.IH[OF l(2), of "Suc s"] by blast
  have "feed ?C (concat (map (stripe_ids ?p) (s # [Suc s..<Suc s + t]))) buf (map2 (@) ?pc ?pb) = Some ((data_cols vr ?b @ ?pc) @ stripes_cols ec vr t ?b', r)"
    unfolding list.map concat.simps stripe_ids_def[of _ s] by (rule feed_append[OF feed_append[OF fd fp] IH])
  then show ?case unfolding u pb by simp
qed simp

section \<open>Distributing the chunks over the disks\<close>

lemma distribute_spec:
  assumes ok: "raid_ok vr"
  shows "\<lbrakk>feed (vr_C vr) cs buf par = Some (cols, r);
      \<forall>c \<in> set cs. primes_valid_id (vr_locator vr) c \<and> raid_in_range vr (chunk_address c);
      length sgls = length (vr_blockdevs vr); length st = length (vr_blockdevs vr)\<rbrakk>
    \<Longrightarrow> \<exists>sgls' st'. distribute vr (map (\<lambda>c. (c, primes_id2loc (vr_locator vr) c)) cs) buf par sgls st = Some (sgls', st') \<and>
      (\<forall>d < length (vr_blockdevs vr).
        sgls' ! d = sgls ! d @ map snd (filter (\<lambda>x. chunk_disk vr (fst x) = d) (zip cs cols)) \<and>
        st' ! d = (if st ! d \<noteq> u64_max then st ! d
          else case filter (\<lambda>c. chunk_disk vr c = d) cs of [] \<Rightarrow> u64_max | c # _ \<Rightarrow> chunk_off vr c * vr_chunksize vr))"
proof (induction cs arbitrary: buf par cols sgls st)
  case (Cons c cs)
  let ?d = "chunk_disk vr c" and ?o = "chunk_off vr c * vr_chunksize vr"
  have v: "primes_valid_id (vr_locator vr) c" "raid_in_range vr (chunk_address c)" using Cons.prems(2) by auto
  note pl = chunk_place[OF ok v]
  have ol: "?o \<le> 2 ^ 63" using pl(5) by simp
  then have o: "u64 (cl_offset (primes_id2loc (vr_locator vr) c) * vr_chunksize vr) = ?o" "?o \<noteq> u64_max"
    by (simp_all add: wrapu_id chunk_off_def)
  have "\<exists>col buf' par' cols'. feed (vr_C vr) cs buf' par' = Some (cols', r) \<and> cols = col # cols' \<and>
    distribute vr (map (\<lambda>c. (c, primes_id2loc (vr_locator vr) c)) (c # cs)) buf par sgls st
      = distribute vr (map (\<lambda>c. (c, primes_id2loc (vr_locator vr) c)) cs) buf' par' (sgls[?d := sgls ! ?d @ [col]])
          (if st ! ?d = u64_max then st[?d := ?o] else st)"
  proof (cases c)
    case (Data a)
    then obtain cols' where "vr_C vr \<le> length buf" "feed (vr_C vr) cs (drop (vr_C vr) buf) par = Some (cols', r)"
        "cols = take (vr_C vr) buf # cols'"
      using Cons.prems(1) by (auto split: if_splits)
    then show ?thesis using Cons.prems(3,4) pl(1,2) o(1) Data
      by - (rule exI[of _ "take (vr_C vr) buf"], rule exI[of _ "drop (vr_C vr) buf"], rule exI[of _ par], rule exI[of _ cols'],
        simp add: raid_ok_simps(4)[OF ok] Let_def)
  next
    case (Parity a i)
    let ?q = "par ! cast_u 64 i"
    obtain cols' where "cast_u 64 i < length par" "vr_C vr \<le> length ?q"
        "feed (vr_C vr) cs buf (par[cast_u 64 i := drop (vr_C vr) ?q]) = Some (cols', r)" "cols = take (vr_C vr) ?q # cols'"
      using Cons.prems(1) Parity by (auto split: if_splits)
    then show ?thesis using Cons.prems(3,4) pl(1,2) o(1) Parity
      by - (rule exI[of _ "take (vr_C vr) ?q"], rule exI[of _ buf], rule exI[of _ "par[cast_u 64 i := drop (vr_C vr) ?q]"], rule exI[of _ cols'],
        simp add: raid_ok_simps(4)[OF ok] Let_def)
  qed
  then obtain col buf' par' cols' where f: "feed (vr_C vr) cs buf' par' = Some (cols', r)" "cols = col # cols'"
    and di: "distribute vr (map (\<lambda>c. (c, primes_id2loc (vr_locator vr) c)) (c # cs)) buf par sgls st
      = distribute vr (map (\<lambda>c. (c, primes_id2loc (vr_locator vr) c)) cs) buf' par' (sgls[?d := sgls ! ?d @ [col]])
          (if st ! ?d = u64_max then st[?d := ?o] else st)" by blast
  obtain sgls' st' where IH: "distribute vr (map (\<lambda>c. (c, primes_id2loc (vr_locator vr) c)) cs) buf' par' (sgls[?d := sgls ! ?d @ [col]])
          (if st ! ?d = u64_max then st[?d := ?o] else st) = Some (sgls', st')"
    "\<forall>d < length (vr_blockdevs vr).
        sgls' ! d = sgls[?d := sgls ! ?d @ [col]] ! d @ map snd (filter (\<lambda>x. chunk_disk vr (fst x) = d) (zip cs cols')) \<and>
        st' ! d = (if (if st ! ?d = u64_max then st[?d := ?o] else st) ! d \<noteq> u64_max
          then (if st ! ?d = u64_max then st[?d := ?o] else st) ! d
          else case filter (\<lambda>c. chunk_disk vr c = d) cs of [] \<Rightarrow> u64_max | c # _ \<Rightarrow> chunk_off vr c * vr_chunksize vr)"
  proof -
    have "\<forall>c \<in> set cs. primes_valid_id (vr_locator vr) c \<and> raid_in_range vr (chunk_address c)"
      "length (sgls[?d := sgls ! ?d @ [col]]) = length (vr_blockdevs vr)"
      "length (if st ! ?d = u64_max then st[?d := ?o] else st) = length (vr_blockdevs vr)"
      using Cons.prems by auto
    from Cons.IH[OF f(1) this] show ?thesis using that by blast
  qed
  have "sgls' ! d = sgls ! d @ map snd (filter (\<lambda>x. chunk_disk vr (fst x) = d) (zip (c # cs) cols)) \<and>
        st' ! d = (if st ! d \<noteq> u64_max then st ! d
          else case filter (\<lambda>c. chunk_disk vr c = d) (c # cs) of [] \<Rightarrow> u64_max | c # _ \<Rightarrow> chunk_off vr c * vr_chunksize vr)"
    if "d < length (vr_blockdevs vr)" for d
    using IH(2)[rule_format, OF that] that Cons.prems(3,4) o(2) f(2) by (cases "?d = d") auto
  then show ?case unfolding di using IH(1) by blast
qed auto

section \<open>One request per disk\<close>

lemma run_append:
  "(\<lambda>i. (d :: nat, p + i :: nat, (xs @ ys) ! i)) ` {..<length (xs @ ys)}
     = (\<lambda>i. (d, p + i, xs ! i)) ` {..<length xs} \<union> (\<lambda>i. (d, p + length xs + i, ys ! i)) ` {..<length ys}"
proof -
  have "{..<length (xs @ ys)} = {..<length xs} \<union> (\<lambda>i. length xs + i) ` {..<length ys}"
  proof (rule set_eqI)
    fix i show "i \<in> {..<length (xs @ ys)} \<longleftrightarrow> i \<in> {..<length xs} \<union> (\<lambda>i. length xs + i) ` {..<length ys}"
      by (cases "i < length xs") (auto intro!: image_eqI[of _ _ "i - length xs"])
  qed
  then have "(\<lambda>i. (d, p + i, (xs @ ys) ! i)) ` {..<length (xs @ ys)}
      = (\<lambda>i. (d, p + i, (xs @ ys) ! i)) ` {..<length xs} \<union> (\<lambda>i. (d, p + (length xs + i), (xs @ ys) ! (length xs + i))) ` {..<length ys}"
    by (simp only: image_Un image_image)
  also have "(\<lambda>i. (d, p + i, (xs @ ys) ! i)) ` {..<length xs} = (\<lambda>i. (d, p + i, xs ! i)) ` {..<length xs}"
    by (intro image_cong) (auto simp: nth_append)
  finally show ?thesis by (simp add: add.assoc)
qed

lemma disk_run_writes:
  assumes "map (\<lambda>x. chunk_off vr (fst x)) ys = [o1..<o1 + length ys]"
    and "\<forall>x \<in> set ys. chunk_disk vr (fst x) = d \<and> length (snd x) = vr_C vr"
  shows "(\<lambda>i. (d, o1 * vr_C vr + i, concat (map snd ys) ! i)) ` {..<length (concat (map snd ys))} = chunk_writes vr ys"
  using assms
proof (induction ys arbitrary: o1)
  case (Cons x ys)
  obtain c bs where x: "x = (c, bs)" by (cases x)
  have u: "[o1..<o1 + length (x # ys)] = o1 # [Suc o1..<Suc o1 + length ys]" by (subst upt_conv_Cons) simp_all
  have o: "chunk_off vr c = o1" "map (\<lambda>x. chunk_off vr (fst x)) ys = [Suc o1..<Suc o1 + length ys]"
    using Cons.prems(1)[unfolded u] x by (simp_all del: upt_Suc)
  have d: "chunk_disk vr c = d" "length bs = vr_C vr" using Cons.prems(2) x by auto
  have IH: "(\<lambda>i. (d, Suc o1 * vr_C vr + i, concat (map snd ys) ! i)) ` {..<length (concat (map snd ys))} = chunk_writes vr ys"
    using Cons.IH[OF o(2)] Cons.prems(2) by simp
  have e: "Suc o1 * vr_C vr = o1 * vr_C vr + length bs" using d by simp
  show ?case
    using run_append[of d "o1 * vr_C vr" bs "concat (map snd ys)"] IH[unfolded e] d o(1) x by simp
qed simp

lemma chunk_writes_by_disk:
  assumes "\<forall>x \<in> set xs. chunk_disk vr (fst x) < n"
  shows "chunk_writes vr xs = (\<Union>d \<in> {..<n}. chunk_writes vr (filter (\<lambda>x. chunk_disk vr (fst x) = d) xs))"
  using assms by (fastforce simp: chunk_writes_def)

lemma filter_zip_fst: "length xs = length ys \<Longrightarrow> map fst (filter (\<lambda>x. P (fst x)) (zip xs ys)) = filter P xs"
  by (induction xs ys rule: list_induct2) auto

lemma write_at_multi_spec:
  assumes ok: "raid_ok vr" and bw: "ec_bytewise ec" and r: "raid_in_range vr ((s + t) * vr_M vr)"
    and l: "length buf = t * vr_SL vr"
  shows "\<exists>ops. write_at_multi ec vr buf (s * vr_M vr * vr_chunksize vr) = Some ops \<and>
    writes ops = chunk_writes vr (stripes_items ec vr s t buf)"
proof -
  note rs = raid_ok_simps[OF ok]
  let ?p = "vr_locator vr" and ?n = "length (vr_blockdevs vr)"
  define cs where "cs = concat (map (stripe_ids ?p) [s..<s + t])"
  define cols where "cols = stripes_cols ec vr t buf"
  note ir = raid_in_range_chunk[OF ok r]
  note it = stripes_items_zip[OF ok bw l, of s, folded cs_def cols_def]
  have val: "\<forall>c \<in> set cs. primes_valid_id ?p c \<and> raid_in_range vr (chunk_address c)"
  proof
    fix c assume c: "c \<in> set cs"
    then have "primes_valid_id ?p c" "primes_stripe_no ?p c < s + t"
      using stripes_sorted(2)[OF rs(1) ir(1), folded cs_def] by auto
    then have "chunk_address c < (s + t) * vr_M vr" using rs(6) unfolding primes_stripe_no_def by (simp add: div_less_iff_less_mult)
    then show "primes_valid_id ?p c \<and> raid_in_range vr (chunk_address c)"
      using raid_in_range_mono[OF ok r] \<open>primes_valid_id ?p c\<close> by simp
  qed
  have dn: "\<forall>x \<in> set (zip cs cols). chunk_disk vr (fst x) < ?n"
    using val chunk_place(2)[OF ok] by (auto dest!: set_zip_leftD)
  have st: "length buf div vr_C vr div vr_M vr = t" using l rs(5,6) by (simp add: mult.assoc[symmetric])
  have start: "s * vr_M vr * vr_chunksize vr div vr_chunksize vr = s * vr_M vr" by (rule stripe_lba[OF ok])
  have "length buf div 4096 = t * vr_M vr * vr_chunksize vr" unfolding l vr_C_def by (simp add: mult.assoc[symmetric])
  then have sum: "s * vr_M vr * vr_chunksize vr + length buf div BYTES_PER_LBA = (s + t) * vr_M vr * vr_chunksize vr"
    by (simp add: BYTES_PER_LBA_def distrib_right)
  have "(s + t) * vr_M vr * vr_chunksize vr \<le> (s + t) * vr_M vr * vr_C vr" unfolding vr_C_def by (intro mult_left_mono) auto
  then have lt: "(s + t) * vr_M vr * vr_chunksize vr < 2 ^ 63" using ir(2) by (rule le_less_trans)
  have "u64 ((s + t) * vr_M vr * vr_chunksize vr) = (s + t) * vr_M vr * vr_chunksize vr"
    by (rule wrapu_id, rule less_trans[OF lt]) simp
  then have end_: "u64 (s * vr_M vr * vr_chunksize vr + length buf div BYTES_PER_LBA) div vr_chunksize vr = (s + t) * vr_M vr"
    unfolding sum using rs(12) by simp
  obtain iter where iter: "primes_iter ?p (Data (s * vr_M vr)) (Data ((s + t) * vr_M vr)) = Some iter"
      "iter_collect iter_next (t * nat (ps_k ?p) + 1) iter = Some (map (\<lambda>c. (c, primes_id2loc ?p c)) cs)"
    using collect_stripes[OF rs(1) ir(1), of "t * nat (ps_k ?p) + 1"] unfolding cs_def by auto
  obtain r0 where fd: "feed (vr_C vr) cs buf (parity_buffers ec vr buf t) = Some (cols, r0)"
    using feed_stripes[OF ok bw l, of s] unfolding cs_def cols_def by blast
  obtain sgls st' where di: "distribute vr (map (\<lambda>c. (c, primes_id2loc ?p c)) cs) buf (parity_buffers ec vr buf t)
        (replicate ?n []) (replicate ?n u64_max) = Some (sgls, st')"
    and dd: "\<And>d. d < ?n \<Longrightarrow> sgls ! d = map snd (filter (\<lambda>x. chunk_disk vr (fst x) = d) (zip cs cols)) \<and>
        st' ! d = (case filter (\<lambda>c. chunk_disk vr c = d) cs of [] \<Rightarrow> u64_max | c # _ \<Rightarrow> chunk_off vr c * vr_chunksize vr)"
    using distribute_spec[OF ok fd val, of "replicate ?n []" "replicate ?n u64_max"] by auto
  have w: "(if st' ! d \<noteq> u64_max then op_writes (DWritevAt d (sgls ! d) (st' ! d)) else {})
      = chunk_writes vr (filter (\<lambda>x. chunk_disk vr (fst x) = d) (zip cs cols))" if d: "d < ?n" for d
  proof -
    let ?ys = "filter (\<lambda>x. chunk_disk vr (fst x) = d) (zip cs cols)"
    have fs: "map fst ?ys = filter (\<lambda>c. chunk_disk vr c = d) cs" using it by (intro filter_zip_fst) simp
    have "disk_offsets ?p (int d) cs = map (chunk_off vr) (filter (\<lambda>c. chunk_disk vr c = d) cs)"
      unfolding disk_offsets_def chunk_off_def[abs_def]
      using val chunk_place(3)[OF ok] by (intro map_cong filter_cong) (auto simp: chunk_disk_def)
    also have "\<dots> = map (\<lambda>x. chunk_off vr (fst x)) ?ys" unfolding fs[symmetric] by simp
    finally have do: "disk_offsets ?p (int d) cs = map (\<lambda>x. chunk_off vr (fst x)) ?ys" .
    show ?thesis
    proof (cases ?ys)
      case Nil
      then have "filter (\<lambda>c. chunk_disk vr c = d) cs = []" using fs by simp
      then show ?thesis using dd[OF d] Nil by simp
    next
      case (Cons x xs)
      obtain c bs where x: "x = (c, bs)" by (cases x)
      have c: "filter (\<lambda>c. chunk_disk vr c = d) cs = c # map fst xs" using fs Cons x by simp
      then have "c \<in> set cs" by (metis filter_is_subset list.set_intros(1) subsetD)
      then have "chunk_off vr c * vr_chunksize vr \<noteq> u64_max" using chunk_place(5)[OF ok] val by fastforce
      then have s0: "st' ! d = chunk_off vr c * vr_chunksize vr" "st' ! d \<noteq> u64_max" using dd[OF d] c by simp_all
      have run: "map (\<lambda>x. chunk_off vr (fst x)) ?ys = [chunk_off vr c..<chunk_off vr c + length ?ys]"
        using stripes_contiguous[OF rs(1) ir(1), of "int d", folded cs_def] unfolding do using Cons x by simp
      have "\<forall>x \<in> set ?ys. chunk_disk vr (fst x) = d \<and> length (snd x) = vr_C vr"
        using it by (auto dest!: set_zip_rightD)
      from disk_run_writes[OF run this] show ?thesis
        using s0 dd[OF d] by (simp add: op_writes_def vr_C_def mult.assoc)
    qed
  qed
  have "writes (map (\<lambda>d. DWritevAt d (sgls ! d) (st' ! d)) (filter (\<lambda>d. st' ! d \<noteq> u64_max) [0..<?n]))
      = (\<Union>d \<in> {..<?n}. if st' ! d \<noteq> u64_max then op_writes (DWritevAt d (sgls ! d) (st' ! d)) else {})"
    by (auto simp: writes_def split: if_splits)
  also have "\<dots> = chunk_writes vr (zip cs cols)" using w chunk_writes_by_disk[OF dn] by simp
  finally have "writes (map (\<lambda>d. DWritevAt d (sgls ! d) (st' ! d)) (filter (\<lambda>d. st' ! d \<noteq> u64_max) [0..<?n]))
      = chunk_writes vr (stripes_items ec vr s t buf)" using it by simp
  moreover have "write_at_multi ec vr buf (s * vr_M vr * vr_chunksize vr)
      = Some (map (\<lambda>d. DWritevAt d (sgls ! d) (st' ! d)) (filter (\<lambda>d. st' ! d \<noteq> u64_max) [0..<?n]))"
    unfolding write_at_multi_def Let_def rs(2,4,9) st start end_ using rs(5,6,12) iter di by simp
  ultimately show ?thesis by blast
qed

end
