(* ===== verification/Raid_Stream.thy ===== *)
theory Raid_Stream
  imports Raid_Write_Multi
begin

text \<open>
  An open zone is a stream of bytes: \<open>write_at\<close> appends its data, padded to whole LBAs, to the bytes that
  the stripe buffer holds; every complete stripe goes to the disks and the rest stays in the buffer.
  \<open>flush_zone\<close> and \<open>finish_zone\<close> append zeros up to the end of the stripe.
\<close>

section \<open>Composing stripes\<close>

lemma stripes_items_append:
  "length b1 = t1 * vr_SL vr \<Longrightarrow>
     stripes_items ec vr s (t1 + t2) (b1 @ b2) = stripes_items ec vr s t1 b1 @ stripes_items ec vr (s + t1) t2 b2"
proof (induction t1 arbitrary: s b1)
  case (Suc t1)
  have l: "vr_SL vr \<le> length b1" "length (drop (vr_SL vr) b1) = t1 * vr_SL vr" using Suc.prems by simp_all
  show ?case using Suc.IH[OF l(2), of "Suc s"] l(1) by simp
qed simp

lemma stripes_items_1: "length b = vr_SL vr \<Longrightarrow> stripes_items ec vr s 1 b = stripe_items ec vr s b"
  by simp

text \<open>The buffer of an open zone stands at the beginning of a stripe and is never full.\<close>

definition zone_buffer :: "VdevRaid \<Rightarrow> nat \<Rightarrow> StripeBuffer \<Rightarrow> bool" where
  "zone_buffer vr s sb \<longleftrightarrow> sb_ok sb \<and> sb_stripesize sb = vr_SL vr \<and> length (sb_bytes sb) < vr_SL vr \<and>
     sb_lba sb = s * vr_M vr * vr_chunksize vr"

lemma stripe_lba_bound:
  assumes ok: "raid_ok vr" and r: "raid_in_range vr (s * vr_M vr)"
  shows "s * vr_M vr * vr_chunksize vr < 2 ^ 63"
proof -
  have "s * vr_M vr * vr_chunksize vr \<le> s * vr_M vr * vr_C vr" unfolding vr_C_def by (intro mult_left_mono) auto
  then show ?thesis using raid_in_range_chunk(2)[OF ok r] by (rule le_less_trans)
qed

lemma stripe_lbas: "raid_ok vr \<Longrightarrow> vr_SL vr div 4096 = vr_M vr * vr_chunksize vr" "4096 dvd vr_SL vr"
  by (simp_all add: vr_C_def mult.assoc[symmetric])

text \<open>A full buffer is written and popped.\<close>

lemma pop_stripe:
  assumes ok: "raid_ok vr" and bw: "ec_bytewise ec" and junk: "\<And>n. length (junk n) = n"
    and r: "raid_in_range vr (Suc s * vr_M vr)"
    and sb: "sb_ok sb" "sb_stripesize sb = vr_SL vr" "length (sb_bytes sb) = vr_SL vr" "sb_lba sb = s * vr_M vr * vr_chunksize vr"
  shows "\<exists>sb' ops. sb_pop sb = (sb_buf sb, sb') \<and> writev_at_one ec junk vr (sb_buf sb) (sb_lba sb) = Some ops \<and>
    zone_buffer vr (Suc s) sb' \<and> sb_bytes sb' = [] \<and> writes ops = chunk_writes vr (stripe_items ec vr s (sb_bytes sb))"
proof -
  have "raid_in_range vr (s * vr_M vr)" by (rule raid_in_range_mono[OF ok r]) simp
  then have b: "sb_lba sb < 2 ^ 63" using stripe_lba_bound[OF ok] sb(4) by simp
  obtain sb' where p: "sb_pop sb = (sb_buf sb, sb')" "sb_ok sb'" "sb_bytes sb' = []" "sb_stripesize sb' = sb_stripesize sb"
      "sb_lba sb' = sb_lba sb + length (sb_bytes sb) div 4096"
    using sb_pop_spec[OF sb(1) b] by blast
  have "sb_lba sb' = Suc s * vr_M vr * vr_chunksize vr"
    unfolding p(5) sb(3,4) stripe_lbas(1)[OF ok] by (simp add: distrib_right add.commute)
  then have z: "zone_buffer vr (Suc s) sb'" using p sb(2) raid_ok_simps(5,6)[OF ok] by (simp add: zone_buffer_def)
  have ne: "[] \<notin> set (sb_buf sb)" using sb(1) by (simp add: sb_ok_def)
  obtain ops where "writev_at_one ec junk vr (sb_buf sb) (s * vr_M vr * vr_chunksize vr) = Some ops"
      "writes ops = chunk_writes vr (stripe_items ec vr s (concat (sb_buf sb)))"
    using writev_at_one_spec[OF ok bw junk r _ ne] sb(3) unfolding sb_bytes_def by blast
  then show ?thesis using p(1,3) z sb(4) unfolding sb_bytes_def by metis
qed

lemma write_stripes:
  assumes ok: "raid_ok vr" and bw: "ec_bytewise ec" and r: "raid_in_range vr ((s + q) * vr_M vr)" and l: "length buf = q * vr_SL vr"
  shows "\<exists>ops. (if q = 1 then write_at_one ec vr buf (s * vr_M vr * vr_chunksize vr)
       else write_at_multi ec vr buf (s * vr_M vr * vr_chunksize vr)) = Some ops \<and>
     writes ops = chunk_writes vr (stripes_items ec vr s q buf)"
proof (cases "q = 1")
  case True
  then have r1: "raid_in_range vr (Suc s * vr_M vr)" and l1: "length buf = vr_SL vr" using r l by simp_all
  show ?thesis using write_at_one_spec[OF ok bw r1 l1] unfolding True stripes_items_1[OF l1] by simp
next
  case False
  then show ?thesis using write_at_multi_spec[OF ok bw r l] by simp
qed

section \<open>\<open>write_at\<close>\<close>

lemma less_2p_64: "x < 2 ^ 63 \<Longrightarrow> x < (2 :: nat) ^ 64"
  by simp

lemma append_div_SL:
  assumes "0 < (n :: nat)" "length xs = q * n" "length ys \<le> n"
  shows "length (xs @ ys) div n = q + (if length ys = n then 1 else 0)"
  using assms by (simp add: div_mult_self3 add.commute)

lemma write_tail_spec:
  assumes ok: "raid_ok vr" and bw: "ec_bytewise ec" and junk: "\<And>n. length (junk n) = n"
    and sb: "sb_ok sb" "sb_stripesize sb = vr_SL vr" "sb_bytes sb = []" and z: "buf3 = [] \<Longrightarrow> zone_buffer vr s sb"
  defines "T \<equiv> length (lba_pad buf3) div vr_SL vr"
  assumes r: "raid_in_range vr ((s + T) * vr_M vr)"
  shows "\<exists>sb' ops. write_tail ec junk vr sb buf3 (s * vr_M vr * vr_chunksize vr) = Some (sb', ops) \<and>
    zone_buffer vr (s + T) sb' \<and> sb_bytes sb' = drop (T * vr_SL vr) (lba_pad buf3) \<and>
    writes ops = chunk_writes vr (stripes_items ec vr s T (take (T * vr_SL vr) (lba_pad buf3)))"
proof (cases "buf3 = []")
  case True
  then show ?thesis using z sb by (simp add: write_tail_def T_def)
next
  case False
  note rs = raid_ok_simps[OF ok]
  have SL: "0 < vr_SL vr" "vr_SL vr < 2 ^ 62" using rs(5,6,14) by simp_all
  have u: "u64 (vr_C vr * vr_M vr) = vr_SL vr" using SL(2) by (simp add: wrapu_id mult.commute)
  define q where "q = length buf3 div vr_SL vr"
  define w where "w = take (q * vr_SL vr) buf3"
  define rem where "rem = drop (q * vr_SL vr) buf3"
  have b3: "buf3 = w @ rem" by (simp add: w_def rem_def)
  have qle: "q * vr_SL vr \<le> length buf3" by (simp add: q_def)
  have lw: "length w = q * vr_SL vr" using qle by (simp add: w_def)
  have "length rem = length buf3 mod vr_SL vr" using minus_div_mult_eq_mod[of "length buf3" "vr_SL vr"] by (simp add: rem_def q_def)
  then have lrem: "length rem < vr_SL vr" using SL(1) by simp
  have "4096 dvd length w" unfolding lw using stripe_lbas(2) by simp
  then have pad: "lba_pad buf3 = w @ lba_pad rem" unfolding b3 by (rule lba_pad_append)
  have lp: "length (lba_pad rem) \<le> vr_SL vr" using lba_pad_le[OF stripe_lbas(2)] lrem by simp
  have T: "T = q + (if length (lba_pad rem) = vr_SL vr then 1 else 0)"
    unfolding T_def pad using append_div_SL[OF SL(1) lw lp] .
  have rq: "raid_in_range vr ((s + q) * vr_M vr)" using raid_in_range_mono[OF ok r] T by simp
  note bq = stripe_lba_bound[OF ok rq]
  have e: "s * vr_M vr * vr_chunksize vr + q * vr_M vr * vr_chunksize vr = (s + q) * vr_M vr * vr_chunksize vr"
    by (simp add: distrib_right)
  have "q * vr_M vr * vr_chunksize vr \<le> (s + q) * vr_M vr * vr_chunksize vr" unfolding e[symmetric] by simp
  then have lq: "q * vr_M vr * vr_chunksize vr < 2 ^ 64" using bq less_2p_64 le_less_trans by blast
  have "q * vr_M vr * 1 \<le> q * vr_M vr * vr_chunksize vr" using rs(12) by (intro mult_left_mono) auto
  then have "q * vr_M vr < 2 ^ 64" using lq by (simp only: mult_1_right)
  then have "u64 (s * vr_M vr * vr_chunksize vr + u64 (u64 (q * vr_M vr) * vr_chunksize vr)) = (s + q) * vr_M vr * vr_chunksize vr"
    using lq bq[THEN less_2p_64] by (simp only: wrapu_id e)
  then have reset: "sb_reset sb (u64 (s * vr_M vr * vr_chunksize vr + u64 (u64 (q * vr_M vr) * vr_chunksize vr)))
      = Some (sb\<lparr>sb_lba := (s + q) * vr_M vr * vr_chunksize vr\<rparr>)"
    using sb_is_empty_eq[OF sb(1)] sb(3) by (simp add: sb_reset_def)
  let ?sb1 = "sb\<lparr>sb_lba := (s + q) * vr_M vr * vr_chunksize vr\<rparr>"
  have sb1: "sb_ok ?sb1" "sb_bytes ?sb1 = []" "sb_stripesize ?sb1 = vr_SL vr" using sb by (simp_all add: sb_ok_def sb_bytes_def)
  obtain ops' where wr: "(if q = 1 then write_at_one ec vr w (s * vr_M vr * vr_chunksize vr)
       else write_at_multi ec vr w (s * vr_M vr * vr_chunksize vr)) = Some ops'"
     "writes ops' = chunk_writes vr (stripes_items ec vr s q w)"
    using write_stripes[OF ok bw rq lw] by blast
  obtain sb2 where f: "sb_fill ?sb1 rem = Some (sb2, [])" "sb_ok sb2" "sb_lba sb2 = (s + q) * vr_M vr * vr_chunksize vr"
      "sb_stripesize sb2 = vr_SL vr" "sb_bytes sb2 = lba_pad rem"
    using sb_fill_spec[OF sb1(1), of rem] lrem sb1(2,3) by auto
  have tl: "write_tail ec junk vr sb buf3 (s * vr_M vr * vr_chunksize vr) = do {
        (sb, ops) \<leftarrow> (if rem \<noteq> [] then
           (if sb_is_full sb2 then do {
               let slba = sb_lba sb2;
               let (sglist, sb) = sb_pop sb2;
               ops \<leftarrow> writev_at_one ec junk vr sglist slba;
               Some (sb, ops)
             } else Some (sb2, []))
           else Some (?sb1, []));
        Some (sb, ops @ ops') }"
    using False wr(1) f(1) reset SL unfolding write_tail_def Let_def rs(2,4) u q_def[symmetric] w_def[symmetric] rem_def[symmetric]
    by simp
  show ?thesis
  proof (cases "rem \<noteq> [] \<and> length (lba_pad rem) = vr_SL vr")
    case True
    then have T1: "T = q + 1" using T by simp
    have r1: "raid_in_range vr (Suc (s + q) * vr_M vr)" using r T1 by simp
    obtain sb' ops where p: "sb_pop sb2 = (sb_buf sb2, sb')" "writev_at_one ec junk vr (sb_buf sb2) (sb_lba sb2) = Some ops"
        "zone_buffer vr (Suc (s + q)) sb'" "sb_bytes sb' = []" "writes ops = chunk_writes vr (stripe_items ec vr (s + q) (sb_bytes sb2))"
      using pop_stripe[OF ok bw junk r1 f(2,4) _ f(3)] True f(5) by auto
    have full: "sb_is_full sb2" using sb_is_full_eq[OF f(2)] f(4,5) True by simp
    have lT: "T * vr_SL vr = length (lba_pad buf3)" unfolding T1 pad using True lw by simp
    have "stripes_items ec vr s T (lba_pad buf3) = stripes_items ec vr s q w @ stripe_items ec vr (s + q) (lba_pad rem)"
      unfolding T1 pad stripes_items_append[OF lw] using stripes_items_1[of "lba_pad rem"] True by simp
    then show ?thesis
      unfolding tl lT using True full p wr(2) f(5) T1 by (auto simp: Let_def)
  next
    case F: False
    then have nf: "rem = [] \<or> \<not> sb_is_full sb2" "length (lba_pad rem) < vr_SL vr"
      using sb_is_full_eq[OF f(2)] f(4,5) lp SL by auto
    then have Tq: "T = q" using T by simp
    have tq: "take (T * vr_SL vr) (lba_pad buf3) = w" "drop (T * vr_SL vr) (lba_pad buf3) = lba_pad rem"
      unfolding Tq pad by (simp_all add: lw[symmetric])
    have "zone_buffer vr (s + T) sb2" "zone_buffer vr (s + T) ?sb1"
      using f nf sb1 SL by (simp_all add: zone_buffer_def Tq)
    then show ?thesis unfolding tl tq using nf f(5) wr(2) sb1(2) Tq by (cases "rem = []") auto
  qed
qed

text \<open>
  The head of \<open>write_at\<close>: either the buffer takes all of the data and is not full afterwards, or one stripe is
  completed, or the data goes past an empty buffer.
\<close>

lemma write_head_spec:
  fixes buf :: IoVec
  assumes ok: "raid_ok vr" and bw: "ec_bytewise ec" and junk: "\<And>n. length (junk n) = n" and zb: "zone_buffer vr s sb"
  defines "stream \<equiv> sb_bytes sb @ lba_pad buf"
  assumes r: "raid_in_range vr ((s + length stream div vr_SL vr) * vr_M vr)"
  shows "\<exists>sb' buf3 lba' h ops. write_head ec junk vr sb buf (sb_lba sb + length (sb_bytes sb) div 4096) = Some (sb', buf3, lba', ops) \<and>
    sb_ok sb' \<and> sb_stripesize sb' = vr_SL vr \<and>
    h \<le> length stream div vr_SL vr \<and> (buf3 = [] \<longrightarrow> zone_buffer vr (s + h) sb') \<and>
    (buf3 \<noteq> [] \<longrightarrow> sb_bytes sb' = [] \<and> lba' = (s + h) * vr_M vr * vr_chunksize vr) \<and>
    stream = take (h * vr_SL vr) stream @ sb_bytes sb' @ lba_pad buf3 \<and>
    writes ops = chunk_writes vr (stripes_items ec vr s h (take (h * vr_SL vr) stream))"
proof -
  note rs = raid_ok_simps[OF ok]
  have z: "sb_ok sb" "sb_stripesize sb = vr_SL vr" "length (sb_bytes sb) < vr_SL vr" "sb_lba sb = s * vr_M vr * vr_chunksize vr"
    using zb by (simp_all add: zone_buffer_def)
  have SL: "0 < vr_SL vr" "vr_SL vr < 2 ^ 62" "4096 dvd vr_SL vr" using rs(5,6,14) stripe_lbas(2) by simp_all
  have u: "u64 (vr_C vr * vr_M vr) = vr_SL vr" using SL(2) by (simp add: wrapu_id mult.commute)
  show ?thesis
  proof (cases "\<not> sb_is_empty sb \<or> length buf < vr_SL vr")
    case False
    then have "sb_bytes sb = []" using sb_is_empty_eq[OF z(1)] by simp
    then show ?thesis using False zb z u rs(2,4)
      by (intro exI[of _ sb] exI[of _ buf] exI[of _ "sb_lba sb"] exI[of _ 0] exI[of _ "[]"])
        (simp add: write_head_def stream_def)
  next
    case T: True
    define get where "get = min (vr_SL vr - length (sb_bytes sb)) (length buf)"
    obtain sb1 where f: "sb_fill sb buf = Some (sb1, drop get buf)" "sb_ok sb1" "sb_lba sb1 = sb_lba sb"
        "sb_stripesize sb1 = vr_SL vr" "sb_bytes sb1 = sb_bytes sb @ lba_pad (take get buf)"
      using sb_fill_spec[OF z(1), of buf] unfolding z(2) get_def[symmetric] by auto
    have le: "length (sb_bytes sb1) \<le> vr_SL vr" using f(2,4) by (simp add: sb_ok_def)
    have split: "lba_pad buf = lba_pad (take get buf) @ lba_pad (drop get buf)"
    proof (cases "get = length buf")
      case False
      then have "length (take get buf) = vr_SL vr - length (sb_bytes sb)" by (simp add: get_def)
      then have "4096 dvd length (take get buf)" using SL(3) z(1) by (simp add: sb_ok_def)
      then show ?thesis using lba_pad_append[of "take get buf" "drop get buf"] lba_pad_id[of "take get buf"] by simp
    qed simp
    then have st: "stream = sb_bytes sb1 @ lba_pad (drop get buf)" by (simp add: stream_def f(5))
    show ?thesis
    proof (cases "sb_is_full sb1")
      case True
      then have full: "length (sb_bytes sb1) = vr_SL vr" using sb_is_full_eq[OF f(2)] f(4) by simp
      have h: "1 \<le> length stream div vr_SL vr" using st full SL(1) by (simp add: Suc_le_eq div_greater_zero_iff)
      have r1: "raid_in_range vr (Suc s * vr_M vr)" by (rule raid_in_range_mono[OF ok r], rule mult_le_mono1) (use h in simp)
      obtain sb' ops where p: "sb_pop sb1 = (sb_buf sb1, sb')" "writev_at_one ec junk vr (sb_buf sb1) (sb_lba sb1) = Some ops"
          "zone_buffer vr (Suc s) sb'" "sb_bytes sb' = []" "writes ops = chunk_writes vr (stripe_items ec vr s (sb_bytes sb1))"
        using pop_stripe[OF ok bw junk r1 f(2,4) full] f(3) z(4) by auto
      have lba': "u64 (sb_lba sb + length (sb_bytes sb) div 4096 + (length buf - length (drop get buf)) div 4096)
          = (s + 1) * vr_M vr * vr_chunksize vr" if "drop get buf \<noteq> []"
      proof -
        have g: "get = vr_SL vr - length (sb_bytes sb)" "length buf - length (drop get buf) = get" using that by (auto simp: get_def)
        have "4096 dvd length (sb_bytes sb)" "4096 dvd get" using z(1) SL(3) g(1) by (simp_all add: sb_ok_def)
        then have "length (sb_bytes sb) div 4096 + get div 4096 = (length (sb_bytes sb) + get) div 4096" by (simp add: div_plus_div_distrib_dvd_left)
        also have "length (sb_bytes sb) + get = vr_SL vr" using g(1) z(3) by simp
        finally have "sb_lba sb + length (sb_bytes sb) div 4096 + get div 4096 = (s + 1) * vr_M vr * vr_chunksize vr"
          unfolding add.assoc z(4) stripe_lbas(1)[OF ok] by (simp add: distrib_right)
        then show ?thesis unfolding g(2) using stripe_lba_bound[OF ok r1, THEN less_2p_64] by (simp add: wrapu_id)
      qed
      have t1: "take (1 * vr_SL vr) stream = sb_bytes sb1" unfolding st using full by simp
      have "write_head ec junk vr sb buf (sb_lba sb + length (sb_bytes sb) div 4096) = Some (sb', drop get buf,
          u64 (sb_lba sb + length (sb_bytes sb) div 4096 + (length buf - length (drop get buf)) div 4096), ops)"
        using T f(1) True p(1,2) unfolding write_head_def rs(2,4) u by (simp add: BYTES_PER_LBA_def)
      moreover have "sb_ok sb'" "sb_stripesize sb' = vr_SL vr" using p(3) by (simp_all add: zone_buffer_def)
      moreover have "writes ops = chunk_writes vr (stripes_items ec vr s 1 (take (1 * vr_SL vr) stream))"
        unfolding t1 stripes_items_1[OF full] by (rule p(5))
      moreover have "stream = take (1 * vr_SL vr) stream @ sb_bytes sb' @ lba_pad (drop get buf)" unfolding t1 p(4) using st by simp
      ultimately show ?thesis using h lba' p(3,4)
        by (intro exI[of _ sb'] exI[of _ "drop get buf"]
          exI[of _ "u64 (sb_lba sb + length (sb_bytes sb) div 4096 + (length buf - length (drop get buf)) div 4096)"] exI[of _ 1] exI[of _ ops]) simp
    next
      case nf: False
      then have lt: "length (sb_bytes sb1) < vr_SL vr" using sb_is_full_eq[OF f(2)] f(4) le by simp
      have g: "get = length buf"
      proof (rule ccontr)
        assume "get \<noteq> length buf"
        then have "length (take get buf) = vr_SL vr - length (sb_bytes sb)" by (simp add: get_def)
        moreover have "length (take get buf) \<le> length (lba_pad (take get buf))" by (simp add: lba_pad_def)
        ultimately show False using lt f(5) by simp
      qed
      have zb1: "zone_buffer vr s sb1" using f lt z(4) by (simp add: zone_buffer_def)
      have "write_head ec junk vr sb buf (sb_lba sb + length (sb_bytes sb) div 4096) = Some (sb1, [], sb_lba sb + length (sb_bytes sb) div 4096, [])"
        using T f(1) nf g unfolding write_head_def rs(2,4) u by simp
      then show ?thesis using zb1 st g f(2,4)
        by (intro exI[of _ sb1] exI[of _ "[]"] exI[of _ "sb_lba sb + length (sb_bytes sb) div 4096"] exI[of _ 0] exI[of _ "[]"]) simp
    qed
  qed
qed

lemma write_at_stream:
  fixes buf :: IoVec
  assumes ok: "raid_ok vr" and bw: "ec_bytewise ec" and junk: "\<And>n. length (junk n) = n"
    and sb: "bt_get (vr_stripe_buffers vr) zone = Some sb" and zb: "zone_buffer vr s sb"
  defines "stream \<equiv> sb_bytes sb @ lba_pad buf"
  defines "T \<equiv> length stream div vr_SL vr"
  assumes r: "raid_in_range vr ((s + T) * vr_M vr)"
  shows "\<exists>sb' ops. vr_write_at ec junk vr buf zone (sb_lba sb + length (sb_bytes sb) div 4096)
      = Some (vr\<lparr>vr_stripe_buffers := bt_insert zone sb' (vr_stripe_buffers vr)\<rparr>, ops) \<and>
    zone_buffer vr (s + T) sb' \<and> sb_bytes sb' = drop (T * vr_SL vr) stream \<and>
    writes ops = chunk_writes vr (stripes_items ec vr s T (take (T * vr_SL vr) stream))"
proof -
  note rs = raid_ok_simps[OF ok]
  have SL: "0 < vr_SL vr" using rs(5,6) by simp
  have z: "sb_ok sb" "sb_lba sb = s * vr_M vr * vr_chunksize vr" using zb by (simp_all add: zone_buffer_def)
  have rh: "raid_in_range vr ((s + length stream div vr_SL vr) * vr_M vr)" using r by (simp add: T_def)
  have "raid_in_range vr (s * vr_M vr)" by (rule raid_in_range_mono[OF ok r]) simp
  then have nl: "sb_next_lba sb = sb_lba sb + length (sb_bytes sb) div 4096"
    using sb_next_lba_eq[OF z(1)] stripe_lba_bound[OF ok] z(2) by simp
  obtain sb1 buf3 lba' h ops1 where h: "write_head ec junk vr sb buf (sb_lba sb + length (sb_bytes sb) div 4096) = Some (sb1, buf3, lba', ops1)"
      "sb_ok sb1" "sb_stripesize sb1 = vr_SL vr" "h \<le> T" "buf3 = [] \<Longrightarrow> zone_buffer vr (s + h) sb1"
      "buf3 \<noteq> [] \<Longrightarrow> sb_bytes sb1 = []" "buf3 \<noteq> [] \<Longrightarrow> lba' = (s + h) * vr_M vr * vr_chunksize vr"
      "stream = take (h * vr_SL vr) stream @ sb_bytes sb1 @ lba_pad buf3"
      "writes ops1 = chunk_writes vr (stripes_items ec vr s h (take (h * vr_SL vr) stream))"
    using write_head_spec[OF ok bw junk zb rh[unfolded stream_def]] unfolding stream_def[symmetric] T_def[symmetric] by blast
  have "h * vr_SL vr \<le> T * vr_SL vr" using h(4) by (intro mult_le_mono1)
  also have "\<dots> \<le> length stream" by (simp add: T_def)
  finally have lh: "length (take (h * vr_SL vr) stream) = h * vr_SL vr" by simp
  define rest where "rest = sb_bytes sb1 @ lba_pad buf3"
  have st: "stream = take (h * vr_SL vr) stream @ rest" using h(8) by (simp add: rest_def)
  have "length stream = h * vr_SL vr + length rest" using arg_cong[OF st, of length] lh by simp
  then have Th: "length rest div vr_SL vr = T - h" unfolding T_def using SL by simp
  have dr: "drop (T * vr_SL vr) stream = drop ((T - h) * vr_SL vr) rest"
      "take (T * vr_SL vr) stream = take (h * vr_SL vr) stream @ take ((T - h) * vr_SL vr) rest"
    using h(4) lh by (subst st, simp add: diff_mult_distrib)+
  have it: "stripes_items ec vr s T (take (T * vr_SL vr) stream)
      = stripes_items ec vr s h (take (h * vr_SL vr) stream) @ stripes_items ec vr (s + h) (T - h) (take ((T - h) * vr_SL vr) rest)"
    using stripes_items_append[OF lh, of ec s "T - h"] h(4) unfolding dr(2) by simp
  show ?thesis
  proof (cases "buf3 = []")
    case True
    then have "length rest < vr_SL vr" "zone_buffer vr (s + h) sb1" "rest = sb_bytes sb1" using h(5) by (simp_all add: rest_def zone_buffer_def)
    then have Teq: "T = h" using Th h(4) by simp
    have "vr_write_at ec junk vr buf zone (sb_lba sb + length (sb_bytes sb) div 4096)
        = Some (vr\<lparr>vr_stripe_buffers := bt_insert zone sb1 (vr_stripe_buffers vr)\<rparr>, ops1)"
      using h(1) True sb nl by (simp add: vr_write_at_def write_tail_def)
    moreover have "sb_bytes sb1 = drop (T * vr_SL vr) stream" using dr(1) Teq \<open>rest = sb_bytes sb1\<close> by simp
    ultimately show ?thesis using h(9) \<open>zone_buffer vr (s + h) sb1\<close> unfolding Teq by blast
  next
    case False
    then have rest: "rest = lba_pad buf3" "lba' = (s + h) * vr_M vr * vr_chunksize vr" "sb_bytes sb1 = []" using h(6,7) by (simp_all add: rest_def)
    have "raid_in_range vr ((s + h + length (lba_pad buf3) div vr_SL vr) * vr_M vr)" using r Th rest(1) h(4) by simp
    from write_tail_spec[OF ok bw junk h(2,3) rest(3) _ this] False
    obtain sb' ops where t: "write_tail ec junk vr sb1 buf3 lba' = Some (sb', ops)" "zone_buffer vr (s + h + (T - h)) sb'"
        "sb_bytes sb' = drop ((T - h) * vr_SL vr) rest"
        "writes ops = chunk_writes vr (stripes_items ec vr (s + h) (T - h) (take ((T - h) * vr_SL vr) rest))"
      unfolding rest(1,2) Th[unfolded rest(1)] by auto
    have "vr_write_at ec junk vr buf zone (sb_lba sb + length (sb_bytes sb) div 4096)
        = Some (vr\<lparr>vr_stripe_buffers := bt_insert zone sb' (vr_stripe_buffers vr)\<rparr>, ops1 @ ops)"
      using h(1) t(1) sb nl by (simp add: vr_write_at_def)
    moreover have "zone_buffer vr (s + T) sb'" using t(2) h(4) by simp
    moreover have "writes (ops1 @ ops) = chunk_writes vr (stripes_items ec vr s T (take (T * vr_SL vr) stream))"
      unfolding it writes_simps chunk_writes_simps h(9) t(4) ..
    ultimately show ?thesis using t(3) unfolding dr(1) by blast
  qed
qed

section \<open>\<open>flush_zone\<close> and \<open>finish_zone\<close>\<close>

lemma pad_and_pop:
  assumes ok: "raid_ok vr" and bw: "ec_bytewise ec" and junk: "\<And>n. length (junk n) = n"
    and zb: "zone_buffer vr s sb" and r: "raid_in_range vr (Suc s * vr_M vr)"
  defines "padlen \<equiv> vr_SL vr - length (sb_bytes sb)"
  shows "\<exists>sb1 sb' ops. sb_pad sb = Some (padlen div 4096, sb1) \<and> sb_pop sb1 = (sb_buf sb1, sb') \<and>
    writev_at_one ec junk vr (sb_buf sb1) (sb_lba sb1) = Some ops \<and> zone_buffer vr (Suc s) sb' \<and> sb_bytes sb' = [] \<and>
    writes ops = chunk_writes vr (stripe_items ec vr s (sb_bytes sb @ replicate padlen 0))"
proof -
  have z: "sb_ok sb" "sb_stripesize sb = vr_SL vr" "length (sb_bytes sb) < vr_SL vr" "sb_lba sb = s * vr_M vr * vr_chunksize vr"
    using zb by (simp_all add: zone_buffer_def)
  obtain sb1 where p: "sb_pad sb = Some (padlen div 4096, sb1)" "sb_ok sb1" "sb_lba sb1 = sb_lba sb" "sb_stripesize sb1 = sb_stripesize sb"
      "sb_bytes sb1 = sb_bytes sb @ replicate padlen 0"
    using sb_pad_spec[OF z(1)] z(2,3) unfolding padlen_def by auto
  have l: "length (sb_bytes sb1) = vr_SL vr" using z(3) by (simp add: p(5) padlen_def)
  obtain sb' ops where "sb_pop sb1 = (sb_buf sb1, sb')" "writev_at_one ec junk vr (sb_buf sb1) (sb_lba sb1) = Some ops"
      "zone_buffer vr (Suc s) sb'" "sb_bytes sb' = []" "writes ops = chunk_writes vr (stripe_items ec vr s (sb_bytes sb1))"
    using pop_stripe[OF ok bw junk r p(2) _ l] p(3,4) z(2,4) by auto
  then show ?thesis using p(1,5) by metis
qed

lemma flush_zone_stream:
  assumes ok: "raid_ok vr" and bw: "ec_bytewise ec" and junk: "\<And>n. length (junk n) = n"
    and sb: "bt_get (vr_stripe_buffers vr) zone = Some sb" and zb: "zone_buffer vr s sb"
    and r: "raid_in_range vr (Suc s * vr_M vr)"
  defines "padlen \<equiv> (if sb_bytes sb = [] then 0 else vr_SL vr - length (sb_bytes sb))"
    and "T \<equiv> (if sb_bytes sb = [] then 0 else 1 :: nat)"
  shows "\<exists>bufs' sb' ops. vr_flush_zone ec junk vr zone = Some (padlen div 4096, vr\<lparr>vr_stripe_buffers := bufs'\<rparr>, ops) \<and>
    bt_get bufs' zone = Some sb' \<and> (\<forall>z. z \<noteq> zone \<longrightarrow> bt_get bufs' z = bt_get (vr_stripe_buffers vr) z) \<and>
    zone_buffer vr (s + T) sb' \<and> sb_bytes sb' = [] \<and>
    writes ops = chunk_writes vr (stripes_items ec vr s T (sb_bytes sb @ replicate padlen 0))"
proof (cases "sb_bytes sb = []")
  case True
  have "sb_is_empty sb" using sb_is_empty_eq True zb by (simp add: zone_buffer_def)
  then show ?thesis using sb zb True by (intro exI[of _ "vr_stripe_buffers vr"] exI[of _ sb] exI[of _ "[]"])
      (simp add: vr_flush_zone_def padlen_def T_def)
next
  case False
  have ne: "\<not> sb_is_empty sb" using sb_is_empty_eq False zb by (simp add: zone_buffer_def)
  obtain sb1 sb' ops where p: "sb_pad sb = Some (padlen div 4096, sb1)" "sb_pop sb1 = (sb_buf sb1, sb')"
      "writev_at_one ec junk vr (sb_buf sb1) (sb_lba sb1) = Some ops" "zone_buffer vr (Suc s) sb'" "sb_bytes sb' = []"
      "writes ops = chunk_writes vr (stripe_items ec vr s (sb_bytes sb @ replicate padlen 0))"
    using pad_and_pop[OF ok bw junk zb r] False by (auto simp: padlen_def)
  have T: "T = 1" using False by (simp add: T_def)
  have "length (sb_bytes sb) < vr_SL vr" using zb by (simp add: zone_buffer_def)
  then have "length (sb_bytes sb @ replicate padlen 0) = vr_SL vr" using False by (simp add: padlen_def)
  from stripes_items_1[OF this] p(6)
  have "writes ops = chunk_writes vr (stripes_items ec vr s T (sb_bytes sb @ replicate padlen 0))" unfolding T by simp
  then show ?thesis using p sb ne T
    by (intro exI[of _ "bt_insert zone sb' (vr_stripe_buffers vr)"] exI[of _ sb'] exI[of _ ops])
      (simp add: vr_flush_zone_def bt_get_insert)
qed

end
