(* ===== verification/Raid_Read.thy ===== *)
theory Raid_Read
  imports Raid_Stream
begin

text \<open>
  Reading. The effect of the read requests is the set of the bytes they put into the caller's buffer, as
  pairs of a buffer position and a byte. \<open>read_at_one\<close>, within one stripe, and \<open>read_at_multi\<close>, with as few
  requests per disk as the parity chunks in between allow, both fill the buffer with the bytes that the
  layout stores at the given addresses.
\<close>

section \<open>The bytes of the array\<close>

definition raid_byte :: "VdevRaid \<Rightarrow> disks \<Rightarrow> nat \<Rightarrow> byte" where
  "raid_byte vr D a = D (chunk_disk vr (Data (a div vr_C vr))) (chunk_off vr (Data (a div vr_C vr)) * vr_C vr + a mod vr_C vr)"

fun seg_reads :: "disks \<Rightarrow> nat \<Rightarrow> nat \<Rightarrow> MutBuf list \<Rightarrow> (nat \<times> byte) set" where
  "seg_reads D d pos [] = {}"
| "seg_reads D d pos ((p, l) # segs) = (\<lambda>i. (p + i, D d (pos + i))) ` {..<l} \<union> seg_reads D d (pos + l) segs"

fun op_reads :: "disks \<Rightarrow> DiskOp \<Rightarrow> (nat \<times> byte) set" where
  "op_reads D (DReadAt d b lba) = seg_reads D d (lba * 4096) [b]"
| "op_reads D (DReadvAt d bs lba) = seg_reads D d (lba * 4096) bs"
| "op_reads D _ = {}"

definition reads :: "disks \<Rightarrow> DiskOp list \<Rightarrow> (nat \<times> byte) set" where
  "reads D ops = (\<Union>op \<in> set ops. op_reads D op)"

lemma reads_simps [simp]:
  "reads D [] = {}" "reads D (op # ops) = op_reads D op \<union> reads D ops" "reads D (xs @ ys) = reads D xs \<union> reads D ys"
  by (auto simp: reads_def)

definition seg_len :: "MutBuf list \<Rightarrow> nat" where
  "seg_len segs = sum_list (map snd segs)"

lemma seg_len_Nil [simp]: "seg_len [] = 0"
  by (simp add: seg_len_def)

lemma seg_reads_append:
  "seg_reads D d pos (xs @ ys) = seg_reads D d pos xs \<union> seg_reads D d (pos + seg_len xs) ys"
proof (induction xs arbitrary: pos)
  case (Cons x xs)
  obtain p l where "x = (p, l)" by (cases x)
  then show ?case using Cons by (simp add: seg_len_def add.assoc Un_assoc)
qed (simp add: seg_len_def)

definition range_bytes :: "VdevRaid \<Rightarrow> disks \<Rightarrow> nat \<Rightarrow> nat \<Rightarrow> nat \<Rightarrow> (nat \<times> byte) set" where
  "range_bytes vr D p a l = (\<lambda>i. (p + i, raid_byte vr D (a + i))) ` {..<l}"

lemma range_bytes_0 [simp]: "range_bytes vr D p a 0 = {}"
  by (simp add: range_bytes_def)

lemma range_bytes_split:
  "range_bytes vr D p a (l + l') = range_bytes vr D p a l \<union> range_bytes vr D (p + l) (a + l) l'"
proof -
  have "{..<l + l'} = {..<l} \<union> (\<lambda>i. l + i) ` {..<l'}"
  proof (rule set_eqI)
    fix i show "i \<in> {..<l + l'} \<longleftrightarrow> i \<in> {..<l} \<union> (\<lambda>i. l + i) ` {..<l'}"
      by (cases "i < l") (auto intro!: image_eqI[of _ _ "i - l"])
  qed
  then show ?thesis by (simp add: range_bytes_def image_Un image_image add.assoc)
qed

text \<open>A piece of one chunk.\<close>

lemma chunk_piece:
  assumes "0 < vr_C vr" "x + l \<le> vr_C vr"
  shows "seg_reads D (chunk_disk vr (Data c)) (chunk_off vr (Data c) * vr_C vr + x) [(p, l)] = range_bytes vr D p (c * vr_C vr + x) l"
proof -
  have "raid_byte vr D (c * vr_C vr + x + i) = D (chunk_disk vr (Data c)) (chunk_off vr (Data c) * vr_C vr + x + i)" if "i < l" for i
  proof -
    have "x + i < vr_C vr" using that assms(2) by simp
    then have "(c * vr_C vr + (x + i)) div vr_C vr = c" "(c * vr_C vr + (x + i)) mod vr_C vr = x + i" using assms(1) by simp_all
    then show ?thesis by (simp add: raid_byte_def add.assoc)
  qed
  then show ?thesis by (auto simp: range_bytes_def)
qed

section \<open>Reading within one stripe\<close>

lemma mut_chunks_len: "0 < n \<Longrightarrow> length (mut_chunks n (p, l)) = (l + n - 1) div n"
proof (induction n "(p, l)" arbitrary: p l rule: mut_chunks.induct)
  case (1 n p l)
  show ?case
  proof (cases "l = 0")
    case False
    have "(l + n - 1) div n = Suc ((l - n + n - 1) div n)"
    proof (cases "n \<le> l")
      case True
      have "l + n - 1 = (l - n + n - 1) + n" using True 1(2) by simp
      then show ?thesis using 1(2) by (metis div_add_self2 Suc_eq_plus1 less_irrefl)
    next
      case F: False
      have "(l + n - 1) div n = 1" using F False by (intro div_nat_eqI) auto
      then show ?thesis using F 1(2) by simp
    qed
    then show ?thesis using 1 False by (subst mut_chunks.simps) simp
  qed (use 1 in \<open>simp add: mut_chunks.simps\<close>)
qed

lemma place_reads:
  assumes C: "0 < vr_C vr"
  shows "reads D (place_cols DReadAt vr 0 (map Data [c..<c + (l + vr_C vr - 1) div vr_C vr]) (mut_chunks (vr_C vr) (p, l)))
    = range_bytes vr D p (c * vr_C vr) l"
  using C
proof (induction "vr_C vr" "(p, l)" arbitrary: c p l rule: mut_chunks.induct)
  case (1 p l)
  let ?C = "vr_C vr"
  show ?case
  proof (cases "l = 0")
    case False
    define n where "n = length (mut_chunks ?C (p + ?C, l - ?C))"
    have e: "(l - ?C + ?C - 1) div ?C = n" using mut_chunks_len[OF C, of "p + ?C" "l - ?C"] by (simp add: n_def)
    have m: "mut_chunks ?C (p, l) = (p, min ?C l) # mut_chunks ?C (p + ?C, l - ?C)" using False C by (subst mut_chunks.simps) simp
    have "(l + ?C - 1) div ?C = Suc n" using mut_chunks_len[OF C, of p l] unfolding m n_def by simp
    then have u: "[c..<c + (l + ?C - 1) div ?C] = c # [Suc c..<Suc c + n]" by (simp add: upt_conv_Cons)
    have IH: "reads D (place_cols DReadAt vr 0 (map Data [Suc c..<Suc c + n]) (mut_chunks ?C (p + ?C, l - ?C)))
        = range_bytes vr D (p + ?C) (Suc c * ?C) (l - ?C)"
      using 1(1)[of "Suc c"] False C unfolding e by simp
    have h: "op_reads D (DReadAt (chunk_disk vr (Data c)) (p, min ?C l) (chunk_off vr (Data c) * vr_chunksize vr + 0))
        = range_bytes vr D p (c * ?C) (min ?C l)"
      using chunk_piece[OF C, of 0 "min ?C l" D c p] by (simp add: vr_C_def mult.assoc)
    have "range_bytes vr D p (c * ?C) (min ?C l) \<union> range_bytes vr D (p + ?C) (Suc c * ?C) (l - ?C) = range_bytes vr D p (c * ?C) l"
    proof (cases "?C \<le> l")
      case True
      then show ?thesis using range_bytes_split[of vr D p "c * ?C" ?C "l - ?C"] by (simp add: add.commute)
    qed simp
    then show ?thesis unfolding u m list.map place_cols.simps reads_simps h IH .
  qed (use C in \<open>simp add: mut_chunks.simps\<close>)
qed

text \<open>The columns of a buffer that begins \<open>x\<close> bytes into a chunk.\<close>

definition read_cols :: "VdevRaid \<Rightarrow> nat \<Rightarrow> MutBuf \<Rightarrow> MutBuf list" where
  "read_cols vr x b = (fst b, min (vr_C vr - x) (snd b)) # mut_chunks (vr_C vr) (fst b + min (vr_C vr - x) (snd b), snd b - min (vr_C vr - x) (snd b))"

lemma read_cols_0: "0 < vr_C vr \<Longrightarrow> 0 < l \<Longrightarrow> mut_chunks (vr_C vr) (p, l) = read_cols vr 0 (p, l)"
  by (cases "vr_C vr \<le> l") (simp_all add: read_cols_def mut_chunks.simps[of _ p l] mut_chunks.simps[of _ _ 0] min_def)

lemma ceil_le: "0 < n \<Longrightarrow> l \<le> k * n \<Longrightarrow> (l + n - 1) div n \<le> (k :: nat)"
proof -
  assume n: "0 < n" and l: "l \<le> k * n"
  have "l + n - 1 < Suc k * n" using n l by simp
  then have "(l + n - 1) div n < Suc k" using n by (simp add: div_less_iff_less_mult del: mult_Suc)
  then show ?thesis by simp
qed

lemma lba_chunk:
  assumes ok: "raid_ok vr"
  shows "lba * 4096 = lba div vr_chunksize vr * vr_C vr + lba mod vr_chunksize vr * 4096"
    "lba mod vr_chunksize vr * 4096 < vr_C vr"
proof -
  have "lba * 4096 = (lba div vr_chunksize vr * vr_chunksize vr + lba mod vr_chunksize vr) * 4096" by simp
  then show "lba * 4096 = lba div vr_chunksize vr * vr_C vr + lba mod vr_chunksize vr * 4096"
    unfolding vr_C_def distrib_right by (simp only: mult.assoc)
  show "lba mod vr_chunksize vr * 4096 < vr_C vr" unfolding vr_C_def using raid_ok_simps(12)[OF ok] by simp
qed

lemma read_at_one_spec:
  assumes ok: "raid_ok vr" and l: "0 < l" and a: "s * vr_SL vr \<le> lba * 4096" "lba * 4096 + l \<le> Suc s * vr_SL vr"
    and r: "raid_in_range vr (Suc s * vr_M vr)"
  shows "\<exists>ops. read_at_one vr (p, l) lba = Some ops \<and> reads D ops = range_bytes vr D p (lba * 4096) l"
proof -
  note rs = raid_ok_simps[OF ok]
  let ?C = "vr_C vr" and ?M = "vr_M vr" and ?cs = "vr_chunksize vr"
  define c where "c = lba div ?cs"
  define x where "x = lba mod ?cs"
  note lc = lba_chunk[OF ok, of lba, folded c_def x_def]
  define l0 where "l0 = min (?C - x * 4096) l"
  define n where "n = (l - l0 + ?C - 1) div ?C"
  have cols: "read_cols vr (x * 4096) (p, l) = (p, l0) # mut_chunks ?C (p + l0, l - l0)" by (simp add: read_cols_def l0_def)
  have len: "length (read_cols vr (x * 4096) (p, l)) = Suc n" using mut_chunks_len[OF rs(5)] by (simp add: cols n_def)
  have "s * ?M * ?C < Suc c * ?C" using a(1) lc by (simp add: mult.assoc)
  then have "s * ?M < Suc c" using mult_less_cancel2 by blast
  then have sc: "s * ?M \<le> c" by simp
  have "c * ?C < Suc s * ?M * ?C" using a(2) l lc(1) unfolding mult.assoc by linarith
  then have "c < Suc s * ?M" using mult_less_cancel2 by blast
  moreover have "Suc c + n \<le> Suc s * ?M" if "0 < l - l0"
  proof -
    have "Suc c * ?C + (l - l0) = lba * 4096 + l" using that lc by (simp add: l0_def)
    also have "\<dots> \<le> Suc s * ?M * ?C" using a(2) unfolding mult.assoc .
    finally have "l - l0 \<le> (Suc s * ?M - Suc c) * ?C" unfolding diff_mult_distrib by linarith
    from ceil_le[OF rs(5) this] have "n \<le> Suc s * ?M - Suc c" by (simp add: n_def)
    then show ?thesis using \<open>c < Suc s * ?M\<close> by linarith
  qed
  moreover have "n = 0" if "l - l0 = 0" using that rs(5) by (simp add: n_def)
  ultimately have cn: "c + Suc n \<le> s * ?M + ?M" by (cases "l - l0 = 0") auto
  have ci: "chunk_in_range (vr_locator vr) (s * ?M + ?M)" using raid_in_range_chunk(1)[OF ok r] by (simp add: add.commute)
  define i where "i = c - s * ?M"
  have ci': "c = s * ?M + i" "i + Suc n \<le> ?M" using sc cn by (simp_all add: i_def)
  have st: "chunk_steps (vr_locator vr) (Parity c 0) (Data c) (map Data [c..<c + Suc n])"
    using data_steps[OF rs(1) ci, of "Parity c 0" i "Suc n"] ci' by (simp del: upt_Suc)
  have cb: "c < 2 ^ 63" using chunk_in_range_less[OF rs(1) chunk_in_range_mono[OF rs(1) ci, of c]] cn by simp
  have rr: "\<forall>y \<in> set (map Data [c..<c + Suc n]). raid_in_range vr (chunk_address y)"
    using raid_in_range_mono[OF ok r] cn by auto
  have iss: "issue_1stripe_ops DReadAt vr (read_cols vr (x * 4096) (p, l)) lba False
      = Some (place_cols DReadAt vr x (map Data [c..<c + Suc n]) (read_cols vr (x * 4096) (p, l)))"
    using issue_ops_data[OF ok c_def[symmetric] cb st _ rr, of "read_cols vr (x * 4096) (p, l)" DReadAt] len
    unfolding x_def[symmetric] by (simp del: upt_Suc)
  have cs0: "vr_chunksize vr \<noteq> 0" using rs(12) by simp
  have one: "read_at_one vr (p, l) lba = issue_1stripe_ops DReadAt vr (read_cols vr (x * 4096) (p, l)) lba False"
  proof (cases "x = 0")
    case True
    then show ?thesis using read_cols_0[OF rs(5) l, of p] cs0 by (simp add: read_at_one_def Let_def rs(4) x_def)
  next
    case False
    have "(?cs - x) * 4096 = ?C - x * 4096" by (simp add: vr_C_def diff_mult_distrib)
    moreover have "u64 (?C - x * 4096) = ?C - x * 4096" using rs(13) by (intro wrapu_id) simp
    ultimately have "u64 ((?cs - x) * BYTES_PER_LBA) = ?C - x * 4096" by (simp add: BYTES_PER_LBA_def)
    then show ?thesis using False cs0 unfolding read_at_one_def Let_def x_def[symmetric] rs(4)
      by (simp add: mut_split_to_def read_cols_def x_def[symmetric])
  qed
  have u: "[c..<c + Suc n] = c # [Suc c..<Suc c + n]" by (simp add: upt_conv_Cons del: upt_Suc)
  have pos: "(chunk_off vr (Data c) * ?cs + x) * 4096 = chunk_off vr (Data c) * ?C + x * 4096" by (simp add: vr_C_def distrib_right)
  have h: "op_reads D (DReadAt (chunk_disk vr (Data c)) (p, l0) (chunk_off vr (Data c) * ?cs + x)) = range_bytes vr D p (lba * 4096) l0"
    unfolding op_reads.simps pos lc(1) using chunk_piece[OF rs(5), of "x * 4096" l0 D c p] lc(2) by (simp add: l0_def)
  have t: "reads D (place_cols DReadAt vr 0 (map Data [Suc c..<Suc c + n]) (mut_chunks ?C (p + l0, l - l0)))
      = range_bytes vr D (p + l0) (Suc c * ?C) (l - l0)"
    unfolding n_def by (rule place_reads[OF rs(5)])
  have "range_bytes vr D p (lba * 4096) l0 \<union> range_bytes vr D (p + l0) (Suc c * ?C) (l - l0) = range_bytes vr D p (lba * 4096) l"
  proof (cases "l - l0 = 0")
    case True
    then show ?thesis by (simp add: l0_def)
  next
    case False
    then have "Suc c * ?C = lba * 4096 + l0" "l0 + (l - l0) = l" using lc by (simp_all add: l0_def)
    then show ?thesis using range_bytes_split[of vr D p "lba * 4096" l0 "l - l0"] by (simp only:)
  qed
  then have "reads D (place_cols DReadAt vr x (map Data [c..<c + Suc n]) (read_cols vr (x * 4096) (p, l))) = range_bytes vr D p (lba * 4096) l"
    unfolding u cols list.map place_cols.simps reads_simps h t .
  then show ?thesis using one iss by simp
qed

end
