(* ===== verification/Raid_Read_Multi.thy ===== *)
theory Raid_Read_Multi
  imports Raid_Read
begin

text \<open>
  \<open>read_at_multi\<close>: the loop collects the columns of each disk and issues a request early when the next
  column of the disk does not follow its last one. The requests that are still to be issued are
  described by \<open>pending\<close>.
\<close>

section \<open>Pending requests\<close>

definition pend1 :: "disks \<Rightarrow> nat \<Rightarrow> MutBuf list \<Rightarrow> LbaT \<Rightarrow> (nat \<times> byte) set" where
  "pend1 D d sgl start = (if start = u64_max then {} else seg_reads D d (start * 4096) sgl)"

definition pending :: "disks \<Rightarrow> nat \<Rightarrow> MutBuf list list \<Rightarrow> LbaT list \<Rightarrow> (nat \<times> byte) set" where
  "pending D n sgls st = (\<Union>d \<in> {..<n}. pend1 D d (sgls ! d) (st ! d))"

definition last_reads :: "nat \<Rightarrow> MutBuf list list \<Rightarrow> LbaT list \<Rightarrow> DiskOp list" where
  "last_reads n sgls st = map (\<lambda>d. DReadvAt d (sgls ! d) (st ! d)) (filter (\<lambda>d. st ! d \<noteq> u64_max) [0..<n])"

lemma reads_last: "reads D (last_reads n sgls st) = pending D n sgls st"
  by (auto simp: last_reads_def reads_def pending_def pend1_def split: if_splits)

lemma pending_update:
  assumes "d < n" "length sgls = n" "length st = n" "X \<union> pend1 D d sgl start = pend1 D d (sgls ! d) (st ! d) \<union> Y"
  shows "X \<union> pending D n (sgls[d := sgl]) (st[d := start]) = pending D n sgls st \<union> Y"
proof -
  let ?rest = "\<Union>d' \<in> {..<n} - {d}. pend1 D d' (sgls ! d') (st ! d')"
  have nth: "sgls[d := sgl] ! d = sgl" "st[d := start] ! d = start" using assms by simp_all
  have s: "{..<n} = insert d ({..<n} - {d})" using assms(1) by auto
  have "pending D n (sgls[d := sgl]) (st[d := start]) = pend1 D d sgl start \<union> (\<Union>d' \<in> {..<n} - {d}. pend1 D d' (sgls[d := sgl] ! d') (st[d := start] ! d'))"
    unfolding pending_def by (subst s) (simp only: UN_insert nth)
  also have "(\<Union>d' \<in> {..<n} - {d}. pend1 D d' (sgls[d := sgl] ! d') (st[d := start] ! d')) = ?rest"
    by (intro SUP_cong) auto
  finally have a: "pending D n (sgls[d := sgl]) (st[d := start]) = pend1 D d sgl start \<union> ?rest" .
  have b: "pending D n sgls st = pend1 D d (sgls ! d) (st ! d) \<union> ?rest" unfolding pending_def by (subst s) (simp only: UN_insert)
  show ?thesis unfolding a b using assms(4) by blast
qed

text \<open>The columns collected for a disk end at a chunk boundary \<open>e\<close>, before all chunks \<open>cs\<close> still to come.\<close>

definition disk_inv :: "VdevRaid \<Rightarrow> ChunkId list \<Rightarrow> nat \<Rightarrow> MutBuf list \<Rightarrow> LbaT \<Rightarrow> LbaT \<Rightarrow> bool" where
  "disk_inv vr cs d sgl start nxt \<longleftrightarrow>
     (start = u64_max \<longrightarrow> sgl = []) \<and>
     (start \<noteq> u64_max \<longrightarrow> (\<exists>e. start * 4096 + seg_len sgl = e * vr_C vr \<and> e * vr_chunksize vr \<le> nxt \<and>
        nxt < e * vr_chunksize vr + vr_chunksize vr \<and> (\<forall>c \<in> set cs. chunk_disk vr c = d \<longrightarrow> e \<le> chunk_off vr c)))"

lemma data_offset_mono:
  assumes ok: "raid_ok vr" and r: "raid_in_range vr a" "raid_in_range vr b" and ab: "a < b"
    and d: "chunk_disk vr (Data a) = chunk_disk vr (Data b)"
  shows "chunk_off vr (Data a) < chunk_off vr (Data b)"
proof -
  note rs = raid_ok_simps[OF ok]
  have v: "primes_valid_id (vr_locator vr) (Data a)" "primes_valid_id (vr_locator vr) (Data b)"
    using chunk_in_range_less[OF rs(1)] raid_in_range_chunk(1)[OF ok] r by simp_all
  have cd: "cl_disk (primes_id2loc (vr_locator vr) (Data a)) = cl_disk (primes_id2loc (vr_locator vr) (Data b))"
    using chunk_place(3)[OF ok v(1)] chunk_place(3)[OF ok v(2)] r d by (simp add: chunk_disk_def)
  have "primes_stripe_no (vr_locator vr) (Data a) \<le> primes_stripe_no (vr_locator vr) (Data b)"
    using ab by (simp add: primes_stripe_no_def div_le_mono)
  moreover have "primes_stripe_no (vr_locator vr) (Data a) \<noteq> primes_stripe_no (vr_locator vr) (Data b)"
    using primes.stripe_disks[OF rs(1) v] cd ab by auto
  ultimately show ?thesis using primes_offset_mono[OF rs(1) v cd] by (simp add: chunk_off_def)
qed

section \<open>One turn of the loop\<close>

lemma gather_turn:
  fixes vr c y l p sgls st nx
  assumes ok: "raid_ok vr" and n: "length sgls = length (vr_blockdevs vr)" "length st = length (vr_blockdevs vr)"
    and r: "raid_in_range vr c" and y: "y < vr_chunksize vr" "y \<noteq> 0 \<Longrightarrow> st ! chunk_disk vr (Data c) = u64_max"
    and inv: "disk_inv vr [Data c] (chunk_disk vr (Data c)) (sgls ! chunk_disk vr (Data c)) (st ! chunk_disk vr (Data c)) (nx ! chunk_disk vr (Data c))"
  defines "d \<equiv> chunk_disk vr (Data c)" and "lba \<equiv> chunk_off vr (Data c) * vr_chunksize vr + y"
  defines "res \<equiv> (if st ! d = u64_max then ([], sgls ! d, lba)
        else if nx ! d < lba then ([DReadvAt d (sgls ! d) (st ! d)], [], lba) else ([], sgls ! d, st ! d))"
  shows "reads D (fst res) \<union> pending D (length (vr_blockdevs vr)) (sgls[d := fst (snd res) @ [(p, l)]]) (st[d := snd (snd res)])
      = pending D (length (vr_blockdevs vr)) sgls st \<union> seg_reads D d (lba * 4096) [(p, l)]"
    "y * 4096 + l = vr_C vr \<Longrightarrow> (\<And>c'. c' \<in> set cs \<Longrightarrow> \<exists>a. c' = Data a \<and> c < a \<and> raid_in_range vr a) \<Longrightarrow>
      disk_inv vr cs d (fst (snd res) @ [(p, l)]) (snd (snd res)) (lba + vr_chunksize vr)"
    "lba < 2 ^ 63" "d < length (vr_blockdevs vr)"
proof -
  note rs = raid_ok_simps[OF ok]
  have v: "primes_valid_id (vr_locator vr) (Data c)" using chunk_in_range_less[OF rs(1) raid_in_range_chunk(1)[OF ok r]] by simp
  note pl = chunk_place[OF ok v]
  show dn: "d < length (vr_blockdevs vr)" using pl(2) r by (simp add: d_def)
  have "lba < (chunk_off vr (Data c) + 1) * vr_chunksize vr" using y(1) by (simp add: lba_def)
  then show lb: "lba < 2 ^ 63" using pl(5) r by simp
  then have lm: "lba \<noteq> u64_max" by auto
  have lC: "lba * 4096 = chunk_off vr (Data c) * vr_C vr + y * 4096" by (simp add: lba_def vr_C_def distrib_right)
  have follow: "st ! d * 4096 + seg_len (sgls ! d) = lba * 4096" "y = 0" if s: "st ! d \<noteq> u64_max" "\<not> nx ! d < lba"
  proof -
    show y0: "y = 0" using y(2) s by (auto simp: d_def)
    obtain e where e: "st ! d * 4096 + seg_len (sgls ! d) = e * vr_C vr" "nx ! d < e * vr_chunksize vr + vr_chunksize vr" "e \<le> chunk_off vr (Data c)"
      using inv s(1) by (auto simp: disk_inv_def d_def)
    have "chunk_off vr (Data c) * vr_chunksize vr < Suc e * vr_chunksize vr" using s(2) e(2) y0 by (simp add: lba_def)
    then have "chunk_off vr (Data c) < Suc e" using mult_less_cancel2 by blast
    then have "e = chunk_off vr (Data c)" using e(3) by simp
    then show "st ! d * 4096 + seg_len (sgls ! d) = lba * 4096" using e(1) lC y0 by simp
  qed
  have "reads D (fst res) \<union> pend1 D d (fst (snd res) @ [(p, l)]) (snd (snd res)) = pend1 D d (sgls ! d) (st ! d) \<union> seg_reads D d (lba * 4096) [(p, l)]"
    using inv lm follow(1) by (auto simp: res_def pend1_def seg_reads_append disk_inv_def d_def[symmetric])
  then show "reads D (fst res) \<union> pending D (length (vr_blockdevs vr)) (sgls[d := fst (snd res) @ [(p, l)]]) (st[d := snd (snd res)])
      = pending D (length (vr_blockdevs vr)) sgls st \<union> seg_reads D d (lba * 4096) [(p, l)]"
    by (rule pending_update[OF dn n])
  assume full: "y * 4096 + l = vr_C vr" and later: "\<And>c'. c' \<in> set cs \<Longrightarrow> \<exists>a. c' = Data a \<and> c < a \<and> raid_in_range vr a"
  let ?e = "Suc (chunk_off vr (Data c))"
  have "snd (snd res) * 4096 + seg_len (fst (snd res) @ [(p, l)]) = ?e * vr_C vr"
  proof (cases "st ! d \<noteq> u64_max \<and> \<not> nx ! d < lba")
    case True
    then show ?thesis using follow full lC by (simp add: res_def seg_len_def)
  next
    case False
    then have "fst (snd res) = []" "snd (snd res) = lba" using inv by (auto simp: res_def disk_inv_def d_def)
    then show ?thesis using full lC by (simp add: seg_len_def)
  qed
  moreover have "?e * vr_chunksize vr \<le> lba + vr_chunksize vr" "lba + vr_chunksize vr < ?e * vr_chunksize vr + vr_chunksize vr"
    using y(1) by (simp_all add: lba_def)
  moreover have "\<forall>c' \<in> set cs. chunk_disk vr c' = d \<longrightarrow> ?e \<le> chunk_off vr c'"
    using data_offset_mono[OF ok r] later by (fastforce simp: d_def Suc_le_eq)
  moreover have "snd (snd res) \<noteq> u64_max" using lm by (auto simp: res_def)
  ultimately show "disk_inv vr cs d (fst (snd res) @ [(p, l)]) (snd (snd res)) (lba + vr_chunksize vr)"
    unfolding disk_inv_def by blast
qed

section \<open>The loop\<close>

lemma disk_inv_mono: "disk_inv vr cs d sgl start nxt \<Longrightarrow> set cs' \<subseteq> set cs \<Longrightarrow> disk_inv vr cs' d sgl start nxt"
  unfolding disk_inv_def by blast

abbreviation data_items :: "VdevRaid \<Rightarrow> nat \<Rightarrow> nat \<Rightarrow> (ChunkId \<times> Chunkloc) list" where
  "data_items vr c n \<equiv> map (\<lambda>a. (Data a, primes_id2loc (vr_locator vr) (Data a))) [c..<c + n]"

text \<open>One turn of \<open>gather\<close> with the column \<open>(p, l0)\<close>, \<open>y\<close> LBAs into the chunk.\<close>

lemma gather_Cons:
  fixes p l l0 y c nx
  assumes ok: "raid_ok vr" and nd: "length sgls = length (vr_blockdevs vr)" "length st = length (vr_blockdevs vr)" "length nx = length (vr_blockdevs vr)"
    and r: "raid_in_range vr c" and y: "y < vr_chunksize vr"
    and turn: "(y = 0 \<and> \<not> (starting \<and> lba mod vr_chunksize vr \<noteq> 0) \<and> l0 = min l (vr_C vr) \<and> starting' = starting) \<or>
      (starting \<and> y \<noteq> 0 \<and> lba mod vr_chunksize vr = y \<and> l0 = vr_C vr - y * 4096 \<and> l0 \<le> l \<and> \<not> starting')"
  defines "d \<equiv> chunk_disk vr (Data c)" and "dl \<equiv> chunk_off vr (Data c) * vr_chunksize vr + y"
  defines "res \<equiv> (if st ! d = u64_max then ([], sgls ! d, dl)
        else if nx ! d < dl then ([DReadvAt d (sgls ! d) (st ! d)], [], dl) else ([], sgls ! d, st ! d))"
  shows "gather vr lba ((Data c, primes_id2loc (vr_locator vr) (Data c)) # rest) starting (p, l) sgls st nx = do {
      (ops', r) \<leftarrow> gather vr lba rest starting' (p + l0, l - l0) (sgls[d := fst (snd res) @ [(p, l0)]]) (st[d := snd (snd res)])
        (nx[d := dl + vr_chunksize vr]);
      Some (fst res @ ops', r) }"
proof -
  note rs = raid_ok_simps[OF ok]
  have v: "primes_valid_id (vr_locator vr) (Data c)" using chunk_in_range_less[OF rs(1) raid_in_range_chunk(1)[OF ok r]] by simp
  note pl = chunk_place[OF ok v]
  have dn: "d < length (vr_blockdevs vr)" using pl(2) r by (simp add: d_def)
  have "dl < (chunk_off vr (Data c) + 1) * vr_chunksize vr" using y by (simp add: dl_def)
  then have lb: "dl < 2 ^ 63" using pl(5) r by simp
  have "vr_chunksize vr \<le> vr_C vr" by (simp add: vr_C_def)
  then have cs: "vr_chunksize vr < 2 ^ 62" using rs(13) by linarith
  have u: "u64 (dl + vr_chunksize vr) = dl + vr_chunksize vr" using lb cs by (intro wrapu_id) simp
  have off: "cl_offset (primes_id2loc (vr_locator vr) (Data c)) = chunk_off vr (Data c)" by (simp add: chunk_off_def)
  have w: "u64 (chunk_off vr (Data c) * vr_chunksize vr) = chunk_off vr (Data c) * vr_chunksize vr"
    using lb by (intro wrapu_id) (simp add: dl_def)
  have wl: "u64 dl = dl" using lb by (intro wrapu_id) simp
  have dk: "cast_u 64 (cl_disk (primes_id2loc (vr_locator vr) (Data c))) = d" using pl(1) r by (simp add: d_def)
  have "(vr_chunksize vr - y) * 4096 = vr_C vr - y * 4096" by (simp add: vr_C_def diff_mult_distrib)
  moreover have "u64 (vr_C vr - y * 4096) = vr_C vr - y * 4096" using rs(13) by (intro wrapu_id) simp
  ultimately have c0: "u64 ((vr_chunksize vr - y) * BYTES_PER_LBA) = vr_C vr - y * 4096" by (simp add: BYTES_PER_LBA_def)
  have head: "(if starting \<and> lba mod vr_chunksize vr \<noteq> 0 then do {
          let lbas_into_chunk = lba mod vr_chunksize vr;
          let chunk0lbas = vr_chunksize vr - lbas_into_chunk;
          cb \<leftarrow> mut_split_to (u64 (chunk0lbas * BYTES_PER_LBA)) (p, l);
          Some (cb, u64 (u64 (cl_offset (primes_id2loc (vr_locator vr) (Data c)) * vr_chunksize vr) + lbas_into_chunk), False)
        } else do {
          cb \<leftarrow> mut_split_to (min (snd (p, l)) (vr_col_len vr)) (p, l);
          Some (cb, u64 (cl_offset (primes_id2loc (vr_locator vr) (Data c)) * vr_chunksize vr), starting)
        }) = Some (((p, l0), (p + l0, l - l0)), dl, starting')"
    using turn
  proof
    assume "y = 0 \<and> \<not> (starting \<and> lba mod vr_chunksize vr \<noteq> 0) \<and> l0 = min l (vr_C vr) \<and> starting' = starting"
    then show ?thesis unfolding off w rs(4) by (auto simp: mut_split_to_def dl_def)
  next
    assume a: "starting \<and> y \<noteq> 0 \<and> lba mod vr_chunksize vr = y \<and> l0 = vr_C vr - y * 4096 \<and> l0 \<le> l \<and> \<not> starting'"
    then show ?thesis unfolding off w Let_def using wl c0 by (simp add: mut_split_to_def dl_def)
  qed
  show ?thesis
    unfolding gather.simps Let_def head[unfolded Let_def] dk using dn nd u by (simp add: res_def)
qed

lemma gather_spec:
  assumes ok: "raid_ok vr"
  shows "\<lbrakk>n = (l + vr_C vr - 1) div vr_C vr; raid_in_range vr (c + n); length sgls = length (vr_blockdevs vr);
      length st = length (vr_blockdevs vr); length nx = length (vr_blockdevs vr); \<not> (starting \<and> lba mod vr_chunksize vr \<noteq> 0);
      \<forall>d < length (vr_blockdevs vr). disk_inv vr (map Data [c..<c + n]) d (sgls ! d) (st ! d) (nx ! d) \<or> n = 0\<rbrakk>
    \<Longrightarrow> \<exists>ops sgls' st'. gather vr lba (data_items vr c n) starting (p, l) sgls st nx = Some (ops, sgls', st') \<and>
      reads D (ops @ last_reads (length (vr_blockdevs vr)) sgls' st')
        = pending D (length (vr_blockdevs vr)) sgls st \<union> range_bytes vr D p (c * vr_C vr) l"
proof (induction n arbitrary: c p l sgls st nx)
  case 0
  then have "l = 0" using raid_ok_simps(5)[OF ok] by (cases l) (simp_all add: div_eq_0_iff)
  then show ?case by (simp add: reads_last)
next
  case (Suc n)
  note rs = raid_ok_simps[OF ok]
  let ?N = "length (vr_blockdevs vr)" and ?C = "vr_C vr"
  define l0 where "l0 = min l ?C"
  have lpos: "0 < l" using Suc.prems(1) rs(5) by (cases l) simp_all
  have nn: "n = (l - l0 + ?C - 1) div ?C"
  proof (cases "?C \<le> l")
    case True
    then have "l + ?C - 1 = (l - ?C + ?C - 1) + ?C" using rs(5) by simp
    then have "Suc n = Suc ((l - ?C + ?C - 1) div ?C)" using Suc.prems(1) rs(5) by (metis div_add_self2 Suc_eq_plus1 less_irrefl)
    then show ?thesis using True by (simp add: l0_def)
  next
    case False
    have "(l + ?C - 1) div ?C = 1" using False lpos by (intro div_nat_eqI) auto
    then show ?thesis using Suc.prems(1) False rs(5) by (simp add: l0_def)
  qed
  have r: "raid_in_range vr c" by (rule raid_in_range_mono[OF ok Suc.prems(2)]) simp
  define d where "d = chunk_disk vr (Data c)"
  define dl where "dl = chunk_off vr (Data c) * vr_chunksize vr + 0"
  define res where "res = (if st ! d = u64_max then ([], sgls ! d, dl)
        else if nx ! d < dl then ([DReadvAt d (sgls ! d) (st ! d)], [], dl) else ([], sgls ! d, st ! d))"
  have v: "primes_valid_id (vr_locator vr) (Data c)" using chunk_in_range_less[OF rs(1) raid_in_range_chunk(1)[OF ok r]] by simp
  have dn: "d < ?N" using chunk_place(2)[OF ok v] r by (simp add: d_def)
  have u: "[c..<c + Suc n] = c # [Suc c..<Suc c + n]" by (simp add: upt_conv_Cons del: upt_Suc)
  have inv: "\<And>d. d < ?N \<Longrightarrow> disk_inv vr (map Data (c # [Suc c..<Suc c + n])) d (sgls ! d) (st ! d) (nx ! d)"
    using Suc.prems(7) unfolding u by blast
  have inv1: "disk_inv vr [Data c] d (sgls ! d) (st ! d) (nx ! d)" using inv[OF dn] by (rule disk_inv_mono) simp
  have later: "\<And>c'. c' \<in> set (map Data [Suc c..<Suc c + n]) \<Longrightarrow> \<exists>a. c' = Data a \<and> c < a \<and> raid_in_range vr a"
    using raid_in_range_mono[OF ok Suc.prems(2)] by auto
  note turn1 = gather_turn(1)[where y = 0 and p = p and l = l0 and D = D and nx = nx, OF ok Suc.prems(3,4) r rs(12) _ inv1[unfolded d_def], folded d_def]
  note turn2 = gather_turn(2)[where y = 0 and p = p and l = l0 and nx = nx, OF ok Suc.prems(3,4) r rs(12) _ inv1[unfolded d_def] _ later, folded d_def]
  have step: "gather vr lba (data_items vr c (Suc n)) starting (p, l) sgls st nx = do {
      (ops', r) \<leftarrow> gather vr lba (data_items vr (Suc c) n) starting (p + l0, l - l0) (sgls[d := fst (snd res) @ [(p, l0)]]) (st[d := snd (snd res)])
        (nx[d := dl + vr_chunksize vr]);
      Some (fst res @ ops', r) }"
    unfolding u list.map res_def dl_def d_def l0_def
    by (rule gather_Cons[OF ok Suc.prems(3,4,5) r rs(12)]) (use Suc.prems(6) in blast)
  have inv': "\<forall>d' < ?N. disk_inv vr (map Data [Suc c..<Suc c + n]) d' (sgls[d := fst (snd res) @ [(p, l0)]] ! d') (st[d := snd (snd res)] ! d')
      (nx[d := dl + vr_chunksize vr] ! d') \<or> n = 0"
  proof (intro allI impI)
    fix d' assume d': "d' < ?N"
    show "disk_inv vr (map Data [Suc c..<Suc c + n]) d' (sgls[d := fst (snd res) @ [(p, l0)]] ! d') (st[d := snd (snd res)] ! d')
      (nx[d := dl + vr_chunksize vr] ! d') \<or> n = 0"
    proof (cases "n = 0 \<or> d' \<noteq> d")
      case True
      moreover have "disk_inv vr (map Data [Suc c..<Suc c + n]) d' (sgls ! d') (st ! d') (nx ! d')"
        by (rule disk_inv_mono[OF inv[OF d']]) auto
      ultimately show ?thesis by auto
    next
      case False
      then have "\<not> l \<le> ?C" using nn rs(5) by (auto simp: l0_def)
      then have "l0 = ?C" by (simp add: l0_def)
      then show ?thesis using turn2[of "map Data [Suc c..<Suc c + n]"] False d' Suc.prems(3,4,5) unfolding res_def dl_def by (simp del: upt_Suc)
    qed
  qed
  have r': "raid_in_range vr (Suc c + n)" using Suc.prems(2) by simp
  obtain ops sgls' st' where IH: "gather vr lba (data_items vr (Suc c) n) starting (p + l0, l - l0) (sgls[d := fst (snd res) @ [(p, l0)]])
        (st[d := snd (snd res)]) (nx[d := dl + vr_chunksize vr]) = Some (ops, sgls', st')"
      "reads D (ops @ last_reads ?N sgls' st')
        = pending D ?N (sgls[d := fst (snd res) @ [(p, l0)]]) (st[d := snd (snd res)]) \<union> range_bytes vr D (p + l0) (Suc c * ?C) (l - l0)"
  proof -
    have "length (sgls[d := fst (snd res) @ [(p, l0)]]) = ?N" "length (st[d := snd (snd res)]) = ?N" "length (nx[d := dl + vr_chunksize vr]) = ?N"
      using Suc.prems(3,4,5) by simp_all
    from Suc.IH[OF nn r' this Suc.prems(6) inv', of "p + l0"] show ?thesis using that by blast
  qed
  have piece: "seg_reads D d (dl * 4096) [(p, l0)] = range_bytes vr D p (c * ?C) l0"
    using chunk_piece[OF rs(5), of 0 l0 D c p] by (simp add: dl_def d_def vr_C_def mult.assoc l0_def)
  have rng: "range_bytes vr D p (c * ?C) l = range_bytes vr D p (c * ?C) l0 \<union> range_bytes vr D (p + l0) (Suc c * ?C) (l - l0)"
  proof (cases "l \<le> ?C")
    case False
    then have "l0 + (l - l0) = l" "Suc c * ?C = c * ?C + l0" by (simp_all add: l0_def)
    then show ?thesis using range_bytes_split[of vr D p "c * ?C" l0 "l - l0"] by (simp only:)
  qed (simp add: l0_def)
  have "reads D (fst res) \<union> pending D ?N (sgls[d := fst (snd res) @ [(p, l0)]]) (st[d := snd (snd res)])
      = pending D ?N sgls st \<union> range_bytes vr D p (c * ?C) l0"
    using turn1 piece unfolding res_def dl_def by simp
  then have "reads D ((fst res @ ops) @ last_reads ?N sgls' st') = pending D ?N sgls st \<union> range_bytes vr D p (c * ?C) l"
    using IH(2) rng by auto
  then show ?case using IH(1) unfolding step by (simp add: Un_assoc del: upt_Suc)
qed

section \<open>\<open>read_at_multi\<close>\<close>

lemma ceil_scale: "0 < k \<Longrightarrow> (w * 4096 + k * 4096 - 1) div (k * 4096) = (w + k - 1) div (k :: nat)"
proof -
  assume k: "0 < k"
  define q where "q = (w + k - 1) div k"
  have q: "w \<le> q * k" "q * k < w + k" using ceil_div_bounds[OF k, of w] by (simp_all add: q_def)
  have "k * 4096 * q \<le> w * 4096 + k * 4096 - 1" "w * 4096 + k * 4096 - 1 < k * 4096 * Suc q"
    using q k by (simp_all add: mult.commute[of k] mult.assoc mult.left_commute)
  from div_nat_eqI[OF this] show ?thesis by (simp add: q_def)
qed

lemma read_end:
  assumes ok: "raid_ok vr" and a: "c * vr_C vr + l = A * 4096" and d: "4096 dvd l"
  shows "(A + vr_chunksize vr - 1) div vr_chunksize vr = c + (l + vr_C vr - 1) div vr_C vr"
proof -
  note rs = raid_ok_simps[OF ok]
  obtain w where w: "l = w * 4096" using d by (metis dvd_div_mult_self)
  have "(c * vr_chunksize vr + w) * 4096 = A * 4096" using a by (simp add: w vr_C_def distrib_right)
  then have A: "A = c * vr_chunksize vr + w" by simp
  have "A + vr_chunksize vr - 1 = (w + vr_chunksize vr - 1) + c * vr_chunksize vr" using rs(12) by (simp add: A)
  then have "(A + vr_chunksize vr - 1) div vr_chunksize vr = (w + vr_chunksize vr - 1) div vr_chunksize vr + c"
    using rs(12) by (metis div_mult_self1 add.commute less_irrefl)
  then show ?thesis using ceil_scale[OF rs(12), of w] by (simp add: w vr_C_def)
qed

lemma fresh_inv: "d < N \<Longrightarrow> disk_inv vr cs d (replicate N [] ! d) (replicate N u64_max ! d) nxt"
  by (simp add: disk_inv_def)

lemma pending_fresh: "pending D N (replicate N []) (replicate N u64_max) = {}"
  by (simp add: pending_def pend1_def)

lemma read_at_multi_spec:
  assumes ok: "raid_ok vr" and l: "0 < l" "4096 dvd l"
    and first: "vr_C vr - lba mod vr_chunksize vr * 4096 \<le> l \<or> lba mod vr_chunksize vr = 0"
    and r: "raid_in_range vr ((lba + l div 4096 + vr_chunksize vr - 1) div vr_chunksize vr)"
  shows "\<exists>ops. read_at_multi vr (p, l) lba = Some ops \<and> reads D ops = range_bytes vr D p (lba * 4096) l"
proof -
  note rs = raid_ok_simps[OF ok]
  let ?N = "length (vr_blockdevs vr)" and ?C = "vr_C vr" and ?cs = "vr_chunksize vr"
  define A where "A = lba + l div 4096"
  define c where "c = lba div ?cs"
  define x where "x = lba mod ?cs"
  define E where "E = (A + ?cs - 1) div ?cs"
  have rE: "raid_in_range vr E" using r by (simp add: E_def A_def)
  note lc = lba_chunk[OF ok, of lba, folded c_def x_def]
  have A4: "lba * 4096 + l = A * 4096" using l(2) by (simp add: A_def distrib_right)
  have "A \<le> E * ?cs" using ceil_div_bounds(1)[OF rs(12), of A] by (simp add: E_def)
  moreover have "E * ?cs \<le> E * ?C" by (simp add: vr_C_def)
  moreover have Eb: "E * ?C < 2 ^ 63" using raid_in_range_chunk(2)[OF ok rE] .
  moreover have "?cs \<le> ?C" by (simp add: vr_C_def)
  ultimately have Ab1: "A < 2 ^ 63" "?cs < 2 ^ 62" using rs(13) by linarith+
  then have Ab: "A + ?cs < 2 ^ 64" by simp
  have "u64 A = A" using Ab1(1) by (intro wrapu_id) simp
  then have en: "div_roundup 64 (u64 (lba + l div BYTES_PER_LBA)) ?cs = Some E"
    using Ab div_roundup_eq[OF rs(12), of A 64] by (simp add: A_def[symmetric] BYTES_PER_LBA_def E_def)
  have "c * ?cs \<le> lba" by (simp add: c_def)
  also have "lba < A" using l by (auto simp: A_def)
  finally have "c * ?cs < E * ?cs" using \<open>A \<le> E * ?cs\<close> by linarith
  then have cE: "c < E" by simp
  have ci: "(int E div ps_datachunks (vr_locator vr) + 1) * ps_datachunks (vr_locator vr) \<le> 2 ^ 63"
    using raid_in_range_chunk(1)[OF ok rE] primes_ok_bounds(10)[OF rs(1)] by (simp add: chunk_in_range_def distrib_right)
  obtain it where it: "primes_iter_data (vr_locator vr) (Data c) (Data E) = Some it"
      "iter_collect iter_data_next (E - c + 1) it = Some (data_items vr c (E - c))"
    using collect_data_range[OF rs(1) less_imp_le[OF cE] ci] cE by auto
  have multi: "read_at_multi vr (p, l) lba = do {
      (ops, sgls, st) \<leftarrow> gather vr lba (data_items vr c (E - c)) True (p, l) (replicate ?N []) (replicate ?N u64_max) (replicate ?N u64_max);
      Some (ops @ last_reads ?N sgls st) }"
    using it en rs(12) by (simp add: read_at_multi_def Let_def c_def last_reads_def)
  have "\<exists>ops sgls' st'. gather vr lba (data_items vr c (E - c)) True (p, l) (replicate ?N []) (replicate ?N u64_max) (replicate ?N u64_max)
        = Some (ops, sgls', st') \<and> reads D (ops @ last_reads ?N sgls' st') = range_bytes vr D p (lba * 4096) l"
  proof (cases "x = 0")
    case True
    have "c * ?C + l = A * 4096" using lc(1) A4 True by simp
    from read_end[OF ok this l(2)] have n: "E - c = (l + ?C - 1) div ?C" by (simp add: E_def)
    have "raid_in_range vr (c + (E - c))" using rE cE by simp
    from gather_spec[OF ok n this, of "replicate ?N []" "replicate ?N u64_max" "replicate ?N u64_max" True lba p D]
    show ?thesis using True lc(1) fresh_inv by (simp add: pending_fresh x_def)
  next
    case False
    define l0 where "l0 = ?C - x * 4096"
    have l0: "l0 \<le> l" using first False by (simp add: l0_def x_def)
    have sum: "Suc c * ?C + (l - l0) = A * 4096" using lc A4 l0 by (simp add: l0_def)
    have d4: "4096 dvd l - l0" using l(2) by (simp add: l0_def vr_C_def)
    have n: "E - Suc c = (l - l0 + ?C - 1) div ?C" using read_end[OF ok sum d4] by (simp add: E_def)
    have u: "[c..<c + (E - c)] = c # [Suc c..<Suc c + (E - Suc c)]" using cE by (simp add: upt_conv_Cons)
    have rc: "raid_in_range vr c" by (rule raid_in_range_mono[OF ok rE]) (use cE in simp)
    have rn: "raid_in_range vr (Suc c + (E - Suc c))" using rE cE by simp
    define d where "d = chunk_disk vr (Data c)"
    define dl where "dl = chunk_off vr (Data c) * ?cs + x"
    have v: "primes_valid_id (vr_locator vr) (Data c)" using chunk_in_range_less[OF rs(1) raid_in_range_chunk(1)[OF ok rc]] by simp
    have dn: "d < ?N" using chunk_place(2)[OF ok v] rc by (simp add: d_def)
    have xs: "x < ?cs" using rs(12) by (simp add: x_def)
    have inv1: "disk_inv vr [Data c] d (replicate ?N [] ! d) (replicate ?N u64_max ! d) (replicate ?N u64_max ! d)" using dn by (rule fresh_inv)
    have later: "\<And>c'. c' \<in> set (map Data [Suc c..<Suc c + (E - Suc c)]) \<Longrightarrow> \<exists>a. c' = Data a \<and> c < a \<and> raid_in_range vr a"
      using raid_in_range_mono[OF ok rE] cE by auto
    have sm: "replicate ?N u64_max ! chunk_disk vr (Data c) = u64_max" using dn by (simp add: d_def)
    let ?sg = "(replicate ?N [])[d := [(p, l0)]]" and ?st = "(replicate ?N u64_max)[d := dl]" and ?nx = "(replicate ?N u64_max)[d := dl + ?cs]"
    have t1: "pending D ?N ?sg ?st = seg_reads D d (dl * 4096) [(p, l0)]"
      using gather_turn(1)[where y = x and p = p and l = l0 and D = D, OF ok _ _ rc xs _ inv1[unfolded d_def]] sm dn
      by (simp add: pending_fresh d_def dl_def)
    have t2: "disk_inv vr (map Data [Suc c..<Suc c + (E - Suc c)]) d [(p, l0)] dl (dl + ?cs)"
      using gather_turn(2)[where y = x and p = p and l = l0, OF ok length_replicate length_replicate rc xs sm inv1[unfolded d_def] _ later,
          of "map Data [Suc c..<Suc c + (E - Suc c)]"] sm dn lc(2)
      by (simp add: d_def dl_def l0_def del: upt_Suc)
    have ident: "do { (ops', r) \<leftarrow> g; Some (ops', r) } = g" for g :: "('x \<times> 'y) option" by (cases g) auto
    have step: "gather vr lba (data_items vr c (E - c)) True (p, l) (replicate ?N []) (replicate ?N u64_max) (replicate ?N u64_max)
        = gather vr lba (data_items vr (Suc c) (E - Suc c)) False (p + l0, l - l0) ?sg ?st ?nx"
    proof -
      have t: "(x = 0 \<and> \<not> (True \<and> lba mod ?cs \<noteq> 0) \<and> l0 = min l ?C \<and> False = True) \<or>
          (True \<and> x \<noteq> 0 \<and> lba mod ?cs = x \<and> l0 = ?C - x * 4096 \<and> l0 \<le> l \<and> \<not> False)"
        using False l0 by (simp add: x_def l0_def)
      show ?thesis
        unfolding u list.map
        using gather_Cons[where sgls = "replicate ?N []" and st = "replicate ?N u64_max" and nx = "replicate ?N u64_max"
            and p = p and rest = "data_items vr (Suc c) (E - Suc c)", OF ok length_replicate length_replicate length_replicate rc xs t,
            folded d_def dl_def] dn
        by (simp add: ident del: gather.simps upt_Suc)
    qed
    have inv: "\<forall>d' < ?N. disk_inv vr (map Data [Suc c..<Suc c + (E - Suc c)]) d' (?sg ! d') (?st ! d') (?nx ! d') \<or> E - Suc c = 0"
    proof (intro allI impI disjI1)
      fix d' assume "d' < ?N"
      then show "disk_inv vr (map Data [Suc c..<Suc c + (E - Suc c)]) d' (?sg ! d') (?st ! d') (?nx ! d')"
        using t2 dn fresh_inv[of d' ?N] by (cases "d' = d") (simp_all del: upt_Suc)
    qed
    obtain ops sgls' st' where g: "gather vr lba (data_items vr (Suc c) (E - Suc c)) False (p + l0, l - l0) ?sg ?st ?nx = Some (ops, sgls', st')"
        "reads D (ops @ last_reads ?N sgls' st') = pending D ?N ?sg ?st \<union> range_bytes vr D (p + l0) (Suc c * ?C) (l - l0)"
      using gather_spec[OF ok n rn, of ?sg ?st ?nx False lba "p + l0" D] inv by auto
    have "seg_reads D d (dl * 4096) [(p, l0)] = range_bytes vr D p (lba * 4096) l0"
      using chunk_piece[OF rs(5), of "x * 4096" l0 D c p] lc by (simp add: dl_def d_def l0_def vr_C_def distrib_right mult.assoc)
    moreover have "Suc c * ?C = lba * 4096 + l0" using lc by (simp add: l0_def)
    ultimately have "reads D (ops @ last_reads ?N sgls' st') = range_bytes vr D p (lba * 4096) l"
      using g(2) t1 range_bytes_split[of vr D p "lba * 4096" l0 "l - l0"] l0 by simp
    then show ?thesis using step g(1) by simp
  qed
  then show ?thesis using multi by auto
qed

end
