(* ===== verification/Raid_Correct.thy ===== *)
theory Raid_Correct
  imports Raid_Read_Multi
begin

text \<open>
  The RAID vdev as an array of bytes. \<open>raid_content\<close> is the array that a client sees: the bytes of the stripe
  buffers where a zone has data that has not been written yet, and the data chunks on the disks elsewhere.
  A write changes exactly the bytes it should, a read returns them, and every stripe on the disks has the
  parity of its data.
\<close>

section \<open>What writing chunks does to the disks\<close>

definition chunk_bytes :: "VdevRaid \<Rightarrow> disks \<Rightarrow> ChunkId \<Rightarrow> byte list" where
  "chunk_bytes vr D c = map (\<lambda>j. D (chunk_disk vr c) (chunk_off vr c * vr_C vr + j)) [0..<vr_C vr]"

definition items_ok :: "VdevRaid \<Rightarrow> (ChunkId \<times> byte list) list \<Rightarrow> bool" where
  "items_ok vr xs \<longleftrightarrow> distinct (map fst xs) \<and>
     (\<forall>(c, bs) \<in> set xs. primes_valid_id (vr_locator vr) c \<and> raid_in_range vr (chunk_address c) \<and> length bs = vr_C vr)"

lemma chunk_writes_at:
  assumes ok: "raid_ok vr" and it: "items_ok vr xs"
    and c: "primes_valid_id (vr_locator vr) c" "raid_in_range vr (chunk_address c)" and j: "j < vr_C vr"
  shows "(chunk_disk vr c, chunk_off vr c * vr_C vr + j, b) \<in> chunk_writes vr xs \<longleftrightarrow> (\<exists>bs. (c, bs) \<in> set xs \<and> b = bs ! j)"
proof
  assume "(chunk_disk vr c, chunk_off vr c * vr_C vr + j, b) \<in> chunk_writes vr xs"
  then obtain c' bs i where i: "(c', bs) \<in> set xs" "i < length bs" "chunk_disk vr c = chunk_disk vr c'"
      "chunk_off vr c * vr_C vr + j = chunk_off vr c' * vr_C vr + i" "b = bs ! i"
    by (auto simp: chunk_writes_def)
  have v: "primes_valid_id (vr_locator vr) c'" "raid_in_range vr (chunk_address c')" "length bs = vr_C vr" using it i(1) by (auto simp: items_ok_def)
  have "chunk_off vr c = (chunk_off vr c * vr_C vr + j) div vr_C vr" "j = (chunk_off vr c * vr_C vr + j) mod vr_C vr" using j by simp_all
  moreover have "(chunk_off vr c' * vr_C vr + i) div vr_C vr = chunk_off vr c'" "(chunk_off vr c' * vr_C vr + i) mod vr_C vr = i"
    using i(2) v(3) by simp_all
  ultimately have "chunk_off vr c = chunk_off vr c'" "j = i" unfolding i(4) by simp_all
  then have "c = c'" using chunk_place_inj[OF ok c(1) v(1) c(2) v(2)] i(3) by simp
  then show "\<exists>bs. (c, bs) \<in> set xs \<and> b = bs ! j" using i(1,5) \<open>j = i\<close> by blast
next
  assume "\<exists>bs. (c, bs) \<in> set xs \<and> b = bs ! j"
  then show "(chunk_disk vr c, chunk_off vr c * vr_C vr + j, b) \<in> chunk_writes vr xs"
    using it j by (fastforce simp: chunk_writes_def items_ok_def)
qed

lemma exec_chunk_bytes:
  assumes ok: "raid_ok vr" and it: "items_ok vr xs" and w: "writes ops = chunk_writes vr xs"
    and c: "primes_valid_id (vr_locator vr) c" "raid_in_range vr (chunk_address c)"
  shows "chunk_bytes vr (exec_ops ops D) c = (case map_of xs c of Some bs \<Rightarrow> bs | None \<Rightarrow> chunk_bytes vr D c)"
proof (cases "map_of xs c")
  case None
  then have n: "\<And>bs. (c, bs) \<notin> set xs" by (force simp: map_of_eq_None_iff)
  have "exec_ops ops D (chunk_disk vr c) (chunk_off vr c * vr_C vr + j) = D (chunk_disk vr c) (chunk_off vr c * vr_C vr + j)" if "j < vr_C vr" for j
    using chunk_writes_at[OF ok it c that] n by (intro exec_unwritten) (simp add: w)
  then show ?thesis using None by (simp add: chunk_bytes_def)
next
  case (Some bs)
  then have m: "(c, bs) \<in> set xs" by (rule map_of_SomeD)
  have u: "bs' = bs" if "(c, bs') \<in> set xs" for bs' using that it Some by (auto simp: items_ok_def)
  have l: "length bs = vr_C vr" using m it by (auto simp: items_ok_def)
  have "exec_ops ops D (chunk_disk vr c) (chunk_off vr c * vr_C vr + j) = bs ! j" if "j < vr_C vr" for j
  proof (rule exec_written)
    show "(chunk_disk vr c, chunk_off vr c * vr_C vr + j, bs ! j) \<in> writes ops"
      unfolding w chunk_writes_at[OF ok it c that] using m by blast
    fix b' assume "(chunk_disk vr c, chunk_off vr c * vr_C vr + j, b') \<in> writes ops"
    then show "b' = bs ! j" unfolding w chunk_writes_at[OF ok it c that] using u by blast
  qed
  then show ?thesis using Some l by (auto simp: chunk_bytes_def intro!: nth_equalityI)
qed

lemma raid_byte_chunk: "0 < vr_C vr \<Longrightarrow> raid_byte vr D a = chunk_bytes vr D (Data (a div vr_C vr)) ! (a mod vr_C vr)"
  by (simp add: raid_byte_def chunk_bytes_def)

section \<open>The chunks of stripes\<close>

lemma stripes_items_ok:
  assumes ok: "raid_ok vr" and bw: "ec_bytewise ec" and r: "raid_in_range vr ((s + t) * vr_M vr)" and l: "length buf = t * vr_SL vr"
  shows "items_ok vr (stripes_items ec vr s t buf)"
    "map fst (stripes_items ec vr s t buf) = concat (map (stripe_ids (vr_locator vr)) [s..<s + t])"
proof -
  note rs = raid_ok_simps[OF ok]
  let ?cs = "concat (map (stripe_ids (vr_locator vr)) [s..<s + t])"
  note it = stripes_items_zip[OF ok bw l, of s]
  show f: "map fst (stripes_items ec vr s t buf) = ?cs" using it by simp
  note ss = stripes_sorted[OF rs(1) raid_in_range_chunk(1)[OF ok r]]
  have "distinct ?cs" using ss(1) by (auto simp: distinct_conv_nth sorted_wrt_iff_nth_less) (metis nat_neq_iff)
  moreover have "primes_valid_id (vr_locator vr) c \<and> raid_in_range vr (chunk_address c)" if "c \<in> set ?cs" for c
  proof -
    have c: "primes_valid_id (vr_locator vr) c" "primes_stripe_no (vr_locator vr) c < s + t" using ss(2) that by auto
    then have "chunk_address c < (s + t) * vr_M vr" using rs(6) unfolding primes_stripe_no_def by (simp add: div_less_iff_less_mult)
    then show ?thesis using raid_in_range_mono[OF ok r] c(1) by simp
  qed
  moreover have "length bs = vr_C vr" if "(c, bs) \<in> set (stripes_items ec vr s t buf)" for c bs
    using that it by (auto dest!: set_zip_rightD)
  moreover have "c \<in> set ?cs" if "(c, bs) \<in> set (stripes_items ec vr s t buf)" for c bs
    using that f by (metis fst_conv image_eqI set_map)
  ultimately show "items_ok vr (stripes_items ec vr s t buf)" unfolding items_ok_def f by blast
qed

lemma stripes_items_data:
  assumes ok: "raid_ok vr" and bw: "ec_bytewise ec" and l: "length buf = t * vr_SL vr" and y: "s * vr_M vr \<le> y" "y < (s + t) * vr_M vr"
  shows "(Data y, take (vr_C vr) (drop ((y - s * vr_M vr) * vr_C vr) buf)) \<in> set (stripes_items ec vr s t buf)"
  using l y
proof (induction t arbitrary: s buf)
  case (Suc t)
  let ?b = "take (vr_SL vr) buf" and ?C = "vr_C vr" and ?M = "vr_M vr"
  have lb: "length ?b = vr_SL vr" "length (drop (vr_SL vr) buf) = t * vr_SL vr" using Suc.prems(1) by simp_all
  show ?case
  proof (cases "y < Suc s * ?M")
    case True
    define i where "i = y - s * ?M"
    have i: "i < ?M" "y = s * ?M + i" using True Suc.prems(2) by (simp_all add: i_def)
    have "(zip (stripe_ids (vr_locator vr) s) (data_cols vr ?b @ parity_cols ec vr ?b)) ! i = (Data y, data_cols vr ?b ! i)"
      using i parity_cols_length(1)[OF ok bw lb(1)] by (simp add: stripe_ids_def nth_append)
    moreover have "data_cols vr ?b ! i = take ?C (drop (i * ?C) buf)" unfolding data_cols_take using i(1) by simp
    moreover have "i < length (zip (stripe_ids (vr_locator vr) s) (data_cols vr ?b @ parity_cols ec vr ?b))" using i(1) by (simp add: stripe_ids_def)
    ultimately have "(Data y, take ?C (drop (i * ?C) buf)) \<in> set (stripe_items ec vr s ?b)" unfolding stripe_items_def by (metis nth_mem)
    then show ?thesis by (simp add: i_def)
  next
    case False
    have "(Data y, take ?C (drop ((y - Suc s * ?M) * ?C) (drop (vr_SL vr) buf))) \<in> set (stripes_items ec vr (Suc s) t (drop (vr_SL vr) buf))"
      using False Suc.prems(3) by (intro Suc.IH[OF lb(2)]) simp_all
    moreover have "(y - Suc s * ?M) * ?C + vr_SL vr = (y - s * ?M) * ?C" using False by (simp add: distrib_right[symmetric])
    ultimately show ?thesis by (simp add: add.commute)
  qed
qed simp

text \<open>The array after writing stripes.\<close>

lemma stripes_effect:
  assumes ok: "raid_ok vr" and bw: "ec_bytewise ec" and r: "raid_in_range vr ((s + t) * vr_M vr)" and l: "length buf = t * vr_SL vr"
    and w: "writes ops = chunk_writes vr (stripes_items ec vr s t buf)" and a: "raid_in_range vr (a div vr_C vr)"
  shows "raid_byte vr (exec_ops ops D) a = (if s * vr_SL vr \<le> a \<and> a < (s + t) * vr_SL vr then buf ! (a - s * vr_SL vr) else raid_byte vr D a)"
proof -
  note rs = raid_ok_simps[OF ok]
  let ?y = "a div vr_C vr" and ?C = "vr_C vr" and ?M = "vr_M vr"
  have v: "primes_valid_id (vr_locator vr) (Data ?y)" using chunk_in_range_less[OF rs(1) raid_in_range_chunk(1)[OF ok a]] by simp
  have e: "chunk_bytes vr (exec_ops ops D) (Data ?y) = (case map_of (stripes_items ec vr s t buf) (Data ?y) of Some bs \<Rightarrow> bs | None \<Rightarrow> chunk_bytes vr D (Data ?y))"
    using exec_chunk_bytes[OF ok stripes_items_ok(1)[OF ok bw r l] w v] a by simp
  have iff: "s * vr_SL vr \<le> a \<longleftrightarrow> s * ?M \<le> ?y" "a < (s + t) * vr_SL vr \<longleftrightarrow> ?y < (s + t) * ?M"
    using rs(5) by (simp_all add: less_eq_div_iff_mult_less_eq div_less_iff_less_mult mult.assoc)
  show ?thesis
  proof (cases "s * ?M \<le> ?y \<and> ?y < (s + t) * ?M")
    case True
    have "map_of (stripes_items ec vr s t buf) (Data ?y) = Some (take ?C (drop ((?y - s * ?M) * ?C) buf))"
      using stripes_items_data[OF ok bw l, of s ?y] True stripes_items_ok(1)[OF ok bw r l] by (intro map_of_is_SomeI) (simp_all add: items_ok_def)
    then have "raid_byte vr (exec_ops ops D) a = take ?C (drop ((?y - s * ?M) * ?C) buf) ! (a mod ?C)"
      unfolding raid_byte_chunk[OF rs(5)] e by simp
    also have "\<dots> = buf ! ((?y - s * ?M) * ?C + a mod ?C)"
    proof -
      have "(?y - s * ?M) * ?C \<le> (t * ?M) * ?C" using True by (intro mult_le_mono1) (unfold distrib_right, linarith)
      then show ?thesis using rs(5) l by (simp add: nth_drop mult.assoc)
    qed
    also have "(?y - s * ?M) * ?C + a mod ?C = a - s * vr_SL vr"
    proof -
      have "?y * ?C + a mod ?C = a" by simp
      moreover have "s * ?M * ?C \<le> ?y * ?C" using True by (intro mult_le_mono1) simp
      ultimately show ?thesis by (simp add: diff_mult_distrib mult.assoc)
    qed
    finally show ?thesis using True iff by simp
  next
    case False
    have "Data ?y \<notin> set (concat (map (stripe_ids (vr_locator vr)) [s..<s + t]))"
    proof
      assume "Data ?y \<in> set (concat (map (stripe_ids (vr_locator vr)) [s..<s + t]))"
      then obtain x where x: "s \<le> x" "x < s + t" "x * ?M \<le> ?y" "?y < x * ?M + ?M" by (auto simp: stripe_ids_def)
      have "s * ?M \<le> x * ?M" "Suc x * ?M \<le> (s + t) * ?M" using x(1,2) by (intro mult_le_mono1; simp)+
      then show False using False x(3,4) unfolding mult_Suc by linarith
    qed
    then have "map_of (stripes_items ec vr s t buf) (Data ?y) = None"
      unfolding map_of_eq_None_iff stripes_items_ok(2)[OF ok bw r l, symmetric] set_map .
    then show ?thesis using False iff e unfolding raid_byte_chunk[OF rs(5)] by auto
  qed
qed

section \<open>The array that a client sees\<close>

definition sb_covers :: "StripeBuffer \<Rightarrow> nat \<Rightarrow> bool" where
  "sb_covers sb a \<longleftrightarrow> sb_lba sb * 4096 \<le> a \<and> a < sb_lba sb * 4096 + length (sb_bytes sb)"

definition raid_content :: "VdevRaid \<Rightarrow> disks \<Rightarrow> nat \<Rightarrow> byte" where
  "raid_content vr D a =
     (case find (\<lambda>(z, sb). sb_covers sb a) (vr_stripe_buffers vr) of
        Some (z, sb) \<Rightarrow> sb_bytes sb ! (a - sb_lba sb * 4096)
      | None \<Rightarrow> raid_byte vr D a)"

definition raid_state :: "VdevRaid \<Rightarrow> bool" where
  "raid_state vr \<longleftrightarrow> raid_ok vr \<and> bt_ok (vr_stripe_buffers vr) \<and>
     (\<forall>(z, sb) \<in> set (vr_stripe_buffers vr). \<exists>s. zone_buffer vr s sb \<and> raid_in_range vr (s * vr_M vr)) \<and>
     (\<forall>(z, sb) \<in> set (vr_stripe_buffers vr). \<forall>(z', sb') \<in> set (vr_stripe_buffers vr). z \<noteq> z' \<longrightarrow> (\<forall>a. \<not> (sb_covers sb a \<and> sb_covers sb' a)))"

lemma raid_content_buffer:
  assumes rst: "raid_state vr" and z: "bt_get (vr_stripe_buffers vr) z = Some sb" and c: "sb_covers sb a"
  shows "raid_content vr D a = sb_bytes sb ! (a - sb_lba sb * 4096)"
proof -
  have m: "(z, sb) \<in> set (vr_stripe_buffers vr)" using z by (rule bt_get_Some_mem)
  have bt: "bt_ok (vr_stripe_buffers vr)" using rst by (simp add: raid_state_def)
  obtain z' sb' where f: "find (\<lambda>(z, sb). sb_covers sb a) (vr_stripe_buffers vr) = Some (z', sb')"
    using m c by (cases "find (\<lambda>(z, sb). sb_covers sb a) (vr_stripe_buffers vr)") (auto simp: find_None_iff)
  then have m': "(z', sb') \<in> set (vr_stripe_buffers vr)" "sb_covers sb' a" by (auto simp: find_Some_iff in_set_conv_nth)
  have "z' = z" using rst m m' c unfolding raid_state_def by (auto split: prod.splits) blast
  then have "sb' = sb" using m' bt_get_iff[OF bt] z by (metis option.inject)
  then show ?thesis using f by (simp add: raid_content_def)
qed

lemma raid_content_disk:
  assumes "\<And>z sb. bt_get (vr_stripe_buffers vr) z = Some sb \<Longrightarrow> \<not> sb_covers sb a" "bt_ok (vr_stripe_buffers vr)"
  shows "raid_content vr D a = raid_byte vr D a"
proof -
  have "find (\<lambda>(z, sb). sb_covers sb a) (vr_stripe_buffers vr) = None"
    using assms bt_get_iff[OF assms(2)] by (auto simp: find_None_iff)
  then show ?thesis by (simp add: raid_content_def)
qed

text \<open>Changing the buffers does not change the layout.\<close>

lemma buffers_update [simp]:
  "raid_ok (vr\<lparr>vr_stripe_buffers := m\<rparr>) = raid_ok vr" "zone_buffer (vr\<lparr>vr_stripe_buffers := m\<rparr>) s sb = zone_buffer vr s sb"
  "raid_byte (vr\<lparr>vr_stripe_buffers := m\<rparr>) D a = raid_byte vr D a" "raid_in_range (vr\<lparr>vr_stripe_buffers := m\<rparr>) x = raid_in_range vr x"
  "vr_C (vr\<lparr>vr_stripe_buffers := m\<rparr>) = vr_C vr" "chunk_bytes (vr\<lparr>vr_stripe_buffers := m\<rparr>) D c = chunk_bytes vr D c"
  by (simp_all add: raid_ok_def zone_buffer_def raid_byte_def raid_in_range_def vr_C_def chunk_disk_def chunk_off_def chunk_bytes_def)

lemma zone_buffer_lba:
  "zone_buffer vr s sb \<Longrightarrow> sb_lba sb * 4096 = s * vr_SL vr"
  by (simp add: zone_buffer_def vr_C_def mult.assoc)

text \<open>Appending to the stream of one zone: the common part of \<open>write_at\<close> and \<open>flush_zone\<close>.\<close>

lemma append_content:
  assumes rst: "raid_state vr" and bw: "ec_bytewise ec" and sb: "bt_get (vr_stripe_buffers vr) zone = Some sb" and zb: "zone_buffer vr s sb"
    and sb': "bt_get m zone = Some sb'" "\<And>z. z \<noteq> zone \<Longrightarrow> bt_get m z = bt_get (vr_stripe_buffers vr) z" "bt_ok m"
      "zone_buffer vr (s + T) sb'" "sb_bytes sb' = drop (T * vr_SL vr) (sb_bytes sb @ new)"
    and T: "T * vr_SL vr \<le> length (sb_bytes sb @ new)"
    and w: "writes ops = chunk_writes vr (stripes_items ec vr s T (take (T * vr_SL vr) (sb_bytes sb @ new)))"
    and r: "raid_in_range vr ((s + T) * vr_M vr)"
    and other: "\<And>z sb1 a. z \<noteq> zone \<Longrightarrow> bt_get (vr_stripe_buffers vr) z = Some sb1 \<Longrightarrow> sb_covers sb1 a \<Longrightarrow>
      \<not> (sb_lba sb * 4096 \<le> a \<and> a < sb_lba sb * 4096 + length (sb_bytes sb @ new))"
  defines "vr' \<equiv> vr\<lparr>vr_stripe_buffers := m\<rparr>" and "pos \<equiv> sb_lba sb * 4096 + length (sb_bytes sb)"
  shows "raid_state vr'"
    "raid_in_range vr (a div vr_C vr) \<Longrightarrow>
      raid_content vr' (exec_ops ops D) a = (if pos \<le> a \<and> a < pos + length new then new ! (a - pos) else raid_content vr D a)"
proof -
  have ok: "raid_ok vr" and bt: "bt_ok (vr_stripe_buffers vr)" using rst by (simp_all add: raid_state_def)
  note rs = raid_ok_simps[OF ok]
  let ?SL = "vr_SL vr" and ?st = "sb_bytes sb @ new"
  have base: "sb_lba sb * 4096 = s * ?SL" "sb_lba sb' * 4096 = (s + T) * ?SL" using zone_buffer_lba zb sb'(4) by blast+
  have cov': "sb_covers sb' a \<longleftrightarrow> (s + T) * ?SL \<le> a \<and> a < s * ?SL + length ?st" for a
    unfolding sb_covers_def base sb'(5) length_drop distrib_right using T by linarith
  have dis: "\<not> (s * ?SL \<le> a \<and> a < s * ?SL + length ?st)" if "bt_get m z = Some sb1" "z \<noteq> zone" "sb_covers sb1 a" for z sb1 a
    using other[of z sb1 a] sb'(2)[of z] that base by simp
  have sep: "z = z'" if "bt_get m z = Some sb1" "bt_get m z' = Some sb2" "sb_covers sb1 a" "sb_covers sb2 a" for z z' sb1 sb2 a
  proof -
    consider "z = zone" "z' = zone" | "z = zone" "z' \<noteq> zone" | "z \<noteq> zone" "z' = zone" | "z \<noteq> zone" "z' \<noteq> zone" by blast
    then show ?thesis
    proof cases
      case 2
      then have "sb1 = sb'" using that(1) sb'(1) by simp
      then have False using dis[OF that(2) 2(2) that(4)] that(3) cov' by (auto simp: distrib_right)
      then show ?thesis ..
    next
      case 3
      then have "sb2 = sb'" using that(2) sb'(1) by simp
      then have False using dis[OF that(1) 3(1) that(3)] that(4) cov' by (auto simp: distrib_right)
      then show ?thesis ..
    next
      case 4
      then have "(z, sb1) \<in> set (vr_stripe_buffers vr)" "(z', sb2) \<in> set (vr_stripe_buffers vr)"
        using that(1,2) sb'(2) bt_get_iff[OF bt] by auto
      then show ?thesis using rst that(3,4) unfolding raid_state_def by (auto split: prod.splits) blast
    qed simp
  qed
  show st': "raid_state vr'"
    unfolding raid_state_def vr'_def buffers_update
  proof (intro conjI ballI)
    fix x assume "x \<in> set (vr_stripe_buffers (vr\<lparr>vr_stripe_buffers := m\<rparr>))"
    moreover obtain z sb1 where x: "x = (z, sb1)" by (cases x)
    ultimately have "(z, sb1) \<in> set m" by simp
    then have x2: "bt_get m z = Some sb1" using bt_get_iff[OF sb'(3)] by blast
    have "\<exists>s. zone_buffer vr s sb1 \<and> raid_in_range vr (s * vr_M vr)"
    proof (cases "z = zone")
      case True
      then show ?thesis using sb'(1,4) r x2 by auto
    next
      case False
      then have "(z, sb1) \<in> set (vr_stripe_buffers vr)" using x2 sb'(2) bt_get_iff[OF bt] by simp
      then show ?thesis using rst by (auto simp: raid_state_def)
    qed
    then show "case x of (z, sb) \<Rightarrow> \<exists>s. zone_buffer vr s sb \<and> raid_in_range vr (s * vr_M (vr\<lparr>vr_stripe_buffers := m\<rparr>))" using x by simp
    show "case x of (z, sb) \<Rightarrow> \<forall>(z', sb') \<in> set (vr_stripe_buffers (vr\<lparr>vr_stripe_buffers := m\<rparr>)). z \<noteq> z' \<longrightarrow> (\<forall>a. \<not> (sb_covers sb a \<and> sb_covers sb' a))"
      using sep[OF x2] bt_get_iff[OF sb'(3)] by (auto simp: x)
  qed (use ok sb'(3) in simp_all)
  assume a: "raid_in_range vr (a div vr_C vr)"
  have lt: "length (take (T * ?SL) ?st) = T * ?SL" using T by simp
  note eff = stripes_effect[OF ok bw r lt w a, of D]
  have gm: "bt_get (vr_stripe_buffers vr') z = bt_get m z" for z by (simp add: vr'_def)
  have btm: "bt_ok (vr_stripe_buffers vr')" using sb'(3) by (simp add: vr'_def)
  show "raid_content vr' (exec_ops ops D) a = (if pos \<le> a \<and> a < pos + length new then new ! (a - pos) else raid_content vr D a)"
  proof (cases "\<exists>z sb1. z \<noteq> zone \<and> bt_get m z = Some sb1 \<and> sb_covers sb1 a")
    case True
    then obtain z sb1 where z: "z \<noteq> zone" "bt_get m z = Some sb1" "sb_covers sb1 a" by blast
    then have "\<not> (pos \<le> a \<and> a < pos + length new)" using dis[OF z(2,1,3)] by (auto simp: pos_def base)
    moreover have "raid_content vr' (exec_ops ops D) a = sb_bytes sb1 ! (a - sb_lba sb1 * 4096)"
      using raid_content_buffer[OF st' _ z(3), of z] z(2) gm by simp
    moreover have "raid_content vr D a = sb_bytes sb1 ! (a - sb_lba sb1 * 4096)"
      using raid_content_buffer[OF rst _ z(3), of z] z(1,2) sb'(2) by simp
    ultimately show ?thesis by auto
  next
    case none: False
    have old: "raid_content vr D a = (if s * ?SL \<le> a \<and> a < s * ?SL + length (sb_bytes sb) then sb_bytes sb ! (a - s * ?SL) else raid_byte vr D a)"
    proof (cases "sb_covers sb a")
      case True
      then show ?thesis using raid_content_buffer[OF rst sb True] by (simp add: sb_covers_def base)
    next
      case False
      have "\<not> sb_covers sb1 a" if "bt_get (vr_stripe_buffers vr) z = Some sb1" for z sb1
        using that none sb'(2) sb False by (cases "z = zone") auto
      then have "raid_content vr D a = raid_byte vr D a" using raid_content_disk[OF _ bt] by blast
      then show ?thesis using False unfolding sb_covers_def base by auto
    qed
    have new: "raid_content vr' (exec_ops ops D) a = (if s * ?SL \<le> a \<and> a < s * ?SL + length ?st then ?st ! (a - s * ?SL) else raid_byte vr D a)"
    proof (cases "sb_covers sb' a")
      case True
      have "raid_content vr' (exec_ops ops D) a = sb_bytes sb' ! (a - (s + T) * ?SL)"
        using raid_content_buffer[OF st' _ True] sb'(1) gm by (simp add: base)
      also have "\<dots> = ?st ! (T * ?SL + (a - (s + T) * ?SL))" unfolding sb'(5) using T by (intro nth_drop)
      also have "T * ?SL + (a - (s + T) * ?SL) = a - s * ?SL" using True cov' by (simp add: distrib_right)
      finally show ?thesis using True cov' by (simp add: distrib_right)
    next
      case False
      have "\<not> sb_covers sb1 a" if "bt_get m z = Some sb1" for z sb1
        using that none sb'(1) False by (cases "z = zone") auto
      then have "raid_content vr' (exec_ops ops D) a = raid_byte vr' (exec_ops ops D) a"
        using raid_content_disk[OF _ btm] unfolding gm by blast
      then have rb: "raid_content vr' (exec_ops ops D) a = raid_byte vr (exec_ops ops D) a" by (simp add: vr'_def)
      have e1: "a < (s + T) * ?SL \<longleftrightarrow> a < s * ?SL + length ?st" if "s * ?SL \<le> a"
        using False T unfolding cov' distrib_right by linarith
      have "take (T * ?SL) ?st ! (a - s * ?SL) = ?st ! (a - s * ?SL)" if "s * ?SL \<le> a" "a < (s + T) * ?SL"
        using that unfolding distrib_right by (intro nth_take) linarith
      then show ?thesis unfolding rb eff using e1 by auto
    qed
    have "?st ! (a - s * ?SL) = sb_bytes sb ! (a - s * ?SL)" if "a < s * ?SL + length (sb_bytes sb)" "s * ?SL \<le> a"
      using that by (intro nth_append_left) linarith
    moreover have "?st ! (a - s * ?SL) = new ! (a - (s * ?SL + length (sb_bytes sb)))" if "s * ?SL + length (sb_bytes sb) \<le> a"
    proof -
      have "length (sb_bytes sb) \<le> a - s * ?SL" using that by linarith
      from nth_append_right[OF this, of new] show ?thesis by (simp only: diff_diff_left)
    qed
    ultimately show ?thesis unfolding new old pos_def base length_append by (auto simp del: distrib_right)
  qed
qed

section \<open>Parity\<close>

definition stripe_consistent :: "ec_fun \<Rightarrow> VdevRaid \<Rightarrow> disks \<Rightarrow> nat \<Rightarrow> bool" where
  "stripe_consistent ec vr D q \<longleftrightarrow>
     map (\<lambda>j. chunk_bytes vr D (Parity (q * vr_M vr) (int j))) [0..<vr_F vr]
       = codec_encode ec (vr_codec vr) (vr_C vr) (map (\<lambda>i. chunk_bytes vr D (Data (q * vr_M vr + i))) [0..<vr_M vr])"

lemma stripes_items_subset:
  "s \<le> q \<Longrightarrow> q < s + t \<Longrightarrow> length buf = t * vr_SL vr \<Longrightarrow>
     set (stripe_items ec vr q (take (vr_SL vr) (drop ((q - s) * vr_SL vr) buf))) \<subseteq> set (stripes_items ec vr s t buf)"
proof (induction t arbitrary: s buf)
  case (Suc t)
  show ?case
  proof (cases "q = s")
    case False
    then have "set (stripe_items ec vr q (take (vr_SL vr) (drop ((q - Suc s) * vr_SL vr) (drop (vr_SL vr) buf)))) \<subseteq> set (stripes_items ec vr (Suc s) t (drop (vr_SL vr) buf))"
      using Suc.prems by (intro Suc.IH) simp_all
    moreover have "(q - Suc s) * vr_SL vr + vr_SL vr = (q - s) * vr_SL vr"
    proof -
      have "q - s = Suc (q - Suc s)" using False Suc.prems(1) by simp
      then show ?thesis by simp
    qed
    ultimately show ?thesis by (auto simp: add.commute)
  qed simp
qed simp

lemma stripe_chunks_range:
  assumes ok: "raid_ok vr" and r: "raid_in_range vr (Suc q * vr_M vr)" and c: "c \<in> set (stripe_ids (vr_locator vr) q)"
  shows "primes_valid_id (vr_locator vr) c" "raid_in_range vr (chunk_address c)"
proof -
  note rs = raid_ok_simps[OF ok]
  show "primes_valid_id (vr_locator vr) c" using stripe_ids_valid(1)[OF rs(1) raid_in_range_chunk(1)[OF ok r] c] .
  have "chunk_address c \<le> Suc q * vr_M vr" using c by (auto simp: stripe_ids_def)
  then show "raid_in_range vr (chunk_address c)" by (rule raid_in_range_mono[OF ok r])
qed

lemma written_consistent:
  assumes ok: "raid_ok vr" and bw: "ec_bytewise ec" and r: "raid_in_range vr ((s + t) * vr_M vr)" and l: "length buf = t * vr_SL vr"
    and w: "writes ops = chunk_writes vr (stripes_items ec vr s t buf)" and rq: "raid_in_range vr (Suc q * vr_M vr)"
    and q: "s \<le> q \<and> q < s + t \<or> stripe_consistent ec vr D q"
  shows "stripe_consistent ec vr (exec_ops ops D) q"
proof -
  let ?p = "vr_locator vr" and ?b = "take (vr_SL vr) (drop ((q - s) * vr_SL vr) buf)" and ?it = "stripes_items ec vr s t buf"
  note io = stripes_items_ok[OF ok bw r l]
  have ex: "chunk_bytes vr (exec_ops ops D) c = (case map_of ?it c of Some bs \<Rightarrow> bs | None \<Rightarrow> chunk_bytes vr D c)"
    if "c \<in> set (stripe_ids ?p q)" for c
    by (rule exec_chunk_bytes[OF ok io(1) w stripe_chunks_range[OF ok rq that]])
  have dm: "Data (q * vr_M vr + i) \<in> set (stripe_ids ?p q)" if "i < vr_M vr" for i using that by (simp add: stripe_ids_def)
  have pm: "Parity (q * vr_M vr) (int j) \<in> set (stripe_ids ?p q)" if "j < vr_F vr" for j using that by (auto simp: stripe_ids_def)
  show ?thesis
  proof (cases "s \<le> q \<and> q < s + t")
    case True
    have "Suc (q - s) \<le> t" using True by linarith
    then have "Suc (q - s) * vr_SL vr \<le> t * vr_SL vr" by (rule mult_le_mono1)
    then have "(q - s) * vr_SL vr + vr_SL vr \<le> t * vr_SL vr" unfolding mult_Suc by linarith
    then have lb: "length ?b = vr_SL vr" unfolding length_take length_drop l by linarith
    note pc = parity_cols_length(1)[OF ok bw lb]
    have sub: "set (stripe_items ec vr q ?b) \<subseteq> set ?it" using True l by (intro stripes_items_subset) auto
    have get: "map_of ?it c = Some bs" if "(c, bs) \<in> set (stripe_items ec vr q ?b)" for c bs
      using that sub io(1) by (intro map_of_is_SomeI) (auto simp: items_ok_def)
    have d: "chunk_bytes vr (exec_ops ops D) (Data (q * vr_M vr + i)) = data_cols vr ?b ! i" if i: "i < vr_M vr" for i
    proof -
      have "zip (stripe_ids ?p q) (data_cols vr ?b @ parity_cols ec vr ?b) ! i = (Data (q * vr_M vr + i), data_cols vr ?b ! i)"
        using i pc by (simp add: stripe_ids_def nth_append)
      moreover have "i < length (zip (stripe_ids ?p q) (data_cols vr ?b @ parity_cols ec vr ?b))" using i pc by (simp add: stripe_ids_def)
      ultimately have "(Data (q * vr_M vr + i), data_cols vr ?b ! i) \<in> set (stripe_items ec vr q ?b)"
        unfolding stripe_items_def by (metis nth_mem)
      from get[OF this] show ?thesis using ex[OF dm[OF i]] by simp
    qed
    have p: "chunk_bytes vr (exec_ops ops D) (Parity (q * vr_M vr) (int j)) = parity_cols ec vr ?b ! j" if j: "j < vr_F vr" for j
    proof -
      have "zip (stripe_ids ?p q) (data_cols vr ?b @ parity_cols ec vr ?b) ! (vr_M vr + j) = (Parity (q * vr_M vr) (int j), parity_cols ec vr ?b ! j)"
        using j pc by (simp add: stripe_ids_def nth_append)
      moreover have "vr_M vr + j < length (zip (stripe_ids ?p q) (data_cols vr ?b @ parity_cols ec vr ?b))" using j pc by (simp add: stripe_ids_def)
      ultimately have "(Parity (q * vr_M vr) (int j), parity_cols ec vr ?b ! j) \<in> set (stripe_items ec vr q ?b)"
        unfolding stripe_items_def by (metis nth_mem)
      from get[OF this] show ?thesis using ex[OF pm[OF j]] by simp
    qed
    have "map (\<lambda>i. chunk_bytes vr (exec_ops ops D) (Data (q * vr_M vr + i))) [0..<vr_M vr] = data_cols vr ?b"
      using d by (intro nth_equalityI) simp_all
    moreover have "map (\<lambda>j. chunk_bytes vr (exec_ops ops D) (Parity (q * vr_M vr) (int j))) [0..<vr_F vr] = parity_cols ec vr ?b"
      using p pc by (intro nth_equalityI) simp_all
    ultimately show ?thesis by (simp add: stripe_consistent_def parity_cols_def)
  next
    case False
    have "chunk_bytes vr (exec_ops ops D) c = chunk_bytes vr D c" if c: "c \<in> set (stripe_ids ?p q)" for c
    proof -
      have "primes_stripe_no ?p c = q"
        using stripe_ids_valid(2)[OF raid_ok_simps(1)[OF ok] raid_in_range_chunk(1)[OF ok rq] c] .
      then have "c \<notin> set (map fst ?it)" unfolding io(2)
        using stripes_sorted(2)[OF raid_ok_simps(1)[OF ok] raid_in_range_chunk(1)[OF ok r]] False by auto
      then have "map_of ?it c = None" by (simp add: map_of_eq_None_iff)
      then show ?thesis using ex[OF c] by simp
    qed
    then have p: "map (\<lambda>j. chunk_bytes vr (exec_ops ops D) (Parity (q * vr_M vr) (int j))) [0..<vr_F vr]
        = map (\<lambda>j. chunk_bytes vr D (Parity (q * vr_M vr) (int j))) [0..<vr_F vr]"
      and d: "map (\<lambda>i. chunk_bytes vr (exec_ops ops D) (Data (q * vr_M vr + i))) [0..<vr_M vr]
        = map (\<lambda>i. chunk_bytes vr D (Data (q * vr_M vr + i))) [0..<vr_M vr]"
      using dm pm by (intro map_cong[OF refl]; simp)+
    have "stripe_consistent ec vr (exec_ops ops D) q = stripe_consistent ec vr D q"
      unfolding stripe_consistent_def p d ..
    then show ?thesis using q False by simp
  qed
qed

section \<open>Reading\<close>

lemma read_disks_spec:
  assumes ok: "raid_ok vr" and l: "0 < l" "4096 dvd l" and r: "raid_in_range vr ((lba * 4096 + l) div vr_C vr + vr_M vr)"
  shows "\<exists>ops. read_disks vr (p, l) lba (lba + l div 4096 - 1) = Some ops \<and> reads D ops = range_bytes vr D p (lba * 4096) l"
proof -
  note rs = raid_ok_simps[OF ok]
  let ?C = "vr_C vr" and ?cs = "vr_chunksize vr" and ?M = "vr_M vr"
  define S where "S = ?cs * ?M"
  have S: "0 < S" "S * 4096 = vr_SL vr" using rs(6,12) by (simp_all add: S_def vr_C_def mult.commute mult.left_commute)
  have "S \<le> S * 4096" by simp
  also have "\<dots> < 2 ^ 64" unfolding S(2) using rs(14) by simp
  finally have "S < 2 ^ 64" .
  then have u: "u64 (?cs * vr_m vr) = S" by (simp add: rs(2) S_def wrapu_id)
  obtain w where w: "l = w * 4096" "0 < w" using l by (metis dvd_div_mult_self mult_0 not_gr_zero)
  define e where "e = lba + w - 1"
  have e: "lba + l div 4096 - 1 = e" by (simp add: e_def w)
  have el: "lba \<le> e" "Suc e = lba + w" using w(2) by (simp_all add: e_def)
  show ?thesis
  proof (cases "lba div S = e div S")
    case True
    let ?s = "lba div S"
    have "?s * S \<le> lba" by simp
    then have "?s * S * 4096 \<le> lba * 4096" by (rule mult_le_mono1)
    then have a1: "?s * vr_SL vr \<le> lba * 4096" using S(2) by (simp only: mult.assoc)
    have "e < Suc ?s * S" unfolding True using dividend_less_div_times[OF S(1), of e] by (simp add: mult.commute)
    then have "lba + w \<le> Suc ?s * S" using el by linarith
    then have "(lba + w) * 4096 \<le> Suc ?s * S * 4096" by (rule mult_le_mono1)
    then have a2: "lba * 4096 + l \<le> Suc ?s * vr_SL vr" using S(2) w by (simp only: mult.assoc distrib_right)
    have "?s * ?M * ?C \<le> lba * 4096 + l" using a1 by (simp only: mult.assoc)
    then have "?s * ?M \<le> (lba * 4096 + l) div ?C" using rs(5) by (simp add: less_eq_div_iff_mult_less_eq)
    then have "raid_in_range vr (Suc ?s * ?M)" using raid_in_range_mono[OF ok r] by simp
    from read_at_one_spec[OF ok l(1) a1 a2 this] show ?thesis using True S(1) u e by (simp add: read_disks_def)
  next
    case False
    have "lba div S < e div S" using False el(1) div_le_mono[of lba e S] by linarith
    then have "Suc (lba div S) * S \<le> e div S * S" by (intro mult_le_mono1) simp
    also have "\<dots> \<le> e" by simp
    finally have es: "Suc (lba div S) * S \<le> e" .
    have "lba mod ?cs = 0 \<or> ?C - lba mod ?cs * 4096 \<le> l"
    proof -
      have "lba div ?cs < Suc (lba div S) * ?M" using rs(6) by (simp add: S_def div_mult2_eq[symmetric] mult.commute dividend_less_div_times)
        (metis S_def dividend_less_div_times div_mult2_eq rs(6) mult.commute)
      then have "Suc (lba div ?cs) * ?cs \<le> Suc (lba div S) * ?M * ?cs" by (intro mult_le_mono1) simp
      also have "\<dots> = Suc (lba div S) * S" unfolding S_def by (simp only: mult.assoc mult.commute[of ?M ?cs])
      finally have "Suc (lba div ?cs) * ?cs \<le> lba + w" using es el by linarith
      moreover have "lba = lba div ?cs * ?cs + lba mod ?cs" by simp
      ultimately have "?cs - lba mod ?cs \<le> w" unfolding mult_Suc by linarith
      then have "(?cs - lba mod ?cs) * 4096 \<le> w * 4096" by (rule mult_le_mono1)
      then show ?thesis by (simp add: w vr_C_def diff_mult_distrib)
    qed
    moreover have "raid_in_range vr ((lba + l div 4096 + ?cs - 1) div ?cs)"
    proof (rule raid_in_range_mono[OF ok r])
      have "(lba * 4096 + l) div ?C = (lba + w) div ?cs"
        using div_mult_mult2[of 4096 "lba + w" ?cs] by (simp add: w vr_C_def)
      moreover have "(lba + w + ?cs - 1) div ?cs \<le> (lba + w) div ?cs + 1"
        using div_le_mono[of "lba + w + ?cs - 1" "lba + w + ?cs" ?cs] rs(12) div_add_self2[of ?cs "lba + w"] by linarith
      ultimately show "(lba + l div 4096 + ?cs - 1) div ?cs \<le> (lba * 4096 + l) div ?C + ?M" using rs(6) w by simp
    qed
    ultimately show ?thesis using read_at_multi_spec[OF ok l, of lba p D] False S(1) u e by (auto simp: read_disks_def)
  qed
qed

text \<open>What a read returns: the bytes copied from a stripe buffer and the bytes that the disks deliver.\<close>

definition read_result :: "disks \<Rightarrow> (nat \<times> byte list) list \<times> DiskOp list \<Rightarrow> (nat \<times> byte) set" where
  "read_result D r = (\<Union>(p, bs) \<in> set (fst r). (\<lambda>i. (p + i, bs ! i)) ` {..<length bs}) \<union> reads D (snd r)"

lemma read_bound:
  assumes ok: "raid_ok vr" and r: "raid_in_range vr (X div vr_C vr + vr_M vr)"
  shows "X < 2 ^ 63"
proof -
  note rs = raid_ok_simps[OF ok]
  have "X < (X div vr_C vr + 1) * vr_C vr" using rs(5) by (simp add: dividend_less_div_times add.commute)
  also have "\<dots> \<le> (X div vr_C vr + vr_M vr) * vr_C vr" using rs(6) by (intro mult_le_mono1) simp
  also have "\<dots> < 2 ^ 63" by (rule raid_in_range_chunk(2)[OF ok r])
  finally show ?thesis .
qed

text \<open>The buffered part of a read.\<close>

lemma copied_bytes:
  assumes "length bs = l"
  shows "read_result D ([(p, bs)], ops) = (\<lambda>i. (p + i, bs ! i)) ` {..<l} \<union> reads D ops"
  using assms by (simp add: read_result_def)

lemma split_range:
  fixes f :: "nat \<Rightarrow> 'b"
  assumes "d \<le> n"
  shows "(\<lambda>i. (i, f i)) ` {..<n} = (\<lambda>i. (i, f i)) ` {..<d} \<union> (\<lambda>i. (d + i, f (d + i))) ` {..<n - d}"
proof -
  have "{..<n} = {..<d} \<union> (\<lambda>i. d + i) ` {..<n - d}"
  proof (rule set_eqI)
    fix i show "i \<in> {..<n} \<longleftrightarrow> i \<in> {..<d} \<union> (\<lambda>i. d + i) ` {..<n - d}"
      using assms by (cases "i < d") (auto intro!: image_eqI[of _ _ "i - d"])
  qed
  then show ?thesis by (simp add: image_Un image_image)
qed

lemma state_buffer:
  assumes rst: "raid_state vr" and m: "(z, sb) \<in> set (vr_stripe_buffers vr)"
  shows "sb_ok sb" "sb_lba sb < 2 ^ 63" "sb_next_lba sb = sb_lba sb + length (sb_bytes sb) div 4096" "4096 dvd length (sb_bytes sb)"
    "bt_get (vr_stripe_buffers vr) z = Some sb"
proof -
  obtain s where s: "zone_buffer vr s sb" "raid_in_range vr (s * vr_M vr)" using rst m by (auto simp: raid_state_def)
  have "raid_ok vr" "bt_ok (vr_stripe_buffers vr)" using rst by (simp_all add: raid_state_def)
  then show "sb_ok sb" "sb_lba sb < 2 ^ 63" "bt_get (vr_stripe_buffers vr) z = Some sb"
    using s stripe_lba_bound[of vr s] bt_get_iff[of "vr_stripe_buffers vr"] m by (simp_all add: zone_buffer_def)
  then show "sb_next_lba sb = sb_lba sb + length (sb_bytes sb) div 4096" "4096 dvd length (sb_bytes sb)"
    using sb_next_lba_eq by (simp_all add: sb_ok_def)
qed

lemma find_buffer_spec:
  fixes lba :: nat
  assumes rst: "raid_state vr" and w: "0 < w"
  defines "hit \<equiv> \<lambda>sb. sb_bytes sb \<noteq> [] \<and> lba * 4096 < sb_lba sb * 4096 + length (sb_bytes sb) \<and> sb_lba sb * 4096 < (lba + w) * 4096"
  shows "find_buffer vr lba (lba + w - 1) = None \<longleftrightarrow> (\<forall>(z, sb) \<in> set (vr_stripe_buffers vr). \<not> hit sb)"
    "find_buffer vr lba (lba + w - 1) = Some sb \<Longrightarrow> \<exists>z. (z, sb) \<in> set (vr_stripe_buffers vr) \<and> hit sb"
proof -
  have hit: "(\<not> sb_is_empty sb \<and> lba < sb_next_lba sb \<and> lba + w - 1 \<ge> sb_lba sb) = hit sb" if m: "(z, sb) \<in> set (vr_stripe_buffers vr)" for z sb
  proof -
    note s = state_buffer[OF rst m]
    obtain n where n: "length (sb_bytes sb) = n * 4096" using s(4) by (metis dvd_div_mult_self)
    have "lba < sb_next_lba sb \<longleftrightarrow> lba * 4096 < sb_lba sb * 4096 + length (sb_bytes sb)" unfolding s(3) n by auto
    moreover have "sb_lba sb \<le> lba + w - 1 \<longleftrightarrow> sb_lba sb * 4096 < (lba + w) * 4096" using w by auto
    ultimately show ?thesis using sb_is_empty_eq[OF s(1)] by (simp add: hit_def)
  qed
  then have "(\<forall>x \<in> set (vr_stripe_buffers vr). \<not> (\<not> sb_is_empty (snd x) \<and> lba < sb_next_lba (snd x) \<and> lba + w - 1 \<ge> sb_lba (snd x)))
      \<longleftrightarrow> (\<forall>x \<in> set (vr_stripe_buffers vr). \<not> hit (snd x))"
    by (intro ball_cong refl) (metis prod.collapse)
  then show "find_buffer vr lba (lba + w - 1) = None \<longleftrightarrow> (\<forall>(z, sb) \<in> set (vr_stripe_buffers vr). \<not> hit sb)"
    unfolding find_buffer_def find_None_iff by (simp add: split_beta)
  assume "find_buffer vr lba (lba + w - 1) = Some sb"
  then have "sb \<in> set (map snd (vr_stripe_buffers vr))" "\<not> sb_is_empty sb \<and> lba < sb_next_lba sb \<and> lba + w - 1 \<ge> sb_lba sb"
    unfolding find_buffer_def by (metis (no_types, lifting) find_Some_iff nth_mem)+
  then show "\<exists>z. (z, sb) \<in> set (vr_stripe_buffers vr) \<and> hit sb" using hit by (metis (no_types, lifting) image_iff list.set_map prod.collapse)
qed

lemma read_at_spec:
  assumes rst: "raid_state vr" and l: "0 < buflen" "4096 dvd buflen"
    and r: "raid_in_range vr ((lba * 4096 + buflen) div vr_C vr + vr_M vr)"
    and over: "\<And>z sb. (z, sb) \<in> set (vr_stripe_buffers vr) \<Longrightarrow> sb_bytes sb \<noteq> [] \<Longrightarrow>
      lba * 4096 < sb_lba sb * 4096 + length (sb_bytes sb) \<Longrightarrow> sb_lba sb * 4096 < lba * 4096 + buflen \<Longrightarrow>
      lba * 4096 + buflen \<le> sb_lba sb * 4096 + length (sb_bytes sb)"
  shows "\<exists>res. vr_read_at vr buflen lba = Some res \<and> read_result D res = (\<lambda>i. (i, raid_content vr D (lba * 4096 + i))) ` {..<buflen}"
proof -
  have ok: "raid_ok vr" and bt: "bt_ok (vr_stripe_buffers vr)" using rst by (simp_all add: raid_state_def)
  obtain w where w: "buflen = w * 4096" "0 < w" using l by (metis dvd_div_mult_self mult_0 not_gr_zero)
  have bd: "lba * 4096 + buflen < 2 ^ 63" by (rule read_bound[OF ok r])
  have wl: "wsub 64 buflen 1 div BYTES_PER_LBA = w - 1"
  proof -
    have "wsub 64 buflen 1 = (w - 1) * 4096 + 4095" using bd w by (simp add: wsub_id)
    then show ?thesis by (simp add: BYTES_PER_LBA_def)
  qed
  have el: "u64 (lba + wsub 64 buflen 1 div BYTES_PER_LBA) = lba + w - 1" unfolding wl using bd w by (simp add: wrapu_id)
  have ldiv: "lba + buflen div 4096 - 1 = lba + w - 1" by (simp add: w)
  have al: "buflen mod BYTES_PER_LBA = 0" by (simp add: w BYTES_PER_LBA_def)
  show ?thesis
  proof (cases "find_buffer vr lba (lba + w - 1)")
    case None
    then have no: "sb_bytes sb = [] \<or> sb_lba sb * 4096 + length (sb_bytes sb) \<le> lba * 4096 \<or> (lba + w) * 4096 \<le> sb_lba sb * 4096"
      if "(z, sb) \<in> set (vr_stripe_buffers vr)" for z sb
      using that find_buffer_spec(1)[OF rst w(2), of lba] by fastforce
    have "\<not> sb_covers sb (lba * 4096 + i)" if "bt_get (vr_stripe_buffers vr) z = Some sb" "i < buflen" for z sb i
      using no[of z sb] that bt_get_iff[OF bt] unfolding sb_covers_def w by auto
    then have "raid_content vr D (lba * 4096 + i) = raid_byte vr D (lba * 4096 + i)" if "i < buflen" for i
      using that raid_content_disk[OF _ bt] by blast
    then have "range_bytes vr D 0 (lba * 4096) buflen = (\<lambda>i. (i, raid_content vr D (lba * 4096 + i))) ` {..<buflen}"
      by (auto simp: range_bytes_def)
    then show ?thesis using read_disks_spec[OF ok l r, of 0 D] None
      unfolding vr_read_at_def el ldiv by (auto simp: al read_result_def)
  next
    case (Some sb)
    obtain z where z: "(z, sb) \<in> set (vr_stripe_buffers vr)"
      and hit: "sb_bytes sb \<noteq> []" "lba * 4096 < sb_lba sb * 4096 + length (sb_bytes sb)" "sb_lba sb * 4096 < (lba + w) * 4096"
      using find_buffer_spec(2)[OF rst w(2) Some] by blast
    note s = state_buffer[OF rst z]
    have en: "lba * 4096 + buflen \<le> sb_lba sb * 4096 + length (sb_bytes sb)" using over[OF z hit(1,2)] hit(3) w by simp
    define d where "d = (sb_lba sb - lba) * 4096"
    define k where "k = (lba - sb_lba sb) * 4096"
    have d: "d \<le> buflen" "lba * 4096 + d = sb_lba sb * 4096 + k" using hit(3) by (auto simp: d_def k_def w diff_mult_distrib)
    have kl: "k + (buflen - d) \<le> length (sb_bytes sb)" using en d by linarith
    have u: "u64 d = d" "u64 k = k" using d bd by (simp_all add: wrapu_id)
    obtain c where c: "sg_ok c" "sg_rest c = drop k (sb_bytes sb)"
      "(if sb_lba sb > lba then Some (u64 ((sb_lba sb - lba) * BYTES_PER_LBA), sg_from (sb_buf sb))
            else do {
              let to_skip = u64 ((lba - sb_lba sb) * BYTES_PER_LBA);
              (_, cursor) \<leftarrow> sg_take to_skip to_skip (sg_from (sb_buf sb));
              Some (0, cursor)
            }) = Some (d, c)"
    proof (cases "lba < sb_lba sb")
      case True
      then have "k = 0" by (simp add: k_def)
      then show ?thesis using True u that[of "sg_from (sb_buf sb)"] sg_from_ok[of "sb_buf sb"] s(1)
        by (simp add: d_def BYTES_PER_LBA_def sb_ok_def sb_bytes_def)
    next
      case False
      have f: "sg_ok (sg_from (sb_buf sb))" "sg_rest (sg_from (sb_buf sb)) = sb_bytes sb"
        using sg_from_ok[of "sb_buf sb"] s(1) by (simp_all add: sb_ok_def sb_bytes_def)
      obtain col c' where "sg_take k k (sg_from (sb_buf sb)) = Some (col, c')" "sg_ok c'" "sg_rest c' = drop k (sb_bytes sb)"
        using sg_take_spec[OF f(1), of k k] kl unfolding f(2) by auto
      then show ?thesis using False u that[of c'] by (simp add: k_def d_def BYTES_PER_LBA_def)
    qed
    obtain col c' where t: "sg_take (buflen - d) (buflen - d) c = Some (col, c')" "concat col = take (buflen - d) (drop k (sb_bytes sb))"
      using sg_take_spec[OF c(1) _ order_refl, of "buflen - d"] kl unfolding c(2) length_drop by (metis add_le_imp_le_diff add.commute)
    have lc: "length (concat col) = buflen - d" unfolding t(2) using kl by simp
    have hi: "raid_content vr D (lba * 4096 + (d + i)) = concat col ! i" if "i < buflen - d" for i
    proof -
      have "sb_covers sb (lba * 4096 + (d + i))" unfolding sb_covers_def using d(2) kl that by linarith
      from raid_content_buffer[OF rst s(5) this, of D]
      have "raid_content vr D (lba * 4096 + (d + i)) = sb_bytes sb ! (lba * 4096 + (d + i) - sb_lba sb * 4096)" .
      also have "lba * 4096 + (d + i) - sb_lba sb * 4096 = k + i" using d(2) by linarith
      finally show ?thesis unfolding t(2) using that kl by simp
    qed
    have lo: "raid_content vr D (lba * 4096 + i) = raid_byte vr D (lba * 4096 + i)" if i: "i < d" for i
    proof (rule raid_content_disk[OF _ bt])
      fix z1 sb1 assume g: "bt_get (vr_stripe_buffers vr) z1 = Some sb1"
      then have m1: "(z1, sb1) \<in> set (vr_stripe_buffers vr)" by (rule bt_get_Some_mem)
      show "\<not> sb_covers sb1 (lba * 4096 + i)"
      proof
        assume cv: "sb_covers sb1 (lba * 4096 + i)"
        then have "lba * 4096 + buflen \<le> sb_lba sb1 * 4096 + length (sb_bytes sb1)"
          using i d(1) by (intro over[OF m1]) (auto simp: sb_covers_def)
        then have "sb_covers sb1 (lba * 4096 + buflen - 1)" using cv l(1) i d(1) by (auto simp: sb_covers_def)
        moreover have "sb_covers sb (lba * 4096 + buflen - 1)" using en hit(3) l(1) by (auto simp: sb_covers_def w)
        ultimately have "z1 = z" using rst m1 z unfolding raid_state_def by (auto split: prod.splits) blast
        then have "sb1 = sb" using g s(5) by simp
        then show False using cv i by (auto simp: sb_covers_def d_def diff_mult_distrib)
      qed
    qed
    have all: "(\<lambda>i. (i, raid_content vr D (lba * 4096 + i))) ` {..<buflen}
        = range_bytes vr D 0 (lba * 4096) d \<union> (\<lambda>i. (d + i, concat col ! i)) ` {..<buflen - d}"
      using hi lo unfolding split_range[OF d(1)] range_bytes_def by (intro arg_cong2[of _ _ _ _ "(\<union>)"] image_cong) auto
    show ?thesis
    proof (cases "d = 0")
      case True
      then have "vr_read_at vr buflen lba = Some ([(d, concat col)], [])"
        unfolding vr_read_at_def el using Some c(3) t(1) d(1) al by simp
      then show ?thesis unfolding all using copied_bytes[OF lc] True by auto
    next
      case False
      have "(lba * 4096 + d) div vr_C vr \<le> (lba * 4096 + buflen) div vr_C vr" using d(1) by (intro div_le_mono) simp
      then have "raid_in_range vr ((lba * 4096 + d) div vr_C vr + vr_M vr)" by (intro raid_in_range_mono[OF ok r]) simp
      then obtain ops where o: "read_disks vr (0, d) lba (lba + d div 4096 - 1) = Some ops" "reads D ops = range_bytes vr D 0 (lba * 4096) d"
        using read_disks_spec[OF ok, of d lba 0 D] False by (auto simp: d_def)
      have "wsub 64 (sb_lba sb) 1 = lba + d div 4096 - 1" using False s(2) by (simp add: d_def wsub_id)
      then have "vr_read_at vr buflen lba = Some ([(d, concat col)], ops)"
        unfolding vr_read_at_def el using Some c(3) t(1) d(1) al o(1) False by simp
      then show ?thesis unfolding all using copied_bytes[OF lc] o(2) by auto
    qed
  qed
qed

end
