(* ===== verification/Raid_Array.thy ===== *)
theory Raid_Array
  imports Raid_Correct "HOL-Library.Multiset"
begin

text \<open>
  The properties of the RAID vdev as an array of bytes: writing, flushing, reading, and the parity of every
  stripe, with an instance of five disks.
\<close>

section \<open>Requests in any order\<close>

text \<open>The disks work independently: the requests of one operation may take effect in any order.\<close>

lemma writes_perm: "mset ops' = mset ops \<Longrightarrow> writes ops' = writes ops"
  unfolding writes_def by (metis set_mset_mset)

definition write_room :: "VdevRaid \<Rightarrow> ZoneT \<Rightarrow> StripeBuffer \<Rightarrow> nat \<Rightarrow> bool" where
  "write_room vr zone sb n \<longleftrightarrow> (\<forall>(z, sb1) \<in> set (vr_stripe_buffers vr). z \<noteq> zone \<longrightarrow>
     (\<forall>a. sb_covers sb1 a \<longrightarrow> a < sb_lba sb * 4096 \<or> sb_lba sb * 4096 + length (sb_bytes sb) + n \<le> a))"

lemma write_room_other:
  assumes "write_room vr zone sb (length new)" "z \<noteq> zone" "bt_get (vr_stripe_buffers vr) z = Some sb1" "sb_covers sb1 a"
  shows "\<not> (sb_lba sb * 4096 \<le> a \<and> a < sb_lba sb * 4096 + length (sb_bytes sb @ new))"
  using assms bt_get_Some_mem[OF assms(3)] unfolding write_room_def by fastforce

definition overwritten :: "(nat \<Rightarrow> byte) \<Rightarrow> nat \<Rightarrow> byte list \<Rightarrow> nat \<Rightarrow> byte" where
  "overwritten f pos new a = (if pos \<le> a \<and> a < pos + length new then new ! (a - pos) else f a)"

lemma stripe_le_chunk:
  assumes "raid_ok vr" "s * vr_SL vr \<le> X"
  shows "s * vr_M vr \<le> X div vr_C vr"
  using assms(2) raid_ok_simps(5)[OF assms(1)] by (simp add: less_eq_div_iff_mult_less_eq mult.assoc)

lemma write_at_array:
  assumes rst: "raid_state vr" and bw: "ec_bytewise ec" and junk: "\<And>n. length (junk n) = n"
    and sb: "bt_get (vr_stripe_buffers vr) zone = Some sb" and room: "write_room vr zone sb (length (lba_pad buf))"
    and r: "raid_in_range vr ((sb_next_lba sb * 4096 + length (lba_pad buf)) div vr_C vr)"
  obtains vr' ops where "vr_write_at ec junk vr buf zone (sb_next_lba sb) = Some (vr', ops)" "raid_state vr'"
    "vr_locator vr' = vr_locator vr" "vr_C vr' = vr_C vr"
    "\<And>ops' D a. mset ops' = mset ops \<Longrightarrow> raid_in_range vr (a div vr_C vr) \<Longrightarrow>
       raid_content vr' (exec_ops ops' D) a = overwritten (raid_content vr D) (sb_next_lba sb * 4096) (lba_pad buf) a"
    "\<And>ops' D q. mset ops' = mset ops \<Longrightarrow> raid_in_range vr (Suc q * vr_M vr) \<Longrightarrow>
       stripe_consistent ec vr D q \<or> sb_lba sb * 4096 \<le> q * vr_SL vr \<and> Suc q * vr_SL vr \<le> sb_next_lba sb * 4096 + length (lba_pad buf) \<Longrightarrow>
       stripe_consistent ec vr (exec_ops ops' D) q"
proof -
  have ok: "raid_ok vr" and bt: "bt_ok (vr_stripe_buffers vr)" using rst by (simp_all add: raid_state_def)
  note m = bt_get_Some_mem[OF sb]
  note s0 = state_buffer[OF rst m]
  obtain s where s: "zone_buffer vr s sb" "raid_in_range vr (s * vr_M vr)" using rst m by (auto simp: raid_state_def)
  let ?st = "sb_bytes sb @ lba_pad buf" and ?SL = "vr_SL vr"
  define T where "T = length ?st div ?SL"
  have base: "sb_lba sb * 4096 = s * ?SL" by (rule zone_buffer_lba[OF s(1)])
  have pos: "sb_next_lba sb * 4096 = sb_lba sb * 4096 + length (sb_bytes sb)" unfolding s0(3) using s0(4) by simp
  have T: "T * ?SL \<le> length ?st" unfolding T_def by (rule div_times_less_eq_dividend)
  have "(s + T) * ?SL \<le> sb_next_lba sb * 4096 + length (lba_pad buf)" using T unfolding pos base distrib_right length_append by linarith
  then have rT: "raid_in_range vr ((s + T) * vr_M vr)" by (rule raid_in_range_mono[OF ok r stripe_le_chunk[OF ok]])
  obtain sb' ops where w: "vr_write_at ec junk vr buf zone (sb_next_lba sb)
      = Some (vr\<lparr>vr_stripe_buffers := bt_insert zone sb' (vr_stripe_buffers vr)\<rparr>, ops)"
    "zone_buffer vr (s + T) sb'" "sb_bytes sb' = drop (T * ?SL) ?st" "writes ops = chunk_writes vr (stripes_items ec vr s T (take (T * ?SL) ?st))"
    using write_at_stream[OF ok bw junk sb s(1), where buf = buf] rT unfolding T_def s0(3) by blast
  let ?m = "bt_insert zone sb' (vr_stripe_buffers vr)"
  have g: "bt_get ?m zone = Some sb'" "\<And>z. z \<noteq> zone \<Longrightarrow> bt_get ?m z = bt_get (vr_stripe_buffers vr) z" "bt_ok ?m"
    using bt by (simp_all add: bt_get_insert bt_insert_ok)
  have ac: "raid_state (vr\<lparr>vr_stripe_buffers := ?m\<rparr>)"
    "raid_in_range vr (a div vr_C vr) \<Longrightarrow> raid_content (vr\<lparr>vr_stripe_buffers := ?m\<rparr>) (exec_ops ops' D) a
      = overwritten (raid_content vr D) (sb_next_lba sb * 4096) (lba_pad buf) a"
    if "writes ops' = chunk_writes vr (stripes_items ec vr s T (take (T * ?SL) ?st))" for ops' D a
    unfolding overwritten_def pos
    by (rule append_content[OF rst bw sb s(1) g(1) _ g(3) w(2,3) T that rT]; use g(2) write_room_other[OF room] in blast)+
  show thesis
  proof (rule that[OF w(1)])
    show "raid_state (vr\<lparr>vr_stripe_buffers := ?m\<rparr>)" by (rule ac(1)[OF w(4)])
    fix ops' D assume p: "mset ops' = mset ops"
    then have w': "writes ops' = chunk_writes vr (stripes_items ec vr s T (take (T * ?SL) ?st))" using w(4) writes_perm by blast
    show "raid_content (vr\<lparr>vr_stripe_buffers := ?m\<rparr>) (exec_ops ops' D) a = overwritten (raid_content vr D) (sb_next_lba sb * 4096) (lba_pad buf) a"
      if "raid_in_range vr (a div vr_C vr)" for a
      by (rule ac(2)[OF w' that])
    have lt: "length (take (T * ?SL) ?st) = T * ?SL" using T by simp
    show "stripe_consistent ec vr (exec_ops ops' D) q"
      if q: "raid_in_range vr (Suc q * vr_M vr)" "stripe_consistent ec vr D q \<or>
        sb_lba sb * 4096 \<le> q * ?SL \<and> Suc q * ?SL \<le> sb_next_lba sb * 4096 + length (lba_pad buf)" for q
    proof -
      have "s \<le> q \<and> q < s + T" if "s * ?SL \<le> q * ?SL" "Suc q * ?SL \<le> s * ?SL + length ?st"
      proof -
        have SL: "0 < ?SL" using raid_ok_simps(5,6)[OF ok] by simp
        then have "s \<le> q" using that(1) by simp
        then have "(Suc q - s) * ?SL \<le> length ?st" using that(2) unfolding diff_mult_distrib by linarith
        then have "Suc q - s \<le> T" using SL by (simp add: T_def less_eq_div_iff_mult_less_eq)
        then show ?thesis using \<open>s \<le> q\<close> by linarith
      qed
      then show ?thesis using written_consistent[OF ok bw rT lt w' q(1)] q(2) unfolding pos base length_append
        by (metis add.assoc)
    qed
  qed (simp_all add: vr_C_def)
qed

text \<open>\<open>flush_zone\<close> appends zeros up to the end of the stripe.\<close>

definition flush_pad :: "VdevRaid \<Rightarrow> StripeBuffer \<Rightarrow> nat" where
  "flush_pad vr sb = (if sb_bytes sb = [] then 0 else vr_SL vr - length (sb_bytes sb))"

lemma flush_bt_ok: "vr_flush_zone ec junk vr zone = Some (p, vr', ops) \<Longrightarrow> bt_ok (vr_stripe_buffers vr) \<Longrightarrow> bt_ok (vr_stripe_buffers vr')"
  by (auto simp: vr_flush_zone_def sb_pop_def bt_insert_ok split: option.splits if_splits bind_splits)

lemma flush_zone_array:
  assumes rst: "raid_state vr" and bw: "ec_bytewise ec" and junk: "\<And>n. length (junk n) = n"
    and sb: "bt_get (vr_stripe_buffers vr) zone = Some sb" and room: "write_room vr zone sb (flush_pad vr sb)"
    and r: "raid_in_range vr (sb_lba sb * 4096 div vr_C vr + vr_M vr)"
  obtains m' sb' ops where "vr_flush_zone ec junk vr zone = Some (flush_pad vr sb div 4096, vr\<lparr>vr_stripe_buffers := m'\<rparr>, ops)"
    "raid_state (vr\<lparr>vr_stripe_buffers := m'\<rparr>)"
    "bt_get m' zone = Some sb'" "sb_bytes sb' = []" "\<And>z. z \<noteq> zone \<Longrightarrow> bt_get m' z = bt_get (vr_stripe_buffers vr) z"
    "\<And>ops' D a. writes ops' = writes ops \<Longrightarrow> raid_in_range vr (a div vr_C vr) \<Longrightarrow>
       raid_content (vr\<lparr>vr_stripe_buffers := m'\<rparr>) (exec_ops ops' D) a
         = overwritten (raid_content vr D) (sb_next_lba sb * 4096) (replicate (flush_pad vr sb) 0) a"
    "\<And>ops' D a. writes ops' = writes ops \<Longrightarrow> raid_in_range vr (a div vr_C vr) \<Longrightarrow> sb_lba sb * 4096 \<le> a \<Longrightarrow> a < sb_next_lba sb * 4096 \<Longrightarrow>
       raid_byte vr (exec_ops ops' D) a = raid_content vr D a"
proof -
  have ok: "raid_ok vr" and bt: "bt_ok (vr_stripe_buffers vr)" using rst by (simp_all add: raid_state_def)
  note m = bt_get_Some_mem[OF sb]
  note s0 = state_buffer[OF rst m]
  obtain s where s: "zone_buffer vr s sb" "raid_in_range vr (s * vr_M vr)" using rst m by (auto simp: raid_state_def)
  let ?p = "flush_pad vr sb" and ?SL = "vr_SL vr"
  let ?st = "sb_bytes sb @ replicate ?p 0"
  define T where "T = (if sb_bytes sb = [] then 0 else 1 :: nat)"
  have base: "sb_lba sb * 4096 = s * ?SL" by (rule zone_buffer_lba[OF s(1)])
  have pos: "sb_next_lba sb * 4096 = sb_lba sb * 4096 + length (sb_bytes sb)" unfolding s0(3) using s0(4) by simp
  have lst: "length ?st = T * ?SL" using s(1) by (auto simp: T_def flush_pad_def zone_buffer_def)
  have "s * vr_M vr \<le> sb_lba sb * 4096 div vr_C vr" by (rule stripe_le_chunk[OF ok]) (simp only: base)
  then have rS: "raid_in_range vr (Suc s * vr_M vr)" by (intro raid_in_range_mono[OF ok r]) simp
  have rT: "raid_in_range vr ((s + T) * vr_M vr)" by (rule raid_in_range_mono[OF ok rS], rule mult_le_mono1) (simp add: T_def)
  obtain m' sb' ops where w: "vr_flush_zone ec junk vr zone = Some (?p div 4096, vr\<lparr>vr_stripe_buffers := m'\<rparr>, ops)"
    "bt_get m' zone = Some sb'" "\<And>z. z \<noteq> zone \<Longrightarrow> bt_get m' z = bt_get (vr_stripe_buffers vr) z"
    "zone_buffer vr (s + T) sb'" "sb_bytes sb' = []" "writes ops = chunk_writes vr (stripes_items ec vr s T ?st)"
    using flush_zone_stream[OF ok bw junk sb s(1) rS] unfolding flush_pad_def[symmetric] T_def[symmetric] by blast
  have bt': "bt_ok m'" using flush_bt_ok[OF w(1) bt] by simp
  have b': "sb_bytes sb' = drop (T * ?SL) ?st" using lst w(5) by simp
  have tk: "take (T * ?SL) ?st = ?st" using lst by simp
  have room': "write_room vr zone sb (length (replicate ?p (0 :: byte)))" using room by simp
  have ac: "raid_state (vr\<lparr>vr_stripe_buffers := m'\<rparr>)"
    "raid_in_range vr (a div vr_C vr) \<Longrightarrow> raid_content (vr\<lparr>vr_stripe_buffers := m'\<rparr>) (exec_ops ops' D) a
      = overwritten (raid_content vr D) (sb_next_lba sb * 4096) (replicate ?p 0) a"
    if "writes ops' = chunk_writes vr (stripes_items ec vr s T (take (T * ?SL) ?st))" for ops' D a
    unfolding overwritten_def pos
    by (rule append_content[OF rst bw sb s(1) w(2) _ bt' w(4) b' eq_refl[OF lst[symmetric]] that rT];
        use w(3) write_room_other[OF room'] in blast)+
  show thesis
  proof (rule that[OF w(1) _ w(2,5,3)])
    show "raid_state (vr\<lparr>vr_stripe_buffers := m'\<rparr>)" by (rule ac(1)[of ops]) (simp only: tk w(6))
    fix ops' D a assume p: "writes ops' = writes ops" and a: "raid_in_range vr (a div vr_C vr)"
    then have w': "writes ops' = chunk_writes vr (stripes_items ec vr s T ?st)" using w(6) by simp
    show "raid_content (vr\<lparr>vr_stripe_buffers := m'\<rparr>) (exec_ops ops' D) a
        = overwritten (raid_content vr D) (sb_next_lba sb * 4096) (replicate ?p 0) a"
      by (rule ac(2)[OF _ a]) (simp only: tk w')
    assume i: "sb_lba sb * 4096 \<le> a" "a < sb_next_lba sb * 4096"
    have "raid_byte vr (exec_ops ops' D) a = ?st ! (a - s * ?SL)"
      using stripes_effect[OF ok bw rT lst w' a] i lst unfolding pos base distrib_right length_append by simp
    also have "\<dots> = sb_bytes sb ! (a - sb_lba sb * 4096)" using i unfolding pos base by (intro nth_append_left) linarith
    also have "\<dots> = raid_content vr D a" using raid_content_buffer[OF rst sb, of a] i unfolding pos by (simp add: sb_covers_def)
    finally show "raid_byte vr (exec_ops ops' D) a = raid_content vr D a" .
  qed
qed

section \<open>The states that occur\<close>

text \<open>New buffers are allowed if they begin on a stripe and are empty; buffers may also disappear.\<close>

lemma raid_state_update:
  assumes rst: "raid_state vr" and bt: "bt_ok m"
    and z: "\<And>z sb. bt_get m z = Some sb \<Longrightarrow> bt_get (vr_stripe_buffers vr) z = Some sb \<or>
      (\<exists>s. zone_buffer vr s sb \<and> raid_in_range vr (s * vr_M vr)) \<and> (\<forall>a. \<not> sb_covers sb a)"
  shows "raid_state (vr\<lparr>vr_stripe_buffers := m\<rparr>)"
proof -
  have ok: "raid_ok vr" and bt0: "bt_ok (vr_stripe_buffers vr)" using rst by (simp_all add: raid_state_def)
  have old: "(\<exists>s. zone_buffer vr s sb \<and> raid_in_range vr (s * vr_M vr)) \<and> ((\<exists>a. sb_covers sb a) \<longrightarrow> (z, sb) \<in> set (vr_stripe_buffers vr))"
    if "(z, sb) \<in> set m" for z sb
    using that z[of z sb] bt_get_iff[OF bt] bt_get_iff[OF bt0] rst by (auto simp: raid_state_def)
  have "\<not> (sb_covers sb a \<and> sb_covers sb' a)" if "(z, sb) \<in> set m" "(z', sb') \<in> set m" "z \<noteq> z'" for z z' sb sb' a
    using old[OF that(1)] old[OF that(2)] that(3) rst unfolding raid_state_def by blast
  then have dis: "\<forall>(z, sb) \<in> set m. \<forall>(z', sb') \<in> set m. z \<noteq> z' \<longrightarrow> (\<forall>a. \<not> (sb_covers sb a \<and> sb_covers sb' a))" by blast
  have "\<forall>(z, sb) \<in> set m. \<exists>s. zone_buffer vr s sb \<and> raid_in_range vr (s * vr_M vr)" using old by blast
  with dis show ?thesis unfolding raid_state_def buffers_update using ok bt by simp
qed

lemma raid_new_state:
  assumes new: "vr_new rs cauchy init chunksize k f uuid la bds = Some vr" and n: "length bds \<le> 181"
    and c: "0 < chunksize" "nat (k - f) * (chunksize * 4096) < 2 ^ 62"
  shows "raid_state vr"
proof -
  have i: "i16 (int (length bds)) = int (length bds)" using n by (simp add: i16_id)
  obtain cd p where cd: "codec_new rs cauchy init (cast_u 32 k) (cast_u 32 f) = Some cd" and p: "primes_new (int (length bds)) k f = Some p"
    and v: "vr_codec vr = cd" "vr_locator vr = p" "vr_blockdevs vr = bds" "vr_chunksize vr = chunksize" "vr_stripe_buffers vr = []"
    using new by (auto simp: vr_new_def i Let_def split: bind_splits)
  have po: "primes_ok p" "ps_n p = int (length bds)" "ps_k p = k" "ps_f p = f" using primes_new_ok[OF p] n by auto
  note pb = primes_ok_bounds[OF po(1)]
  have "cast_u 32 k = nat k" "cast_u 32 f = nat f" using pb po by (simp_all add: cast_u_id)
  then have "int (cd_m cd) = k" "int (cd_f cd) = f" using cd pb po by (auto simp: codec_new_def Let_def split: bind_splits)
  moreover have "vr_M vr = nat (k - f)" using pb po v(2) by simp
  ultimately show ?thesis using po c v by (simp add: raid_state_def raid_ok_def vr_C_def)
qed

lemma open_zone_state:
  assumes rst: "raid_state vr" and op: "open_zone_priv vr zone allocated = Some (vr', ops)"
    and sb: "bt_get (vr_stripe_buffers vr') zone = Some sb" and r: "raid_in_range vr (sb_lba sb div vr_chunksize vr)"
  shows "raid_state vr'"
proof -
  have ok: "raid_ok vr" and bt: "bt_ok (vr_stripe_buffers vr)" using rst by (simp_all add: raid_state_def)
  note rs = raid_ok_simps[OF ok]
  have "vr_M vr * vr_chunksize vr \<le> vr_M vr * vr_C vr" by (simp add: vr_C_def)
  also have "\<dots> < 2 ^ 62" by (rule rs(14))
  finally have b: "vr_M vr * vr_chunksize vr < 2 ^ 62" .
  then have u: "u64 (vr_m vr * vr_chunksize vr) = vr_M vr * vr_chunksize vr" unfolding rs(2) by (simp add: wrapu_id)
  have b2: "u64 (vr_M vr * vr_chunksize vr * BYTES_PER_LBA) = vr_SL vr"
    using rs(14) by (simp add: vr_C_def BYTES_PER_LBA_def mult.assoc wrapu_id)
  obtain lba where n: "sb_new lba (vr_M vr * vr_chunksize vr) = Some sb" and v: "vr' = vr\<lparr>vr_stripe_buffers := bt_insert zone sb (vr_stripe_buffers vr)\<rparr>"
    using op sb unfolding open_zone_priv_def u by (auto simp: bt_get_insert Let_def split: bind_splits prod.splits)
  have s: "sb = \<lparr>sb_buf = [], sb_lba = lba, sb_stripesize = vr_SL vr\<rparr>" "lba mod (vr_M vr * vr_chunksize vr) = 0"
    using n unfolding sb_new_def b2 by (auto split: bind_splits)
  then obtain q where q: "lba = q * vr_M vr * vr_chunksize vr" by (metis div_mult_mod_eq add.right_neutral mult.assoc)
  have "raid_in_range vr (q * vr_M vr)" using r rs(12) by (simp add: s(1) q)
  moreover have "zone_buffer vr q sb" using q rs(5,6,14) s(1) by (simp add: zone_buffer_def sb_ok_def sb_bytes_def vr_C_def)
  moreover have nc: "\<not> sb_covers sb a" for a using s(1) by (simp add: sb_covers_def sb_bytes_def)
  ultimately show ?thesis unfolding v
    by (intro raid_state_update[OF rst bt_insert_ok[OF bt]]) (auto simp: bt_get_insert split: if_splits)
qed

lemma drop_zone_state: "raid_state vr \<Longrightarrow> raid_state (vr\<lparr>vr_stripe_buffers := bt_remove zone (vr_stripe_buffers vr)\<rparr>)"
  by (rule raid_state_update[OF _ bt_remove_ok]) (auto simp: raid_state_def bt_get_remove split: if_splits)

lemma raid_content_drop:
  assumes "raid_state (vr\<lparr>vr_stripe_buffers := m\<rparr>)" "raid_state (vr\<lparr>vr_stripe_buffers := m'\<rparr>)"
    and "bt_get m' zone = Some sb'" "sb_bytes sb' = []" "bt_get m zone = None" "\<And>z. z \<noteq> zone \<Longrightarrow> bt_get m' z = bt_get m z"
  shows "raid_content (vr\<lparr>vr_stripe_buffers := m\<rparr>) D a = raid_content (vr\<lparr>vr_stripe_buffers := m'\<rparr>) D a"
proof (cases "\<exists>z sb. bt_get m z = Some sb \<and> sb_covers sb a")
  case True
  then obtain z sb where z: "bt_get m z = Some sb" "sb_covers sb a" by blast
  then have "bt_get m' z = Some sb" using assms(5,6) by (cases "z = zone") auto
  then show ?thesis using raid_content_buffer[OF assms(1) _ z(2), of z D] raid_content_buffer[OF assms(2) _ z(2), of z D] z(1) by simp
next
  case False
  have "\<not> sb_covers sb a" if "bt_get m' z = Some sb" for z sb
    using that False assms(3,4,6) by (cases "z = zone") (auto simp: sb_covers_def)
  then show ?thesis using False raid_content_disk[of "vr\<lparr>vr_stripe_buffers := m\<rparr>"] raid_content_disk[of "vr\<lparr>vr_stripe_buffers := m'\<rparr>"] assms(1,2)
    by (simp add: raid_state_def)
qed

text \<open>\<open>finish_zone\<close> flushes the zone, forgets its buffer, and finishes the zone on every disk.\<close>

lemma finish_is_flush:
  assumes "vr_flush_zone ec junk vr zone = Some (p, vr1, ops)" "bt_get (vr_stripe_buffers vr) zone = Some sb" "vr_blockdevs vr \<noteq> []"
  shows "vr_finish_zone ec junk vr zone = Some (vr\<lparr>vr_stripe_buffers := bt_remove zone (vr_stripe_buffers vr)\<rparr>,
    ops @ map (\<lambda>d. DFinishZone d (fst (vf_zone_limits (vr_blockdevs vr ! 0) zone)) (wsub 64 (snd (vf_zone_limits (vr_blockdevs vr ! 0) zone)) 1))
      [0..<length (vr_blockdevs vr)])"
  using assms by (auto simp: vr_flush_zone_def vr_finish_zone_def vec_get_def Let_def split: if_splits bind_splits prod.splits)

lemma finish_writes: "writes (map (\<lambda>d. DFinishZone d a b) ds) = {}"
  by (induction ds) (simp_all add: op_writes_def)

text \<open>
  The steps of a client that writes every zone in order: it opens a zone where there is room for one, appends
  to an open zone, flushes it and finishes it.
\<close>

inductive raid_step :: "ec_fun \<Rightarrow> (nat \<Rightarrow> IoVec) \<Rightarrow> VdevRaid \<Rightarrow> VdevRaid \<Rightarrow> bool" for ec junk where
  open_step: "open_zone_priv vr zone allocated = Some (vr', ops) \<Longrightarrow> bt_get (vr_stripe_buffers vr') zone = Some sb \<Longrightarrow>
    raid_in_range vr (sb_lba sb div vr_chunksize vr) \<Longrightarrow> raid_step ec junk vr vr'"
| write_step: "bt_get (vr_stripe_buffers vr) zone = Some sb \<Longrightarrow> write_room vr zone sb (length (lba_pad buf)) \<Longrightarrow>
    raid_in_range vr ((sb_next_lba sb * 4096 + length (lba_pad buf)) div vr_C vr) \<Longrightarrow>
    vr_write_at ec junk vr buf zone lba = Some (vr', ops) \<Longrightarrow> raid_step ec junk vr vr'"
| flush_step: "bt_get (vr_stripe_buffers vr) zone = Some sb \<Longrightarrow> write_room vr zone sb (flush_pad vr sb) \<Longrightarrow>
    raid_in_range vr (sb_lba sb * 4096 div vr_C vr + vr_M vr) \<Longrightarrow>
    vr_flush_zone ec junk vr zone = Some (p, vr', ops) \<Longrightarrow> raid_step ec junk vr vr'"
| finish_step: "vr_finish_zone ec junk vr zone = Some (vr', ops) \<Longrightarrow> raid_step ec junk vr vr'"

lemma raid_step_state:
  assumes bw: "ec_bytewise ec" and junk: "\<And>n. length (junk n) = n" and rst: "raid_state vr" and st: "raid_step ec junk vr vr'"
  shows "raid_state vr'"
  using st
proof cases
  case (open_step zone allocated ops sb)
  then show ?thesis using open_zone_state[OF rst] by blast
next
  case (write_step zone sb buf lba ops)
  have "sb_next_lba sb = lba" using write_step(1,4) by (auto simp: vr_write_at_def split: bind_splits)
  then show ?thesis using write_at_array[OF rst bw junk write_step(1-3)] write_step(4) by (metis option.inject prod.inject)
next
  case (flush_step zone sb p ops)
  then show ?thesis using flush_zone_array[OF rst bw junk flush_step(1-3)] by (metis option.inject prod.inject)
next
  case (finish_step zone ops)
  then have "vr' = vr\<lparr>vr_stripe_buffers := bt_remove zone (vr_stripe_buffers vr)\<rparr>"
    by (auto simp: vr_finish_zone_def Let_def split: bind_splits prod.splits)
  then show ?thesis using drop_zone_state[OF rst] by simp
qed

section \<open>Properties\<close>

text \<open>An instance: five disks, stripes of three data chunks and one parity chunk, chunks of one LBA.\<close>

definition disk_5 :: VdevFile where
  "disk_5 = \<lparr>vf_spacemap_space = 1, vf_lbas_per_zone = 2 ^ 16, vf_size = 2 ^ 20, vf_uuid = 7, vf_candelete = True\<rparr>"

definition raid_5 :: "(ZoneT \<times> StripeBuffer) list \<Rightarrow> VdevRaid" where
  "raid_5 bufs = \<lparr>vr_chunksize = 1, vr_codec = \<lparr>cd_m = 4, cd_f = 1, cd_enc_matrix = [], cd_enc_tables = []\<rparr>,
     vr_locator = layout_5_4_1, vr_blockdevs = replicate 5 disk_5, vr_layout_algorithm = LayoutPrimeS,
     vr_optimum_queue_depth = 1, vr_stripe_buffers = bufs, vr_uuid = 0\<rparr>"

definition sb_5 :: "byte list \<Rightarrow> StripeBuffer" where
  "sb_5 bs = \<lparr>sb_buf = (if bs = [] then [] else [bs]), sb_lba = 30, sb_stripesize = 12288\<rparr>"

lemma raid_5_ok: "raid_ok (raid_5 bufs)"
  using primes_new_ok(1)[OF layout_5_4_1_new] by (simp add: raid_ok_def raid_5_def vr_C_def)

lemma raid_5_simps [simp]:
  "vr_stripe_buffers (raid_5 bufs) = bufs" "vr_C (raid_5 bufs) = 4096" "vr_locator (raid_5 bufs) = layout_5_4_1"
  "vr_blockdevs (raid_5 bufs) = replicate 5 disk_5" "raid_in_range (raid_5 bufs) a = ((int a div 60 + 2) * 60 * 4096 \<le> 2 ^ 63)"
  by (simp_all add: raid_5_def vr_C_def raid_in_range_def)

lemma sb_5_simps [simp]: "sb_bytes (sb_5 bs) = bs" "sb_lba (sb_5 bs) = 30"
  by (simp_all add: sb_5_def sb_bytes_def)

lemma sb_5_next [simp]: "length bs \<le> 12288 \<Longrightarrow> sb_next_lba (sb_5 bs) = 30 + length bs div 4096"
  by (cases bs) (auto simp: sb_5_def sb_next_lba_def sb_len_def sglist_len_def BYTES_PER_LBA_def wrapu_id)

lemma raid_5_state:
  assumes "4096 dvd length bs" "length bs < 12288"
  shows "raid_state (raid_5 [(0, sb_5 bs)])"
proof -
  have "sb_ok (sb_5 bs)" using assms by (auto simp: sb_ok_def) (simp_all add: sb_5_def split: if_splits)
  then have "zone_buffer (raid_5 [(0, sb_5 bs)]) 10 (sb_5 bs)" using assms(2) by (simp add: zone_buffer_def) (simp add: raid_5_def sb_5_def)
  then show ?thesis using raid_5_ok by (auto simp: raid_state_def bt_ok_Cons intro!: exI[of _ 10])
qed

lemma raid_5_room [simp]: "write_room (raid_5 [(0, sb_5 bs)]) 0 sb n"
  by (simp add: write_room_def)

text \<open>C8. Refinement of an array of bytes by \<open>write_at\<close>. A write at the end of an open zone always succeeds, and in
  the array that a client sees it replaces exactly the bytes of the write, the last block filled up with
  zeros, in whatever order the disks carry out the requests; the vdev stays well formed.\<close>

theorem raid_write_at_array:
  assumes "raid_state vr" "ec_bytewise ec" "\<And>n. length (junk n) = n"
    and "bt_get (vr_stripe_buffers vr) zone = Some sb" "write_room vr zone sb (length (lba_pad buf))"
    and "raid_in_range vr ((sb_next_lba sb * 4096 + length (lba_pad buf)) div vr_C vr)"
  shows "\<exists>vr' ops. vr_write_at ec junk vr buf zone (sb_next_lba sb) = Some (vr', ops) \<and> raid_state vr' \<and>
    (\<forall>ops' D a. mset ops' = mset ops \<and> raid_in_range vr (a div vr_C vr) \<longrightarrow>
       raid_content vr' (exec_ops ops' D) a = overwritten (raid_content vr D) (sb_next_lba sb * 4096) (lba_pad buf) a)"
  by (rule write_at_array[OF assms]) blast

theorem raid_write_at_array_witness:
  "\<exists>vr' ops. vr_write_at sum_ec (\<lambda>n. replicate n 0) (raid_5 [(0, sb_5 (replicate 4096 1))]) (replicate 10000 2) 0 31 = Some (vr', ops) \<and>
    (\<forall>D. raid_content vr' (exec_ops ops D) 126976 = 2 \<and> raid_content vr' (exec_ops ops D) 136975 = 2)"
proof -
  have "sb_next_lba (sb_5 (replicate 4096 1)) = 31" by simp
  moreover have l: "lba_pad (replicate 10000 (2::byte)) = replicate 10000 2 @ replicate 2288 0" by (simp add: lba_pad_def)
  moreover have "raid_state (raid_5 [(0, sb_5 (replicate 4096 1))])" by (rule raid_5_state) simp_all
  ultimately obtain vr' ops where w: "vr_write_at sum_ec (\<lambda>n. replicate n 0) (raid_5 [(0, sb_5 (replicate 4096 1))]) (replicate 10000 2) 0 31 = Some (vr', ops)"
    "\<And>D a. (int (a div 4096) div 60 + 2) * 60 * 4096 \<le> 2 ^ 63 \<Longrightarrow> raid_content vr' (exec_ops ops D) a
      = overwritten (raid_content (raid_5 [(0, sb_5 (replicate 4096 1))]) D) 126976 (replicate 10000 2 @ replicate 2288 0) a"
    using raid_write_at_array[OF _ sum_ec_bytewise, of "raid_5 [(0, sb_5 (replicate 4096 1))]" "\<lambda>n. replicate n 0" 0
        "sb_5 (replicate 4096 1)" "replicate 10000 2"]
    by (auto simp: bt_get_Cons)
  then show ?thesis by (auto simp: overwritten_def nth_append)
qed

text \<open>C10. The parity is always right. Every stripe that \<open>write_at\<close> completes, and every stripe that was
  consistent before, has on the disks the parity that the encoder computes from its data, in whatever order the disks
  carry out the requests.\<close>

theorem raid_write_keeps_parity:
  assumes "raid_state vr" "ec_bytewise ec" "\<And>n. length (junk n) = n"
    and "bt_get (vr_stripe_buffers vr) zone = Some sb" "write_room vr zone sb (length (lba_pad buf))"
    and "raid_in_range vr ((sb_next_lba sb * 4096 + length (lba_pad buf)) div vr_C vr)"
  shows "\<exists>vr' ops. vr_write_at ec junk vr buf zone (sb_next_lba sb) = Some (vr', ops) \<and>
    (\<forall>ops' D q. mset ops' = mset ops \<and> raid_in_range vr (Suc q * vr_M vr) \<and>
       (stripe_consistent ec vr D q \<or>
        sb_lba sb * 4096 \<le> q * vr_SL vr \<and> Suc q * vr_SL vr \<le> sb_next_lba sb * 4096 + length (lba_pad buf)) \<longrightarrow>
       stripe_consistent ec vr (exec_ops ops' D) q)"
  by (rule write_at_array[OF assms]) blast

theorem raid_write_keeps_parity_witness:
  "\<exists>vr' ops. vr_write_at sum_ec (\<lambda>n. replicate n 0) (raid_5 [(0, sb_5 (replicate 4096 1))]) (replicate 10000 2) 0 31 = Some (vr', ops) \<and>
    (\<forall>D. stripe_consistent sum_ec (raid_5 [(0, sb_5 (replicate 4096 1))]) (exec_ops ops D) 10)"
proof -
  have "sb_next_lba (sb_5 (replicate 4096 1)) = 31" by simp
  moreover have "raid_state (raid_5 [(0, sb_5 (replicate 4096 1))])" by (rule raid_5_state) simp_all
  ultimately show ?thesis
    using raid_write_keeps_parity[OF _ sum_ec_bytewise, of "raid_5 [(0, sb_5 (replicate 4096 1))]" "\<lambda>n. replicate n 0" 0
        "sb_5 (replicate 4096 1)" "replicate 10000 2"]
    by (fastforce simp: bt_get_Cons lba_pad_def)
qed

text \<open>C9. \<open>read_at\<close> returns the array. A read of whole blocks succeeds, and the bytes it copies out of a stripe buffer
  and those its requests deliver from the disks are together exactly the bytes of the array in the
  range of the read, each at its position in the buffer. The read must not go past the data of a stripe buffer.\<close>

theorem raid_read_at_array:
  assumes "raid_state vr" "0 < buflen" "4096 dvd buflen" "raid_in_range vr ((lba * 4096 + buflen) div vr_C vr + vr_M vr)"
    and "\<And>z sb. (z, sb) \<in> set (vr_stripe_buffers vr) \<Longrightarrow> sb_bytes sb \<noteq> [] \<Longrightarrow>
      lba * 4096 < sb_lba sb * 4096 + length (sb_bytes sb) \<Longrightarrow> sb_lba sb * 4096 < lba * 4096 + buflen \<Longrightarrow>
      lba * 4096 + buflen \<le> sb_lba sb * 4096 + length (sb_bytes sb)"
  shows "\<exists>res. vr_read_at vr buflen lba = Some res \<and> read_result D res = (\<lambda>i. (i, raid_content vr D (lba * 4096 + i))) ` {..<buflen}"
  using assms by (rule read_at_spec)

theorem raid_read_at_array_witness:
  "\<forall>D. \<exists>res. vr_read_at (raid_5 [(0, sb_5 (replicate 4096 1))]) 12288 28 = Some res \<and> (12287, 1) \<in> read_result D res"
proof
  fix D
  have st: "raid_state (raid_5 [(0, sb_5 (replicate 4096 1))])" by (rule raid_5_state) simp_all
  have "raid_content (raid_5 [(0, sb_5 (replicate 4096 1))]) D 126975 = 1"
    using raid_content_buffer[OF st, of 0 "sb_5 (replicate 4096 1)" 126975 D] by (simp add: sb_covers_def bt_get_Cons)
  moreover obtain res where "vr_read_at (raid_5 [(0, sb_5 (replicate 4096 1))]) 12288 28 = Some res"
    "read_result D res = (\<lambda>i. (i, raid_content (raid_5 [(0, sb_5 (replicate 4096 1))]) D (28 * 4096 + i))) ` {..<12288}"
    using raid_read_at_array[OF st, of 12288 28 D] by auto
  ultimately show "\<exists>res. vr_read_at (raid_5 [(0, sb_5 (replicate 4096 1))]) 12288 28 = Some res \<and> (12287, 1) \<in> read_result D res"
    by (force intro!: image_eqI[of _ _ 12287])
qed

text \<open>C11. \<open>finish_zone\<close> loses nothing. Finishing an open zone succeeds, fills its last stripe up with zeros and
  otherwise leaves the array as it was, although the buffer of the zone is gone: all its data is on the disks.\<close>

theorem raid_finish_zone_array:
  assumes "raid_state vr" "ec_bytewise ec" "\<And>n. length (junk n) = n"
    and "bt_get (vr_stripe_buffers vr) zone = Some sb" "write_room vr zone sb (flush_pad vr sb)"
    and "raid_in_range vr (sb_lba sb * 4096 div vr_C vr + vr_M vr)"
  shows "\<exists>vr' ops. vr_finish_zone ec junk vr zone = Some (vr', ops) \<and> raid_state vr' \<and> bt_get (vr_stripe_buffers vr') zone = None \<and>
    (\<forall>ops' D a. mset ops' = mset ops \<and> raid_in_range vr (a div vr_C vr) \<longrightarrow> raid_content vr' (exec_ops ops' D) a
       = overwritten (raid_content vr D) (sb_next_lba sb * 4096) (replicate (flush_pad vr sb) 0) a)"
proof -
  have ok: "raid_ok vr" using assms(1) by (simp add: raid_state_def)
  then have bd: "vr_blockdevs vr \<noteq> []" using primes_ok_bounds(1) by (fastforce simp: raid_ok_def)
  obtain m' sb' ops where f: "vr_flush_zone ec junk vr zone = Some (flush_pad vr sb div 4096, vr\<lparr>vr_stripe_buffers := m'\<rparr>, ops)"
    "raid_state (vr\<lparr>vr_stripe_buffers := m'\<rparr>)" "bt_get m' zone = Some sb'" "sb_bytes sb' = []"
    "\<And>z. z \<noteq> zone \<Longrightarrow> bt_get m' z = bt_get (vr_stripe_buffers vr) z"
    "\<And>ops' D a. writes ops' = writes ops \<Longrightarrow> raid_in_range vr (a div vr_C vr) \<Longrightarrow>
       raid_content (vr\<lparr>vr_stripe_buffers := m'\<rparr>) (exec_ops ops' D) a
         = overwritten (raid_content vr D) (sb_next_lba sb * 4096) (replicate (flush_pad vr sb) 0) a"
    by (rule flush_zone_array[OF assms]) blast
  let ?m = "bt_remove zone (vr_stripe_buffers vr)"
  have st: "raid_state (vr\<lparr>vr_stripe_buffers := ?m\<rparr>)" by (rule drop_zone_state[OF assms(1)])
  have "raid_content (vr\<lparr>vr_stripe_buffers := ?m\<rparr>) D a = raid_content (vr\<lparr>vr_stripe_buffers := m'\<rparr>) D a" for D a
    by (rule raid_content_drop[OF st f(2-4)]) (simp_all add: bt_get_remove f(5))
  then have c: "raid_content (vr\<lparr>vr_stripe_buffers := ?m\<rparr>) (exec_ops ops' D) a
      = overwritten (raid_content vr D) (sb_next_lba sb * 4096) (replicate (flush_pad vr sb) 0) a"
    if "mset ops' = mset (ops @ map (\<lambda>d. DFinishZone d x y) ds) \<and> raid_in_range vr (a div vr_C vr)" for ops' D a x y ds
    using that f(6)[of ops' a D] writes_perm finish_writes[of x y ds] by (metis Un_empty_right writes_simps(3))
  show ?thesis
    by (intro exI conjI, rule finish_is_flush[OF f(1) assms(4) bd], rule st, simp add: bt_get_remove) (intro allI impI, rule c)
qed

theorem raid_finish_zone_array_witness:
  "\<exists>vr' ops. vr_finish_zone sum_ec (\<lambda>n. replicate n 0) (raid_5 [(0, sb_5 (replicate 4096 1))]) 0 = Some (vr', ops) \<and>
    (\<forall>D. raid_content vr' (exec_ops ops D) 126975 = 1 \<and> raid_content vr' (exec_ops ops D) 126976 = 0)"
proof -
  let ?vr = "raid_5 [(0, sb_5 (replicate 4096 1))]"
  have st: "raid_state ?vr" by (rule raid_5_state) simp_all
  have fp: "flush_pad ?vr (sb_5 (replicate 4096 1)) = 8192" by (simp add: flush_pad_def)
  have "raid_content ?vr D 126975 = 1" for D
    using raid_content_buffer[OF st, of 0 "sb_5 (replicate 4096 1)" 126975 D] by (simp add: sb_covers_def bt_get_Cons)
  moreover have "\<exists>vr' ops. vr_finish_zone sum_ec (\<lambda>n. replicate n 0) ?vr 0 = Some (vr', ops) \<and> raid_state vr' \<and>
      bt_get (vr_stripe_buffers vr') 0 = None \<and>
      (\<forall>ops' D a. mset ops' = mset ops \<and> raid_in_range ?vr (a div vr_C ?vr) \<longrightarrow> raid_content vr' (exec_ops ops' D) a
        = overwritten (raid_content ?vr D) (31 * 4096) (replicate 8192 0) a)"
    using raid_finish_zone_array[OF st sum_ec_bytewise, of "\<lambda>n. replicate n 0" 0 "sb_5 (replicate 4096 1)"]
    unfolding fp by (simp add: bt_get_Cons)
  ultimately show ?thesis
    by (elim exE conjE) (intro exI conjI allI, assumption, auto simp: overwritten_def)
qed



end
