(* ===== verification/Raid_Module.thy ===== *)
theory Raid_Module
  imports Raid_Array
begin

text \<open>
  \<open>bfffs/src/common/raid/vdev_onedisk.rs\<close> and \<open>bfffs/src/common/raid/mod.rs\<close>: the vdev of a cluster of one disk,
  and the functions that create and open either kind of vdev.
\<close>

section \<open>One disk\<close>

record OneDiskLabel =
  ol_uuid :: nat
  ol_child :: nat

record VdevOneDisk =
  od_blockdev :: VdevFile
  od_uuid :: nat

text \<open>\<open>disk\<close> is the outcome of \<open>VdevBlock::create\<close>, and \<open>uuid\<close> the new identifier.\<close>

definition od_create :: "VdevFile option \<Rightarrow> nat \<Rightarrow> VdevOneDisk option" where
  "od_create disk uuid = do {
     blockdev \<leftarrow> disk;
     Some \<lparr>od_blockdev = blockdev, od_uuid = uuid\<rparr>
   }"

definition od_open :: "OneDiskLabel \<Rightarrow> (nat \<times> VdevFile) list \<Rightarrow> VdevOneDisk option" where
  "od_open label blockdevs = do {
     assert_that (length blockdevs = 1);
     (_, blockdev) \<leftarrow> vec_get blockdevs 0;
     Some \<lparr>od_blockdev = blockdev, od_uuid = ol_uuid label\<rparr>
   }"

definition od_lba2zone :: "VdevOneDisk \<Rightarrow> LbaT \<Rightarrow> ZoneT option option" where
  "od_lba2zone od lba = vf_lba2zone (od_blockdev od) lba"

definition od_optimum_queue_depth :: "VdevOneDisk \<Rightarrow> nat" where
  "od_optimum_queue_depth od = vf_optimum_queue_depth (od_blockdev od)"

definition od_size :: "VdevOneDisk \<Rightarrow> LbaT" where
  "od_size od = vf_size (od_blockdev od)"

definition od_sync_all :: "VdevOneDisk \<Rightarrow> DiskOp list" where
  "od_sync_all od = [DSyncAll 0]"

definition od_zone_limits :: "VdevOneDisk \<Rightarrow> ZoneT \<Rightarrow> LbaT \<times> LbaT" where
  "od_zone_limits od zone = vf_zone_limits (od_blockdev od) zone"

definition od_zones :: "VdevOneDisk \<Rightarrow> ZoneT option" where
  "od_zones od = vf_zones (od_blockdev od)"

definition od_erase_zone :: "VdevOneDisk \<Rightarrow> ZoneT \<Rightarrow> DiskOp list" where
  "od_erase_zone od zone = (let limits = od_zone_limits od zone in [DEraseZone 0 (fst limits) (wsub 64 (snd limits) 1)])"

definition od_finish_zone :: "VdevOneDisk \<Rightarrow> ZoneT \<Rightarrow> DiskOp list" where
  "od_finish_zone od zone = (let limits = od_zone_limits od zone in [DFinishZone 0 (fst limits) (wsub 64 (snd limits) 1)])"

definition od_flush_zone :: "VdevOneDisk \<Rightarrow> ZoneT \<Rightarrow> LbaT \<times> DiskOp list" where
  "od_flush_zone od zone = (0, [])"

definition od_open_zone :: "VdevOneDisk \<Rightarrow> ZoneT \<Rightarrow> DiskOp list" where
  "od_open_zone od zone = (let limits = od_zone_limits od zone in [DOpenZone 0 (fst limits)])"

definition od_read_at :: "VdevOneDisk \<Rightarrow> MutBuf \<Rightarrow> LbaT \<Rightarrow> DiskOp list" where
  "od_read_at od buf lba = [DReadAt 0 buf lba]"

definition od_read_spacemap :: "VdevOneDisk \<Rightarrow> MutBuf \<Rightarrow> nat \<Rightarrow> DiskOp list" where
  "od_read_spacemap od buf idx = [DReadSpacemap 0 buf idx]"

definition od_reopen_zone :: "VdevOneDisk \<Rightarrow> ZoneT \<Rightarrow> LbaT \<Rightarrow> DiskOp list" where
  "od_reopen_zone od zone allocated = []"

definition od_write_at :: "VdevOneDisk \<Rightarrow> IoVec \<Rightarrow> ZoneT \<Rightarrow> LbaT \<Rightarrow> DiskOp list option" where
  "od_write_at od buf zone lba =
     (let partial = length buf mod BYTES_PER_LBA in
      if partial = 0 then Some [DWriteAt 0 buf lba]
      else do {
        let remainder = BYTES_PER_LBA - partial;
        zbuf \<leftarrow> slice_to ZERO_REGION remainder;
        let sglist = [buf, zbuf];
        Some [DWritevAt 0 sglist lba]
      })"

definition od_write_spacemap :: "VdevOneDisk \<Rightarrow> SGList \<Rightarrow> nat \<Rightarrow> LbaT \<Rightarrow> DiskOp list" where
  "od_write_spacemap od sglist idx block = [DWriteSpacemap 0 sglist idx block]"

section \<open>Labels\<close>

datatype ModLabel = LOneDisk OneDiskLabel | LRaid RaidLabel

fun iter_children :: "ModLabel \<Rightarrow> nat list" where
  "iter_children (LRaid l) = rl_children l"
| "iter_children (LOneDisk l) = [ol_child l]"

fun modlabel_uuid :: "ModLabel \<Rightarrow> nat" where
  "modlabel_uuid (LRaid l) = rl_uuid l"
| "modlabel_uuid (LOneDisk l) = ol_uuid l"

definition od_write_label :: "(ModLabel \<Rightarrow> byte list) \<Rightarrow> VdevOneDisk \<Rightarrow> LabelWriter \<Rightarrow> DiskOp list" where
  "od_write_label enc od labeller =
     (let onedisk_label = \<lparr>ol_uuid = od_uuid od, ol_child = vf_uuid (od_blockdev od)\<rparr>;
          label = LOneDisk onedisk_label;
          labeller = label_serialize enc labeller label
      in [DWriteLabel 0 labeller])"

section \<open>Creating and opening\<close>

datatype RaidVdev = VOneDisk VdevOneDisk | VRaid VdevRaid

text \<open>\<open>disks\<close>: the outcomes of \<open>VdevBlock::create\<close> on the paths.\<close>

fun unwrap_all :: "'a option list \<Rightarrow> 'a list option" where
  "unwrap_all [] = Some []"
| "unwrap_all (x # xs) = do { a \<leftarrow> x; as \<leftarrow> unwrap_all xs; Some (a # as) }"

definition vr_create ::
    "(nat \<Rightarrow> nat \<Rightarrow> byte list) \<Rightarrow> (nat \<Rightarrow> nat \<Rightarrow> byte list) \<Rightarrow> (nat \<Rightarrow> nat \<Rightarrow> byte list \<Rightarrow> byte list) \<Rightarrow>
       LbaT option \<Rightarrow> int \<Rightarrow> int \<Rightarrow> VdevFile option list \<Rightarrow> nat \<Rightarrow> VdevRaid option" where
  "vr_create rs cauchy init chunksize disks_per_stripe redundancy disks uuid = do {
     let num_disks = i16 (int (length disks));
     let (layout, chunksize) = choose_layout num_disks disks_per_stripe redundancy chunksize;
     blockdevs \<leftarrow> unwrap_all disks;
     vr_new rs cauchy init chunksize disks_per_stripe redundancy uuid layout blockdevs
   }"

definition raid_create ::
    "(nat \<Rightarrow> nat \<Rightarrow> byte list) \<Rightarrow> (nat \<Rightarrow> nat \<Rightarrow> byte list) \<Rightarrow> (nat \<Rightarrow> nat \<Rightarrow> byte list \<Rightarrow> byte list) \<Rightarrow>
       LbaT option \<Rightarrow> int \<Rightarrow> int \<Rightarrow> VdevFile option list \<Rightarrow> nat \<Rightarrow> RaidVdev option" where
  "raid_create rs cauchy init chunksize disks_per_stripe redundancy disks uuid =
     (if length disks = 1 then do {
        assert_that (disks_per_stripe = 1);
        assert_that (redundancy = 0);
        map_option VOneDisk (od_create (last disks) uuid)
      } else map_option VRaid (vr_create rs cauchy init chunksize disks_per_stripe redundancy disks uuid))"

text \<open>The loop of \<open>open\<close>: every label is read and checked, the first one is kept.\<close>

fun open_blockdevs ::
    "(byte list \<Rightarrow> (ModLabel \<times> nat) option) \<Rightarrow> nat option \<Rightarrow> (VdevFile \<times> LabelReader) list \<Rightarrow>
       (ModLabel \<times> LabelReader) option \<Rightarrow> (nat \<times> VdevFile) list \<Rightarrow>
       ((ModLabel \<times> LabelReader) option \<times> (nat \<times> VdevFile) list) option" where
  "open_blockdevs dec uuid [] label_pair devs = Some (label_pair, devs)"
| "open_blockdevs dec uuid ((vdev_block, label_reader) # rest) label_pair devs = do {
     let (l, label_reader) = label_deserialize dec label_reader;
     label \<leftarrow> l;
     assert_that (case uuid of None \<Rightarrow> True | Some u \<Rightarrow> u = modlabel_uuid label);
     let label_pair = (if label_pair = None then Some (label, label_reader) else label_pair);
     open_blockdevs dec uuid rest label_pair (bt_insert (vf_uuid vdev_block) vdev_block devs)
   }"

definition raid_open ::
    "(nat \<Rightarrow> nat \<Rightarrow> byte list) \<Rightarrow> (nat \<Rightarrow> nat \<Rightarrow> byte list) \<Rightarrow> (nat \<Rightarrow> nat \<Rightarrow> byte list \<Rightarrow> byte list) \<Rightarrow>
       (byte list \<Rightarrow> (ModLabel \<times> nat) option) \<Rightarrow> nat option \<Rightarrow> (VdevFile \<times> LabelReader) list \<Rightarrow>
       (RaidVdev \<times> LabelReader) option" where
  "raid_open rs cauchy init dec uuid combined = do {
     (label_pair, all_blockdevs) \<leftarrow> open_blockdevs dec uuid combined None [];
     (label, label_reader) \<leftarrow> label_pair;
     vdev \<leftarrow> (case label of
        LRaid l \<Rightarrow> map_option VRaid (vr_open rs cauchy init l all_blockdevs)
      | LOneDisk l \<Rightarrow> map_option VOneDisk (od_open l all_blockdevs));
     Some (vdev, label_reader)
   }"

section \<open>Lemmas\<close>

definition vr_label :: "VdevRaid \<Rightarrow> RaidLabel" where
  "vr_label vr = \<lparr>rl_uuid = vr_uuid vr, rl_chunksize = vr_chunksize vr,
     rl_disks_per_stripe = primes_stripesize (vr_locator vr), rl_redundancy = primes_protection (vr_locator vr),
     rl_layout_algorithm = vr_layout_algorithm vr, rl_children = map vf_uuid (vr_blockdevs vr)\<rparr>"

lemma vr_write_label_eq:
  "vr_write_label enc vr lw = map (\<lambda>d. DWriteLabel d (label_serialize enc lw (vr_label vr))) [0..<length (vr_blockdevs vr)]"
  by (simp add: vr_write_label_def vr_label_def)

definition device_map :: "VdevFile list \<Rightarrow> (nat \<times> VdevFile) list \<Rightarrow> (nat \<times> VdevFile) list" where
  "device_map bds m = fold (\<lambda>bd. bt_insert (vf_uuid bd) bd) bds m"

lemma device_map_simps [simp]:
  "device_map [] m = m" "device_map (bd # bds) m = device_map bds (bt_insert (vf_uuid bd) bd m)"
  by (simp_all add: device_map_def)

lemma device_map_ok: "bt_ok m \<Longrightarrow> bt_ok (device_map bds m)"
  by (induction bds arbitrary: m) (auto simp: bt_insert_ok)

lemma device_map_keys: "set (bt_keys (device_map bds m)) = vf_uuid ` set bds \<union> set (bt_keys m)"
  by (induction bds arbitrary: m) (auto simp: bt_insert_keys simp del: set_map)

lemma device_map_get:
  "distinct (map vf_uuid bds) \<Longrightarrow> bt_get (device_map bds m) u = (case find (\<lambda>bd. vf_uuid bd = u) bds of Some bd \<Rightarrow> Some bd | None \<Rightarrow> bt_get m u)"
proof (induction bds arbitrary: m)
  case (Cons bd bds)
  have "find (\<lambda>b. vf_uuid b = vf_uuid bd) bds = None"
    using Cons.prems by (simp add: find_None_iff) (metis image_eqI)
  then show ?case using Cons by (auto simp: bt_get_insert split: option.splits)
qed simp

lemma device_map_length:
  assumes "distinct (map vf_uuid bds)"
  shows "length (device_map bds []) = length bds"
proof -
  have "length (bt_keys (device_map bds [])) = card (set (bt_keys (device_map bds [])))"
    using distinct_card[OF bt_ok_distinct[OF device_map_ok[of "[]" bds]]] by simp
  also have "\<dots> = length bds" unfolding device_map_keys using distinct_card[OF assms] by simp
  finally show ?thesis by simp
qed

lemma take_children_all:
  "distinct (map vf_uuid bds) \<Longrightarrow> (\<And>bd. bd \<in> set bds \<Longrightarrow> bt_get m (vf_uuid bd) = Some bd) \<Longrightarrow> take_children (map vf_uuid bds) m = Some bds"
proof (induction bds arbitrary: m)
  case (Cons bd bds)
  have "take_children (map vf_uuid bds) (bt_remove (vf_uuid bd) m) = Some bds"
  proof (rule Cons.IH)
    fix b assume b: "b \<in> set bds"
    then have "vf_uuid b \<noteq> vf_uuid bd" using Cons.prems(1) by (simp, metis image_eqI)
    then show "bt_get (bt_remove (vf_uuid bd) m) (vf_uuid b) = Some b" using Cons.prems(2) b by (simp add: bt_get_remove)
  qed (use Cons.prems in simp)
  then show ?case using Cons.prems(2) by simp
qed simp

lemma open_blockdevs_all:
  assumes "\<And>rest. dec (lab @ rest) = Some (l, length lab)" "u = None \<or> u = Some (modlabel_uuid l)"
  shows "(\<forall>(bd, lr) \<in> set combined. \<exists>rest. drop (lr_pos lr) (lr_buf lr) = lab @ rest) \<Longrightarrow>
    \<exists>pair'. open_blockdevs dec u combined pair devs = Some (pair', device_map (map fst combined) devs) \<and>
      (\<forall>p. pair = Some p \<longrightarrow> pair' = Some p) \<and> (pair = None \<longrightarrow> combined \<noteq> [] \<longrightarrow> (\<exists>lr. pair' = Some (l, lr)))"
proof (induction combined arbitrary: pair devs)
  case (Cons x combined)
  obtain bd lr where x: "x = (bd, lr)" by (cases x)
  obtain rest where "drop (lr_pos lr) (lr_buf lr) = lab @ rest" using Cons.prems x by auto
  then have d: "label_deserialize dec lr = (Some l, lr\<lparr>lr_pos := lr_pos lr + length lab\<rparr>)"
    using assms(1) by (simp add: label_deserialize_def)
  have a: "(case u of None \<Rightarrow> True | Some u \<Rightarrow> u = modlabel_uuid l) = True" using assms(2) by auto
  let ?p = "if pair = None then Some (l, lr\<lparr>lr_pos := lr_pos lr + length lab\<rparr>) else pair"
  obtain pair' where p: "open_blockdevs dec u combined ?p (bt_insert (vf_uuid bd) bd devs)
      = Some (pair', device_map (map fst combined) (bt_insert (vf_uuid bd) bd devs))" "\<forall>p. ?p = Some p \<longrightarrow> pair' = Some p"
    using Cons.IH[of ?p "bt_insert (vf_uuid bd) bd devs"] Cons.prems by auto
  then show ?case by (cases pair) (auto simp: x d a)
qed auto

section \<open>Properties\<close>



end
