(* ===== verification/Cache.thy ===== *)
theory Cache
  imports Common "HOL-Library.Monad_Syntax"
begin

text \<open>
  \<open>bfffs/src/common/cache/cache.rs\<close>: the block cache. Its entries form a doubly linked list in the order of their
  last use, whose links are keys of the hash table that stores the entries. \<open>len\<close>, \<open>eqf\<close> and \<open>mkref\<close> are the
  methods \<open>len\<close>, \<open>eq\<close> and \<open>make_ref\<close> (with the downcast to the type that the caller asks for) of the trait
  \<open>Cacheable\<close>.

  The second half shows that the cache is a least-recently-used cache: a list of the cached blocks, from the
  least to the most recently used one.
\<close>

section \<open>The cache\<close>

type_synonym RID = nat

datatype CacheKey = Rid RID | KPBA PBA

record 'b LruEntry =
  le_buf :: 'b
  le_lru :: "CacheKey option"
  le_mru :: "CacheKey option"

record 'b Cache =
  ca_capacity :: nat
  ca_lru :: "CacheKey option"
  ca_mru :: "CacheKey option"
  ca_size :: nat
  ca_store :: "CacheKey \<rightharpoonup> 'b LruEntry"

definition cache_with_capacity :: "nat \<Rightarrow> 'b Cache" where
  "cache_with_capacity capacity = \<lparr>ca_capacity = capacity, ca_lru = None, ca_mru = None, ca_size = 0, ca_store = Map.empty\<rparr>"

definition cache_drop :: "'b Cache \<Rightarrow> 'b Cache" where
  "cache_drop c = c\<lparr>ca_store := Map.empty, ca_lru := None, ca_mru := None, ca_size := 0\<rparr>"

text \<open>\<open>store.get_mut(&k).unwrap()\<close>, followed by an assignment to the entry.\<close>

definition modify :: "CacheKey \<Rightarrow> ('b LruEntry \<Rightarrow> 'b LruEntry) \<Rightarrow> (CacheKey \<rightharpoonup> 'b LruEntry) \<Rightarrow> (CacheKey \<rightharpoonup> 'b LruEntry) option" where
  "modify k f store = do { e \<leftarrow> store k; Some (store(k \<mapsto> f e)) }"

definition cache_remove :: "('b \<Rightarrow> nat) \<Rightarrow> CacheKey \<Rightarrow> 'b Cache \<Rightarrow> ('b option \<times> 'b Cache) option" where
  "cache_remove len key c =
     (case ca_store c key of
        None \<Rightarrow> Some (None, c)
      | Some v \<Rightarrow> do {
          let store = (ca_store c)(key := None);
          let size = wsub 64 (ca_size c) (len (le_buf v));
          (store, mru) \<leftarrow> (case le_mru v of
             Some k \<Rightarrow> do { s \<leftarrow> modify k (le_lru_update (\<lambda>_. le_lru v)) store; Some (s, ca_mru c) }
           | None \<Rightarrow> Some (store, le_lru v));
          (store, lru) \<leftarrow> (case le_lru v of
             Some k \<Rightarrow> do { s \<leftarrow> modify k (le_mru_update (\<lambda>_. le_mru v)) store; Some (s, ca_lru c) }
           | None \<Rightarrow> Some (store, le_mru v));
          Some (Some (le_buf v), c\<lparr>ca_store := store, ca_size := size, ca_mru := mru, ca_lru := lru\<rparr>)
        })"

definition cache_expire :: "('b \<Rightarrow> nat) \<Rightarrow> 'b Cache \<Rightarrow> 'b Cache option" where
  "cache_expire len c = do {
     key \<leftarrow> ca_lru c;
     (_, c) \<leftarrow> cache_remove len key c;
     Some c
   }"

definition cache_get :: "('b \<Rightarrow> 'r option) \<Rightarrow> CacheKey \<Rightarrow> 'b Cache \<Rightarrow> ('r option \<times> 'b Cache) option" where
  "cache_get mkref key c =
     (if ca_mru c = Some key then do {
        v \<leftarrow> ca_store c key;
        r \<leftarrow> mkref (le_buf v);
        Some (Some r, c)
      } else
        (let mru = ca_mru c in
         case ca_store c key of
           None \<Rightarrow> Some (None, c)
         | Some v \<Rightarrow> do {
             let store = (ca_store c)(key \<mapsto> v\<lparr>le_mru := None, le_lru := mru\<rparr>);
             r \<leftarrow> mkref (le_buf v);
             v_mru \<leftarrow> le_mru v;
             store \<leftarrow> modify v_mru (le_lru_update (\<lambda>_. le_lru v)) store;
             (store, lru) \<leftarrow> (case le_lru v of
                Some k \<Rightarrow> do { s \<leftarrow> modify k (le_mru_update (\<lambda>_. le_mru v)) store; Some (s, ca_lru c) }
              | None \<Rightarrow> Some (store, le_mru v));
             store \<leftarrow> (case mru of
                Some k \<Rightarrow> modify k (le_mru_update (\<lambda>_. Some key)) store
              | None \<Rightarrow> Some store);
             Some (Some r, c\<lparr>ca_store := store, ca_lru := lru, ca_mru := Some key\<rparr>)
           }))"

definition cache_get_ref :: "('b \<Rightarrow> 'r) \<Rightarrow> CacheKey \<Rightarrow> 'b Cache \<Rightarrow> 'r option" where
  "cache_get_ref mkref key c = map_option (\<lambda>v. mkref (le_buf v)) (ca_store c key)"

text \<open>\<open>while self.size + buf.len() > self.capacity { self.expire() }\<close>\<close>

partial_function (option) expire_while :: "('b \<Rightarrow> nat) \<Rightarrow> nat \<Rightarrow> 'b Cache \<Rightarrow> 'b Cache option" where
  "expire_while len n c =
     (if u64 (ca_size c + n) > ca_capacity c then cache_expire len c \<bind> expire_while len n else Some c)"

definition cache_insert :: "('b \<Rightarrow> nat) \<Rightarrow> ('b \<Rightarrow> 'b \<Rightarrow> bool) \<Rightarrow> CacheKey \<Rightarrow> 'b \<Rightarrow> 'b Cache \<Rightarrow> 'b Cache option" where
  "cache_insert len eqf key buf c = do {
     c \<leftarrow> expire_while len (len buf) c;
     let c = c\<lparr>ca_size := u64 (ca_size c + len buf)\<rparr>;
     let entry = \<lparr>le_buf = buf, le_lru = ca_mru c, le_mru = None\<rparr>;
     case ca_store c key of
       Some old_entry \<Rightarrow> do {
         assert_that (eqf (le_buf old_entry) (le_buf entry));
         Some (c\<lparr>ca_store := (ca_store c)(key \<mapsto> old_entry)\<rparr>)
       }
     | None \<Rightarrow> do {
         let store = (ca_store c)(key \<mapsto> entry);
         let store = (case ca_mru c of
            None \<Rightarrow> store
          | Some k \<Rightarrow> (case store k of Some v \<Rightarrow> store(k \<mapsto> v\<lparr>le_mru := Some key\<rparr>) | None \<Rightarrow> store));
         Some (c\<lparr>ca_store := store, ca_mru := Some key, ca_lru := (case ca_lru c of None \<Rightarrow> Some key | Some k \<Rightarrow> Some k)\<rparr>)
       }
   }"

section \<open>The linked list\<close>

definition first_key :: "CacheKey list \<Rightarrow> CacheKey option \<Rightarrow> CacheKey option" where
  "first_key ks n = (case ks of [] \<Rightarrow> n | k # _ \<Rightarrow> Some k)"

definition last_key :: "CacheKey option \<Rightarrow> CacheKey list \<Rightarrow> CacheKey option" where
  "last_key p ks = (if ks = [] then p else Some (last ks))"

lemma end_keys [simp]:
  "first_key [] n = n" "first_key (k # ks) n = Some k" "last_key p [] = p" "last_key p (k # ks) = last_key (Some k) ks"
  "last_key p (ks @ [k]) = Some k"
  by (simp_all add: first_key_def last_key_def)

lemma last_key_append [simp]: "last_key p (xs @ ys) = last_key (last_key p xs) ys"
  by (simp add: last_key_def)

lemma first_key_append [simp]: "first_key (xs @ ys) n = first_key xs (first_key ys n)"
  by (cases xs) simp_all

text \<open>\<open>linked s p xs n\<close>: in the table \<open>s\<close>, the entries \<open>xs\<close> (keys and blocks, from the least recently used one) are chained
  between the neighbours \<open>p\<close> and \<open>n\<close>.\<close>

fun linked :: "(CacheKey \<rightharpoonup> 'b LruEntry) \<Rightarrow> CacheKey option \<Rightarrow> (CacheKey \<times> 'b) list \<Rightarrow> CacheKey option \<Rightarrow> bool" where
  "linked s p [] n \<longleftrightarrow> True"
| "linked s p ((k, b) # xs) n \<longleftrightarrow> s k = Some \<lparr>le_buf = b, le_lru = p, le_mru = first_key (map fst xs) n\<rparr> \<and> linked s (Some k) xs n"

lemma linked_append [simp]:
  "linked s p (xs @ ys) n \<longleftrightarrow> linked s p xs (first_key (map fst ys) n) \<and> linked s (last_key p (map fst xs)) ys n"
proof (induction xs arbitrary: p)
  case (Cons x xs)
  obtain k b where "x = (k, b)" by (cases x)
  then show ?case using Cons by auto
qed simp

lemma linked_cong: "(\<And>k. k \<in> set (map fst xs) \<Longrightarrow> s' k = s k) \<Longrightarrow> linked s p xs n \<Longrightarrow> linked s' p xs n"
proof (induction xs arbitrary: p)
  case (Cons x xs)
  obtain k b where "x = (k, b)" by (cases x)
  then show ?case using Cons by auto
qed simp

lemma linked_update [simp]: "k \<notin> set (map fst xs) \<Longrightarrow> linked s p xs n \<Longrightarrow> linked (s(k := v)) p xs n"
  by (erule linked_cong[rotated]) auto

lemma linked_dom: "linked s p xs n \<Longrightarrow> k \<in> set (map fst xs) \<Longrightarrow> s k \<noteq> None"
proof (induction xs arbitrary: p)
  case (Cons x xs)
  obtain j b where "x = (j, b)" by (cases x)
  then show ?case using Cons by auto
qed simp

text \<open>Relinking the last and the first entry of a chain.\<close>

lemma relink_last:
  assumes "linked s p (xs @ [(k, b)]) n" "k \<notin> set (map fst xs)"
  shows "\<exists>e. s k = Some e \<and> linked (s(k \<mapsto> e\<lparr>le_mru := n'\<rparr>)) p (xs @ [(k, b)]) n'"
  using assms by auto

lemma relink_first:
  assumes "linked s p ((k, b) # xs) n" "k \<notin> set (map fst xs)"
  shows "\<exists>e. s k = Some e \<and> linked (s(k \<mapsto> e\<lparr>le_lru := p'\<rparr>)) p' ((k, b) # xs) n"
  using assms by auto

definition cache_list :: "'b Cache \<Rightarrow> (CacheKey \<times> 'b) list \<Rightarrow> bool" where
  "cache_list c xs \<longleftrightarrow> distinct (map fst xs) \<and> (\<forall>k. ca_store c k = None \<longleftrightarrow> k \<notin> set (map fst xs)) \<and> linked (ca_store c) None xs None \<and>
     ca_lru c = first_key (map fst xs) None \<and> ca_mru c = last_key None (map fst xs)"

lemma cache_list_find: "cache_list c xs \<Longrightarrow> map_of xs k = map_option le_buf (ca_store c k)"
proof -
  have "linked s p xs n \<Longrightarrow> distinct (map fst xs) \<Longrightarrow> k \<in> set (map fst xs) \<Longrightarrow> map_of xs k = map_option le_buf (s k)" for s p n
  proof (induction xs arbitrary: p)
    case (Cons x xs)
    obtain j b where "x = (j, b)" by (cases x)
    then show ?case using Cons by auto
  qed simp
  moreover assume "cache_list c xs"
  ultimately show ?thesis by (cases "k \<in> set (map fst xs)") (auto simp: cache_list_def map_of_eq_None_iff[THEN iffD2])
qed

lemma remove_spec:
  assumes "cache_list c (as @ (k, b) # bs)"
  shows "\<exists>c'. cache_remove len k c = Some (Some b, c') \<and> cache_list c' (as @ bs) \<and>
    ca_size c' = wsub 64 (ca_size c) (len b) \<and> ca_capacity c' = ca_capacity c"
proof (cases as rule: rev_cases)
  case Nil
  then show ?thesis using assms by (cases bs) (auto simp: cache_remove_def cache_list_def modify_def)
next
  case (snoc as' a)
  obtain ka ba where "a = (ka, ba)" by (cases a)
  then show ?thesis using assms snoc by (cases bs) (auto simp: cache_remove_def cache_list_def modify_def)
qed

lemma get_spec:
  assumes "cache_list c (as @ (k, b) # bs)" "mkref b = Some r"
  shows "\<exists>c'. cache_get mkref k c = Some (Some r, c') \<and> cache_list c' (as @ bs @ [(k, b)]) \<and>
    ca_size c' = ca_size c \<and> ca_capacity c' = ca_capacity c"
proof (cases bs)
  case Nil
  then show ?thesis using assms by (auto simp: cache_get_def cache_list_def)
next
  case (Cons x bs')
  obtain k1 b1 where x: "x = (k1, b1)" by (cases x)
  show ?thesis
  proof (cases as rule: rev_cases; cases bs' rule: rev_cases)
    fix ys y assume "bs' = ys @ [y]" "as = []"
    moreover obtain ky bby where "y = (ky, bby)" by (cases y)
    ultimately show ?thesis using assms Cons x by (auto simp: cache_get_def cache_list_def modify_def Let_def)
  next
    fix zs z assume "as = zs @ [z]" "bs' = []"
    moreover obtain kz bz where "z = (kz, bz)" by (cases z)
    ultimately show ?thesis using assms Cons x by (auto simp: cache_get_def cache_list_def modify_def Let_def)
  next
    fix zs z ys y assume "as = zs @ [z]" "bs' = ys @ [y]"
    moreover obtain ky bby where "y = (ky, bby)" by (cases y)
    moreover obtain kz bz where "z = (kz, bz)" by (cases z)
    ultimately show ?thesis using assms Cons x by (auto simp: cache_get_def cache_list_def modify_def Let_def)
  qed (use assms Cons x in \<open>auto simp: cache_get_def cache_list_def modify_def Let_def\<close>)
qed

lemma absent_store: "cache_list c xs \<Longrightarrow> k \<notin> set (map fst xs) \<Longrightarrow> ca_store c k = None"
  by (simp add: cache_list_def)

lemma get_absent: "cache_list c xs \<Longrightarrow> k \<notin> set (map fst xs) \<Longrightarrow> cache_get mkref k c = Some (None, c)"
proof -
  assume c: "cache_list c xs" "k \<notin> set (map fst xs)"
  then have "ca_mru c \<noteq> Some k" using last_in_set[of "map fst xs"] by (auto simp: cache_list_def last_key_def simp del: set_map last_in_set)
  then show ?thesis using absent_store[OF c] by (simp add: cache_get_def)
qed

lemma remove_absent: "cache_list c xs \<Longrightarrow> k \<notin> set (map fst xs) \<Longrightarrow> cache_remove len k c = Some (None, c)"
  using absent_store[of c xs k] by (simp add: cache_remove_def)

text \<open>Making room: entries are dropped from the least recently used end.\<close>

definition bytes :: "('b \<Rightarrow> nat) \<Rightarrow> (CacheKey \<times> 'b) list \<Rightarrow> nat" where
  "bytes len xs = sum_list (map (\<lambda>(k, b). len b) xs)"

lemma bytes_simps [simp]:
  "bytes len [] = 0" "bytes len ((k, b) # xs) = len b + bytes len xs" "bytes len (xs @ ys) = bytes len xs + bytes len ys"
  by (simp_all add: bytes_def)

fun evict :: "('b \<Rightarrow> nat) \<Rightarrow> nat \<Rightarrow> nat \<Rightarrow> (CacheKey \<times> 'b) list \<Rightarrow> (CacheKey \<times> 'b) list" where
  "evict len cap n [] = []"
| "evict len cap n (x # xs) = (if bytes len (x # xs) + n > cap then evict len cap n xs else x # xs)"

lemma evict_suffix: "\<exists>ys. xs = ys @ evict len cap n xs"
proof (induction xs)
  case (Cons x xs)
  then obtain ys where "xs = ys @ evict len cap n xs" by blast
  then have "x # xs = (x # ys) @ evict len cap n xs" by simp
  then show ?case by (metis append_Nil evict.simps(2))
qed simp

lemma evict_bytes: "n \<le> cap \<Longrightarrow> bytes len (evict len cap n xs) + n \<le> cap"
  by (induction xs) auto

lemma expire_while_spec:
  assumes "ca_capacity c < 2 ^ 63" "n \<le> ca_capacity c"
  shows "cache_list c xs \<Longrightarrow> ca_size c = bytes len xs \<Longrightarrow> bytes len xs < 2 ^ 63 \<Longrightarrow>
    \<exists>c'. expire_while len n c = Some c' \<and> cache_list c' (evict len (ca_capacity c) n xs) \<and>
      ca_size c' = bytes len (evict len (ca_capacity c) n xs) \<and> ca_capacity c' = ca_capacity c"
  using assms
proof (induction xs arbitrary: c)
  case Nil
  then show ?case by (subst expire_while.simps) (simp add: wrapu_id)
next
  case (Cons x xs)
  obtain k b where x: "x = (k, b)" by (cases x)
  have w: "u64 (ca_size c + n) = ca_size c + n" using Cons.prems by (intro wrapu_id) simp
  show ?case
  proof (cases "bytes len (x # xs) + n > ca_capacity c")
    case True
    obtain c1 where c1: "cache_remove len k c = Some (Some b, c1)" "cache_list c1 xs"
        "ca_size c1 = wsub 64 (ca_size c) (len b)" "ca_capacity c1 = ca_capacity c"
      using remove_spec[of c "[]" k b xs len] Cons.prems(1) x by auto
    have s1: "ca_size c1 = bytes len xs" using c1(3) Cons.prems(2,3) x by (simp add: wsub_id)
    have "ca_lru c = Some k" using Cons.prems(1) x by (simp add: cache_list_def)
    then have "cache_expire len c = Some c1" using c1(1) by (simp add: cache_expire_def)
    moreover obtain c' where "expire_while len n c1 = Some c'" "cache_list c' (evict len (ca_capacity c1) n xs)"
        "ca_size c' = bytes len (evict len (ca_capacity c1) n xs)" "ca_capacity c' = ca_capacity c1"
      using Cons.IH[OF c1(2) s1] Cons.prems(3-5) x c1(4) by auto
    ultimately show ?thesis using True c1(4) w Cons.prems(2) by (subst expire_while.simps) simp
  next
    case False
    then show ?thesis using Cons.prems w by (subst expire_while.simps) simp
  qed
qed

lemma insert_spec:
  assumes cl: "cache_list c xs" "ca_size c = bytes len xs" "bytes len xs < 2 ^ 63" "ca_capacity c < 2 ^ 63" "len b \<le> ca_capacity c"
    and new: "k \<notin> set (map fst (evict len (ca_capacity c) (len b) xs))"
  shows "\<exists>c'. cache_insert len eqf k b c = Some c' \<and> cache_list c' (evict len (ca_capacity c) (len b) xs @ [(k, b)]) \<and>
    ca_size c' = bytes len (evict len (ca_capacity c) (len b) xs @ [(k, b)]) \<and> ca_capacity c' = ca_capacity c"
proof -
  let ?ys = "evict len (ca_capacity c) (len b) xs"
  obtain c1 where c1: "expire_while len (len b) c = Some c1" "cache_list c1 ?ys" "ca_size c1 = bytes len ?ys" "ca_capacity c1 = ca_capacity c"
    using expire_while_spec[OF cl(4,5,1,2,3)] by blast
  have u: "u64 (ca_size c1 + len b) = bytes len ?ys + len b" using c1(3) evict_bytes[OF cl(5), of len xs] cl(4) by (simp add: wrapu_id)
  have st: "ca_store c1 k = None" by (rule absent_store[OF c1(2) new])
  show ?thesis
  proof (cases ?ys rule: rev_cases)
    case Nil
    then show ?thesis using c1 u new st by (auto simp: cache_insert_def cache_list_def Let_def)
  next
    case (snoc zs z)
    obtain kz bz where "z = (kz, bz)" by (cases z)
    then have ys: "?ys = zs @ [(kz, bz)]" using snoc by simp
    obtain e where e: "ca_mru c1 = Some kz" "ca_store c1 kz = Some e" "e = \<lparr>le_buf = bz, le_lru = last_key None (map fst zs), le_mru = None\<rparr>"
      and f: "ca_lru c1 = first_key (map fst zs) (Some kz)" "k \<noteq> kz"
      using c1(2) new unfolding ys cache_list_def by auto
    obtain f' where f': "ca_lru c1 = Some f'" using f(1) by (cases zs) auto
    let ?c = "c1\<lparr>ca_size := bytes len ?ys + len b, ca_store := (ca_store c1)(k \<mapsto> \<lparr>le_buf = b, le_lru = Some kz, le_mru = None\<rparr>, kz \<mapsto> e\<lparr>le_mru := Some k\<rparr>),
      ca_mru := Some k, ca_lru := Some f'\<rparr>"
    have "cache_insert len eqf k b c = Some ?c" using c1(1) u st e(1,2) f' f(2) by (simp add: cache_insert_def Let_def)
    moreover have "cache_list ?c (?ys @ [(k, b)])" using c1(2) new e(3) f f' unfolding ys by (auto simp: cache_list_def)
    ultimately show ?thesis using c1(4) by auto
  qed
qed

end
