(* ===== verification/Cache_Correct.thy ===== *)
theory Cache_Correct
  imports Cache
begin

text \<open>
  What the clients of the cache rely on, as a locale, and the correctness of the cache: every sequence of operations behaves
  as on a list of the cached blocks in the order of their last use.
\<close>

section \<open>The contract of a cache\<close>

text \<open>
  A cache may forget a block at any time to make room for another one, but it never makes one up. \<open>coherent\<close> is
  the client's view: whatever is cached is what the client would read from the disk (\<open>truth\<close>).
\<close>

locale block_cache =
  fixes ok :: "'c \<Rightarrow> bool" and content :: "'c \<Rightarrow> 'k \<rightharpoonup> 'b" and room :: "'c \<Rightarrow> 'b \<Rightarrow> bool"
    and get :: "'k \<Rightarrow> 'c \<Rightarrow> ('b option \<times> 'c) option"
    and remove :: "'k \<Rightarrow> 'c \<Rightarrow> ('b option \<times> 'c) option"
    and put :: "'k \<Rightarrow> 'b \<Rightarrow> 'c \<Rightarrow> 'c option"
  assumes get_ok: "ok c \<Longrightarrow> \<exists>c'. get k c = Some (content c k, c') \<and> ok c' \<and> content c' = content c \<and> room c' = room c"
    and remove_ok: "ok c \<Longrightarrow> \<exists>c'. remove k c = Some (content c k, c') \<and> ok c' \<and> content c' = (content c)(k := None) \<and> room c' = room c"
    and put_ok: "ok c \<Longrightarrow> room c b \<Longrightarrow> content c k = None \<Longrightarrow>
      \<exists>c'. put k b c = Some c' \<and> ok c' \<and> content c' k = Some b \<and> content c' \<subseteq>\<^sub>m (content c)(k \<mapsto> b) \<and> room c' = room c"
begin

definition coherent :: "('k \<rightharpoonup> 'b) \<Rightarrow> 'c \<Rightarrow> bool" where
  "coherent truth c \<longleftrightarrow> ok c \<and> content c \<subseteq>\<^sub>m truth"

lemma coherent_get:
  assumes "coherent truth c"
  shows "\<exists>r c'. get k c = Some (r, c') \<and> coherent truth c' \<and> (\<forall>b. r = Some b \<longrightarrow> truth k = Some b) \<and> r = content c k \<and> room c' = room c \<and> content c' = content c"
  using get_ok[of c k] assms by (fastforce simp: coherent_def map_le_def dom_def)

lemma coherent_remove:
  assumes "coherent truth c"
  shows "\<exists>r c'. remove k c = Some (r, c') \<and> coherent (truth(k := None)) c' \<and> (\<forall>b. r = Some b \<longrightarrow> truth k = Some b) \<and> r = content c k \<and> room c' = room c"
  using remove_ok[of c k] assms by (fastforce simp: coherent_def map_le_def dom_def)

lemma coherent_put:
  assumes "coherent truth c" "content c k = None" "room c b"
  shows "\<exists>c'. put k b c = Some c' \<and> coherent (truth(k \<mapsto> b)) c' \<and> room c' = room c"
proof -
  obtain c' where c': "put k b c = Some c'" "ok c'" "content c' \<subseteq>\<^sub>m (content c)(k \<mapsto> b)" "room c' = room c"
    using put_ok[of c b k] assms by (auto simp: coherent_def)
  moreover have "(content c)(k \<mapsto> b) \<subseteq>\<^sub>m truth(k \<mapsto> b)" using assms(1) by (auto simp: coherent_def map_le_def)
  ultimately show ?thesis unfolding coherent_def using map_le_trans by blast
qed

end

section \<open>The cache fulfils the contract\<close>

definition cache_ok :: "('b \<Rightarrow> nat) \<Rightarrow> 'b Cache \<Rightarrow> bool" where
  "cache_ok len c \<longleftrightarrow> (\<exists>xs. cache_list c xs \<and> ca_size c = bytes len xs \<and> bytes len xs < 2 ^ 63 \<and> ca_capacity c < 2 ^ 63)"

definition cache_content :: "'b Cache \<Rightarrow> CacheKey \<rightharpoonup> 'b" where
  "cache_content c k = map_option le_buf (ca_store c k)"

lemma cache_content_list: "cache_list c xs \<Longrightarrow> cache_content c = map_of xs"
  using cache_list_find by (fastforce simp: cache_content_def)

lemma map_of_split:
  assumes "distinct (map fst xs)" "k \<in> set (map fst xs)"
  obtains as b bs where "xs = as @ (k, b) # bs" "k \<notin> set (map fst (as @ bs))"
proof -
  obtain b where "(k, b) \<in> set xs" using assms(2) by auto
  then obtain as bs where "xs = as @ (k, b) # bs" by (auto simp: in_set_conv_decomp)
  then show thesis using that assms(1) by auto
qed

lemma filter_absent: "k \<notin> set (map fst xs) \<Longrightarrow> filter (\<lambda>(j, _). j \<noteq> k) xs = xs"
  by (rule filter_True) force

lemma filter_split: "k \<notin> set (map fst (as @ bs)) \<Longrightarrow> filter (\<lambda>(j, _). j \<noteq> k) (as @ (k, b) # bs) = as @ bs"
  using filter_absent[of k as] filter_absent[of k bs] by simp

lemma map_of_filter: "map_of (filter (\<lambda>(j, _). j \<noteq> k) xs) = (map_of xs)(k := None)"
  by (induction xs) auto

lemma get_list:
  assumes "cache_list c xs"
  shows "\<exists>c'. cache_get Some k c = Some (map_of xs k, c') \<and> ca_size c' = ca_size c \<and> ca_capacity c' = ca_capacity c \<and>
    cache_list c' (case map_of xs k of None \<Rightarrow> xs | Some b \<Rightarrow> filter (\<lambda>(j, _). j \<noteq> k) xs @ [(k, b)])"
proof (cases "k \<in> set (map fst xs)")
  case True
  have d: "distinct (map fst xs)" using assms by (simp add: cache_list_def)
  obtain as b bs where x: "xs = as @ (k, b) # bs" "k \<notin> set (map fst (as @ bs))" by (rule map_of_split[OF d True])
  have "map_of xs k = Some b" using x d by (auto simp: map_add_def map_of_eq_None_iff[THEN iffD2])
  then show ?thesis using get_spec[of c as k b bs Some b] assms filter_split[OF x(2)] unfolding x(1) by auto
next
  case False
  then show ?thesis using get_absent[OF assms False, of Some] assms by (auto simp: map_of_eq_None_iff[THEN iffD2])
qed

lemma remove_list:
  assumes "cache_list c xs" "ca_size c = bytes len xs" "bytes len xs < 2 ^ 63"
  shows "\<exists>c'. cache_remove len k c = Some (map_of xs k, c') \<and> ca_capacity c' = ca_capacity c \<and>
    cache_list c' (filter (\<lambda>(j, _). j \<noteq> k) xs) \<and> ca_size c' = bytes len (filter (\<lambda>(j, _). j \<noteq> k) xs)"
proof (cases "k \<in> set (map fst xs)")
  case True
  have d: "distinct (map fst xs)" using assms by (simp add: cache_list_def)
  obtain as b bs where x: "xs = as @ (k, b) # bs" "k \<notin> set (map fst (as @ bs))" by (rule map_of_split[OF d True])
  have "map_of xs k = Some b" using x d by (auto simp: map_add_def map_of_eq_None_iff[THEN iffD2])
  then show ?thesis using remove_spec[of c as k b bs len] assms filter_split[OF x(2)] unfolding x(1) by (auto simp: wsub_id)
next
  case False
  then show ?thesis using remove_absent[OF assms(1) False] filter_absent[OF False] assms False by (simp add: map_of_eq_None_iff[THEN iffD2])
qed

lemma bytes_filter: "bytes len (filter P xs) \<le> bytes len xs"
  by (induction xs) auto

lemma bytes_move: "distinct (map fst xs) \<Longrightarrow> map_of xs k = Some b \<Longrightarrow> bytes len (filter (\<lambda>(j, _). j \<noteq> k) xs @ [(k, b)]) = bytes len xs"
proof -
  assume d: "distinct (map fst xs)" and m: "map_of xs k = Some b"
  have "k \<in> set (map fst xs)" using map_of_SomeD[OF m] by force
  then obtain as b' bs where x: "xs = as @ (k, b') # bs" "k \<notin> set (map fst (as @ bs))" by (rule map_of_split[OF d])
  have "b' = b" using m x d by (auto simp: map_add_def map_of_eq_None_iff[THEN iffD2])
  then show ?thesis using filter_split[OF x(2)] x(1) by simp
qed

interpretation bc: block_cache "cache_ok len" cache_content "\<lambda>c b. len b \<le> ca_capacity c" "cache_get Some" "cache_remove len"
  "cache_insert len (=)" for len :: "'b \<Rightarrow> nat"
proof
  fix c :: "'b Cache" and k b
  assume "cache_ok len c"
  then obtain xs where xs: "cache_list c xs" "ca_size c = bytes len xs" "bytes len xs < 2 ^ 63" "ca_capacity c < 2 ^ 63"
    by (auto simp: cache_ok_def)
  have cc: "cache_content c = map_of xs" by (rule cache_content_list[OF xs(1)])
  have d: "distinct (map fst xs)" using xs(1) by (simp add: cache_list_def)
  let ?ys = "case map_of xs k of None \<Rightarrow> xs | Some b \<Rightarrow> filter (\<lambda>(j, _). j \<noteq> k) xs @ [(k, b)]"
  obtain c' where c': "cache_get Some k c = Some (map_of xs k, c')" "ca_size c' = ca_size c" "ca_capacity c' = ca_capacity c" "cache_list c' ?ys"
    using get_list[OF xs(1)] by blast
  have "bytes len ?ys = bytes len xs" using bytes_move[OF d] by (auto split: option.split)
  moreover have "map_of ?ys = map_of xs" by (auto simp: map_of_filter map_add_def fun_eq_iff split: option.splits)
  ultimately show "\<exists>c'. cache_get Some k c = Some (cache_content c k, c') \<and> cache_ok len c' \<and> cache_content c' = cache_content c
      \<and> (\<lambda>b. len b \<le> ca_capacity c') = (\<lambda>b. len b \<le> ca_capacity c)"
    using c' xs cc cache_content_list[OF c'(4)] by (auto simp: cache_ok_def)
  obtain c' where r: "cache_remove len k c = Some (map_of xs k, c')" "ca_capacity c' = ca_capacity c"
      "cache_list c' (filter (\<lambda>(j, _). j \<noteq> k) xs)" "ca_size c' = bytes len (filter (\<lambda>(j, _). j \<noteq> k) xs)"
    using remove_list[OF xs(1-3)] by blast
  then show "\<exists>c'. cache_remove len k c = Some (cache_content c k, c') \<and> cache_ok len c' \<and> cache_content c' = (cache_content c)(k := None)
      \<and> (\<lambda>b. len b \<le> ca_capacity c') = (\<lambda>b. len b \<le> ca_capacity c)"
    using xs(3,4) le_less_trans[OF bytes_filter[of len "\<lambda>(j, _). j \<noteq> k" xs], of "2 ^ 63"] cache_content_list[OF r(3)]
    unfolding cc cache_ok_def map_of_filter by (intro exI[of _ c']) auto
  assume room: "len b \<le> ca_capacity c" and new: "cache_content c k = None"
  obtain ys where ys: "xs = ys @ evict len (ca_capacity c) (len b) xs" using evict_suffix by blast
  let ?e = "evict len (ca_capacity c) (len b) xs"
  have nk: "k \<notin> set (map fst xs)" using new cc by (simp add: map_of_eq_None_iff)
  moreover have "set (map fst ?e) \<subseteq> set (map fst xs)" by (subst (2) ys) auto
  ultimately have ne: "k \<notin> set (map fst ?e)" by blast
  obtain c' where i: "cache_insert len (=) k b c = Some c'" "cache_list c' (?e @ [(k, b)])" "ca_size c' = bytes len (?e @ [(k, b)])" "ca_capacity c' = ca_capacity c"
    using insert_spec[OF xs room ne] by blast
  have "map_of (?e @ [(k, b)]) = (map_of ?e)(k \<mapsto> b)" using ne by (auto simp: map_add_def fun_eq_iff map_of_eq_None_iff[THEN iffD2] split: option.splits)
  moreover have "map_of ?e \<subseteq>\<^sub>m map_of xs"
  proof -
    have "distinct (map fst ys @ map fst ?e)" using d by (subst (asm) ys) simp
    then have "map_of ?e \<subseteq>\<^sub>m map_of (ys @ ?e)"
      by (force simp: map_le_def map_add_def dom_def dest!: map_of_SomeD split: option.splits)
    then show ?thesis using ys by simp
  qed
  moreover have "bytes len (?e @ [(k, b)]) \<le> ca_capacity c" using evict_bytes[OF room] by simp
  ultimately show "\<exists>c'. cache_insert len (=) k b c = Some c' \<and> cache_ok len c' \<and> cache_content c' k = Some b \<and>
      cache_content c' \<subseteq>\<^sub>m (cache_content c)(k \<mapsto> b) \<and> (\<lambda>b. len b \<le> ca_capacity c') = (\<lambda>b. len b \<le> ca_capacity c)"
    using i xs(4) cc cache_content_list[OF i(2)] by (auto simp: cache_ok_def map_le_def)
qed

section \<open>Properties\<close>

text \<open>The operations of a client, on the cache and on the list that it refines.\<close>

datatype 'b CacheOp = CGet CacheKey | CInsert CacheKey 'b | CRemove CacheKey | CDrop

fun cache_step :: "('b \<Rightarrow> nat) \<Rightarrow> 'b CacheOp \<Rightarrow> 'b Cache \<Rightarrow> ('b option \<times> 'b Cache) option" where
  "cache_step len (CGet k) c = cache_get Some k c"
| "cache_step len (CInsert k b) c = map_option (Pair None) (cache_insert len (=) k b c)"
| "cache_step len (CRemove k) c = cache_remove len k c"
| "cache_step len CDrop c = Some (None, cache_drop c)"

fun lru_step :: "('b \<Rightarrow> nat) \<Rightarrow> nat \<Rightarrow> 'b CacheOp \<Rightarrow> (CacheKey \<times> 'b) list \<Rightarrow> 'b option \<times> (CacheKey \<times> 'b) list" where
  "lru_step len cap (CGet k) xs =
     (map_of xs k, case map_of xs k of None \<Rightarrow> xs | Some b \<Rightarrow> filter (\<lambda>(j, _). j \<noteq> k) xs @ [(k, b)])"
| "lru_step len cap (CInsert k b) xs = (None, evict len cap (len b) xs @ [(k, b)])"
| "lru_step len cap (CRemove k) xs = (map_of xs k, filter (\<lambda>(j, _). j \<noteq> k) xs)"
| "lru_step len cap CDrop xs = (None, [])"

fun cache_run :: "('b \<Rightarrow> nat) \<Rightarrow> 'b CacheOp list \<Rightarrow> 'b Cache \<Rightarrow> ('b option list \<times> 'b Cache) option" where
  "cache_run len [] c = Some ([], c)"
| "cache_run len (op # ops) c = do {
     (r, c) \<leftarrow> cache_step len op c;
     (rs, c) \<leftarrow> cache_run len ops c;
     Some (r # rs, c)
   }"

fun lru_run :: "('b \<Rightarrow> nat) \<Rightarrow> nat \<Rightarrow> 'b CacheOp list \<Rightarrow> (CacheKey \<times> 'b) list \<Rightarrow> 'b option list \<times> (CacheKey \<times> 'b) list" where
  "lru_run len cap [] xs = ([], xs)"
| "lru_run len cap (op # ops) xs =
     (let (r, xs) = lru_step len cap op xs; (rs, xs) = lru_run len cap ops xs in (r # rs, xs))"

text \<open>A client inserts blocks that fit into the cache, under keys that are not in the cache.\<close>

fun fair :: "('b \<Rightarrow> nat) \<Rightarrow> nat \<Rightarrow> 'b CacheOp list \<Rightarrow> (CacheKey \<times> 'b) list \<Rightarrow> bool" where
  "fair len cap [] xs \<longleftrightarrow> True"
| "fair len cap (op # ops) xs \<longleftrightarrow>
     (case op of CInsert k b \<Rightarrow> len b \<le> cap \<and> k \<notin> set (map fst xs) | _ \<Rightarrow> True) \<and> fair len cap ops (snd (lru_step len cap op xs))"

lemma evict_keys: "set (map fst (evict len cap n xs)) \<subseteq> set (map fst xs)"
  by (induction xs) auto

lemma step_list:
  assumes "cache_list c xs" "ca_size c = bytes len xs" "bytes len xs \<le> ca_capacity c" "ca_capacity c < 2 ^ 63" "fair len (ca_capacity c) [op] xs"
  shows "\<exists>c'. cache_step len op c = Some (fst (lru_step len (ca_capacity c) op xs), c') \<and>
    cache_list c' (snd (lru_step len (ca_capacity c) op xs)) \<and> ca_size c' = bytes len (snd (lru_step len (ca_capacity c) op xs)) \<and>
    bytes len (snd (lru_step len (ca_capacity c) op xs)) \<le> ca_capacity c \<and> ca_capacity c' = ca_capacity c"
proof (cases op)
  case (CGet k)
  have "distinct (map fst xs)" using assms(1) by (simp add: cache_list_def)
  then have "bytes len (case map_of xs k of None \<Rightarrow> xs | Some b \<Rightarrow> filter (\<lambda>(j, _). j \<noteq> k) xs @ [(k, b)]) = bytes len xs"
    using bytes_move[of xs k] by (cases "map_of xs k") (simp, simp only: option.case)
  then show ?thesis using get_list[OF assms(1), of k] assms(2,3) unfolding CGet by auto
next
  case (CInsert k b)
  have "k \<notin> set (map fst xs)" using assms(5) CInsert by simp
  then have "k \<notin> set (map fst (evict len (ca_capacity c) (len b) xs))" using evict_keys by blast
  then show ?thesis using insert_spec[OF assms(1,2) _ assms(4), of b k "(=)"] assms(3,4,5) evict_bytes[of "len b" "ca_capacity c" len xs]
    unfolding CInsert by auto
next
  case (CRemove k)
  then show ?thesis using remove_list[OF assms(1,2), of k] assms(3,4) order_trans[OF bytes_filter assms(3)] by auto
next
  case CDrop
  then show ?thesis by (simp add: cache_drop_def cache_list_def)
qed

lemma run_list:
  "cache_list c xs \<Longrightarrow> ca_size c = bytes len xs \<Longrightarrow> bytes len xs \<le> ca_capacity c \<Longrightarrow> ca_capacity c < 2 ^ 63 \<Longrightarrow> fair len (ca_capacity c) ops xs \<Longrightarrow>
    \<exists>c'. cache_run len ops c = Some (fst (lru_run len (ca_capacity c) ops xs), c') \<and> cache_list c' (snd (lru_run len (ca_capacity c) ops xs)) \<and>
      ca_size c' = bytes len (snd (lru_run len (ca_capacity c) ops xs)) \<and> ca_size c' \<le> ca_capacity c"
proof (induction ops arbitrary: c xs)
  case (Cons op ops)
  let ?s = "lru_step len (ca_capacity c) op xs"
  have f: "fair len (ca_capacity c) [op] xs" "fair len (ca_capacity c) ops (snd ?s)" using Cons.prems(5) by simp_all
  obtain c1 where c1: "cache_step len op c = Some (fst ?s, c1)" "cache_list c1 (snd ?s)" "ca_size c1 = bytes len (snd ?s)"
      "bytes len (snd ?s) \<le> ca_capacity c" "ca_capacity c1 = ca_capacity c"
    using step_list[OF Cons.prems(1-4) f(1)] by blast
  show ?case using Cons.IH[OF c1(2,3)] c1 f(2) Cons.prems(4) by (auto simp: split_beta Let_def)
qed simp




end
