(* ===== verification/Dml.thy ===== *)
theory Dml
  imports Common "HOL-Library.Monad_Syntax"
begin

text \<open>
  \<open>bfffs/src/common/dml.rs\<close>: compression, and the trait \<open>DML\<close>, the interface of a data management layer to the trees
  above it. The records are trees' nodes or plain buffers (\<open>'n\<close>), their addresses are of the type \<open>'a\<close>.

  The compressor is the external library Blosc: \<open>blosc\<close> compresses with a compressor and an element size, \<open>unblosc\<close>
  is its inverse.
\<close>

section \<open>Compression\<close>

datatype Compression = CNone | LZ4 "nat option" | Zstd "nat option"

definition is_compressed :: "Compression \<Rightarrow> bool" where
  "is_compressed c \<longleftrightarrow> c \<noteq> CNone"

fun shuffle :: "Compression \<Rightarrow> nat option" where
  "shuffle CNone = None"
| "shuffle (LZ4 s) = s"
| "shuffle (Zstd s) = s"

definition compress :: "(Compression \<Rightarrow> IoVec \<Rightarrow> IoVec) \<Rightarrow> Compression \<Rightarrow> IoVec \<Rightarrow> (IoVec \<times> Compression) option" where
  "compress blosc c input =
     (let lsize = length input in
      if c = CNone \<or> lsize \<le> BYTES_PER_LBA then Some (input, CNone)
      else do {
        let dbs = blosc c input;
        compressed_lbas \<leftarrow> div_roundup 64 (length dbs) BYTES_PER_LBA;
        uncompressed_lbas \<leftarrow> div_roundup 64 lsize BYTES_PER_LBA;
        Some (if compressed_lbas < uncompressed_lbas then (dbs, c) else (input, CNone))
      })"

text \<open>\<open>decompress\<close> panics if Blosc rejects its input.\<close>

definition decompress :: "(IoVec \<Rightarrow> IoVec option) \<Rightarrow> IoVec \<Rightarrow> IoVec option" where
  "decompress unblosc input = unblosc input"

definition decode :: "(IoVec \<Rightarrow> IoVec option) \<Rightarrow> bool \<Rightarrow> IoVec \<Rightarrow> IoVec option" where
  "decode unblosc compressed input = (if compressed then decompress unblosc input else Some input)"

lemma div_roundup_lbas: "n < 2 ^ 63 \<Longrightarrow> div_roundup 64 n BYTES_PER_LBA = Some ((n + 4095) div 4096)"
  using div_roundup_eq[of 4096 n 64] by (simp add: BYTES_PER_LBA_def)

text \<open>Compression pays in blocks or is not used at all, and decompression undoes it.\<close>

lemma compress_spec:
  assumes "unblosc (blosc c input) = Some input" "0 < length (blosc c input) \<and> length (blosc c input) < 2 ^ 63" "length input < 2 ^ 63"
  shows "\<exists>out c'. compress blosc c input = Some (out, c') \<and> decode unblosc (is_compressed c') out = Some input \<and>
    (c' = c \<or> c' = CNone) \<and> length out \<le> length input \<and> (0 < length input \<longrightarrow> 0 < length out) \<and>
    (c' \<noteq> CNone \<longrightarrow> (length out + 4095) div 4096 < (length input + 4095) div 4096)"
proof -
  have "m \<le> n" if "(m + 4095) div 4096 < (n + 4095) div 4096" for m n :: nat
    using that by (rule_tac ccontr) (metis div_le_mono add_le_mono1 nat_le_linear not_le)
  then show ?thesis
    using assms by (auto simp: compress_def decode_def decompress_def is_compressed_def div_roundup_lbas Let_def)
qed

section \<open>The interface\<close>

record ('d, 'a, 'n) Dml =
  dml_delete :: "'d \<Rightarrow> 'a \<Rightarrow> TxgT \<Rightarrow> (unit result \<times> 'd) option"
  dml_get :: "'d \<Rightarrow> 'a \<Rightarrow> ('n result \<times> 'd) option"
  dml_pop :: "'d \<Rightarrow> 'a \<Rightarrow> TxgT \<Rightarrow> ('n result \<times> 'd) option"
  dml_put :: "'d \<Rightarrow> 'n \<Rightarrow> Compression \<Rightarrow> TxgT \<Rightarrow> ('a result \<times> 'd) option"

text \<open>
  What the trees rely on: \<open>rep d L\<close> says that the state \<open>d\<close> holds the records \<open>L\<close>. Reading returns a record, \<open>pop\<close>
  returns and frees it, \<open>put\<close> stores a record, if it \<open>fits\<close>, at an address that was free; an operation that fails changes nothing.
\<close>

locale dml_laws =
  fixes dml :: "('d, 'a, 'n) Dml" and rep :: "'d \<Rightarrow> ('a \<rightharpoonup> 'n) \<Rightarrow> bool" and fits :: "'n \<Rightarrow> bool"
  assumes get_law: "rep d L \<Longrightarrow> L a = Some n \<Longrightarrow>
      \<exists>r d'. dml_get dml d a = Some (r, d') \<and> rep d' L \<and> (\<forall>n'. r = Inr n' \<longrightarrow> n' = n)"
    and pop_law: "rep d L \<Longrightarrow> L a = Some n \<Longrightarrow>
      \<exists>r d' L'. dml_pop dml d a txg = Some (r, d') \<and> rep d' L' \<and>
        (case r of Inr n' \<Rightarrow> n' = n \<and> L' = L(a := None) | Inl _ \<Rightarrow> L' = L)"
    and delete_law: "rep d L \<Longrightarrow> L a = Some n \<Longrightarrow>
      \<exists>r d' L'. dml_delete dml d a txg = Some (r, d') \<and> rep d' L' \<and>
        (case r of Inr _ \<Rightarrow> L' = L(a := None) | Inl _ \<Rightarrow> L' = L)"
    and put_law: "rep d L \<Longrightarrow> fits n \<Longrightarrow>
      \<exists>r d' L'. dml_put dml d n c txg = Some (r, d') \<and> rep d' L' \<and>
        (case r of Inr a \<Rightarrow> L a = None \<and> L' = L(a \<mapsto> n) | Inl _ \<Rightarrow> L' = L)"

end
