(* ===== verification/Pool.thy ===== *)
theory Pool
  imports Label Cluster_Correct
begin

text \<open>
  \<open>bfffs/src/common/pool.rs\<close>: a pool spreads its data over clusters. The servers of the source only pass the
  calls to the thread of the cluster; here the pool calls the clusters.

  Below each cluster is a vdev, whose geometry is \<open>zl i\<close> and \<open>lz i\<close> for the cluster \<open>i\<close>. A disk is what the vdev holds: its blocks,
  and the faults that its next operations will meet. The weights of the clusters are floating point numbers: \<open>weight\<close> gives them as far
  as their order matters, and \<open>None\<close> for not-a-number.
\<close>

section \<open>The vdev of a cluster\<close>

text \<open>A fault fails an operation, and leaves some other content in the blocks that it should have written.\<close>

record Disk =
  dk_blocks :: "LbaT \<Rightarrow> IoVec"
  dk_faults :: "(error \<times> (LbaT \<Rightarrow> IoVec)) option list"
  dk_erase_faults :: "error option list"

definition lba_pad_block :: "IoVec \<Rightarrow> IoVec" where
  "lba_pad_block b = b @ replicate (BYTES_PER_LBA - length b) 0"

definition put_blocks :: "LbaT \<Rightarrow> IoVec \<Rightarrow> (LbaT \<Rightarrow> IoVec) \<Rightarrow> LbaT \<Rightarrow> IoVec" where
  "put_blocks lba buf f x =
     (if lba \<le> x \<and> x < lba + blocks_of buf then lba_pad_block (take BYTES_PER_LBA (drop (BYTES_PER_LBA * (x - lba)) buf)) else f x)"

definition overwrite :: "LbaT \<Rightarrow> nat \<Rightarrow> (LbaT \<Rightarrow> IoVec) \<Rightarrow> (LbaT \<Rightarrow> IoVec) \<Rightarrow> LbaT \<Rightarrow> IoVec" where
  "overwrite lba n g f x = (if lba \<le> x \<and> x < lba + n then g x else f x)"

fun disk_op :: "(ZoneT \<Rightarrow> LbaT \<times> LbaT) \<Rightarrow> VdevOp \<Rightarrow> Disk \<Rightarrow> unit result \<times> Disk" where
  "disk_op zl (VEraseZone z) dk =
     (let (l, r) = zl z; blocks = overwrite l (r - l) (\<lambda>_. replicate BYTES_PER_LBA 0) (dk_blocks dk) in
      case dk_erase_faults dk of
        Some e # fs \<Rightarrow> (Inl e, dk\<lparr>dk_erase_faults := fs\<rparr>)
      | None # fs \<Rightarrow> (Inr (), dk\<lparr>dk_erase_faults := fs, dk_blocks := blocks\<rparr>)
      | [] \<Rightarrow> (Inr (), dk\<lparr>dk_blocks := blocks\<rparr>))"
| "disk_op zl (VWriteAt buf z lba) dk =
     (case dk_faults dk of
        Some (e, g) # fs \<Rightarrow> (Inl e, dk\<lparr>dk_faults := fs, dk_blocks := overwrite lba (blocks_of buf) g (dk_blocks dk)\<rparr>)
      | None # fs \<Rightarrow> (Inr (), dk\<lparr>dk_faults := fs, dk_blocks := put_blocks lba buf (dk_blocks dk)\<rparr>)
      | [] \<Rightarrow> (Inr (), dk\<lparr>dk_blocks := put_blocks lba buf (dk_blocks dk)\<rparr>))"
| "disk_op zl _ dk =
     (case dk_faults dk of
        Some (e, g) # fs \<Rightarrow> (Inl e, dk\<lparr>dk_faults := fs\<rparr>)
      | None # fs \<Rightarrow> (Inr (), dk\<lparr>dk_faults := fs\<rparr>)
      | [] \<Rightarrow> (Inr (), dk))"

text \<open>The futures of one call: all of them run, and the first error is the error of the call.\<close>

fun disk_ops :: "(ZoneT \<Rightarrow> LbaT \<times> LbaT) \<Rightarrow> VdevOp list \<Rightarrow> Disk \<Rightarrow> unit result \<times> Disk" where
  "disk_ops zl [] dk = (Inr (), dk)"
| "disk_ops zl (p # ps) dk =
     (case disk_op zl p dk of
        (r, dk) \<Rightarrow> case disk_ops zl ps dk of (r', dk) \<Rightarrow> (case r of Inl e \<Rightarrow> Inl e | Inr _ \<Rightarrow> r', dk))"

definition disk_read :: "LbaT \<Rightarrow> nat \<Rightarrow> Disk \<Rightarrow> IoVec result \<times> Disk" where
  "disk_read lba n dk =
     (let bytes = concat (map (dk_blocks dk) [lba..<lba + n]) in
      case dk_faults dk of
        Some (e, g) # fs \<Rightarrow> (Inl e, dk\<lparr>dk_faults := fs\<rparr>)
      | None # fs \<Rightarrow> (Inr bytes, dk\<lparr>dk_faults := fs\<rparr>)
      | [] \<Rightarrow> (Inr bytes, dk))"

section \<open>Pools\<close>

record PoolClosedZone =
  pcz_freed_blocks :: LbaT
  pcz_pba :: PBA
  pcz_total_blocks :: LbaT
  pcz_txgs :: txg_range
  pcz_zid :: ZoneT

record Stats =
  st_queue_depth :: "nat list"
  st_size :: "LbaT list"
  st_allocated_space :: "LbaT list"

definition stats_allocated :: "Stats \<Rightarrow> LbaT" where
  "stats_allocated s = fold (\<lambda>a b. u64 (b + a)) (st_allocated_space s) 0"

definition stats_size :: "Stats \<Rightarrow> LbaT" where
  "stats_size s = fold (\<lambda>a b. u64 (b + a)) (st_size s) 0"

text \<open>\<open>min_by\<close> keeps the first minimum; the comparison with not-a-number panics.\<close>

fun min_by_weight :: "(nat \<Rightarrow> int option) \<Rightarrow> nat \<Rightarrow> nat list \<Rightarrow> nat option" where
  "min_by_weight weight best [] = Some best"
| "min_by_weight weight best (i # is) = do {
     x \<leftarrow> weight best;
     y \<leftarrow> weight i;
     min_by_weight weight (if y < x then i else best) is
   }"

definition choose_cluster :: "(Stats \<Rightarrow> nat \<Rightarrow> int option) \<Rightarrow> Stats \<Rightarrow> ClusterT option" where
  "choose_cluster weight s =
     (case [0..<length (st_size s)] of
        [] \<Rightarrow> None
      | i # is \<Rightarrow> map_option u16 (min_by_weight (weight s) i is))"

record Pool =
  pl_clusters :: "(Cluster \<times> Disk) list"
  pl_name :: string
  pl_stats :: Stats
  pl_uuid :: nat

definition vec_modify :: "'x list \<Rightarrow> nat \<Rightarrow> ('x \<Rightarrow> 'x) \<Rightarrow> 'x list option" where
  "vec_modify xs i f = (if i < length xs then Some (xs[i := f (xs ! i)]) else None)"

definition stats_queue :: "nat \<Rightarrow> (nat \<Rightarrow> nat) \<Rightarrow> Pool \<Rightarrow> Pool option" where
  "stats_queue i f p = do {
     q \<leftarrow> vec_modify (st_queue_depth (pl_stats p)) i f;
     Some (p\<lparr>pl_stats := (pl_stats p)\<lparr>st_queue_depth := q\<rparr>\<rparr>)
   }"

definition stats_space :: "nat \<Rightarrow> (nat \<Rightarrow> nat) \<Rightarrow> Pool \<Rightarrow> Pool option" where
  "stats_space i f p = do {
     a \<leftarrow> vec_modify (st_allocated_space (pl_stats p)) i f;
     Some (p\<lparr>pl_stats := (pl_stats p)\<lparr>st_allocated_space := a\<rparr>\<rparr>)
   }"

text \<open>\<open>sizes\<close> are the sizes that the vdevs report.\<close>

definition pool_new :: "string \<Rightarrow> nat \<Rightarrow> LbaT list \<Rightarrow> (Cluster \<times> Disk) list \<Rightarrow> Pool" where
  "pool_new name uuid sizes clusters =
     \<lparr>pl_clusters = clusters, pl_name = name,
      pl_stats = \<lparr>st_queue_depth = map (\<lambda>_. 0) clusters, st_size = sizes,
        st_allocated_space = map (\<lambda>(c, _). cluster_allocated c) clusters\<rparr>,
      pl_uuid = uuid\<rparr>"

definition pool_allocated :: "Pool \<Rightarrow> LbaT" where
  "pool_allocated p = stats_allocated (pl_stats p)"

definition pool_size :: "Pool \<Rightarrow> LbaT" where
  "pool_size p = stats_size (pl_stats p)"

definition pool_free ::
    "(nat \<Rightarrow> ZoneT \<Rightarrow> LbaT \<times> LbaT) \<Rightarrow> (nat \<Rightarrow> LbaT \<Rightarrow> ZoneT option) \<Rightarrow> Pool \<Rightarrow> PBA \<Rightarrow> LbaT \<Rightarrow> (unit result \<times> Pool) option" where
  "pool_free zl lz p pba len = do {
     let idx = pba_cluster pba;
     p \<leftarrow> stats_space idx (\<lambda>a. wsub 64 a len) p;
     (c, dk) \<leftarrow> vec_get (pl_clusters p) idx;
     (c, ops) \<leftarrow> cluster_free (lz idx) c (pba_lba pba) len;
     let (r, dk) = disk_ops (zl idx) ops dk;
     Some (r, p\<lparr>pl_clusters := (pl_clusters p)[idx := (c, dk)]\<rparr>)
   }"

definition pool_read :: "Pool \<Rightarrow> nat \<Rightarrow> PBA \<Rightarrow> (IoVec result \<times> Pool) option" where
  "pool_read p n pba = do {
     let cidx = pba_cluster pba;
     p \<leftarrow> stats_queue cidx (\<lambda>q. u32 (q + 1)) p;
     (c, dk) \<leftarrow> vec_get (pl_clusters p) cidx;
     let (r, dk) = disk_read (pba_lba pba) n dk;
     p \<leftarrow> stats_queue cidx (\<lambda>q. wsub 32 q 1) (p\<lparr>pl_clusters := (pl_clusters p)[cidx := (c, dk)]\<rparr>);
     Some (r, p)
   }"

text \<open>\<open>Write::poll\<close>, when the write of the cluster has ended.\<close>

definition write_outcome :: "nat \<Rightarrow> LbaT \<Rightarrow> LbaT result \<Rightarrow> Pool \<Rightarrow> (PBA result \<times> Pool) option" where
  "write_outcome cidx space r p = do {
     p \<leftarrow> stats_queue cidx (\<lambda>q. wsub 32 q 1) p;
     case r of
       Inl e \<Rightarrow> Some (Inl e, p)
     | Inr lba \<Rightarrow> do {
         p \<leftarrow> stats_space cidx (\<lambda>a. u64 (a + space)) p;
         Some (Inr (PBA cidx lba), p)
       }
   }"

definition pool_write ::
    "(nat \<Rightarrow> ZoneT \<Rightarrow> LbaT \<times> LbaT) \<Rightarrow> (Stats \<Rightarrow> nat \<Rightarrow> int option) \<Rightarrow> Pool \<Rightarrow> IoVec \<Rightarrow> TxgT \<Rightarrow> (PBA result \<times> Pool) option" where
  "pool_write zl weight p buf txg = do {
     cidx \<leftarrow> choose_cluster weight (pl_stats p);
     p \<leftarrow> stats_queue cidx (\<lambda>q. u32 (q + 1)) p;
     space \<leftarrow> div_roundup 64 (length buf) BYTES_PER_LBA;
     (c, dk) \<leftarrow> vec_get (pl_clusters p) cidx;
     (r, c, ops) \<leftarrow> cluster_write (zl cidx) c buf txg;
     let (r, dk) = (case r of
         Inl e \<Rightarrow> (Inl e, snd (disk_ops (zl cidx) ops dk))
       | Inr lba \<Rightarrow> (case disk_ops (zl cidx) ops dk of (w, dk) \<Rightarrow> (case w of Inl e \<Rightarrow> Inl e | Inr _ \<Rightarrow> Inr lba, dk)));
     write_outcome cidx space r (p\<lparr>pl_clusters := (pl_clusters p)[cidx := (c, dk)]\<rparr>)
   }"

text \<open>\<open>gap i\<close> is what the vdev of the cluster \<open>i\<close> reports for its zones; the flushes of all clusters run, and the first error is returned.\<close>

fun flush_clusters ::
    "(nat \<Rightarrow> ZoneOnDisk list \<Rightarrow> nat) \<Rightarrow> (SpacemapOnDisk \<Rightarrow> byte list) \<Rightarrow> (nat \<Rightarrow> ZoneT \<Rightarrow> LbaT \<times> LbaT) \<Rightarrow> (nat \<Rightarrow> ZoneT \<Rightarrow> LbaT) \<Rightarrow> nat \<Rightarrow>
       nat \<Rightarrow> (Cluster \<times> Disk) list \<Rightarrow> (unit result \<times> (Cluster \<times> Disk) list) option" where
  "flush_clusters zhash enc zl gap idx i [] = Some (Inr (), [])"
| "flush_clusters zhash enc zl gap idx i ((c, dk) # cs) = do {
     (c, ops) \<leftarrow> cluster_flush zhash enc (gap i) c idx;
     let (r, dk) = disk_ops (zl i) ops dk;
     (r', cs) \<leftarrow> flush_clusters zhash enc zl gap idx (i + 1) cs;
     Some (case r of Inl e \<Rightarrow> Inl e | Inr _ \<Rightarrow> r', (c, dk) # cs)
   }"

definition pool_flush ::
    "(nat \<Rightarrow> ZoneOnDisk list \<Rightarrow> nat) \<Rightarrow> (SpacemapOnDisk \<Rightarrow> byte list) \<Rightarrow> (nat \<Rightarrow> ZoneT \<Rightarrow> LbaT \<times> LbaT) \<Rightarrow> (nat \<Rightarrow> ZoneT \<Rightarrow> LbaT) \<Rightarrow>
       Pool \<Rightarrow> nat \<Rightarrow> (unit result \<times> Pool) option" where
  "pool_flush zhash enc zl gap p idx = do {
     (r, cs) \<leftarrow> flush_clusters zhash enc zl gap idx 0 (pl_clusters p);
     Some (r, p\<lparr>pl_clusters := cs\<rparr>)
   }"

definition pool_assert_clean_zone :: "Pool \<Rightarrow> ClusterT \<Rightarrow> ZoneT \<Rightarrow> TxgT \<Rightarrow> unit option" where
  "pool_assert_clean_zone p cluster zone txg = do {
     (c, _) \<leftarrow> vec_get (pl_clusters p) cluster;
     cluster_assert_clean_zone c zone txg
   }"

section \<open>Opening a pool\<close>

record PoolLabel =
  plb_name :: string
  plb_uuid :: nat
  plb_children :: "nat list"

text \<open>
  The clusters come with their UUIDs and the labels of their devices (\<open>None\<close> if it cannot be read), in the order in which they were found.
  \<open>size_of\<close> is the size that the vdev of a cluster reports.
\<close>

fun pool_children :: "(nat \<rightharpoonup> 'c) \<Rightarrow> nat list \<Rightarrow> 'c list option" where
  "pool_children all [] = Some []"
| "pool_children all (u # us) = do {
     c \<leftarrow> all u;
     cs \<leftarrow> pool_children (all(u := None)) us;
     Some (c # cs)
   }"

fun read_labels :: "nat option \<Rightarrow> (nat \<times> 'c \<times> PoolLabel option) list \<Rightarrow> PoolLabel option \<Rightarrow> (nat \<rightharpoonup> 'c) \<Rightarrow> (PoolLabel option \<times> (nat \<rightharpoonup> 'c)) option" where
  "read_labels uuid [] pair all = Some (pair, all)"
| "read_labels uuid ((u, c, l) # combined) pair all = do {
     label \<leftarrow> l;
     assert_that (case uuid of Some v \<Rightarrow> v = plb_uuid label | None \<Rightarrow> True);
     read_labels uuid combined (if pair = None then Some label else pair) (all(u \<mapsto> c))
   }"

definition pool_open ::
    "(Cluster \<times> Disk \<Rightarrow> LbaT) \<Rightarrow> nat option \<Rightarrow> (nat \<times> (Cluster \<times> Disk) \<times> PoolLabel option) list \<Rightarrow> (Pool \<times> PoolLabel) option" where
  "pool_open size_of uuid combined = do {
     (pair, all) \<leftarrow> read_labels uuid combined None Map.empty;
     label \<leftarrow> pair;
     assert_that (card (dom all) = length (plb_children label));
     children \<leftarrow> pool_children all (plb_children label);
     Some (pool_new (plb_name label) (plb_uuid label) (map size_of children) children, label)
   }"

definition pool_find_closed_zone ::
    "(nat \<Rightarrow> ZoneT \<Rightarrow> LbaT \<times> LbaT) \<Rightarrow> Pool \<Rightarrow> ClusterT \<Rightarrow> ZoneT \<Rightarrow> (PoolClosedZone option \<times> (ClusterT \<times> ZoneT) option) option" where
  "pool_find_closed_zone zl p clust zid = do {
     let nclusters = u16 (length (pl_clusters p));
     (c, _) \<leftarrow> vec_get (pl_clusters p) clust;
     case cluster_find_closed_zone (zl clust) c zid of
       Some cclz \<Rightarrow>
         Some (Some \<lparr>pcz_freed_blocks = cz_freed_blocks cclz, pcz_pba = PBA clust (cz_start cclz), pcz_total_blocks = cz_total_blocks cclz,
                 pcz_txgs = cz_txgs cclz, pcz_zid = cz_zid cclz\<rparr>, Some (clust, u32 (cz_zid cclz + 1)))
     | None \<Rightarrow> Some (None, if clust < wsub 16 nclusters 1 then Some (u16 (clust + 1), 0) else None)
   }"

end
