(* ===== verification/Pool_Correct.thy ===== *)
theory Pool_Correct
  imports Pool
begin

text \<open>
  The blocks of live extents keep their content: a write puts the data in blocks that no client holds, a free erases only zones that
  no client uses, and a failing disk damages nothing but the blocks of the failed write.
\<close>

section \<open>Disks\<close>

lemma length_pad_block: "length b \<le> BYTES_PER_LBA \<Longrightarrow> length (lba_pad_block b) = BYTES_PER_LBA"
  by (simp add: lba_pad_block_def)

lemma put_blocks_read: "take (length buf) (concat (map (put_blocks lba buf f) [lba..<lba + blocks_of buf])) = buf"
proof -
  have "concat (map (put_blocks lba buf f) [lba..<lba + n]) = take (n * BYTES_PER_LBA) buf @ replicate (n * BYTES_PER_LBA - length buf) 0"
    if "n \<le> blocks_of buf" for n
    using that
  proof (induction n)
    case (Suc n)
    let ?B = BYTES_PER_LBA
    have n: "n * ?B < length buf" using Suc.prems by (simp add: blocks_of_def BYTES_PER_LBA_def)
    have pb: "put_blocks lba buf f (lba + n) = lba_pad_block (take ?B (drop (n * ?B) buf))"
      using Suc.prems by (simp add: put_blocks_def mult.commute)
    have "take (n * ?B + ?B) buf = take (n * ?B) buf @ take ?B (drop (n * ?B) buf)" by (simp add: take_add)
    then show ?case
      using Suc n pb by (simp add: lba_pad_block_def add.commute min_def)
  qed simp
  from this[of "blocks_of buf"] show ?thesis by (simp add: blocks_of_def BYTES_PER_LBA_def)
qed

definition quiet_op :: "VdevOp \<Rightarrow> bool" where
  "quiet_op p \<longleftrightarrow> (case p of VFinishZone _ \<Rightarrow> True | VOpenZone _ \<Rightarrow> True | _ \<Rightarrow> False)"

lemma quiet_op_blocks: "quiet_op p \<Longrightarrow> dk_blocks (snd (disk_op zl p dk)) = dk_blocks dk \<and> dk_erase_faults (snd (disk_op zl p dk)) = dk_erase_faults dk"
  by (cases p) (auto simp: quiet_op_def split: list.split option.split)

lemma disk_ops_append: "disk_ops zl (ps @ qs) dk =
    (case disk_ops zl ps dk of (r, dk1) \<Rightarrow> case disk_ops zl qs dk1 of (r', dk2) \<Rightarrow> (case r of Inl e \<Rightarrow> Inl e | Inr _ \<Rightarrow> r', dk2))"
  by (induction ps arbitrary: dk) (auto split: prod.split sum.split)

lemma quiet_ops_blocks:
  "\<forall>p \<in> set ps. quiet_op p \<Longrightarrow> dk_blocks (snd (disk_ops zl ps dk)) = dk_blocks dk \<and> dk_erase_faults (snd (disk_ops zl ps dk)) = dk_erase_faults dk"
proof (induction ps arbitrary: dk)
  case (Cons p ps)
  obtain r dk1 where 1: "disk_op zl p dk = (r, dk1)" by force
  obtain r' dk2 where 2: "disk_ops zl ps dk1 = (r', dk2)" by force
  show ?case using Cons.IH[of dk1] Cons.prems quiet_op_blocks[of p zl dk] 1 2 by simp
qed simp

text \<open>The operations of a write: zones are finished and opened, then the buffer is written.\<close>

lemma close_zones_quiet: "close_zones fsm zs txg = Some (fsm', ops) \<Longrightarrow> \<forall>p \<in> set ops. quiet_op p"
  by (induction zs arbitrary: fsm fsm' ops) (auto simp: quiet_op_def split: Option.bind_splits)

lemma cluster_write_ops:
  assumes "cluster_write zl c buf txg = Some (r, c', ops)"
  shows "case r of Inl _ \<Rightarrow> \<forall>p \<in> set ops. quiet_op p | Inr lba \<Rightarrow> \<exists>pre z. ops = pre @ [VWriteAt buf z lba] \<and> (\<forall>p \<in> set pre. quiet_op p)"
  using assms close_zones_quiet
  by (fastforce simp: cluster_write_def quiet_op_def split: Option.bind_splits option.splits sum.splits prod.splits)

lemma write_op_blocks:
  assumes "disk_op zl (VWriteAt buf z lba) dk = (r, dk')"
  shows "\<forall>x. \<not> (lba \<le> x \<and> x < lba + blocks_of buf) \<longrightarrow> dk_blocks dk' x = dk_blocks dk x" "dk_erase_faults dk' = dk_erase_faults dk"
    "r = Inr () \<Longrightarrow> dk_blocks dk' = put_blocks lba buf (dk_blocks dk)"
  using assms by (auto simp: overwrite_def put_blocks_def split: list.splits option.splits prod.splits)

lemma write_ops_blocks:
  assumes "\<forall>p \<in> set pre. quiet_op p" "disk_ops zl (pre @ [VWriteAt buf z lba]) dk = (r, dk')"
  shows "\<forall>x. \<not> (lba \<le> x \<and> x < lba + blocks_of buf) \<longrightarrow> dk_blocks dk' x = dk_blocks dk x" "dk_erase_faults dk' = dk_erase_faults dk"
    "r = Inr () \<Longrightarrow> dk_blocks dk' = put_blocks lba buf (dk_blocks dk)"
proof -
  obtain r1 dk1 where 1: "disk_ops zl pre dk = (r1, dk1)" by force
  obtain r2 where 2: "disk_op zl (VWriteAt buf z lba) dk1 = (r2, dk')" "r = (case r1 of Inl e \<Rightarrow> Inl e | Inr _ \<Rightarrow> (case r2 of Inl e \<Rightarrow> Inl e | Inr _ \<Rightarrow> Inr ()))"
    using assms(2) 1 unfolding disk_ops_append by (auto simp del: disk_op.simps split: prod.splits)
  have b: "dk_blocks dk1 = dk_blocks dk" "dk_erase_faults dk1 = dk_erase_faults dk" using quiet_ops_blocks[OF assms(1), of zl dk] 1 by simp_all
  note w = write_op_blocks[OF 2(1)]
  show "\<forall>x. \<not> (lba \<le> x \<and> x < lba + blocks_of buf) \<longrightarrow> dk_blocks dk' x = dk_blocks dk x" "dk_erase_faults dk' = dk_erase_faults dk"
    using w(1,2) b by simp_all
  show "r = Inr () \<Longrightarrow> dk_blocks dk' = put_blocks lba buf (dk_blocks dk)"
    using w(3) b 2(2) by (auto split: sum.splits)
qed

section \<open>Pools\<close>

definition pool_inv ::
    "(nat \<Rightarrow> ZoneT \<Rightarrow> LbaT \<times> LbaT) \<Rightarrow> (nat \<Rightarrow> LbaT \<Rightarrow> ZoneT option) \<Rightarrow> Pool \<Rightarrow> (nat \<Rightarrow> extent set) \<Rightarrow> bool" where
  "pool_inv zl lz p live \<longleftrightarrow> pl_clusters p \<noteq> [] \<and> length (pl_clusters p) \<le> 2 ^ 16 \<and> (\<forall>n \<in> set (st_size (pl_stats p)). 0 < n) \<and> length (st_queue_depth (pl_stats p)) = length (pl_clusters p) \<and>
     length (st_size (pl_stats p)) = length (pl_clusters p) \<and> length (st_allocated_space (pl_stats p)) = length (pl_clusters p) \<and>
     (\<forall>i < length (pl_clusters p). cluster_inv (zl i) (lz i) (fst (pl_clusters p ! i)) (live i) \<and> dk_erase_faults (snd (pl_clusters p ! i)) = [])"

definition pool_blocks :: "Pool \<Rightarrow> nat \<Rightarrow> LbaT \<Rightarrow> IoVec" where
  "pool_blocks p i = dk_blocks (snd (pl_clusters p ! i))"

text \<open>The blocks of the extents are the same in both pools.\<close>

definition same_data :: "(nat \<Rightarrow> extent set) \<Rightarrow> Pool \<Rightarrow> Pool \<Rightarrow> bool" where
  "same_data live p p' \<longleftrightarrow> length (pl_clusters p') = length (pl_clusters p) \<and>
     (\<forall>i < length (pl_clusters p). \<forall>(lba, n) \<in> live i. \<forall>x. lba \<le> x \<and> x < lba + n \<longrightarrow> pool_blocks p' i x = pool_blocks p i x)"

lemma vec_modify_Some: "i < length xs \<Longrightarrow> vec_modify xs i f = Some (xs[i := f (xs ! i)])"
  by (simp add: vec_modify_def)

text \<open>A cluster that is chosen exists, if the weights of clusters of a positive size are numbers.\<close>

definition weights_ok :: "(Stats \<Rightarrow> nat \<Rightarrow> int option) \<Rightarrow> bool" where
  "weights_ok weight \<longleftrightarrow> (\<forall>s i. i < length (st_size s) \<longrightarrow> 0 < st_size s ! i \<longrightarrow> weight s i \<noteq> None)"

lemma min_by_weight_ok:
  assumes "\<forall>i \<in> insert best (set is). weight i \<noteq> None"
  shows "\<exists>i \<in> insert best (set is). min_by_weight weight best is = Some i"
  using assms
proof (induction "is" arbitrary: best)
  case (Cons i "is")
  obtain x y where "weight best = Some x" "weight i = Some y" using Cons.prems by auto
  moreover have "\<exists>j \<in> insert (if y < x then i else best) (set is). min_by_weight weight (if y < x then i else best) is = Some j"
    using Cons.prems by (intro Cons.IH) auto
  ultimately show ?case by (auto split: if_splits)
qed simp

lemma choose_cluster_ok:
  assumes "weights_ok weight" "st_size s \<noteq> []" "length (st_size s) \<le> 2 ^ 16" "\<forall>n \<in> set (st_size s). 0 < n"
  obtains i where "choose_cluster weight s = Some i" "i < length (st_size s)"
proof -
  have "\<forall>i \<in> insert 0 (set [Suc 0..<length (st_size s)]). weight s i \<noteq> None"
    using assms(1,2,4) by (auto simp: weights_ok_def)
  then obtain i where "min_by_weight (weight s) 0 [Suc 0..<length (st_size s)] = Some i" "i < length (st_size s)"
    using min_by_weight_ok[of 0 "[Suc 0..<length (st_size s)]" "weight s"] assms(2) by auto
  then show ?thesis using that[of i] assms(2,3) by (simp add: choose_cluster_def upt_conv_Cons wrapu_id)
qed

text \<open>One cluster and the statistics change.\<close>

definition pool_update :: "nat \<Rightarrow> Cluster \<times> Disk \<Rightarrow> Stats \<Rightarrow> Pool \<Rightarrow> Pool" where
  "pool_update i cd s p = p\<lparr>pl_clusters := (pl_clusters p)[i := cd], pl_stats := s\<rparr>"

definition stats_fit :: "Stats \<Rightarrow> Pool \<Rightarrow> bool" where
  "stats_fit s p \<longleftrightarrow> length (st_queue_depth s) = length (pl_clusters p) \<and> length (st_size s) = length (pl_clusters p) \<and>
     length (st_allocated_space s) = length (pl_clusters p) \<and> (\<forall>n \<in> set (st_size s). 0 < n)"

lemma pool_update_inv:
  assumes "pool_inv zl lz p live" "cluster_inv (zl i) (lz i) c' l'" "dk_erase_faults dk' = []" "stats_fit s p"
  shows "pool_inv zl lz (pool_update i (c', dk') s p) (live(i := l'))"
  using assms by (auto simp: pool_inv_def pool_update_def stats_fit_def nth_list_update)

lemma pool_update_same:
  assumes "pl_clusters p ! i = (c, dk)" "\<forall>(lba, n) \<in> live i. \<forall>x. lba \<le> x \<and> x < lba + n \<longrightarrow> dk_blocks dk' x = dk_blocks dk x"
  shows "same_data live p (pool_update i (c', dk') s p)"
  unfolding same_data_def
proof (intro conjI allI impI)
  fix j
  show "\<forall>(lba, n) \<in> live j. \<forall>x. lba \<le> x \<and> x < lba + n \<longrightarrow> pool_blocks (pool_update i (c', dk') s p) j x = pool_blocks p j x"
    if "j < length (pl_clusters p)"
  proof (cases "j = i")
    case True
    then show ?thesis using assms that by (simp add: pool_blocks_def pool_update_def)
  next
    case False
    then show ?thesis by (auto simp: pool_blocks_def pool_update_def)
  qed
qed (simp add: pool_update_def)

lemma pool_inv_stats: "pool_inv zl lz p live \<Longrightarrow> stats_fit (pl_stats p) p"
  by (simp add: pool_inv_def stats_fit_def)

lemma pool_read_spec:
  assumes "pool_inv zl lz p live" "pba_cluster pba < length (pl_clusters p)"
  obtains r p' where "pool_read p n pba = Some (r, p')" "pool_inv zl lz p' live" "same_data live p p'"
    "\<forall>bs. r = Inr bs \<longrightarrow> bs = concat (map (pool_blocks p (pba_cluster pba)) [pba_lba pba..<pba_lba pba + n])"
proof -
  let ?i = "pba_cluster pba"
  obtain c dk where c: "pl_clusters p ! ?i = (c, dk)" by force
  obtain r dk' where d: "disk_read (pba_lba pba) n dk = (r, dk')" by force
  have dk: "dk_blocks dk' = dk_blocks dk" "dk_erase_faults dk' = dk_erase_faults dk"
      "\<forall>bs. r = Inr bs \<longrightarrow> bs = concat (map (dk_blocks dk) [pba_lba pba..<pba_lba pba + n])"
    using d by (auto simp: disk_read_def Let_def split: list.splits option.splits prod.splits)
  define s where "s = (pl_stats p)\<lparr>st_queue_depth := (st_queue_depth (pl_stats p))[?i := wsub 32 (u32 (st_queue_depth (pl_stats p) ! ?i + 1)) 1]\<rparr>"
  have "stats_fit s p" using pool_inv_stats[OF assms(1)] by (simp add: s_def stats_fit_def)
  have ci: "cluster_inv (zl ?i) (lz ?i) c (live ?i)" "dk_erase_faults dk = []" using assms c unfolding pool_inv_def by force+
  have "pool_read p n pba = Some (r, pool_update ?i (c, dk') s p)"
    using assms c d by (simp add: pool_read_def stats_queue_def vec_modify_def pool_inv_def s_def pool_update_def Let_def)
  moreover have "pool_inv zl lz (pool_update ?i (c, dk') s p) live"
    using pool_update_inv[OF assms(1) ci(1), of dk' s] ci(2) dk(2) \<open>stats_fit s p\<close> by simp
  moreover have "same_data live p (pool_update ?i (c, dk') s p)"
    using c dk(1) by (intro pool_update_same) auto
  ultimately show ?thesis using that dk(3) c by (simp add: pool_blocks_def)
qed

text \<open>A record of the pool: the blocks of an extent start with the bytes.\<close>

definition record_at :: "Pool \<Rightarrow> PBA \<Rightarrow> nat \<Rightarrow> IoVec \<Rightarrow> bool" where
  "record_at p pba n bs \<longleftrightarrow> length bs \<le> n * BYTES_PER_LBA \<and>
     take (length bs) (concat (map (pool_blocks p (pba_cluster pba)) [pba_lba pba..<pba_lba pba + n])) = bs"

lemma record_same:
  assumes "record_at p pba n bs" "same_data live p p'" "(pba_lba pba, n) \<in> live (pba_cluster pba)" "pba_cluster pba < length (pl_clusters p)"
  shows "record_at p' pba n bs"
proof -
  have m: "map (pool_blocks p' (pba_cluster pba)) [pba_lba pba..<pba_lba pba + n] = map (pool_blocks p (pba_cluster pba)) [pba_lba pba..<pba_lba pba + n]"
    using assms(2-4) unfolding same_data_def by force
  show ?thesis using assms(1) unfolding record_at_def m .
qed

lemma blocks_of_bytes: "length buf \<le> blocks_of buf * BYTES_PER_LBA"
  by (simp add: blocks_of_def BYTES_PER_LBA_def)

lemma pool_write_spec:
  assumes inv: "pool_inv zl lz p live" and buf: "0 < length buf" "blocks_of buf < u32_max" and weights: "weights_ok weight"
  obtains r p' live' where "pool_write zl weight p buf txg = Some (r, p')" "pool_inv zl lz p' live'" "same_data live p p'" "\<forall>i. live i \<subseteq> live' i"
    "\<forall>pba. r = Inr pba \<longrightarrow> pba_cluster pba < length (pl_clusters p) \<and> (pba_lba pba, blocks_of buf) \<in> live' (pba_cluster pba) \<and>
       (\<forall>e \<in> live (pba_cluster pba). extents_disjoint (pba_lba pba, blocks_of buf) e) \<and> record_at p' pba (blocks_of buf) buf"
proof -
  let ?n = "blocks_of buf"
  obtain i where ch: "choose_cluster weight (pl_stats p) = Some i" and pick: "i < length (pl_clusters p)"
    using choose_cluster_ok[OF weights, of "pl_stats p"] inv unfolding pool_inv_def by (metis length_0_conv)
  obtain c dk where c: "pl_clusters p ! i = (c, dk)" by force
  have ci: "cluster_inv (zl i) (lz i) c (live i)" "dk_erase_faults dk = []" using inv pick c unfolding pool_inv_def by force+
  obtain r c' ops where w: "cluster_write (zl i) c buf txg = Some (r, c', ops)"
      "if no_room (zl i) (cl_fsm c) ?n then r = Inl ENOSPC \<and> cluster_inv (zl i) (lz i) c' (live i)
       else \<exists>lba. r = Inr lba \<and> write_ok (zl i) (lz i) buf (live i) lba c' ops"
    using cluster_write_spec[OF ci(1) buf] by blast
  obtain rd dk' where d: "disk_ops (zl i) ops dk = (rd, dk')" by force
  note wo = cluster_write_ops[OF w(1)] and sf = pool_inv_stats[OF inv]
  let ?q = "(st_queue_depth (pl_stats p))[i := wsub 32 (u32 (st_queue_depth (pl_stats p) ! i + 1)) 1]"
  let ?s = "(pl_stats p)\<lparr>st_queue_depth := ?q\<rparr>"
  let ?s' = "?s\<lparr>st_allocated_space := (st_allocated_space (pl_stats p))[i := u64 (st_allocated_space (pl_stats p) ! i + ?n)]\<rparr>"
  have fit: "stats_fit ?s p" "stats_fit ?s' p" using sf by (simp_all add: stats_fit_def)
  have lens: "i < length (st_queue_depth (pl_stats p))" "i < length (st_allocated_space (pl_stats p))"
    using sf pick by (simp_all add: stats_fit_def)
  note run = pool_write_def write_outcome_def stats_queue_def stats_space_def vec_modify_Some Let_def pool_update_def blocks_of_roundup[OF buf(2)]
  show ?thesis
  proof (cases r)
    case (Inl e)
    have "dk_blocks dk' = dk_blocks dk" "dk_erase_faults dk' = []"
      using quiet_ops_blocks[of ops "zl i" dk] wo Inl d ci(2) by simp_all
    moreover have "cluster_inv (zl i) (lz i) c' (live i)" using w(2) Inl by (auto split: if_splits)
    ultimately have "pool_inv zl lz (pool_update i (c', dk') ?s p) live" "same_data live p (pool_update i (c', dk') ?s p)"
      using pool_update_inv[OF inv, of i c' "live i" dk' ?s] fit(1) pool_update_same[OF c] by auto
    moreover have "pool_write zl weight p buf txg = Some (Inl e, pool_update i (c', dk') ?s p)"
      using ch pick lens c w(1) Inl d by (simp add: run)
    ultimately show ?thesis using that[of "Inl e" "pool_update i (c', dk') ?s p" live] by simp
  next
    case (Inr lba)
    have ok: "write_ok (zl i) (lz i) buf (live i) lba c' ops" using w(2) Inr by (auto split: if_splits)
    let ?l = "live(i := insert (lba, ?n) (live i))"
    have sub: "\<forall>i. live i \<subseteq> ?l i" by auto
    obtain pre z where ops: "ops = pre @ [VWriteAt buf z lba]" "\<forall>p \<in> set pre. quiet_op p" using wo Inr by auto
    note wb = write_ops_blocks[OF ops(2), of "zl i" buf z lba dk rd dk'] d[unfolded ops(1)]
    have dj: "\<forall>e \<in> live i. extents_disjoint (lba, ?n) e" and ci': "cluster_inv (zl i) (lz i) c' (insert (lba, ?n) (live i))"
      using ok by (simp_all add: write_ok_def)
    have same: "\<forall>(l, n) \<in> live i. \<forall>x. l \<le> x \<and> x < l + n \<longrightarrow> dk_blocks dk' x = dk_blocks dk x"
      using wb(1)[OF wb(4)] dj by (fastforce simp: extents_disjoint_def)
    have inv': "pool_inv zl lz (pool_update i (c', dk') s p) ?l" "same_data live p (pool_update i (c', dk') s p)" if "stats_fit s p" for s
      using pool_update_inv[OF inv ci' _ that, of dk'] wb(2)[OF wb(4)] ci(2) pool_update_same[where live=live, OF c same] by simp_all
    show ?thesis
    proof (cases rd)
      case e: (Inl e)
      have "pool_write zl weight p buf txg = Some (Inl e, pool_update i (c', dk') ?s p)"
        using ch pick lens c w(1) Inr d e by (simp add: run)
      then show ?thesis using that[of "Inl e" "pool_update i (c', dk') ?s p" ?l, OF _ inv'[OF fit(1)] sub] by simp
    next
      case _: (Inr u)
      let ?p' = "pool_update i (c', dk') ?s' p"
      have "pool_write zl weight p buf txg = Some (Inr (PBA i lba), ?p')"
        using ch pick lens c w(1) Inr d \<open>rd = Inr u\<close> by (simp add: run)
      moreover have "dk_blocks dk' = put_blocks lba buf (dk_blocks dk)" using wb(3)[OF wb(4)] \<open>rd = Inr u\<close> by simp
      then have "record_at ?p' (PBA i lba) ?n buf"
        using pick by (simp add: record_at_def blocks_of_bytes put_blocks_read pool_blocks_def pool_update_def)
      ultimately show ?thesis using that[of "Inr (PBA i lba)" ?p' ?l, OF _ inv'[OF fit(2)] sub] dj pick by simp
    qed
  qed
qed

text \<open>A free erases at most the zone of the extent, and no other extent reaches into an erased zone.\<close>

lemma cluster_free_ops:
  assumes "cluster_free lz c lba len = Some (c', ops)"
  shows "ops = [] \<or> (\<exists>z. lz lba = Some z \<and> ops = [VEraseZone z])"
  using assms by (auto simp: cluster_free_def cluster_erase_zone_def split: Option.bind_splits if_splits)

lemma erased_zone_apart:
  assumes inv: "cluster_inv zl lz c live" and e: "(lba, len) \<in> live" "lz lba = Some z"
    and none: "zone_extents zl (live - {(lba, len)}) z = {}"
    and f: "(l, n) \<in> live - {(lba, len)}" "l \<le> x" "x < l + n"
  shows "\<not> (fst (zl z) \<le> x \<and> x < snd (zl z))"
proof
  note I = cluster_invD[OF inv]
  assume x: "fst (zl z) \<le> x \<and> x < snd (zl z)"
  obtain k where k: "k < fsm_total_zones (cl_fsm c)" "(lba, len) \<in> zone_extents zl live k" using placed_zone[OF inv e(1)] by auto
  then have "k = z" using I(3) e(2) by (auto simp: zone_geometry_def zone_extents_def)
  obtain j where j: "j < fsm_total_zones (cl_fsm c)" "(l, n) \<in> zone_extents zl live j" "l + n \<le> zone_top (zl j) (fsm_view (cl_fsm c) j)"
    using placed_zone[OF inv, of "(l, n)"] f(1) by auto
  have "zone_top (zl j) (fsm_view (cl_fsm c) j) \<le> snd (zl j)"
    using zone_top_le(2)[OF I(5)[OF j(1)] I(4)[OF j(1)]] fsm_wfD(6)[OF I(1)] by blast
  then have "j = z"
    using geometry_zone_unique[OF I(3) j(1), of z x] k(1) \<open>k = z\<close> x f(2,3) j(2,3) by (auto simp: zone_extents_def)
  then show False using none j(2) f(1) by (auto simp: zone_extents_def)
qed

lemma pool_free_spec:
  assumes inv: "pool_inv zl lz p live" and i: "pba_cluster pba < length (pl_clusters p)" and e: "(pba_lba pba, len) \<in> live (pba_cluster pba)"
  obtains p' where "pool_free zl lz p pba len = Some (Inr (), p')"
    "pool_inv zl lz p' (live(pba_cluster pba := live (pba_cluster pba) - {(pba_lba pba, len)}))"
    "same_data (live(pba_cluster pba := live (pba_cluster pba) - {(pba_lba pba, len)})) p p'"
proof -
  let ?i = "pba_cluster pba" and ?e = "(pba_lba pba, len)"
  let ?l = "live(?i := live ?i - {?e})"
  obtain c dk where c: "pl_clusters p ! ?i = (c, dk)" by force
  have ci: "cluster_inv (zl ?i) (lz ?i) c (live ?i)" "dk_erase_faults dk = []" using inv i c unfolding pool_inv_def by force+
  obtain c' ops where f: "cluster_free (lz ?i) c (pba_lba pba) len = Some (c', ops)" "cluster_inv (zl ?i) (lz ?i) c' (live ?i - {?e})"
      "\<forall>z. VEraseZone z \<in> set ops \<longrightarrow> zone_extents (zl ?i) (live ?i - {?e}) z = {}"
    using cluster_free_spec[OF ci(1) e] by blast
  obtain dk' where d: "disk_ops (zl ?i) ops dk = (Inr (), dk')" "dk_erase_faults dk' = []"
      "\<forall>(l, n) \<in> live ?i - {?e}. \<forall>x. l \<le> x \<and> x < l + n \<longrightarrow> dk_blocks dk' x = dk_blocks dk x"
  proof (cases "ops = []")
    case True
    then show ?thesis using that[of dk] ci(2) by simp
  next
    case False
    then obtain z where z: "lz ?i (pba_lba pba) = Some z" "ops = [VEraseZone z]" using cluster_free_ops[OF f(1)] by blast
    have "\<forall>(l, n) \<in> live ?i - {?e}. \<forall>x. l \<le> x \<and> x < l + n \<longrightarrow> \<not> (fst (zl ?i z) \<le> x \<and> x < snd (zl ?i z))"
      using erased_zone_apart[OF ci(1) e z(1)] f(3) z(2) by (auto simp del: Diff_iff)
    note apart = this
    obtain a b where ab: "zl ?i z = (a, b)" by force
    let ?b = "overwrite a (b - a) (\<lambda>_. replicate BYTES_PER_LBA 0) (dk_blocks dk)"
    have "?b x = dk_blocks dk x" if "(l, n) \<in> live ?i - {?e}" "l \<le> x \<and> x < l + n" for l n x
      using bspec[OF apart that(1)] that(2) ab by (auto simp: overwrite_def)
    then have "\<forall>(l, n) \<in> live ?i - {?e}. \<forall>x. l \<le> x \<and> x < l + n \<longrightarrow> ?b x = dk_blocks dk x" by blast
    moreover have "disk_ops (zl ?i) ops dk = (Inr (), dk\<lparr>dk_blocks := ?b\<rparr>)"
      using z(2) ci(2) ab by simp
    ultimately show ?thesis using that[of "dk\<lparr>dk_blocks := ?b\<rparr>"] ci(2) by simp
  qed
  let ?s = "(pl_stats p)\<lparr>st_allocated_space := (st_allocated_space (pl_stats p))[?i := wsub 64 (st_allocated_space (pl_stats p) ! ?i) len]\<rparr>"
  have fit: "stats_fit ?s p" "?i < length (st_allocated_space (pl_stats p))" using pool_inv_stats[OF inv] i by (simp_all add: stats_fit_def)
  have "pool_free zl lz p pba len = Some (Inr (), pool_update ?i (c', dk') ?s p)"
    using i fit(2) c f(1) d(1) by (simp add: pool_free_def stats_space_def vec_modify_Some Let_def pool_update_def)
  moreover have "same_data ?l p (pool_update ?i (c', dk') ?s p)"
    by (rule pool_update_same[OF c]) (use d(3) in simp)
  ultimately show ?thesis using that pool_update_inv[OF inv f(2) d(2) fit(1)] by blast
qed

section \<open>Pools without faults\<close>

lemmas run_simps = bind_eq_Some_conv Let_def

definition pool_quiet :: "Pool \<Rightarrow> bool" where
  "pool_quiet p \<longleftrightarrow> (\<forall>(c, dk) \<in> set (pl_clusters p). dk_faults dk = [] \<and> dk_erase_faults dk = [])"

lemma disk_op_quiet:
  "dk_faults dk = [] \<Longrightarrow> dk_erase_faults dk = [] \<Longrightarrow> disk_op zl p dk = (r, dk') \<Longrightarrow> r = Inr () \<and> dk_faults dk' = [] \<and> dk_erase_faults dk' = []"
  by (cases p) (auto simp: Let_def split: prod.splits)

lemma disk_ops_quiet:
  "dk_faults dk = [] \<Longrightarrow> dk_erase_faults dk = [] \<Longrightarrow> disk_ops zl ps dk = (r, dk') \<Longrightarrow> r = Inr () \<and> dk_faults dk' = [] \<and> dk_erase_faults dk' = []"
proof (induction ps arbitrary: dk r dk')
  case (Cons p ps)
  obtain r1 dk1 where 1: "disk_op zl p dk = (r1, dk1)" by force
  obtain r2 dk2 where 2: "disk_ops zl ps dk1 = (r2, dk2)" by force
  show ?case using Cons.IH[OF _ _ 2] disk_op_quiet[OF Cons.prems(1,2) 1] 1 2 Cons.prems(3) by simp
qed simp

lemma pool_quiet_update: "pool_quiet p \<Longrightarrow> dk_faults dk = [] \<Longrightarrow> dk_erase_faults dk = [] \<Longrightarrow>
    pool_quiet (p\<lparr>pl_clusters := (pl_clusters p)[i := (c, dk)]\<rparr>)"
  using set_update_subset_insert[of "pl_clusters p" i "(c, dk)"] by (fastforce simp: pool_quiet_def)

lemma pool_quiet_nth: "pool_quiet p \<Longrightarrow> i < length (pl_clusters p) \<Longrightarrow> pl_clusters p ! i = (c, dk) \<Longrightarrow> dk_faults dk = [] \<and> dk_erase_faults dk = []"
  using nth_mem[of i "pl_clusters p"] by (auto simp: pool_quiet_def)

lemma pool_quiet_stats [simp]: "pool_quiet (p\<lparr>pl_stats := s\<rparr>) = pool_quiet p"
  by (simp add: pool_quiet_def)

lemma stats_quiet: "stats_queue i f p = Some p' \<Longrightarrow> pool_quiet p' = pool_quiet p" "stats_space i f p = Some p' \<Longrightarrow> pool_quiet p' = pool_quiet p"
  by (auto simp: stats_queue_def stats_space_def split: Option.bind_splits)

lemma pool_read_quiet:
  assumes "pool_read p n pba = Some (r, p')" "pool_quiet p"
  shows "pool_quiet p' \<and> (\<exists>bs. r = Inr bs)"
proof -
  let ?i = "pba_cluster pba"
  obtain p1 where p1: "stats_queue ?i (\<lambda>q. u32 (q + 1)) p = Some p1" "?i < length (pl_clusters p1)"
    using assms(1) by (auto simp: pool_read_def run_simps)
  obtain c dk where c: "pl_clusters p1 ! ?i = (c, dk)" by force
  obtain r1 dk' where d: "disk_read (pba_lba pba) n dk = (r1, dk')" by force
  have q: "pool_quiet p1" using stats_quiet(1)[OF p1(1)] assms(2) by simp
  then have dk': "\<exists>bs. r1 = Inr bs" "dk_faults dk' = []" "dk_erase_faults dk' = []"
    using pool_quiet_nth[OF q p1(2) c] d by (auto simp: disk_read_def Let_def)
  then show ?thesis
    using assms(1) p1 c d pool_quiet_update[OF q] by (auto simp: pool_read_def run_simps dest!: stats_quiet(1))
qed

lemma pool_free_quiet:
  assumes "pool_free zl lz p pba len = Some (r, p')" "pool_quiet p"
  shows "pool_quiet p'"
proof -
  let ?i = "pba_cluster pba"
  obtain p1 where p1: "stats_space ?i (\<lambda>a. wsub 64 a len) p = Some p1" "?i < length (pl_clusters p1)"
    using assms(1) by (auto simp: pool_free_def run_simps)
  obtain c dk where c: "pl_clusters p1 ! ?i = (c, dk)" by force
  obtain c' ops where f: "cluster_free (lz ?i) c (pba_lba pba) len = Some (c', ops)"
    using assms(1) p1 c by (auto simp: pool_free_def run_simps)
  obtain r1 dk' where d: "disk_ops (zl ?i) ops dk = (r1, dk')" by force
  have q: "pool_quiet p1" using stats_quiet(2)[OF p1(1)] assms(2) by simp
  then have "dk_faults dk' = []" "dk_erase_faults dk' = []" using pool_quiet_nth[OF q p1(2) c] disk_ops_quiet[OF _ _ d] by blast+
  then show ?thesis using assms(1) p1 c f d pool_quiet_update[OF q] by (auto simp: pool_free_def run_simps)
qed

lemma cluster_write_error: "cluster_write zl c buf txg = Some (Inl e, c', ops) \<Longrightarrow> e = ENOSPC"
  by (auto simp: cluster_write_def split: Option.bind_splits option.splits prod.splits sum.splits)

lemma pool_write_quiet:
  assumes "pool_write zl weight p buf txg = Some (r, p')" "pool_quiet p"
  shows "pool_quiet p' \<and> (\<forall>e. r = Inl e \<longrightarrow> e = ENOSPC)"
proof -
  obtain i where ch: "choose_cluster weight (pl_stats p) = Some i" using assms(1) by (auto simp: pool_write_def write_outcome_def run_simps)
  obtain p1 where p1: "stats_queue i (\<lambda>q. u32 (q + 1)) p = Some p1" "i < length (pl_clusters p1)"
    using assms(1) ch by (auto simp: pool_write_def write_outcome_def run_simps)
  obtain c dk where c: "pl_clusters p1 ! i = (c, dk)" by force
  obtain rc c' ops where w: "cluster_write (zl i) c buf txg = Some (rc, c', ops)"
    using assms(1) ch p1 c by (auto simp: pool_write_def write_outcome_def run_simps)
  obtain r1 dk' where d: "disk_ops (zl i) ops dk = (r1, dk')" by force
  have q: "pool_quiet p1" using stats_quiet(1)[OF p1(1)] assms(2) by simp
  then have dk': "r1 = Inr ()" "dk_faults dk' = []" "dk_erase_faults dk' = []"
    using pool_quiet_nth[OF q p1(2) c] disk_ops_quiet[OF _ _ d] by blast+
  obtain p2 where p2: "stats_queue i (\<lambda>q. wsub 32 q 1) (p1\<lparr>pl_clusters := (pl_clusters p1)[i := (c', dk')]\<rparr>) = Some p2"
    using assms(1) ch p1 c w d by (cases rc) (auto simp: pool_write_def write_outcome_def run_simps dk'(1))
  have q2: "pool_quiet p2" using stats_quiet(1)[OF p2] pool_quiet_update[OF q dk'(2,3)] by simp
  show ?thesis
  proof (cases rc)
    case (Inl e)
    then show ?thesis using assms(1) ch p1 c w d p2 q2 cluster_write_error by (auto simp: pool_write_def write_outcome_def run_simps)
  next
    case (Inr lba)
    then show ?thesis using assms(1) ch p1 c w d p2 q2 dk'(1) by (auto simp: pool_write_def write_outcome_def run_simps dest!: stats_quiet(2))
  qed
qed

section \<open>Flushing\<close>

lemma sync_ops_blocks:
  assumes "\<forall>p \<in> set ps. (\<exists>z. p = VFlushZone z) \<or> (\<exists>sg i b. p = VWriteSpacemap sg i b)"
  shows "dk_blocks (snd (disk_ops zl ps dk)) = dk_blocks dk \<and> dk_erase_faults (snd (disk_ops zl ps dk)) = dk_erase_faults dk"
  using assms
proof (induction ps arbitrary: dk)
  case (Cons p ps)
  obtain r dk1 where 1: "disk_op zl p dk = (r, dk1)" by force
  obtain r' dk2 where 2: "disk_ops zl ps dk1 = (r', dk2)" by force
  have "dk_blocks dk1 = dk_blocks dk \<and> dk_erase_faults dk1 = dk_erase_faults dk"
    using Cons.prems 1 by (auto split: list.splits option.splits prod.splits)
  then show ?case using Cons.IH[of dk1] Cons.prems 1 2 by simp
qed simp

lemma waste_zones_ops: "waste_zones gap fsm zs = Some (fsm', ops) \<Longrightarrow> \<forall>p \<in> set ops. \<exists>z. p = VFlushZone z"
  by (induction zs arbitrary: fsm fsm' ops) (auto simp: run_simps)

lemma write_spacemaps_ops: "write_spacemaps idx bs = Some ops \<Longrightarrow> \<forall>p \<in> set ops. \<exists>sg i b. p = VWriteSpacemap sg i b"
  by (induction idx bs arbitrary: ops rule: write_spacemaps.induct) (auto simp: run_simps)

lemma cluster_flush_ops:
  assumes "cluster_flush zhash enc gap c idx = Some (c', ops)"
  shows "\<forall>p \<in> set ops. (\<exists>z. p = VFlushZone z) \<or> (\<exists>sg i b. p = VWriteSpacemap sg i b)"
proof -
  obtain fsm fl sm where "waste_zones gap (cl_fsm c) (fsm_open_zone_ids (cl_fsm c)) = Some (fsm, fl)" "write_spacemaps idx (fsm_serialize zhash enc fsm) = Some sm"
      "ops = fl @ sm"
    using assms by (auto simp: cluster_flush_def run_simps)
  then show ?thesis using waste_zones_ops write_spacemaps_ops by (metis Un_iff set_append)
qed

lemma flush_clusters_spec:
  assumes "\<forall>j < length cs. cluster_inv (zl (i + j)) (lz (i + j)) (fst (cs ! j)) (live (i + j)) \<and> gaps_ok (gap (i + j)) (cl_fsm (fst (cs ! j))) \<and>
      synced zhash enc (cl_fsm (fst (cs ! j))) (area (i + j))"
  obtains r cs' where "flush_clusters zhash enc zl gap idx i cs = Some (r, cs')" "length cs' = length cs"
    "\<forall>j < length cs. cluster_inv (zl (i + j)) (lz (i + j)) (fst (cs' ! j)) (live (i + j)) \<and>
       dk_blocks (snd (cs' ! j)) = dk_blocks (snd (cs ! j)) \<and> dk_erase_faults (snd (cs' ! j)) = dk_erase_faults (snd (cs ! j))"
  using assms
proof (induction cs arbitrary: i thesis)
  case Nil
  then show ?case by simp
next
  case (Cons cd cs)
  obtain c dk where cd: "cd = (c, dk)" by force
  have c: "cluster_inv (zl i) (lz i) c (live i)" "gaps_ok (gap i) (cl_fsm c)" "synced zhash enc (cl_fsm c) (area i)" using Cons.prems(2) cd by force+
  obtain c' ops where f: "cluster_flush zhash enc (gap i) c idx = Some (c', ops)" "cluster_inv (zl i) (lz i) c' (live i)"
    using cluster_flush_spec[OF c] by blast
  obtain r dk' where d: "disk_ops (zl i) ops dk = (r, dk')" by force
  have dk': "dk_blocks dk' = dk_blocks dk" "dk_erase_faults dk' = dk_erase_faults dk"
    using sync_ops_blocks[OF cluster_flush_ops[OF f(1)], of "zl i" dk] d by simp_all
  have rest: "\<forall>j < length cs. cluster_inv (zl (Suc i + j)) (lz (Suc i + j)) (fst (cs ! j)) (live (Suc i + j)) \<and> gaps_ok (gap (Suc i + j)) (cl_fsm (fst (cs ! j))) \<and>
      synced zhash enc (cl_fsm (fst (cs ! j))) (area (Suc i + j))"
    using Cons.prems(2) by fastforce
  obtain r' cs' where cs': "flush_clusters zhash enc zl gap idx (Suc i) cs = Some (r', cs')" "length cs' = length cs"
      "\<forall>j < length cs. cluster_inv (zl (Suc i + j)) (lz (Suc i + j)) (fst (cs' ! j)) (live (Suc i + j)) \<and>
       dk_blocks (snd (cs' ! j)) = dk_blocks (snd (cs ! j)) \<and> dk_erase_faults (snd (cs' ! j)) = dk_erase_faults (snd (cs ! j))"
    by (rule Cons.IH[OF _ rest])
  show ?case
    by (rule Cons.prems(1)[of _ "(c', dk') # cs'"]) (use f d dk' cs' cd in \<open>auto simp: nth_Cons' less_Suc_eq_0_disj\<close>)
qed

lemma pool_flush_spec:
  assumes "pool_inv zl lz p live" "\<forall>i < length (pl_clusters p). gaps_ok (gap i) (cl_fsm (fst (pl_clusters p ! i))) \<and>
      synced zhash enc (cl_fsm (fst (pl_clusters p ! i))) (area i)"
  obtains r p' where "pool_flush zhash enc zl gap p idx = Some (r, p')" "pool_inv zl lz p' live" "same_data live p p'"
proof -
  have c: "\<forall>j < length (pl_clusters p). cluster_inv (zl (0 + j)) (lz (0 + j)) (fst (pl_clusters p ! j)) (live (0 + j)) \<and>
      gaps_ok (gap (0 + j)) (cl_fsm (fst (pl_clusters p ! j))) \<and> synced zhash enc (cl_fsm (fst (pl_clusters p ! j))) (area (0 + j))"
    using assms by (simp add: pool_inv_def)
  obtain r cs' where f: "flush_clusters zhash enc zl gap idx 0 (pl_clusters p) = Some (r, cs')" "length cs' = length (pl_clusters p)"
      "\<forall>j < length (pl_clusters p). cluster_inv (zl (0 + j)) (lz (0 + j)) (fst (cs' ! j)) (live (0 + j)) \<and>
       dk_blocks (snd (cs' ! j)) = dk_blocks (snd (pl_clusters p ! j)) \<and> dk_erase_faults (snd (cs' ! j)) = dk_erase_faults (snd (pl_clusters p ! j))"
    by (rule flush_clusters_spec[OF c])
  show ?thesis
  proof (rule that[of r "p\<lparr>pl_clusters := cs'\<rparr>"])
    show "pool_flush zhash enc zl gap p idx = Some (r, p\<lparr>pl_clusters := cs'\<rparr>)" using f(1) by (simp add: pool_flush_def)
    show "pool_inv zl lz (p\<lparr>pl_clusters := cs'\<rparr>) live" using assms(1) f(2,3) by (auto simp: pool_inv_def)
    show "same_data live p (p\<lparr>pl_clusters := cs'\<rparr>)" using f(2,3) by (auto simp: same_data_def pool_blocks_def)
  qed
qed

section \<open>Opening\<close>

lemma read_labels_all:
  assumes "\<forall>(u, c, l) \<in> set combined. l = Some label" "\<forall>v. uuid = Some v \<longrightarrow> v = plb_uuid label" "distinct (map fst combined)"
  shows "read_labels uuid combined pair all =
    Some (if pair = None \<and> combined \<noteq> [] then Some label else pair, all ++ map_of (map (\<lambda>(u, c, l). (u, c)) combined))"
  using assms
proof (induction combined arbitrary: pair all)
  case (Cons x combined)
  obtain u c l where x: "x = (u, c, l)" by (cases x)
  have "u \<notin> dom (map_of (map (\<lambda>(u, c, l). (u, c)) combined))"
    using Cons.prems(3) x by (simp add: dom_map_of_conv_image_fst image_image case_prod_beta)
  then have m: "all(u \<mapsto> c) ++ map_of (map (\<lambda>(u, c, l). (u, c)) combined) = all ++ map_of (map (\<lambda>(u, c, l). (u, c)) (x # combined))"
    using x by (auto simp: map_add_def fun_eq_iff split: option.splits)
  have "case uuid of None \<Rightarrow> True | Some v \<Rightarrow> v = plb_uuid label" using Cons.prems(2) by (simp split: option.split)
  then have "read_labels uuid (x # combined) pair all = read_labels uuid combined (if pair = None then Some label else pair) (all(u \<mapsto> c))"
    using Cons.prems(1) x by simp
  also have "\<dots> = Some (if pair = None then Some label else pair, all(u \<mapsto> c) ++ map_of (map (\<lambda>(u, c, l). (u, c)) combined))"
    using Cons.prems by (subst Cons.IH) auto
  finally show ?case by (simp only: m list.distinct not_False_eq_True simp_thms)
qed simp

lemma pool_children_all: "distinct us \<Longrightarrow> \<forall>u \<in> set us. all u = Some (f u) \<Longrightarrow> pool_children all us = Some (map f us)"
proof (induction us arbitrary: all)
  case (Cons u us)
  have "pool_children (all(u := None)) us = Some (map f us)" using Cons.prems by (intro Cons.IH) auto
  then show ?case using Cons.prems by simp
qed simp

text \<open>A pool can be opened from its clusters in whatever order the devices were found: if every cluster carries the label of the pool, which
  lists the clusters' UUIDs, the opened pool has its clusters in the order of the label, so that the cluster numbers in all
  block addresses mean the same clusters as before.\<close>

theorem pool_open_any_order:
  assumes "distinct (map fst cs)" "cs \<noteq> []" "plb_children label = map fst cs" "\<forall>v. uuid = Some v \<longrightarrow> v = plb_uuid label"
    "distinct (map fst combined)" "set combined = (\<lambda>(u, c). (u, c, Some label)) ` set cs"
  shows "pool_open size_of uuid combined =
    Some (pool_new (plb_name label) (plb_uuid label) (map size_of (map snd cs)) (map snd cs), label)"
proof -
  let ?all = "map_of (map (\<lambda>(u, c, l). (u, c)) combined)"
  have ne: "combined \<noteq> []" using assms(2,6) by auto
  have "\<forall>(u, c, l) \<in> set combined. l = Some label" using assms(6) by auto
  then have r: "read_labels uuid combined None Map.empty = Some (Some label, ?all)"
    using read_labels_all[of combined label uuid None Map.empty] assms(4,5) ne by simp
  have d: "distinct (map fst (map (\<lambda>(u, c, l). (u, c)) combined))" using assms(5) by (simp add: comp_def case_prod_beta)
  have "set (map (\<lambda>(u, c, l). (u, c)) combined) = set cs" using assms(6) by force
  then have all: "?all = map_of cs" using map_of_inject_set[OF d assms(1)] by simp
  have "card (dom (map_of cs)) = length cs" using assms(1) by (simp add: dom_map_of_conv_image_fst distinct_card flip: set_map)
  moreover have "map (\<lambda>u. the (map_of cs u)) (map fst cs) = map snd cs"
    using assms(1) by (auto simp: map_of_eq_Some_iff)
  then have "pool_children (map_of cs) (map fst cs) = Some (map snd cs)"
    using pool_children_all[of "map fst cs" "map_of cs" "\<lambda>u. the (map_of cs u)"] assms(1) by (simp only:) (auto simp: map_of_eq_Some_iff)
  ultimately show ?thesis using r all assms(3) by (simp add: pool_open_def)
qed

definition ex_label :: PoolLabel where
  "ex_label = \<lparr>plb_name = ''tank'', plb_uuid = 9, plb_children = [5, 3]\<rparr>"

theorem pool_open_any_order_witness:
  "\<forall>a b. pool_open (\<lambda>_. 100) (Some 9) [(3, b, Some ex_label), (5, a, Some ex_label)] = Some (pool_new ''tank'' 9 [100, 100] [a, b], ex_label)"
proof (intro allI)
  fix a b
  show "pool_open (\<lambda>_. 100) (Some 9) [(3, b, Some ex_label), (5, a, Some ex_label)] = Some (pool_new ''tank'' 9 [100, 100] [a, b], ex_label)"
    using pool_open_any_order[of "[(5, a), (3, b)]" ex_label "Some 9" "[(3, b, Some ex_label), (5, a, Some ex_label)]" "\<lambda>_. 100"]
    by (simp add: ex_label_def insert_commute)
qed

end
