(* ===== verification/Ddml.thy ===== *)
theory Ddml
  imports Dml Cache_Correct Pool_Correct
begin

text \<open>
  \<open>bfffs/src/common/ddml\<close>: the direct data management layer, which stores records at physical addresses through the cache, the
  compressor and the pool.

  The environment collects what is outside: the geometry of the vdevs and the weights of the clusters (as in the pool), the hasher
  MetroHash64, the Blosc library, and the methods \<open>serialize\<close> and \<open>len\<close> of the records. The operations that read a record are generic in its
  type; \<open>deser\<close> is the method \<open>deserialize\<close> of the type that the caller expects.
\<close>

section \<open>Direct record pointers\<close>

record DRP =
  drp_pba :: PBA
  drp_compressed :: bool
  drp_lsize :: nat
  drp_csize :: nat
  drp_checksum :: nat

definition drp_as_uncompressed :: "DRP \<Rightarrow> DRP" where
  "drp_as_uncompressed drp =
     \<lparr>drp_pba = drp_pba drp, drp_compressed = False, drp_lsize = drp_csize drp, drp_csize = drp_csize drp, drp_checksum = drp_checksum drp\<rparr>"

definition drp_asize :: "DRP \<Rightarrow> LbaT option" where
  "drp_asize drp = div_roundup 64 (drp_csize drp) BYTES_PER_LBA"

definition drp_into_compressed :: "DRP \<Rightarrow> DRP \<Rightarrow> DRP" where
  "drp_into_compressed drp old = drp\<lparr>drp_compressed := drp_compressed old, drp_lsize := drp_lsize old\<rparr>"

section \<open>The layer\<close>

record ('n, 'h) DdmlEnv =
  ev_zl :: "nat \<Rightarrow> ZoneT \<Rightarrow> LbaT \<times> LbaT"
  ev_lz :: "nat \<Rightarrow> LbaT \<Rightarrow> ZoneT option"
  ev_weight :: "Stats \<Rightarrow> nat \<Rightarrow> int option"
  ev_hnew :: 'h
  ev_hwrite :: "'h \<Rightarrow> IoVec \<Rightarrow> 'h"
  ev_hfinish :: "'h \<Rightarrow> nat"
  ev_blosc :: "Compression \<Rightarrow> IoVec \<Rightarrow> IoVec"
  ev_unblosc :: "IoVec \<Rightarrow> IoVec option"
  ev_ser :: "'n \<Rightarrow> IoVec"
  ev_len :: "'n \<Rightarrow> nat"

record 'n DDML =
  dd_cache :: "'n Cache"
  dd_pool :: Pool

definition ddml_new :: "Pool \<Rightarrow> 'n Cache \<Rightarrow> 'n DDML" where
  "ddml_new pool cache = \<lparr>dd_cache = cache, dd_pool = pool\<rparr>"

definition ddml_open :: "Pool \<Rightarrow> 'n Cache \<Rightarrow> 'n DDML" where
  "ddml_open pool cache = \<lparr>dd_cache = cache, dd_pool = pool\<rparr>"

definition ddml_allocated :: "'n DDML \<Rightarrow> LbaT" where
  "ddml_allocated d = pool_allocated (dd_pool d)"

definition ddml_size :: "'n DDML \<Rightarrow> LbaT" where
  "ddml_size d = pool_size (dd_pool d)"

definition ddml_assert_clean_zone :: "'n DDML \<Rightarrow> ClusterT \<Rightarrow> ZoneT \<Rightarrow> TxgT \<Rightarrow> unit option" where
  "ddml_assert_clean_zone d cluster zone txg = pool_assert_clean_zone (dd_pool d) cluster zone txg"

definition ddml_flush ::
    "(nat \<Rightarrow> ZoneOnDisk list \<Rightarrow> nat) \<Rightarrow> (SpacemapOnDisk \<Rightarrow> byte list) \<Rightarrow> (nat \<Rightarrow> ZoneT \<Rightarrow> LbaT) \<Rightarrow> ('n, 'h) DdmlEnv \<Rightarrow> 'n DDML \<Rightarrow> nat \<Rightarrow>
       (unit result \<times> 'n DDML) option" where
  "ddml_flush zhash enc gap env d idx = do {
     (r, p) \<leftarrow> pool_flush zhash enc (ev_zl env) gap (dd_pool d) idx;
     Some (r, d\<lparr>dd_pool := p\<rparr>)
   }"

definition ddml_checksum :: "('n, 'h) DdmlEnv \<Rightarrow> IoVec \<Rightarrow> nat" where
  "ddml_checksum env db = ev_hfinish env (checksum_iovec (ev_hwrite env) db (ev_hnew env))"

definition ddml_free :: "('n, 'h) DdmlEnv \<Rightarrow> 'n DDML \<Rightarrow> DRP \<Rightarrow> (unit result \<times> 'n DDML) option" where
  "ddml_free env d drp = do {
     lbas \<leftarrow> drp_asize drp;
     (r, p) \<leftarrow> pool_free (ev_zl env) (ev_lz env) (dd_pool d) (drp_pba drp) lbas;
     Some (r, d\<lparr>dd_pool := p\<rparr>)
   }"

definition ddml_delete_direct :: "('n, 'h) DdmlEnv \<Rightarrow> 'n DDML \<Rightarrow> DRP \<Rightarrow> TxgT \<Rightarrow> (unit result \<times> 'n DDML) option" where
  "ddml_delete_direct env d drp txg = ddml_free env d drp"

definition ddml_read :: "('n, 'h) DdmlEnv \<Rightarrow> 'n DDML \<Rightarrow> DRP \<Rightarrow> (IoVec result \<times> 'n DDML) option" where
  "ddml_read env d drp = do {
     lbas \<leftarrow> drp_asize drp;
     (r, p) \<leftarrow> pool_read (dd_pool d) lbas (drp_pba drp);
     let d = d\<lparr>dd_pool := p\<rparr>;
     case r of
       Inl e \<Rightarrow> Some (Inl e, d)
     | Inr dbs \<Rightarrow> do {
         let db = take (drp_csize drp) dbs;
         if ddml_checksum env db = drp_checksum drp then do {
           dbs \<leftarrow> decode (ev_unblosc env) (drp_compressed drp) db;
           Some (Inr dbs, d)
         } else Some (Inl ECKSUM, d)
       }
   }"

definition ddml_get_direct :: "(IoVec \<Rightarrow> 'n option) \<Rightarrow> ('n, 'h) DdmlEnv \<Rightarrow> 'n DDML \<Rightarrow> DRP \<Rightarrow> ('n result \<times> 'n DDML) option" where
  "ddml_get_direct deser env d drp = do {
     (r, d) \<leftarrow> ddml_read env d drp;
     case r of
       Inl e \<Rightarrow> Some (Inl e, d)
     | Inr dbs \<Rightarrow> do { t \<leftarrow> deser dbs; Some (Inr t, d) }
   }"

definition ddml_pop_direct :: "(IoVec \<Rightarrow> 'n option) \<Rightarrow> ('n, 'h) DdmlEnv \<Rightarrow> 'n DDML \<Rightarrow> DRP \<Rightarrow> ('n result \<times> 'n DDML) option" where
  "ddml_pop_direct deser env d drp = do {
     (r, d) \<leftarrow> ddml_read env d drp;
     case r of
       Inl e \<Rightarrow> Some (Inl e, d)
     | Inr dbs \<Rightarrow> do {
         (r, d) \<leftarrow> ddml_free env d drp;
         case r of
           Inl e \<Rightarrow> Some (Inl e, d)
         | Inr _ \<Rightarrow> do { t \<leftarrow> deser dbs; Some (Inr t, d) }
       }
   }"

definition ddml_put_common :: "('n, 'h) DdmlEnv \<Rightarrow> 'n DDML \<Rightarrow> 'n \<Rightarrow> Compression \<Rightarrow> TxgT \<Rightarrow> (DRP result \<times> 'n DDML) option" where
  "ddml_put_common env d cacheref compression txg = do {
     let serialized = ev_ser env cacheref;
     assert_that (length serialized < u32_max);
     let lsize = length serialized;
     (compressed_db, compression) \<leftarrow> compress (ev_blosc env) compression serialized;
     let compressed = is_compressed compression;
     let csize = u32 (length compressed_db);
     let checksum = ddml_checksum env compressed_db;
     (r, p) \<leftarrow> pool_write (ev_zl env) (ev_weight env) (dd_pool d) compressed_db txg;
     let d = d\<lparr>dd_pool := p\<rparr>;
     case r of
       Inl e \<Rightarrow> Some (Inl e, d)
     | Inr pba \<Rightarrow>
         Some (Inr \<lparr>drp_pba = pba, drp_compressed = compressed, drp_lsize = u32 lsize, drp_csize = csize, drp_checksum = checksum\<rparr>, d)
   }"

definition ddml_put_direct :: "('n, 'h) DdmlEnv \<Rightarrow> 'n DDML \<Rightarrow> 'n \<Rightarrow> Compression \<Rightarrow> TxgT \<Rightarrow> (DRP result \<times> 'n DDML) option" where
  "ddml_put_direct env d cacheref compression txg = ddml_put_common env d cacheref compression txg"

definition ddml_delete :: "('n, 'h) DdmlEnv \<Rightarrow> 'n DDML \<Rightarrow> DRP \<Rightarrow> TxgT \<Rightarrow> (unit result \<times> 'n DDML) option" where
  "ddml_delete env d drp txg = do {
     (_, c) \<leftarrow> cache_remove (ev_len env) (KPBA (drp_pba drp)) (dd_cache d);
     ddml_free env (d\<lparr>dd_cache := c\<rparr>) drp
   }"

definition ddml_evict :: "('n, 'h) DdmlEnv \<Rightarrow> 'n DDML \<Rightarrow> DRP \<Rightarrow> 'n DDML option" where
  "ddml_evict env d drp = do {
     (_, c) \<leftarrow> cache_remove (ev_len env) (KPBA (drp_pba drp)) (dd_cache d);
     Some (d\<lparr>dd_cache := c\<rparr>)
   }"

definition ddml_get :: "(IoVec \<Rightarrow> 'n option) \<Rightarrow> ('n, 'h) DdmlEnv \<Rightarrow> 'n DDML \<Rightarrow> DRP \<Rightarrow> ('n result \<times> 'n DDML) option" where
  "ddml_get deser env d drp = do {
     let pba = drp_pba drp;
     (hit, c) \<leftarrow> cache_get Some (KPBA pba) (dd_cache d);
     let d = d\<lparr>dd_cache := c\<rparr>;
     case hit of
       Some t \<Rightarrow> Some (Inr t, d)
     | None \<Rightarrow> do {
         (r, d) \<leftarrow> ddml_get_direct deser env d drp;
         case r of
           Inl e \<Rightarrow> Some (Inl e, d)
         | Inr t \<Rightarrow> do {
             c \<leftarrow> cache_insert (ev_len env) (=) (KPBA pba) t (dd_cache d);
             Some (Inr t, d\<lparr>dd_cache := c\<rparr>)
           }
       }
   }"

definition ddml_pop :: "(IoVec \<Rightarrow> 'n option) \<Rightarrow> ('n, 'h) DdmlEnv \<Rightarrow> 'n DDML \<Rightarrow> DRP \<Rightarrow> TxgT \<Rightarrow> ('n result \<times> 'n DDML) option" where
  "ddml_pop deser env d drp txg = do {
     (hit, c) \<leftarrow> cache_remove (ev_len env) (KPBA (drp_pba drp)) (dd_cache d);
     let d = d\<lparr>dd_cache := c\<rparr>;
     case hit of
       Some t \<Rightarrow> do {
         (r, d) \<leftarrow> ddml_free env d drp;
         Some (map_sum (\<lambda>e. e) (\<lambda>_. t) r, d)
       }
     | None \<Rightarrow> ddml_pop_direct deser env d drp
   }"

definition ddml_put :: "('n, 'h) DdmlEnv \<Rightarrow> 'n DDML \<Rightarrow> 'n \<Rightarrow> Compression \<Rightarrow> TxgT \<Rightarrow> (DRP result \<times> 'n DDML) option" where
  "ddml_put env d cacheable compression txg = do {
     (r, d) \<leftarrow> ddml_put_common env d cacheable compression txg;
     case r of
       Inl e \<Rightarrow> Some (Inl e, d)
     | Inr drp \<Rightarrow> do {
         c \<leftarrow> cache_insert (ev_len env) (=) (KPBA (drp_pba drp)) cacheable (dd_cache d);
         Some (Inr drp, d\<lparr>dd_cache := c\<rparr>)
       }
   }"

definition ddml_dml :: "(IoVec \<Rightarrow> 'n option) \<Rightarrow> ('n, 'h) DdmlEnv \<Rightarrow> ('n DDML, DRP, 'n) Dml" where
  "ddml_dml deser env = \<lparr>dml_delete = ddml_delete env, dml_get = ddml_get deser env, dml_pop = ddml_pop deser env, dml_put = ddml_put env\<rparr>"

section \<open>Closed zones\<close>

text \<open>\<open>stream::unfold\<close> over \<open>find_closed_zone\<close>; the stream ends when the last cluster has no further closed zone.\<close>

partial_function (option) closed_zones_from ::
    "(nat \<Rightarrow> ZoneT \<Rightarrow> LbaT \<times> LbaT) \<Rightarrow> Pool \<Rightarrow> ClusterT \<Rightarrow> ZoneT \<Rightarrow> PoolClosedZone list option" where
  "closed_zones_from zl p clust zid = do {
     (r, next) \<leftarrow> pool_find_closed_zone zl p clust zid;
     case (r, next) of
       (Some pclz, Some (c, z)) \<Rightarrow> do { zs \<leftarrow> closed_zones_from zl p c z; Some (pclz # zs) }
     | (Some _, None) \<Rightarrow> None
     | (None, Some (c, z)) \<Rightarrow> closed_zones_from zl p c z
     | (None, None) \<Rightarrow> Some []
   }"

definition ddml_list_closed_zones :: "('n, 'h) DdmlEnv \<Rightarrow> 'n DDML \<Rightarrow> PoolClosedZone list option" where
  "ddml_list_closed_zones env d = closed_zones_from (ev_zl env) (dd_pool d) 0 0"

end
