(* ===== verification/Tree_Node.thy ===== *)
theory Tree_Node
  imports Dml BTree_Map
begin

text \<open>
  \<open>bfffs/src/common/tree/node.rs\<close>: the nodes of the copy-on-write B+-trees. A node is a leaf with its items in a
  \<open>BTreeMap\<close>, or an interior node with the keys, transaction ranges and pointers of its children. A pointer is the address of a
  record of the data management layer (a clean node), or the node itself (a dirty node, in memory).

  A guard of the source is a mutable reference into the tree. Here an operation takes the node and returns it changed; a locked
  child is the node behind the pointer of its parent.
\<close>

section \<open>Data\<close>

datatype ('a, 'k, 'v) NodeData = LeafNode "('k \<times> 'v) list" | IntNode "('a, 'k, 'v) IntElem list"
  and ('a, 'k, 'v) IntElem = IntElem (ie_key: 'k) (ie_txgs: txg_range) (ie_ptr: "('a, 'k, 'v) TreePtr")
  and ('a, 'k, 'v) TreePtr = PAddr 'a | PNone | PMem "('a, 'k, 'v) NodeData"

record Limits =
  min_int_fanout :: nat
  max_int_fanout :: nat
  min_leaf_fanout :: nat
  max_leaf_fanout :: nat

definition limits_max_fanout :: "Limits \<Rightarrow> nat" where
  "limits_max_fanout l = max (max_leaf_fanout l) (max_int_fanout l)"

fun ptr_is_mem :: "('a, 'k, 'v) TreePtr \<Rightarrow> bool" where
  "ptr_is_mem (PMem _) = True"
| "ptr_is_mem _ = False"

fun ptr_is_addr :: "('a, 'k, 'v) TreePtr \<Rightarrow> bool" where
  "ptr_is_addr (PAddr _) = True"
| "ptr_is_addr _ = False"

fun as_addr :: "('a, 'k, 'v) TreePtr \<Rightarrow> 'a option" where
  "as_addr (PAddr a) = Some a"
| "as_addr _ = None"

fun as_mem :: "('a, 'k, 'v) TreePtr \<Rightarrow> ('a, 'k, 'v) NodeData option" where
  "as_mem (PMem n) = Some n"
| "as_mem _ = None"

definition elem_is_dirty :: "('a, 'k, 'v) IntElem \<Rightarrow> bool" where
  "elem_is_dirty e = ptr_is_mem (ie_ptr e)"

definition elem_default :: "('a, 'k :: order_bot, 'v) IntElem" where
  "elem_default = IntElem bot \<lparr>txg_start = 0, txg_end = 0\<rparr> (PMem (LeafNode []))"

text \<open>Assignments to the fields of an element.\<close>

fun set_key :: "'k \<Rightarrow> ('a, 'k, 'v) IntElem \<Rightarrow> ('a, 'k, 'v) IntElem" where
  "set_key k (IntElem _ t p) = IntElem k t p"

fun set_txgs :: "txg_range \<Rightarrow> ('a, 'k, 'v) IntElem \<Rightarrow> ('a, 'k, 'v) IntElem" where
  "set_txgs t (IntElem k _ p) = IntElem k t p"

fun set_ptr :: "('a, 'k, 'v) TreePtr \<Rightarrow> ('a, 'k, 'v) IntElem \<Rightarrow> ('a, 'k, 'v) IntElem" where
  "set_ptr p (IntElem k t _) = IntElem k t p"

definition set_start :: "TxgT \<Rightarrow> ('a, 'k, 'v) IntElem \<Rightarrow> ('a, 'k, 'v) IntElem" where
  "set_start s e = set_txgs ((ie_txgs e)\<lparr>txg_start := s\<rparr>) e"

definition set_end :: "TxgT \<Rightarrow> ('a, 'k, 'v) IntElem \<Rightarrow> ('a, 'k, 'v) IntElem" where
  "set_end s e = set_txgs ((ie_txgs e)\<lparr>txg_end := s\<rparr>) e"

section \<open>\<open>BTreeMap\<close> operations of the leaves\<close>

text \<open>\<open>split_off(k)\<close> leaves the items below \<open>k\<close> and returns the others; \<open>append\<close> inserts all items of the other map.\<close>

definition bt_split_off :: "'k :: linorder \<Rightarrow> ('k \<times> 'v) list \<Rightarrow> ('k \<times> 'v) list \<times> ('k \<times> 'v) list" where
  "bt_split_off k m = (filter (\<lambda>(j, _). j < k) m, filter (\<lambda>(j, _). \<not> j < k) m)"

definition bt_append :: "('k :: linorder \<times> 'v) list \<Rightarrow> ('k \<times> 'v) list \<Rightarrow> ('k \<times> 'v) list" where
  "bt_append m m' = fold (\<lambda>(k, v). bt_insert k v) m' m"

definition leaf_last_key :: "('k \<times> 'v) list \<Rightarrow> 'k option" where
  "leaf_last_key items = (if items = [] then None else Some (fst (last items)))"

definition leaf_split ::
    "nat \<Rightarrow> TxgT \<Rightarrow> ('k :: linorder \<times> 'v) list \<Rightarrow> (txg_range \<times> ('a, 'k, 'v) IntElem \<times> ('k \<times> 'v) list) option" where
  "leaf_split left_items txg items = do {
     (cutoff, _) \<leftarrow> vec_get items left_items;
     let (items, new_items) = bt_split_off cutoff items;
     let txgs = \<lparr>txg_start = txg, txg_end = txg_add txg 1\<rparr>;
     Some (txgs, IntElem cutoff txgs (PMem (LeafNode new_items)), items)
   }"

section \<open>Interior nodes\<close>

text \<open>\<open>position\<close>: the binary search over the sorted keys of the children.\<close>

definition position :: "('a, 'k :: linorder, 'v) IntElem list \<Rightarrow> 'k \<Rightarrow> nat" where
  "position es k = length (takeWhile (\<lambda>e. ie_key e \<le> k) es) - 1"

definition int_start_txg :: "('a, 'k, 'v) IntElem list \<Rightarrow> TxgT option" where
  "int_start_txg es = (if es = [] then None else Some (Min (set (map (\<lambda>e. txg_start (ie_txgs e)) es))))"

definition int_split ::
    "nat \<Rightarrow> TxgT \<Rightarrow> ('a, 'k, 'v) IntElem list \<Rightarrow> (txg_range \<times> ('a, 'k, 'v) IntElem \<times> ('a, 'k, 'v) IntElem list) option" where
  "int_split left_items txg es = do {
     assert_that (left_items \<le> length es);
     let new_children = drop left_items es;
     let es = take left_items es;
     s \<leftarrow> int_start_txg es;
     let old_txgs = \<lparr>txg_start = s, txg_end = txg_add txg 1\<rparr>;
     e0 \<leftarrow> vec_get new_children 0;
     start \<leftarrow> int_start_txg new_children;
     let txgs = \<lparr>txg_start = start, txg_end = txg_add txg 1\<rparr>;
     Some (old_txgs, IntElem (ie_key e0) txgs (PMem (IntNode new_children)), es)
   }"

section \<open>Nodes\<close>

fun as_int :: "('a, 'k, 'v) NodeData \<Rightarrow> ('a, 'k, 'v) IntElem list option" where
  "as_int (IntNode es) = Some es"
| "as_int (LeafNode _) = None"

fun as_leaf :: "('a, 'k, 'v) NodeData \<Rightarrow> ('k \<times> 'v) list option" where
  "as_leaf (LeafNode items) = Some items"
| "as_leaf (IntNode _) = None"

fun is_leaf :: "('a, 'k, 'v) NodeData \<Rightarrow> bool" where
  "is_leaf (LeafNode _) = True"
| "is_leaf (IntNode _) = False"

fun node_len :: "('a, 'k, 'v) NodeData \<Rightarrow> nat" where
  "node_len (LeafNode items) = length items"
| "node_len (IntNode es) = length es"

fun node_key :: "('a, 'k, 'v) NodeData \<Rightarrow> 'k option" where
  "node_key (LeafNode items) = map_option fst (vec_get items 0)"
| "node_key (IntNode es) = map_option ie_key (vec_get es 0)"

definition node_min_fanout :: "Limits \<Rightarrow> ('a, 'k, 'v) NodeData \<Rightarrow> nat" where
  "node_min_fanout l n = (if is_leaf n then min_leaf_fanout l else min_int_fanout l)"

definition node_max_fanout :: "Limits \<Rightarrow> ('a, 'k, 'v) NodeData \<Rightarrow> nat" where
  "node_max_fanout l n = (if is_leaf n then max_leaf_fanout l else max_int_fanout l)"

definition node_check :: "Limits \<Rightarrow> 'k \<Rightarrow> bool \<Rightarrow> ('a, 'k :: linorder, 'v) NodeData \<Rightarrow> bool option" where
  "node_check l key is_root n = do {
     let len_ok = (if \<not> is_root \<and> node_len n < node_min_fanout l n then False
       else if node_len n > node_max_fanout l n then False else True);
     key_ok \<leftarrow> (if is_root then Some True else do { k \<leftarrow> node_key n; Some (\<not> k < key) });
     Some (len_ok \<and> key_ok)
   }"

definition in_danger :: "Limits \<Rightarrow> ('a, 'k, 'v) NodeData \<Rightarrow> bool" where
  "in_danger l n \<longleftrightarrow> node_len n \<le> node_min_fanout l n"

definition in_extra_danger :: "Limits \<Rightarrow> ('a, 'k, 'v) NodeData \<Rightarrow> bool" where
  "in_extra_danger l n \<longleftrightarrow> node_len n \<le> node_min_fanout l n + 1"

definition can_merge :: "Limits \<Rightarrow> ('a, 'k, 'v) NodeData \<Rightarrow> ('a, 'k, 'v) NodeData \<Rightarrow> bool" where
  "can_merge l n rhs \<longleftrightarrow> node_len n + node_len rhs \<le> node_max_fanout l n"

definition underflow :: "Limits \<Rightarrow> ('a, 'k, 'v) NodeData \<Rightarrow> bool" where
  "underflow l n \<longleftrightarrow> node_len n < node_min_fanout l n"

definition should_split :: "Limits \<Rightarrow> 'k :: linorder \<Rightarrow> ('a, 'k, 'v) NodeData \<Rightarrow> bool" where
  "should_split l key n \<longleftrightarrow>
     (case n of LeafNode items \<Rightarrow> \<not> bt_contains items key | IntNode _ \<Rightarrow> True) \<and> node_len n \<ge> node_max_fanout l n"

definition node_split ::
    "Limits \<Rightarrow> bool \<Rightarrow> TxgT \<Rightarrow> ('a, 'k :: linorder, 'v) NodeData \<Rightarrow> (txg_range \<times> ('a, 'k, 'v) IntElem \<times> ('a, 'k, 'v) NodeData) option" where
  "node_split l seq txg n = do {
     left_items \<leftarrow> (if seq then Some (wsub 64 (node_len n) (node_min_fanout l n)) else div_roundup 64 (node_len n) 2);
     case n of
       LeafNode items \<Rightarrow> do { (t, e, items) \<leftarrow> leaf_split left_items txg items; Some (t, e, LeafNode items) }
     | IntNode es \<Rightarrow> do { (t, e, es) \<leftarrow> int_split left_items txg es; Some (t, e, IntNode es) }
   }"

definition node_start_txg :: "TxgT \<Rightarrow> ('a, 'k, 'v) NodeData \<Rightarrow> TxgT option" where
  "node_start_txg my_txg n = (case n of IntNode es \<Rightarrow> int_start_txg es | LeafNode _ \<Rightarrow> Some my_txg)"

definition node_merge :: "('a, 'k :: linorder, 'v) NodeData \<Rightarrow> ('a, 'k, 'v) NodeData \<Rightarrow> ('a, 'k, 'v) NodeData option" where
  "node_merge n other =
     (case n of
        IntNode es \<Rightarrow> do { es' \<leftarrow> as_int other; Some (IntNode (es @ es')) }
      | LeafNode items \<Rightarrow> do { items' \<leftarrow> as_leaf other; Some (LeafNode (bt_append items items')) })"

text \<open>\<open>take_high_keys\<close> and \<open>take_low_keys\<close> return the node and the sibling.\<close>

definition keys_to_share :: "('a, 'k, 'v) NodeData \<Rightarrow> ('a, 'k, 'v) NodeData \<Rightarrow> nat" where
  "keys_to_share n other = max 1 (wsub 64 (node_len other) (node_len n) div 2)"

definition take_high_keys ::
    "('a, 'k :: linorder, 'v) NodeData \<Rightarrow> ('a, 'k, 'v) NodeData \<Rightarrow> (('a, 'k, 'v) NodeData \<times> ('a, 'k, 'v) NodeData) option" where
  "take_high_keys n other =
     (let share = keys_to_share n other in
      case n of
        IntNode es \<Rightarrow> do {
          other_children \<leftarrow> as_int other;
          let cutoff_idx = wsub 64 (length other_children) share;
          assert_that (cutoff_idx \<le> length other_children);
          Some (IntNode (drop cutoff_idx other_children @ es), IntNode (take cutoff_idx other_children))
        }
      | LeafNode items \<Rightarrow> do {
          other_items \<leftarrow> as_leaf other;
          let cutoff_idx = wsub 64 (length other_items) share;
          (cutoff, _) \<leftarrow> vec_get other_items cutoff_idx;
          let (other_items, other_right_half) = bt_split_off cutoff other_items;
          Some (LeafNode (bt_append items other_right_half), LeafNode other_items)
        })"

definition take_low_keys ::
    "('a, 'k :: linorder, 'v) NodeData \<Rightarrow> ('a, 'k, 'v) NodeData \<Rightarrow> (('a, 'k, 'v) NodeData \<times> ('a, 'k, 'v) NodeData) option" where
  "take_low_keys n other =
     (let share = keys_to_share n other in
      case n of
        IntNode es \<Rightarrow> do {
          other_children \<leftarrow> as_int other;
          assert_that (share \<le> length other_children);
          Some (IntNode (es @ take share other_children), IntNode (drop share other_children))
        }
      | LeafNode items \<Rightarrow> do {
          other_items \<leftarrow> as_leaf other;
          (cutoff, _) \<leftarrow> vec_get other_items share;
          let (other_left_half, other_right_half) = bt_split_off cutoff other_items;
          Some (LeafNode (bt_append items other_left_half), LeafNode other_right_half)
        })"

section \<open>Locking\<close>

text \<open>\<open>IntElem::rlock\<close>: the node behind an element, for reading.\<close>

definition rlock :: "('d, 'a, ('a, 'k, 'v) NodeData) Dml \<Rightarrow> ('a, 'k, 'v) IntElem \<Rightarrow> 'd \<Rightarrow> (('a, 'k, 'v) NodeData result \<times> 'd) option" where
  "rlock dml e d =
     (case ie_ptr e of
        PMem n \<Rightarrow> Some (Inr n, d)
      | PAddr a \<Rightarrow> dml_get dml d a
      | PNone \<Rightarrow> None)"

text \<open>
  \<open>TreeWriteGuard::xlock\<close>: lock a child exclusively. A child that is not in memory is taken out of the data management
  layer (copy on write). The result is the child, and the children of the parent with the child in memory.
\<close>

definition xlock ::
    "('d, 'a, ('a, 'k, 'v) NodeData) Dml \<Rightarrow> ('a, 'k, 'v) IntElem list \<Rightarrow> nat \<Rightarrow> TxgT \<Rightarrow> 'd \<Rightarrow>
       (('a, 'k, 'v) NodeData result \<times> ('a, 'k, 'v) IntElem list \<times> 'd) option" where
  "xlock dml es child_idx txg d = do {
     e \<leftarrow> vec_get es child_idx;
     let e = set_end (txg_add txg 1) e;
     let es = es[child_idx := e];
     case ie_ptr e of
       PMem n \<Rightarrow> Some (Inr n, es, d)
     | p \<Rightarrow> do {
         addr \<leftarrow> as_addr p;
         (r, d) \<leftarrow> dml_pop dml d addr txg;
         case r of
           Inl err \<Rightarrow> Some (Inl err, es, d)
         | Inr n \<Rightarrow> do {
             start \<leftarrow> node_start_txg txg n;
             Some (Inr n, es[child_idx := set_start start (set_ptr (PMem n) e)], d)
           }
       }
   }"

end
