(* ===== verification/Btree.thy ===== *)
theory Btree
  imports Tree_Node
begin

text \<open>
  \<open>bfffs/src/common/tree/tree/mod.rs\<close>: the copy-on-write B+-tree. \<open>dml\<close> are the operations of the data management layer that
  holds the clean nodes, and \<open>d\<close> is its state. Every operation returns its outcome, which may be an error of the data
  management layer, with the tree as it has become, because the source changes the tree in place while it descends.

  The tasks of the source lock nodes hand over hand; here each operation runs by itself. The recursions follow the pointers,
  some of which are addresses, so that they are bounded by fuel; the height of the tree bounds the fuel that is needed.
\<close>

record ('a, 'k, 'v) Tree =
  tr_height :: nat
  tr_limits :: Limits
  tr_root :: "('a, 'k, 'v) IntElem"
  tr_seq :: bool
  tr_int_compressor :: Compression
  tr_leaf_compressor :: Compression

text \<open>\<open>int_size\<close> and \<open>leaf_size\<close> are the typical sizes of the elements of the nodes, which the types give.\<close>

definition inner_new :: "nat \<Rightarrow> nat \<Rightarrow> nat \<Rightarrow> Limits \<Rightarrow> ('a, 'k, 'v) IntElem \<Rightarrow> bool \<Rightarrow> ('a, 'k, 'v) Tree" where
  "inner_new int_size leaf_size height limits root_elem seq =
     \<lparr>tr_height = height, tr_limits = limits, tr_root = root_elem, tr_seq = seq,
      tr_int_compressor = LZ4 (Some (u8 int_size)), tr_leaf_compressor = LZ4 (Some (u8 leaf_size))\<rparr>"

definition tree_new :: "nat \<Rightarrow> nat \<Rightarrow> Limits \<Rightarrow> bool \<Rightarrow> ('a, 'k :: order_bot, 'v) Tree" where
  "tree_new int_size leaf_size limits seq = inner_new int_size leaf_size 1 limits elem_default seq"

definition tree_is_dirty :: "('a, 'k, 'v) Tree \<Rightarrow> bool" where
  "tree_is_dirty t = elem_is_dirty (tr_root t)"

definition txgs_of :: "TxgT \<Rightarrow> txg_range" where
  "txgs_of txg = \<lparr>txg_start = txg, txg_end = txg_add txg 1\<rparr>"

section \<open>Lookup\<close>

fun get_r ::
    "('d, 'a, ('a, 'k :: linorder, 'v) NodeData) Dml \<Rightarrow> nat \<Rightarrow> ('a, 'k, 'v) NodeData \<Rightarrow> 'k \<Rightarrow> 'd \<Rightarrow> ('v option result \<times> 'd) option" where
  "get_r dml 0 node k d = None"
| "get_r dml (Suc fuel) node k d =
     (case node of
        LeafNode items \<Rightarrow> Some (Inr (bt_get items k), d)
      | IntNode es \<Rightarrow> do {
          child_elem \<leftarrow> vec_get es (position es k);
          (r, d) \<leftarrow> rlock dml child_elem d;
          case r of Inl e \<Rightarrow> Some (Inl e, d) | Inr next_node \<Rightarrow> get_r dml fuel next_node k d
        })"

definition tree_get ::
    "('d, 'a, ('a, 'k :: linorder, 'v) NodeData) Dml \<Rightarrow> nat \<Rightarrow> ('a, 'k, 'v) Tree \<Rightarrow> 'k \<Rightarrow> 'd \<Rightarrow> ('v option result \<times> 'd) option" where
  "tree_get dml fuel t k d = do {
     (r, d) \<leftarrow> rlock dml (tr_root t) d;
     case r of Inl e \<Rightarrow> Some (Inl e, d) | Inr guard \<Rightarrow> get_r dml fuel guard k d
   }"

fun last_key_r ::
    "('d, 'a, ('a, 'k, 'v) NodeData) Dml \<Rightarrow> nat \<Rightarrow> ('a, 'k, 'v) NodeData \<Rightarrow> 'd \<Rightarrow> ('k option result \<times> 'd) option" where
  "last_key_r dml 0 node d = None"
| "last_key_r dml (Suc fuel) node d =
     (case node of
        LeafNode items \<Rightarrow> Some (Inr (leaf_last_key items), d)
      | IntNode es \<Rightarrow> do {
          child_elem \<leftarrow> vec_get es (wsub 64 (length es) 1);
          (r, d) \<leftarrow> rlock dml child_elem d;
          case r of Inl e \<Rightarrow> Some (Inl e, d) | Inr next_node \<Rightarrow> last_key_r dml fuel next_node d
        })"

definition tree_last_key ::
    "('d, 'a, ('a, 'k, 'v) NodeData) Dml \<Rightarrow> nat \<Rightarrow> ('a, 'k, 'v) Tree \<Rightarrow> 'd \<Rightarrow> ('k option result \<times> 'd) option" where
  "tree_last_key dml fuel t d = do {
     (r, d) \<leftarrow> rlock dml (tr_root t) d;
     case r of Inl e \<Rightarrow> Some (Inl e, d) | Inr guard \<Rightarrow> last_key_r dml fuel guard d
   }"

section \<open>The root\<close>

definition xlock_root ::
    "('d, 'a, ('a, 'k, 'v) NodeData) Dml \<Rightarrow> ('a, 'k, 'v) IntElem \<Rightarrow> TxgT \<Rightarrow> 'd \<Rightarrow>
       (('a, 'k, 'v) NodeData result \<times> ('a, 'k, 'v) IntElem \<times> 'd) option" where
  "xlock_root dml guard txg d = do {
     let guard = set_end (txg_add txg 1) guard;
     case ie_ptr guard of
       PMem n \<Rightarrow> Some (Inr n, guard, d)
     | p \<Rightarrow> do {
         addr \<leftarrow> as_addr p;
         (r, d) \<leftarrow> dml_pop dml d addr txg;
         case r of
           Inl err \<Rightarrow> Some (Inl err, guard, d)
         | Inr n \<Rightarrow> Some (Inr n, set_ptr (PMem n) guard, d)
       }
   }"

definition xlock_and_merge_root ::
    "('d, 'a, ('a, 'k :: order_bot, 'v) NodeData) Dml \<Rightarrow> ('a, 'k, 'v) Tree \<Rightarrow> TxgT \<Rightarrow> 'd \<Rightarrow>
       (('a, 'k, 'v) NodeData result \<times> ('a, 'k, 'v) Tree \<times> 'd) option" where
  "xlock_and_merge_root dml t txg d = do {
     (r, root, d) \<leftarrow> xlock_root dml (tr_root t) txg d;
     let t = t\<lparr>tr_root := root\<rparr>;
     case r of
       Inl e \<Rightarrow> Some (Inl e, t, d)
     | Inr node \<Rightarrow>
         let nchildren = node_len node in
         if \<not> is_leaf node \<and> nchildren = 1 then do {
           es \<leftarrow> as_int node;
           let new_root = set_key bot (last es);
           (r, root, d) \<leftarrow> xlock_root dml new_root txg d;
           Some (r, t\<lparr>tr_root := root, tr_height := wsub 64 (tr_height t) 1\<rparr>, d)
         } else if \<not> is_leaf node \<and> nchildren = 0 then do {
           let new_root = set_key bot elem_default;
           (r, root, d) \<leftarrow> xlock_root dml new_root txg d;
           Some (r, t\<lparr>tr_root := root, tr_height := 1\<rparr>, d)
         } else Some (Inr node, t, d)
   }"

section \<open>Insertion\<close>

definition insert_leaf_no_split ::
    "('a, 'k :: linorder, 'v) IntElem \<Rightarrow> ('k \<times> 'v) list \<Rightarrow> 'k \<Rightarrow> 'v \<Rightarrow> TxgT \<Rightarrow> 'v option \<times> ('a, 'k, 'v) IntElem" where
  "insert_leaf_no_split elem items k v txg =
     (bt_get items k, set_txgs (txgs_of txg) (set_ptr (PMem (LeafNode (bt_insert k v items))) elem))"

text \<open>\<open>insert_int\<close>: \<open>rec\<close> is \<open>insert_int_no_split\<close>, on the children of an interior node.\<close>

definition insert_int ::
    "(('a, 'k :: linorder, 'v) IntElem list \<Rightarrow> 'k \<Rightarrow> 'v \<Rightarrow> TxgT \<Rightarrow> 'd \<Rightarrow> ('v option result \<times> ('a, 'k, 'v) IntElem list \<times> 'd) option) \<Rightarrow>
       Limits \<Rightarrow> bool \<Rightarrow> ('a, 'k, 'v) IntElem list \<Rightarrow> nat \<Rightarrow> ('a, 'k, 'v) NodeData \<Rightarrow> 'k \<Rightarrow> 'v \<Rightarrow> TxgT \<Rightarrow> 'd \<Rightarrow>
       ('v option result \<times> ('a, 'k, 'v) IntElem list \<times> 'd) option" where
  "insert_int rec limits seq es child_idx child k v txg d =
     (if should_split limits k child then do {
        (old_txgs, new_elem, child) \<leftarrow> node_split limits seq txg child;
        let es = es[child_idx := set_txgs old_txgs (set_ptr (PMem child) (es ! child_idx))];
        let es = take (child_idx + 1) es @ new_elem # drop (child_idx + 1) es;
        rec es k v txg d
      } else
        case child of
          LeafNode items \<Rightarrow>
            let (old_v, elem) = insert_leaf_no_split (es ! child_idx) items k v txg
            in Some (Inr old_v, es[child_idx := elem], d)
        | IntNode ces \<Rightarrow> do {
            (r, ces, d) \<leftarrow> rec ces k v txg d;
            Some (r, es[child_idx := set_ptr (PMem (IntNode ces)) (es ! child_idx)], d)
          })"

fun insert_int_no_split ::
    "('d, 'a, ('a, 'k :: linorder, 'v) NodeData) Dml \<Rightarrow> Limits \<Rightarrow> bool \<Rightarrow> nat \<Rightarrow> ('a, 'k, 'v) IntElem list \<Rightarrow> 'k \<Rightarrow> 'v \<Rightarrow> TxgT \<Rightarrow> 'd \<Rightarrow>
       ('v option result \<times> ('a, 'k, 'v) IntElem list \<times> 'd) option" where
  "insert_int_no_split dml limits seq 0 es k v txg d = None"
| "insert_int_no_split dml limits seq (Suc fuel) es k v txg d = do {
     let child_idx = position es k;
     e \<leftarrow> vec_get es child_idx;
     let es = (if k < ie_key e then es[child_idx := set_key k e] else es);
     (r, es, d) \<leftarrow> xlock dml es child_idx txg d;
     case r of
       Inl err \<Rightarrow> Some (Inl err, es, d)
     | Inr child \<Rightarrow> insert_int (insert_int_no_split dml limits seq fuel) limits seq es child_idx child k v txg d
   }"

definition insert_locked ::
    "('d, 'a, ('a, 'k :: {linorder, order_bot}, 'v) NodeData) Dml \<Rightarrow> nat \<Rightarrow> ('a, 'k, 'v) Tree \<Rightarrow> ('a, 'k, 'v) NodeData \<Rightarrow> 'k \<Rightarrow> 'v \<Rightarrow> TxgT \<Rightarrow> 'd \<Rightarrow>
       ('v option result \<times> ('a, 'k, 'v) Tree \<times> 'd) option" where
  "insert_locked dml fuel t rnode k v txg d = do {
     (t, rnode) \<leftarrow>
       (if should_split (tr_limits t) k rnode then do {
          (old_txgs, new_elem, rnode) \<leftarrow> node_split (tr_limits t) (tr_seq t) txg rnode;
          let old_elem = IntElem bot old_txgs (PMem rnode);
          Some (t\<lparr>tr_height := u64 (tr_height t + 1)\<rparr>, IntNode [old_elem, new_elem])
        } else Some (t, rnode));
     case rnode of
       LeafNode items \<Rightarrow>
         let (old_v, elem) = insert_leaf_no_split (tr_root t) items k v txg
         in Some (Inr old_v, t\<lparr>tr_root := elem\<rparr>, d)
     | IntNode es \<Rightarrow> do {
         (r, es, d) \<leftarrow> insert_int_no_split dml (tr_limits t) (tr_seq t) fuel es k v txg d;
         Some (r, t\<lparr>tr_root := set_ptr (PMem (IntNode es)) (tr_root t)\<rparr>, d)
       }
   }"

definition tree_insert ::
    "('d, 'a, ('a, 'k :: {linorder, order_bot}, 'v) NodeData) Dml \<Rightarrow> nat \<Rightarrow> ('a, 'k, 'v) Tree \<Rightarrow> 'k \<Rightarrow> 'v \<Rightarrow> TxgT \<Rightarrow> 'd \<Rightarrow>
       ('v option result \<times> ('a, 'k, 'v) Tree \<times> 'd) option" where
  "tree_insert dml fuel t k v txg d = do {
     (r, root, d) \<leftarrow> xlock_root dml (tr_root t) txg d;
     let t = t\<lparr>tr_root := root\<rparr>;
     case r of
       Inl e \<Rightarrow> Some (Inl e, t, d)
     | Inr rnode \<Rightarrow> insert_locked dml fuel t rnode k v txg d
   }"

section \<open>Removal\<close>

text \<open>
  \<open>fix_int\<close>: the child is in memory, at its place among the children of the parent. The result tells how many
  nodes have been merged before and after the child.
\<close>

definition elem_node :: "('a, 'k, 'v) IntElem list \<Rightarrow> nat \<Rightarrow> ('a, 'k, 'v) NodeData \<Rightarrow> TxgT \<Rightarrow> ('a, 'k, 'v) IntElem option" where
  "elem_node es i n txg = do {
     start \<leftarrow> node_start_txg txg n;
     Some (set_start start (set_ptr (PMem n) (es ! i)))
   }"

definition vec_remove :: "'x list \<Rightarrow> nat \<Rightarrow> 'x list" where
  "vec_remove xs i = take i xs @ drop (i + 1) xs"

definition fix_int ::
    "('d, 'a, ('a, 'k :: linorder, 'v) NodeData) Dml \<Rightarrow> Limits \<Rightarrow> ('a, 'k, 'v) IntElem list \<Rightarrow> nat \<Rightarrow> ('a, 'k, 'v) NodeData \<Rightarrow> TxgT \<Rightarrow> 'd \<Rightarrow>
       ((nat \<times> nat) result \<times> ('a, 'k, 'v) IntElem list \<times> 'd) option" where
  "fix_int dml limits es child_idx child txg d = do {
     let nchildren = length es;
     let right = child_idx < wsub 64 nchildren 1;
     let sib_idx = (if right then child_idx + 1 else wsub 64 child_idx 1);
     (r, es, d) \<leftarrow> xlock dml es sib_idx txg d;
     case r of
       Inl e \<Rightarrow> Some (Inl e, es, d)
     | Inr sibling \<Rightarrow>
         if right then
           if can_merge limits child sibling then do {
             child \<leftarrow> node_merge child sibling;
             ce \<leftarrow> elem_node es child_idx child txg;
             Some (Inr (0, 1), vec_remove (es[child_idx := ce]) sib_idx, d)
           } else do {
             (child, sibling) \<leftarrow> take_low_keys child sibling;
             key \<leftarrow> node_key sibling;
             se \<leftarrow> elem_node es sib_idx sibling txg;
             ce \<leftarrow> elem_node es child_idx child txg;
             Some (Inr (0, 0), es[sib_idx := set_key key se, child_idx := ce], d)
           }
         else
           if can_merge limits sibling child then do {
             sibling \<leftarrow> node_merge sibling child;
             se \<leftarrow> elem_node es sib_idx sibling txg;
             Some (Inr (1, 0), vec_remove (es[sib_idx := se]) child_idx, d)
           } else do {
             (child, sibling) \<leftarrow> take_high_keys child sibling;
             key \<leftarrow> node_key child;
             se \<leftarrow> elem_node es sib_idx sibling txg;
             ce \<leftarrow> elem_node es child_idx child txg;
             Some (Inr (0, 0), es[sib_idx := se, child_idx := set_key key ce], d)
           }
   }"

text \<open>\<open>remove_int\<close>: \<open>rec\<close> is \<open>remove_no_fix\<close> on the child.\<close>

definition remove_int ::
    "(('a, 'k :: linorder, 'v) NodeData \<Rightarrow> 'k \<Rightarrow> TxgT \<Rightarrow> 'd \<Rightarrow> ('v option result \<times> ('a, 'k, 'v) NodeData \<times> 'd) option) \<Rightarrow>
       ('d, 'a, ('a, 'k, 'v) NodeData) Dml \<Rightarrow> Limits \<Rightarrow> ('a, 'k, 'v) IntElem list \<Rightarrow> nat \<Rightarrow> ('a, 'k, 'v) NodeData \<Rightarrow> 'k \<Rightarrow> TxgT \<Rightarrow> 'd \<Rightarrow>
       ('v option result \<times> ('a, 'k, 'v) IntElem list \<times> 'd) option" where
  "remove_int rec dml limits es child_idx child k txg d =
     (if in_danger limits child then do {
        (r, es, d) \<leftarrow> fix_int dml limits es child_idx child txg d;
        case r of
          Inl e \<Rightarrow> Some (Inl e, es, d)
        | Inr _ \<Rightarrow> do {
            let child_idx = position es k;
            (r, es, d) \<leftarrow> xlock dml es child_idx txg d;
            case r of
              Inl e \<Rightarrow> Some (Inl e, es, d)
            | Inr child \<Rightarrow> do {
                (r, child, d) \<leftarrow> rec child k txg d;
                Some (r, es[child_idx := set_ptr (PMem child) (es ! child_idx)], d)
              }
          }
      } else do {
        (r, child, d) \<leftarrow> rec child k txg d;
        Some (r, es[child_idx := set_ptr (PMem child) (es ! child_idx)], d)
      })"

fun remove_no_fix ::
    "('d, 'a, ('a, 'k :: linorder, 'v) NodeData) Dml \<Rightarrow> Limits \<Rightarrow> nat \<Rightarrow> ('a, 'k, 'v) NodeData \<Rightarrow> 'k \<Rightarrow> TxgT \<Rightarrow> 'd \<Rightarrow>
       ('v option result \<times> ('a, 'k, 'v) NodeData \<times> 'd) option" where
  "remove_no_fix dml limits 0 node k txg d = None"
| "remove_no_fix dml limits (Suc fuel) node k txg d =
     (case node of
        LeafNode items \<Rightarrow> Some (Inr (bt_get items k), LeafNode (bt_remove k items), d)
      | IntNode es \<Rightarrow> do {
          let child_idx = position es k;
          (r, es, d) \<leftarrow> xlock dml es child_idx txg d;
          case r of
            Inl e \<Rightarrow> Some (Inl e, IntNode es, d)
          | Inr child \<Rightarrow> do {
              (r, es, d) \<leftarrow> remove_int (remove_no_fix dml limits fuel) dml limits es child_idx child k txg d;
              Some (r, IntNode es, d)
            }
        })"

definition tree_remove ::
    "('d, 'a, ('a, 'k :: {linorder, order_bot}, 'v) NodeData) Dml \<Rightarrow> nat \<Rightarrow> ('a, 'k, 'v) Tree \<Rightarrow> 'k \<Rightarrow> TxgT \<Rightarrow> 'd \<Rightarrow>
       ('v option result \<times> ('a, 'k, 'v) Tree \<times> 'd) option" where
  "tree_remove dml fuel t k txg d = do {
     (r, t, d) \<leftarrow> xlock_and_merge_root dml t txg d;
     case r of
       Inl e \<Rightarrow> Some (Inl e, t, d)
     | Inr node \<Rightarrow> do {
         (r, node, d) \<leftarrow> remove_no_fix dml (tr_limits t) fuel node k txg d;
         Some (r, t\<lparr>tr_root := set_ptr (PMem node) (tr_root t)\<rparr>, d)
       }
   }"

end
