(* ===== verification/Btree_Inv.thy ===== *)
theory Btree_Inv
  imports Btree
begin

text \<open>
  The meaning of a tree: \<open>node_items\<close> are the items of a subtree from left to right, \<open>node_addrs\<close> the addresses that it uses,
  and \<open>node_wf\<close> says that it is a B+-tree of a given height: sorted, every key in the range that its
  parent gives for it, every node as full as the limits ask. \<open>L\<close> is the store of the data management layer.
\<close>

type_synonym ('a, 'k, 'v) store = "'a \<rightharpoonup> ('a, 'k, 'v) NodeData"

section \<open>Items and addresses\<close>

definition resolve :: "('a, 'k, 'v) store \<Rightarrow> ('a, 'k, 'v) TreePtr \<Rightarrow> ('a, 'k, 'v) NodeData option" where
  "resolve L p = (case p of PMem n \<Rightarrow> Some n | PAddr a \<Rightarrow> L a | PNone \<Rightarrow> None)"

lemma resolve_simps [simp]: "resolve L (PMem n) = Some n" "resolve L (PAddr a) = L a" "resolve L PNone = None"
  by (simp_all add: resolve_def)

definition ptr_addrs :: "('a, 'k, 'v) TreePtr \<Rightarrow> 'a list" where
  "ptr_addrs p = (case p of PAddr a \<Rightarrow> [a] | _ \<Rightarrow> [])"

lemma ptr_addrs_simps [simp]: "ptr_addrs (PAddr a) = [a]" "ptr_addrs (PMem n) = []" "ptr_addrs PNone = []"
  by (simp_all add: ptr_addrs_def)

text \<open>A list-valued function of the nodes, collected over the children.\<close>

definition elem_map :: "('a, 'k, 'v) store \<Rightarrow> (('a, 'k, 'v) NodeData \<Rightarrow> 'x list) \<Rightarrow> ('a, 'k, 'v) IntElem \<Rightarrow> 'x list" where
  "elem_map L f e = (case resolve L (ie_ptr e) of Some n \<Rightarrow> f n | None \<Rightarrow> [])"

fun node_items :: "('a, 'k, 'v) store \<Rightarrow> nat \<Rightarrow> ('a, 'k, 'v) NodeData \<Rightarrow> ('k \<times> 'v) list" where
  "node_items L 0 n = (case n of LeafNode xs \<Rightarrow> xs | IntNode _ \<Rightarrow> [])"
| "node_items L (Suc h) n = (case n of LeafNode _ \<Rightarrow> [] | IntNode es \<Rightarrow> concat (map (elem_map L (node_items L h)) es))"

fun node_addrs :: "('a, 'k, 'v) store \<Rightarrow> nat \<Rightarrow> ('a, 'k, 'v) NodeData \<Rightarrow> 'a list" where
  "node_addrs L 0 n = []"
| "node_addrs L (Suc h) n = (case n of LeafNode _ \<Rightarrow> []
     | IntNode es \<Rightarrow> concat (map (\<lambda>e. ptr_addrs (ie_ptr e) @ elem_map L (node_addrs L h) e) es))"

definition elem_items :: "('a, 'k, 'v) store \<Rightarrow> nat \<Rightarrow> ('a, 'k, 'v) IntElem \<Rightarrow> ('k \<times> 'v) list" where
  "elem_items L h e = elem_map L (node_items L h) e"

definition elem_addrs :: "('a, 'k, 'v) store \<Rightarrow> nat \<Rightarrow> ('a, 'k, 'v) IntElem \<Rightarrow> 'a list" where
  "elem_addrs L h e = ptr_addrs (ie_ptr e) @ elem_map L (node_addrs L h) e"

definition elems_items :: "('a, 'k, 'v) store \<Rightarrow> nat \<Rightarrow> ('a, 'k, 'v) IntElem list \<Rightarrow> ('k \<times> 'v) list" where
  "elems_items L h es = concat (map (elem_items L h) es)"

definition elems_addrs :: "('a, 'k, 'v) store \<Rightarrow> nat \<Rightarrow> ('a, 'k, 'v) IntElem list \<Rightarrow> 'a list" where
  "elems_addrs L h es = concat (map (elem_addrs L h) es)"

lemma elems_simps [simp]:
  "elems_items L h [] = []" "elems_items L h (e # es) = elem_items L h e @ elems_items L h es"
  "elems_items L h (xs @ ys) = elems_items L h xs @ elems_items L h ys"
  "elems_addrs L h [] = []" "elems_addrs L h (e # es) = elem_addrs L h e @ elems_addrs L h es"
  "elems_addrs L h (xs @ ys) = elems_addrs L h xs @ elems_addrs L h ys"
  by (simp_all add: elems_items_def elems_addrs_def)

lemma node_unfold [simp]:
  "node_items L 0 (LeafNode xs) = xs" "node_items L (Suc h) (IntNode es) = elems_items L h es"
  "node_addrs L (Suc h) (IntNode es) = elems_addrs L h es"
  by (simp_all add: elems_items_def elem_items_def[abs_def] elems_addrs_def elem_addrs_def[abs_def])

declare node_items.simps [simp del] node_addrs.simps(2) [simp del]

lemma elem_mem [simp]:
  "ie_ptr e = PMem n \<Longrightarrow> elem_items L h e = node_items L h n" "ie_ptr e = PMem n \<Longrightarrow> elem_addrs L h e = node_addrs L h n"
  by (simp_all add: elem_items_def elem_addrs_def elem_map_def)

lemma elem_addr:
  "ie_ptr e = PAddr a \<Longrightarrow> L a = Some n \<Longrightarrow> elem_items L h e = node_items L h n"
  "ie_ptr e = PAddr a \<Longrightarrow> L a = Some n \<Longrightarrow> elem_addrs L h e = a # node_addrs L h n"
  by (simp_all add: elem_items_def elem_addrs_def elem_map_def)

section \<open>Well-formed nodes\<close>

definition below :: "'k :: linorder \<Rightarrow> 'k option \<Rightarrow> bool" where
  "below k hi \<longleftrightarrow> (case hi of None \<Rightarrow> True | Some j \<Rightarrow> k < j)"

lemma below_simps [simp]: "below k None" "below k (Some j) \<longleftrightarrow> k < j"
  by (simp_all add: below_def)

lemma below_less: "k < j \<Longrightarrow> below j hi \<Longrightarrow> below k hi"
  by (cases hi) auto

lemma below_le: "k \<le> j \<Longrightarrow> below j hi \<Longrightarrow> below k hi"
  by (cases hi) auto

definition next_key :: "('a, 'k, 'v) IntElem list \<Rightarrow> 'k option \<Rightarrow> 'k option" where
  "next_key es hi = (case es of [] \<Rightarrow> hi | e # _ \<Rightarrow> Some (ie_key e))"

lemma next_key_simps [simp]: "next_key [] hi = hi" "next_key (e # es) hi = Some (ie_key e)"
  "next_key (xs @ ys) hi = next_key xs (next_key ys hi)"
  by (simp_all add: next_key_def split: list.split)

definition fanout_ok :: "Limits \<Rightarrow> ('a, 'k, 'v) NodeData \<Rightarrow> bool" where
  "fanout_ok l n \<longleftrightarrow> node_min_fanout l n \<le> node_len n \<and> node_len n \<le> node_max_fanout l n"

text \<open>\<open>elem_wf P\<close>: the element's node exists, its keys lie between the element's key and the bound, and it satisfies \<open>P\<close>.\<close>

definition elem_wf :: "('a, 'k, 'v) store \<Rightarrow> ('k \<Rightarrow> 'k option \<Rightarrow> ('a, 'k :: linorder, 'v) NodeData \<Rightarrow> bool) \<Rightarrow> 'k option \<Rightarrow> ('a, 'k, 'v) IntElem \<Rightarrow> bool" where
  "elem_wf L P hi e \<longleftrightarrow> below (ie_key e) hi \<and> (\<exists>n. resolve L (ie_ptr e) = Some n \<and> P (ie_key e) hi n)"

fun elems_wf :: "('a, 'k, 'v) store \<Rightarrow> ('k \<Rightarrow> 'k option \<Rightarrow> ('a, 'k :: linorder, 'v) NodeData \<Rightarrow> bool) \<Rightarrow> ('a, 'k, 'v) IntElem list \<Rightarrow> 'k option \<Rightarrow> bool" where
  "elems_wf L P [] hi \<longleftrightarrow> True"
| "elems_wf L P (e # es) hi \<longleftrightarrow> elem_wf L P (next_key es hi) e \<and> elems_wf L P es hi"

lemma elems_wf_append [simp]: "elems_wf L P (xs @ ys) hi \<longleftrightarrow> elems_wf L P xs (next_key ys hi) \<and> elems_wf L P ys hi"
  by (induction xs) auto

fun node_wf :: "('a, 'k, 'v) store \<Rightarrow> Limits \<Rightarrow> nat \<Rightarrow> 'k \<Rightarrow> 'k option \<Rightarrow> ('a, 'k :: linorder, 'v) NodeData \<Rightarrow> bool" where
  "node_wf L lim 0 lo hi n \<longleftrightarrow>
     (case n of LeafNode xs \<Rightarrow> bt_ok xs \<and> (\<forall>k \<in> set (bt_keys xs). lo \<le> k \<and> below k hi) | IntNode _ \<Rightarrow> False)"
| "node_wf L lim (Suc h) lo hi n \<longleftrightarrow>
     (case n of LeafNode _ \<Rightarrow> False
      | IntNode es \<Rightarrow> es \<noteq> [] \<and> lo \<le> ie_key (hd es) \<and> elems_wf L (\<lambda>lo hi c. node_wf L lim h lo hi c \<and> fanout_ok lim c) es hi)"

abbreviation child_wf :: "('a, 'k, 'v) store \<Rightarrow> Limits \<Rightarrow> nat \<Rightarrow> 'k \<Rightarrow> 'k option \<Rightarrow> ('a, 'k :: linorder, 'v) NodeData \<Rightarrow> bool" where
  "child_wf L lim h \<equiv> \<lambda>lo hi c. node_wf L lim h lo hi c \<and> fanout_ok lim c"

lemma node_wf_leaf [simp]: "node_wf L lim h lo hi (LeafNode xs) \<longleftrightarrow> h = 0 \<and> bt_ok xs \<and> (\<forall>k \<in> set (bt_keys xs). lo \<le> k \<and> below k hi)"
  by (cases h) auto

lemma node_wf_int: "node_wf L lim h lo hi (IntNode es) \<longleftrightarrow>
    (\<exists>g. h = Suc g \<and> es \<noteq> [] \<and> lo \<le> ie_key (hd es) \<and> elems_wf L (child_wf L lim g) es hi)"
  by (cases h) auto

lemma node_wf_lo: "node_wf L lim h lo hi n \<Longrightarrow> lo' \<le> lo \<Longrightarrow> node_wf L lim h lo' hi n"
  by (cases n) (fastforce simp: node_wf_int)+

lemma elems_wf_mono_hi:
  assumes "\<And>lo c. P lo hi c \<Longrightarrow> P lo hi' c" "\<And>k. below k hi \<Longrightarrow> below k hi'" "elems_wf L P es hi"
  shows "elems_wf L P es hi'"
  using assms(3)
proof (induction es)
  case (Cons e es)
  then show ?case using assms(1,2) by (cases es) (auto simp: elem_wf_def)
qed simp

lemma node_wf_hi: "node_wf L lim h lo hi n \<Longrightarrow> (\<And>k. below k hi \<Longrightarrow> below k hi') \<Longrightarrow> node_wf L lim h lo hi' n"
proof (induction h arbitrary: lo n)
  case 0
  then show ?case by (cases n) auto
next
  case (Suc h)
  then show ?case by (cases n) (auto elim!: elems_wf_mono_hi[rotated 2])
qed

text \<open>The keys of the children are increasing.\<close>

lemma elems_wf_sorted:
  "elems_wf L P es hi \<Longrightarrow> sorted_wrt (<) (map ie_key es) \<and> (\<forall>e \<in> set es. below (ie_key e) hi)"
proof (induction es)
  case (Cons e es)
  have IH: "sorted_wrt (<) (map ie_key es)" "\<forall>e \<in> set es. below (ie_key e) hi" using Cons by auto
  have b: "below (ie_key e) (next_key es hi)" using Cons.prems by (simp add: elem_wf_def)
  show ?case
  proof (cases es)
    case Nil
    then show ?thesis using b by simp
  next
    case (Cons e' es')
    then have "ie_key e < ie_key e'" using b by simp
    moreover have "\<forall>x \<in> set es'. ie_key e' < ie_key x" using IH(1) Cons by auto
    ultimately show ?thesis using IH Cons below_less by fastforce
  qed
qed simp

section \<open>Sorted maps in pieces\<close>

lemma bt_ok_append [simp]:
  "bt_ok (xs @ ys) \<longleftrightarrow> bt_ok xs \<and> bt_ok ys \<and> (\<forall>a \<in> set (bt_keys xs). \<forall>b \<in> set (bt_keys ys). a < b)"
  by (auto simp: bt_ok_def sorted_wrt_append)

lemma bt_get_append: "bt_get (xs @ ys) k = (case bt_get ys k of None \<Rightarrow> bt_get xs k | Some v \<Rightarrow> (case bt_get xs k of None \<Rightarrow> Some v | Some w \<Rightarrow> Some w))"
  by (auto simp: bt_get_def map_add_def split: option.split)

lemma bt_get_middle:
  assumes "k \<notin> set (bt_keys xs)" "k \<notin> set (bt_keys zs)"
  shows "bt_get (xs @ ys @ zs) k = bt_get ys k"
  using assms[folded bt_get_eq_None] by (auto simp: bt_get_append split: option.split)

lemma bt_insert_right: "(\<forall>j \<in> set (bt_keys xs). j < k) \<Longrightarrow> bt_insert k v (xs @ ys) = xs @ bt_insert k v ys"
  by (induction xs) (auto dest: order.asym)

lemma bt_insert_left: "(\<forall>j \<in> set (bt_keys zs). k < j) \<Longrightarrow> bt_insert k v (ys @ zs) = bt_insert k v ys @ zs"
proof (induction ys)
  case Nil
  then show ?case by (cases zs) auto
qed auto

lemma bt_insert_middle:
  "(\<forall>j \<in> set (bt_keys xs). j < k) \<Longrightarrow> (\<forall>j \<in> set (bt_keys zs). k < j) \<Longrightarrow>
   bt_insert k v (xs @ ys @ zs) = xs @ bt_insert k v ys @ zs"
  by (simp add: bt_insert_right bt_insert_left)

lemma bt_remove_absent: "k \<notin> set (bt_keys m) \<Longrightarrow> bt_remove k m = m"
  unfolding bt_remove_def by (rule filter_True) force

lemma bt_remove_middle:
  "k \<notin> set (bt_keys xs) \<Longrightarrow> k \<notin> set (bt_keys zs) \<Longrightarrow> bt_remove k (xs @ ys @ zs) = xs @ bt_remove k ys @ zs"
  using bt_remove_absent[of k xs] bt_remove_absent[of k zs] by (simp add: bt_remove_def)

lemma bt_remove_keys: "set (bt_keys (bt_remove k m)) = set (bt_keys m) - {k}"
  by (force simp: bt_remove_def)

lemma bt_append_eq: "bt_ok (xs @ ys) \<Longrightarrow> bt_append xs ys = xs @ ys"
proof (induction ys arbitrary: xs)
  case (Cons y ys)
  obtain k v where y: "y = (k, v)" by force
  have "bt_insert k v xs = xs @ [(k, v)]"
    using bt_insert_right[of xs k v "[]"] Cons.prems y by simp
  moreover have "bt_ok ((xs @ [(k, v)]) @ ys)" using Cons.prems y by simp
  ultimately show ?case using Cons.IH[of "xs @ [(k, v)]"] y by (simp add: bt_append_def)
qed (simp add: bt_append_def)

lemma bt_split_off_nth:
  assumes "bt_ok m" "i < length m"
  shows "bt_split_off (fst (m ! i)) m = (take i m, drop i m)"
proof -
  have s: "sorted_wrt (<) (map fst m)" using assms(1) by (simp add: bt_ok_def)
  have l: "\<forall>x \<in> set (take i m). fst x < fst (m ! i)"
    using s assms(2) by (fastforce simp: in_set_conv_nth sorted_wrt_iff_nth_less)
  have r: "\<forall>x \<in> set (drop i m). \<not> fst x < fst (m ! i)"
  proof
    fix x assume "x \<in> set (drop i m)"
    then obtain j where j: "j < length m - i" "x = m ! (i + j)" by (auto simp: in_set_conv_nth)
    then have "j \<noteq> 0 \<Longrightarrow> fst (m ! i) < fst x" using s by (simp add: sorted_wrt_iff_nth_less)
    then show "\<not> fst x < fst (m ! i)" using j(2) by (cases "j = 0") auto
  qed
  have "filter (\<lambda>(j, _). j < fst (m ! i)) (take i m @ drop i m) = take i m"
    using l r unfolding filter_append by (simp add: filter_empty_conv case_prod_beta)
  moreover have "filter (\<lambda>(j, _). \<not> j < fst (m ! i)) (take i m @ drop i m) = drop i m"
    using l r unfolding filter_append by (simp add: filter_empty_conv case_prod_beta)
  ultimately show ?thesis by (simp add: bt_split_off_def)
qed

section \<open>The items of a well-formed subtree\<close>

lemma elems_wf_cong:
  "elems_wf L P es hi \<Longrightarrow> (\<And>lo hi n e. e \<in> set es \<Longrightarrow> resolve L (ie_ptr e) = Some n \<Longrightarrow> P lo hi n \<Longrightarrow> resolve L' (ie_ptr e) = Some n \<and> P' lo hi n) \<Longrightarrow>
   elems_wf L' P' es hi"
proof (induction es)
  case (Cons e es)
  have "elem_wf L P (next_key es hi) e" "elems_wf L P es hi" using Cons.prems(1) by simp_all
  then have "elem_wf L' P' (next_key es hi) e" using Cons.prems(2)[of e] by (auto simp: elem_wf_def)
  moreover have "elems_wf L' P' es hi"
    using Cons.IH[OF \<open>elems_wf L P es hi\<close>] Cons.prems(2) by (meson list.set_intros(2))
  ultimately show ?case by simp
qed simp

lemma elems_wf_items:
  assumes "\<And>lo hi n. P lo hi n \<Longrightarrow> bt_ok (node_items L h n) \<and> (\<forall>k \<in> set (bt_keys (node_items L h n)). lo \<le> k \<and> below k hi)"
    "elems_wf L P es hi"
  shows "bt_ok (elems_items L h es) \<and> (\<forall>k \<in> set (bt_keys (elems_items L h es)). (es \<noteq> [] \<and> ie_key (hd es) \<le> k) \<and> below k hi)"
  using assms(2)
proof (induction es)
  case (Cons e es)
  from Cons.prems obtain n where n: "resolve L (ie_ptr e) = Some n" "P (ie_key e) (next_key es hi) n" "below (ie_key e) (next_key es hi)"
    by (auto simp: elem_wf_def)
  have ei: "elem_items L h e = node_items L h n" using n(1) by (simp add: elem_items_def elem_map_def)
  have e: "bt_ok (elem_items L h e)" "\<forall>k \<in> set (bt_keys (elem_items L h e)). ie_key e \<le> k \<and> below k (next_key es hi)"
    using assms(1)[OF n(2)] ei by simp_all
  have IH: "bt_ok (elems_items L h es)" "\<forall>k \<in> set (bt_keys (elems_items L h es)). (es \<noteq> [] \<and> ie_key (hd es) \<le> k) \<and> below k hi"
    using Cons by auto
  have sep: "\<forall>a \<in> set (bt_keys (elem_items L h e)). \<forall>b \<in> set (bt_keys (elems_items L h es)). a < b"
    using e(2) IH(2) by (cases es) (fastforce)+
  have nb: "below k (next_key es hi) \<Longrightarrow> below k hi" for k
    using elems_wf_sorted[of L P es hi] Cons.prems by (cases es) (auto intro: below_less)
  have "\<forall>k \<in> set (bt_keys (elems_items L h es)). ie_key e \<le> k"
    using IH(2) n(3) by (cases es) fastforce+
  then show ?case using e IH sep nb by auto
qed simp

lemma node_wf_items:
  "node_wf L lim h lo hi n \<Longrightarrow> bt_ok (node_items L h n) \<and> (\<forall>k \<in> set (bt_keys (node_items L h n)). lo \<le> k \<and> below k hi)"
proof (induction h arbitrary: lo hi n)
  case 0
  then show ?case by (cases n) auto
next
  case (Suc h)
  then obtain es where es: "n = IntNode es" "lo \<le> ie_key (hd es)" "elems_wf L (child_wf L lim h) es hi"
    by (cases n) auto
  have "bt_ok (elems_items L h es) \<and> (\<forall>k \<in> set (bt_keys (elems_items L h es)). (es \<noteq> [] \<and> ie_key (hd es) \<le> k) \<and> below k hi)"
    using Suc.IH es(3) by (intro elems_wf_items[where P = "child_wf L lim h"]) blast+
  then show ?case using es by auto
qed

lemmas child_items = elems_wf_items[where P = "child_wf L lim h" for L lim h, OF node_wf_items, OF conjunct1]

section \<open>Frames\<close>

text \<open>What a subtree means depends only on the records at its own addresses.\<close>

lemma node_frame:
  assumes "node_wf L lim h lo hi n" "\<forall>a \<in> set (node_addrs L h n). L' a = L a"
  shows "node_wf L' lim h lo hi n \<and> node_items L' h n = node_items L h n \<and> node_addrs L' h n = node_addrs L h n"
  using assms
proof (induction h arbitrary: lo hi n)
  case 0
  then show ?case by (cases n) simp_all
next
  case (Suc h)
  from Suc.prems(1) obtain es where es: "n = IntNode es" "es \<noteq> []" "lo \<le> ie_key (hd es)" "elems_wf L (child_wf L lim h) es hi"
    by (cases n) auto
  have mem: "\<exists>lo hi c. resolve L (ie_ptr e) = Some c \<and> node_wf L lim h lo hi c" if "e \<in> set es" for e
    using es(4) that by (induction es arbitrary: hi) (auto simp: elem_wf_def)
  have rs: "resolve L' (ie_ptr e) = resolve L (ie_ptr e)" if "e \<in> set es" for e
    using that Suc.prems(2) es(1) by (cases "ie_ptr e") (auto simp: elems_addrs_def elem_addrs_def)
  have sub: "\<forall>a \<in> set (node_addrs L h c). L' a = L a" if "e \<in> set es" "resolve L (ie_ptr e) = Some c" for e c
    using that Suc.prems(2) es(1) by (auto simp: elems_addrs_def elem_addrs_def elem_map_def)
  have wf: "elems_wf L' (child_wf L' lim h) es hi"
  proof (rule elems_wf_cong[OF es(4)], intro conjI)
    fix lo hi c e assume a: "e \<in> set es" "resolve L (ie_ptr e) = Some c" "node_wf L lim h lo hi c \<and> fanout_ok lim c"
    show "resolve L' (ie_ptr e) = Some c" using rs a by simp
    show "node_wf L' lim h lo hi c" using Suc.IH[OF conjunct1[OF a(3)] sub[OF a(1,2)]] by simp
    show "fanout_ok lim c" using a by simp
  qed
  have same: "elem_items L' h e = elem_items L h e \<and> elem_addrs L' h e = elem_addrs L h e" if e: "e \<in> set es" for e
  proof -
    obtain lo hi c where c: "resolve L (ie_ptr e) = Some c" "node_wf L lim h lo hi c" using mem[OF e] by blast
    show ?thesis
      using Suc.IH[OF c(2) sub[OF e c(1)]] rs[OF e] c(1) by (simp add: elem_items_def elem_addrs_def elem_map_def)
  qed
  then have "elems_items L' h es = elems_items L h es" "elems_addrs L' h es = elems_addrs L h es"
    by (simp_all add: elems_items_def elems_addrs_def cong: map_cong)
  then show ?case using es wf by simp
qed

lemma elems_frame:
  assumes "elems_wf L (child_wf L lim h) es hi" "\<forall>a \<in> set (elems_addrs L h es). L' a = L a"
  shows "elems_wf L' (child_wf L' lim h) es hi \<and> elems_items L' h es = elems_items L h es \<and> elems_addrs L' h es = elems_addrs L h es"
proof (cases "es = []")
  case False
  have "node_wf L lim (Suc h) (ie_key (hd es)) hi (IntNode es)" using assms(1) False by simp
  from node_frame[OF this, of L'] show ?thesis using assms(2) by simp
qed simp

end
