(* ===== verification/Btree_Correct.thy ===== *)
theory Btree_Correct
  imports Btree_Inv
begin

text \<open>
  Lookup, insertion and removal in the B+-tree behave as on one sorted map, whatever the data management layer answers: an operation
  that fails leaves the items as they were, an operation that succeeds has its effect and returns the old value. A node that is
  taken out of the data management layer is freed exactly when the tree stops using its address.
\<close>

section \<open>Taking records out of the store\<close>

definition pops :: "('a \<rightharpoonup> 'n) \<Rightarrow> 'a list \<Rightarrow> ('a \<rightharpoonup> 'n) \<Rightarrow> 'a list \<Rightarrow> bool" where
  "pops L as L' as' \<longleftrightarrow> (\<exists>P. P \<subseteq> set as \<and> L' = L |` (- P) \<and> as' = filter (\<lambda>a. a \<notin> P) as)"

lemma pops_refl [simp, intro]: "pops L as L as"
  unfolding pops_def by (rule exI[of _ "{}"]) (simp add: restrict_map_def)

lemma pops_one: "distinct (xs @ a # ys) \<Longrightarrow> pops L (xs @ a # ys) (L(a := None)) (xs @ ys)"
  unfolding pops_def
  by (rule exI[of _ "{a}"]) (auto simp: restrict_map_def fun_eq_iff filter_id_conv
    intro!: arg_cong2[of _ _ _ _ append] filter_True[symmetric])

lemma pops_trans: "pops L as L' as' \<Longrightarrow> pops L' as' L'' as'' \<Longrightarrow> pops L as L'' as''"
proof -
  assume "pops L as L' as'" "pops L' as' L'' as''"
  then obtain P Q where "P \<subseteq> set as" "L' = L |` (- P)" "as' = filter (\<lambda>a. a \<notin> P) as"
      "Q \<subseteq> set as'" "L'' = L' |` (- Q)" "as'' = filter (\<lambda>a. a \<notin> Q) as'"
    unfolding pops_def by blast
  then show ?thesis unfolding pops_def by (intro exI[of _ "P \<union> Q"]) (auto simp: Int_commute)
qed

lemma pops_distinct: "pops L as L' as' \<Longrightarrow> distinct as \<Longrightarrow> distinct as' \<and> set as' \<subseteq> set as"
  by (auto simp: pops_def)

lemma pops_other: "pops L as L' as' \<Longrightarrow> a \<notin> set as \<Longrightarrow> L' a = L a"
  by (auto simp: pops_def restrict_map_def)

lemma pops_middle:
  assumes "pops L cs L' cs'" "distinct (xs @ cs @ ys)"
  shows "pops L (xs @ cs @ ys) L' (xs @ cs' @ ys)"
proof -
  obtain P where P: "P \<subseteq> set cs" "L' = L |` (- P)" "cs' = filter (\<lambda>a. a \<notin> P) cs" using assms(1) by (auto simp: pops_def)
  have "filter (\<lambda>a. a \<notin> P) xs = xs" "filter (\<lambda>a. a \<notin> P) ys = ys"
    using P(1) assms(2) by (auto intro!: filter_True)
  then show ?thesis unfolding pops_def using P by (intro exI[of _ P]) auto
qed

section \<open>Limits\<close>

definition fanouts_ok :: "Limits \<Rightarrow> bool" where
  "fanouts_ok l \<longleftrightarrow> 1 \<le> min_leaf_fanout l \<and> 2 \<le> min_int_fanout l \<and> 2 * min_leaf_fanout l \<le> max_leaf_fanout l \<and>
     2 * min_int_fanout l \<le> max_int_fanout l \<and> max_leaf_fanout l < 2 ^ 16 \<and> max_int_fanout l < 2 ^ 16"

lemma fanouts_node:
  "fanouts_ok l \<Longrightarrow> 1 \<le> node_min_fanout l n \<and> 2 * node_min_fanout l n \<le> node_max_fanout l n \<and> node_max_fanout l n < 2 ^ 16"
  by (auto simp: fanouts_ok_def node_min_fanout_def node_max_fanout_def)

section \<open>Children\<close>

definition es_ok :: "('a, 'k :: linorder, 'v) store \<Rightarrow> Limits \<Rightarrow> nat \<Rightarrow> ('a, 'k, 'v) IntElem list \<Rightarrow> 'k option \<Rightarrow> bool" where
  "es_ok L lim h es hi \<longleftrightarrow> elems_wf L (child_wf L lim h) es hi \<and> distinct (elems_addrs L h es)"

lemma position_split:
  assumes "elems_wf L P es hi" "es \<noteq> []"
  obtains as e bs where "es = as @ e # bs" "position es k = length as" "as \<noteq> [] \<longrightarrow> ie_key e \<le> k" "\<forall>x \<in> set bs. k < ie_key x"
proof -
  define ls where "ls = takeWhile (\<lambda>e. ie_key e \<le> k) es"
  define rs where "rs = dropWhile (\<lambda>e. ie_key e \<le> k) es"
  have es: "es = ls @ rs" by (simp add: ls_def rs_def)
  have ls: "\<forall>x \<in> set ls. ie_key x \<le> k" using set_takeWhileD unfolding ls_def by fastforce
  have srt: "sorted_wrt (<) (map ie_key es)" using elems_wf_sorted[OF assms(1)] by simp
  have rs: "\<forall>x \<in> set rs. k < ie_key x"
  proof (cases rs)
    case (Cons r rs')
    have "\<not> ie_key r \<le> k" using hd_dropWhile[of "\<lambda>e. ie_key e \<le> k" es] Cons unfolding rs_def by fastforce
    moreover have "\<forall>x \<in> set rs'. ie_key r < ie_key x" using srt es Cons by (simp add: sorted_wrt_append)
    ultimately show ?thesis using Cons by force
  qed simp
  have pos: "position es k = length ls - 1" by (simp add: position_def ls_def)
  show ?thesis
  proof (cases ls rule: rev_cases)
    case Nil
    then obtain e bs where "es = e # bs" using es assms(2) by (cases rs) auto
    then show ?thesis using that[of "[]" e bs] Nil es pos rs by simp
  next
    case (snoc as e)
    then show ?thesis using that[of as e rs] es pos ls rs by simp
  qed
qed

lemma next_key_below: "below k hi \<Longrightarrow> \<forall>x \<in> set bs. k < ie_key x \<Longrightarrow> below k (next_key bs hi)"
  by (cases bs) simp_all

text \<open>The items left and right of the child at the position of a key.\<close>

lemma keys_left:
  assumes "elems_wf L (child_wf L lim h) (as @ e # bs) hi" "as \<noteq> [] \<longrightarrow> ie_key e \<le> k"
  shows "\<forall>j \<in> set (bt_keys (elems_items L h as)). j < k"
proof
  fix j assume j: "j \<in> set (bt_keys (elems_items L h as))"
  then have "as \<noteq> []" by auto
  moreover have "elems_wf L (child_wf L lim h) as (Some (ie_key e))" using assms(1) by simp
  from child_items[OF _ this] have "\<forall>k \<in> set (bt_keys (elems_items L h as)). k < ie_key e" by simp
  ultimately show "j < k" using j assms(2) by fastforce
qed

lemma keys_right:
  assumes "elems_wf L (child_wf L lim h) (as @ e # bs) hi" "\<forall>x \<in> set bs. k < ie_key x"
  shows "\<forall>j \<in> set (bt_keys (elems_items L h bs)). k < j"
proof -
  have "elems_wf L (child_wf L lim h) bs hi" using assms(1) by simp
  from child_items[OF _ this] have "\<forall>j \<in> set (bt_keys (elems_items L h bs)). bs \<noteq> [] \<and> ie_key (hd bs) \<le> j" by simp
  then show ?thesis using assms(2) by (cases bs) fastforce+
qed

text \<open>Some neighbouring children are replaced, together with the records that they use.\<close>

lemma elems_replace:
  assumes "es_ok L lim h (as @ ms @ bs) hi" "ms \<noteq> []" "ns \<noteq> []" "as = [] \<or> ie_key (hd ns) = ie_key (hd ms)"
    and ns: "elems_wf L' (child_wf L' lim h) ns (next_key bs hi)" "pops L (elems_addrs L h ms) L' (elems_addrs L' h ns)"
  shows "es_ok L' lim h (as @ ns @ bs) hi \<and>
    elems_items L' h (as @ ns @ bs) = elems_items L h as @ elems_items L' h ns @ elems_items L h bs \<and>
    pops L (elems_addrs L h (as @ ms @ bs)) L' (elems_addrs L' h (as @ ns @ bs))"
proof -
  have d: "distinct (elems_addrs L h as @ elems_addrs L h ms @ elems_addrs L h bs)"
    using assms(1) by (simp add: es_ok_def)
  have wfa: "elems_wf L (child_wf L lim h) as (next_key (ms @ bs) hi)" and wfb: "elems_wf L (child_wf L lim h) bs hi"
    using assms(1) by (simp_all add: es_ok_def)
  have other: "L' a = L a" if "a \<notin> set (elems_addrs L h ms)" for a
    using pops_other[OF ns(2) that] .
  have fa: "elems_wf L' (child_wf L' lim h) as (next_key (ms @ bs) hi)" "elems_items L' h as = elems_items L h as"
      "elems_addrs L' h as = elems_addrs L h as"
    using elems_frame[OF wfa, of L'] d other by auto
  have fb: "elems_wf L' (child_wf L' lim h) bs hi" "elems_items L' h bs = elems_items L h bs" "elems_addrs L' h bs = elems_addrs L h bs"
    using elems_frame[OF wfb, of L'] d other by auto
  have nk: "as = [] \<or> next_key (ms @ bs) hi = next_key (ns @ bs) hi"
    using assms(2-4) by (cases ms; cases ns) auto
  have wf: "elems_wf L' (child_wf L' lim h) (as @ ns @ bs) hi" using fa(1) fb(1) ns(1) nk by auto
  have p: "pops L (elems_addrs L h (as @ ms @ bs)) L' (elems_addrs L' h (as @ ns @ bs))"
    using pops_middle[OF ns(2) d] fa fb by simp
  have "distinct (elems_addrs L' h (as @ ns @ bs))" using pops_distinct[OF p] d by simp
  then show ?thesis using wf p fa fb by (simp add: es_ok_def)
qed

text \<open>The transaction range of an element does not matter.\<close>

lemma set_txg_simps [simp]:
  "ie_key (set_txgs t e) = ie_key e" "ie_ptr (set_txgs t e) = ie_ptr e" "ie_key (set_end s e) = ie_key e" "ie_ptr (set_end s e) = ie_ptr e"
  "ie_key (set_start s e) = ie_key e" "ie_ptr (set_start s e) = ie_ptr e" "ie_key (set_ptr p e) = ie_key e" "ie_ptr (set_ptr p e) = p"
  "ie_key (set_key k e) = k" "ie_ptr (set_key k e) = ie_ptr e"
  by (cases e; simp add: set_end_def set_start_def)+

lemma elem_same_ptr: "ie_ptr e' = ie_ptr e \<Longrightarrow> elem_items L h e' = elem_items L h e \<and> elem_addrs L h e' = elem_addrs L h e"
  by (simp add: elem_items_def elem_addrs_def elem_map_def)

lemma es_same_ptr:
  assumes "es_ok L lim h (as @ e # bs) hi" "ie_key e' = ie_key e" "ie_ptr e' = ie_ptr e"
  shows "es_ok L lim h (as @ e' # bs) hi" "elems_items L h (as @ e' # bs) = elems_items L h (as @ e # bs)"
    "elems_addrs L h (as @ e' # bs) = elems_addrs L h (as @ e # bs)"
  using assms elem_same_ptr[OF assms(3), of L h] by (simp_all add: es_ok_def elem_wf_def)

lemma node_wf_start:
  assumes "node_wf L lim h lo hi n"
  obtains s where "node_start_txg txg n = Some s"
  using assms by (cases n) (auto simp: node_start_txg_def int_start_txg_def node_wf_int)

text \<open>A child of a well-formed node.\<close>

lemma es_child:
  assumes "es_ok L lim h (as @ e # bs) hi"
  obtains n where "resolve L (ie_ptr e) = Some n" "node_wf L lim h (ie_key e) (next_key bs hi) n" "fanout_ok lim n"
    "below (ie_key e) (next_key bs hi)" "elem_items L h e = node_items L h n" "elem_addrs L h e = ptr_addrs (ie_ptr e) @ node_addrs L h n"
  using assms by (auto simp: es_ok_def elem_wf_def elem_items_def elem_addrs_def elem_map_def)

text \<open>A child is put in the place of another one, with its record taken out of the store.\<close>

lemma es_set_child:
  assumes "es_ok L lim h (as @ e # bs) hi" "ie_ptr e' = PMem n'" "as = [] \<or> ie_key e' = ie_key e" "below (ie_key e') (next_key bs hi)"
    and n': "node_wf L' lim h (ie_key e') (next_key bs hi) n'" "fanout_ok lim n'" "pops L (elem_addrs L h e) L' (node_addrs L' h n')"
  shows "es_ok L' lim h (as @ e' # bs) hi \<and>
    elems_items L' h (as @ e' # bs) = elems_items L h as @ node_items L' h n' @ elems_items L h bs \<and>
    pops L (elems_addrs L h (as @ e # bs)) L' (elems_addrs L' h (as @ e' # bs))"
  using elems_replace[of L lim h as "[e]" bs hi "[e']" L'] assms by (simp add: elem_wf_def)

text \<open>A record is taken out of the store and becomes the node itself.\<close>

lemma pop_child:
  assumes "ie_ptr e = PAddr a" "L a = Some n" "node_wf L lim h lo hi n" "distinct (elem_addrs L h e)"
  shows "node_wf (L(a := None)) lim h lo hi n" "node_items (L(a := None)) h n = node_items L h n"
    "pops L (elem_addrs L h e) (L(a := None)) (node_addrs (L(a := None)) h n)"
proof -
  have ea: "elem_addrs L h e = a # node_addrs L h n" by (rule elem_addr(2)[of e a L]) (use assms in simp_all)
  have dist: "distinct (a # node_addrs L h n)" using assms(4) ea by simp
  have f: "node_wf (L(a := None)) lim h lo hi n \<and> node_items (L(a := None)) h n = node_items L h n \<and>
      node_addrs (L(a := None)) h n = node_addrs L h n"
    using dist by (intro node_frame[OF assms(3)]) auto
  then show "node_wf (L(a := None)) lim h lo hi n" "node_items (L(a := None)) h n = node_items L h n" by simp_all
  show "pops L (elem_addrs L h e) (L(a := None)) (node_addrs (L(a := None)) h n)"
    using f pops_one[of "[]" a "node_addrs L h n" L] dist ea by simp
qed

text \<open>The data management layer holds the nodes of the trees.\<close>

locale tree_store = dml_laws dml rep fits
  for dml :: "('d, 'a, ('a, 'k :: {linorder, order_bot}, 'v) NodeData) Dml" and rep :: "'d \<Rightarrow> ('a, 'k, 'v) store \<Rightarrow> bool"
    and fits :: "('a, 'k, 'v) NodeData \<Rightarrow> bool"
begin

lemma xlock_spec:
  assumes "rep d L" "es_ok L lim h (as @ e # bs) hi"
  obtains r e' d' L' where "xlock dml (as @ e # bs) (length as) txg d = Some (r, as @ e' # bs, d')" "rep d' L'" "ie_key e' = ie_key e"
    "es_ok L' lim h (as @ e' # bs) hi" "elems_items L' h (as @ e' # bs) = elems_items L h (as @ e # bs)"
    "pops L (elems_addrs L h (as @ e # bs)) L' (elems_addrs L' h (as @ e' # bs))"
    "\<forall>n. r = Inr n \<longrightarrow> ie_ptr e' = PMem n"
proof -
  let ?e = "set_end (txg_add txg 1) e"
  note ok = es_same_ptr[OF assms(2), of ?e]
  obtain n where n: "resolve L (ie_ptr e) = Some n" "node_wf L lim h (ie_key e) (next_key bs hi) n" "fanout_ok lim n"
      "below (ie_key e) (next_key bs hi)" "elem_items L h e = node_items L h n"
    using es_child[OF assms(2)] by metis
  show ?thesis
  proof (cases "ie_ptr e")
    case (PMem m)
    have "xlock dml (as @ e # bs) (length as) txg d = Some (Inr m, as @ ?e # bs, d)" by (simp add: xlock_def PMem)
    then show ?thesis using that[of "Inr m" ?e d L] ok assms(1) PMem by simp
  next
    case (PAddr a)
    then have l: "L a = Some n" using n(1) by simp
    from pop_law[OF assms(1) l, of txg] obtain r d' L' where pop: "dml_pop dml d a txg = Some (r, d')" "rep d' L'"
        "case r of Inr n' \<Rightarrow> n' = n \<and> L' = L(a := None) | Inl _ \<Rightarrow> L' = L" by blast
    show ?thesis
    proof (cases r)
      case (Inl err)
      have "xlock dml (as @ e # bs) (length as) txg d = Some (Inl err, as @ ?e # bs, d')" using pop(1) Inl by (simp add: xlock_def PAddr)
      then show ?thesis using that[of "Inl err" ?e d' L'] ok pop Inl PAddr by simp
    next
      case (Inr m)
      then have m: "m = n" "L' = L(a := None)" using pop(3) by simp_all
      obtain s where s: "node_start_txg txg n = Some s" by (rule node_wf_start[OF n(2)])
      have "distinct (elem_addrs L h e)" using assms(2) by (simp add: es_ok_def)
      note pc = pop_child[OF PAddr l n(2) this]
      let ?e' = "set_start s (set_ptr (PMem n) ?e)"
      have x: "xlock dml (as @ e # bs) (length as) txg d = Some (Inr n, as @ ?e' # bs, d')"
        using pop(1) Inr m s by (simp add: xlock_def PAddr)
      have c: "es_ok L' lim h (as @ ?e' # bs) hi \<and>
          elems_items L' h (as @ ?e' # bs) = elems_items L h as @ node_items L' h n @ elems_items L h bs \<and>
          pops L (elems_addrs L h (as @ e # bs)) L' (elems_addrs L' h (as @ ?e' # bs))"
        using pc m(2) n(3,4) by (intro es_set_child[OF assms(2)]) simp_all
      have i: "node_items L' h n = node_items L h n" using pc m(2) by simp
      show ?thesis
        by (rule that[of "Inr n" ?e' d' L']) (use x pop(2) c i n(5) PAddr in simp_all)
    qed
  qed (use n(1) in simp)
qed

end

section \<open>Cutting and joining nodes\<close>

fun node_take :: "nat \<Rightarrow> ('a, 'k, 'v) NodeData \<Rightarrow> ('a, 'k, 'v) NodeData" where
  "node_take i (LeafNode xs) = LeafNode (take i xs)"
| "node_take i (IntNode es) = IntNode (take i es)"

fun node_drop :: "nat \<Rightarrow> ('a, 'k, 'v) NodeData \<Rightarrow> ('a, 'k, 'v) NodeData" where
  "node_drop i (LeafNode xs) = LeafNode (drop i xs)"
| "node_drop i (IntNode es) = IntNode (drop i es)"

fun node_app :: "('a, 'k, 'v) NodeData \<Rightarrow> ('a, 'k, 'v) NodeData \<Rightarrow> ('a, 'k, 'v) NodeData" where
  "node_app (LeafNode xs) m = (case m of LeafNode ys \<Rightarrow> LeafNode (xs @ ys) | _ \<Rightarrow> LeafNode xs)"
| "node_app (IntNode es) m = (case m of IntNode fs \<Rightarrow> IntNode (es @ fs) | _ \<Rightarrow> IntNode es)"

lemma node_cut_simps [simp]:
  "node_len (node_take i n) = min i (node_len n)" "node_len (node_drop i n) = node_len n - i"
  "is_leaf (node_take i n) = is_leaf n" "is_leaf (node_drop i n) = is_leaf n" "is_leaf (node_app n m) = is_leaf n"
  by (cases n; cases m; simp add: min_def)+

lemma same_fanout: "is_leaf m = is_leaf n \<Longrightarrow> node_min_fanout lim m = node_min_fanout lim n \<and> node_max_fanout lim m = node_max_fanout lim n"
  by (simp add: node_min_fanout_def node_max_fanout_def)

lemma node_wf_is_leaf: "node_wf L lim h lo hi n \<Longrightarrow> is_leaf n \<longleftrightarrow> h = 0"
  by (cases n) (auto simp: node_wf_int)

lemma drop_head: "i < length xs \<Longrightarrow> \<exists>ys. drop i xs = xs ! i # ys"
  by (metis Cons_nth_drop_Suc)

lemma node_cut:
  assumes "node_wf L lim h lo hi n" "0 < i" "i < node_len n"
  obtains key where "node_key (node_drop i n) = Some key" "lo < key" "below key hi"
    "node_wf L lim h lo (Some key) (node_take i n)" "node_wf L lim h key hi (node_drop i n)"
    "node_items L h (node_take i n) @ node_items L h (node_drop i n) = node_items L h n"
    "node_addrs L h (node_take i n) @ node_addrs L h (node_drop i n) = node_addrs L h n"
proof (cases n)
  case (LeafNode xs)
  let ?k = "fst (xs ! i)"
  obtain ys where ys: "drop i xs = xs ! i # ys" using drop_head[of i xs] assms(3) LeafNode by auto
  have h: "h = 0" and ok: "bt_ok (take i xs @ drop i xs)" and r: "\<forall>k \<in> set (bt_keys xs). lo \<le> k \<and> below k hi"
    using assms(1) LeafNode by auto
  have l: "\<forall>k \<in> set (bt_keys (take i xs)). lo \<le> k \<and> k < ?k"
    using ok[unfolded bt_ok_append] r ys by (fastforce dest: in_set_takeD)
  have t: "\<forall>k \<in> set (bt_keys (drop i xs)). ?k \<le> k \<and> below k hi"
  proof -
    have "bt_ok ((?k, snd (xs ! i)) # ys)" using ok ys unfolding bt_ok_append by simp
    then have "\<forall>k \<in> set (bt_keys (drop i xs)). ?k \<le> k" unfolding ys bt_ok_Cons by auto
    moreover have "\<forall>k \<in> set (bt_keys (drop i xs)). below k hi" using r by (auto dest: in_set_dropD)
    ultimately show ?thesis by blast
  qed
  have "take i xs \<noteq> []" using assms(2,3) LeafNode by auto
  then have "lo < ?k" using l by (cases "take i xs") fastforce+
  moreover have "below ?k hi" using t ys by simp
  moreover have "map_option fst (vec_get (drop i xs) 0) = Some ?k" using ys by simp
  moreover have "bt_ok (take i xs)" "bt_ok (drop i xs)" using ok unfolding bt_ok_append by simp_all
  ultimately show ?thesis using that[of ?k] LeafNode h ok l t by simp
next
  case (IntNode es)
  let ?k = "ie_key (es ! i)"
  obtain g where g: "h = Suc g" and lo: "es \<noteq> []" "lo \<le> ie_key (hd es)" and wf: "elems_wf L (child_wf L lim g) (take i es @ drop i es) hi"
    using assms(1) IntNode by (auto simp: node_wf_int)
  obtain fs where fs: "drop i es = es ! i # fs" using drop_head[of i es] assms(3) IntNode by auto
  have split: "elems_wf L (child_wf L lim g) (take i es) (Some ?k)" "elems_wf L (child_wf L lim g) (drop i es) hi"
    using wf fs unfolding elems_wf_append by simp_all
  have ne: "take i es \<noteq> []" and hd: "hd (take i es) = hd es" using assms(2) lo(1) by (auto simp: hd_take)
  then have "hd es \<in> set (take i es)" by (metis hd_in_set)
  then have "lo < ?k" using elems_wf_sorted[OF split(1)] lo(2) by fastforce
  moreover have "below ?k hi" using elems_wf_sorted[OF split(2)] fs by simp
  moreover have "map_option ie_key (vec_get (drop i es) 0) = Some ?k" using fs by simp
  moreover have "elems_items L g (take i es) @ elems_items L g (drop i es) = elems_items L g es"
      "elems_addrs L g (take i es) @ elems_addrs L g (drop i es) = elems_addrs L g es"
    unfolding elems_simps(3,6)[symmetric] by simp_all
  ultimately show ?thesis using that[of ?k] IntNode g split lo ne hd fs by simp
qed

lemma node_join:
  assumes "node_wf L lim h lo (Some key) n" "node_wf L lim h key hi m" "below key hi" "lo \<le> key"
  shows "node_wf L lim h lo hi (node_app n m) \<and> node_items L h (node_app n m) = node_items L h n @ node_items L h m \<and>
    node_addrs L h (node_app n m) = node_addrs L h n @ node_addrs L h m \<and> node_len (node_app n m) = node_len n + node_len m"
proof (cases n)
  case (LeafNode xs)
  then obtain ys where m: "m = LeafNode ys" and h: "h = 0" using assms(1,2) by (cases m) (auto simp: node_wf_int)
  have x: "bt_ok xs" "\<forall>k \<in> set (bt_keys xs). lo \<le> k \<and> k < key" and y: "bt_ok ys" "\<forall>k \<in> set (bt_keys ys). key \<le> k \<and> below k hi"
    using assms(1,2) LeafNode m by auto
  have "\<forall>a \<in> set (bt_keys xs). \<forall>b \<in> set (bt_keys ys). a < b" using x(2) y(2) by fastforce
  moreover have "lo \<le> k \<and> below k hi" if "k \<in> set (bt_keys (xs @ ys))" for k
  proof (cases "k \<in> set (bt_keys xs)")
    case True
    then show ?thesis using x(2) below_less[OF _ assms(3)] by blast
  next
    case False
    then have "key \<le> k" "below k hi" using that y(2) by auto
    then show ?thesis using assms(4) by force
  qed
  ultimately show ?thesis using LeafNode m h x y by auto
next
  case (IntNode es)
  then obtain fs g where m: "m = IntNode fs" and h: "h = Suc g" using assms(1,2) by (cases m) (auto simp: node_wf_int)
  have e: "es \<noteq> []" "lo \<le> ie_key (hd es)" "elems_wf L (child_wf L lim g) es (Some key)"
    and f: "fs \<noteq> []" "key \<le> ie_key (hd fs)" "elems_wf L (child_wf L lim g) fs hi"
    using assms(1,2) IntNode m h by auto
  have "elems_wf L (child_wf L lim g) es (next_key fs hi)"
    using f(1,2) by (intro elems_wf_mono_hi[OF _ _ e(3)]) (cases fs; auto intro: node_wf_hi)+
  then show ?thesis using IntNode m h e f by simp
qed

section \<open>Splitting\<close>

lemma left_items_ok:
  assumes "1 \<le> m" "2 * m \<le> len" "len < 2 ^ 16"
  obtains i where "(if seq then Some (wsub 64 len m) else div_roundup 64 len 2) = Some i" "m \<le> i" "i + m \<le> len"
proof (cases seq)
  case True
  then show ?thesis using that[of "len - m"] assms by (simp add: wsub_id)
next
  case False
  then show ?thesis using that[of "(len + 1) div 2"] assms div_roundup_eq[of 2 len 64] by simp
qed

lemma node_split_spec:
  assumes "fanouts_ok lim" "node_wf L lim h lo hi n" "node_len n = node_max_fanout lim n"
  obtains t e l r where "node_split lim seq txg n = Some (t, e, l)" "ie_ptr e = PMem r" "lo < ie_key e" "below (ie_key e) hi"
    "node_wf L lim h lo (Some (ie_key e)) l" "node_wf L lim h (ie_key e) hi r" "fanout_ok lim l" "fanout_ok lim r"
    "node_len l < node_max_fanout lim l" "node_len r < node_max_fanout lim r"
    "node_items L h l @ node_items L h r = node_items L h n" "node_addrs L h l @ node_addrs L h r = node_addrs L h n"
proof -
  note lim = fanouts_node[OF assms(1), of n]
  obtain i where i: "(if seq then Some (wsub 64 (node_len n) (node_min_fanout lim n)) else div_roundup 64 (node_len n) 2) = Some i"
      "node_min_fanout lim n \<le> i" "i + node_min_fanout lim n \<le> node_len n"
    using left_items_ok[of "node_min_fanout lim n" "node_len n" seq] lim assms(3) by auto
  have i': "0 < i" "i < node_len n" using i lim by linarith+
  obtain key where cut: "node_key (node_drop i n) = Some key" "lo < key" "below key hi"
      "node_wf L lim h lo (Some key) (node_take i n)" "node_wf L lim h key hi (node_drop i n)"
      "node_items L h (node_take i n) @ node_items L h (node_drop i n) = node_items L h n"
      "node_addrs L h (node_take i n) @ node_addrs L h (node_drop i n) = node_addrs L h n"
    using node_cut[OF assms(2) i'] by metis
  have "\<exists>t e. node_split lim seq txg n = Some (t, e, node_take i n) \<and> ie_key e = key \<and> ie_ptr e = PMem (node_drop i n)"
  proof (cases n)
    case (LeafNode xs)
    have "bt_ok xs" using assms(2) LeafNode by simp
    then show ?thesis
      unfolding node_split_def i(1)
      using i' cut(1) LeafNode bt_split_off_nth[of xs i] by (simp add: leaf_split_def case_prod_beta Let_def)
  next
    case (IntNode es)
    then show ?thesis
      unfolding node_split_def i(1)
      using i' cut(1) by (auto simp: int_split_def int_start_txg_def Let_def)
  qed
  then obtain t e where e: "node_split lim seq txg n = Some (t, e, node_take i n)" "ie_key e = key" "ie_ptr e = PMem (node_drop i n)"
    by blast
  have f: "fanout_ok lim (node_take i n)" "fanout_ok lim (node_drop i n)"
      "node_len (node_take i n) < node_max_fanout lim (node_take i n)" "node_len (node_drop i n) < node_max_fanout lim (node_drop i n)"
    using i i' lim assms(3) same_fanout[of "node_take i n" n lim] same_fanout[of "node_drop i n" n lim]
    by (simp_all add: fanout_ok_def min_def)
  show ?thesis by (rule that[OF e(1) e(3)]) (use e(2) cut f in simp_all)
qed

definition split_ok ::
    "('a, 'k :: linorder, 'v) store \<Rightarrow> Limits \<Rightarrow> nat \<Rightarrow> 'k \<Rightarrow> 'k option \<Rightarrow> ('a, 'k, 'v) NodeData \<Rightarrow> ('a, 'k, 'v) NodeData \<Rightarrow> ('a, 'k, 'v) IntElem \<Rightarrow> bool" where
  "split_ok L lim h lo hi n l e \<longleftrightarrow> (\<exists>r. ie_ptr e = PMem r \<and> lo < ie_key e \<and> below (ie_key e) hi \<and>
     node_wf L lim h lo (Some (ie_key e)) l \<and> node_wf L lim h (ie_key e) hi r \<and> fanout_ok lim l \<and> fanout_ok lim r \<and>
     node_len l < node_max_fanout lim l \<and> node_len r < node_max_fanout lim r \<and>
     node_items L h l @ node_items L h r = node_items L h n \<and> node_addrs L h l @ node_addrs L h r = node_addrs L h n)"

lemma node_split_ok:
  assumes "fanouts_ok lim" "node_wf L lim h lo hi n" "node_len n = node_max_fanout lim n"
  obtains t e l where "node_split lim seq txg n = Some (t, e, l)" "split_ok L lim h lo hi n l e"
  using node_split_spec[OF assms, of seq txg] unfolding split_ok_def by metis

lemma no_should_split: "node_len n < node_max_fanout lim n \<Longrightarrow> \<not> should_split lim k n"
  by (simp add: should_split_def)

section \<open>Insertion\<close>

text \<open>The outcome of an operation on a sorted map: after an error the map is what it was.\<close>

definition map_outcome :: "('k :: linorder \<times> 'v) list \<Rightarrow> 'k \<Rightarrow> (('k \<times> 'v) list \<Rightarrow> ('k \<times> 'v) list) \<Rightarrow> 'v option result \<Rightarrow> ('k \<times> 'v) list \<Rightarrow> bool" where
  "map_outcome m k f r m' \<longleftrightarrow> (case r of Inl _ \<Rightarrow> m' = m | Inr old \<Rightarrow> old = bt_get m k \<and> m' = f m)"

lemma map_outcome_middle:
  assumes "map_outcome m k f r m'" "k \<notin> set (bt_keys xs)" "k \<notin> set (bt_keys zs)" "f (xs @ m @ zs) = xs @ f m @ zs"
  shows "map_outcome (xs @ m @ zs) k f r (xs @ m' @ zs)"
  using assms bt_get_middle[of k xs zs m] by (auto simp: map_outcome_def split: sum.splits)

lemma bt_insert_length: "bt_get m k = None \<Longrightarrow> length (bt_insert k v m) = Suc (length m)"
  by (induction m) (auto simp: bt_get_Cons split: if_splits)

context tree_store
begin

definition ins_res :: "Limits \<Rightarrow> nat \<Rightarrow> 'k option \<Rightarrow> nat set \<Rightarrow> ('a, 'k, 'v) IntElem list \<Rightarrow> 'k \<Rightarrow> 'v \<Rightarrow> ('a, 'k, 'v) store \<Rightarrow>
    ('v option result \<times> ('a, 'k, 'v) IntElem list \<times> 'd) option \<Rightarrow> bool" where
  "ins_res lim h hi N es k v L res \<longleftrightarrow> (\<exists>r es' d' L'. res = Some (r, es', d') \<and> rep d' L' \<and> es_ok L' lim h es' hi \<and>
     es' \<noteq> [] \<and> min k (ie_key (hd es)) \<le> ie_key (hd es') \<and> length es' \<in> N \<and>
     map_outcome (elems_items L h es) k (bt_insert k v) r (elems_items L' h es') \<and>
     pops L (elems_addrs L h es) L' (elems_addrs L' h es'))"

lemma ins_resI:
  assumes "rep d' L'" "es_ok L' lim h es' hi" "es' \<noteq> []" "min k (ie_key (hd es)) \<le> ie_key (hd es')" "length es' \<in> N"
    "map_outcome (elems_items L h es) k (bt_insert k v) r (elems_items L' h es')"
    "pops L (elems_addrs L h es) L' (elems_addrs L' h es')"
  shows "ins_res lim h hi N es k v L (Some (r, es', d'))"
  unfolding ins_res_def using assms by blast

lemma ins_res_mono: "ins_res lim h hi N es k v L res \<Longrightarrow> N \<subseteq> M \<Longrightarrow> ins_res lim h hi M es k v L res"
  unfolding ins_res_def by blast

lemma ins_res_from:
  assumes "ins_res lim h hi N es1 k v L1 res" "min k (ie_key (hd es)) \<le> ie_key (hd es1)"
    "elems_items L1 h es1 = elems_items L h es"
    "pops L (elems_addrs L h es) L1 (elems_addrs L1 h es1)"
  shows "ins_res lim h hi N es k v L res"
proof -
  obtain r es' d' L' where r: "res = Some (r, es', d')" "rep d' L'" "es_ok L' lim h es' hi" "es' \<noteq> []"
      "min k (ie_key (hd es1)) \<le> ie_key (hd es')" "length es' \<in> N"
      "map_outcome (elems_items L1 h es1) k (bt_insert k v) r (elems_items L' h es')"
      "pops L1 (elems_addrs L1 h es1) L' (elems_addrs L' h es')"
    using assms(1) unfolding ins_res_def by blast
  have "min k (ie_key (hd es)) \<le> ie_key (hd es')" using assms(2) r(5) by (meson min.cobounded1 min.boundedI order.trans)
  moreover note pops_trans[OF assms(4) r(8)]
  ultimately show ?thesis unfolding ins_res_def using r assms(3) by metis
qed

text \<open>The child at the position of the key need not be split.\<close>

lemma ins_child:
  assumes "rep d L" "es_ok L lim h (as @ e # bs) hi" "ie_ptr e = PMem child" "ie_key e \<le> k" "below k hi" "\<forall>x \<in> set bs. k < ie_key x"
    and ns: "\<not> should_split lim k child"
    and rec: "\<And>g ces hi. h = Suc g \<Longrightarrow> es_ok L lim g ces hi \<Longrightarrow> ces \<noteq> [] \<Longrightarrow> length ces < max_int_fanout lim \<Longrightarrow> below k hi \<Longrightarrow>
        ins_res lim g hi {length ces, Suc (length ces)} ces k v L (rec ces k v txg d)"
  shows "ins_res lim h hi {length (as @ e # bs)} (as @ e # bs) k v L (insert_int rec lim seq (as @ e # bs) (length as) child k v txg d)"
proof -
  have wf: "elems_wf L (child_wf L lim h) (as @ e # bs) hi" using assms(2) by (simp add: es_ok_def)
  have c: "node_wf L lim h (ie_key e) (next_key bs hi) child" "fanout_ok lim child" "below (ie_key e) (next_key bs hi)"
      "elem_items L h e = node_items L h child" "elem_addrs L h e = node_addrs L h child"
    using es_child[OF assms(2)] assms(3) by auto
  have kb: "below k (next_key bs hi)" using next_key_below[OF assms(5,6)] .
  have kl: "\<forall>j \<in> set (bt_keys (elems_items L h as)). j < k" using keys_left[OF wf] assms(4) by blast
  have kr: "\<forall>j \<in> set (bt_keys (elems_items L h bs)). k < j" using keys_right[OF wf assms(6)] .
  have whole: "ins_res lim h hi {length (as @ e # bs)} (as @ e # bs) k v L (Some (r, as @ e' # bs, d'))"
    if e': "ie_key e' = ie_key e" "ie_ptr e' = PMem c'" and d': "rep d' L'" "node_wf L' lim h (ie_key e) (next_key bs hi) c'"
      "fanout_ok lim c'" "pops L (node_addrs L h child) L' (node_addrs L' h c')"
      "map_outcome (node_items L h child) k (bt_insert k v) r (node_items L' h c')"
    for r e' c' d' L'
  proof -
    have s: "es_ok L' lim h (as @ e' # bs) hi \<and>
        elems_items L' h (as @ e' # bs) = elems_items L h as @ node_items L' h c' @ elems_items L h bs \<and>
        pops L (elems_addrs L h (as @ e # bs)) L' (elems_addrs L' h (as @ e' # bs))"
      using e' d' c by (intro es_set_child[OF assms(2)]) simp_all
    have "map_outcome (elems_items L h as @ node_items L h child @ elems_items L h bs) k (bt_insert k v) r
        (elems_items L h as @ node_items L' h c' @ elems_items L h bs)"
      using d'(5) kl kr by (intro map_outcome_middle bt_insert_middle) auto
    moreover have "min k (ie_key (hd (as @ e # bs))) \<le> ie_key (hd (as @ e' # bs))" using e' by (cases as) simp_all
    ultimately show ?thesis using s d'(1) c(4) by (intro ins_resI[of d' L']) simp_all
  qed
  show ?thesis
  proof (cases child)
    case (LeafNode xs)
    have x: "h = 0" "bt_ok xs" "\<forall>k \<in> set (bt_keys xs). ie_key e \<le> k \<and> below k (next_key bs hi)"
        "min_leaf_fanout lim \<le> length xs" "length xs \<le> max_leaf_fanout lim"
      using c(1,2) LeafNode by (simp_all add: fanout_ok_def node_min_fanout_def node_max_fanout_def)
    have len: "min_leaf_fanout lim \<le> length (bt_insert k v xs) \<and> length (bt_insert k v xs) \<le> max_leaf_fanout lim"
    proof (cases "bt_get xs k")
      case None
      then show ?thesis
        using x(4) ns LeafNode bt_insert_length[of xs k v] by (simp add: should_split_def node_max_fanout_def)
    next
      case (Some w)
      then show ?thesis using x(2,4,5) bt_get_map_update[of xs k w v] by simp
    qed
    let ?e = "set_txgs (txgs_of txg) (set_ptr (PMem (LeafNode (bt_insert k v xs))) e)"
    have i: "insert_int rec lim seq (as @ e # bs) (length as) child k v txg d = Some (Inr (bt_get xs k), as @ ?e # bs, d)"
      using ns LeafNode by (simp add: insert_int_def insert_leaf_no_split_def)
    have "ins_res lim h hi {length (as @ e # bs)} (as @ e # bs) k v L (Some (Inr (bt_get xs k), as @ ?e # bs, d))"
      using assms(1,4) kb x len LeafNode bt_insert_keys[of k v xs]
      by (intro whole[of _ "LeafNode (bt_insert k v xs)"])
        (auto simp: map_outcome_def fanout_ok_def node_min_fanout_def node_max_fanout_def)
    then show ?thesis using i by simp
  next
    case (IntNode ces)
    obtain g where g: "h = Suc g" "ces \<noteq> []" "ie_key e \<le> ie_key (hd ces)" "elems_wf L (child_wf L lim g) ces (next_key bs hi)"
      using c(1) IntNode by (auto simp: node_wf_int)
    have f: "min_int_fanout lim \<le> length ces" "length ces < max_int_fanout lim"
      using c(2) ns IntNode by (auto simp: fanout_ok_def should_split_def node_min_fanout_def node_max_fanout_def)
    have ok: "es_ok L lim g ces (next_key bs hi)"
      using g(1,4) c(5) IntNode assms(2) by (simp add: es_ok_def)
    obtain r ces' d' L' where r: "rec ces k v txg d = Some (r, ces', d')" "rep d' L'" "es_ok L' lim g ces' (next_key bs hi)" "ces' \<noteq> []"
        "min k (ie_key (hd ces)) \<le> ie_key (hd ces')" "length ces' \<in> {length ces, Suc (length ces)}"
        "map_outcome (elems_items L g ces) k (bt_insert k v) r (elems_items L' g ces')"
        "pops L (elems_addrs L g ces) L' (elems_addrs L' g ces')"
      using rec[OF g(1) ok g(2) f(2) kb] unfolding ins_res_def by blast
    let ?e = "set_ptr (PMem (IntNode ces')) e"
    have i: "insert_int rec lim seq (as @ e # bs) (length as) child k v txg d = Some (r, as @ ?e # bs, d')"
      using ns IntNode r(1) by (simp add: insert_int_def)
    have "ie_key e \<le> ie_key (hd ces')" using assms(4) g(3) r(5) by (auto simp: min_def split: if_splits)
    then have "ins_res lim h hi {length (as @ e # bs)} (as @ e # bs) k v L (Some (r, as @ ?e # bs, d'))"
      using r g f IntNode
      by (intro whole[of _ "IntNode ces'"]) (auto simp: es_ok_def fanout_ok_def node_min_fanout_def node_max_fanout_def)
    then show ?thesis using i by simp
  qed
qed

lemma lower_key:
  assumes "es_ok L lim h (e # bs) hi" "k \<le> ie_key e"
  shows "es_ok L lim h (set_key k e # bs) hi" "elems_items L h (set_key k e # bs) = elems_items L h (e # bs)"
    "elems_addrs L h (set_key k e # bs) = elems_addrs L h (e # bs)"
  using assms elem_same_ptr[of "set_key k e" e L h] by (auto simp: es_ok_def elem_wf_def intro: below_le node_wf_lo)

lemma ins_enter:
  assumes "rep d L" "es_ok L lim h es hi" "es \<noteq> []" "below k hi"
  obtains (error) err es' d' where "insert_int_no_split dml lim seq (Suc fuel) es k v txg d = Some (Inl err, es', d')"
      "ins_res lim h hi {length es} es k v L (Some (Inl err, es', d'))"
  | (child) as e bs c d' L' where "insert_int_no_split dml lim seq (Suc fuel) es k v txg d =
        insert_int (insert_int_no_split dml lim seq fuel) lim seq (as @ e # bs) (length as) c k v txg d'" "rep d' L'"
      "es_ok L' lim h (as @ e # bs) hi" "ie_ptr e = PMem c" "ie_key e \<le> k" "\<forall>x \<in> set bs. k < ie_key x"
      "length (as @ e # bs) = length es" "min k (ie_key (hd es)) \<le> ie_key (hd (as @ e # bs))"
      "elems_items L' h (as @ e # bs) = elems_items L h es"
      "pops L (elems_addrs L h es) L' (elems_addrs L' h (as @ e # bs))"
proof -
  have wf: "elems_wf L (child_wf L lim h) es hi" using assms(2) by (simp add: es_ok_def)
  obtain as e bs where es: "es = as @ e # bs" "position es k = length as" "as \<noteq> [] \<longrightarrow> ie_key e \<le> k" "\<forall>x \<in> set bs. k < ie_key x"
    by (rule position_split[OF wf assms(3)])
  define e1 where "e1 = (if k < ie_key e then set_key k e else e)"

  have as: "as = []" if "k < ie_key e" using that es(3) by auto
  have e1: "es_ok L lim h (as @ e1 # bs) hi" "elems_items L h (as @ e1 # bs) = elems_items L h es"
      "elems_addrs L h (as @ e1 # bs) = elems_addrs L h es" "ie_key e1 \<le> k" "ie_ptr e1 = ie_ptr e"
      "min k (ie_key (hd es)) \<le> ie_key (hd (as @ e1 # bs))"
    using assms(2) es(1) as lower_key[of L lim h e bs hi k] by (auto simp: e1_def hd_append min_def)
  obtain r e2 d' L' where x: "xlock dml (as @ e1 # bs) (length as) txg d = Some (r, as @ e2 # bs, d')" "rep d' L'" "ie_key e2 = ie_key e1"
      "es_ok L' lim h (as @ e2 # bs) hi" "elems_items L' h (as @ e2 # bs) = elems_items L h (as @ e1 # bs)"
      "pops L (elems_addrs L h (as @ e1 # bs)) L' (elems_addrs L' h (as @ e2 # bs))"
      "\<forall>n. r = Inr n \<longrightarrow> ie_ptr e2 = PMem n"
    by (rule xlock_spec[OF assms(1) e1(1), of txg])
  have hd2: "min k (ie_key (hd es)) \<le> ie_key (hd (as @ e2 # bs))" using e1(6) x(3) by (cases as) simp_all
  have ent: "insert_int_no_split dml lim seq (Suc fuel) es k v txg d = (case r of Inl err \<Rightarrow> Some (Inl err, as @ e2 # bs, d')
      | Inr c \<Rightarrow> insert_int (insert_int_no_split dml lim seq fuel) lim seq (as @ e2 # bs) (length as) c k v txg d')"
    using es(1,2) x(1) by (cases "k < ie_key e") (simp_all add: e1_def Let_def)
  show ?thesis
  proof (cases r)
    case (Inl err)
    have "ins_res lim h hi {length es} es k v L (Some (Inl err, as @ e2 # bs, d'))"
      using x e1 hd2 es(1) by (intro ins_resI[of d' L']) (simp_all add: map_outcome_def)
    then show ?thesis using error ent Inl by simp
  next
    case (Inr c)
    show ?thesis
      by (rule child[of as e2 bs c d' L']) (use ent Inr x e1 hd2 es in \<open>auto simp del: elems_simps\<close>)
  qed
qed

lemma ins_enter_mem:
  assumes "es_ok L lim h (as @ e # bs) hi" "ie_ptr e = PMem c" "ie_key e \<le> k" "\<forall>x \<in> set bs. k < ie_key x"
  shows "insert_int_no_split dml lim seq (Suc fuel) (as @ e # bs) k v txg d =
    insert_int (insert_int_no_split dml lim seq fuel) lim seq (as @ set_end (txg_add txg 1) e # bs) (length as) c k v txg d"
proof -
  have "sorted_wrt (<) (map ie_key (as @ e # bs))" using elems_wf_sorted[OF conjunct1[OF assms(1)[unfolded es_ok_def]]] by simp
  then have "\<forall>x \<in> set as. ie_key x \<le> k" using assms(3) by (fastforce simp: sorted_wrt_append)
  then have "takeWhile (\<lambda>e. ie_key e \<le> k) (as @ e # bs) = as @ [e]"
    using assms(3,4) by (cases bs) (auto simp: takeWhile_append2)
  then have "position (as @ e # bs) k = length as" by (simp add: position_def)
  moreover have "\<not> k < ie_key e" using assms(3) by simp
  ultimately show ?thesis using assms(2) by (simp add: xlock_def Let_def)
qed

text \<open>The child has been split in two.\<close>

lemma ins_split:
  assumes "rep d L" "es_ok L lim h (as @ e # bs) hi" "ie_ptr e = PMem c" "ie_key e \<le> k" "below k hi" "\<forall>x \<in> set bs. k < ie_key x"
    and two: "split_ok L lim h (ie_key e) (next_key bs hi) c l ne"
    and e': "ie_key e' = ie_key e" "ie_ptr e' = PMem l"
    and rec: "\<And>g ces hi. h = Suc g \<Longrightarrow> es_ok L lim g ces hi \<Longrightarrow> ces \<noteq> [] \<Longrightarrow> length ces < max_int_fanout lim \<Longrightarrow> below k hi \<Longrightarrow>
        ins_res lim g hi {length ces, Suc (length ces)} ces k v L (insert_int_no_split dml lim seq f ces k v txg d)"
  shows "ins_res lim h hi {Suc (length (as @ e # bs))} (as @ e # bs) k v L (insert_int_no_split dml lim seq (Suc f) (as @ e' # ne # bs) k v txg d)"
proof -
  obtain r where r: "ie_ptr ne = PMem r" "ie_key e < ie_key ne" "below (ie_key ne) (next_key bs hi)"
      "node_wf L lim h (ie_key e) (Some (ie_key ne)) l" "node_wf L lim h (ie_key ne) (next_key bs hi) r"
      "fanout_ok lim l" "fanout_ok lim r" "node_len l < node_max_fanout lim l" "node_len r < node_max_fanout lim r"
      "node_items L h l @ node_items L h r = node_items L h c"
      "node_addrs L h l @ node_addrs L h r = node_addrs L h c"
    using two by (auto simp: split_ok_def)
  let ?es = "as @ e' # ne # bs"
  have rep: "es_ok L lim h ?es hi" "elems_items L h ?es = elems_items L h (as @ e # bs)"
      "elems_addrs L h ?es = elems_addrs L h (as @ e # bs)"
  proof -
    have "es_ok L lim h (as @ [e', ne] @ bs) hi"
      using elems_replace[of L lim h as "[e]" bs hi "[e', ne]" L] assms(2,3) r e' by (simp add: elem_wf_def)
    then show "es_ok L lim h ?es hi" by simp
    show "elems_items L h ?es = elems_items L h (as @ e # bs)"
        "elems_addrs L h ?es = elems_addrs L h (as @ e # bs)"
      using assms(3) r(1,10,11) e' by (simp_all flip: append_assoc)
  qed
  have "ins_res lim h hi {length ?es} ?es k v L (insert_int_no_split dml lim seq (Suc f) ?es k v txg d)"
  proof (cases "k < ie_key ne")
    case True
    let ?e = "set_end (txg_add txg 1) e'"
    note same = es_same_ptr[OF rep(1), of ?e, OF set_txg_simps(3,4)]
    have "insert_int_no_split dml lim seq (Suc f) ?es k v txg d =
        insert_int (insert_int_no_split dml lim seq f) lim seq (as @ ?e # ne # bs) (length as) l k v txg d"
      using True assms(4,6) e' by (intro ins_enter_mem[OF rep(1)]) simp_all
    moreover have "ins_res lim h hi {length (as @ ?e # ne # bs)} (as @ ?e # ne # bs) k v L
        (insert_int (insert_int_no_split dml lim seq f) lim seq (as @ ?e # ne # bs) (length as) l k v txg d)"
      by (rule ins_child[OF assms(1) same(1)]) (use assms(4-6) True e' no_should_split[OF r(8)] rec in simp_all)
    moreover have "min k (ie_key (hd ?es)) \<le> ie_key (hd (as @ ?e # ne # bs))" by (cases as) simp_all
    ultimately show ?thesis using ins_res_from same(2,3) by simp
  next
    case False
    let ?e = "set_end (txg_add txg 1) ne"
    have ok: "es_ok L lim h ((as @ [e']) @ ne # bs) hi" using rep(1) by simp
    note same = es_same_ptr[OF ok, of ?e, OF set_txg_simps(3,4)]
    have "insert_int_no_split dml lim seq (Suc f) ((as @ [e']) @ ne # bs) k v txg d =
        insert_int (insert_int_no_split dml lim seq f) lim seq ((as @ [e']) @ ?e # bs) (length (as @ [e'])) r k v txg d"
      using False assms(6) r(1) by (intro ins_enter_mem[OF ok]) simp_all
    moreover have "ins_res lim h hi {length ((as @ [e']) @ ?e # bs)} ((as @ [e']) @ ?e # bs) k v L
        (insert_int (insert_int_no_split dml lim seq f) lim seq ((as @ [e']) @ ?e # bs) (length (as @ [e'])) r k v txg d)"
      by (rule ins_child[OF assms(1)]) (use same(1) assms(5,6) False r(1) no_should_split[OF r(9)] rec in simp_all)
    moreover have "min k (ie_key (hd ?es)) \<le> ie_key (hd ((as @ [e']) @ ?e # bs))" by (cases as) simp_all
    ultimately show ?thesis using ins_res_from same(2,3) by simp
  qed
  moreover have "min k (ie_key (hd (as @ e # bs))) \<le> ie_key (hd ?es)" using e'(1) by (cases as) simp_all
  ultimately have "ins_res lim h hi {length ?es} (as @ e # bs) k v L (insert_int_no_split dml lim seq (Suc f) ?es k v txg d)"
    by (rule ins_res_from) (use rep(2,3) in \<open>simp_all only: pops_refl\<close>)
  then show ?thesis by (simp del: insert_int_no_split.simps)
qed

lemma insert_ok:
  assumes "fanouts_ok lim"
  shows "rep d L \<Longrightarrow> es_ok L lim h es hi \<Longrightarrow> es \<noteq> [] \<Longrightarrow> length es < max_int_fanout lim \<Longrightarrow> below k hi \<Longrightarrow> 2 * Suc h \<le> fuel \<Longrightarrow>
    ins_res lim h hi {length es, Suc (length es)} es k v L (insert_int_no_split dml lim seq fuel es k v txg d)"
proof (induction h arbitrary: es hi d L fuel rule: less_induct)
  case (less h)
  obtain f where f: "fuel = Suc (Suc f)" using less.prems(6) that[of "fuel - 2"] by simp
  have rec: "ins_res lim g hi' {length ces, Suc (length ces)} ces k v L1 (insert_int_no_split dml lim seq f' ces k v txg d1)"
    if "h = Suc g" "rep d1 L1" "es_ok L1 lim g ces hi'" "ces \<noteq> []" "length ces < max_int_fanout lim" "below k hi'" "f \<le> f'"
    for g ces hi' d1 L1 f'
    using less.IH[of g d1 L1 ces hi' f'] that less.prems(6) f by simp
  show ?case
  proof (rule ins_enter[OF less.prems(1-3,5), where seq = seq and fuel = "Suc f" and v = v and txg = txg], goal_cases error child)
    case (error err es' d')
    then show ?thesis using f ins_res_mono by simp
  next
    case (child as e bs c d' L')
    show ?thesis
    proof (cases "should_split lim k c")
      case False
      have "ins_res lim h hi {length (as @ e # bs)} (as @ e # bs) k v L' (insert_int (insert_int_no_split dml lim seq (Suc f)) lim seq (as @ e # bs) (length as) c k v txg d')"
        by (rule ins_child[OF child(2-5) less.prems(5) child(6) False], rule rec[OF _ child(2)]) simp_all
      from ins_res_mono[OF ins_res_from[OF this child(8-10)], of "{length es, Suc (length es)}"]
      show ?thesis unfolding f child(1) using child(7) by simp
    next
      case True
      have "fanout_ok lim c" "node_wf L' lim h (ie_key e) (next_key bs hi) c"
        using es_child[OF child(3)] child(4) by auto
      moreover from this have "node_len c = node_max_fanout lim c" using True by (simp add: fanout_ok_def should_split_def)
      ultimately obtain t ne l where s: "node_split lim seq txg c = Some (t, ne, l)"
          and two: "split_ok L' lim h (ie_key e) (next_key bs hi) c l ne"
        using node_split_ok[OF assms, where seq = seq and txg = txg] by metis
      let ?e = "set_txgs t (set_ptr (PMem l) e)"
      have "insert_int_no_split dml lim seq fuel es k v txg d = insert_int_no_split dml lim seq (Suc f) (as @ ?e # ne # bs) k v txg d'"
        unfolding f child(1) insert_int_def using True s by (simp add: Let_def del: insert_int_no_split.simps)
      moreover have "ins_res lim h hi {Suc (length (as @ e # bs))} (as @ e # bs) k v L' (insert_int_no_split dml lim seq (Suc f) (as @ ?e # ne # bs) k v txg d')"
        by (rule ins_split[OF child(2-5) less.prems(5) child(6) two]) (use rec child(2) in simp_all)
      from ins_res_mono[OF ins_res_from[OF this child(8-10)], of "{length es, Suc (length es)}"]
      have "ins_res lim h hi {length es, Suc (length es)} es k v L (insert_int_no_split dml lim seq (Suc f) (as @ ?e # ne # bs) k v txg d')"
        using child(7) by simp
      ultimately show ?thesis by simp
    qed
  qed
qed

end

section \<open>Trees\<close>

text \<open>The height of the tree is the number of its levels; its root may be less than half full, but not too full.\<close>

definition tree_wf :: "('a, 'k :: {linorder, order_bot}, 'v) store \<Rightarrow> ('a, 'k, 'v) Tree \<Rightarrow> bool" where
  "tree_wf L t \<longleftrightarrow> 1 \<le> tr_height t \<and> tr_height t < 2 ^ 63 \<and> fanouts_ok (tr_limits t) \<and>
     elem_wf L (\<lambda>lo hi n. node_wf L (tr_limits t) (tr_height t - 1) bot hi n \<and> node_len n \<le> node_max_fanout (tr_limits t) n) None (tr_root t) \<and>
     distinct (elem_addrs L (tr_height t - 1) (tr_root t))"

definition tree_items :: "('a, 'k, 'v) store \<Rightarrow> ('a, 'k, 'v) Tree \<Rightarrow> ('k \<times> 'v) list" where
  "tree_items L t = elem_items L (tr_height t - 1) (tr_root t)"

definition tree_addrs :: "('a, 'k, 'v) store \<Rightarrow> ('a, 'k, 'v) Tree \<Rightarrow> 'a list" where
  "tree_addrs L t = elem_addrs L (tr_height t - 1) (tr_root t)"

lemma tree_wf_mem:
  assumes "ie_ptr (tr_root t) = PMem n"
  shows "tree_wf L t \<longleftrightarrow> 1 \<le> tr_height t \<and> tr_height t < 2 ^ 63 \<and> fanouts_ok (tr_limits t) \<and> node_wf L (tr_limits t) (tr_height t - 1) bot None n \<and>
      node_len n \<le> node_max_fanout (tr_limits t) n \<and> distinct (node_addrs L (tr_height t - 1) n)"
    "tree_items L t = node_items L (tr_height t - 1) n" "tree_addrs L t = node_addrs L (tr_height t - 1) n"
  using assms by (auto simp: tree_wf_def elem_wf_def tree_items_def tree_addrs_def)

context tree_store
begin

lemma xlock_root_spec:
  assumes "rep d L" "tree_wf L t"
  obtains r e d' L' where "xlock_root dml (tr_root t) txg d = Some (r, e, d')" "rep d' L'" "tree_wf L' (t\<lparr>tr_root := e\<rparr>)"
    "tree_items L' (t\<lparr>tr_root := e\<rparr>) = tree_items L t"
    "pops L (tree_addrs L t) L' (tree_addrs L' (t\<lparr>tr_root := e\<rparr>))" "\<forall>n. r = Inr n \<longrightarrow> ie_ptr e = PMem n"
    "\<forall>n. r = Inr n \<longrightarrow> resolve L (ie_ptr (tr_root t)) = Some n"
proof -
  let ?h = "tr_height t - 1" and ?e = "set_end (txg_add txg 1) (tr_root t)"
  obtain n where n: "resolve L (ie_ptr (tr_root t)) = Some n" "node_wf L (tr_limits t) ?h bot None n"
      "node_len n \<le> node_max_fanout (tr_limits t) n" "distinct (elem_addrs L ?h (tr_root t))"
    using assms(2) by (auto simp: tree_wf_def elem_wf_def)
  have ok: "tree_wf L (t\<lparr>tr_root := ?e\<rparr>)" "tree_items L (t\<lparr>tr_root := ?e\<rparr>) = tree_items L t"
      "tree_addrs L (t\<lparr>tr_root := ?e\<rparr>) = tree_addrs L t"
    using assms(2) elem_same_ptr[of ?e "tr_root t"] by (auto simp: tree_wf_def elem_wf_def tree_items_def tree_addrs_def)
  show ?thesis
  proof (cases "ie_ptr (tr_root t)")
    case (PMem m)
    then have "xlock_root dml (tr_root t) txg d = Some (Inr m, ?e, d)" by (simp add: xlock_root_def Let_def)
    then show ?thesis using that[of "Inr m" ?e d L] ok assms(1) PMem by simp
  next
    case (PAddr a)
    then have l: "L a = Some n" using n(1) by simp
    from pop_law[OF assms(1) l, of txg] obtain r d' L' where pop: "dml_pop dml d a txg = Some (r, d')" "rep d' L'"
        "case r of Inr n' \<Rightarrow> n' = n \<and> L' = L(a := None) | Inl _ \<Rightarrow> L' = L" by blast
    show ?thesis
    proof (cases r)
      case (Inl err)
      have "xlock_root dml (tr_root t) txg d = Some (Inl err, ?e, d')" using pop(1) Inl by (simp add: xlock_root_def Let_def PAddr)
      then show ?thesis using that[of "Inl err" ?e d' L'] ok pop Inl by simp
    next
      case (Inr m)
      then have m: "m = n" "L' = L(a := None)" using pop(3) by simp_all
      let ?e' = "set_ptr (PMem n) ?e"
      have x: "xlock_root dml (tr_root t) txg d = Some (Inr n, ?e', d')" using pop(1) Inr m by (simp add: xlock_root_def Let_def PAddr)
      note pc = pop_child[OF PAddr l n(2,4)]
      have it: "tree_items L t = node_items L ?h n"
        using elem_addr(1)[of "tr_root t" a L n ?h] PAddr l by (simp add: tree_items_def)
      have mem: "ie_ptr (tr_root (t\<lparr>tr_root := ?e'\<rparr>)) = PMem n" by simp
      have "distinct (node_addrs L' ?h n)" using pops_distinct[OF pc(3) n(4)] m(2) by simp
      then show ?thesis
        by (intro that[OF x pop(2)]) (use assms(2) tree_wf_mem[OF mem] pc m(2) n(3) it l PAddr in \<open>auto simp: tree_wf_def tree_addrs_def\<close>)
    qed
  qed (use n(1) in simp)
qed

definition ins_tree :: "('a, 'k, 'v) Tree \<Rightarrow> nat set \<Rightarrow> 'k \<Rightarrow> 'v \<Rightarrow> ('a, 'k, 'v) store \<Rightarrow> ('v option result \<times> ('a, 'k, 'v) Tree \<times> 'd) option \<Rightarrow> bool" where
  "ins_tree t H k v L res \<longleftrightarrow> (\<exists>r t' d' L'. res = Some (r, t', d') \<and> rep d' L' \<and> tree_wf L' t' \<and>
     map_outcome (tree_items L t) k (bt_insert k v) r (tree_items L' t') \<and>
     pops L (tree_addrs L t) L' (tree_addrs L' t') \<and> tr_limits t' = tr_limits t \<and> tr_height t' \<in> H)"

lemma ins_treeI:
  assumes "rep d' L'" "tree_wf L' t'" "map_outcome (tree_items L t) k (bt_insert k v) r (tree_items L' t')"
    "pops L (tree_addrs L t) L' (tree_addrs L' t')" "tr_limits t' = tr_limits t" "tr_height t' \<in> H"
  shows "ins_tree t H k v L (Some (r, t', d'))"
  unfolding ins_tree_def using assms by blast

text \<open>Insertion into a root that is an interior node.\<close>

lemma insert_int_root:
  assumes "rep d L" "fanouts_ok lim" "es_ok L lim h es None" "es \<noteq> []" "length es < max_int_fanout lim" "2 * Suc h \<le> fuel"
    and t: "tr_limits t = lim" "tr_height t = Suc (Suc h)" "tr_height t < 2 ^ 63"
  shows "\<exists>r t' d' L'. (do {
       (r, es, d) \<leftarrow> insert_int_no_split dml lim seq fuel es k v txg d;
       Some (r, t\<lparr>tr_root := set_ptr (PMem (IntNode es)) (tr_root t)\<rparr>, d)
     }) = Some (r, t', d') \<and> rep d' L' \<and> tree_wf L' t' \<and>
     map_outcome (elems_items L h es) k (bt_insert k v) r (tree_items L' t') \<and>
     pops L (elems_addrs L h es) L' (tree_addrs L' t') \<and> tr_limits t' = lim \<and> tr_height t' = Suc (Suc h)"
proof -
  have "below k None" by simp
  from insert_ok[OF assms(2,1,3-5) this assms(6), where seq = seq and txg = txg and v = v]
  obtain r es' d' L' where r: "insert_int_no_split dml lim seq fuel es k v txg d = Some (r, es', d')" "rep d' L'" "es_ok L' lim h es' None"
      "es' \<noteq> []" "length es' \<in> {length es, Suc (length es)}"
      "map_outcome (elems_items L h es) k (bt_insert k v) r (elems_items L' h es')"
      "pops L (elems_addrs L h es) L' (elems_addrs L' h es')"
    unfolding ins_res_def by blast
  let ?t = "t\<lparr>tr_root := set_ptr (PMem (IntNode es')) (tr_root t)\<rparr>"
  have "ie_ptr (tr_root ?t) = PMem (IntNode es')" by simp
  note m = tree_wf_mem[OF this, of L']
  have wf: "tree_wf L' ?t"
    using m(1) r(3-5) t assms(2,5) by (auto simp: es_ok_def node_max_fanout_def)
  have it: "tree_items L' ?t = elems_items L' h es'" "tree_addrs L' ?t = elems_addrs L' h es'"
    using m(2,3) t(2) by simp_all
  show ?thesis
    by (intro exI[of _ r] exI[of _ ?t] exI[of _ d'] exI[of _ L'] conjI) (use r wf it t in simp_all)
qed

lemma insert_locked_ok:
  assumes "rep d L" "tree_wf L t" "ie_ptr (tr_root t) = PMem n" "2 * tr_height t \<le> fuel" "tr_height t < 2 ^ 63 - 1"
  shows "ins_tree t {tr_height t, Suc (tr_height t)} k v L (insert_locked dml fuel t n k v txg d)"
proof -
  let ?lim = "tr_limits t" and ?h = "tr_height t - 1"
  note m = tree_wf_mem[OF assms(3), of L]
  have wf: "1 \<le> tr_height t" "fanouts_ok ?lim" "node_wf L ?lim ?h bot None n" "node_len n \<le> node_max_fanout ?lim n"
      "distinct (node_addrs L ?h n)"
    using assms(2) m(1) by simp_all
  show ?thesis
  proof (cases "should_split ?lim k n")
    case True
    then have "node_len n = node_max_fanout ?lim n" using wf(4) by (simp add: should_split_def)
    then obtain t1 ne l where s: "node_split ?lim (tr_seq t) txg n = Some (t1, ne, l)" "split_ok L ?lim ?h bot None n l ne"
      using node_split_ok[OF wf(2,3)] by metis
    obtain r where r: "ie_ptr ne = PMem r" "bot < ie_key ne" "node_wf L ?lim ?h bot (Some (ie_key ne)) l"
        "node_wf L ?lim ?h (ie_key ne) None r" "fanout_ok ?lim l" "fanout_ok ?lim r"
        "node_items L ?h l @ node_items L ?h r = node_items L ?h n"
        "node_addrs L ?h l @ node_addrs L ?h r = node_addrs L ?h n"
      using s(2) by (auto simp: split_ok_def)
    let ?es = "[IntElem bot t1 (PMem l), ne]" and ?t = "t\<lparr>tr_height := u64 (tr_height t + 1)\<rparr>"
    have h1: "u64 (tr_height t + 1) = Suc (Suc ?h)" using wf(1) assms(5) by (simp add: wrapu_id)
    have es: "es_ok L ?lim ?h ?es None" using r wf(5) by (simp add: es_ok_def elem_wf_def)
    have i: "elems_items L ?h ?es = tree_items L t" "elems_addrs L ?h ?es = tree_addrs L t"
      using r(1,7,8) m(2,3) by simp_all
    have "insert_locked dml fuel t n k v txg d = do {
         (r, es, d) \<leftarrow> insert_int_no_split dml ?lim (tr_seq t) fuel ?es k v txg d;
         Some (r, ?t\<lparr>tr_root := set_ptr (PMem (IntNode es)) (tr_root ?t)\<rparr>, d)
       }"
      unfolding insert_locked_def using True s(1) by (simp del: insert_int_no_split.simps)
    moreover note insert_int_root[OF assms(1) wf(2) es, of fuel ?t "tr_seq t" k v txg]
    ultimately show ?thesis
      using h1 wf(1,2) assms(4,5) i unfolding ins_tree_def by (fastforce simp: fanouts_ok_def)
  next
    case False
    show ?thesis
    proof (cases n)
      case (LeafNode xs)
      have h: "tr_height t = 1" and x: "bt_ok xs" "length xs \<le> max_leaf_fanout ?lim"
        using wf(1,3,4) LeafNode by (auto simp: node_max_fanout_def)
      have len: "length (bt_insert k v xs) \<le> max_leaf_fanout ?lim"
        using False LeafNode x bt_insert_length[of xs k v] bt_get_map_update[of xs k _ v]
        by (cases "bt_get xs k") (auto simp: should_split_def node_max_fanout_def)
      let ?e = "set_txgs (txgs_of txg) (set_ptr (PMem (LeafNode (bt_insert k v xs))) (tr_root t))"
      have "ie_ptr (tr_root (t\<lparr>tr_root := ?e\<rparr>)) = PMem (LeafNode (bt_insert k v xs))" by simp
      note m' = tree_wf_mem[OF this, of L]
      have "insert_locked dml fuel t n k v txg d = Some (Inr (bt_get xs k), t\<lparr>tr_root := ?e\<rparr>, d)"
        using False LeafNode by (simp add: insert_locked_def insert_leaf_no_split_def)
      moreover have "tree_wf L (t\<lparr>tr_root := ?e\<rparr>)"
        using m'(1) h wf(2) x len by (auto simp: node_max_fanout_def)
      ultimately show ?thesis
        using assms(1) m m' h LeafNode ins_treeI[of d L "t\<lparr>tr_root := ?e\<rparr>" L t k v "Inr (bt_get xs k)"] by (simp add: map_outcome_def)
    next
      case (IntNode es)
      then obtain g where g: "?h = Suc g" "es \<noteq> []" "elems_wf L (child_wf L ?lim g) es None"
        using wf(3) by (auto simp: node_wf_int)
      have len: "length es < max_int_fanout ?lim"
        using False IntNode by (simp add: should_split_def node_max_fanout_def)
      have es: "es_ok L ?lim g es None" using g wf(5) IntNode by (simp add: es_ok_def)
      have i: "elems_items L g es = tree_items L t" "elems_addrs L g es = tree_addrs L t"
        using m(2,3) g(1) IntNode by simp_all
      have "insert_locked dml fuel t n k v txg d = do {
           (r, es, d) \<leftarrow> insert_int_no_split dml ?lim (tr_seq t) fuel es k v txg d;
           Some (r, t\<lparr>tr_root := set_ptr (PMem (IntNode es)) (tr_root t)\<rparr>, d)
         }"
        unfolding insert_locked_def using False IntNode by (simp del: insert_int_no_split.simps)
      moreover note insert_int_root[OF assms(1) wf(2) es g(2) len, of fuel t "tr_seq t" k v txg]
      ultimately show ?thesis
        using g(1) assms(4,5) i unfolding ins_tree_def by fastforce
    qed
  qed
qed

theorem insert_tree:
  assumes "rep d L" "tree_wf L t" "2 * tr_height t \<le> fuel" "tr_height t < 2 ^ 63 - 1"
  shows "ins_tree t {tr_height t, Suc (tr_height t)} k v L (tree_insert dml fuel t k v txg d)"
proof -
  obtain r e d1 L1 where x: "xlock_root dml (tr_root t) txg d = Some (r, e, d1)" "rep d1 L1" "tree_wf L1 (t\<lparr>tr_root := e\<rparr>)"
      "tree_items L1 (t\<lparr>tr_root := e\<rparr>) = tree_items L t"
      "pops L (tree_addrs L t) L1 (tree_addrs L1 (t\<lparr>tr_root := e\<rparr>))" "\<forall>n. r = Inr n \<longrightarrow> ie_ptr e = PMem n"
      "\<forall>n. r = Inr n \<longrightarrow> resolve L (ie_ptr (tr_root t)) = Some n"
    by (rule xlock_root_spec[OF assms(1,2)])
  let ?t = "t\<lparr>tr_root := e\<rparr>"
  show ?thesis
  proof (cases r)
    case (Inl err)
    then have "tree_insert dml fuel t k v txg d = Some (Inl err, ?t, d1)" using x(1) by (simp add: tree_insert_def)
    then show ?thesis using x(2-5) ins_treeI[of d1 L1 ?t L t k v "Inl err"] by (simp add: map_outcome_def)
  next
    case (Inr n)
    have "ins_tree ?t {tr_height ?t, Suc (tr_height ?t)} k v L1 (insert_locked dml fuel ?t n k v txg d1)"
      using x(6) Inr assms(3,4) by (intro insert_locked_ok[OF x(2,3)]) simp_all
    then have "ins_tree t {tr_height t, Suc (tr_height t)} k v L (insert_locked dml fuel ?t n k v txg d1)"
      unfolding ins_tree_def using x(4) pops_trans[OF x(5)] by fastforce
    then show ?thesis using x(1) Inr by (simp add: tree_insert_def)
  qed
qed

end

end
