(* ===== verification/Btree_Remove.thy ===== *)
theory Btree_Remove
  imports Btree_Correct
begin

text \<open>
  Lookup and removal. Lookup changes nothing. Removal repairs every node on its way down that could become too small, by a merge with
  a sibling or by taking some of the sibling's keys; both keep the items of the tree.
\<close>

section \<open>Lookup\<close>

context tree_store
begin

lemma rlock_spec:
  assumes "rep d L" "resolve L (ie_ptr e) = Some n"
  obtains r d' where "rlock dml e d = Some (r, d')" "rep d' L" "\<forall>m. r = Inr m \<longrightarrow> m = n"
proof (cases "ie_ptr e")
  case (PAddr a)
  then show ?thesis using get_law[OF assms(1), of a n] assms(2) that by (auto simp: rlock_def)
qed (use assms that[of "Inr n" d] in \<open>auto simp: rlock_def\<close>)

lemma get_node:
  "rep d L \<Longrightarrow> node_wf L lim h lo hi n \<Longrightarrow> h < fuel \<Longrightarrow>
   \<exists>r d'. get_r dml fuel n k d = Some (r, d') \<and> rep d' L \<and> (\<forall>x. r = Inr x \<longrightarrow> x = bt_get (node_items L h n) k)"
proof (induction h arbitrary: n lo hi d L fuel)
  case 0
  then obtain f xs where "fuel = Suc f" "n = LeafNode xs" by (cases n; cases fuel) auto
  then show ?case using 0 by simp
next
  case (Suc h)
  then obtain f es where f: "fuel = Suc f" "n = IntNode es" "es \<noteq> []" and wf: "elems_wf L (child_wf L lim h) es hi"
    by (cases n; cases fuel) auto
  obtain as e bs where es: "es = as @ e # bs" "position es k = length as" "as \<noteq> [] \<longrightarrow> ie_key e \<le> k" "\<forall>x \<in> set bs. k < ie_key x"
    by (rule position_split[OF wf f(3)])
  obtain m where m: "resolve L (ie_ptr e) = Some m" "node_wf L lim h (ie_key e) (next_key bs hi) m"
      "elem_items L h e = node_items L h m"
    using wf es(1) by (auto simp: elem_wf_def elem_items_def elem_map_def)
  obtain r d' where r: "rlock dml e d = Some (r, d')" "rep d' L" "\<forall>c. r = Inr c \<longrightarrow> c = m"
    by (rule rlock_spec[OF Suc.prems(1) m(1)])
  have kl: "k \<notin> set (bt_keys (elems_items L h as))" using keys_left[OF wf[unfolded es(1)] es(3)] by blast
  have kr: "k \<notin> set (bt_keys (elems_items L h bs))" using keys_right[OF wf[unfolded es(1)] es(4)] by blast
  have g: "bt_get (node_items L (Suc h) n) k = bt_get (node_items L h m) k"
    using bt_get_middle[OF kl kr] f(2) es(1) m(3) by simp
  show ?case
  proof (cases r)
    case (Inl err)
    then show ?thesis using f(1,2) es(1,2) r by simp
  next
    case (Inr c)
    have "get_r dml fuel n k d = get_r dml f m k d'" using f(1,2) es(1,2) r Inr by simp
    then show ?thesis using Suc.IH[OF r(2) m(2), of f] f(1) Suc.prems(3) g Inr r(3) by simp
  qed
qed

lemma get_tree:
  assumes "rep d L" "tree_wf L t" "tr_height t \<le> fuel"
  obtains r d' where "tree_get dml fuel t k d = Some (r, d')" "rep d' L"
    "\<forall>x. r = Inr x \<longrightarrow> x = bt_get (tree_items L t) k"
proof -
  let ?h = "tr_height t - 1"
  obtain n where n: "resolve L (ie_ptr (tr_root t)) = Some n" "node_wf L (tr_limits t) ?h bot None n"
    using assms(2) by (auto simp: tree_wf_def elem_wf_def)
  obtain r d1 where r: "rlock dml (tr_root t) d = Some (r, d1)" "rep d1 L" "\<forall>c. r = Inr c \<longrightarrow> c = n"
    using rlock_spec[OF assms(1) n(1)] by metis
  have "tree_items L t = node_items L ?h n" using n(1) by (simp add: tree_items_def elem_items_def elem_map_def)
  moreover have "?h < fuel" using assms(2,3) by (auto simp: tree_wf_def)
  ultimately show ?thesis
    using get_node[of d1 L "tr_limits t" ?h bot None n fuel k] r n(2) that
    by (cases r) (auto simp: tree_get_def)
qed

end

section \<open>Repairing a node\<close>

lemma bt_append_low: "bt_ok (ys @ xs @ m) \<Longrightarrow> fold (\<lambda>(k, v). bt_insert k v) xs (ys @ m) = ys @ xs @ m"
proof (induction xs arbitrary: ys)
  case (Cons x xs)
  obtain k v where x: "x = (k, v)" by force
  have "bt_insert k v (ys @ [] @ m) = ys @ bt_insert k v [] @ m"
    using Cons.prems x by (intro bt_insert_middle) (auto simp: bt_ok_def sorted_wrt_append)
  then show ?case using Cons.IH[of "ys @ [(k, v)]"] Cons.prems x by simp
qed simp

lemma node_merge_spec:
  assumes "fanouts_ok lim" "node_wf L lim h lo (Some key) l" "node_wf L lim h key hi r" "below key hi" "lo \<le> key"
    "fanout_ok lim l" "fanout_ok lim r" "can_merge lim l r"
  obtains m where "node_merge l r = Some m" "node_wf L lim h lo hi m" "fanout_ok lim m" "\<not> in_danger lim m"
    "node_items L h m = node_items L h l @ node_items L h r" "node_addrs L h m = node_addrs L h l @ node_addrs L h r"
proof -
  have leaf: "is_leaf r = is_leaf l" using node_wf_is_leaf assms(2,3) by metis
  note j = node_join[OF assms(2-5)]
  have "node_merge l r = Some (node_app l r)"
  proof (cases l)
    case (LeafNode xs)
    then obtain ys where r: "r = LeafNode ys" using leaf by (cases r) auto
    then have "bt_ok (xs @ ys)" using j LeafNode by simp
    then show ?thesis using LeafNode r bt_append_eq by (simp add: node_merge_def)
  next
    case (IntNode es)
    then show ?thesis using leaf by (cases r) (auto simp: node_merge_def)
  qed
  moreover have "fanout_ok lim (node_app l r)" "\<not> in_danger lim (node_app l r)"
    using j assms(6-8) fanouts_node[OF assms(1), of l] same_fanout[of r l lim] same_fanout[of "node_app l r" l lim] leaf
    by (auto simp: fanout_ok_def can_merge_def in_danger_def)
  ultimately show ?thesis using that j by blast
qed

text \<open>What stealing keys from a sibling makes of two neighbours.\<close>

definition shared_ok :: "('a, 'k :: linorder, 'v) store \<Rightarrow> Limits \<Rightarrow> nat \<Rightarrow> 'k \<Rightarrow> 'k option \<Rightarrow>
    ('a, 'k, 'v) NodeData \<Rightarrow> ('a, 'k, 'v) NodeData \<Rightarrow> ('a, 'k, 'v) NodeData \<Rightarrow> ('a, 'k, 'v) NodeData \<Rightarrow> 'k \<Rightarrow> bool" where
  "shared_ok L lim h lo hi l r l' r' key \<longleftrightarrow> node_key r' = Some key \<and> lo < key \<and> below key hi \<and>
     node_wf L lim h lo (Some key) l' \<and> node_wf L lim h key hi r' \<and> fanout_ok lim l' \<and> fanout_ok lim r' \<and>
     node_items L h l' @ node_items L h r' = node_items L h l @ node_items L h r \<and>
     node_addrs L h l' @ node_addrs L h r' = node_addrs L h l @ node_addrs L h r"

lemma share_count:
  assumes "fanouts_ok lim" "fanout_ok lim n" "fanout_ok lim s" "in_danger lim n" "\<not> node_len n + node_len s \<le> node_max_fanout lim n" "is_leaf s = is_leaf n"
  shows "1 \<le> keys_to_share n s" "keys_to_share n s < node_len s" "node_min_fanout lim s \<le> node_len s - keys_to_share n s"
    "node_len n + keys_to_share n s \<le> node_max_fanout lim n" "node_len n = node_min_fanout lim n" "node_len s < 2 ^ 64"
proof -
  note lim = fanouts_node[OF assms(1), of n] same_fanout[OF assms(6), of lim]
  show n: "node_len n = node_min_fanout lim n" using assms(2,4) by (simp add: fanout_ok_def in_danger_def)
  have le: "node_len n < node_len s" using assms(5) lim n by linarith
  have s: "node_len s \<le> node_max_fanout lim n" using assms(3) lim by (simp add: fanout_ok_def)
  then show s64: "node_len s < 2 ^ 64" using lim by simp
  have k: "keys_to_share n s = max 1 ((node_len s - node_len n) div 2)"
    using le s64 by (simp add: keys_to_share_def wsub_id)
  show "1 \<le> keys_to_share n s" using k by simp
  show "keys_to_share n s < node_len s" "node_min_fanout lim s \<le> node_len s - keys_to_share n s"
      "node_len n + keys_to_share n s \<le> node_max_fanout lim n"
    using k le s n lim by (simp_all add: max_def split: if_splits)
qed

lemma take_low_spec:
  assumes "fanouts_ok lim" "node_wf L lim h lo (Some key) l" "node_wf L lim h key hi r" "below key hi" "lo \<le> key"
    "fanout_ok lim l" "fanout_ok lim r" "\<not> can_merge lim l r" "in_danger lim l"
  obtains l' r' key' where "take_low_keys l r = Some (l', r')" "shared_ok L lim h lo hi l r l' r' key'" "key < key'" "\<not> in_danger lim l'"
proof -
  have leaf: "is_leaf r = is_leaf l" using node_wf_is_leaf assms(2,3) by metis
  define s where "s = keys_to_share l r"
  note sh = share_count[OF assms(1,6,7,9) assms(8)[unfolded can_merge_def] leaf, folded s_def]
  have s: "0 < s" "s < node_len r" using sh by linarith+
  obtain key' where cut: "node_key (node_drop s r) = Some key'" "key < key'" "below key' hi"
      "node_wf L lim h key (Some key') (node_take s r)" "node_wf L lim h key' hi (node_drop s r)"
      "node_items L h (node_take s r) @ node_items L h (node_drop s r) = node_items L h r"
      "node_addrs L h (node_take s r) @ node_addrs L h (node_drop s r) = node_addrs L h r"
    using node_cut[OF assms(3) s] by metis
  have "below key (Some key')" using cut(2) by simp
  note j = node_join[OF assms(2) cut(4) this assms(5)]
  have "take_low_keys l r = Some (node_app l (node_take s r), node_drop s r)"
  proof (cases l)
    case (LeafNode xs)
    then obtain ys where r: "r = LeafNode ys" using leaf by (cases r) auto
    have y: "bt_ok ys" using assms(3) r by simp
    have xy: "bt_ok (xs @ take s ys)" using j LeafNode r by simp
    show ?thesis unfolding take_low_keys_def s_def[symmetric]
      using LeafNode r s bt_split_off_nth[OF y, of s] bt_append_eq[OF xy] by (simp add: case_prod_beta)
  next
    case (IntNode es)
    then show ?thesis unfolding take_low_keys_def s_def[symmetric] using leaf s by (cases r) auto
  qed
  moreover have "fanout_ok lim (node_app l (node_take s r))" "fanout_ok lim (node_drop s r)" "\<not> in_danger lim (node_app l (node_take s r))"
    using j sh s same_fanout[of "node_app l (node_take s r)" l lim] same_fanout[of "node_drop s r" r lim] assms(7)
    by (auto simp: fanout_ok_def in_danger_def)
  moreover have "lo < key'" using cut(2) assms(5) by simp
  ultimately show ?thesis using that[of "node_app l (node_take s r)" "node_drop s r" key'] cut j by (simp add: shared_ok_def)
qed

lemma take_high_spec:
  assumes "fanouts_ok lim" "node_wf L lim h lo (Some key) l" "node_wf L lim h key hi r" "below key hi" "lo \<le> key"
    "fanout_ok lim l" "fanout_ok lim r" "\<not> can_merge lim l r" "in_danger lim r"
  obtains l' r' key' where "take_high_keys r l = Some (r', l')" "shared_ok L lim h lo hi l r l' r' key'" "key' < key" "\<not> in_danger lim r'"
proof -
  have leaf: "is_leaf l = is_leaf r" using node_wf_is_leaf assms(2,3) by metis
  define s where "s = keys_to_share r l"
  have nm: "\<not> node_len r + node_len l \<le> node_max_fanout lim r"
    using assms(8) same_fanout[OF leaf, of lim] by (simp add: can_merge_def add.commute)
  note sh = share_count[OF assms(1,7,6,9) nm leaf, folded s_def]
  define i where "i = node_len l - s"
  have i: "0 < i" "i < node_len l" using sh by (simp_all add: i_def)
  have w: "wsub 64 (node_len l) s = i" using sh by (simp add: i_def wsub_id)
  obtain key' where cut: "node_key (node_drop i l) = Some key'" "lo < key'" "below key' (Some key)"
      "node_wf L lim h lo (Some key') (node_take i l)" "node_wf L lim h key' (Some key) (node_drop i l)"
      "node_items L h (node_take i l) @ node_items L h (node_drop i l) = node_items L h l"
      "node_addrs L h (node_take i l) @ node_addrs L h (node_drop i l) = node_addrs L h l"
    using node_cut[OF assms(2) i] by metis
  have kk: "key' < key" using cut(3) by simp
  note j = node_join[OF cut(5) assms(3,4) less_imp_le[OF kk]]
  have "take_high_keys r l = Some (node_app (node_drop i l) r, node_take i l)"
  proof (cases l)
    case (LeafNode xs)
    then obtain ys where r: "r = LeafNode ys" using leaf by (cases r) auto
    have x: "bt_ok xs" using assms(2) LeafNode by simp
    have xy: "bt_ok ([] @ drop i xs @ ys)" using j LeafNode r by simp
    have a: "bt_append ys (drop i xs) = drop i xs @ ys" using bt_append_low[OF xy] unfolding bt_append_def by simp
    show ?thesis unfolding take_high_keys_def s_def[symmetric]
      using LeafNode r i w bt_split_off_nth[OF x, of i] by (simp add: case_prod_beta a)
  next
    case (IntNode es)
    then show ?thesis unfolding take_high_keys_def s_def[symmetric] using leaf i w by (cases r) auto
  qed
  moreover have "fanout_ok lim (node_app (node_drop i l) r)" "fanout_ok lim (node_take i l)" "\<not> in_danger lim (node_app (node_drop i l) r)"
    using j sh i same_fanout[of "node_app (node_drop i l) r" l lim] same_fanout[of "node_take i l" l lim] same_fanout[OF leaf, of lim] assms(6)
    by (auto simp: fanout_ok_def in_danger_def i_def)
  moreover have "node_key (node_app (node_drop i l) r) = Some key'"
  proof (cases l)
    case (LeafNode xs)
    then show ?thesis using cut(1) leaf i by (cases r) (auto simp: nth_append)
  next
    case (IntNode es)
    then show ?thesis using cut(1) leaf i by (cases r) (auto simp: nth_append)
  qed
  moreover have "below key' hi" using below_less[OF kk assms(4)] .
  ultimately show ?thesis using that[of "node_app (node_drop i l) r" "node_take i l" key'] cut j kk by (simp add: shared_ok_def flip: append_assoc)
qed

text \<open>Two neighbouring children are replaced by children with the same items.\<close>

lemma pair_replace:
  assumes "es_ok L lim h (as @ [x, y] @ bs) hi" "ns \<noteq> []" "ie_key (hd ns) = ie_key x" "elems_wf L (child_wf L lim h) ns (next_key bs hi)"
    "elems_items L h ns = elems_items L h [x, y]" "elems_addrs L h ns = elems_addrs L h [x, y]"
  shows "es_ok L lim h (as @ ns @ bs) hi \<and> elems_items L h (as @ ns @ bs) = elems_items L h (as @ [x, y] @ bs) \<and>
    elems_addrs L h (as @ ns @ bs) = elems_addrs L h (as @ [x, y] @ bs) \<and> ie_key (hd (as @ ns @ bs)) = ie_key (hd (as @ [x, y] @ bs))"
proof -
  have "es_ok L lim h (as @ ns @ bs) hi"
    using elems_replace[of L lim h as "[x, y]" bs hi ns L] assms by (simp only: list.sel pops_refl) auto
  moreover have "ie_key (hd (as @ ns @ bs)) = ie_key (hd (as @ [x, y] @ bs))" using assms(2,3) by (cases as) auto
  ultimately show ?thesis using assms(5,6) by (simp only: elems_simps)
qed

lemma pair_children:
  assumes "es_ok L lim h (as @ [x, y] @ bs) hi" "ie_ptr x = PMem l" "ie_ptr y = PMem r"
  shows "node_wf L lim h (ie_key x) (Some (ie_key y)) l" "node_wf L lim h (ie_key y) (next_key bs hi) r" "below (ie_key y) (next_key bs hi)"
    "ie_key x \<le> ie_key y" "fanout_ok lim l" "fanout_ok lim r"
    "elems_items L h [x, y] = node_items L h l @ node_items L h r" "elems_addrs L h [x, y] = node_addrs L h l @ node_addrs L h r"
  using assms by (auto simp: es_ok_def elem_wf_def)

lemma elem_node_spec:
  assumes "node_wf L lim h lo hi n"
  obtains e where "elem_node es i n txg = Some e" "ie_key e = ie_key (es ! i)" "ie_ptr e = PMem n"
  using node_wf_start[OF assms, of txg] unfolding elem_node_def by force

lemma merge_pair:
  assumes "fanouts_ok lim" "es_ok L lim h (as @ [x, y] @ bs) hi" "ie_ptr x = PMem l" "ie_ptr y = PMem r" "can_merge lim l r"
  obtains m e where "node_merge l r = Some m" "elem_node (as @ [x, y] @ bs) (length as) m txg = Some e" "ie_ptr e = PMem m" "ie_key e = ie_key x"
    "\<not> in_danger lim m" "es_ok L lim h (as @ [e] @ bs) hi" "elems_items L h (as @ [e] @ bs) = elems_items L h (as @ [x, y] @ bs)"
    "elems_addrs L h (as @ [e] @ bs) = elems_addrs L h (as @ [x, y] @ bs)" "ie_key (hd (as @ [e] @ bs)) = ie_key (hd (as @ [x, y] @ bs))"
proof -
  note c = pair_children[OF assms(2-4)]
  obtain m where m: "node_merge l r = Some m" "node_wf L lim h (ie_key x) (next_key bs hi) m" "fanout_ok lim m" "\<not> in_danger lim m"
      "node_items L h m = node_items L h l @ node_items L h r" "node_addrs L h m = node_addrs L h l @ node_addrs L h r"
    by (rule node_merge_spec[OF assms(1) c(1-6) assms(5)])
  obtain e where e: "elem_node (as @ [x, y] @ bs) (length as) m txg = Some e" "ie_key e = ie_key x" "ie_ptr e = PMem m"
    using elem_node_spec[OF m(2), of "as @ [x, y] @ bs" "length as" txg] by force
  have "below (ie_key x) (next_key bs hi)" using below_le[OF c(4) c(3)] .
  then have "es_ok L lim h (as @ [e] @ bs) hi \<and> elems_items L h (as @ [e] @ bs) = elems_items L h (as @ [x, y] @ bs) \<and>
      elems_addrs L h (as @ [e] @ bs) = elems_addrs L h (as @ [x, y] @ bs) \<and> ie_key (hd (as @ [e] @ bs)) = ie_key (hd (as @ [x, y] @ bs))"
    using e m c(7,8) by (intro pair_replace[OF assms(2)]) (simp_all add: elem_wf_def)
  then show ?thesis using that[OF m(1) e(1,3,2) m(4)] by blast
qed

lemma share_pair:
  assumes "es_ok L lim h (as @ [x, y] @ bs) hi" "ie_ptr x = PMem l" "ie_ptr y = PMem r"
    and sh: "shared_ok L lim h (ie_key x) (next_key bs hi) l r l' r' key"
  obtains ex ey where "elem_node (as @ [x, y] @ bs) (length as) l' txg = Some ex" "elem_node (as @ [x, y] @ bs) (Suc (length as)) r' txg = Some ey"
    "ie_ptr ex = PMem l'" "ie_key ex = ie_key x" "ie_ptr ey = PMem r'" "es_ok L lim h (as @ [ex, set_key key ey] @ bs) hi"
    "elems_items L h (as @ [ex, set_key key ey] @ bs) = elems_items L h (as @ [x, y] @ bs)"
    "elems_addrs L h (as @ [ex, set_key key ey] @ bs) = elems_addrs L h (as @ [x, y] @ bs)"
    "ie_key (hd (as @ [ex, set_key key ey] @ bs)) = ie_key (hd (as @ [x, y] @ bs))"
proof -
  note c = pair_children[OF assms(1-3)]
  note s = sh[unfolded shared_ok_def]
  obtain ex where ex: "elem_node (as @ [x, y] @ bs) (length as) l' txg = Some ex" "ie_key ex = ie_key x" "ie_ptr ex = PMem l'"
    using elem_node_spec[of L lim h "ie_key x" "Some key" l' "as @ [x, y] @ bs" "length as" txg] s by force
  obtain ey where ey: "elem_node (as @ [x, y] @ bs) (Suc (length as)) r' txg = Some ey" "ie_ptr ey = PMem r'"
    using elem_node_spec[of L lim h key "next_key bs hi" r' "as @ [x, y] @ bs" "Suc (length as)" txg] s by force
  have "es_ok L lim h (as @ [ex, set_key key ey] @ bs) hi \<and>
      elems_items L h (as @ [ex, set_key key ey] @ bs) = elems_items L h (as @ [x, y] @ bs) \<and>
      elems_addrs L h (as @ [ex, set_key key ey] @ bs) = elems_addrs L h (as @ [x, y] @ bs) \<and>
      ie_key (hd (as @ [ex, set_key key ey] @ bs)) = ie_key (hd (as @ [x, y] @ bs))"
    using ex ey s c(7,8) by (intro pair_replace[OF assms(1)]) (simp_all add: elem_wf_def)
  then show ?thesis using that[OF ex(1) ey(1) ex(3,2) ey(2)] by blast
qed

context tree_store
begin

definition at_key :: "('a, 'k, 'v) IntElem list \<Rightarrow> ('a, 'k, 'v) IntElem \<Rightarrow> ('a, 'k, 'v) IntElem list \<Rightarrow> 'k \<Rightarrow> bool" where
  "at_key as e bs k \<longleftrightarrow> (as \<noteq> [] \<longrightarrow> ie_key e \<le> k) \<and> (\<forall>x \<in> set bs. k < ie_key x)"

definition fix_res :: "Limits \<Rightarrow> nat \<Rightarrow> 'k option \<Rightarrow> ('a, 'k, 'v) IntElem list \<Rightarrow> 'k \<Rightarrow> ('a, 'k, 'v) store \<Rightarrow>
    ((nat \<times> nat) result \<times> ('a, 'k, 'v) IntElem list \<times> 'd) option \<Rightarrow> bool" where
  "fix_res lim h hi es k L res \<longleftrightarrow> (\<exists>r es' d' L'. res = Some (r, es', d') \<and> rep d' L' \<and> es_ok L' lim h es' hi \<and>
     es' \<noteq> [] \<and> ie_key (hd es') = ie_key (hd es) \<and> length es' \<in> {length es, length es - 1} \<and>
     elems_items L' h es' = elems_items L h es \<and>
     pops L (elems_addrs L h es) L' (elems_addrs L' h es') \<and>
     (\<forall>p. r = Inr p \<longrightarrow> (\<exists>as e bs c. es' = as @ e # bs \<and> at_key as e bs k \<and> ie_ptr e = PMem c \<and> \<not> in_danger lim c)))"

lemma fix_resI:
  assumes "rep d' L'" "es_ok L' lim h (as @ ns @ bs) hi" "ns \<noteq> []" "ie_key (hd (as @ ns @ bs)) = ie_key (hd es)"
    "length (as @ ns @ bs) \<in> {length es, length es - 1}" "elems_items L' h (as @ ns @ bs) = elems_items L h es"
    "pops L (elems_addrs L h es) L' (elems_addrs L' h (as @ ns @ bs))"
    "ns = ns1 @ e # ns2" "at_key (as @ ns1) e (ns2 @ bs) k" "ie_ptr e = PMem c" "\<not> in_danger lim c"
  shows "fix_res lim h hi es k L (Some (r, as @ ns @ bs, d'))"
proof -
  have "as @ ns @ bs = (as @ ns1) @ e # ns2 @ bs" using assms(8) by simp
  then have "\<exists>as' e bs' c. as @ ns @ bs = as' @ e # bs' \<and> at_key as' e bs' k \<and> ie_ptr e = PMem c \<and> \<not> in_danger lim c"
    using assms(9-11) by (intro exI[of _ "as @ ns1"] exI[of _ e] exI[of _ "ns2 @ bs"] exI[of _ c]) simp
  moreover have "as @ ns @ bs \<noteq> []" using assms(3) by simp
  ultimately show ?thesis unfolding fix_res_def using assms(1,2,4-7)
    by - (rule exI[of _ r], rule exI[of _ "as @ ns @ bs"], rule exI[of _ d'], rule exI[of _ L'], intro conjI refl allI impI)
qed

lemma fix_int_right:
  assumes "fanouts_ok lim" "rep d L" "es_ok L lim h (as @ e # s # bs) hi" "ie_ptr e = PMem c" "in_danger lim c" "at_key as e (s # bs) k"
    "length (as @ e # s # bs) < 2 ^ 63"
  shows "fix_res lim h hi (as @ e # s # bs) k L (fix_int dml lim (as @ e # s # bs) (length as) c txg d)"
proof -
  let ?es = "as @ e # s # bs"
  have sib: "length as < wsub 64 (length ?es) 1" using assms(7) by (simp add: wsub_id)
  have ok: "es_ok L lim h ((as @ [e]) @ s # bs) hi" using assms(3) by simp
  obtain r s' d' L' where x: "xlock dml ((as @ [e]) @ s # bs) (length (as @ [e])) txg d = Some (r, (as @ [e]) @ s' # bs, d')" "rep d' L'"
      "ie_key s' = ie_key s" "es_ok L' lim h ((as @ [e]) @ s' # bs) hi"
      "elems_items L' h ((as @ [e]) @ s' # bs) = elems_items L h ((as @ [e]) @ s # bs)"
      "pops L (elems_addrs L h ((as @ [e]) @ s # bs)) L' (elems_addrs L' h ((as @ [e]) @ s' # bs))"
      "\<forall>n. r = Inr n \<longrightarrow> ie_ptr s' = PMem n"
    by (rule xlock_spec[OF assms(2) ok])
  let ?es' = "as @ [e, s'] @ bs"
  have x1: "xlock dml ?es (Suc (length as)) txg d = Some (r, ?es', d')" using x(1) by simp
  have ok': "es_ok L' lim h ?es' hi" using x(4) by simp
  have it: "elems_items L' h ?es' = elems_items L h ?es" using x(5) by simp
  have po: "pops L (elems_addrs L h ?es) L' (elems_addrs L' h ?es')" using x(6) by simp
  have hd: "ie_key (hd ?es') = ie_key (hd ?es)" by (cases as) simp_all
  show ?thesis
  proof (cases r)
    case (Inl err)
    then have "fix_int dml lim ?es (length as) c txg d = Some (Inl err, ?es', d')" using sib x1 by (simp add: fix_int_def)
    then show ?thesis unfolding fix_res_def using x(2) ok' it po hd by (intro exI[of _ "Inl err"] exI[of _ ?es'] exI[of _ d'] exI[of _ L']) simp
  next
    case (Inr n)
    then have s': "ie_ptr s' = PMem n" using x(7) by simp
    show ?thesis
    proof (cases "can_merge lim c n")
      case True
      obtain m em where m: "node_merge c n = Some m" "elem_node ?es' (length as) m txg = Some em" "ie_ptr em = PMem m" "ie_key em = ie_key e"
          "\<not> in_danger lim m" "es_ok L' lim h (as @ [em] @ bs) hi" "elems_items L' h (as @ [em] @ bs) = elems_items L' h ?es'"
          "elems_addrs L' h (as @ [em] @ bs) = elems_addrs L' h ?es'" "ie_key (hd (as @ [em] @ bs)) = ie_key (hd ?es')"
        by (rule merge_pair[OF assms(1) ok' assms(4) s' True])
      have "fix_int dml lim ?es (length as) c txg d = Some (Inr (0, 1), as @ [em] @ bs, d')"
        using sib x1 Inr True m(1,2) by (simp add: fix_int_def vec_remove_def)
      moreover have "fix_res lim h hi ?es k L (Some (Inr (0, 1), as @ [em] @ bs, d'))"
        by (rule fix_resI[where ?ns1.0 = "[]" and ?ns2.0 = "[]", OF x(2) m(6) _ trans[OF m(9) hd] _ trans[OF m(7) it] po[folded m(8)] _ _ m(3,5)])
          (use m(4) assms(6) in \<open>simp_all add: at_key_def\<close>)
      ultimately show ?thesis by simp
    next
      case False
      note c = pair_children[OF ok' assms(4) s']
      obtain l' r' key where t: "take_low_keys c n = Some (l', r')" "shared_ok L' lim h (ie_key e) (next_key bs hi) c n l' r' key"
          "ie_key s' < key" "\<not> in_danger lim l'"
        by (rule take_low_spec[OF assms(1) c(1-6) False assms(5)])
      obtain ex ey where y: "elem_node ?es' (length as) l' txg = Some ex" "elem_node ?es' (Suc (length as)) r' txg = Some ey"
          "ie_ptr ex = PMem l'" "ie_key ex = ie_key e" "ie_ptr ey = PMem r'" "es_ok L' lim h (as @ [ex, set_key key ey] @ bs) hi"
          "elems_items L' h (as @ [ex, set_key key ey] @ bs) = elems_items L' h ?es'"
          "elems_addrs L' h (as @ [ex, set_key key ey] @ bs) = elems_addrs L' h ?es'"
          "ie_key (hd (as @ [ex, set_key key ey] @ bs)) = ie_key (hd ?es')"
        by (rule share_pair[OF ok' assms(4) s' t(2), of txg])
      have "node_key r' = Some key" using t(2) by (simp add: shared_ok_def)
      then have "fix_int dml lim ?es (length as) c txg d = Some (Inr (0, 0), as @ [ex, set_key key ey] @ bs, d')"
        using sib x1 Inr False t(1) y(1,2) by (simp add: fix_int_def list_update_append)
      moreover have "fix_res lim h hi ?es k L (Some (Inr (0, 0), as @ [ex, set_key key ey] @ bs, d'))"
        by (rule fix_resI[where ?ns1.0 = "[]", OF x(2) y(6) _ trans[OF y(9) hd] _ trans[OF y(7) it] po[folded y(8)] _ _ y(3) t(4)])
          (use y(4) t(3) x(3) assms(6) in \<open>auto simp: at_key_def\<close>)
      ultimately show ?thesis by simp
    qed
  qed
qed

lemma fix_int_left:
  assumes "fanouts_ok lim" "rep d L" "es_ok L lim h (as @ [s, e]) hi" "ie_ptr e = PMem c" "in_danger lim c" "ie_key e \<le> k"
    "length (as @ [s, e]) < 2 ^ 63"
  shows "fix_res lim h hi (as @ [s, e]) k L (fix_int dml lim (as @ [s, e]) (Suc (length as)) c txg d)"
proof -
  let ?es = "as @ [s, e]"
  have sib: "\<not> Suc (length as) < wsub 64 (length ?es) 1" "wsub 64 (Suc (length as)) 1 = length as" using assms(7) by (simp_all add: wsub_id)
  obtain r s' d' L' where x: "xlock dml (as @ s # [e]) (length as) txg d = Some (r, as @ s' # [e], d')" "rep d' L'"
      "ie_key s' = ie_key s" "es_ok L' lim h (as @ s' # [e]) hi"
      "elems_items L' h (as @ s' # [e]) = elems_items L h (as @ s # [e])"
      "pops L (elems_addrs L h (as @ s # [e])) L' (elems_addrs L' h (as @ s' # [e]))"
      "\<forall>n. r = Inr n \<longrightarrow> ie_ptr s' = PMem n"
    by (rule xlock_spec[OF assms(2,3)])
  let ?es' = "as @ [s', e] @ []"
  have x1: "xlock dml ?es (length as) txg d = Some (r, ?es', d')" using x(1) by simp
  have ok': "es_ok L' lim h ?es' hi" using x(4) by simp
  have it: "elems_items L' h ?es' = elems_items L h ?es" using x(5) by simp
  have po: "pops L (elems_addrs L h ?es) L' (elems_addrs L' h ?es')" using x(6) by simp
  have hd: "ie_key (hd ?es') = ie_key (hd ?es)" using x(3) by (cases as) simp_all
  show ?thesis
  proof (cases r)
    case (Inl err)
    then have "fix_int dml lim ?es (Suc (length as)) c txg d = Some (Inl err, ?es', d')" using sib x1 by (simp add: fix_int_def)
    then show ?thesis unfolding fix_res_def using x(2) ok' it po hd by (intro exI[of _ "Inl err"] exI[of _ ?es'] exI[of _ d'] exI[of _ L']) simp
  next
    case (Inr n)
    then have s': "ie_ptr s' = PMem n" using x(7) by simp
    show ?thesis
    proof (cases "can_merge lim n c")
      case True
      obtain m em where m: "node_merge n c = Some m" "elem_node ?es' (length as) m txg = Some em" "ie_ptr em = PMem m" "ie_key em = ie_key s'"
          "\<not> in_danger lim m" "es_ok L' lim h (as @ [em] @ []) hi" "elems_items L' h (as @ [em] @ []) = elems_items L' h ?es'"
          "elems_addrs L' h (as @ [em] @ []) = elems_addrs L' h ?es'" "ie_key (hd (as @ [em] @ [])) = ie_key (hd ?es')"
        by (rule merge_pair[OF assms(1) ok' s' assms(4) True])
      have "fix_int dml lim ?es (Suc (length as)) c txg d = Some (Inr (1, 0), as @ [em] @ [], d')"
        using sib x1 Inr True m(1,2) by (simp add: fix_int_def vec_remove_def)
      moreover have "ie_key em \<le> k" using pair_children(4)[OF ok' s' assms(4)] m(4) assms(6) by simp
      then have "fix_res lim h hi ?es k L (Some (Inr (1, 0), as @ [em] @ [], d'))"
        by (intro fix_resI[where ?ns1.0 = "[]" and ?ns2.0 = "[]", OF x(2) m(6) _ trans[OF m(9) hd] _ trans[OF m(7) it] po[folded m(8)] _ _ m(3,5)])
          (simp_all add: at_key_def)
      ultimately show ?thesis by simp
    next
      case False
      note c = pair_children[OF ok' s' assms(4)]
      obtain l' r' key where t: "take_high_keys c n = Some (r', l')" "shared_ok L' lim h (ie_key s') (next_key ([] :: ('a, 'k, 'v) IntElem list) hi) n c l' r' key"
          "key < ie_key e" "\<not> in_danger lim r'"
        by (rule take_high_spec[OF assms(1) c(1-6) False assms(5)]) blast
      obtain ex ey where y: "elem_node ?es' (length as) l' txg = Some ex" "elem_node ?es' (Suc (length as)) r' txg = Some ey"
          "ie_ptr ex = PMem l'" "ie_key ex = ie_key s'" "ie_ptr ey = PMem r'" "es_ok L' lim h (as @ [ex, set_key key ey] @ []) hi"
          "elems_items L' h (as @ [ex, set_key key ey] @ []) = elems_items L' h ?es'"
          "elems_addrs L' h (as @ [ex, set_key key ey] @ []) = elems_addrs L' h ?es'"
          "ie_key (hd (as @ [ex, set_key key ey] @ [])) = ie_key (hd ?es')"
        by (rule share_pair[OF ok' s' assms(4) t(2), of txg])
      have "node_key r' = Some key" using t(2) by (simp add: shared_ok_def)
      then have "fix_int dml lim ?es (Suc (length as)) c txg d = Some (Inr (0, 0), as @ [ex, set_key key ey] @ [], d')"
        using sib x1 Inr False t(1) y(1,2) by (simp add: fix_int_def list_update_append)
      moreover have "ie_ptr (set_key key ey) = PMem r'" using y(5) by simp
      then have "fix_res lim h hi ?es k L (Some (Inr (0, 0), as @ [ex, set_key key ey] @ [], d'))"
        by (intro fix_resI[where ?ns1.0 = "[ex]" and ?ns2.0 = "[]" and e = "set_key key ey", OF x(2) y(6) _ trans[OF y(9) hd] _ trans[OF y(7) it] po[folded y(8)] _ _ _ t(4)])
          (use t(3) assms(6) in \<open>auto simp: at_key_def\<close>)
      ultimately show ?thesis by simp
    qed
  qed
qed

section \<open>Removal\<close>

definition rem_es :: "Limits \<Rightarrow> nat \<Rightarrow> 'k option \<Rightarrow> ('a, 'k, 'v) IntElem list \<Rightarrow> 'k \<Rightarrow> ('a, 'k, 'v) store \<Rightarrow>
    ('v option result \<times> ('a, 'k, 'v) IntElem list \<times> 'd) option \<Rightarrow> bool" where
  "rem_es lim h hi es k L res \<longleftrightarrow> (\<exists>r es' d' L'. res = Some (r, es', d') \<and> rep d' L' \<and> es_ok L' lim h es' hi \<and>
     es' \<noteq> [] \<and> ie_key (hd es') = ie_key (hd es) \<and> length es' \<in> {length es, length es - 1} \<and>
     map_outcome (elems_items L h es) k (bt_remove k) r (elems_items L' h es') \<and>
     pops L (elems_addrs L h es) L' (elems_addrs L' h es'))"

definition rem_node :: "Limits \<Rightarrow> nat \<Rightarrow> 'k \<Rightarrow> 'k option \<Rightarrow> ('a, 'k, 'v) NodeData \<Rightarrow> 'k \<Rightarrow> ('a, 'k, 'v) store \<Rightarrow>
    ('v option result \<times> ('a, 'k, 'v) NodeData \<times> 'd) option \<Rightarrow> bool" where
  "rem_node lim h lo hi n k L res \<longleftrightarrow> (\<exists>r n' d' L'. res = Some (r, n', d') \<and> rep d' L' \<and> node_wf L' lim h lo hi n' \<and>
     node_len n' \<le> node_len n \<and> node_len n \<le> Suc (node_len n') \<and>
     map_outcome (node_items L h n) k (bt_remove k) r (node_items L' h n') \<and>
     pops L (node_addrs L h n) L' (node_addrs L' h n'))"

lemma rem_es_from:
  assumes "rem_es lim h hi es1 k L1 res" "length es1 = length es" "ie_key (hd es1) = ie_key (hd es)"
    "elems_items L1 h es1 = elems_items L h es"
    "pops L (elems_addrs L h es) L1 (elems_addrs L1 h es1)"
  shows "rem_es lim h hi es k L res"
  using assms pops_trans[OF assms(5)] unfolding rem_es_def by (simp only:) blast

text \<open>The child at the position of the key is large enough.\<close>

lemma rem_child:
  assumes "fanouts_ok lim" "es_ok L lim h (as @ e # bs) hi" "at_key as e bs k" "ie_ptr e = PMem c" "\<not> in_danger lim c"
    and rec: "rem_node lim h (ie_key e) (next_key bs hi) c k L res"
  obtains r c' d' L' where "res = Some (r, c', d')" "rep d' L'" "es_ok L' lim h (as @ set_ptr (PMem c') e # bs) hi"
    "map_outcome (elems_items L h (as @ e # bs)) k (bt_remove k) r (elems_items L' h (as @ set_ptr (PMem c') e # bs))"
    "pops L (elems_addrs L h (as @ e # bs)) L' (elems_addrs L' h (as @ set_ptr (PMem c') e # bs))"
proof -
  have wf: "elems_wf L (child_wf L lim h) (as @ e # bs) hi" using assms(2) by (simp add: es_ok_def)
  have c: "node_wf L lim h (ie_key e) (next_key bs hi) c" "fanout_ok lim c" "below (ie_key e) (next_key bs hi)"
      "elem_items L h e = node_items L h c" "elem_addrs L h e = node_addrs L h c"
    using es_child[OF assms(2)] assms(4) by auto
  obtain r c' d' L' where r: "res = Some (r, c', d')" "rep d' L'" "node_wf L' lim h (ie_key e) (next_key bs hi) c'"
      "node_len c' \<le> node_len c" "node_len c \<le> Suc (node_len c')"
      "map_outcome (node_items L h c) k (bt_remove k) r (node_items L' h c')"
      "pops L (node_addrs L h c) L' (node_addrs L' h c')"
    using rec unfolding rem_node_def by blast
  have leaf: "is_leaf c' = is_leaf c" using node_wf_is_leaf[OF r(3)] node_wf_is_leaf[OF c(1)] by simp
  have f: "fanout_ok lim c'"
    using c(2) assms(5) r(4,5) same_fanout[OF leaf, of lim] by (simp add: fanout_ok_def in_danger_def)
  let ?e = "set_ptr (PMem c') e"
  have s: "es_ok L' lim h (as @ ?e # bs) hi \<and>
      elems_items L' h (as @ ?e # bs) = elems_items L h as @ node_items L' h c' @ elems_items L h bs \<and>
      pops L (elems_addrs L h (as @ e # bs)) L' (elems_addrs L' h (as @ ?e # bs))"
    using r f c by (intro es_set_child[OF assms(2)]) simp_all
  have kl: "k \<notin> set (bt_keys (elems_items L h as))" using keys_left[OF wf] assms(3) unfolding at_key_def by blast
  have kr: "k \<notin> set (bt_keys (elems_items L h bs))" using keys_right[OF wf] assms(3) unfolding at_key_def by blast
  have "map_outcome (elems_items L h as @ node_items L h c @ elems_items L h bs) k (bt_remove k) r
      (elems_items L h as @ node_items L' h c' @ elems_items L h bs)"
    using r(6) kl kr by (intro map_outcome_middle bt_remove_middle) auto
  then show ?thesis using that[OF r(1,2)] s c(4) by simp
qed

lemma at_key_position:
  assumes "es_ok L lim h (as @ e # bs) hi" "at_key as e bs k"
  shows "position (as @ e # bs) k = length as"
proof -
  have "sorted_wrt (<) (map ie_key (as @ e # bs))" using elems_wf_sorted[OF conjunct1[OF assms(1)[unfolded es_ok_def]]] by simp
  then have a: "\<forall>x \<in> set as. ie_key x < ie_key e" by (simp add: sorted_wrt_append)
  have bs: "takeWhile (\<lambda>e. ie_key e \<le> k) bs = []" using assms(2) by (cases bs) (auto simp: at_key_def)
  show ?thesis
  proof (cases "as = []")
    case True
    then show ?thesis using bs by (simp add: position_def)
  next
    case False
    then have ek: "ie_key e \<le> k" using assms(2) by (simp add: at_key_def)
    then have "\<forall>x \<in> set as. ie_key x \<le> k" using a by fastforce
    then have "takeWhile (\<lambda>e. ie_key e \<le> k) (as @ e # bs) = as @ [e]" using ek bs by (simp add: takeWhile_append2)
    then show ?thesis by (simp add: position_def)
  qed
qed

lemma fix_int_ok:
  assumes "fanouts_ok lim" "rep d L" "es_ok L lim h (as @ e # bs) hi" "ie_ptr e = PMem c" "in_danger lim c" "at_key as e bs k"
    "2 \<le> length (as @ e # bs)" "length (as @ e # bs) < 2 ^ 63"
  shows "fix_res lim h hi (as @ e # bs) k L (fix_int dml lim (as @ e # bs) (length as) c txg d)"
proof (cases bs)
  case Nil
  then obtain as' s where as: "as = as' @ [s]" using assms(7) by (cases as rule: rev_cases) auto
  then have "ie_key e \<le> k" using assms(6) by (simp add: at_key_def)
  then show ?thesis using fix_int_left[OF assms(1,2), of h as' s e hi c k txg] assms(3-5,8) Nil as by simp
next
  case (Cons s bs')
  then show ?thesis using fix_int_right[OF assms(1,2), of h as e s bs' hi c k txg] assms by simp
qed

lemma xlock_mem:
  "ie_ptr e = PMem c \<Longrightarrow> xlock dml (as @ e # bs) (length as) txg d = Some (Inr c, as @ set_end (txg_add txg 1) e # bs, d)"
  by (simp add: xlock_def)

lemma remove_int_ok:
  assumes "fanouts_ok lim" "rep d L" "es_ok L lim h (as @ e # bs) hi" "at_key as e bs k" "ie_ptr e = PMem c"
    "2 \<le> length (as @ e # bs)" "length (as @ e # bs) < 2 ^ 63"
    and rec: "\<And>d L c lo hi. rep d L \<Longrightarrow> node_wf L lim h lo hi c \<Longrightarrow> distinct (node_addrs L h c) \<Longrightarrow> fanout_ok lim c \<Longrightarrow>
        \<not> in_danger lim c \<Longrightarrow> rem_node lim h lo hi c k L (rec c k txg d)"
  shows "rem_es lim h hi (as @ e # bs) k L (remove_int rec dml lim (as @ e # bs) (length as) c k txg d)"
proof (cases "in_danger lim c")
  case False
  have rec': "rem_node lim h (ie_key e) (next_key bs hi) c k L (rec c k txg d)"
    using es_child[OF assms(3)] assms(3,5) False by (intro rec[OF assms(2)]) (auto simp: es_ok_def)
  obtain r c' d' L' where r: "rec c k txg d = Some (r, c', d')" "rep d' L'" "es_ok L' lim h (as @ set_ptr (PMem c') e # bs) hi"
      "map_outcome (elems_items L h (as @ e # bs)) k (bt_remove k) r (elems_items L' h (as @ set_ptr (PMem c') e # bs))"
      "pops L (elems_addrs L h (as @ e # bs)) L' (elems_addrs L' h (as @ set_ptr (PMem c') e # bs))"
    by (rule rem_child[OF assms(1,3-5) False rec'])
  have "remove_int rec dml lim (as @ e # bs) (length as) c k txg d = Some (r, as @ set_ptr (PMem c') e # bs, d')"
    using False r(1) by (simp add: remove_int_def)
  moreover have "ie_key (hd (as @ set_ptr (PMem c') e # bs)) = ie_key (hd (as @ e # bs))" by (cases as) simp_all
  ultimately show ?thesis unfolding rem_es_def using r(2-5) by auto
next
  case True
  obtain r1 es1 d1 L1 where f: "fix_int dml lim (as @ e # bs) (length as) c txg d = Some (r1, es1, d1)" "rep d1 L1" "es_ok L1 lim h es1 hi"
      "es1 \<noteq> []" "ie_key (hd es1) = ie_key (hd (as @ e # bs))" "length es1 \<in> {length (as @ e # bs), length (as @ e # bs) - 1}"
      "elems_items L1 h es1 = elems_items L h (as @ e # bs)"
      "pops L (elems_addrs L h (as @ e # bs)) L1 (elems_addrs L1 h es1)"
      "\<forall>p. r1 = Inr p \<longrightarrow> (\<exists>as e bs c. es1 = as @ e # bs \<and> at_key as e bs k \<and> ie_ptr e = PMem c \<and> \<not> in_danger lim c)"
    using fix_int_ok[OF assms(1-3,5) True assms(4,6,7), of txg] unfolding fix_res_def by blast
  show ?thesis
  proof (cases r1)
    case (Inl err)
    then have "remove_int rec dml lim (as @ e # bs) (length as) c k txg d = Some (Inl err, es1, d1)"
      using True f(1) by (simp add: remove_int_def)
    then show ?thesis unfolding rem_es_def using f by (auto simp: map_outcome_def simp del: elems_simps)
  next
    case (Inr p)
    then obtain as1 e1 bs1 c1 where p: "es1 = as1 @ e1 # bs1" "at_key as1 e1 bs1 k" "ie_ptr e1 = PMem c1" "\<not> in_danger lim c1"
      using f(9) by blast
    let ?e = "set_end (txg_add txg 1) e1"
    note same = es_same_ptr[OF f(3)[unfolded p(1)], of ?e, OF set_txg_simps(3,4)]
    have ak: "at_key as1 ?e bs1 k" and em: "ie_ptr ?e = PMem c1" using p(2,3) by (simp_all add: at_key_def)
    have rec': "rem_node lim h (ie_key ?e) (next_key bs1 hi) c1 k L1 (rec c1 k txg d1)"
      using es_child[OF same(1)] same(1) em p(4) by (intro rec[OF f(2)]) (auto simp: es_ok_def)
    obtain r c' d' L' where r: "rec c1 k txg d1 = Some (r, c', d')" "rep d' L'" "es_ok L' lim h (as1 @ set_ptr (PMem c') ?e # bs1) hi"
        "map_outcome (elems_items L1 h (as1 @ ?e # bs1)) k (bt_remove k) r (elems_items L' h (as1 @ set_ptr (PMem c') ?e # bs1))"
        "pops L1 (elems_addrs L1 h (as1 @ ?e # bs1)) L' (elems_addrs L' h (as1 @ set_ptr (PMem c') ?e # bs1))"
      by (rule rem_child[OF assms(1) same(1) ak em p(4) rec'])
    have "remove_int rec dml lim (as @ e # bs) (length as) c k txg d = Some (r, as1 @ set_ptr (PMem c') ?e # bs1, d')"
      using True f(1) Inr p(1) at_key_position[OF f(3)[unfolded p(1)] p(2)] xlock_mem[OF p(3), of as1 bs1 txg d1] r(1)
      by (simp add: remove_int_def)
    moreover have "ie_key (hd (as1 @ set_ptr (PMem c') ?e # bs1)) = ie_key (hd (as @ e # bs))"
      using f(5) p(1) by (cases as1) simp_all
    moreover have "length (as1 @ set_ptr (PMem c') ?e # bs1) \<in> {length (as @ e # bs), length (as @ e # bs) - 1}" using f(6) p(1) by simp
    moreover have "map_outcome (elems_items L h (as @ e # bs)) k (bt_remove k) r (elems_items L' h (as1 @ set_ptr (PMem c') ?e # bs1))"
      using r(4) unfolding same(2) p(1)[symmetric] f(7) .
    moreover have "pops L (elems_addrs L h (as @ e # bs)) L' (elems_addrs L' h (as1 @ set_ptr (PMem c') ?e # bs1))"
      using pops_trans[OF f(8)] r(5) unfolding same(3) p(1)[symmetric] by blast
    ultimately show ?thesis unfolding rem_es_def using r(2,3) by blast
  qed
qed

lemma bt_remove_length: "bt_ok m \<Longrightarrow> length m \<le> Suc (length (bt_remove k m))"
proof (induction m)
  case (Cons x m)
  obtain j v where x: "x = (j, v)" by force
  show ?case
  proof (cases "j = k")
    case True
    then have "k \<notin> set (bt_keys m)" using Cons.prems x by (auto simp: bt_ok_Cons)
    then show ?thesis using True x bt_remove_absent[of k m] by (simp add: bt_remove_def)
  next
    case False
    then show ?thesis using Cons x by (auto simp: bt_ok_Cons bt_remove_def)
  qed
qed simp

lemma remove_ok:
  assumes "fanouts_ok lim"
  shows "rep d L \<Longrightarrow> node_wf L lim h lo hi n \<Longrightarrow> distinct (node_addrs L h n) \<Longrightarrow> node_len n \<le> node_max_fanout lim n \<Longrightarrow>
    h = 0 \<or> 2 \<le> node_len n \<Longrightarrow> h < fuel \<Longrightarrow> rem_node lim h lo hi n k L (remove_no_fix dml lim fuel n k txg d)"
proof (induction h arbitrary: n lo hi d L fuel)
  case 0
  then obtain f xs where f: "fuel = Suc f" "n = LeafNode xs" by (cases n; cases fuel) auto
  have x: "bt_ok xs" using 0(2) f by simp
  have "length (bt_remove k xs) \<le> length xs" by (simp add: bt_remove_def)
  moreover have "length xs \<le> Suc (length (bt_remove k xs))" using bt_remove_length[OF x] .
  ultimately show ?case
    using 0 f x bt_remove_keys[of k xs] by (auto simp: rem_node_def map_outcome_def)
next
  case (Suc h)
  then obtain f es where f: "fuel = Suc f" "n = IntNode es" "es \<noteq> []" "lo \<le> ie_key (hd es)"
      and wf: "elems_wf L (child_wf L lim h) es hi"
    by (cases n; cases fuel) auto
  have ok: "es_ok L lim h es hi" using wf Suc.prems(3) f(2) by (simp add: es_ok_def)
  have len: "2 \<le> length es" "length es < 2 ^ 63"
    using Suc.prems(4,5) f(2) fanouts_node[OF assms, of n] by auto
  obtain as e bs where es: "es = as @ e # bs" "position es k = length as" "as \<noteq> [] \<longrightarrow> ie_key e \<le> k" "\<forall>x \<in> set bs. k < ie_key x"
    by (rule position_split[OF wf f(3)])
  obtain r e1 d1 L1 where x: "xlock dml (as @ e # bs) (length as) txg d = Some (r, as @ e1 # bs, d1)" "rep d1 L1" "ie_key e1 = ie_key e"
      "es_ok L1 lim h (as @ e1 # bs) hi" "elems_items L1 h (as @ e1 # bs) = elems_items L h (as @ e # bs)"
      "pops L (elems_addrs L h (as @ e # bs)) L1 (elems_addrs L1 h (as @ e1 # bs))"
      "\<forall>n. r = Inr n \<longrightarrow> ie_ptr e1 = PMem n"
    by (rule xlock_spec[OF Suc.prems(1) ok[unfolded es(1)]])
  have hd: "ie_key (hd (as @ e1 # bs)) = ie_key (hd es)" using x(3) es(1) by (cases as) simp_all
  have node: "rem_node lim (Suc h) lo hi n k L (do { (r, es, d) \<leftarrow> res; Some (r, IntNode es, d) })" if "rem_es lim h hi es k L res" for res
    using that f len unfolding rem_es_def rem_node_def by (auto simp: es_ok_def)
  show ?case
  proof (cases r)
    case (Inl err)
    have "rem_es lim h hi es k L (Some (Inl err, as @ e1 # bs, d1))"
      unfolding rem_es_def using x(2,4-6) hd es(1) by (auto simp: map_outcome_def simp del: elems_simps)
    from node[OF this] show ?thesis using f(1,2) es(1,2) x(1) Inl by simp
  next
    case (Inr c)
    have ak: "at_key as e1 bs k" using es(3,4) x(3) by (simp add: at_key_def)
    have em: "ie_ptr e1 = PMem c" using x(7) Inr by simp
    have len1: "2 \<le> length (as @ e1 # bs)" "length (as @ e1 # bs) < 2 ^ 63" using len es(1) by simp_all
    have "rem_es lim h hi (as @ e1 # bs) k L1 (remove_int (remove_no_fix dml lim f) dml lim (as @ e1 # bs) (length as) c k txg d1)"
    proof (rule remove_int_ok[OF assms x(2,4) ak em len1])
      fix d L c lo hi
      assume c: "rep d L" "node_wf L lim h lo hi c" "distinct (node_addrs L h c)" "fanout_ok lim c" "\<not> in_danger lim c"
      have "2 \<le> node_len c" if "h \<noteq> 0"
        using c(4,5) that node_wf_is_leaf[OF c(2)] assms by (auto simp: in_danger_def node_min_fanout_def fanouts_ok_def)
      then show "rem_node lim h lo hi c k L (remove_no_fix dml lim f c k txg d)"
        using c Suc.prems(6) f(1) by (intro Suc.IH) (auto simp: fanout_ok_def)
    qed
    then have "rem_es lim h hi es k L (remove_int (remove_no_fix dml lim f) dml lim (as @ e1 # bs) (length as) c k txg d1)"
      by (rule rem_es_from) (use x(5,6) hd es(1) in \<open>simp_all only: length_append list.size\<close>)
    from node[OF this] show ?thesis using f(1,2) es(1,2) x(1) Inr by simp
  qed
qed

text \<open>A root with one child gives way to the child.\<close>

lemma merge_root_spec:
  assumes "rep d L" "tree_wf L t"
  obtains r t' d' L' where "xlock_and_merge_root dml t txg d = Some (r, t', d')" "rep d' L'" "tree_wf L' t'"
    "tree_items L' t' = tree_items L t" "pops L (tree_addrs L t) L' (tree_addrs L' t')"
    "tr_limits t' = tr_limits t" "tr_height t' \<le> tr_height t"
    "\<forall>n. r = Inr n \<longrightarrow> ie_ptr (tr_root t') = PMem n \<and> (tr_height t' = 1 \<or> 2 \<le> node_len n)"
proof -
  obtain r e d1 L1 where x: "xlock_root dml (tr_root t) txg d = Some (r, e, d1)" "rep d1 L1" "tree_wf L1 (t\<lparr>tr_root := e\<rparr>)"
      "tree_items L1 (t\<lparr>tr_root := e\<rparr>) = tree_items L t"
      "pops L (tree_addrs L t) L1 (tree_addrs L1 (t\<lparr>tr_root := e\<rparr>))" "\<forall>n. r = Inr n \<longrightarrow> ie_ptr e = PMem n"
      "\<forall>n. r = Inr n \<longrightarrow> resolve L (ie_ptr (tr_root t)) = Some n"
    by (rule xlock_root_spec[OF assms])
  let ?t = "t\<lparr>tr_root := e\<rparr>"
  show ?thesis
  proof (cases r)
    case (Inl err)
    then show ?thesis using that[of "Inl err" ?t d1 L1] x by (simp add: xlock_and_merge_root_def)
  next
    case (Inr n)
    then have mem: "ie_ptr (tr_root ?t) = PMem n" using x(6) by simp
    note m = tree_wf_mem[OF mem, of L1]
    have wf: "1 \<le> tr_height t" "fanouts_ok (tr_limits t)" "node_wf L1 (tr_limits t) (tr_height t - 1) bot None n" "tr_height t < 2 ^ 63"
        "distinct (node_addrs L1 (tr_height t - 1) n)"
      using x(3) m(1) by simp_all
    show ?thesis
    proof (cases "\<exists>e1. n = IntNode [e1]")
      case False
      have "tr_height t = 1 \<or> 2 \<le> node_len n"
      proof (cases n)
        case (IntNode es)
        then have "es \<noteq> []" using wf(3) by (auto simp: node_wf_int)
        then show ?thesis using False IntNode by (cases es; cases "tl es") auto
      qed (use wf(1,3) in auto)
      moreover have "xlock_and_merge_root dml t txg d = Some (Inr n, ?t, d1)"
        using x(1) Inr False wf(3) by (cases n) (auto simp: xlock_and_merge_root_def node_wf_int Let_def length_Suc_conv)
      ultimately show ?thesis using that[of "Inr n" ?t d1 L1] x mem by simp
    next
      case True
      then obtain e1 where e1: "n = IntNode [e1]" by blast
      let ?t1 = "?t\<lparr>tr_root := set_key bot e1, tr_height := tr_height t - 1\<rparr>"
      obtain g where g: "tr_height t = Suc (Suc g)" "elem_wf L1 (child_wf L1 (tr_limits t) g) None e1"
        using wf(1,3) e1 that by (cases "tr_height t") (auto simp: node_wf_int)
      have same: "elem_items L1 g (set_key bot e1) = elem_items L1 g e1" "elem_addrs L1 g (set_key bot e1) = elem_addrs L1 g e1"
        using elem_same_ptr[of "set_key bot e1" e1] by simp_all
      have wf1: "tree_wf L1 ?t1"
        using g wf(2,4,5) e1 same by (auto simp: tree_wf_def elem_wf_def fanout_ok_def intro: node_wf_lo[OF _ bot_least])
      have it: "tree_items L1 ?t1 = tree_items L1 ?t" "tree_addrs L1 ?t1 = tree_addrs L1 ?t"
        using m(2,3) g(1) e1 same by (simp_all add: tree_items_def tree_addrs_def)
      obtain r' e' d' L' where y: "xlock_root dml (tr_root ?t1) txg d1 = Some (r', e', d')" "rep d' L'" "tree_wf L' (?t1\<lparr>tr_root := e'\<rparr>)"
          "tree_items L' (?t1\<lparr>tr_root := e'\<rparr>) = tree_items L1 ?t1"
          "pops L1 (tree_addrs L1 ?t1) L' (tree_addrs L' (?t1\<lparr>tr_root := e'\<rparr>))" "\<forall>n. r' = Inr n \<longrightarrow> ie_ptr e' = PMem n"
          "\<forall>n. r' = Inr n \<longrightarrow> resolve L1 (ie_ptr (tr_root ?t1)) = Some n"
        by (rule xlock_root_spec[OF x(2) wf1])
      have h: "wsub 64 (tr_height t) 1 = tr_height t - 1" using wf(1,4) by (simp add: wsub_id)
      have "xlock_and_merge_root dml t txg d = Some (r', ?t1\<lparr>tr_root := e'\<rparr>, d')"
        using x(1) Inr e1 y(1) h by (simp add: xlock_and_merge_root_def Let_def)
      moreover have "tr_height (?t1\<lparr>tr_root := e'\<rparr>) = 1 \<or> 2 \<le> node_len c" if c: "r' = Inr c" for c
      proof -
        have "fanout_ok (tr_limits t) c" "node_wf L1 (tr_limits t) g (ie_key e1) None c"
          using y(7) c g(2) by (auto simp: elem_wf_def)
        then show ?thesis using node_wf_is_leaf[of L1 "tr_limits t" g "ie_key e1" None c] wf(2) g(1)
          by (cases "g = 0") (auto simp: fanout_ok_def node_min_fanout_def fanouts_ok_def)
      qed
      ultimately show ?thesis
        using that[of r' "?t1\<lparr>tr_root := e'\<rparr>" d' L'] y it x(4) pops_trans[OF x(5)] by simp
    qed
  qed
qed

theorem remove_tree:
  assumes "rep d L" "tree_wf L t" "tr_height t \<le> fuel"
  obtains r t' d' L' where "tree_remove dml fuel t k txg d = Some (r, t', d')" "rep d' L'" "tree_wf L' t'"
    "map_outcome (tree_items L t) k (bt_remove k) r (tree_items L' t')"
    "pops L (tree_addrs L t) L' (tree_addrs L' t')" "tr_limits t' = tr_limits t" "tr_height t' \<le> tr_height t"
proof -
  obtain r t1 d1 L1 where x: "xlock_and_merge_root dml t txg d = Some (r, t1, d1)" "rep d1 L1" "tree_wf L1 t1"
      "tree_items L1 t1 = tree_items L t" "pops L (tree_addrs L t) L1 (tree_addrs L1 t1)"
      "tr_limits t1 = tr_limits t" "tr_height t1 \<le> tr_height t"
      "\<forall>n. r = Inr n \<longrightarrow> ie_ptr (tr_root t1) = PMem n \<and> (tr_height t1 = 1 \<or> 2 \<le> node_len n)"
    by (rule merge_root_spec[OF assms(1,2)])
  show ?thesis
  proof (cases r)
    case (Inl err)
    then show ?thesis using that[of "Inl err" t1 d1 L1] x by (simp add: tree_remove_def map_outcome_def)
  next
    case (Inr n)
    then have mem: "ie_ptr (tr_root t1) = PMem n" and two: "tr_height t1 = 1 \<or> 2 \<le> node_len n" using x(8) by simp_all
    let ?h = "tr_height t1 - 1"
    note m = tree_wf_mem[OF mem, of L1]
    have wf: "1 \<le> tr_height t1" "tr_height t1 < 2 ^ 63" "fanouts_ok (tr_limits t1)" "node_wf L1 (tr_limits t1) ?h bot None n"
        "node_len n \<le> node_max_fanout (tr_limits t1) n" "distinct (node_addrs L1 ?h n)"
      using x(3) m(1) by simp_all
    have "rem_node (tr_limits t1) ?h bot None n k L1 (remove_no_fix dml (tr_limits t1) fuel n k txg d1)"
      using two wf(1) assms(3) x(7) by (intro remove_ok[OF wf(3) x(2) wf(4,6,5)]) auto
    then obtain r' n' d' L' where r: "remove_no_fix dml (tr_limits t1) fuel n k txg d1 = Some (r', n', d')" "rep d' L'"
        "node_wf L' (tr_limits t1) ?h bot None n'" "node_len n' \<le> node_len n"
        "map_outcome (node_items L1 ?h n) k (bt_remove k) r' (node_items L' ?h n')"
        "pops L1 (node_addrs L1 ?h n) L' (node_addrs L' ?h n')"
      unfolding rem_node_def by blast
    let ?t = "t1\<lparr>tr_root := set_ptr (PMem n') (tr_root t1)\<rparr>"
    have mem': "ie_ptr (tr_root ?t) = PMem n'" by simp
    note m' = tree_wf_mem[OF mem', of L']
    have leaf: "is_leaf n' = is_leaf n" using node_wf_is_leaf[OF r(3)] node_wf_is_leaf[OF wf(4)] by simp
    have wf': "tree_wf L' ?t"
      using m'(1) wf r(3,4) pops_distinct[OF r(6) wf(6)] same_fanout[OF leaf, of "tr_limits t1"] by simp
    have "tree_remove dml fuel t k txg d = Some (r', ?t, d')" using x(1) Inr r(1) by (simp add: tree_remove_def)
    then show ?thesis
      by (rule that[OF _ r(2) wf']) (use r(5,6) m(2,3) m'(2,3) x(4,6,7) pops_trans[OF x(5)] in simp_all)
  qed
qed

end

end
