(* ===== verification/Btree_Flush.thy ===== *)
theory Btree_Flush
  imports Btree_Remove
begin

text \<open>
  Writing a tree to the data management layer, and opening it again: \<open>flush\<close>, \<open>serialize\<close> and \<open>open\<close> of
  \<open>bfffs/src/common/tree/tree/mod.rs\<close>. \<open>needs_flush\<close> and \<open>vflush\<close> are the methods of the trait \<open>Value\<close>. The futures that the
  source joins are run in the order of the children; the first error is the error of all.
\<close>

section \<open>Flushing\<close>

fun flush_values ::
    "('v \<Rightarrow> TxgT \<Rightarrow> 'd \<Rightarrow> ('v result \<times> 'd) option) \<Rightarrow> ('k :: linorder \<times> 'v) list \<Rightarrow> TxgT \<Rightarrow> 'd \<Rightarrow> (('k \<times> 'v) list result \<times> 'd) option" where
  "flush_values vflush [] txg d = Some (Inr [], d)"
| "flush_values vflush ((k, v) # items) txg d = do {
     (r, d) \<leftarrow> vflush v txg d;
     case r of
       Inl e \<Rightarrow> Some (Inl e, d)
     | Inr v \<Rightarrow> do {
         (r, d) \<leftarrow> flush_values vflush items txg d;
         case r of Inl e \<Rightarrow> Some (Inl e, d) | Inr items \<Rightarrow> Some (Inr ((k, v) # items), d)
       }
   }"

definition leaf_flush ::
    "bool \<Rightarrow> ('v \<Rightarrow> TxgT \<Rightarrow> 'd \<Rightarrow> ('v result \<times> 'd) option) \<Rightarrow> ('k :: linorder \<times> 'v) list \<Rightarrow> TxgT \<Rightarrow> 'd \<Rightarrow> (('k \<times> 'v) list result \<times> 'd) option" where
  "leaf_flush needs_flush vflush items txg d =
     (if needs_flush then do {
        (r, d) \<leftarrow> flush_values vflush items txg d;
        Some (case r of Inl e \<Rightarrow> Inl e | Inr items \<Rightarrow> Inr (bt_append [] items), d)
      } else Some (Inr items, d))"

definition write_leaf ::
    "('d, 'a, ('a, 'k :: linorder, 'v) NodeData) Dml \<Rightarrow> bool \<Rightarrow> ('v \<Rightarrow> TxgT \<Rightarrow> 'd \<Rightarrow> ('v result \<times> 'd) option) \<Rightarrow> Compression \<Rightarrow>
       ('k \<times> 'v) list \<Rightarrow> TxgT \<Rightarrow> 'd \<Rightarrow> ('a result \<times> 'd) option" where
  "write_leaf dml nf vflush compressor items txg d = do {
     (r, d) \<leftarrow> leaf_flush nf vflush items txg d;
     case r of
       Inl e \<Rightarrow> Some (Inl e, d)
     | Inr leaf_data \<Rightarrow> dml_put dml d (LeafNode leaf_data) compressor txg
   }"

fun flush_r ::
    "('d, 'a, ('a, 'k :: linorder, 'v) NodeData) Dml \<Rightarrow> bool \<Rightarrow> ('v \<Rightarrow> TxgT \<Rightarrow> 'd \<Rightarrow> ('v result \<times> 'd) option) \<Rightarrow> Compression \<Rightarrow> Compression \<Rightarrow>
       ('a, 'k, 'v) NodeData \<Rightarrow> TxgT \<Rightarrow> 'd \<Rightarrow> (('a \<times> txg_range) result \<times> 'd) option"
  and flush_children ::
    "('d, 'a, ('a, 'k :: linorder, 'v) NodeData) Dml \<Rightarrow> bool \<Rightarrow> ('v \<Rightarrow> TxgT \<Rightarrow> 'd \<Rightarrow> ('v result \<times> 'd) option) \<Rightarrow> Compression \<Rightarrow> Compression \<Rightarrow>
       ('a, 'k, 'v) IntElem list \<Rightarrow> TxgT \<Rightarrow> 'd \<Rightarrow> (('a, 'k, 'v) IntElem list result \<times> 'd) option"
  and flush_elem ::
    "('d, 'a, ('a, 'k :: linorder, 'v) NodeData) Dml \<Rightarrow> bool \<Rightarrow> ('v \<Rightarrow> TxgT \<Rightarrow> 'd \<Rightarrow> ('v result \<times> 'd) option) \<Rightarrow> Compression \<Rightarrow> Compression \<Rightarrow>
       'k \<Rightarrow> txg_range \<Rightarrow> ('a, 'k, 'v) TreePtr \<Rightarrow> TxgT \<Rightarrow> 'd \<Rightarrow> (('a, 'k, 'v) IntElem result \<times> 'd) option" where
  "flush_r dml nf vflush ic lc (LeafNode items) txg d = do {
     (r, d) \<leftarrow> write_leaf dml nf vflush lc items txg d;
     Some (case r of Inl e \<Rightarrow> Inl e | Inr addr \<Rightarrow> Inr (addr, txgs_of txg), d)
   }"
| "flush_r dml nf vflush ic lc (IntNode es) txg d = do {
     (r, d) \<leftarrow> flush_children dml nf vflush ic lc es txg d;
     case r of
       Inl e \<Rightarrow> Some (Inl e, d)
     | Inr elems \<Rightarrow> do {
         start_txg \<leftarrow> int_start_txg elems;
         (r, d) \<leftarrow> dml_put dml d (IntNode elems) ic txg;
         Some (case r of Inl e \<Rightarrow> Inl e | Inr addr \<Rightarrow> Inr (addr, \<lparr>txg_start = start_txg, txg_end = txg_add txg 1\<rparr>), d)
       }
   }"
| "flush_children dml nf vflush ic lc [] txg d = Some (Inr [], d)"
| "flush_children dml nf vflush ic lc (IntElem key txgs ptr # es) txg d = do {
     (r, d) \<leftarrow> flush_elem dml nf vflush ic lc key txgs ptr txg d;
     case r of
       Inl e \<Rightarrow> Some (Inl e, d)
     | Inr elem \<Rightarrow> do {
         (r, d) \<leftarrow> flush_children dml nf vflush ic lc es txg d;
         Some (case r of Inl e \<Rightarrow> Inl e | Inr elems \<Rightarrow> Inr (elem # elems), d)
       }
   }"
| "flush_elem dml nf vflush ic lc key txgs (PMem n) txg d = do {
     (r, d) \<leftarrow> flush_r dml nf vflush ic lc n txg d;
     Some (case r of Inl e \<Rightarrow> Inl e | Inr (addr, txgs) \<Rightarrow> Inr (IntElem key txgs (PAddr addr)), d)
   }"
| "flush_elem dml nf vflush ic lc key txgs (PAddr a) txg d = Some (Inr (IntElem key txgs (PAddr a)), d)"
| "flush_elem dml nf vflush ic lc key txgs PNone txg d = Some (Inr (IntElem key txgs PNone), d)"

text \<open>The root pointer is taken out of the tree before the flush, and put back only after its success.\<close>

definition tree_flush ::
    "('d, 'a, ('a, 'k :: linorder, 'v) NodeData) Dml \<Rightarrow> bool \<Rightarrow> ('v \<Rightarrow> TxgT \<Rightarrow> 'd \<Rightarrow> ('v result \<times> 'd) option) \<Rightarrow>
       ('a, 'k, 'v) Tree \<Rightarrow> TxgT \<Rightarrow> 'd \<Rightarrow> (unit result \<times> ('a, 'k, 'v) Tree \<times> 'd) option" where
  "tree_flush dml nf vflush t txg d =
     (if ptr_is_mem (ie_ptr (tr_root t)) then do {
        (r, root, d) \<leftarrow> xlock_root dml (tr_root t) txg d;
        case r of
          Inl e \<Rightarrow> Some (Inl e, t\<lparr>tr_root := root\<rparr>, d)
        | Inr node \<Rightarrow> do {
            let root = set_ptr PNone root;
            (r, d) \<leftarrow> flush_r dml nf vflush (tr_int_compressor t) (tr_leaf_compressor t) node txg d;
            Some (case r of
                Inl e \<Rightarrow> (Inl e, t\<lparr>tr_root := root\<rparr>, d)
              | Inr (addr, txgs) \<Rightarrow> (Inr (), t\<lparr>tr_root := set_txgs txgs (set_ptr (PAddr addr) root)\<rparr>, d))
          }
      } else Some (Inr (), t, d))"

section \<open>On disk\<close>

record 'a TreeOnDisk =
  tod_height :: nat
  tod_limits :: Limits
  tod_root :: 'a
  tod_txgs :: txg_range

text \<open>\<open>serialize\<close> panics if the tree is dirty.\<close>

definition tree_serialize :: "('a, 'k, 'v) Tree \<Rightarrow> 'a TreeOnDisk option" where
  "tree_serialize t = do {
     root \<leftarrow> as_addr (ie_ptr (tr_root t));
     Some \<lparr>tod_height = tr_height t, tod_limits = tr_limits t, tod_root = root, tod_txgs = ie_txgs (tr_root t)\<rparr>
   }"

definition tree_open :: "nat \<Rightarrow> nat \<Rightarrow> bool \<Rightarrow> 'a TreeOnDisk \<Rightarrow> ('a, 'k :: order_bot, 'v) Tree" where
  "tree_open int_size leaf_size seq tod =
     inner_new int_size leaf_size (tod_height tod) (tod_limits tod) (IntElem bot (tod_txgs tod) (PAddr (tod_root tod))) seq"

text \<open>
  The fanouts of a new tree. \<open>raw_bytes\<close> is the size of a block times the expected compression ratio, which the source
  computes in floating point.
\<close>

definition mk_fanout :: "bool \<Rightarrow> nat \<Rightarrow> nat \<Rightarrow> (nat \<times> nat) option" where
  "mk_fanout seq elem_size raw_bytes = do {
     let split_size = wsub 64 raw_bytes 12;
     assert_that (elem_size \<noteq> 0);
     let max_fanout = (if seq then u64 (split_size * 4) div 3 div elem_size else u64 (2 * (split_size div elem_size)));
     min_fanout \<leftarrow> div_roundup 16 (u16 max_fanout) 4;
     Some (min_fanout, u16 max_fanout)
   }"

definition tree_create :: "nat \<Rightarrow> nat \<Rightarrow> bool \<Rightarrow> nat \<Rightarrow> nat \<Rightarrow> ('a, 'k :: order_bot, 'v) Tree option" where
  "tree_create int_size leaf_size seq leaf_bytes int_bytes = do {
     (minlf, maxlf) \<leftarrow> mk_fanout seq leaf_size leaf_bytes;
     (minif, maxif) \<leftarrow> mk_fanout seq int_size int_bytes;
     let limits = \<lparr>min_int_fanout = minif, max_int_fanout = maxif, min_leaf_fanout = minlf, max_leaf_fanout = maxlf\<rparr>;
     Some (tree_new int_size leaf_size limits seq)
   }"

section \<open>A larger store\<close>

lemma node_addrs_dom: "node_wf L lim h lo hi n \<Longrightarrow> set (node_addrs L h n) \<subseteq> dom L"
proof (induction h arbitrary: lo hi n)
  case 0
  then show ?case by (cases n) simp_all
next
  case (Suc h)
  then obtain es where es: "n = IntNode es" "elems_wf L (child_wf L lim h) es hi" by (cases n) auto
  have "set (elems_addrs L h es) \<subseteq> dom L"
    using es(2)
  proof (induction es arbitrary: hi)
    case (Cons e es)
    obtain c where c: "resolve L (ie_ptr e) = Some c" "node_wf L lim h (ie_key e) (next_key es hi) c" "elems_wf L (child_wf L lim h) es hi"
      using Cons.prems by (auto simp: elem_wf_def)
    have "set (elem_addrs L h e) \<subseteq> dom L"
      using Suc.IH[OF c(2)] c(1) by (cases "ie_ptr e") (auto simp: elem_addrs_def elem_map_def)
    then show ?case using Cons.IH[OF c(3)] by simp
  qed simp
  then show ?case using es(1) by simp
qed

lemma elems_addrs_dom: "elems_wf L (child_wf L lim h) es hi \<Longrightarrow> set (elems_addrs L h es) \<subseteq> dom L"
  using node_addrs_dom[of L lim "Suc h" "ie_key (hd es)" hi "IntNode es"] by (cases "es = []") auto

lemma map_le_agree: "L \<subseteq>\<^sub>m L' \<Longrightarrow> A \<subseteq> dom L \<Longrightarrow> \<forall>a \<in> A. L' a = L a"
  unfolding map_le_def by (metis subsetD)

lemmas node_extend = node_frame[OF _ map_le_agree[OF _ node_addrs_dom]]
lemmas elems_extend = elems_frame[OF _ map_le_agree[OF _ elems_addrs_dom]]

text \<open>\<open>adds\<close>: new records have been stored, at addresses that were free and are now used.\<close>

definition adds :: "('a \<rightharpoonup> 'n) \<Rightarrow> 'a list \<Rightarrow> ('a \<rightharpoonup> 'n) \<Rightarrow> 'a list \<Rightarrow> bool" where
  "adds L as L' as' \<longleftrightarrow> pops L' as' L as \<and> distinct as' \<and> set as' \<subseteq> dom L'"

lemma adds_le: "adds L as L' as' \<Longrightarrow> L \<subseteq>\<^sub>m L'"
  by (auto simp: adds_def pops_def map_le_def restrict_map_def split: if_splits)

lemma adds_put: "adds L as L' as' \<Longrightarrow> L' a = None \<Longrightarrow> adds L as (L'(a \<mapsto> n)) (a # as')"
proof -
  assume a: "adds L as L' as'" "L' a = None"
  obtain P where P: "P \<subseteq> set as'" "L = L' |` (- P)" "as = filter (\<lambda>a. a \<notin> P) as'" using a(1) by (auto simp: adds_def pops_def)
  have n: "a \<notin> set as'" using a by (auto simp: adds_def)
  then have "filter (\<lambda>x. x \<notin> insert a P) as' = as" using P(3) by (auto intro: filter_cong)
  moreover have "L = (L'(a \<mapsto> n)) |` (- insert a P)" using P(2) a(2) by (auto simp: restrict_map_def fun_eq_iff)
  ultimately have "pops (L'(a \<mapsto> n)) (a # as') L as" unfolding pops_def using P(1) by (intro exI[of _ "insert a P"]) auto
  then show ?thesis using a(1) n by (auto simp: adds_def)
qed

lemma adds_seq:
  assumes "adds L as1 L1 as1'" "adds L1 as2 L2 as2'" "distinct (as1 @ as2)" "set as2 \<subseteq> dom L"
  shows "adds L (as1 @ as2) L2 (as1' @ as2')"
proof -
  obtain P where P: "P \<subseteq> set as1'" "L = L1 |` (- P)" "as1 = filter (\<lambda>a. a \<notin> P) as1'" using assms(1) by (auto simp: adds_def pops_def)
  obtain Q where Q: "Q \<subseteq> set as2'" "L1 = L2 |` (- Q)" "as2 = filter (\<lambda>a. a \<notin> Q) as2'" using assms(2) by (auto simp: adds_def pops_def)
  have dom1: "set as1' \<subseteq> dom L1" using assms(1) by (simp add: adds_def)
  have PL: "P \<inter> dom L = {}" using P(2) by auto
  have QL: "Q \<inter> dom L1 = {}" using Q(2) by auto
  have f1: "filter (\<lambda>a. a \<notin> P \<union> Q) as1' = as1" unfolding P(3) using dom1 QL by (intro filter_cong) auto
  have "a \<notin> P" if "a \<in> set as2'" for a
  proof (cases "a \<in> Q")
    case True
    then show ?thesis using QL P(1) dom1 by blast
  next
    case False
    then have "a \<in> set as2" using that Q(3) by simp
    then show ?thesis using PL assms(4) by auto
  qed
  then have f2: "filter (\<lambda>a. a \<notin> P \<union> Q) as2' = as2" unfolding Q(3) by (intro filter_cong) auto
  have L: "L = L2 |` (- (P \<union> Q))" using P(2) Q(2) by (simp add: Int_commute)
  have p: "pops L2 (as1' @ as2') L (as1 @ as2)"
    unfolding pops_def using P(1) Q(1) f1 f2 L by (intro exI[of _ "P \<union> Q"]) auto
  have "set as1' \<inter> set as2' = {}"
  proof -
    have "x \<notin> set as2'" if x: "x \<in> set as1'" for x
    proof
      assume x2: "x \<in> set as2'"
      have "x \<notin> Q" using x dom1 QL by auto
      then have x3: "x \<in> set as2" using x2 Q(3) by simp
      then have "x \<notin> P" using PL assms(4) by auto
      then have "x \<in> set as1" using x P(3) by simp
      then show False using x3 assms(3) by auto
    qed
    then show ?thesis by auto
  qed
  moreover have "dom L1 \<subseteq> dom L2" using adds_le[OF assms(2)] by (rule map_le_implies_dom_le)
  ultimately show ?thesis using p assms(1,2) unfolding adds_def by (simp add: subset_trans[OF _ \<open>dom L1 \<subseteq> dom L2\<close>])
qed

section \<open>The effect of a flush\<close>

definition clean :: "('a, 'k, 'v) IntElem list \<Rightarrow> bool" where
  "clean es \<longleftrightarrow> (\<forall>e \<in> set es. ptr_is_addr (ie_ptr e))"

text \<open>The nodes that are written: their children are on disk.\<close>

fun node_clean :: "('a, 'k, 'v) NodeData \<Rightarrow> bool" where
  "node_clean (LeafNode _) = True"
| "node_clean (IntNode es) = clean es"

context tree_store
begin

text \<open>What the flush of a node achieves: the node is stored at a new address, with the same items.\<close>

definition flush_ok :: "Limits \<Rightarrow> nat \<Rightarrow> 'k \<Rightarrow> 'k option \<Rightarrow> ('a, 'k, 'v) NodeData \<Rightarrow> ('a, 'k, 'v) store \<Rightarrow> (('a \<times> txg_range) result \<times> 'd) option \<Rightarrow> bool" where
  "flush_ok lim h lo hi n L res \<longleftrightarrow> (\<exists>r d' L'. res = Some (r, d') \<and> rep d' L' \<and> L \<subseteq>\<^sub>m L' \<and>
     (\<forall>a t. r = Inr (a, t) \<longrightarrow> (\<exists>n'. L' a = Some n' \<and> node_wf L' lim h lo hi n' \<and> node_len n' = node_len n \<and>
        node_items L' h n' = node_items L h n \<and>
        adds L (node_addrs L h n) L' (a # node_addrs L' h n'))))"

definition flush_es_ok :: "Limits \<Rightarrow> nat \<Rightarrow> 'k option \<Rightarrow> ('a, 'k, 'v) IntElem list \<Rightarrow> ('a, 'k, 'v) store \<Rightarrow> (('a, 'k, 'v) IntElem list result \<times> 'd) option \<Rightarrow> bool" where
  "flush_es_ok lim h hi es L res \<longleftrightarrow> (\<exists>r d' L'. res = Some (r, d') \<and> rep d' L' \<and> L \<subseteq>\<^sub>m L' \<and>
     (\<forall>es'. r = Inr es' \<longrightarrow> elems_wf L' (child_wf L' lim h) es' hi \<and> map ie_key es' = map ie_key es \<and> clean es' \<and>
        elems_items L' h es' = elems_items L h es \<and>
        adds L (elems_addrs L h es) L' (elems_addrs L' h es')))"

lemma flush_ok_error: "rep d' L' \<Longrightarrow> L \<subseteq>\<^sub>m L' \<Longrightarrow> flush_ok lim h lo hi n L (Some (Inl e, d'))"
  unfolding flush_ok_def by blast

lemma flush_okI:
  assumes "rep d' L'" "L \<subseteq>\<^sub>m L'" "L' a = Some n'" "node_wf L' lim h lo hi n'" "node_len n' = node_len n"
    "node_items L' h n' = node_items L h n" "adds L (node_addrs L h n) L' (a # node_addrs L' h n')"
  shows "flush_ok lim h lo hi n L (Some (Inr (a, t), d'))"
  unfolding flush_ok_def using assms by blast

lemma flush_es_error: "rep d' L' \<Longrightarrow> L \<subseteq>\<^sub>m L' \<Longrightarrow> flush_es_ok lim h hi es L (Some (Inl e, d'))"
  unfolding flush_es_ok_def by blast

lemma flush_esI:
  assumes "rep d' L'" "L \<subseteq>\<^sub>m L'" "elems_wf L' (child_wf L' lim h) es' hi" "map ie_key es' = map ie_key es" "clean es'"
    "elems_items L' h es' = elems_items L h es" "adds L (elems_addrs L h es) L' (elems_addrs L' h es')"
  shows "flush_es_ok lim h hi es L (Some (Inr es', d'))"
  unfolding flush_es_ok_def using assms by blast

lemma adds_refl: "distinct as \<Longrightarrow> set as \<subseteq> dom L \<Longrightarrow> adds L as L as"
  by (simp add: adds_def)

lemma flush_leaf:
  assumes "rep d L" "node_wf L lim h lo hi (LeafNode xs)" "fits (LeafNode xs)"
  shows "flush_ok lim h lo hi (LeafNode xs) L (flush_r dml False vflush ic lc (LeafNode xs) txg d)"
proof -
  from put_law[OF assms(1,3), of lc txg] obtain r d' L' where p: "dml_put dml d (LeafNode xs) lc txg = Some (r, d')" "rep d' L'"
      "case r of Inr a \<Rightarrow> L a = None \<and> L' = L(a \<mapsto> LeafNode xs) | Inl _ \<Rightarrow> L' = L" by blast
  have h: "h = 0" using assms(2) by simp
  have f: "flush_r dml False vflush ic lc (LeafNode xs) txg d = Some (case r of Inl e \<Rightarrow> Inl e | Inr addr \<Rightarrow> Inr (addr, txgs_of txg), d')"
    using p(1) by (simp add: write_leaf_def leaf_flush_def)
  show ?thesis
  proof (cases r)
    case (Inl e)
    then show ?thesis using f p flush_ok_error[of d' L'] by simp
  next
    case (Inr a)
    then have a: "L a = None" "L' = L(a \<mapsto> LeafNode xs)" using p(3) by simp_all
    have "adds L [] L' [a]" using adds_put[OF adds_refl[of "[]" L] a(1)] a(2) by simp
    moreover have "L \<subseteq>\<^sub>m L'" using adds_le[OF calculation] .
    ultimately show ?thesis using f p(2) Inr a(2) assms(2) h flush_okI[of d' L'] by simp
  qed
qed

lemma flush_int:
  assumes "node_wf L lim h lo hi (IntNode es)" "h = Suc g" "flush_es_ok lim g hi es L (flush_children dml False vflush ic lc es txg d)"
    "\<And>es'. length es' = length es \<Longrightarrow> clean es' \<Longrightarrow> fits (IntNode es')"
  shows "flush_ok lim h lo hi (IntNode es) L (flush_r dml False vflush ic lc (IntNode es) txg d)"
proof -
  obtain r1 d1 L1 where c: "flush_children dml False vflush ic lc es txg d = Some (r1, d1)" "rep d1 L1" "L \<subseteq>\<^sub>m L1"
      "\<forall>es'. r1 = Inr es' \<longrightarrow> elems_wf L1 (child_wf L1 lim g) es' hi \<and> map ie_key es' = map ie_key es \<and> clean es' \<and>
        elems_items L1 g es' = elems_items L g es \<and>
        adds L (elems_addrs L g es) L1 (elems_addrs L1 g es')"
    using assms(3) unfolding flush_es_ok_def by blast
  show ?thesis
  proof (cases r1)
    case (Inl e)
    then show ?thesis using c flush_ok_error[of d1 L1] by simp
  next
    case (Inr es')
    then have es': "elems_wf L1 (child_wf L1 lim g) es' hi" "map ie_key es' = map ie_key es"
        "elems_items L1 g es' = elems_items L g es"
        "adds L (elems_addrs L g es) L1 (elems_addrs L1 g es')" "clean es'"
      using c(4) by simp_all
    have ne: "es \<noteq> []" "lo \<le> ie_key (hd es)" using assms(1,2) by simp_all
    then have ne': "es' \<noteq> []" "length es' = length es" "ie_key (hd es') = ie_key (hd es)"
      using es'(2) by (cases es'; cases es; auto dest: map_eq_imp_length_eq)+
    obtain s where s: "int_start_txg es' = Some s" using ne'(1) by (simp add: int_start_txg_def)
    from put_law[OF c(2) assms(4)[OF ne'(2) es'(5)], of ic txg] obtain r d' L' where p: "dml_put dml d1 (IntNode es') ic txg = Some (r, d')" "rep d' L'"
        "case r of Inr a \<Rightarrow> L1 a = None \<and> L' = L1(a \<mapsto> IntNode es') | Inl _ \<Rightarrow> L' = L1" by blast
    have f: "flush_r dml False vflush ic lc (IntNode es) txg d =
        Some (case r of Inl e \<Rightarrow> Inl e | Inr addr \<Rightarrow> Inr (addr, \<lparr>txg_start = s, txg_end = txg_add txg 1\<rparr>), d')"
      using c(1) Inr s p(1) by simp
    show ?thesis
    proof (cases r)
      case (Inl e)
      then show ?thesis using f p c(3) flush_ok_error[of d' L'] by simp
    next
      case (Inr a)
      then have a: "L1 a = None" "L' = L1(a \<mapsto> IntNode es')" using p(3) by simp_all
      have le: "L1 \<subseteq>\<^sub>m L'" using a by (auto simp: map_le_def)
      note ext = elems_extend[OF es'(1) le es'(1)]
      have "adds L (elems_addrs L g es) L' (a # elems_addrs L' g es')"
        using adds_put[OF es'(4) a(1), of "IntNode es'", folded a(2)] ext by simp
      moreover have "L \<subseteq>\<^sub>m L'" using map_le_trans[OF c(3) le] .
      moreover have "L' a = Some (IntNode es')" using a(2) by simp
      ultimately show ?thesis
        using f p(2) Inr assms(2) ext ne ne' es'(3) flush_okI[of d' L'] by simp
    qed
  qed
qed

text \<open>The children one after the other.\<close>

lemma flush_children_ok:
  assumes "rep d L" "es_ok L lim h es hi"
    and child: "\<And>e n d L lo hi. e \<in> set es \<Longrightarrow> ie_ptr e = PMem n \<Longrightarrow> rep d L \<Longrightarrow> node_wf L lim h lo hi n \<Longrightarrow>
        distinct (node_addrs L h n) \<Longrightarrow> node_len n \<le> node_max_fanout lim n \<Longrightarrow> flush_ok lim h lo hi n L (flush_r dml False vflush ic lc n txg d)"
  shows "flush_es_ok lim h hi es L (flush_children dml False vflush ic lc es txg d)"
  using assms
proof (induction es arbitrary: d L)
  case Nil
  then show ?case using flush_esI[of d L L] by (simp add: clean_def adds_refl)
next
  case (Cons e es)
  obtain key txgs ptr where e: "e = IntElem key txgs ptr" by (cases e)
  have wf: "elem_wf L (child_wf L lim h) (next_key es hi) e" "elems_wf L (child_wf L lim h) es hi"
      "distinct (elem_addrs L h e @ elems_addrs L h es)"
    using Cons.prems(2) by (simp_all add: es_ok_def)
  have "\<exists>r d1 L1. flush_elem dml False vflush ic lc key txgs ptr txg d = Some (r, d1) \<and> rep d1 L1 \<and> L \<subseteq>\<^sub>m L1 \<and>
      (\<forall>e'. r = Inr e' \<longrightarrow> elem_wf L1 (child_wf L1 lim h) (next_key es hi) e' \<and> ie_key e' = key \<and> ptr_is_addr (ie_ptr e') \<and>
        elem_items L1 h e' = elem_items L h e \<and> adds L (elem_addrs L h e) L1 (elem_addrs L1 h e'))"
  proof (cases ptr)
    case (PMem n)
    then have n: "node_wf L lim h key (next_key es hi) n" "fanout_ok lim n" "below key (next_key es hi)" "distinct (node_addrs L h n)"
      using wf e by (auto simp: elem_wf_def)
    obtain r d1 L1 where f: "flush_r dml False vflush ic lc n txg d = Some (r, d1)" "rep d1 L1" "L \<subseteq>\<^sub>m L1"
        "\<forall>a t. r = Inr (a, t) \<longrightarrow> (\<exists>n'. L1 a = Some n' \<and> node_wf L1 lim h key (next_key es hi) n' \<and> node_len n' = node_len n \<and>
          node_items L1 h n' = node_items L h n \<and>
          adds L (node_addrs L h n) L1 (a # node_addrs L1 h n'))"
      using Cons.prems(3)[OF _ _ Cons.prems(1) n(1,4), of e] n(2) e PMem unfolding flush_ok_def fanout_ok_def by auto
    show ?thesis
    proof (cases r)
      case (Inl err)
      then show ?thesis using f(1-3) PMem by auto
    next
      case (Inr at)
      obtain a t where at: "at = (a, t)" by force
      obtain n' where n': "L1 a = Some n'" "node_wf L1 lim h key (next_key es hi) n'" "node_len n' = node_len n"
          "node_items L1 h n' = node_items L h n" "adds L (node_addrs L h n) L1 (a # node_addrs L1 h n')"
        using f(4) Inr at by blast
      have "is_leaf n' = is_leaf n" using node_wf_is_leaf[OF n'(2)] node_wf_is_leaf[OF n(1)] by simp
      then have "fanout_ok lim n'" using n(2) n'(3) same_fanout[of n' n lim] by (simp add: fanout_ok_def)
      then show ?thesis
        using f(1-3) Inr at n' n(3) PMem e elem_addr[of "IntElem key t (PAddr a)" a L1 n' h] by (simp add: elem_wf_def) (rule exI[of _ L1], simp)
    qed
  next
    case (PAddr a)
    have "set (elem_addrs L h e) \<subseteq> dom L"
      using elems_addrs_dom[of L lim h "[e]" "next_key es hi"] wf(1) by simp
    then show ?thesis using PAddr Cons.prems(1) wf e by (simp add: adds_refl) (rule exI[of _ L], simp add: adds_refl)
  qed (use wf(1) e in \<open>simp add: elem_wf_def\<close>)
  then obtain r d1 L1 where f: "flush_elem dml False vflush ic lc key txgs ptr txg d = Some (r, d1)" "rep d1 L1" "L \<subseteq>\<^sub>m L1"
      "\<forall>e'. r = Inr e' \<longrightarrow> elem_wf L1 (child_wf L1 lim h) (next_key es hi) e' \<and> ie_key e' = key \<and> ptr_is_addr (ie_ptr e') \<and>
        elem_items L1 h e' = elem_items L h e \<and> adds L (elem_addrs L h e) L1 (elem_addrs L1 h e')"
    by blast
  show ?case
  proof (cases r)
    case (Inl err)
    then show ?thesis using f e flush_es_error[of d1 L1] by simp
  next
    case (Inr e')
    then have e': "elem_wf L1 (child_wf L1 lim h) (next_key es hi) e'" "ie_key e' = key" "ptr_is_addr (ie_ptr e')"
        "elem_items L1 h e' = elem_items L h e" "adds L (elem_addrs L h e) L1 (elem_addrs L1 h e')"
      using f(4) by simp_all
    note ext = elems_extend[OF wf(2) f(3) wf(2)]
    have "es_ok L1 lim h es hi" using ext wf(3) by (simp add: es_ok_def)
    then have fe: "flush_es_ok lim h hi es L1 (flush_children dml False vflush ic lc es txg d1)"
      by (rule Cons.IH[OF f(2)]) (rule Cons.prems(3), simp_all)
    obtain r2 d2 L2 where g: "flush_children dml False vflush ic lc es txg d1 = Some (r2, d2)" "rep d2 L2" "L1 \<subseteq>\<^sub>m L2"
        "\<forall>es'. r2 = Inr es' \<longrightarrow> elems_wf L2 (child_wf L2 lim h) es' hi \<and> map ie_key es' = map ie_key es \<and> clean es' \<and>
          elems_items L2 h es' = elems_items L1 h es \<and>
          adds L1 (elems_addrs L1 h es) L2 (elems_addrs L2 h es')"
      using fe unfolding flush_es_ok_def by blast
    have le: "L \<subseteq>\<^sub>m L2" using map_le_trans[OF f(3) g(3)] .
    show ?thesis
    proof (cases r2)
      case (Inl err)
      then show ?thesis using f(1) Inr g(1,2) le e flush_es_error[of d2 L2] by simp
    next
      case (Inr es')
      then have es': "elems_wf L2 (child_wf L2 lim h) es' hi" "map ie_key es' = map ie_key es" "clean es'"
          "elems_items L2 h es' = elems_items L1 h es"
          "adds L1 (elems_addrs L1 h es) L2 (elems_addrs L2 h es')"
        using g(4) by simp_all
      have "elems_wf L1 (child_wf L1 lim h) [e'] (next_key es hi)" using e'(1) by simp
      note ext1 = elems_extend[OF this g(3) this, simplified]
      have nk: "next_key es' hi = next_key es hi" using es'(2) by (cases es; cases es') auto
      have "adds L (elem_addrs L h e @ elems_addrs L h es) L2 (elem_addrs L2 h e' @ elems_addrs L2 h es')"
        using adds_seq[OF e'(5), of "elems_addrs L h es" L2 "elems_addrs L2 h es'"] es'(5) ext ext1 wf(3)
          elems_addrs_dom[OF wf(2)] by simp
      then show ?thesis
        using f(1) \<open>r = Inr e'\<close> g(1,2) Inr le e e' es' ext ext1 nk flush_esI[of d2 L2 L lim h "e' # es'" hi "e # es"] by (simp add: clean_def)
    qed
  qed
qed

lemma flush_node:
  assumes fit: "\<And>n. node_clean n \<Longrightarrow> node_len n \<le> node_max_fanout lim n \<Longrightarrow> fits n"
  shows "rep d L \<Longrightarrow> node_wf L lim h lo hi n \<Longrightarrow> distinct (node_addrs L h n) \<Longrightarrow> node_len n \<le> node_max_fanout lim n \<Longrightarrow>
   flush_ok lim h lo hi n L (flush_r dml False vflush ic lc n txg d)"
proof (induction h arbitrary: n lo hi d L)
  case 0
  then obtain xs where "n = LeafNode xs" by (cases n) auto
  then show ?case using 0 flush_leaf fit by simp
next
  case (Suc h)
  then obtain es where es: "n = IntNode es" "elems_wf L (child_wf L lim h) es hi" by (cases n) auto
  have "es_ok L lim h es hi" using es Suc.prems(3) by (simp add: es_ok_def)
  then have "flush_es_ok lim h hi es L (flush_children dml False vflush ic lc es txg d)"
    by (rule flush_children_ok[OF Suc.prems(1)]) (rule Suc.IH)
  moreover have "fits (IntNode es')" if "length es' = length es" "clean es'" for es'
    using fit[of "IntNode es'"] Suc.prems(4) es(1) that by (simp add: node_max_fanout_def)
  ultimately show ?case using flush_int[OF _ refl] Suc.prems(2) es(1) by simp
qed

theorem flush_tree:
  assumes "rep d L" "tree_wf L t" and fit: "\<And>n. node_clean n \<Longrightarrow> node_len n \<le> node_max_fanout (tr_limits t) n \<Longrightarrow> fits n"
  obtains r t' d' L' where "tree_flush dml False vflush t txg d = Some (r, t', d')" "rep d' L'" "L \<subseteq>\<^sub>m L'"
    "r = Inr () \<Longrightarrow> tree_wf L' t' \<and> \<not> tree_is_dirty t' \<and> tree_items L' t' = tree_items L t \<and>
       adds L (tree_addrs L t) L' (tree_addrs L' t') \<and> tr_height t' = tr_height t \<and> tr_limits t' = tr_limits t"
    "r \<noteq> Inr () \<Longrightarrow> ie_ptr (tr_root t') = PNone"
proof (cases "ie_ptr (tr_root t)")
  case (PMem n)
  let ?h = "tr_height t - 1" and ?root = "set_end (txg_add txg (Suc 0)) (tr_root t)"
  note m = tree_wf_mem[OF PMem, of L]
  have wf: "node_wf L (tr_limits t) ?h bot None n" "distinct (node_addrs L ?h n)" "node_len n \<le> node_max_fanout (tr_limits t) n"
    using m(1) assms(2) by simp_all
  let ?ic = "tr_int_compressor t" and ?lc = "tr_leaf_compressor t"
  obtain r d' L' where f: "flush_r dml False vflush ?ic ?lc n txg d = Some (r, d')" "rep d' L'" "L \<subseteq>\<^sub>m L'"
      "\<forall>a t1. r = Inr (a, t1) \<longrightarrow> (\<exists>n'. L' a = Some n' \<and> node_wf L' (tr_limits t) ?h bot None n' \<and> node_len n' = node_len n \<and>
        node_items L' ?h n' = node_items L ?h n \<and>
        adds L (node_addrs L ?h n) L' (a # node_addrs L' ?h n'))"
    using flush_node[OF fit assms(1) wf, of vflush ?ic ?lc txg] unfolding flush_ok_def by blast
  have fl: "tree_flush dml False vflush t txg d = Some (case r of
        Inl e \<Rightarrow> (Inl e, t\<lparr>tr_root := set_ptr PNone ?root\<rparr>, d')
      | Inr (addr, txgs) \<Rightarrow> (Inr (), t\<lparr>tr_root := set_txgs txgs (set_ptr (PAddr addr) (set_ptr PNone ?root))\<rparr>, d'))"
    using PMem f(1) by (simp add: tree_flush_def xlock_root_def Let_def)
  show ?thesis
  proof (cases r)
    case (Inl e)
    then show ?thesis using that[of "Inl e" "t\<lparr>tr_root := set_ptr PNone ?root\<rparr>" d' L'] fl f by simp
  next
    case (Inr at)
    obtain a t1 where at: "at = (a, t1)" by force
    obtain n' where n': "L' a = Some n'" "node_wf L' (tr_limits t) ?h bot None n'" "node_len n' = node_len n"
        "node_items L' ?h n' = node_items L ?h n"
        "adds L (node_addrs L ?h n) L' (a # node_addrs L' ?h n')"
      using f(4) Inr at by blast
    let ?e = "set_txgs t1 (set_ptr (PAddr a) (set_ptr PNone ?root))"
    have ea: "elem_items L' ?h ?e = node_items L' ?h n'" "elem_addrs L' ?h ?e = a # node_addrs L' ?h n'"
      using elem_addr[of ?e a L' n' ?h] n'(1) by simp_all
    have "is_leaf n' = is_leaf n" using node_wf_is_leaf[OF n'(2)] node_wf_is_leaf[OF wf(1)] by simp
    then have "node_len n' \<le> node_max_fanout (tr_limits t) n'" using wf(3) n'(3) same_fanout[of n' n "tr_limits t"] by simp
    moreover have "distinct (a # node_addrs L' ?h n')" using n'(5) by (simp add: adds_def)
    ultimately have "tree_wf L' (t\<lparr>tr_root := ?e\<rparr>)"
      using assms(2) n'(1,2) ea(2) by (simp add: tree_wf_def elem_wf_def)
    moreover have "\<not> tree_is_dirty (t\<lparr>tr_root := ?e\<rparr>)" by (simp add: tree_is_dirty_def elem_is_dirty_def)
    moreover have "tree_items L' (t\<lparr>tr_root := ?e\<rparr>) = tree_items L t"
        "tree_addrs L' (t\<lparr>tr_root := ?e\<rparr>) = a # node_addrs L' ?h n'"
      using m(2) ea n'(4) by (simp_all add: tree_items_def tree_addrs_def)
    ultimately show ?thesis using that[of "Inr ()" "t\<lparr>tr_root := ?e\<rparr>" d' L'] fl f(2,3) Inr at n'(5) m(3) by simp
  qed
next
  case (PAddr a)
  have "set (tree_addrs L t) \<subseteq> dom L"
    using assms(2) node_addrs_dom PAddr by (fastforce simp: tree_wf_def elem_wf_def tree_addrs_def elem_addrs_def elem_map_def)
  then have "adds L (tree_addrs L t) L (tree_addrs L t)"
    using assms(2) by (intro adds_refl) (simp_all add: tree_wf_def tree_addrs_def)
  then show ?thesis
    using that[of "Inr ()" t d L] assms PAddr by (simp add: tree_flush_def tree_is_dirty_def elem_is_dirty_def)
qed (use assms(2) in \<open>simp add: tree_wf_def elem_wf_def\<close>)

text \<open>A clean tree can be written down, and opening it gives the same tree.\<close>

lemma reopen_tree:
  assumes "tree_wf L t" "\<not> tree_is_dirty t"
  obtains tod where "tree_serialize t = Some tod" "tree_wf L (tree_open is ls seq tod)" "tree_items L (tree_open is ls seq tod) = tree_items L t"
    "tree_addrs L (tree_open is ls seq tod) = tree_addrs L t"
proof -
  obtain a where a: "ie_ptr (tr_root t) = PAddr a"
    using assms by (cases "ie_ptr (tr_root t)") (auto simp: tree_wf_def elem_wf_def tree_is_dirty_def elem_is_dirty_def)
  let ?tod = "\<lparr>tod_height = tr_height t, tod_limits = tr_limits t, tod_root = a, tod_txgs = ie_txgs (tr_root t)\<rparr>"
  let ?e = "IntElem bot (ie_txgs (tr_root t)) (PAddr a)"
  have s: "tree_serialize t = Some ?tod" using a by (simp add: tree_serialize_def)
  have e: "elem_items L h ?e = elem_items L h (tr_root t)" "elem_addrs L h ?e = elem_addrs L h (tr_root t)" for h
    using elem_same_ptr[of ?e "tr_root t" L h] a by simp_all
  show ?thesis
    by (rule that[OF s]) (use assms(1) a e in \<open>simp_all add: tree_open_def inner_new_def tree_wf_def elem_wf_def tree_items_def tree_addrs_def\<close>)
qed

end

end
