(* ===== verification/Idml.thy ===== *)
theory Idml
  imports Ddml Btree_Flush
begin

text \<open>
  \<open>bfffs/src/common/idml\<close>: the indirect data management layer, which gives every record an identifier that stays the same when the
  record moves. Two trees on the direct data management layer map identifiers to records (the RIDT) and block addresses back to
  identifiers (the allocation table).

  The cache of the indirect layer is that of the direct layer, as the callers of \<open>IDML::create\<close> and \<open>IDML::open\<close> have it. A record of the direct layer is a
  node of one of the trees, a record of the user, or plain bytes. The futures that the source joins run one after the other, and the first error is
  the error of all. The operations of the trees get as much fuel as the height of the tree needs.
\<close>

section \<open>Records and trees\<close>

record RidtEntry =
  re_drp :: DRP
  re_refcount :: nat

definition ridt_entry_new :: "DRP \<Rightarrow> RidtEntry" where
  "ridt_entry_new drp = \<lparr>re_drp = drp, re_refcount = 1\<rparr>"

instantiation PBA :: order_bot
begin

definition bot_PBA :: PBA where
  "bot_PBA = PBA 0 0"

instance
  by standard (auto simp: bot_PBA_def less_eq_PBA_def)

end

type_synonym RidtNode = "(DRP, RID, RidtEntry) NodeData"
type_synonym AlloctNode = "(DRP, PBA, RID) NodeData"

datatype 'u IRecord = RNode RidtNode | ANode AlloctNode | URec 'u | RawRec IoVec

text \<open>\<open>downcast\<close> to the type that the caller expects.\<close>

fun as_rnode :: "'u IRecord \<Rightarrow> RidtNode option" where
  "as_rnode (RNode n) = Some n"
| "as_rnode _ = None"

fun as_anode :: "'u IRecord \<Rightarrow> AlloctNode option" where
  "as_anode (ANode n) = Some n"
| "as_anode _ = None"

fun as_user :: "'u IRecord \<Rightarrow> 'u option" where
  "as_user (URec u) = Some u"
| "as_user _ = None"

fun as_raw :: "'u IRecord \<Rightarrow> IoVec option" where
  "as_raw (RawRec bs) = Some bs"
| "as_raw _ = None"

text \<open>A data management layer as the client of one type of records sees it.\<close>

definition view_result :: "('n \<Rightarrow> 'm option) \<Rightarrow> ('n result \<times> 'd) option \<Rightarrow> ('m result \<times> 'd) option" where
  "view_result prj x = do {
     (r, d) \<leftarrow> x;
     case r of Inl e \<Rightarrow> Some (Inl e, d) | Inr n \<Rightarrow> do { m \<leftarrow> prj n; Some (Inr m, d) }
   }"

definition view_dml :: "('n \<Rightarrow> 'm option) \<Rightarrow> ('m \<Rightarrow> 'n) \<Rightarrow> ('d, 'a, 'n) Dml \<Rightarrow> ('d, 'a, 'm) Dml" where
  "view_dml prj wrap dml =
     \<lparr>dml_delete = dml_delete dml,
      dml_get = \<lambda>d a. view_result prj (dml_get dml d a),
      dml_pop = \<lambda>d a txg. view_result prj (dml_pop dml d a txg),
      dml_put = \<lambda>d m c txg. dml_put dml d (wrap m) c txg\<rparr>"

record ('u, 'h) IdmlEnv =
  ie_env :: "('u IRecord, 'h) DdmlEnv"
  ie_rdeser :: "IoVec \<Rightarrow> RidtNode option"
  ie_adeser :: "IoVec \<Rightarrow> AlloctNode option"
  ie_udeser :: "IoVec \<Rightarrow> 'u option"

record 'u IDML =
  id_ddml :: "'u IRecord DDML"
  id_next_rid :: nat
  id_transaction :: TxgT
  id_alloct :: "(DRP, PBA, RID) Tree"
  id_ridt :: "(DRP, RID, RidtEntry) Tree"

definition ridt_dml :: "('u, 'h) IdmlEnv \<Rightarrow> ('u IRecord DDML, DRP, RidtNode) Dml" where
  "ridt_dml E = view_dml as_rnode RNode (ddml_dml (\<lambda>bs. map_option RNode (ie_rdeser E bs)) (ie_env E))"

definition alloct_dml :: "('u, 'h) IdmlEnv \<Rightarrow> ('u IRecord DDML, DRP, AlloctNode) Dml" where
  "alloct_dml E = view_dml as_anode ANode (ddml_dml (\<lambda>bs. map_option ANode (ie_adeser E bs)) (ie_env E))"

definition tree_fuel :: "('a, 'k, 'v) Tree \<Rightarrow> nat" where
  "tree_fuel t = 2 * tr_height t"

text \<open>The operations of the trees, as the methods of \<open>IDML\<close> call them.\<close>

definition ridt_get :: "('u, 'h) IdmlEnv \<Rightarrow> 'u IDML \<Rightarrow> RID \<Rightarrow> (RidtEntry option result \<times> 'u IDML) option" where
  "ridt_get E i rid = do {
     (r, d) \<leftarrow> tree_get (ridt_dml E) (tree_fuel (id_ridt i)) (id_ridt i) rid (id_ddml i);
     Some (r, i\<lparr>id_ddml := d\<rparr>)
   }"

definition ridt_insert :: "('u, 'h) IdmlEnv \<Rightarrow> 'u IDML \<Rightarrow> RID \<Rightarrow> RidtEntry \<Rightarrow> TxgT \<Rightarrow> (RidtEntry option result \<times> 'u IDML) option" where
  "ridt_insert E i rid entry txg = do {
     (r, t, d) \<leftarrow> tree_insert (ridt_dml E) (tree_fuel (id_ridt i)) (id_ridt i) rid entry txg (id_ddml i);
     Some (r, i\<lparr>id_ddml := d, id_ridt := t\<rparr>)
   }"

definition ridt_remove :: "('u, 'h) IdmlEnv \<Rightarrow> 'u IDML \<Rightarrow> RID \<Rightarrow> TxgT \<Rightarrow> (RidtEntry option result \<times> 'u IDML) option" where
  "ridt_remove E i rid txg = do {
     (r, t, d) \<leftarrow> tree_remove (ridt_dml E) (tree_fuel (id_ridt i)) (id_ridt i) rid txg (id_ddml i);
     Some (r, i\<lparr>id_ddml := d, id_ridt := t\<rparr>)
   }"

definition alloct_insert :: "('u, 'h) IdmlEnv \<Rightarrow> 'u IDML \<Rightarrow> PBA \<Rightarrow> RID \<Rightarrow> TxgT \<Rightarrow> (RID option result \<times> 'u IDML) option" where
  "alloct_insert E i pba rid txg = do {
     (r, t, d) \<leftarrow> tree_insert (alloct_dml E) (tree_fuel (id_alloct i)) (id_alloct i) pba rid txg (id_ddml i);
     Some (r, i\<lparr>id_ddml := d, id_alloct := t\<rparr>)
   }"

definition alloct_remove :: "('u, 'h) IdmlEnv \<Rightarrow> 'u IDML \<Rightarrow> PBA \<Rightarrow> TxgT \<Rightarrow> (RID option result \<times> 'u IDML) option" where
  "alloct_remove E i pba txg = do {
     (r, t, d) \<leftarrow> tree_remove (alloct_dml E) (tree_fuel (id_alloct i)) (id_alloct i) pba txg (id_ddml i);
     Some (r, i\<lparr>id_ddml := d, id_alloct := t\<rparr>)
   }"

section \<open>The cache and the direct layer\<close>

definition rid_cache_remove :: "('u, 'h) IdmlEnv \<Rightarrow> 'u IDML \<Rightarrow> RID \<Rightarrow> ('u IRecord option \<times> 'u IDML) option" where
  "rid_cache_remove E i rid = do {
     (v, c) \<leftarrow> cache_remove (ev_len (ie_env E)) (Rid rid) (dd_cache (id_ddml i));
     Some (v, i\<lparr>id_ddml := (id_ddml i)\<lparr>dd_cache := c\<rparr>\<rparr>)
   }"

definition rid_cache_get :: "'u IDML \<Rightarrow> RID \<Rightarrow> ('u IRecord option \<times> 'u IDML) option" where
  "rid_cache_get i rid = do {
     (v, c) \<leftarrow> cache_get Some (Rid rid) (dd_cache (id_ddml i));
     Some (v, i\<lparr>id_ddml := (id_ddml i)\<lparr>dd_cache := c\<rparr>\<rparr>)
   }"

definition rid_cache_insert :: "('u, 'h) IdmlEnv \<Rightarrow> 'u IDML \<Rightarrow> RID \<Rightarrow> 'u IRecord \<Rightarrow> 'u IDML option" where
  "rid_cache_insert E i rid n = do {
     c \<leftarrow> cache_insert (ev_len (ie_env E)) (=) (Rid rid) n (dd_cache (id_ddml i));
     Some (i\<lparr>id_ddml := (id_ddml i)\<lparr>dd_cache := c\<rparr>\<rparr>)
   }"

definition on_ddml :: "('u IRecord DDML \<Rightarrow> ('x result \<times> 'u IRecord DDML) option) \<Rightarrow> 'u IDML \<Rightarrow> ('x result \<times> 'u IDML) option" where
  "on_ddml f i = do { (r, d) \<leftarrow> f (id_ddml i); Some (r, i\<lparr>id_ddml := d\<rparr>) }"

definition user_deser :: "('u, 'h) IdmlEnv \<Rightarrow> IoVec \<Rightarrow> 'u IRecord option" where
  "user_deser E bs = map_option URec (ie_udeser E bs)"

section \<open>The layer\<close>

definition unwrap_or_enoent :: "'x option result \<Rightarrow> 'x result" where
  "unwrap_or_enoent r = (case r of Inl e \<Rightarrow> Inl e | Inr None \<Rightarrow> Inl ENOENT | Inr (Some x) \<Rightarrow> Inr x)"

definition idml_delete :: "('u, 'h) IdmlEnv \<Rightarrow> 'u IDML \<Rightarrow> RID \<Rightarrow> TxgT \<Rightarrow> (unit result \<times> 'u IDML) option" where
  "idml_delete E i rid txg = do {
     (r, i) \<leftarrow> ridt_get E i rid;
     case unwrap_or_enoent r of
       Inl e \<Rightarrow> Some (Inl e, i)
     | Inr entry \<Rightarrow>
         let entry = entry\<lparr>re_refcount := wsub 64 (re_refcount entry) 1\<rparr> in
         if re_refcount entry = 0 then do {
           (_, i) \<leftarrow> rid_cache_remove E i rid;
           (r1, i) \<leftarrow> on_ddml (\<lambda>d. ddml_delete_direct (ie_env E) d (re_drp entry) txg) i;
           (r2, i) \<leftarrow> alloct_remove E i (drp_pba (re_drp entry)) txg;
           (r3, i) \<leftarrow> ridt_remove E i rid txg;
           case (r1, r2, r3) of
             (Inr _, Inr old_rid, Inr _) \<Rightarrow> do { assert_that (old_rid \<noteq> None); Some (Inr (), i) }
           | (Inl e, _, _) \<Rightarrow> Some (Inl e, i)
           | (_, Inl e, _) \<Rightarrow> Some (Inl e, i)
           | (_, _, Inl e) \<Rightarrow> Some (Inl e, i)
         } else do {
           (r, i) \<leftarrow> ridt_insert E i rid entry txg;
           Some (map_sum (\<lambda>e. e) (\<lambda>_. ()) r, i)
         }
   }"

definition idml_evict :: "('u, 'h) IdmlEnv \<Rightarrow> 'u IDML \<Rightarrow> RID \<Rightarrow> 'u IDML option" where
  "idml_evict E i rid = do { (_, i) \<leftarrow> rid_cache_remove E i rid; Some i }"

definition idml_get :: "('u, 'h) IdmlEnv \<Rightarrow> 'u IDML \<Rightarrow> RID \<Rightarrow> ('u result \<times> 'u IDML) option" where
  "idml_get E i rid = do {
     (hit, i) \<leftarrow> rid_cache_get i rid;
     case hit of
       Some n \<Rightarrow> do { t \<leftarrow> as_user n; Some (Inr t, i) }
     | None \<Rightarrow> do {
         (r, i) \<leftarrow> ridt_get E i rid;
         case unwrap_or_enoent r of
           Inl e \<Rightarrow> Some (Inl e, i)
         | Inr entry \<Rightarrow> do {
             (r, i) \<leftarrow> on_ddml (\<lambda>d. ddml_get_direct (user_deser E) (ie_env E) d (re_drp entry)) i;
             case r of
               Inl e \<Rightarrow> Some (Inl e, i)
             | Inr n \<Rightarrow> do {
                 i \<leftarrow> rid_cache_insert E i rid n;
                 t \<leftarrow> as_user n;
                 Some (Inr t, i)
               }
           }
       }
   }"

text \<open>The two ways to pop a record: with its last reference it is taken from the cache or from the disk, otherwise it is copied.\<close>

definition take_record :: "('u, 'h) IdmlEnv \<Rightarrow> 'u IDML \<Rightarrow> 'u IRecord option \<Rightarrow> DRP \<Rightarrow> TxgT \<Rightarrow> ('u result \<times> 'u IDML) option" where
  "take_record E i cacheval drp txg =
     (case cacheval of
        Some n \<Rightarrow> do {
          t \<leftarrow> as_user n;
          (r, i) \<leftarrow> on_ddml (\<lambda>d. ddml_delete (ie_env E) d drp txg) i;
          Some (map_sum (\<lambda>e. e) (\<lambda>_. t) r, i)
        }
      | None \<Rightarrow> view_result as_user (on_ddml (\<lambda>d. ddml_pop_direct (user_deser E) (ie_env E) d drp) i))"

definition copy_record :: "('u, 'h) IdmlEnv \<Rightarrow> 'u IDML \<Rightarrow> 'u IRecord option \<Rightarrow> DRP \<Rightarrow> ('u result \<times> 'u IDML) option" where
  "copy_record E i cacheval drp =
     (case cacheval of
        Some n \<Rightarrow> do { t \<leftarrow> as_user n; Some (Inr t, i) }
      | None \<Rightarrow> view_result as_user (on_ddml (\<lambda>d. ddml_get_direct (user_deser E) (ie_env E) d drp) i))"

definition idml_pop :: "('u, 'h) IdmlEnv \<Rightarrow> 'u IDML \<Rightarrow> RID \<Rightarrow> TxgT \<Rightarrow> ('u result \<times> 'u IDML) option" where
  "idml_pop E i rid txg = do {
     (r, i) \<leftarrow> ridt_get E i rid;
     case unwrap_or_enoent r of
       Inl e \<Rightarrow> Some (Inl e, i)
     | Inr entry \<Rightarrow>
         let entry = entry\<lparr>re_refcount := wsub 64 (re_refcount entry) 1\<rparr> in
         if re_refcount entry = 0 then do {
           (cacheval, i) \<leftarrow> rid_cache_remove E i rid;
           (r1, i) \<leftarrow> take_record E i cacheval (re_drp entry) txg;
           (r2, i) \<leftarrow> alloct_remove E i (drp_pba (re_drp entry)) txg;
           (r3, i) \<leftarrow> ridt_remove E i rid txg;
           case (r1, r2, r3) of
             (Inr t, Inr old_rid, Inr _) \<Rightarrow> do { assert_that (old_rid \<noteq> None); Some (Inr t, i) }
           | (Inl e, _, _) \<Rightarrow> Some (Inl e, i)
           | (_, Inl e, _) \<Rightarrow> Some (Inl e, i)
           | (_, _, Inl e) \<Rightarrow> Some (Inl e, i)
         } else do {
           (cacheval, i) \<leftarrow> rid_cache_get i rid;
           (r1, i) \<leftarrow> copy_record E i cacheval (re_drp entry);
           (r2, i) \<leftarrow> ridt_insert E i rid entry txg;
           case (r1, r2) of
             (Inr t, Inr _) \<Rightarrow> Some (Inr t, i)
           | (Inl e, _) \<Rightarrow> Some (Inl e, i)
           | (_, Inl e) \<Rightarrow> Some (Inl e, i)
         }
   }"

definition idml_put :: "('u, 'h) IdmlEnv \<Rightarrow> 'u IDML \<Rightarrow> 'u \<Rightarrow> Compression \<Rightarrow> TxgT \<Rightarrow> (RID result \<times> 'u IDML) option" where
  "idml_put E i cacheable compression txg = do {
     let rid = id_next_rid i;
     let i = i\<lparr>id_next_rid := u64 (rid + 1)\<rparr>;
     (r, i) \<leftarrow> on_ddml (\<lambda>d. ddml_put_direct (ie_env E) d (URec cacheable) compression txg) i;
     case r of
       Inl e \<Rightarrow> Some (Inl e, i)
     | Inr drp \<Rightarrow> do {
         (r1, i) \<leftarrow> ridt_insert E i rid (ridt_entry_new drp) txg;
         (r2, i) \<leftarrow> alloct_insert E i (drp_pba drp) rid txg;
         case (r1, r2) of
           (Inr old_rid_entry, Inr old_alloc_entry) \<Rightarrow> do {
             assert_that (old_rid_entry = None);
             assert_that (old_alloc_entry = None);
             i \<leftarrow> rid_cache_insert E i rid (URec cacheable);
             Some (Inr rid, i)
           }
         | (Inl e, _) \<Rightarrow> Some (Inl e, i)
         | (_, Inl e) \<Rightarrow> Some (Inl e, i)
       }
   }"

definition idml_dml :: "('u, 'h) IdmlEnv \<Rightarrow> ('u IDML, RID, 'u) Dml" where
  "idml_dml E = \<lparr>dml_delete = idml_delete E, dml_get = idml_get E, dml_pop = idml_pop E, dml_put = idml_put E\<rparr>"

section \<open>Moving records\<close>

text \<open>A record is rewritten as it is on the disk, or from the cache if it is not compressed; the new copy is written before the old one is freed.\<close>

definition rewrite_bytes :: "('u, 'h) IdmlEnv \<Rightarrow> 'u IDML \<Rightarrow> IoVec \<Rightarrow> DRP \<Rightarrow> TxgT \<Rightarrow> (DRP result \<times> 'u IDML) option" where
  "rewrite_bytes E i db old txg = do {
     (r, i) \<leftarrow> on_ddml (\<lambda>d. ddml_put_direct (ie_env E) d (RawRec db) CNone txg) i;
     case r of
       Inl e \<Rightarrow> Some (Inl e, i)
     | Inr drp \<Rightarrow> do {
         (r, i) \<leftarrow> on_ddml (\<lambda>d. ddml_delete_direct (ie_env E) d old txg) i;
         Some (map_sum (\<lambda>e. e) (\<lambda>_. drp) r, i)
       }
   }"

definition move_cache_miss :: "('u, 'h) IdmlEnv \<Rightarrow> 'u IDML \<Rightarrow> RidtEntry \<Rightarrow> TxgT \<Rightarrow> (DRP result \<times> 'u IDML) option" where
  "move_cache_miss E i entry txg = do {
     let drp_uc = drp_as_uncompressed (re_drp entry);
     (r, i) \<leftarrow> on_ddml (\<lambda>d. ddml_get_direct (\<lambda>bs. Some (RawRec bs)) (ie_env E) d drp_uc) i;
     case r of
       Inl e \<Rightarrow> Some (Inl e, i)
     | Inr dbs \<Rightarrow> do {
         db \<leftarrow> as_raw dbs;
         (r, i) \<leftarrow> rewrite_bytes E i db (re_drp entry) txg;
         Some (map_sum (\<lambda>e. e) (\<lambda>drp. drp_into_compressed drp (re_drp entry)) r, i)
       }
   }"

definition rewrite_record :: "('u, 'h) IdmlEnv \<Rightarrow> 'u IDML \<Rightarrow> RID \<Rightarrow> RidtEntry \<Rightarrow> TxgT \<Rightarrow> (DRP result \<times> 'u IDML) option" where
  "rewrite_record E i rid entry txg =
     (if \<not> drp_compressed (re_drp entry) then
        case cache_get_ref (\<lambda>n. n) (Rid rid) (dd_cache (id_ddml i)) of
          Some t \<Rightarrow> rewrite_bytes E i (ev_ser (ie_env E) t) (re_drp entry) txg
        | None \<Rightarrow> move_cache_miss E i entry txg
      else move_cache_miss E i entry txg)"

definition move_record :: "('u, 'h) IdmlEnv \<Rightarrow> 'u IDML \<Rightarrow> RID \<Rightarrow> TxgT \<Rightarrow> (DRP result \<times> 'u IDML) option" where
  "move_record E i rid txg = do {
     (r, i) \<leftarrow> ridt_get E i rid;
     case r of
       Inl e \<Rightarrow> Some (Inl e, i)
     | Inr v \<Rightarrow> do {
         entry \<leftarrow> v;
         (r, i) \<leftarrow> rewrite_record E i rid entry txg;
         case r of
           Inl e \<Rightarrow> Some (Inl e, i)
         | Inr drp \<Rightarrow> do {
             (r1, i) \<leftarrow> ridt_insert E i rid (entry\<lparr>re_drp := drp\<rparr>) txg;
             (r2, i) \<leftarrow> alloct_insert E i (drp_pba drp) rid txg;
             case (r1, r2) of
               (Inr _, Inr _) \<Rightarrow> Some (Inr drp, i)
             | (Inl e, _) \<Rightarrow> Some (Inl e, i)
             | (_, Inl e) \<Rightarrow> Some (Inl e, i)
           }
       }
   }"

section \<open>Creation, labels and transactions\<close>

record IdmlLabel =
  il_alloct :: "DRP TreeOnDisk"
  il_next_rid :: nat
  il_ridt :: "DRP TreeOnDisk"
  il_txg :: TxgT

text \<open>The sizes of the elements of the trees are arguments: the types give them.\<close>

definition idml_create ::
    "nat \<times> nat \<Rightarrow> nat \<times> nat \<Rightarrow> nat \<times> nat \<Rightarrow> nat \<times> nat \<Rightarrow> 'u IRecord DDML \<Rightarrow> 'u IDML option" where
  "idml_create asizes abytes rsizes rbytes ddml = do {
     alloct \<leftarrow> tree_create (fst asizes) (snd asizes) True (fst abytes) (snd abytes);
     ridt \<leftarrow> tree_create (fst rsizes) (snd rsizes) True (fst rbytes) (snd rbytes);
     Some \<lparr>id_ddml = ddml, id_next_rid = 0, id_transaction = 0, id_alloct = alloct, id_ridt = ridt\<rparr>
   }"

definition idml_open :: "nat \<times> nat \<Rightarrow> nat \<times> nat \<Rightarrow> 'u IRecord DDML \<Rightarrow> IdmlLabel \<Rightarrow> 'u IDML" where
  "idml_open asizes rsizes ddml l =
     \<lparr>id_ddml = ddml, id_next_rid = il_next_rid l, id_transaction = il_txg l,
      id_alloct = tree_open (fst asizes) (snd asizes) True (il_alloct l), id_ridt = tree_open (fst rsizes) (snd rsizes) True (il_ridt l)\<rparr>"

text \<open>The label that \<open>write_label\<close> writes.\<close>

definition idml_label :: "'u IDML \<Rightarrow> TxgT \<Rightarrow> IdmlLabel option" where
  "idml_label i txg = do {
     alloct \<leftarrow> tree_serialize (id_alloct i);
     ridt \<leftarrow> tree_serialize (id_ridt i);
     Some \<lparr>il_alloct = alloct, il_next_rid = id_next_rid i, il_ridt = ridt, il_txg = txg\<rparr>
   }"

definition idml_flush_trees :: "('u, 'h) IdmlEnv \<Rightarrow> 'u IDML \<Rightarrow> TxgT \<Rightarrow> (unit result \<times> 'u IDML) option" where
  "idml_flush_trees E i txg = do {
     (r1, t, d) \<leftarrow> tree_flush (alloct_dml E) False (\<lambda>v _ d. Some (Inr v, d)) (id_alloct i) txg (id_ddml i);
     let i = i\<lparr>id_alloct := t, id_ddml := d\<rparr>;
     (r2, t, d) \<leftarrow> tree_flush (ridt_dml E) False (\<lambda>v _ d. Some (Inr v, d)) (id_ridt i) txg (id_ddml i);
     let i = i\<lparr>id_ridt := t, id_ddml := d\<rparr>;
     Some (case r1 of Inl e \<Rightarrow> Inl e | Inr _ \<Rightarrow> r2, i)
   }"

definition idml_flush ::
    "(nat \<Rightarrow> ZoneOnDisk list \<Rightarrow> nat) \<Rightarrow> (SpacemapOnDisk \<Rightarrow> byte list) \<Rightarrow> (nat \<Rightarrow> ZoneT \<Rightarrow> LbaT) \<Rightarrow> ('u, 'h) IdmlEnv \<Rightarrow> 'u IDML \<Rightarrow> nat \<Rightarrow> TxgT \<Rightarrow>
       (unit result \<times> 'u IDML) option" where
  "idml_flush zhash enc gap E i idx txg = do {
     (r, i) \<leftarrow> idml_flush_trees E i txg;
     case r of
       Inl e \<Rightarrow> Some (Inl e, i)
     | Inr _ \<Rightarrow> on_ddml (\<lambda>d. ddml_flush zhash enc gap (ie_env E) d idx) i
   }"

definition idml_allocated :: "'u IDML \<Rightarrow> LbaT" where
  "idml_allocated i = ddml_allocated (id_ddml i)"

definition idml_size :: "'u IDML \<Rightarrow> LbaT" where
  "idml_size i = ddml_size (id_ddml i)"

definition idml_list_closed_zones :: "('u, 'h) IdmlEnv \<Rightarrow> 'u IDML \<Rightarrow> PoolClosedZone list option" where
  "idml_list_closed_zones E i = ddml_list_closed_zones (ie_env E) (id_ddml i)"

text \<open>\<open>f\<close> runs under the exclusive lock; the transaction advances only if it succeeds.\<close>

definition idml_advance_transaction :: "(TxgT \<Rightarrow> 'u IDML \<Rightarrow> (unit result \<times> 'u IDML) option) \<Rightarrow> 'u IDML \<Rightarrow> (unit result \<times> 'u IDML) option" where
  "idml_advance_transaction f i = do {
     let txg = id_transaction i;
     (r, i) \<leftarrow> f txg i;
     case r of
       Inl e \<Rightarrow> Some (Inl e, i)
     | Inr _ \<Rightarrow> Some (Inr (), i\<lparr>id_transaction := txg_add txg 1\<rparr>)
   }"

end
