(* ===== verification/Ddml_Correct.thy ===== *)
theory Ddml_Correct
  imports Ddml
begin

text \<open>
  The direct data management layer fulfils the contract of a data management layer: a record that was put is returned by every
  later \<open>get\<close> and \<open>pop\<close> that does not fail, from the cache or from the disk, until it is deleted.
\<close>

section \<open>What the layer holds\<close>

text \<open>
  The cache also holds records of the layer above, by their record identifiers: \<open>R\<close> says which records may be cached.
  The record \<open>n\<close> is stored at \<open>drp\<close>: the extent is allocated and holds bytes with the right checksum that decode to \<open>n\<close>.
\<close>

definition stored ::
    "('n, 'h) DdmlEnv \<Rightarrow> ('n \<Rightarrow> bool) \<Rightarrow> Pool \<Rightarrow> (nat \<Rightarrow> extent set) \<Rightarrow> DRP \<Rightarrow> 'n \<Rightarrow> bool" where
  "stored env fits p live drp n \<longleftrightarrow> fits n \<and> pba_cluster (drp_pba drp) < length (pl_clusters p) \<and>
     (\<exists>k bs. drp_asize drp = Some k \<and> (pba_lba (drp_pba drp), k) \<in> live (pba_cluster (drp_pba drp)) \<and>
        record_at p (drp_pba drp) k bs \<and> length bs = drp_csize drp \<and> 0 < drp_csize drp \<and> drp_csize drp < u32_max \<and> ddml_checksum env bs = drp_checksum drp \<and>
        decode (ev_unblosc env) (drp_compressed drp) bs = Some (ev_ser env n))"

definition pool_holds ::
    "('n, 'h) DdmlEnv \<Rightarrow> ('n \<Rightarrow> bool) \<Rightarrow> Pool \<Rightarrow> (nat \<Rightarrow> extent set) \<Rightarrow> (DRP \<rightharpoonup> 'n) \<Rightarrow> bool" where
  "pool_holds env fits p live L \<longleftrightarrow> pool_inv (ev_zl env) (ev_lz env) p live \<and> inj_on drp_pba (dom L) \<and>
     (\<forall>drp n. L drp = Some n \<longrightarrow> stored env fits p live drp n)"

definition cache_agrees :: "('n, 'h) DdmlEnv \<Rightarrow> ('n \<Rightarrow> bool) \<Rightarrow> (CacheKey \<Rightarrow> 'n \<Rightarrow> bool) \<Rightarrow> 'n Cache \<Rightarrow> (DRP \<rightharpoonup> 'n) \<Rightarrow> bool" where
  "cache_agrees env fits R c L \<longleftrightarrow> cache_ok (ev_len env) c \<and> (\<forall>n. fits n \<longrightarrow> ev_len env n \<le> ca_capacity c) \<and>
     (\<forall>pba n. cache_content c (KPBA pba) = Some n \<longrightarrow> (\<exists>drp. drp_pba drp = pba \<and> L drp = Some n)) \<and>
     (\<forall>k n. cache_content c k = Some n \<longrightarrow> R k n)"

definition ddml_rep :: "('n, 'h) DdmlEnv \<Rightarrow> ('n \<Rightarrow> bool) \<Rightarrow> (CacheKey \<Rightarrow> 'n \<Rightarrow> bool) \<Rightarrow> 'n DDML \<Rightarrow> (DRP \<rightharpoonup> 'n) \<Rightarrow> bool" where
  "ddml_rep env fits R d L \<longleftrightarrow> (\<exists>live. pool_holds env fits (dd_pool d) live L) \<and> cache_agrees env fits R (dd_cache d) L"

lemma ddml_repI: "pool_holds env fits (dd_pool d) live L \<Longrightarrow> cache_agrees env fits R (dd_cache d) L \<Longrightarrow> ddml_rep env fits R d L"
  by (auto simp: ddml_rep_def)

section \<open>The cache\<close>

lemma agrees_get:
  assumes "cache_agrees env fits R c L"
  obtains c' where "cache_get Some k c = Some (cache_content c k, c')" "cache_agrees env fits R c' L" "cache_content c' = cache_content c"
proof -
  obtain c' where c': "cache_get Some k c = Some (cache_content c k, c')" "cache_ok (ev_len env) c'" "cache_content c' = cache_content c"
      "(\<lambda>b. ev_len env b \<le> ca_capacity c') = (\<lambda>b. ev_len env b \<le> ca_capacity c)"
    using bc.get_ok[of "ev_len env" c k] assms unfolding cache_agrees_def by blast
  have "ev_len env n \<le> ca_capacity c' \<longleftrightarrow> ev_len env n \<le> ca_capacity c" for n using fun_cong[OF c'(4)] .
  then show ?thesis using that[OF c'(1) _ c'(3)] c'(2,3) assms by (simp add: cache_agrees_def)
qed

lemma agrees_remove:
  assumes "cache_agrees env fits R c L" "L drp = Some n" "inj_on drp_pba (dom L)"
  obtains c' where "cache_remove (ev_len env) (KPBA (drp_pba drp)) c = Some (cache_content c (KPBA (drp_pba drp)), c')"
    "cache_agrees env fits R c' (L(drp := None))" "cache_agrees env fits R c' L"
proof -
  let ?k = "KPBA (drp_pba drp)"
  obtain c' where c': "cache_remove (ev_len env) ?k c = Some (cache_content c ?k, c')" "cache_ok (ev_len env) c'"
      "cache_content c' = (cache_content c)(?k := None)" "(\<lambda>b. ev_len env b \<le> ca_capacity c') = (\<lambda>b. ev_len env b \<le> ca_capacity c)"
    using bc.remove_ok[of "ev_len env" c ?k] assms(1) unfolding cache_agrees_def by blast
  have "ev_len env m \<le> ca_capacity c' \<longleftrightarrow> ev_len env m \<le> ca_capacity c" for m using fun_cong[OF c'(4)] .
  moreover have "\<exists>drp'. drp_pba drp' = pba \<and> (L(drp := None)) drp' = Some m" if "cache_content c' (KPBA pba) = Some m" for pba m
    using that c'(3) assms(1) by (fastforce simp: cache_agrees_def split: if_splits)
  moreover have "\<exists>drp'. drp_pba drp' = pba \<and> L drp' = Some m" if "cache_content c' (KPBA pba) = Some m" for pba m
    using that c'(3) assms(1) by (fastforce simp: cache_agrees_def split: if_splits)
  moreover have "R k m" if "cache_content c' k = Some m" for k m
    using that c'(3) assms(1) by (simp add: cache_agrees_def split: if_splits)
  ultimately show ?thesis using that[OF c'(1)] c'(2) assms(1) by (simp add: cache_agrees_def)
qed

lemma agrees_put:
  assumes "cache_agrees env fits R c L" "fits n" "cache_content c (KPBA (drp_pba drp)) = None" "L drp = None \<or> L drp = Some n" "R (KPBA (drp_pba drp)) n"
  obtains c' where "cache_insert (ev_len env) (=) (KPBA (drp_pba drp)) n c = Some c'" "cache_agrees env fits R c' (L(drp \<mapsto> n))"
proof -
  let ?k = "KPBA (drp_pba drp)"
  obtain c' where c': "cache_insert (ev_len env) (=) ?k n c = Some c'" "cache_ok (ev_len env) c'"
      "cache_content c' \<subseteq>\<^sub>m (cache_content c)(?k \<mapsto> n)" "(\<lambda>b. ev_len env b \<le> ca_capacity c') = (\<lambda>b. ev_len env b \<le> ca_capacity c)"
    using bc.put_ok[of "ev_len env" c n ?k] assms unfolding cache_agrees_def by blast
  have "ev_len env m \<le> ca_capacity c' \<longleftrightarrow> ev_len env m \<le> ca_capacity c" for m using fun_cong[OF c'(4)] .
  moreover have "\<exists>drp'. drp_pba drp' = pba \<and> (L(drp \<mapsto> n)) drp' = Some m" if m: "cache_content c' (KPBA pba) = Some m" for pba m
  proof -
    have "((cache_content c)(?k \<mapsto> n)) (KPBA pba) = Some m" using c'(3) m unfolding map_le_def by (metis domI)
    then show ?thesis using assms(1,4) by (fastforce simp: cache_agrees_def split: if_splits)
  qed
  moreover have "R k m" if m: "cache_content c' k = Some m" for k m
  proof -
    have "((cache_content c)(?k \<mapsto> n)) k = Some m" using c'(3) m unfolding map_le_def by (metis domI)
    then show ?thesis using assms(1,5) by (simp add: cache_agrees_def split: if_splits)
  qed
  ultimately show ?thesis using that[OF c'(1)] c'(2) assms(1) by (simp add: cache_agrees_def)
qed

section \<open>The pool\<close>

text \<open>
  What the layer relies on: the weight of a cluster of a positive size is a number, Blosc undoes its compression, and the records that fit have
  an encoding of less than 4 GB.
\<close>

locale ddml_env =
  fixes env :: "('n, 'h) DdmlEnv" and fits :: "'n \<Rightarrow> bool"
  assumes weights: "weights_ok (ev_weight env)"
    and blosc_ok: "length bs < u32_max \<Longrightarrow> ev_unblosc env (ev_blosc env c bs) = Some bs"
    and blosc_len: "length bs < u32_max \<Longrightarrow> 0 < length (ev_blosc env c bs) \<and> length (ev_blosc env c bs) < 2 ^ 63"
    and ser_len: "fits n \<Longrightarrow> 0 < length (ev_ser env n) \<and> length (ev_ser env n) < u32_max"
begin

lemma stored_same:
  assumes "stored env fits p live drp n" "same_data l p p'" "\<forall>i. l i \<subseteq> live' i"
    "\<forall>k. (pba_lba (drp_pba drp), k) \<in> live (pba_cluster (drp_pba drp)) \<longrightarrow> (pba_lba (drp_pba drp), k) \<in> l (pba_cluster (drp_pba drp))"
  shows "stored env fits p' live' drp n"
proof -
  obtain k bs where s: "fits n" "pba_cluster (drp_pba drp) < length (pl_clusters p)" "drp_asize drp = Some k"
      "(pba_lba (drp_pba drp), k) \<in> live (pba_cluster (drp_pba drp))" "record_at p (drp_pba drp) k bs" "length bs = drp_csize drp"
      "0 < drp_csize drp" "drp_csize drp < u32_max" "ddml_checksum env bs = drp_checksum drp" "decode (ev_unblosc env) (drp_compressed drp) bs = Some (ev_ser env n)"
    using assms(1) unfolding stored_def by blast
  have l: "(pba_lba (drp_pba drp), k) \<in> l (pba_cluster (drp_pba drp))" using assms(4) s(4) by simp
  have "length (pl_clusters p') = length (pl_clusters p)" using assms(2) by (simp add: same_data_def)
  then show ?thesis unfolding stored_def using record_same[OF s(5) assms(2) l s(2)] l s assms(3) by (metis subsetD)
qed

text \<open>What is read does not depend on how it is decoded: the bytes of the extent have the right checksum.\<close>

lemma read_bytes:
  assumes "pool_holds env fits (dd_pool d) live L" "L drp = Some n"
  obtains ok p' bs where "pool_holds env fits p' live L" "pool_quiet (dd_pool d) \<longrightarrow> pool_quiet p' \<and> ok = Inr ()"
    "length bs = drp_csize drp" "0 < drp_csize drp" "drp_csize drp < u32_max" "decode (ev_unblosc env) (drp_compressed drp) bs = Some (ev_ser env n)"
    "\<And>drp' raw. drp_pba drp' = drp_pba drp \<Longrightarrow> drp_csize drp' = drp_csize drp \<Longrightarrow> drp_checksum drp' = drp_checksum drp \<Longrightarrow>
       decode (ev_unblosc env) (drp_compressed drp') bs = Some raw \<Longrightarrow> ddml_read env d drp' = Some (map_sum (\<lambda>e. e) (\<lambda>_. raw) ok, d\<lparr>dd_pool := p'\<rparr>)"
proof -
  have inv: "pool_inv (ev_zl env) (ev_lz env) (dd_pool d) live" and st: "stored env fits (dd_pool d) live drp n"
    using assms by (simp_all add: pool_holds_def)
  obtain k bs where s: "pba_cluster (drp_pba drp) < length (pl_clusters (dd_pool d))" "drp_asize drp = Some k"
      "record_at (dd_pool d) (drp_pba drp) k bs" "length bs = drp_csize drp" "0 < drp_csize drp" "drp_csize drp < u32_max"
      "ddml_checksum env bs = drp_checksum drp" "decode (ev_unblosc env) (drp_compressed drp) bs = Some (ev_ser env n)"
    using st unfolding stored_def by blast
  obtain r p' where r: "pool_read (dd_pool d) k (drp_pba drp) = Some (r, p')" "pool_inv (ev_zl env) (ev_lz env) p' live" "same_data live (dd_pool d) p'"
      "\<forall>bs. r = Inr bs \<longrightarrow> bs = concat (map (pool_blocks (dd_pool d) (pba_cluster (drp_pba drp))) [pba_lba (drp_pba drp)..<pba_lba (drp_pba drp) + k])"
    by (rule pool_read_spec[OF inv s(1)])
  have h: "pool_holds env fits p' live L"
    using assms(1) r(2) stored_same[OF _ r(3)] by (fastforce simp: pool_holds_def)
  have take: "take (drp_csize drp) all = bs" if "r = Inr all" for all using r(4) that s(3,4) by (simp add: record_at_def)
  let ?ok = "map_sum (\<lambda>e. e) (\<lambda>_. ()) r"
  have "ddml_read env d drp' = Some (map_sum (\<lambda>e. e) (\<lambda>_. raw) ?ok, d\<lparr>dd_pool := p'\<rparr>)"
    if "drp_pba drp' = drp_pba drp" "drp_csize drp' = drp_csize drp" "drp_checksum drp' = drp_checksum drp"
      "decode (ev_unblosc env) (drp_compressed drp') bs = Some raw" for drp' raw
    using that r(1) s(2,7) take by (cases r) (simp_all add: ddml_read_def drp_asize_def)
  moreover have "pool_quiet (dd_pool d) \<longrightarrow> pool_quiet p' \<and> ?ok = Inr ()" using pool_read_quiet[OF r(1)] by auto
  ultimately show ?thesis using that[OF h _ s(4-6,8), of ?ok] by blast
qed

lemma read_spec:
  assumes "pool_holds env fits (dd_pool d) live L" "L drp = Some n"
  obtains r p' where "ddml_read env d drp = Some (r, d\<lparr>dd_pool := p'\<rparr>)" "pool_holds env fits p' live L" "\<forall>raw. r = Inr raw \<longrightarrow> raw = ev_ser env n"
    "pool_quiet (dd_pool d) \<longrightarrow> pool_quiet p' \<and> (\<exists>raw. r = Inr raw)"
proof (rule read_bytes[OF assms])
  fix ok p' bs
  assume h: "pool_holds env fits p' live L" "pool_quiet (dd_pool d) \<longrightarrow> pool_quiet p' \<and> ok = Inr ()" "decode (ev_unblosc env) (drp_compressed drp) bs = Some (ev_ser env n)"
    and r: "\<And>drp' raw. drp_pba drp' = drp_pba drp \<Longrightarrow> drp_csize drp' = drp_csize drp \<Longrightarrow> drp_checksum drp' = drp_checksum drp \<Longrightarrow>
       decode (ev_unblosc env) (drp_compressed drp') bs = Some raw \<Longrightarrow> ddml_read env d drp' = Some (map_sum (\<lambda>e. e) (\<lambda>_. raw) ok, d\<lparr>dd_pool := p'\<rparr>)"
  show thesis using r[OF refl refl refl h(3)] h(1,2) by (cases ok) (auto intro: that)
qed

lemma free_spec:
  assumes "pool_holds env fits (dd_pool d) live L" "L drp = Some n"
  obtains p' live' where "ddml_free env d drp = Some (Inr (), d\<lparr>dd_pool := p'\<rparr>)" "pool_holds env fits p' live' (L(drp := None))"
    "pool_quiet (dd_pool d) \<longrightarrow> pool_quiet p'"
proof -
  let ?i = "pba_cluster (drp_pba drp)" and ?lba = "pba_lba (drp_pba drp)"
  have inv: "pool_inv (ev_zl env) (ev_lz env) (dd_pool d) live" and inj: "inj_on drp_pba (dom L)"
    using assms by (simp_all add: pool_holds_def)
  obtain k where k: "?i < length (pl_clusters (dd_pool d))" "drp_asize drp = Some k" "(?lba, k) \<in> live ?i"
    using assms by (auto simp: pool_holds_def stored_def)
  let ?l = "live(?i := live ?i - {(?lba, k)})"
  obtain p' where f: "pool_free (ev_zl env) (ev_lz env) (dd_pool d) (drp_pba drp) k = Some (Inr (), p')"
      "pool_inv (ev_zl env) (ev_lz env) p' ?l" "same_data ?l (dd_pool d) p'"
    by (rule pool_free_spec[OF inv k(1,3)])
  have "stored env fits p' ?l drp' m" if "L drp' = Some m" "drp' \<noteq> drp" for drp' m
  proof (rule stored_same[OF _ f(3)])
    show "stored env fits (dd_pool d) live drp' m" using assms(1) that(1) by (simp add: pool_holds_def)
    have "drp_pba drp' \<noteq> drp_pba drp" using inj that assms(2) by (auto dest: inj_onD)
    then have "pba_cluster (drp_pba drp') \<noteq> ?i \<or> pba_lba (drp_pba drp') \<noteq> ?lba" by (metis PBA.expand)
    then show "\<forall>k. (pba_lba (drp_pba drp'), k) \<in> live (pba_cluster (drp_pba drp')) \<longrightarrow> (pba_lba (drp_pba drp'), k) \<in> ?l (pba_cluster (drp_pba drp'))"
      by auto
  qed simp
  moreover have "inj_on drp_pba (dom (L(drp := None)))" using inj by (rule inj_on_subset) auto
  ultimately have "pool_holds env fits p' ?l (L(drp := None))" using f(2) by (simp add: pool_holds_def)
  then show ?thesis using that[of p' ?l] f(1) k(2) pool_free_quiet[OF f(1)] by (simp add: ddml_free_def)
qed

text \<open>The checksummed image of a record is never longer than the record.\<close>

lemma compressed_image:
  assumes "fits n"
  obtains out c' where "compress (ev_blosc env) c (ev_ser env n) = Some (out, c')" "decode (ev_unblosc env) (is_compressed c') out = Some (ev_ser env n)"
    "0 < length out" "length out < u32_max"
  using compress_spec[of "ev_unblosc env" "ev_blosc env" c "ev_ser env n"] blosc_ok blosc_len ser_len[OF assms] by auto

lemma put_spec:
  assumes "pool_holds env fits (dd_pool d) live L" "fits n"
  obtains r p' live' where "ddml_put_common env d n c txg = Some (r, d\<lparr>dd_pool := p'\<rparr>)"
    "case r of Inl _ \<Rightarrow> pool_holds env fits p' live' L
     | Inr drp \<Rightarrow> pool_holds env fits p' live' (L(drp \<mapsto> n)) \<and> (\<forall>drp' \<in> dom L. drp_pba drp' \<noteq> drp_pba drp)"
    "pool_quiet (dd_pool d) \<longrightarrow> pool_quiet p' \<and> (\<forall>e. r = Inl e \<longrightarrow> e = ENOSPC)"
proof -
  have inv: "pool_inv (ev_zl env) (ev_lz env) (dd_pool d) live" using assms by (simp add: pool_holds_def)
  obtain out c' where o: "compress (ev_blosc env) c (ev_ser env n) = Some (out, c')" "decode (ev_unblosc env) (is_compressed c') out = Some (ev_ser env n)"
      "0 < length out" "length out < u32_max"
    by (rule compressed_image[OF assms(2)])
  have b: "blocks_of out < u32_max" using o(4) by (simp add: blocks_of_def)
  obtain r p' live' where w: "pool_write (ev_zl env) (ev_weight env) (dd_pool d) out txg = Some (r, p')" "pool_inv (ev_zl env) (ev_lz env) p' live'"
      "same_data live (dd_pool d) p'" "\<forall>i. live i \<subseteq> live' i"
      "\<forall>pba. r = Inr pba \<longrightarrow> pba_cluster pba < length (pl_clusters (dd_pool d)) \<and> (pba_lba pba, blocks_of out) \<in> live' (pba_cluster pba) \<and>
         (\<forall>e \<in> live (pba_cluster pba). extents_disjoint (pba_lba pba, blocks_of out) e) \<and> record_at p' pba (blocks_of out) out"
    by (rule pool_write_spec[OF inv o(3) b weights])
  have old: "stored env fits p' live' drp m" if "L drp = Some m" for drp m
    using stored_same[of "dd_pool d" live drp m, OF _ w(3,4)] assms(1) that by (simp add: pool_holds_def)
  show ?thesis
  proof (cases r)
    case (Inl e)
    have "pool_holds env fits p' live' L" using old w(2) assms(1) by (simp add: pool_holds_def)
    then show ?thesis using that[of "Inl e" p' live'] w(1) o ser_len[OF assms(2)] Inl pool_write_quiet[OF w(1)] by (simp add: ddml_put_common_def)
  next
    case (Inr pba)
    let ?drp = "\<lparr>drp_pba = pba, drp_compressed = is_compressed c', drp_lsize = u32 (length (ev_ser env n)), drp_csize = length out,
      drp_checksum = ddml_checksum env out\<rparr>"
    have w5: "pba_cluster pba < length (pl_clusters (dd_pool d))" "(pba_lba pba, blocks_of out) \<in> live' (pba_cluster pba)"
         "\<forall>e \<in> live (pba_cluster pba). extents_disjoint (pba_lba pba, blocks_of out) e" "record_at p' pba (blocks_of out) out"
      using w(5) Inr by simp_all
    have new: "stored env fits p' live' ?drp n"
      using w5 assms(2) o(2-4) w(3) blocks_of_roundup[OF b]
      by (simp add: stored_def drp_asize_def same_data_def) (rule exI[of _ out], simp)
    have fresh: "drp_pba drp \<noteq> pba" if m: "L drp = Some m" for drp m
    proof
      assume eq: "drp_pba drp = pba"
      obtain k where k: "(pba_lba pba, k) \<in> live (pba_cluster pba)" "pba_cluster pba < length (pl_clusters (dd_pool d))"
        using assms(1) m eq by (auto simp: pool_holds_def stored_def)
      have "cluster_inv (ev_zl env (pba_cluster pba)) (ev_lz env (pba_cluster pba)) (fst (pl_clusters (dd_pool d) ! pba_cluster pba)) (live (pba_cluster pba))"
        using inv k(2) by (simp add: pool_inv_def)
      from cluster_invD(7)[OF this k(1)] have "0 < k" by (simp add: extent_placed_def)
      moreover have "0 < blocks_of out" using o(3) by (cases "length out") (simp_all add: blocks_of_def)
      ultimately show False using w5(3) k(1) by (auto simp: extents_disjoint_def)
    qed
    have "pool_holds env fits p' live' (L(?drp \<mapsto> n))"
      using old new w(2) assms(1) fresh by (auto simp: pool_holds_def inj_on_def)
    moreover have "ddml_put_common env d n c txg = Some (Inr ?drp, d\<lparr>dd_pool := p'\<rparr>)"
      using w(1) o ser_len[OF assms(2)] Inr by (simp add: ddml_put_common_def wrapu_id)
    ultimately show ?thesis using that[of "Inr ?drp" p' live'] fresh pool_write_quiet[OF w(1)] by auto
  qed
qed

section \<open>The contract\<close>

lemma agrees_hit:
  assumes "cache_agrees env fits R c L" "inj_on drp_pba (dom L)" "L drp = Some n" "cache_content c (KPBA (drp_pba drp)) = Some m"
  shows "m = n"
  using assms unfolding cache_agrees_def by (metis domI inj_onD option.inject)

lemma ddml_get_law:
  assumes "ddml_rep env fits R d L" "L drp = Some n" "deser (ev_ser env n) = Some n" "R (KPBA (drp_pba drp)) n"
  shows "\<exists>r d'. ddml_get deser env d drp = Some (r, d') \<and> ddml_rep env fits R d' L \<and> (\<forall>n'. r = Inr n' \<longrightarrow> n' = n) \<and>
    (pool_quiet (dd_pool d) \<longrightarrow> pool_quiet (dd_pool d') \<and> (\<exists>n. r = Inr n))"
proof -
  obtain live where h: "pool_holds env fits (dd_pool d) live L" and c: "cache_agrees env fits R (dd_cache d) L"
    using assms(1) by (auto simp: ddml_rep_def)
  let ?k = "KPBA (drp_pba drp)"
  obtain c1 where c1: "cache_get Some ?k (dd_cache d) = Some (cache_content (dd_cache d) ?k, c1)" "cache_agrees env fits R c1 L"
      "cache_content c1 = cache_content (dd_cache d)"
    by (rule agrees_get[OF c])
  show ?thesis
  proof (cases "cache_content (dd_cache d) ?k")
    case (Some m)
    then have "m = n" using agrees_hit[OF c] h assms(2) by (simp add: pool_holds_def)
    then show ?thesis using c1 Some h by (auto simp: ddml_get_def intro: ddml_repI)
  next
    case None
    have h1: "pool_holds env fits (dd_pool (d\<lparr>dd_cache := c1\<rparr>)) live L" using h by simp
    obtain r p' where r: "ddml_read env (d\<lparr>dd_cache := c1\<rparr>) drp = Some (r, d\<lparr>dd_cache := c1\<rparr>\<lparr>dd_pool := p'\<rparr>)" "pool_holds env fits p' live L"
        "\<forall>raw. r = Inr raw \<longrightarrow> raw = ev_ser env n" "pool_quiet (dd_pool (d\<lparr>dd_cache := c1\<rparr>)) \<longrightarrow> pool_quiet p' \<and> (\<exists>raw. r = Inr raw)"
      by (rule read_spec[OF h1 assms(2)])
    show ?thesis
    proof (cases r)
      case (Inl e)
      then show ?thesis using c1 None r(1,2,4) by (auto simp: ddml_get_def ddml_get_direct_def intro: ddml_repI)
    next
      case (Inr raw)
      have "fits n" using h assms(2) by (auto simp: pool_holds_def stored_def)
      then obtain c2 where "cache_insert (ev_len env) (=) ?k n c1 = Some c2" "cache_agrees env fits R c2 (L(drp \<mapsto> n))"
        using agrees_put[OF c1(2), of n drp] None c1(3) assms(2,4) by auto
      then show ?thesis
        using c1(1) None r Inr assms(2,3) by (auto simp: ddml_get_def ddml_get_direct_def fun_upd_idem intro: ddml_repI)
    qed
  qed
qed

lemma ddml_pop_law:
  assumes "ddml_rep env fits R d L" "L drp = Some n" "deser (ev_ser env n) = Some n"
  shows "\<exists>r d' L'. ddml_pop deser env d drp txg = Some (r, d') \<and> ddml_rep env fits R d' L' \<and>
    (case r of Inr n' \<Rightarrow> n' = n \<and> L' = L(drp := None) | Inl _ \<Rightarrow> L' = L) \<and>
    (pool_quiet (dd_pool d) \<longrightarrow> pool_quiet (dd_pool d') \<and> (\<exists>n. r = Inr n))"
proof -
  obtain live where h: "pool_holds env fits (dd_pool d) live L" and c: "cache_agrees env fits R (dd_cache d) L"
    using assms(1) by (auto simp: ddml_rep_def)
  have inj: "inj_on drp_pba (dom L)" using h by (simp add: pool_holds_def)
  let ?k = "KPBA (drp_pba drp)"
  obtain c1 where c1: "cache_remove (ev_len env) ?k (dd_cache d) = Some (cache_content (dd_cache d) ?k, c1)"
      "cache_agrees env fits R c1 (L(drp := None))" "cache_agrees env fits R c1 L"
    by (rule agrees_remove[OF c assms(2) inj])
  let ?d = "d\<lparr>dd_cache := c1\<rparr>"
  have h1: "pool_holds env fits (dd_pool ?d) live L" using h by simp
  show ?thesis
  proof (cases "cache_content (dd_cache d) ?k")
    case (Some m)
    then have m: "m = n" using agrees_hit[OF c inj assms(2)] by simp
    obtain p' live' where "ddml_free env ?d drp = Some (Inr (), ?d\<lparr>dd_pool := p'\<rparr>)" "pool_holds env fits p' live' (L(drp := None))"
        "pool_quiet (dd_pool ?d) \<longrightarrow> pool_quiet p'"
      by (rule free_spec[OF h1 assms(2)])
    then show ?thesis using c1 Some m by (auto simp: ddml_pop_def intro: ddml_repI)
  next
    case None
    obtain r p' where r: "ddml_read env ?d drp = Some (r, ?d\<lparr>dd_pool := p'\<rparr>)" "pool_holds env fits p' live L"
        "\<forall>raw. r = Inr raw \<longrightarrow> raw = ev_ser env n" "pool_quiet (dd_pool (d\<lparr>dd_cache := c1\<rparr>)) \<longrightarrow> pool_quiet p' \<and> (\<exists>raw. r = Inr raw)"
      by (rule read_spec[OF h1 assms(2)])
    have h2: "pool_holds env fits (dd_pool (?d\<lparr>dd_pool := p'\<rparr>)) live L" using r(2) by simp
    obtain p'' live' where f: "ddml_free env (?d\<lparr>dd_pool := p'\<rparr>) drp = Some (Inr (), ?d\<lparr>dd_pool := p'\<rparr>\<lparr>dd_pool := p''\<rparr>)"
        "pool_holds env fits p'' live' (L(drp := None))" "pool_quiet (dd_pool (?d\<lparr>dd_pool := p'\<rparr>)) \<longrightarrow> pool_quiet p''"
      by (rule free_spec[OF h2 assms(2)])
    show ?thesis
      using c1 None r f assms(3) by (cases r) (auto simp: ddml_pop_def ddml_pop_direct_def intro: ddml_repI)
  qed
qed

lemma ddml_delete_law:
  assumes "ddml_rep env fits R d L" "L drp = Some n"
  shows "\<exists>r d' L'. ddml_delete env d drp txg = Some (r, d') \<and> ddml_rep env fits R d' L' \<and>
    (case r of Inr _ \<Rightarrow> L' = L(drp := None) | Inl _ \<Rightarrow> L' = L) \<and>
    (pool_quiet (dd_pool d) \<longrightarrow> pool_quiet (dd_pool d') \<and> r = Inr ())"
proof -
  obtain live where h: "pool_holds env fits (dd_pool d) live L" and c: "cache_agrees env fits R (dd_cache d) L"
    using assms(1) by (auto simp: ddml_rep_def)
  have inj: "inj_on drp_pba (dom L)" using h by (simp add: pool_holds_def)
  obtain c1 where c1: "cache_remove (ev_len env) (KPBA (drp_pba drp)) (dd_cache d) = Some (cache_content (dd_cache d) (KPBA (drp_pba drp)), c1)"
      "cache_agrees env fits R c1 (L(drp := None))"
    by (rule agrees_remove[OF c assms(2) inj])
  have h1: "pool_holds env fits (dd_pool (d\<lparr>dd_cache := c1\<rparr>)) live L" using h by simp
  obtain p' live' where "ddml_free env (d\<lparr>dd_cache := c1\<rparr>) drp = Some (Inr (), d\<lparr>dd_cache := c1\<rparr>\<lparr>dd_pool := p'\<rparr>)"
      "pool_holds env fits p' live' (L(drp := None))" "pool_quiet (dd_pool (d\<lparr>dd_cache := c1\<rparr>)) \<longrightarrow> pool_quiet p'"
    by (rule free_spec[OF h1 assms(2)])
  then show ?thesis using c1 by (auto simp: ddml_delete_def intro: ddml_repI)
qed

lemma ddml_put_law:
  assumes "ddml_rep env fits R d L" "fits n" "\<And>pba. R (KPBA pba) n"
  shows "\<exists>r d' L'. ddml_put env d n c txg = Some (r, d') \<and> ddml_rep env fits R d' L' \<and>
    (case r of Inr drp \<Rightarrow> L drp = None \<and> L' = L(drp \<mapsto> n) | Inl _ \<Rightarrow> L' = L) \<and>
    (pool_quiet (dd_pool d) \<longrightarrow> pool_quiet (dd_pool d') \<and> (\<forall>e. r = Inl e \<longrightarrow> e = ENOSPC))"
proof -
  obtain live where h: "pool_holds env fits (dd_pool d) live L" and ca: "cache_agrees env fits R (dd_cache d) L"
    using assms(1) by (auto simp: ddml_rep_def)
  obtain r p' live' where r: "ddml_put_common env d n c txg = Some (r, d\<lparr>dd_pool := p'\<rparr>)"
      "case r of Inl _ \<Rightarrow> pool_holds env fits p' live' L
       | Inr drp \<Rightarrow> pool_holds env fits p' live' (L(drp \<mapsto> n)) \<and> (\<forall>drp' \<in> dom L. drp_pba drp' \<noteq> drp_pba drp)"
      "pool_quiet (dd_pool d) \<longrightarrow> pool_quiet p' \<and> (\<forall>e. r = Inl e \<longrightarrow> e = ENOSPC)"
    by (rule put_spec[OF h assms(2)])
  show ?thesis
  proof (cases r)
    case (Inl e)
    then show ?thesis using r ca by (auto simp: ddml_put_def intro: ddml_repI)
  next
    case (Inr drp)
    then have h': "pool_holds env fits p' live' (L(drp \<mapsto> n))" and fresh: "\<forall>drp' \<in> dom L. drp_pba drp' \<noteq> drp_pba drp" using r(2) by simp_all
    have "L drp = None" using fresh by (cases "L drp") auto
    moreover have "cache_content (dd_cache d) (KPBA (drp_pba drp)) = None"
      using fresh ca unfolding cache_agrees_def by (metis domI not_Some_eq)
    then obtain c2 where c2: "cache_insert (ev_len env) (=) (KPBA (drp_pba drp)) n (dd_cache d) = Some c2" "cache_agrees env fits R c2 (L(drp \<mapsto> n))"
      using agrees_put[OF ca assms(2), of drp] calculation assms(3) by auto
    then have "ddml_put env d n c txg = Some (Inr drp, d\<lparr>dd_cache := c2, dd_pool := p'\<rparr>)"
      using r(1) Inr by (simp add: ddml_put_def)
    moreover have "ddml_rep env fits R (d\<lparr>dd_cache := c2, dd_pool := p'\<rparr>) (L(drp \<mapsto> n))"
      using h' c2(2) by (intro ddml_repI) simp_all
    ultimately show ?thesis using r(3) by auto
  qed
qed

end

text \<open>Records of one type.\<close>

locale ddml_typed = ddml_env env fits for env :: "('n, 'h) DdmlEnv" and fits :: "'n \<Rightarrow> bool" +
  fixes deser :: "IoVec \<Rightarrow> 'n option" and R :: "CacheKey \<Rightarrow> 'n \<Rightarrow> bool"
  assumes deser_ok: "fits n \<Longrightarrow> deser (ev_ser env n) = Some n"
    and cacheable: "fits n \<Longrightarrow> R (KPBA pba) n"
begin

lemma held_deser: "ddml_rep env fits R d L \<Longrightarrow> L a = Some n \<Longrightarrow> deser (ev_ser env n) = Some n \<and> R (KPBA pba) n"
  using deser_ok cacheable by (auto simp: ddml_rep_def pool_holds_def stored_def)

end

sublocale ddml_typed \<subseteq> dml_laws "ddml_dml deser env" "ddml_rep env fits R" fits
proof
  fix d L a n txg c
  assume r: "ddml_rep env fits R d L"
  show "L a = Some n \<Longrightarrow> \<exists>r d'. dml_get (ddml_dml deser env) d a = Some (r, d') \<and> ddml_rep env fits R d' L \<and> (\<forall>n'. r = Inr n' \<longrightarrow> n' = n)"
    using ddml_get_law[OF r, of a n deser] held_deser[OF r, of a n] by (auto simp: ddml_dml_def)
  show "L a = Some n \<Longrightarrow> \<exists>r d' L'. dml_pop (ddml_dml deser env) d a txg = Some (r, d') \<and> ddml_rep env fits R d' L' \<and>
        (case r of Inr n' \<Rightarrow> n' = n \<and> L' = L(a := None) | Inl _ \<Rightarrow> L' = L)"
    using ddml_pop_law[OF r, of a n deser txg] held_deser[OF r, of a n] by (auto simp: ddml_dml_def)
  show "L a = Some n \<Longrightarrow> \<exists>r d' L'. dml_delete (ddml_dml deser env) d a txg = Some (r, d') \<and> ddml_rep env fits R d' L' \<and>
        (case r of Inr _ \<Rightarrow> L' = L(a := None) | Inl _ \<Rightarrow> L' = L)"
    using ddml_delete_law[OF r, of a n txg] by (auto simp: ddml_dml_def)
  show "fits n \<Longrightarrow> \<exists>r d' L'. dml_put (ddml_dml deser env) d n c txg = Some (r, d') \<and> ddml_rep env fits R d' L' \<and>
        (case r of Inr a \<Rightarrow> L a = None \<and> L' = L(a \<mapsto> n) | Inl _ \<Rightarrow> L' = L)"
    using ddml_put_law[OF r, of n c txg] cacheable by (auto simp: ddml_dml_def)
qed

end
