(* ===== verification/Btree_Errors.thy ===== *)
theory Btree_Errors
  imports Btree_Flush
begin

text \<open>
  The trees add no errors of their own: an execution in which the data management layer does not fail has no error.

  \<open>strict_dml\<close> stops where the data management layer fails, instead of returning the error. What it computes, the tree on
  the data management layer computes as well, and the only error that it returns is the lack of space for a new record.
\<close>

definition strict :: "('x result \<times> 'd) option \<Rightarrow> ('x result \<times> 'd) option" where
  "strict m = (case m of Some (Inr x, d) \<Rightarrow> Some (Inr x, d) | _ \<Rightarrow> None)"

definition strict_put :: "('x result \<times> 'd) option \<Rightarrow> ('x result \<times> 'd) option" where
  "strict_put m = (case m of Some (Inl e, d) \<Rightarrow> if e = ENOSPC then m else None | _ \<Rightarrow> m)"

definition strict_dml :: "('d, 'a, 'n) Dml \<Rightarrow> ('d, 'a, 'n) Dml" where
  "strict_dml dml = dml\<lparr>dml_get := \<lambda>d a. strict (dml_get dml d a), dml_pop := \<lambda>d a txg. strict (dml_pop dml d a txg),
     dml_put := \<lambda>d n c txg. strict_put (dml_put dml d n c txg)\<rparr>"

lemma strict_Some: "strict m = Some (r, d) \<longleftrightarrow> m = Some (r, d) \<and> (\<exists>x. r = Inr x)"
  by (auto simp: strict_def split: option.splits prod.splits sum.splits)

lemma strict_put_Some: "strict_put m = Some (r, d) \<longleftrightarrow> m = Some (r, d) \<and> (\<forall>e. r = Inl e \<longrightarrow> e = ENOSPC)"
  by (auto simp: strict_put_def split: option.splits prod.splits sum.splits)

lemmas run_simps = bind_eq_Some_conv Let_def

lemma rlock_strict: "rlock (strict_dml dml) e d = Some (r, d') \<Longrightarrow> rlock dml e d = Some (r, d') \<and> (\<exists>n. r = Inr n)"
  by (auto simp: rlock_def strict_dml_def strict_Some split: TreePtr.splits)

lemma xlock_strict: "xlock (strict_dml dml) es i txg d = Some (r, es', d') \<Longrightarrow> xlock dml es i txg d = Some (r, es', d') \<and> (\<exists>n. r = Inr n)"
  by (clarsimp simp: xlock_def strict_dml_def run_simps split: TreePtr.splits) (auto simp: strict_Some run_simps split: sum.split_asm)

lemma xlock_root_strict:
  "xlock_root (strict_dml dml) e txg d = Some (r, e', d') \<Longrightarrow> xlock_root dml e txg d = Some (r, e', d') \<and> (\<exists>n. r = Inr n)"
  by (clarsimp simp: xlock_root_def strict_dml_def run_simps split: TreePtr.splits) (auto simp: strict_Some split: sum.split_asm)

lemma get_r_strict: "get_r (strict_dml dml) fuel n k d = Some (r, d') \<Longrightarrow> get_r dml fuel n k d = Some (r, d') \<and> (\<exists>x. r = Inr x)"
proof (induction fuel arbitrary: n d)
  case (Suc fuel)
  show ?case
  proof (cases n)
    case (IntNode es)
    obtain e r1 d1 where e: "vec_get es (position es k) = Some e" "rlock (strict_dml dml) e d = Some (r1, d1)"
        "(case r1 of Inl e \<Rightarrow> Some (Inl e, d1) | Inr n \<Rightarrow> get_r (strict_dml dml) fuel n k d1) = Some (r, d')"
      using Suc.prems IntNode by (auto simp: run_simps)
    obtain m where "rlock dml e d = Some (Inr m, d1)" "r1 = Inr m" using rlock_strict[OF e(2)] by blast
    then show ?thesis using Suc.IH[of m d1] e IntNode by simp
  qed (use Suc.prems in auto)
qed simp

lemma tree_get_strict: "tree_get (strict_dml dml) fuel t k d = Some (r, d') \<Longrightarrow> tree_get dml fuel t k d = Some (r, d') \<and> (\<exists>x. r = Inr x)"
proof -
  assume g: "tree_get (strict_dml dml) fuel t k d = Some (r, d')"
  then obtain r1 d1 where x: "rlock (strict_dml dml) (tr_root t) d = Some (r1, d1)" by (auto simp: tree_get_def run_simps)
  from rlock_strict[OF x] obtain m where m: "rlock dml (tr_root t) d = Some (Inr m, d1)" "r1 = Inr m" by blast
  show ?thesis using g x m get_r_strict[of dml fuel m k d1 r d'] by (simp add: tree_get_def)
qed

lemma insert_int_strict:
  assumes rec: "\<And>es k v txg d r es' d'. rec es k v txg d = Some (r, es', d') \<Longrightarrow> rec' es k v txg d = Some (r, es', d') \<and> (\<exists>x. r = Inr x)"
    and "insert_int rec limits seq es i child k v txg d = Some (r, es', d')"
  shows "insert_int rec' limits seq es i child k v txg d = Some (r, es', d') \<and> (\<exists>x. r = Inr x)"
  using assms(2)
  by (clarsimp simp: insert_int_def run_simps insert_leaf_no_split_def)
    (auto simp: run_simps insert_leaf_no_split_def split: if_split_asm NodeData.split_asm dest: rec)

lemma insert_strict:
  "insert_int_no_split (strict_dml dml) limits seq fuel es k v txg d = Some (r, es', d') \<Longrightarrow>
    insert_int_no_split dml limits seq fuel es k v txg d = Some (r, es', d') \<and> (\<exists>x. r = Inr x)"
proof (induction fuel arbitrary: es k v txg d r es' d')
  case (Suc fuel)
  let ?i = "position es k"
  obtain e where e: "vec_get es ?i = Some e" using Suc.prems by (auto simp: run_simps)
  let ?es = "if k < ie_key e then es[?i := set_key k e] else es"
  obtain r1 es1 d1 where x: "xlock (strict_dml dml) ?es ?i txg d = Some (r1, es1, d1)"
      "(case r1 of Inl err \<Rightarrow> Some (Inl err, es1, d1)
        | Inr child \<Rightarrow> insert_int (insert_int_no_split (strict_dml dml) limits seq fuel) limits seq es1 ?i child k v txg d1) = Some (r, es', d')"
    using Suc.prems e by (auto simp: run_simps)
  obtain m where m: "xlock dml ?es ?i txg d = Some (Inr m, es1, d1)" "r1 = Inr m" using xlock_strict[OF x(1)] by blast
  have y: "insert_int (insert_int_no_split (strict_dml dml) limits seq fuel) limits seq es1 ?i m k v txg d1 = Some (r, es', d')"
    using x(2) m(2) by simp
  have "insert_int (insert_int_no_split dml limits seq fuel) limits seq es1 ?i m k v txg d1 = Some (r, es', d') \<and> (\<exists>x. r = Inr x)"
    using insert_int_strict[OF _ y] Suc.IH by blast
  then show ?case using m(1) e by (auto simp: Let_def split: if_split_asm)
qed simp

lemma tree_insert_strict:
  "tree_insert (strict_dml dml) fuel t k v txg d = Some (r, t', d') \<Longrightarrow> tree_insert dml fuel t k v txg d = Some (r, t', d') \<and> (\<exists>x. r = Inr x)"
proof -
  have locked: "insert_locked dml fuel t n k v txg d = Some (r, t', d') \<and> (\<exists>x. r = Inr x)"
    if "insert_locked (strict_dml dml) fuel t n k v txg d = Some (r, t', d')" for t n d
    using that by (clarsimp simp: insert_locked_def run_simps insert_leaf_no_split_def)
      (auto simp: run_simps split: NodeData.split_asm if_split_asm dest: insert_strict)
  assume g: "tree_insert (strict_dml dml) fuel t k v txg d = Some (r, t', d')"
  then obtain r1 e d1 where x: "xlock_root (strict_dml dml) (tr_root t) txg d = Some (r1, e, d1)" by (auto simp: tree_insert_def run_simps)
  from xlock_root_strict[OF x] obtain m where m: "xlock_root dml (tr_root t) txg d = Some (Inr m, e, d1)" "r1 = Inr m" by blast
  show ?thesis using g x m locked[of "t\<lparr>tr_root := e\<rparr>" m d1] by (simp add: tree_insert_def)
qed

lemma fix_int_strict:
  assumes "fix_int (strict_dml dml) limits es i child txg d = Some (r, es', d')"
  shows "fix_int dml limits es i child txg d = Some (r, es', d') \<and> (\<exists>x. r = Inr x)"
proof -
  obtain r1 es1 d1 where x: "xlock (strict_dml dml) es (if i < wsub 64 (length es) 1 then i + 1 else wsub 64 i 1) txg d = Some (r1, es1, d1)"
    using assms by (auto simp: fix_int_def run_simps)
  from xlock_strict[OF x] obtain m where m: "r1 = Inr m"
      "xlock dml es (if i < wsub 64 (length es) 1 then i + 1 else wsub 64 i 1) txg d = Some (Inr m, es1, d1)" by blast
  show ?thesis
    using assms x m by (auto simp: fix_int_def run_simps split: if_split_asm)
qed

lemma remove_int_strict:
  assumes rec: "\<And>n k txg d r n' d'. rec n k txg d = Some (r, n', d') \<Longrightarrow> rec' n k txg d = Some (r, n', d') \<and> (\<exists>x. r = Inr x)"
    and "remove_int rec (strict_dml dml) limits es i child k txg d = Some (r, es', d')"
  shows "remove_int rec' dml limits es i child k txg d = Some (r, es', d') \<and> (\<exists>x. r = Inr x)"
proof (cases "in_danger limits child")
  case True
  obtain r1 es1 d1 where f: "fix_int (strict_dml dml) limits es i child txg d = Some (r1, es1, d1)"
    using assms(2) True by (auto simp: remove_int_def run_simps)
  obtain m where m: "fix_int dml limits es i child txg d = Some (Inr m, es1, d1)" "r1 = Inr m" using fix_int_strict[OF f] by blast
  obtain r2 es2 d2 where x: "xlock (strict_dml dml) es1 (position es1 k) txg d1 = Some (r2, es2, d2)"
    using assms(2) True f m(2) by (auto simp: remove_int_def run_simps)
  obtain c where c: "xlock dml es1 (position es1 k) txg d1 = Some (Inr c, es2, d2)" "r2 = Inr c" using xlock_strict[OF x] by blast
  show ?thesis using assms(2) True f m x c by (auto simp: remove_int_def run_simps dest: rec)
next
  case False
  then show ?thesis using assms(2) by (auto simp: remove_int_def run_simps dest: rec)
qed

lemma remove_strict:
  "remove_no_fix (strict_dml dml) limits fuel n k txg d = Some (r, n', d') \<Longrightarrow>
    remove_no_fix dml limits fuel n k txg d = Some (r, n', d') \<and> (\<exists>x. r = Inr x)"
proof (induction fuel arbitrary: n k txg d r n' d')
  case (Suc fuel)
  show ?case
  proof (cases n)
    case (IntNode es)
    let ?i = "position es k"
    obtain r1 es1 d1 where x: "xlock (strict_dml dml) es ?i txg d = Some (r1, es1, d1)"
      using Suc.prems IntNode by (auto simp: run_simps)
    obtain m where m: "xlock dml es ?i txg d = Some (Inr m, es1, d1)" "r1 = Inr m" using xlock_strict[OF x] by blast
    then obtain es2 where es2: "n' = IntNode es2" "remove_int (remove_no_fix (strict_dml dml) limits fuel) (strict_dml dml) limits es1 ?i m k txg d1 = Some (r, es2, d')"
      using Suc.prems IntNode x by (auto simp: run_simps)
    have "remove_int (remove_no_fix dml limits fuel) dml limits es1 ?i m k txg d1 = Some (r, es2, d') \<and> (\<exists>x. r = Inr x)"
      using remove_int_strict[OF _ es2(2)] Suc.IH by blast
    then show ?thesis using m IntNode es2(1) by simp
  qed (use Suc.prems in auto)
qed simp

lemma merge_root_strict:
  assumes "xlock_and_merge_root (strict_dml dml) t txg d = Some (r, t', d')"
  shows "xlock_and_merge_root dml t txg d = Some (r, t', d') \<and> (\<exists>x. r = Inr x)"
proof -
  obtain r1 e d1 where x: "xlock_root (strict_dml dml) (tr_root t) txg d = Some (r1, e, d1)"
    using assms by (auto simp: xlock_and_merge_root_def run_simps)
  obtain m where m: "xlock_root dml (tr_root t) txg d = Some (Inr m, e, d1)" "r1 = Inr m" using xlock_root_strict[OF x] by blast
  show ?thesis using assms x m by (auto simp: xlock_and_merge_root_def run_simps split: if_split_asm dest: xlock_root_strict)
qed

lemma tree_remove_strict:
  "tree_remove (strict_dml dml) fuel t k txg d = Some (r, t', d') \<Longrightarrow> tree_remove dml fuel t k txg d = Some (r, t', d') \<and> (\<exists>x. r = Inr x)"
proof -
  assume g: "tree_remove (strict_dml dml) fuel t k txg d = Some (r, t', d')"
  then obtain r1 t1 d1 where x: "xlock_and_merge_root (strict_dml dml) t txg d = Some (r1, t1, d1)" by (auto simp: tree_remove_def run_simps)
  from merge_root_strict[OF x] obtain m where m: "xlock_and_merge_root dml t txg d = Some (Inr m, t1, d1)" "r1 = Inr m" by blast
  then obtain n2 where n2: "remove_no_fix (strict_dml dml) (tr_limits t1) fuel m k txg d1 = Some (r, n2, d')" "t' = t1\<lparr>tr_root := set_ptr (PMem n2) (tr_root t1)\<rparr>"
    using g x by (auto simp: tree_remove_def run_simps)
  show ?thesis using remove_strict[OF n2(1)] m n2(2) by (simp add: tree_remove_def)
qed

section \<open>Flushing\<close>

abbreviation only_full :: "'x result \<Rightarrow> bool" where
  "only_full r \<equiv> \<forall>e. r = Inl e \<longrightarrow> e = ENOSPC"

lemma put_strict: "dml_put (strict_dml dml) d n c txg = Some (r, d') \<Longrightarrow> dml_put dml d n c txg = Some (r, d') \<and> only_full r"
  by (simp add: strict_dml_def strict_put_Some)

lemma flush_strict:
  "flush_r (strict_dml dml) False vflush ic lc n txg d = Some (r, d') \<Longrightarrow> flush_r dml False vflush ic lc n txg d = Some (r, d') \<and> only_full r"
  "flush_children (strict_dml dml) False vflush ic lc es txg d = Some (rs, d') \<Longrightarrow>
     flush_children dml False vflush ic lc es txg d = Some (rs, d') \<and> only_full rs"
  "flush_elem (strict_dml dml) False vflush ic lc key txgs ptr txg d = Some (re, d') \<Longrightarrow>
     flush_elem dml False vflush ic lc key txgs ptr txg d = Some (re, d') \<and> only_full re"
proof (induction "strict_dml dml" False vflush ic lc n txg d and "strict_dml dml" False vflush ic lc es txg d
    and "strict_dml dml" False vflush ic lc key txgs ptr txg d
    arbitrary: r d' and rs d' and re d' rule: flush_r_flush_children_flush_elem.induct)
  case (1 vflush ic lc items txg d)
  then obtain r1 where p: "dml_put (strict_dml dml) d (LeafNode items) lc txg = Some (r1, d')"
      "r = (case r1 of Inl e \<Rightarrow> Inl e | Inr addr \<Rightarrow> Inr (addr, txgs_of txg))"
    by (auto simp: write_leaf_def leaf_flush_def run_simps)
  show ?case using put_strict[OF p(1)] p(2) by (auto simp: write_leaf_def leaf_flush_def split: sum.split_asm)
next
  case (2 vflush ic lc es txg d)
  then obtain r1 d1 where c: "flush_children (strict_dml dml) False vflush ic lc es txg d = Some (r1, d1)" by (auto simp: run_simps)
  from 2(1)[OF c] have c': "flush_children dml False vflush ic lc es txg d = Some (r1, d1)" "only_full r1" by simp_all
  show ?case
  proof (cases r1)
    case (Inl e)
    then show ?thesis using 2(2) c c' by auto
  next
    case (Inr es')
    then obtain s r2 where s: "int_start_txg es' = Some s" "dml_put (strict_dml dml) d1 (IntNode es') ic txg = Some (r2, d')"
        "r = (case r2 of Inl e \<Rightarrow> Inl e | Inr addr \<Rightarrow> Inr (addr, \<lparr>txg_start = s, txg_end = txg_add txg 1\<rparr>))"
      using 2(2) c by (auto simp: run_simps)
    show ?thesis using put_strict[OF s(2)] s(1,3) c' Inr by (auto split: sum.split_asm)
  qed
next
  case (4 vflush ic lc key txgs ptr es txg d)
  then obtain r1 d1 where c: "flush_elem (strict_dml dml) False vflush ic lc key txgs ptr txg d = Some (r1, d1)" by (auto simp: run_simps)
  from 4(1)[OF c] have c': "flush_elem dml False vflush ic lc key txgs ptr txg d = Some (r1, d1)" "only_full r1" by simp_all
  show ?case
  proof (cases r1)
    case (Inl e)
    then show ?thesis using 4(3) c c' by auto
  next
    case (Inr e')
    then obtain r2 where s: "flush_children (strict_dml dml) False vflush ic lc es txg d1 = Some (r2, d')"
        "rs = (case r2 of Inl e \<Rightarrow> Inl e | Inr elems \<Rightarrow> Inr (e' # elems))"
      using 4(3) c by (auto simp: run_simps)
    have "flush_children dml False vflush ic lc es txg d1 = Some (r2, d') \<and> only_full r2"
      using 4(2)[OF c refl Inr s(1)] .
    then show ?thesis using s(2) c' Inr by (auto split: sum.split_asm)
  qed
next
  case (5 vflush ic lc key txgs n txg d)
  then obtain r1 where c: "flush_r (strict_dml dml) False vflush ic lc n txg d = Some (r1, d')"
      "re = (case r1 of Inl e \<Rightarrow> Inl e | Inr (addr, txgs) \<Rightarrow> Inr (IntElem key txgs (PAddr addr)))" by (auto simp: run_simps)
  from 5(1)[OF c(1)] c(2) show ?case by (auto split: sum.split_asm)
qed auto

lemma tree_flush_strict:
  assumes "tree_flush (strict_dml dml) False vflush t txg d = Some (r, t', d')"
  shows "tree_flush dml False vflush t txg d = Some (r, t', d') \<and> only_full r"
proof (cases "ie_ptr (tr_root t)")
  case (PMem n)
  then obtain r1 d1 where f: "flush_r (strict_dml dml) False vflush (tr_int_compressor t) (tr_leaf_compressor t) n txg d = Some (r1, d1)"
    using assms by (auto simp: tree_flush_def xlock_root_def run_simps)
  show ?thesis
    using flush_strict(1)[OF f] f assms PMem by (cases r1) (auto simp: tree_flush_def xlock_root_def run_simps)
qed (use assms in \<open>auto simp: tree_flush_def\<close>)

end
