(* ===== verification/Ddml_Tree.thy ===== *)
theory Ddml_Tree
  imports Ddml_Correct Btree_Errors
begin

text \<open>
  Trees on the direct data management layer: the operations of a tree are those of a sorted map, whatever the cache evicts and
  whichever disk operations fail; a flushed tree can be opened again from what is on the disks.
\<close>

section \<open>Runs of operations\<close>

datatype ('k, 'v) TreeOp = TInsert 'k 'v TxgT | TGet 'k | TRemove 'k TxgT

fun tree_op ::
    "('d, 'a, ('a, 'k :: {linorder, order_bot}, 'v) NodeData) Dml \<Rightarrow> nat \<Rightarrow> ('k, 'v) TreeOp \<Rightarrow> ('a, 'k, 'v) Tree \<Rightarrow> 'd \<Rightarrow>
       ('v option result \<times> ('a, 'k, 'v) Tree \<times> 'd) option" where
  "tree_op dml fuel (TInsert k v txg) t d = tree_insert dml fuel t k v txg d"
| "tree_op dml fuel (TGet k) t d = do { (r, d) \<leftarrow> tree_get dml fuel t k d; Some (r, t, d) }"
| "tree_op dml fuel (TRemove k txg) t d = tree_remove dml fuel t k txg d"

fun tree_run ::
    "('d, 'a, ('a, 'k :: {linorder, order_bot}, 'v) NodeData) Dml \<Rightarrow> nat \<Rightarrow> ('k, 'v) TreeOp list \<Rightarrow> ('a, 'k, 'v) Tree \<Rightarrow> 'd \<Rightarrow>
       ('v option result list \<times> ('a, 'k, 'v) Tree \<times> 'd) option" where
  "tree_run dml fuel [] t d = Some ([], t, d)"
| "tree_run dml fuel (op # ops) t d = do {
     (r, t, d) \<leftarrow> tree_op dml fuel op t d;
     (rs, t, d) \<leftarrow> tree_run dml fuel ops t d;
     Some (r # rs, t, d)
   }"

text \<open>The specification: a sorted association list. An operation returns the value that the key had, or an error and has no effect.\<close>

fun op_key :: "('k, 'v) TreeOp \<Rightarrow> 'k" where
  "op_key (TInsert k v txg) = k"
| "op_key (TGet k) = k"
| "op_key (TRemove k txg) = k"

fun map_op :: "('k :: linorder, 'v) TreeOp \<Rightarrow> ('k \<times> 'v) list \<Rightarrow> ('k \<times> 'v) list" where
  "map_op (TInsert k v txg) m = bt_insert k v m"
| "map_op (TGet k) m = m"
| "map_op (TRemove k txg) m = bt_remove k m"

fun map_run :: "('k :: linorder \<times> 'v) list \<Rightarrow> ('k, 'v) TreeOp list \<Rightarrow> 'v option result list \<Rightarrow> ('k \<times> 'v) list \<Rightarrow> bool" where
  "map_run m [] [] m' \<longleftrightarrow> m' = m"
| "map_run m (op # ops) (Inl e # rs) m' \<longleftrightarrow> map_run m ops rs m'"
| "map_run m (op # ops) (Inr x # rs) m' \<longleftrightarrow> x = bt_get m (op_key op) \<and> map_run (map_op op m) ops rs m'"
| "map_run m _ _ m' \<longleftrightarrow> False"

lemma map_run_step: "map_outcome m (op_key op) (map_op op) r m1 \<Longrightarrow> map_run m1 ops rs m' \<Longrightarrow> map_run m (op # ops) (r # rs) m'"
  by (cases r) (simp_all add: map_outcome_def)

context tree_store
begin

lemma tree_op_ok:
  assumes "rep d L" "tree_wf L t" "2 * tr_height t \<le> fuel" "tr_height t < 2 ^ 63 - 1"
  shows "\<exists>r t' d' L'. tree_op dml fuel op t d = Some (r, t', d') \<and> rep d' L' \<and> tree_wf L' t' \<and> tr_height t' \<le> Suc (tr_height t) \<and>
    map_outcome (tree_items L t) (op_key op) (map_op op) r (tree_items L' t')"
proof (cases op)
  case (TInsert k v txg)
  obtain r t' d' L' where "tree_insert dml fuel t k v txg d = Some (r, t', d')" "rep d' L'" "tree_wf L' t'"
      "map_outcome (tree_items L t) k (bt_insert k v) r (tree_items L' t')" "tr_height t' \<in> {tr_height t, Suc (tr_height t)}"
    using insert_tree[OF assms, of k v txg] unfolding ins_tree_def by blast
  moreover have "map_op op = bt_insert k v" using TInsert by auto
  ultimately show ?thesis using TInsert by auto
next
  case (TGet k)
  have f: "tr_height t \<le> fuel" using assms(3) by simp
  obtain r d' where "tree_get dml fuel t k d = Some (r, d')" "rep d' L" "\<forall>x. r = Inr x \<longrightarrow> x = bt_get (tree_items L t) k"
    by (rule get_tree[OF assms(1,2) f])
  then show ?thesis using assms(2) TGet by (cases r) (auto simp: map_outcome_def)
next
  case (TRemove k txg)
  have f: "tr_height t \<le> fuel" using assms(3) by simp
  obtain r t' d' L' where "tree_remove dml fuel t k txg d = Some (r, t', d')" "rep d' L'" "tree_wf L' t'"
      "map_outcome (tree_items L t) k (bt_remove k) r (tree_items L' t')" "tr_height t' \<le> tr_height t"
    by (rule remove_tree[OF assms(1,2) f])
  moreover have "map_op op = bt_remove k" using TRemove by auto
  ultimately show ?thesis using TRemove by fastforce
qed

lemma tree_run_ok:
  assumes "rep d L" "tree_wf L t" "2 * (tr_height t + length ops) \<le> fuel" "tr_height t + length ops < 2 ^ 63 - 1"
  shows "\<exists>rs t' d' L'. tree_run dml fuel ops t d = Some (rs, t', d') \<and> rep d' L' \<and> tree_wf L' t' \<and>
    map_run (tree_items L t) ops rs (tree_items L' t')"
  using assms
proof (induction ops arbitrary: d L t)
  case Nil
  then show ?case by auto
next
  case (Cons op ops)
  obtain r t1 d1 L1 where 1: "tree_op dml fuel op t d = Some (r, t1, d1)" "rep d1 L1" "tree_wf L1 t1" "tr_height t1 \<le> Suc (tr_height t)"
      "map_outcome (tree_items L t) (op_key op) (map_op op) r (tree_items L1 t1)"
    using tree_op_ok[OF Cons.prems(1,2), of fuel op] Cons.prems(3,4) by auto
  obtain rs t2 d2 L2 where "tree_run dml fuel ops t1 d1 = Some (rs, t2, d2)" "rep d2 L2" "tree_wf L2 t2"
      "map_run (tree_items L1 t1) ops rs (tree_items L2 t2)"
    using Cons.IH[OF 1(2,3)] 1(4) Cons.prems(3,4) by auto
  then show ?case using 1(1) map_run_step[OF 1(5)] by auto
qed

end

lemma tree_op_strict:
  "tree_op (strict_dml dml) fuel op t d = Some (r, t', d') \<Longrightarrow> tree_op dml fuel op t d = Some (r, t', d') \<and> (\<exists>x. r = Inr x)"
  by (cases op) (auto simp: run_simps dest: tree_insert_strict tree_get_strict tree_remove_strict)

lemma tree_run_strict:
  "tree_run (strict_dml dml) fuel ops t d = Some (rs, t', d') \<Longrightarrow> tree_run dml fuel ops t d = Some (rs, t', d') \<and> (\<forall>r \<in> set rs. \<exists>x. r = Inr x)"
proof (induction ops arbitrary: t d rs)
  case (Cons op ops)
  then obtain r t1 d1 rs1 where 1: "tree_op (strict_dml dml) fuel op t d = Some (r, t1, d1)"
      "tree_run (strict_dml dml) fuel ops t1 d1 = Some (rs1, t', d')" "rs = r # rs1"
    by (auto simp: run_simps)
  show ?case using tree_op_strict[OF 1(1)] Cons.IH[OF 1(2)] 1(3) by simp
qed simp

section \<open>The layer without faults\<close>

locale ddml_tree = ddml_typed env fits deser R
  for env :: "((DRP, 'k :: {linorder, order_bot}, 'v) NodeData, 'h) DdmlEnv" and fits :: "(DRP, 'k, 'v) NodeData \<Rightarrow> bool"
    and deser :: "IoVec \<Rightarrow> (DRP, 'k, 'v) NodeData option" and R :: "CacheKey \<Rightarrow> (DRP, 'k, 'v) NodeData \<Rightarrow> bool"

sublocale ddml_tree \<subseteq> tree_store "ddml_dml deser env" "ddml_rep env fits R" fits
  by unfold_locales

definition quiet_rep :: "('n, 'h) DdmlEnv \<Rightarrow> ('n \<Rightarrow> bool) \<Rightarrow> (CacheKey \<Rightarrow> 'n \<Rightarrow> bool) \<Rightarrow> 'n DDML \<Rightarrow> (DRP \<rightharpoonup> 'n) \<Rightarrow> bool" where
  "quiet_rep env fits R d L \<longleftrightarrow> ddml_rep env fits R d L \<and> pool_quiet (dd_pool d)"

sublocale ddml_tree \<subseteq> quiet: tree_store "strict_dml (ddml_dml deser env)" "quiet_rep env fits R" fits
proof
  fix d L a n txg c
  note strict = quiet_rep_def ddml_dml_def strict_dml_def strict_Some strict_put_Some
  assume q: "quiet_rep env fits R d L"
  then have r: "ddml_rep env fits R d L" "pool_quiet (dd_pool d)" by (simp_all add: quiet_rep_def)
  show "L a = Some n \<Longrightarrow> \<exists>r d'. dml_get (strict_dml (ddml_dml deser env)) d a = Some (r, d') \<and> quiet_rep env fits R d' L \<and> (\<forall>n'. r = Inr n' \<longrightarrow> n' = n)"
    using ddml_get_law[OF r(1), of a n deser] held_deser[OF r(1), of a n] r(2) by (auto simp: strict)
  show "L a = Some n \<Longrightarrow> \<exists>r d' L'. dml_pop (strict_dml (ddml_dml deser env)) d a txg = Some (r, d') \<and>
        quiet_rep env fits R d' L' \<and> (case r of Inr n' \<Rightarrow> n' = n \<and> L' = L(a := None) | Inl _ \<Rightarrow> L' = L)"
    using ddml_pop_law[OF r(1), of a n deser txg] held_deser[OF r(1), of a n] r(2) by (auto simp: strict)
  show "L a = Some n \<Longrightarrow> \<exists>r d' L'. dml_delete (strict_dml (ddml_dml deser env)) d a txg = Some (r, d') \<and>
        quiet_rep env fits R d' L' \<and> (case r of Inr _ \<Rightarrow> L' = L(a := None) | Inl _ \<Rightarrow> L' = L)"
    using ddml_delete_law[OF r(1), of a n txg] r(2) by (auto simp: strict)
  show "fits n \<Longrightarrow> \<exists>r d' L'. dml_put (strict_dml (ddml_dml deser env)) d n c txg = Some (r, d') \<and>
        quiet_rep env fits R d' L' \<and> (case r of Inr a \<Rightarrow> L a = None \<and> L' = L(a \<mapsto> n) | Inl _ \<Rightarrow> L' = L)"
    using ddml_put_law[OF r(1), of n c txg] cacheable r(2) by (auto simp: strict)
qed

context ddml_tree
begin

lemma store: "tree_store (ddml_dml deser env) (ddml_rep env fits R) fits"
  by unfold_locales

lemma quiet_store: "tree_store (strict_dml (ddml_dml deser env)) (quiet_rep env fits R) fits"
  by unfold_locales

end

end
