(* ===== verification/Idml_Store.thy ===== *)
theory Idml_Store
  imports Idml Ddml_Tree
begin

text \<open>
  What the direct layer holds for the indirect layer: the nodes of the RIDT, those of the allocation table and the records of the
  user, at different addresses. Each tree sees its own nodes only, so that what is known of trees holds for both; the
  operations of \<open>IDML\<close> on its trees, its records and its cache then act on four maps.
\<close>

section \<open>Direct operations\<close>

context ddml_env
begin

lemma agrees_free:
  assumes "cache_agrees env fits R c L" "L drp = Some n" "inj_on drp_pba (dom L)" "\<not> R (KPBA (drp_pba drp)) n"
  shows "cache_agrees env fits R c (L(drp := None))"
proof -
  have "\<exists>drp'. drp_pba drp' = pba \<and> (L(drp := None)) drp' = Some m" if m: "cache_content c (KPBA pba) = Some m" for pba m
  proof -
    obtain drp' where d: "drp_pba drp' = pba" "L drp' = Some m" "R (KPBA pba) m" using assms(1) m unfolding cache_agrees_def by blast
    have "drp' \<noteq> drp" using d assms(2,4) by auto
    then show ?thesis using d by auto
  qed
  then show ?thesis using assms(1) by (simp add: cache_agrees_def)
qed

lemma agrees_grow: "cache_agrees env fits R c L \<Longrightarrow> L drp = None \<Longrightarrow> cache_agrees env fits R c (L(drp \<mapsto> n))"
  unfolding cache_agrees_def by (metis fun_upd_apply option.distinct(1))

lemma quiet_repI:
  "pool_holds env fits p live L \<Longrightarrow> cache_agrees env fits R c L \<Longrightarrow> pool_quiet p \<Longrightarrow> dd_pool d = p \<Longrightarrow> dd_cache d = c \<Longrightarrow> quiet_rep env fits R d L"
  by (auto simp: quiet_rep_def ddml_rep_def)

lemma get_direct_law:
  assumes "quiet_rep env fits R d L" "L drp = Some n" "deser (ev_ser env n) = Some n"
  shows "\<exists>d'. ddml_get_direct deser env d drp = Some (Inr n, d') \<and> quiet_rep env fits R d' L"
proof -
  obtain live where h: "pool_holds env fits (dd_pool d) live L" and c: "cache_agrees env fits R (dd_cache d) L" and q: "pool_quiet (dd_pool d)"
    using assms(1) by (auto simp: quiet_rep_def ddml_rep_def)
  obtain r p' where r: "ddml_read env d drp = Some (r, d\<lparr>dd_pool := p'\<rparr>)" "pool_holds env fits p' live L" "\<forall>raw. r = Inr raw \<longrightarrow> raw = ev_ser env n"
      "pool_quiet (dd_pool d) \<longrightarrow> pool_quiet p' \<and> (\<exists>raw. r = Inr raw)"
    by (rule read_spec[OF h assms(2)])
  then have "quiet_rep env fits R (d\<lparr>dd_pool := p'\<rparr>) L" using q c by (intro quiet_repI) simp_all
  then show ?thesis using r q assms(3) by (auto simp: ddml_get_direct_def)
qed

lemma delete_direct_law:
  assumes "quiet_rep env fits R d L" "L drp = Some n" "\<not> R (KPBA (drp_pba drp)) n"
  shows "\<exists>d'. ddml_delete_direct env d drp txg = Some (Inr (), d') \<and> quiet_rep env fits R d' (L(drp := None))"
proof -
  obtain live where h: "pool_holds env fits (dd_pool d) live L" and c: "cache_agrees env fits R (dd_cache d) L" and q: "pool_quiet (dd_pool d)"
    using assms(1) by (auto simp: quiet_rep_def ddml_rep_def)
  have ca: "cache_agrees env fits R (dd_cache d) (L(drp := None))"
    by (rule agrees_free[OF c assms(2) _ assms(3)]) (use h in \<open>simp add: pool_holds_def\<close>)
  obtain p' live' where f: "ddml_free env d drp = Some (Inr (), d\<lparr>dd_pool := p'\<rparr>)" "pool_holds env fits p' live' (L(drp := None))"
      "pool_quiet (dd_pool d) \<longrightarrow> pool_quiet p'"
    by (rule free_spec[OF h assms(2)])
  have "quiet_rep env fits R (d\<lparr>dd_pool := p'\<rparr>) (L(drp := None))" by (rule quiet_repI[OF f(2) ca]) (use f(3) q in simp_all)
  then show ?thesis using f(1) by (auto simp: ddml_delete_direct_def)
qed

lemma pop_direct_law:
  assumes "quiet_rep env fits R d L" "L drp = Some n" "deser (ev_ser env n) = Some n" "\<not> R (KPBA (drp_pba drp)) n"
  shows "\<exists>d'. ddml_pop_direct deser env d drp = Some (Inr n, d') \<and> quiet_rep env fits R d' (L(drp := None))"
proof -
  obtain live where h: "pool_holds env fits (dd_pool d) live L" and c: "cache_agrees env fits R (dd_cache d) L" and q: "pool_quiet (dd_pool d)"
    using assms(1) by (auto simp: quiet_rep_def ddml_rep_def)
  obtain r p' where r: "ddml_read env d drp = Some (r, d\<lparr>dd_pool := p'\<rparr>)" "pool_holds env fits p' live L" "\<forall>raw. r = Inr raw \<longrightarrow> raw = ev_ser env n"
      "pool_quiet (dd_pool d) \<longrightarrow> pool_quiet p' \<and> (\<exists>raw. r = Inr raw)"
    by (rule read_spec[OF h assms(2)])
  have "quiet_rep env fits R (d\<lparr>dd_pool := p'\<rparr>) L" using r(2,4) q c by (intro quiet_repI) simp_all
  then obtain d' where "ddml_free env (d\<lparr>dd_pool := p'\<rparr>) drp = Some (Inr (), d')" "quiet_rep env fits R d' (L(drp := None))"
    using delete_direct_law[of R "d\<lparr>dd_pool := p'\<rparr>" L drp n] assms(2,4) unfolding ddml_delete_direct_def by blast
  then show ?thesis using r q assms(3) by (auto simp: ddml_pop_direct_def)
qed

lemma put_direct_law:
  assumes "quiet_rep env fits R d L" "fits n"
  shows "\<exists>r d'. ddml_put_direct env d n c txg = Some (r, d') \<and>
    (case r of Inl e \<Rightarrow> e = ENOSPC \<and> quiet_rep env fits R d' L
     | Inr drp \<Rightarrow> quiet_rep env fits R d' (L(drp \<mapsto> n)) \<and> (\<forall>drp' \<in> dom L. drp_pba drp' \<noteq> drp_pba drp))"
proof -
  obtain live where h: "pool_holds env fits (dd_pool d) live L" and ca: "cache_agrees env fits R (dd_cache d) L" and q: "pool_quiet (dd_pool d)"
    using assms(1) by (auto simp: quiet_rep_def ddml_rep_def)
  obtain r p' live' where r: "ddml_put_common env d n c txg = Some (r, d\<lparr>dd_pool := p'\<rparr>)"
      "case r of Inl _ \<Rightarrow> pool_holds env fits p' live' L
       | Inr drp \<Rightarrow> pool_holds env fits p' live' (L(drp \<mapsto> n)) \<and> (\<forall>drp' \<in> dom L. drp_pba drp' \<noteq> drp_pba drp)"
      "pool_quiet (dd_pool d) \<longrightarrow> pool_quiet p' \<and> (\<forall>e. r = Inl e \<longrightarrow> e = ENOSPC)"
    by (rule put_spec[OF h assms(2)])
  show ?thesis
  proof (cases r)
    case (Inl e)
    then have "quiet_rep env fits R (d\<lparr>dd_pool := p'\<rparr>) L" using r(2,3) q ca by (intro quiet_repI) simp_all
    then show ?thesis using r q Inl by (simp add: ddml_put_direct_def)
  next
    case (Inr drp)
    have "L drp = None" using r(2) Inr by (cases "L drp") auto
    then have "cache_agrees env fits R (dd_cache d) (L(drp \<mapsto> n))" by (rule agrees_grow[OF ca])
    then have "quiet_rep env fits R (d\<lparr>dd_pool := p'\<rparr>) (L(drp \<mapsto> n))" using r(2,3) q Inr by (intro quiet_repI[where live = live']) simp_all
    then show ?thesis using r q Inr by (simp add: ddml_put_direct_def)
  qed
qed

end

section \<open>Views of the layer\<close>

text \<open>
  A client that sees the records of one type sees a data management layer: \<open>F\<close> adds the other records to its own, and \<open>P\<close> says that
  they are at different addresses.
\<close>

definition embeds :: "('m \<Rightarrow> 'n) \<Rightarrow> (('a \<rightharpoonup> 'm) \<Rightarrow> ('a \<rightharpoonup> 'n)) \<Rightarrow> (('a \<rightharpoonup> 'm) \<Rightarrow> bool) \<Rightarrow> bool" where
  "embeds wrap F P \<longleftrightarrow>
     (\<forall>L a m. P L \<longrightarrow> L a = Some m \<longrightarrow> F L a = Some (wrap m) \<and> F (L(a := None)) = (F L)(a := None) \<and> P (L(a := None))) \<and>
     (\<forall>L a m. P L \<longrightarrow> F L a = None \<longrightarrow> L a = None \<and> F (L(a \<mapsto> m)) = (F L)(a \<mapsto> wrap m) \<and> P (L(a \<mapsto> m)))"

lemma embedsD:
  assumes "embeds wrap F P" "P L"
  shows "L a = Some m \<Longrightarrow> F L a = Some (wrap m)" "L a = Some m \<Longrightarrow> F (L(a := None)) = (F L)(a := None)" "L a = Some m \<Longrightarrow> P (L(a := None))"
    "F L a = None \<Longrightarrow> L a = None" "F L a = None \<Longrightarrow> F (L(a \<mapsto> m)) = (F L)(a \<mapsto> wrap m)" "F L a = None \<Longrightarrow> P (L(a \<mapsto> m))"
  using assms by (simp_all add: embeds_def)

lemma view_result_wrap: "prj (wrap m) = Some m \<Longrightarrow> view_result prj (Some (Inr (wrap m), d)) = Some (Inr m, d)"
  by (simp add: view_result_def)

context ddml_env
begin

lemma view_laws:
  assumes prj: "\<And>m. prj (wrap m) = Some m" and deser: "\<And>m. fits (wrap m) \<Longrightarrow> deser (ev_ser env (wrap m)) = Some (wrap m)"
    and R: "\<And>pba m. R (KPBA pba) (wrap m)" and emb: "embeds wrap F P"
  shows "dml_laws (strict_dml (view_dml prj wrap (ddml_dml deser env))) (\<lambda>d L. quiet_rep env fits R d (F L) \<and> P L) (\<lambda>m. fits (wrap m))"
proof
  fix d L a m txg c
  note strict = ddml_dml_def strict_dml_def view_dml_def strict_Some strict_put_Some
  assume q: "quiet_rep env fits R d (F L) \<and> P L"
  then have r: "ddml_rep env fits R d (F L)" "pool_quiet (dd_pool d)" "P L" by (simp_all add: quiet_rep_def)
  note e = embedsD[OF emb r(3)]
  have ds: "deser (ev_ser env (wrap m)) = Some (wrap m)" if "L a = Some m"
    using e(1)[OF that] r(1) deser by (auto simp: ddml_rep_def pool_holds_def stored_def)
  show "\<exists>r d'. dml_get (strict_dml (view_dml prj wrap (ddml_dml deser env))) d a = Some (r, d') \<and>
      (quiet_rep env fits R d' (F L) \<and> P L) \<and> (\<forall>n'. r = Inr n' \<longrightarrow> n' = m)" if m: "L a = Some m"
  proof -
    obtain d' where "ddml_get deser env d a = Some (Inr (wrap m), d')" "quiet_rep env fits R d' (F L)"
      using ddml_get_law[of R d "F L" a "wrap m" deser] r(1) e(1)[OF m] ds[OF m] R[of "drp_pba a" m] r(2) by (auto simp: quiet_rep_def)
    then show ?thesis using r(3) by (auto simp: strict view_result_wrap[of prj wrap, OF prj])
  qed
  show "\<exists>r d' L'. dml_pop (strict_dml (view_dml prj wrap (ddml_dml deser env))) d a txg = Some (r, d') \<and>
      (quiet_rep env fits R d' (F L') \<and> P L') \<and> (case r of Inr n' \<Rightarrow> n' = m \<and> L' = L(a := None) | Inl _ \<Rightarrow> L' = L)" if m: "L a = Some m"
  proof -
    obtain d' where "ddml_pop deser env d a txg = Some (Inr (wrap m), d')" "quiet_rep env fits R d' (F (L(a := None)))"
      using ddml_pop_law[of R d "F L" a "wrap m" deser txg] r(1) e(1)[OF m] ds[OF m] r(2) e(2)[OF m] by (auto simp: quiet_rep_def)
    then show ?thesis using e(3)[OF m]
      by (intro exI[of _ "Inr m"] exI[of _ d'] exI[of _ "L(a := None)"]) (simp add: strict view_result_wrap[of prj wrap, OF prj] del: fun_upd_apply)
  qed
  show "\<exists>r d' L'. dml_delete (strict_dml (view_dml prj wrap (ddml_dml deser env))) d a txg = Some (r, d') \<and>
      (quiet_rep env fits R d' (F L') \<and> P L') \<and> (case r of Inr _ \<Rightarrow> L' = L(a := None) | Inl _ \<Rightarrow> L' = L)" if m: "L a = Some m"
  proof -
    obtain d' where "ddml_delete env d a txg = Some (Inr (), d')" "quiet_rep env fits R d' (F (L(a := None)))"
      using ddml_delete_law[of R d "F L" a "wrap m" txg] r(1) e(1)[OF m] r(2) e(2)[OF m] by (auto simp: quiet_rep_def)
    then show ?thesis using e(3)[OF m] by (intro exI[of _ "Inr ()"] exI[of _ d'] exI[of _ "L(a := None)"]) (simp add: strict del: fun_upd_apply)
  qed
  show "\<exists>r d' L'. dml_put (strict_dml (view_dml prj wrap (ddml_dml deser env))) d m c txg = Some (r, d') \<and>
      (quiet_rep env fits R d' (F L') \<and> P L') \<and> (case r of Inr a \<Rightarrow> L a = None \<and> L' = L(a \<mapsto> m) | Inl _ \<Rightarrow> L' = L)" if m: "fits (wrap m)"
  proof -
    obtain r1 d' L1 where p: "ddml_put env d (wrap m) c txg = Some (r1, d')" "ddml_rep env fits R d' L1"
        "case r1 of Inr drp \<Rightarrow> F L drp = None \<and> L1 = (F L)(drp \<mapsto> wrap m) | Inl _ \<Rightarrow> L1 = F L"
        "pool_quiet (dd_pool d) \<longrightarrow> pool_quiet (dd_pool d') \<and> (\<forall>e. r1 = Inl e \<longrightarrow> e = ENOSPC)"
      using ddml_put_law[OF r(1) m, of c txg] R by blast
    show ?thesis
    proof (cases r1)
      case (Inl x)
      then show ?thesis using p r by (intro exI[of _ r1] exI[of _ d'] exI[of _ L]) (simp add: strict quiet_rep_def)
    next
      case (Inr drp)
      then show ?thesis using p r e(4-6)[of drp] by (intro exI[of _ r1] exI[of _ d'] exI[of _ "L(drp \<mapsto> m)"]) (simp add: strict quiet_rep_def del: fun_upd_apply)
    qed
  qed
qed

end

section \<open>The records of the indirect layer\<close>

definition records :: "(DRP \<rightharpoonup> RidtNode) \<Rightarrow> (DRP \<rightharpoonup> AlloctNode) \<Rightarrow> (DRP \<rightharpoonup> 'u) \<Rightarrow> (DRP \<rightharpoonup> 'u IRecord)" where
  "records Sr Sa Su drp =
     (case Sr drp of Some n \<Rightarrow> Some (RNode n) | None \<Rightarrow> (case Sa drp of Some n \<Rightarrow> Some (ANode n) | None \<Rightarrow> map_option URec (Su drp)))"

definition apart :: "(DRP \<rightharpoonup> RidtNode) \<Rightarrow> (DRP \<rightharpoonup> AlloctNode) \<Rightarrow> (DRP \<rightharpoonup> 'u) \<Rightarrow> bool" where
  "apart Sr Sa Su \<longleftrightarrow> (\<forall>drp. (Sr drp = None \<or> Sa drp = None) \<and> (Sr drp = None \<or> Su drp = None) \<and> (Sa drp = None \<or> Su drp = None))"

lemma records_dom: "dom (records Sr Sa Su) = dom Sr \<union> dom Sa \<union> dom Su"
  by (auto simp: records_def dom_def split: option.splits)

lemma embeds_pointwise:
  assumes "\<And>b m. p b (Some m) \<Longrightarrow> f b (Some m) = Some (wrap m) \<and> f b None = None \<and> p b None"
    "\<And>b x m. p b x \<Longrightarrow> f b x = None \<Longrightarrow> x = None \<and> p b (Some m)"
  shows "embeds wrap (\<lambda>L b. f b (L b)) (\<lambda>L. \<forall>b. p b (L b))"
  unfolding embeds_def
proof (intro conjI allI impI)
  fix L a m assume p: "\<forall>b. p b (L b)"
  show "f a (L a) = Some (wrap m)" if "L a = Some m" using assms(1)[of a m] p that by metis
  show "(\<lambda>b. f b ((L(a := None)) b)) = (\<lambda>b. f b (L b))(a := None)" if "L a = Some m" using assms(1)[of a m] p that by (auto simp: fun_eq_iff) metis+
  show "p b ((L(a := None)) b)" if "L a = Some m" for b using assms(1)[of a m] p that by (metis fun_upd_apply)
  show "L a = None" if "f a (L a) = None" using assms(2) p that by blast
  show "(\<lambda>b. f b ((L(a \<mapsto> m)) b)) = (\<lambda>b. f b (L b))(a \<mapsto> wrap m)" if "f a (L a) = None"
    using assms(1)[of a m] assms(2)[of a "L a" m] p that by (auto simp: fun_eq_iff)
  show "p b ((L(a \<mapsto> m)) b)" if "f a (L a) = None" for b using assms(2)[of a "L a" m] p that by simp
qed

lemma embeds_records:
  "embeds RNode (\<lambda>Sr. records Sr Sa Su) (\<lambda>Sr. apart Sr Sa Su)"
  "embeds ANode (\<lambda>Sa. records Sr Sa Su) (\<lambda>Sa. apart Sr Sa Su)"
  "embeds URec (\<lambda>Su. records Sr Sa Su) (\<lambda>Su. apart Sr Sa Su)"
  unfolding records_def apart_def by (rule embeds_pointwise; auto split: option.splits)+

text \<open>By its identifier the cache holds a record of the user, by its address a node.\<close>

fun cached :: "(RID \<rightharpoonup> 'u) \<Rightarrow> CacheKey \<Rightarrow> 'u IRecord \<Rightarrow> bool" where
  "cached U (Rid rid) n \<longleftrightarrow> (\<exists>u. n = URec u \<and> U rid = Some u)"
| "cached U (KPBA pba) n \<longleftrightarrow> as_user n = None \<and> as_raw n = None"

text \<open>Of the encodings of the records, the layer relies on that they can be decoded.\<close>

locale idml_env = ddml_env "ie_env E" fits for E :: "('u, 'h) IdmlEnv" and fits :: "'u IRecord \<Rightarrow> bool" +
  assumes rdeser: "fits (RNode r) \<Longrightarrow> ie_rdeser E (ev_ser (ie_env E) (RNode r)) = Some r"
    and adeser: "fits (ANode a) \<Longrightarrow> ie_adeser E (ev_ser (ie_env E) (ANode a)) = Some a"
    and udeser: "fits (URec u) \<Longrightarrow> ie_udeser E (ev_ser (ie_env E) (URec u)) = Some u"
    and raw_ser: "ev_ser (ie_env E) (RawRec bs) = bs"

definition layer :: "('u, 'h) IdmlEnv \<Rightarrow> ('u IRecord \<Rightarrow> bool) \<Rightarrow> (RID \<rightharpoonup> 'u) \<Rightarrow> 'u IRecord DDML \<Rightarrow> (DRP \<rightharpoonup> RidtNode) \<Rightarrow> (DRP \<rightharpoonup> AlloctNode) \<Rightarrow> (DRP \<rightharpoonup> 'u) \<Rightarrow> bool" where
  "layer E fits U d Sr Sa Su \<longleftrightarrow> quiet_rep (ie_env E) fits (cached U) d (records Sr Sa Su) \<and> apart Sr Sa Su"

context idml_env
begin

lemma ridt_store: "tree_store (strict_dml (ridt_dml E)) (\<lambda>d Sr. layer E fits U d Sr Sa Su) (\<lambda>n. fits (RNode n))"
  unfolding tree_store_def ridt_dml_def layer_def
  by (rule view_laws[OF _ _ _ embeds_records(1)]) (simp_all add: rdeser)

lemma alloct_store: "tree_store (strict_dml (alloct_dml E)) (\<lambda>d Sa. layer E fits U d Sr Sa Su) (\<lambda>n. fits (ANode n))"
  unfolding tree_store_def alloct_dml_def layer_def
  by (rule view_laws[OF _ _ _ embeds_records(2)]) (simp_all add: adeser)

end

section \<open>Four maps\<close>

text \<open>
  \<open>U\<close>: the records that may be cached by their identifiers; \<open>Su\<close>: the records of the user at their addresses; \<open>rm\<close> and \<open>am\<close>: the RIDT and
  the allocation table; \<open>next\<close>: the next identifier; \<open>h\<close> bounds the heights of the trees.
\<close>

definition holds :: "('u, 'h) IdmlEnv \<Rightarrow> ('u IRecord \<Rightarrow> bool) \<Rightarrow> (RID \<rightharpoonup> 'u) \<Rightarrow> nat \<Rightarrow> nat \<Rightarrow> 'u IDML \<Rightarrow> (DRP \<rightharpoonup> 'u) \<Rightarrow> (RID \<rightharpoonup> RidtEntry) \<Rightarrow> (PBA \<rightharpoonup> RID) \<Rightarrow> bool" where
  "holds E fits U nxt h i Su rm am \<longleftrightarrow> id_next_rid i = nxt \<and> tr_height (id_ridt i) \<le> h \<and> tr_height (id_alloct i) \<le> h \<and>
     (\<exists>Sr Sa. layer E fits U (id_ddml i) Sr Sa Su \<and> tree_wf Sr (id_ridt i) \<and> tree_wf Sa (id_alloct i) \<and>
        bt_get (tree_items Sr (id_ridt i)) = rm \<and> bt_get (tree_items Sa (id_alloct i)) = am)"

lemma holdsE:
  assumes "holds E fits U nxt h i Su rm am"
  obtains Sr Sa where "layer E fits U (id_ddml i) Sr Sa Su" "tree_wf Sr (id_ridt i)" "tree_wf Sa (id_alloct i)"
    "bt_get (tree_items Sr (id_ridt i)) = rm" "bt_get (tree_items Sa (id_alloct i)) = am"
    "id_next_rid i = nxt" "tr_height (id_ridt i) \<le> h" "tr_height (id_alloct i) \<le> h"
  using assms by (auto simp: holds_def)

lemma holdsI:
  "layer E fits U (id_ddml i) Sr Sa Su \<Longrightarrow> tree_wf Sr (id_ridt i) \<Longrightarrow> tree_wf Sa (id_alloct i) \<Longrightarrow>
    bt_get (tree_items Sr (id_ridt i)) = rm \<Longrightarrow> bt_get (tree_items Sa (id_alloct i)) = am \<Longrightarrow>
    id_next_rid i = nxt \<Longrightarrow> tr_height (id_ridt i) \<le> h \<Longrightarrow> tr_height (id_alloct i) \<le> h \<Longrightarrow> holds E fits U nxt h i Su rm am"
  by (auto simp: holds_def)

lemma holds_mono:
  assumes "holds E fits U nxt h i Su rm am" "U \<subseteq>\<^sub>m U'" "h \<le> h'"
  shows "holds E fits U' nxt h' i Su rm am"
proof -
  have "cached U' k n" if "cached U k n" for k n using that assms(2) by (cases k) (auto simp: map_le_def dom_def)
  then have l: "layer E fits U' d Sr Sa Su" if "layer E fits U d Sr Sa Su" for d Sr Sa
    using that by (auto simp: layer_def quiet_rep_def ddml_rep_def cache_agrees_def)
  show ?thesis by (rule holdsE[OF assms(1)], rule holdsI) (use l assms(3) in auto)
qed

lemma bt_get_upds: "bt_get (bt_insert k v m) = (bt_get m)(k \<mapsto> v)" "bt_get (bt_remove k m) = (bt_get m)(k := None)"
  by (simp_all add: fun_eq_iff bt_get_insert bt_get_remove)

text \<open>The operations of a tree, without faults.\<close>

lemma quiet_tree_op:
  assumes "tree_store (strict_dml dml) rep fits" "rep d L" "tree_wf L t" "tr_height t < 2 ^ 63 - 1"
  shows "\<exists>t' d' L'. tree_op dml (2 * tr_height t) op t d = Some (Inr (bt_get (tree_items L t) (op_key op)), t', d') \<and> rep d' L' \<and> tree_wf L' t' \<and>
    tr_height t' \<le> Suc (tr_height t) \<and> tree_items L' t' = map_op op (tree_items L t)"
proof -
  obtain r t' d' L' where o: "tree_op (strict_dml dml) (2 * tr_height t) op t d = Some (r, t', d')" "rep d' L'" "tree_wf L' t'"
      "tr_height t' \<le> Suc (tr_height t)" "map_outcome (tree_items L t) (op_key op) (map_op op) r (tree_items L' t')"
    using tree_store.tree_op_ok[OF assms(1-3) order_refl assms(4), of op] by blast
  obtain x where x: "tree_op dml (2 * tr_height t) op t d = Some (Inr x, t', d')" "r = Inr x" using tree_op_strict[OF o(1)] by blast
  show ?thesis using o(2-5) x by (auto simp: map_outcome_def)
qed

context idml_env
begin

lemma ridt_op:
  assumes "holds E fits U nxt h i Su rm am" "h < 2 ^ 63 - 1"
  shows "\<exists>t' d'. tree_op (ridt_dml E) (tree_fuel (id_ridt i)) op (id_ridt i) (id_ddml i) = Some (Inr (rm (op_key op)), t', d') \<and>
    holds E fits U nxt (Suc h) (i\<lparr>id_ddml := d', id_ridt := t'\<rparr>) Su
      (case op of TInsert k v _ \<Rightarrow> rm(k \<mapsto> v) | TGet _ \<Rightarrow> rm | TRemove k _ \<Rightarrow> rm(k := None)) am"
proof -
  obtain Sr Sa where s: "layer E fits U (id_ddml i) Sr Sa Su" "tree_wf Sr (id_ridt i)" "tree_wf Sa (id_alloct i)"
    "bt_get (tree_items Sr (id_ridt i)) = rm" "bt_get (tree_items Sa (id_alloct i)) = am"
    "id_next_rid i = nxt" "tr_height (id_ridt i) \<le> h" "tr_height (id_alloct i) \<le> h"
    by (rule holdsE[OF assms(1)])
  have h: "tr_height (id_ridt i) < 2 ^ 63 - 1" using s(7) assms(2) by simp
  obtain t' d' Sr' where o: "tree_op (ridt_dml E) (tree_fuel (id_ridt i)) op (id_ridt i) (id_ddml i) = Some (Inr (rm (op_key op)), t', d')"
      "layer E fits U d' Sr' Sa Su" "tree_wf Sr' t'" "tr_height t' \<le> Suc (tr_height (id_ridt i))" "tree_items Sr' t' = map_op op (tree_items Sr (id_ridt i))"
    using quiet_tree_op[OF ridt_store s(1,2) h, of op] unfolding tree_fuel_def s(4) by blast
  have "bt_get (tree_items Sr' t') = (case op of TInsert k v _ \<Rightarrow> rm(k \<mapsto> v) | TGet _ \<Rightarrow> rm | TRemove k _ \<Rightarrow> rm(k := None))"
    unfolding o(5) s(4)[symmetric] by (cases op) (simp_all add: bt_get_upds)
  then have "holds E fits U nxt (Suc h) (i\<lparr>id_ddml := d', id_ridt := t'\<rparr>) Su (case op of TInsert k v _ \<Rightarrow> rm(k \<mapsto> v) | TGet _ \<Rightarrow> rm | TRemove k _ \<Rightarrow> rm(k := None)) am"
    using o s by (intro holdsI[where Sr = Sr' and Sa = Sa]) simp_all
  then show ?thesis using o(1) by blast
qed

lemma alloct_op:
  assumes "holds E fits U nxt h i Su rm am" "h < 2 ^ 63 - 1"
  shows "\<exists>t' d'. tree_op (alloct_dml E) (tree_fuel (id_alloct i)) op (id_alloct i) (id_ddml i) = Some (Inr (am (op_key op)), t', d') \<and>
    holds E fits U nxt (Suc h) (i\<lparr>id_ddml := d', id_alloct := t'\<rparr>) Su rm
      (case op of TInsert k v _ \<Rightarrow> am(k \<mapsto> v) | TGet _ \<Rightarrow> am | TRemove k _ \<Rightarrow> am(k := None))"
proof -
  obtain Sr Sa where s: "layer E fits U (id_ddml i) Sr Sa Su" "tree_wf Sr (id_ridt i)" "tree_wf Sa (id_alloct i)"
    "bt_get (tree_items Sr (id_ridt i)) = rm" "bt_get (tree_items Sa (id_alloct i)) = am"
    "id_next_rid i = nxt" "tr_height (id_ridt i) \<le> h" "tr_height (id_alloct i) \<le> h"
    by (rule holdsE[OF assms(1)])
  have h: "tr_height (id_alloct i) < 2 ^ 63 - 1" using s(8) assms(2) by simp
  obtain t' d' Sa' where o: "tree_op (alloct_dml E) (tree_fuel (id_alloct i)) op (id_alloct i) (id_ddml i) = Some (Inr (am (op_key op)), t', d')"
      "layer E fits U d' Sr Sa' Su" "tree_wf Sa' t'" "tr_height t' \<le> Suc (tr_height (id_alloct i))" "tree_items Sa' t' = map_op op (tree_items Sa (id_alloct i))"
    using quiet_tree_op[OF alloct_store s(1,3) h, of op] unfolding tree_fuel_def s(5) by blast
  have "bt_get (tree_items Sa' t') = (case op of TInsert k v _ \<Rightarrow> am(k \<mapsto> v) | TGet _ \<Rightarrow> am | TRemove k _ \<Rightarrow> am(k := None))"
    unfolding o(5) s(5)[symmetric] by (cases op) (simp_all add: bt_get_upds)
  then have "holds E fits U nxt (Suc h) (i\<lparr>id_ddml := d', id_alloct := t'\<rparr>) Su rm (case op of TInsert k v _ \<Rightarrow> am(k \<mapsto> v) | TGet _ \<Rightarrow> am | TRemove k _ \<Rightarrow> am(k := None))"
    using o s by (intro holdsI[where Sr = Sr and Sa = Sa']) simp_all
  then show ?thesis using o(1) by blast
qed

lemma ridt_get_ok:
  assumes "holds E fits U nxt h i Su rm am" "h < 2 ^ 63 - 1"
  shows "\<exists>i'. ridt_get E i rid = Some (Inr (rm rid), i') \<and> holds E fits U nxt (Suc h) i' Su rm am"
  using ridt_op[OF assms, of "TGet rid"] by (auto simp: ridt_get_def bind_eq_Some_conv)

lemma ridt_insert_ok:
  assumes "holds E fits U nxt h i Su rm am" "h < 2 ^ 63 - 1"
  shows "\<exists>i'. ridt_insert E i rid e txg = Some (Inr (rm rid), i') \<and> holds E fits U nxt (Suc h) i' Su (rm(rid \<mapsto> e)) am"
  using ridt_op[OF assms, of "TInsert rid e txg"] by (auto simp: ridt_insert_def)

lemma ridt_remove_ok:
  assumes "holds E fits U nxt h i Su rm am" "h < 2 ^ 63 - 1"
  shows "\<exists>i'. ridt_remove E i rid txg = Some (Inr (rm rid), i') \<and> holds E fits U nxt (Suc h) i' Su (rm(rid := None)) am"
  using ridt_op[OF assms, of "TRemove rid txg"] by (auto simp: ridt_remove_def)

lemma alloct_insert_ok:
  assumes "holds E fits U nxt h i Su rm am" "h < 2 ^ 63 - 1"
  shows "\<exists>i'. alloct_insert E i pba rid txg = Some (Inr (am pba), i') \<and> holds E fits U nxt (Suc h) i' Su rm (am(pba \<mapsto> rid))"
  using alloct_op[OF assms, of "TInsert pba rid txg"] by (auto simp: alloct_insert_def)

lemma alloct_remove_ok:
  assumes "holds E fits U nxt h i Su rm am" "h < 2 ^ 63 - 1"
  shows "\<exists>i'. alloct_remove E i pba txg = Some (Inr (am pba), i') \<and> holds E fits U nxt (Suc h) i' Su rm (am(pba := None))"
  using alloct_op[OF assms, of "TRemove pba txg"] by (auto simp: alloct_remove_def)

text \<open>The records of the user.\<close>

lemma on_ddml_ok:
  assumes "holds E fits U nxt h i Su rm am"
    "\<And>Sr Sa. layer E fits U (id_ddml i) Sr Sa Su \<Longrightarrow> \<exists>d'. f (id_ddml i) = Some (r, d') \<and> layer E fits U' d' Sr Sa Su'"
  shows "\<exists>i'. on_ddml f i = Some (r, i') \<and> holds E fits U' nxt h i' Su' rm am"
proof -
  obtain Sr Sa where s: "layer E fits U (id_ddml i) Sr Sa Su" "tree_wf Sr (id_ridt i)" "tree_wf Sa (id_alloct i)"
    "bt_get (tree_items Sr (id_ridt i)) = rm" "bt_get (tree_items Sa (id_alloct i)) = am"
    "id_next_rid i = nxt" "tr_height (id_ridt i) \<le> h" "tr_height (id_alloct i) \<le> h"
    by (rule holdsE[OF assms(1)])
  obtain d' where "f (id_ddml i) = Some (r, d')" "layer E fits U' d' Sr Sa Su'" using assms(2)[OF s(1)] by blast
  moreover from this have "holds E fits U' nxt h (i\<lparr>id_ddml := d'\<rparr>) Su' rm am" using s by (intro holdsI) simp_all
  ultimately show ?thesis by (simp add: on_ddml_def)
qed

lemma layer_user:
  assumes "layer E fits U d Sr Sa Su" "Su drp = Some u"
  shows "quiet_rep (ie_env E) fits (cached U) d (records Sr Sa Su)" "records Sr Sa Su drp = Some (URec u)"
    "user_deser E (ev_ser (ie_env E) (URec u)) = Some (URec u)" "\<not> cached U (KPBA pba) (URec u)"
    "quiet_rep (ie_env E) fits (cached U) d' ((records Sr Sa Su)(drp := None)) \<Longrightarrow> layer E fits U d' Sr Sa (Su(drp := None))"
proof -
  show q: "quiet_rep (ie_env E) fits (cached U) d (records Sr Sa Su)" using assms(1) by (simp add: layer_def)
  have a: "apart Sr Sa Su" using assms(1) by (simp add: layer_def)
  note e = embedsD[OF embeds_records(3) a]
  show r: "records Sr Sa Su drp = Some (URec u)" using e(1)[OF assms(2)] .
  show "user_deser E (ev_ser (ie_env E) (URec u)) = Some (URec u)"
    using q r udeser by (auto simp: quiet_rep_def ddml_rep_def pool_holds_def stored_def user_deser_def)
  show "\<not> cached U (KPBA pba) (URec u)" by simp
  show "layer E fits U d' Sr Sa (Su(drp := None))" if "quiet_rep (ie_env E) fits (cached U) d' ((records Sr Sa Su)(drp := None))"
    using that e(2,3)[OF assms(2)] by (simp add: layer_def del: fun_upd_apply)
qed

lemma user_get_ok:
  assumes "holds E fits U nxt h i Su rm am" "Su drp = Some u"
  shows "\<exists>i'. on_ddml (\<lambda>d. ddml_get_direct (user_deser E) (ie_env E) d drp) i = Some (Inr (URec u), i') \<and> holds E fits U nxt h i' Su rm am"
proof (rule on_ddml_ok[OF assms(1)])
  fix Sr Sa assume l: "layer E fits U (id_ddml i) Sr Sa Su"
  note u = layer_user[OF l assms(2)]
  show "\<exists>d'. ddml_get_direct (user_deser E) (ie_env E) (id_ddml i) drp = Some (Inr (URec u), d') \<and> layer E fits U d' Sr Sa Su"
    using get_direct_law[of "cached U" "id_ddml i" "records Sr Sa Su" drp "URec u" "user_deser E", OF u(1-3)] l by (auto simp: layer_def)
qed

lemma user_pop_ok:
  assumes "holds E fits U nxt h i Su rm am" "Su drp = Some u"
  shows "\<exists>i'. on_ddml (\<lambda>d. ddml_pop_direct (user_deser E) (ie_env E) d drp) i = Some (Inr (URec u), i') \<and> holds E fits U nxt h i' (Su(drp := None)) rm am"
proof (rule on_ddml_ok[OF assms(1)])
  fix Sr Sa assume l: "layer E fits U (id_ddml i) Sr Sa Su"
  note u = layer_user[OF l assms(2)]
  show "\<exists>d'. ddml_pop_direct (user_deser E) (ie_env E) (id_ddml i) drp = Some (Inr (URec u), d') \<and> layer E fits U d' Sr Sa (Su(drp := None))"
    using pop_direct_law[of "cached U" "id_ddml i" "records Sr Sa Su" drp "URec u" "user_deser E", OF u(1-4)] u(5) by blast
qed

lemma user_delete_direct_ok:
  assumes "holds E fits U nxt h i Su rm am" "Su drp = Some u"
  shows "\<exists>i'. on_ddml (\<lambda>d. ddml_delete_direct (ie_env E) d drp txg) i = Some (Inr (), i') \<and> holds E fits U nxt h i' (Su(drp := None)) rm am"
proof (rule on_ddml_ok[OF assms(1)])
  fix Sr Sa assume l: "layer E fits U (id_ddml i) Sr Sa Su"
  note u = layer_user[OF l assms(2)]
  show "\<exists>d'. ddml_delete_direct (ie_env E) (id_ddml i) drp txg = Some (Inr (), d') \<and> layer E fits U d' Sr Sa (Su(drp := None))"
    using delete_direct_law[OF u(1,2,4)] u(5) by blast
qed

lemma user_delete_ok:
  assumes "holds E fits U nxt h i Su rm am" "Su drp = Some u"
  shows "\<exists>i'. on_ddml (\<lambda>d. ddml_delete (ie_env E) d drp txg) i = Some (Inr (), i') \<and> holds E fits U nxt h i' (Su(drp := None)) rm am"
proof (rule on_ddml_ok[OF assms(1)])
  fix Sr Sa assume l: "layer E fits U (id_ddml i) Sr Sa Su"
  note u = layer_user[OF l assms(2)]
  have r: "ddml_rep (ie_env E) fits (cached U) (id_ddml i) (records Sr Sa Su)" "pool_quiet (dd_pool (id_ddml i))" using u(1) by (simp_all add: quiet_rep_def)
  show "\<exists>d'. ddml_delete (ie_env E) (id_ddml i) drp txg = Some (Inr (), d') \<and> layer E fits U d' Sr Sa (Su(drp := None))"
    using ddml_delete_law[OF r(1) u(2), of txg] r(2) u(5) by (auto simp: quiet_rep_def)
qed

lemma user_put_ok:
  assumes "holds E fits U nxt h i Su rm am" "fits (URec u)"
  shows "\<exists>r i'. on_ddml (\<lambda>d. ddml_put_direct (ie_env E) d (URec u) c txg) i = Some (r, i') \<and>
    (case r of Inl e \<Rightarrow> e = ENOSPC \<and> holds E fits U nxt h i' Su rm am
     | Inr drp \<Rightarrow> (\<forall>drp' \<in> dom Su. drp_pba drp' \<noteq> drp_pba drp) \<and> holds E fits U nxt h i' (Su(drp \<mapsto> u)) rm am)"
proof -
  obtain Sr Sa where s: "layer E fits U (id_ddml i) Sr Sa Su" "tree_wf Sr (id_ridt i)" "tree_wf Sa (id_alloct i)"
    "bt_get (tree_items Sr (id_ridt i)) = rm" "bt_get (tree_items Sa (id_alloct i)) = am"
    "id_next_rid i = nxt" "tr_height (id_ridt i) \<le> h" "tr_height (id_alloct i) \<le> h"
    by (rule holdsE[OF assms(1)])
  have l: "quiet_rep (ie_env E) fits (cached U) (id_ddml i) (records Sr Sa Su)" "apart Sr Sa Su" using s(1) by (simp_all add: layer_def)
  obtain r d' where r: "ddml_put_direct (ie_env E) (id_ddml i) (URec u) c txg = Some (r, d')"
      "case r of Inl e \<Rightarrow> e = ENOSPC \<and> quiet_rep (ie_env E) fits (cached U) d' (records Sr Sa Su)
       | Inr drp \<Rightarrow> quiet_rep (ie_env E) fits (cached U) d' ((records Sr Sa Su)(drp \<mapsto> URec u)) \<and> (\<forall>drp' \<in> dom (records Sr Sa Su). drp_pba drp' \<noteq> drp_pba drp)"
    using put_direct_law[OF l(1) assms(2)] by blast
  show ?thesis
  proof (cases r)
    case (Inl e)
    then have "holds E fits U nxt h (i\<lparr>id_ddml := d'\<rparr>) Su rm am" using r s l(2) by (intro holdsI) (simp_all add: layer_def)
    then show ?thesis using r Inl by (simp add: on_ddml_def)
  next
    case (Inr drp)
    then have q: "quiet_rep (ie_env E) fits (cached U) d' ((records Sr Sa Su)(drp \<mapsto> URec u))" "\<forall>drp' \<in> dom (records Sr Sa Su). drp_pba drp' \<noteq> drp_pba drp"
      using r(2) by simp_all
    then have "records Sr Sa Su drp = None" by (cases "records Sr Sa Su drp") auto
    from embedsD(5,6)[OF embeds_records(3) l(2) this] have "layer E fits U d' Sr Sa (Su(drp \<mapsto> u))" using q(1) by (simp add: layer_def del: fun_upd_apply)
    then have "holds E fits U nxt h (i\<lparr>id_ddml := d'\<rparr>) (Su(drp \<mapsto> u)) rm am" using s by (intro holdsI) simp_all
    then show ?thesis using r(1) q(2) Inr by (simp add: on_ddml_def records_dom)
  qed
qed

text \<open>The cache of the records by their identifiers.\<close>

lemma holds_cache:
  assumes "holds E fits U nxt h i Su rm am"
    "\<And>L. cache_agrees (ie_env E) fits (cached U) (dd_cache (id_ddml i)) L \<Longrightarrow> cache_agrees (ie_env E) fits (cached U') c L"
  shows "holds E fits U' nxt h (i\<lparr>id_ddml := (id_ddml i)\<lparr>dd_cache := c\<rparr>\<rparr>) Su rm am"
proof -
  have "layer E fits U' ((id_ddml i)\<lparr>dd_cache := c\<rparr>) Sr Sa Su" if "layer E fits U (id_ddml i) Sr Sa Su" for Sr Sa
    using that assms(2) by (auto simp: layer_def quiet_rep_def ddml_rep_def)
  note l = this
  show ?thesis by (rule holdsE[OF assms(1)], rule holdsI) (use l in auto)
qed

lemma holds_agrees:
  assumes "holds E fits U nxt h i Su rm am"
  obtains L where "cache_agrees (ie_env E) fits (cached U) (dd_cache (id_ddml i)) L"
  by (rule holdsE[OF assms]) (use that in \<open>auto simp: layer_def quiet_rep_def ddml_rep_def\<close>)

lemma cached_hit:
  assumes "holds E fits U nxt h i Su rm am" "cache_content (dd_cache (id_ddml i)) (Rid rid) = Some n"
  shows "\<exists>u. n = URec u \<and> U rid = Some u"
proof -
  obtain L where "cache_agrees (ie_env E) fits (cached U) (dd_cache (id_ddml i)) L" by (rule holds_agrees[OF assms(1)])
  then have "cached U (Rid rid) n" using assms(2) unfolding cache_agrees_def by blast
  then show ?thesis by simp
qed

lemma rid_cache_get_ok:
  assumes "holds E fits U nxt h i Su rm am"
  shows "\<exists>v i'. rid_cache_get i rid = Some (v, i') \<and> holds E fits U nxt h i' Su rm am \<and>
    (case v of Some n \<Rightarrow> \<exists>u. n = URec u \<and> U rid = Some u | None \<Rightarrow> holds E fits (U(rid := None)) nxt h i' Su rm am)"
proof -
  let ?c = "dd_cache (id_ddml i)"
  obtain L where L: "cache_agrees (ie_env E) fits (cached U) ?c L" by (rule holds_agrees[OF assms])
  obtain c' where c': "cache_get Some (Rid rid) ?c = Some (cache_content ?c (Rid rid), c')" "cache_content c' = cache_content ?c"
    by (rule agrees_get[OF L])
  have all: "cache_agrees (ie_env E) fits R c' L" if "cache_agrees (ie_env E) fits R ?c L" for R L
    by (rule agrees_get[OF that, of "Rid rid"]) (use c'(1) in auto)
  let ?i = "i\<lparr>id_ddml := (id_ddml i)\<lparr>dd_cache := c'\<rparr>\<rparr>"
  have h: "holds E fits U nxt h ?i Su rm am" by (rule holds_cache[OF assms all])
  have g: "rid_cache_get i rid = Some (cache_content ?c (Rid rid), ?i)" using c'(1) by (simp add: rid_cache_get_def)
  show ?thesis
  proof (cases "cache_content ?c (Rid rid)")
    case None
    have "cached (U(rid := None)) k n" if "cache_content ?c k = Some n" "cached U k n" for k n
      using that None by (cases k) auto
    then have "holds E fits (U(rid := None)) nxt h ?i Su rm am"
      by (intro holds_cache[OF assms]) (frule all, auto simp: cache_agrees_def c'(2))
    then show ?thesis using g h None by simp
  next
    case (Some n)
    then show ?thesis using g h cached_hit[OF assms Some] by simp
  qed
qed

lemma rid_cache_remove_ok:
  assumes "holds E fits U nxt h i Su rm am"
  shows "\<exists>v i'. rid_cache_remove E i rid = Some (v, i') \<and> holds E fits (U(rid := None)) nxt h i' Su rm am \<and> (\<forall>n. v = Some n \<longrightarrow> (\<exists>u. n = URec u \<and> U rid = Some u))"
proof -
  let ?c = "dd_cache (id_ddml i)"
  obtain L where L: "cache_agrees (ie_env E) fits (cached U) ?c L" by (rule holds_agrees[OF assms])
  obtain c' where c': "cache_remove (ev_len (ie_env E)) (Rid rid) ?c = Some (cache_content ?c (Rid rid), c')" "cache_ok (ev_len (ie_env E)) c'"
      "cache_content c' = (cache_content ?c)(Rid rid := None)" "(\<lambda>b. ev_len (ie_env E) b \<le> ca_capacity c') = (\<lambda>b. ev_len (ie_env E) b \<le> ca_capacity ?c)"
    using bc.remove_ok[of "ev_len (ie_env E)" ?c "Rid rid"] L unfolding cache_agrees_def by blast
  have cap: "ev_len (ie_env E) n \<le> ca_capacity c' \<longleftrightarrow> ev_len (ie_env E) n \<le> ca_capacity ?c" for n using fun_cong[OF c'(4)] .
  have "cached (U(rid := None)) k n" if "cache_content c' k = Some n" "cached U k n" for k n
    using that c'(3) by (cases k) (auto split: if_splits)
  then have "holds E fits (U(rid := None)) nxt h (i\<lparr>id_ddml := (id_ddml i)\<lparr>dd_cache := c'\<rparr>\<rparr>) Su rm am"
    using c'(2,3) cap by (intro holds_cache[OF assms]) (auto simp: cache_agrees_def split: if_splits)
  then show ?thesis using c'(1) cached_hit[OF assms] by (auto simp: rid_cache_remove_def)
qed

lemma rid_cache_insert_ok:
  assumes "holds E fits U nxt h i Su rm am" "fits (URec u)" "U rid = None"
  shows "\<exists>i'. rid_cache_insert E i rid (URec u) = Some i' \<and> holds E fits (U(rid \<mapsto> u)) nxt h i' Su rm am"
proof -
  let ?c = "dd_cache (id_ddml i)"
  obtain L where L: "cache_agrees (ie_env E) fits (cached U) ?c L" by (rule holds_agrees[OF assms(1)])
  have "cache_content ?c (Rid rid) = None" using cached_hit[OF assms(1), of rid] assms(3) by (cases "cache_content ?c (Rid rid)") fastforce+
  then obtain c' where c': "cache_insert (ev_len (ie_env E)) (=) (Rid rid) (URec u) ?c = Some c'" "cache_ok (ev_len (ie_env E)) c'"
      "cache_content c' \<subseteq>\<^sub>m (cache_content ?c)(Rid rid \<mapsto> URec u)" "(\<lambda>b. ev_len (ie_env E) b \<le> ca_capacity c') = (\<lambda>b. ev_len (ie_env E) b \<le> ca_capacity ?c)"
    using bc.put_ok[of "ev_len (ie_env E)" ?c "URec u" "Rid rid"] L assms(2) unfolding cache_agrees_def by blast
  have cap: "ev_len (ie_env E) n \<le> ca_capacity c' \<longleftrightarrow> ev_len (ie_env E) n \<le> ca_capacity ?c" for n using fun_cong[OF c'(4)] .
  have in_c: "((cache_content ?c)(Rid rid \<mapsto> URec u)) k = Some n" if "cache_content c' k = Some n" for k n
    using c'(3) that unfolding map_le_def by (metis domI)
  have "cache_content ?c (KPBA pba) = Some n" if "cache_content c' (KPBA pba) = Some n" for pba n
    using in_c[OF that] by simp
  moreover have "cached (U(rid \<mapsto> u)) k n" if a: "cache_content c' k = Some n" "\<forall>k n. cache_content ?c k = Some n \<longrightarrow> cached U k n" for k n
  proof (cases "k = Rid rid")
    case True
    then show ?thesis using in_c[OF a(1)] by simp
  next
    case False
    then have "cached U k n" using in_c[OF a(1)] a(2) by simp
    then show ?thesis using False by (cases k) auto
  qed
  ultimately have "holds E fits (U(rid \<mapsto> u)) nxt h (i\<lparr>id_ddml := (id_ddml i)\<lparr>dd_cache := c'\<rparr>\<rparr>) Su rm am"
    using c'(2) cap by (intro holds_cache[OF assms(1)]) (simp add: cache_agrees_def)
  then show ?thesis using c'(1) by (simp add: rid_cache_insert_def)
qed

end

end
