(* ===== verification/Idml_Ops.thy ===== *)
theory Idml_Ops
  imports Idml_Store
begin

text \<open>
  The invariant of the indirect data management layer: the RIDT and the allocation table are inverse to each other, and every record
  that is stored has an identifier. Each operation keeps it and acts on a map from record identifiers to records with reference counts.
\<close>

section \<open>The invariant\<close>

text \<open>
  \<open>M\<close> is what the layer promises. Every entry of the RIDT points to the record, and the allocation table maps its address back; every other entry of
  the allocation table is stale: it is for an address of \<open>X\<close>.
\<close>

definition consistent ::
    "PBA set \<Rightarrow> (RID \<rightharpoonup> 'u \<times> nat) \<Rightarrow> nat \<Rightarrow> (DRP \<rightharpoonup> 'u) \<Rightarrow> (RID \<rightharpoonup> RidtEntry) \<Rightarrow> (PBA \<rightharpoonup> RID) \<Rightarrow> bool" where
  "consistent X M nxt Su rm am \<longleftrightarrow>
     (\<forall>rid. rm rid = None \<longleftrightarrow> M rid = None) \<and>
     (\<forall>rid e. rm rid = Some e \<longrightarrow> 0 < re_refcount e \<and> re_refcount e < 2 ^ 64 \<and> rid < nxt \<and> am (drp_pba (re_drp e)) = Some rid \<and>
        (\<exists>u. Su (re_drp e) = Some u \<and> M rid = Some (u, re_refcount e))) \<and>
     (\<forall>pba rid. am pba = Some rid \<longrightarrow> pba \<in> X \<or> (\<exists>e. rm rid = Some e \<and> drp_pba (re_drp e) = pba)) \<and>
     (\<forall>drp u. Su drp = Some u \<longrightarrow> (\<exists>rid e. rm rid = Some e \<and> re_drp e = drp))"

definition idml_rep :: "('u, 'h) IdmlEnv \<Rightarrow> ('u IRecord \<Rightarrow> bool) \<Rightarrow> PBA set \<Rightarrow> nat \<Rightarrow> 'u IDML \<Rightarrow> (RID \<rightharpoonup> 'u \<times> nat) \<Rightarrow> bool" where
  "idml_rep E fits X h i M \<longleftrightarrow> (\<exists>Su rm am. holds E fits (map_option fst \<circ> M) (id_next_rid i) h i Su rm am \<and> consistent X M (id_next_rid i) Su rm am)"

lemma consistentD:
  assumes "consistent X M nxt Su rm am" "rm rid = Some e"
  shows "0 < re_refcount e" "re_refcount e < 2 ^ 64" "rid < nxt" "am (drp_pba (re_drp e)) = Some rid" "\<exists>u. Su (re_drp e) = Some u \<and> M rid = Some (u, re_refcount e)"
  using assms by (simp_all add: consistent_def)

lemma consistent_iff: "consistent X M nxt Su rm am \<Longrightarrow> rm rid = None \<longleftrightarrow> M rid = None"
  by (simp add: consistent_def)

lemma consistent_am: "consistent X M nxt Su rm am \<Longrightarrow> am pba = Some rid \<Longrightarrow> pba \<in> X \<or> (\<exists>e. rm rid = Some e \<and> drp_pba (re_drp e) = pba)"
  by (simp add: consistent_def)

lemma consistent_su: "consistent X M nxt Su rm am \<Longrightarrow> Su drp = Some u \<Longrightarrow> \<exists>rid e. rm rid = Some e \<and> re_drp e = drp"
  by (simp add: consistent_def)

lemma idml_repI: "holds E fits (map_option fst \<circ> M) nxt h i Su rm am \<Longrightarrow> consistent X M nxt Su rm am \<Longrightarrow> idml_rep E fits X h i M"
  unfolding idml_rep_def by (metis holds_def)

text \<open>A reference is given up; the record is gone with its last reference.\<close>

definition release :: "RID \<Rightarrow> (RID \<rightharpoonup> 'u \<times> nat) \<Rightarrow> (RID \<rightharpoonup> 'u \<times> nat)" where
  "release rid M = (case M rid of None \<Rightarrow> M | Some (u, k) \<Rightarrow> if 1 < k then M(rid \<mapsto> (u, k - 1)) else M(rid := None))"

lemma consistent_drop:
  assumes c: "consistent X M nxt Su rm am" and e: "rm rid = Some e"
  shows "consistent X (M(rid := None)) nxt (Su(re_drp e := None)) (rm(rid := None)) (am(drp_pba (re_drp e) := None))"
proof -
  have other: "drp_pba (re_drp e') \<noteq> drp_pba (re_drp e)" if "rm rid' = Some e'" "rid' \<noteq> rid" for rid' e'
    using consistentD(4)[OF c e] consistentD(4)[OF c that(1)] that(2) by auto
  show ?thesis
    unfolding consistent_def
  proof (intro conjI allI impI)
    fix rid' show "(rm(rid := None)) rid' = None \<longleftrightarrow> (M(rid := None)) rid' = None" using consistent_iff[OF c] by simp
  next
    fix rid' e' assume "(rm(rid := None)) rid' = Some e'"
    then have r: "rm rid' = Some e'" "rid' \<noteq> rid" by (auto split: if_splits)
    note d = consistentD[OF c r(1)] and o = other[OF r]
    show "0 < re_refcount e'" "re_refcount e' < 2 ^ 64" "rid' < nxt" using d(1-3) by simp_all
    show "(am(drp_pba (re_drp e) := None)) (drp_pba (re_drp e')) = Some rid'" using d(4) o by simp
    show "\<exists>u. (Su(re_drp e := None)) (re_drp e') = Some u \<and> (M(rid := None)) rid' = Some (u, re_refcount e')" using d(5) o r(2) by auto
  next
    fix pba rid' assume "(am(drp_pba (re_drp e) := None)) pba = Some rid'"
    then have a: "am pba = Some rid'" "pba \<noteq> drp_pba (re_drp e)" by (auto split: if_splits)
    then show "pba \<in> X \<or> (\<exists>e'. (rm(rid := None)) rid' = Some e' \<and> drp_pba (re_drp e') = pba)"
      using consistent_am[OF c a(1)] e by auto
  next
    fix drp u assume "(Su(re_drp e := None)) drp = Some u"
    then have s: "Su drp = Some u" "drp \<noteq> re_drp e" by (auto split: if_splits)
    obtain rid' e' where "rm rid' = Some e'" "re_drp e' = drp" using consistent_su[OF c s(1)] by blast
    then show "\<exists>rid' e'. (rm(rid := None)) rid' = Some e' \<and> re_drp e' = drp"
      using s(2) e by (intro exI[of _ rid'] exI[of _ e']) auto
  qed
qed

lemma consistent_count:
  assumes c: "consistent X M nxt Su rm am" and e: "rm rid = Some e" and k: "1 < re_refcount e" and u: "M rid = Some (u, re_refcount e)"
  shows "consistent X (M(rid \<mapsto> (u, re_refcount e - 1))) nxt Su (rm(rid \<mapsto> e\<lparr>re_refcount := re_refcount e - 1\<rparr>)) am"
proof -
  let ?rm = "rm(rid \<mapsto> e\<lparr>re_refcount := re_refcount e - 1\<rparr>)"
  have same: "\<exists>e''. ?rm rid' = Some e'' \<and> re_drp e'' = re_drp e'" if "rm rid' = Some e'" for rid' e'
    using that e by auto
  show ?thesis
    unfolding consistent_def
  proof (intro conjI allI impI)
    fix rid' show "?rm rid' = None \<longleftrightarrow> (M(rid \<mapsto> (u, re_refcount e - 1))) rid' = None" using consistent_iff[OF c] by simp
  next
    fix rid' e' assume x: "?rm rid' = Some e'"
    have "0 < re_refcount e' \<and> re_refcount e' < 2 ^ 64 \<and> rid' < nxt \<and> am (drp_pba (re_drp e')) = Some rid' \<and>
        (\<exists>v. Su (re_drp e') = Some v \<and> (M(rid \<mapsto> (u, re_refcount e - 1))) rid' = Some (v, re_refcount e'))"
    proof (cases "rid' = rid")
      case True
      then show ?thesis using consistentD[OF c e] x k u by auto
    next
      case False
      then show ?thesis using consistentD[OF c, of rid' e'] x by simp
    qed
    then show "0 < re_refcount e'" "re_refcount e' < 2 ^ 64" "rid' < nxt" "am (drp_pba (re_drp e')) = Some rid'"
      "\<exists>v. Su (re_drp e') = Some v \<and> (M(rid \<mapsto> (u, re_refcount e - 1))) rid' = Some (v, re_refcount e')"
      by blast+
  next
    fix pba rid' assume "am pba = Some rid'"
    then show "pba \<in> X \<or> (\<exists>e'. ?rm rid' = Some e' \<and> drp_pba (re_drp e') = pba)" using consistent_am[OF c] same by metis
  next
    fix drp v assume "Su drp = Some v"
    then show "\<exists>rid' e'. ?rm rid' = Some e' \<and> re_drp e' = drp" using consistent_su[OF c] same by metis
  qed
qed

lemma consistent_new:
  assumes c: "consistent {} M nxt Su rm am" and fresh: "\<forall>drp' \<in> dom Su. drp_pba drp' \<noteq> drp_pba drp"
  shows "rm nxt = None" "am (drp_pba drp) = None" "M nxt = None"
    "consistent {} (M(nxt \<mapsto> (u, 1))) (Suc nxt) (Su(drp \<mapsto> u)) (rm(nxt \<mapsto> ridt_entry_new drp)) (am(drp_pba drp \<mapsto> nxt))"
proof -
  show r: "rm nxt = None" using consistentD(3)[OF c, of nxt] by (cases "rm nxt") auto
  then show m: "M nxt = None" using consistent_iff[OF c] by simp
  have live: "drp_pba (re_drp e) \<noteq> drp_pba drp" if "rm rid = Some e" for rid e
    using consistentD(5)[OF c that] fresh by auto
  then show a: "am (drp_pba drp) = None" using consistent_am[OF c, of "drp_pba drp"] by (cases "am (drp_pba drp)") auto
  show "consistent {} (M(nxt \<mapsto> (u, 1))) (Suc nxt) (Su(drp \<mapsto> u)) (rm(nxt \<mapsto> ridt_entry_new drp)) (am(drp_pba drp \<mapsto> nxt))"
    unfolding consistent_def
  proof (intro conjI allI impI)
    fix rid show "(rm(nxt \<mapsto> ridt_entry_new drp)) rid = None \<longleftrightarrow> (M(nxt \<mapsto> (u, 1))) rid = None" using consistent_iff[OF c] by simp
  next
    fix rid e assume e: "(rm(nxt \<mapsto> ridt_entry_new drp)) rid = Some e"
    have "0 < re_refcount e \<and> re_refcount e < 2 ^ 64 \<and> rid < Suc nxt \<and> (am(drp_pba drp \<mapsto> nxt)) (drp_pba (re_drp e)) = Some rid \<and>
        (\<exists>v. (Su(drp \<mapsto> u)) (re_drp e) = Some v \<and> (M(nxt \<mapsto> (u, 1))) rid = Some (v, re_refcount e))"
    proof (cases "rid = nxt")
      case True
      then show ?thesis using e by (auto simp: ridt_entry_new_def)
    next
      case False
      then have x: "rm rid = Some e" using e by simp
      show ?thesis using consistentD[OF c x] live[OF x] False by auto
    qed
    then show "0 < re_refcount e" "re_refcount e < 2 ^ 64" "rid < Suc nxt" "(am(drp_pba drp \<mapsto> nxt)) (drp_pba (re_drp e)) = Some rid"
      "\<exists>v. (Su(drp \<mapsto> u)) (re_drp e) = Some v \<and> (M(nxt \<mapsto> (u, 1))) rid = Some (v, re_refcount e)"
      by blast+
  next
    fix pba rid assume x: "(am(drp_pba drp \<mapsto> nxt)) pba = Some rid"
    show "pba \<in> {} \<or> (\<exists>e. (rm(nxt \<mapsto> ridt_entry_new drp)) rid = Some e \<and> drp_pba (re_drp e) = pba)"
    proof (cases "pba = drp_pba drp")
      case True
      then show ?thesis using x by (auto simp: ridt_entry_new_def)
    next
      case False
      then obtain e where "rm rid = Some e" "drp_pba (re_drp e) = pba" using x consistent_am[OF c, of pba rid] by auto
      then show ?thesis using r by auto
    qed
  next
    fix drp' v assume x: "(Su(drp \<mapsto> u)) drp' = Some v"
    show "\<exists>rid e. (rm(nxt \<mapsto> ridt_entry_new drp)) rid = Some e \<and> re_drp e = drp'"
    proof (cases "drp' = drp")
      case True
      then show ?thesis by (intro exI[of _ nxt] exI[of _ "ridt_entry_new drp"]) (simp add: ridt_entry_new_def)
    next
      case False
      then obtain rid e where "rm rid = Some e" "re_drp e = drp'" using x consistent_su[OF c, of drp' v] by auto
      then show ?thesis using r by (intro exI[of _ rid] exI[of _ e]) auto
    qed
  qed
qed

lemma consistent_next: "consistent X M nxt Su rm am \<Longrightarrow> consistent X M (Suc nxt) Su rm am"
  unfolding consistent_def using less_SucI by blast

lemma holds_next: "holds E fits U nxt h i Su rm am \<Longrightarrow> holds E fits U nxt' h (i\<lparr>id_next_rid := nxt'\<rparr>) Su rm am"
  by (simp add: holds_def)

section \<open>The operations\<close>

context idml_env
begin

lemma user_fits: "holds E fits U nxt h i Su rm am \<Longrightarrow> Su drp = Some u \<Longrightarrow> fits (URec u)"
proof (erule holdsE)
  fix Sr Sa assume "Su drp = Some u" and l: "layer E fits U (id_ddml i) Sr Sa Su"
  then show "fits (URec u)" using layer_user(1,2)[OF l, of drp u] by (auto simp: quiet_rep_def ddml_rep_def pool_holds_def stored_def)
qed

lemma idml_repE:
  assumes "idml_rep E fits X h i M"
  obtains Su rm am where "holds E fits (map_option fst \<circ> M) (id_next_rid i) h i Su rm am" "consistent X M (id_next_rid i) Su rm am"
  using assms by (auto simp: idml_rep_def)

lemma idml_get_ok:
  assumes "idml_rep E fits X h i M" "h < 2 ^ 63 - 1"
  shows "\<exists>i'. idml_get E i rid = Some (case M rid of None \<Rightarrow> Inl ENOENT | Some (u, k) \<Rightarrow> Inr u, i') \<and> idml_rep E fits X (Suc h) i' M \<and>
    id_next_rid i' = id_next_rid i"
proof -
  let ?U = "map_option fst \<circ> M" and ?nxt = "id_next_rid i"
  obtain Su rm am where s: "holds E fits ?U ?nxt h i Su rm am" "consistent X M ?nxt Su rm am" by (rule idml_repE[OF assms(1)])
  obtain v i1 where g: "rid_cache_get i rid = Some (v, i1)" "holds E fits ?U ?nxt h i1 Su rm am"
      "case v of Some n \<Rightarrow> \<exists>u. n = URec u \<and> ?U rid = Some u | None \<Rightarrow> holds E fits (?U(rid := None)) ?nxt h i1 Su rm am"
    using rid_cache_get_ok[OF s(1)] by blast
  have fin: "idml_rep E fits X (Suc h) i' M \<and> id_next_rid i' = ?nxt" if "holds E fits U' ?nxt h' i' Su rm am" "U' \<subseteq>\<^sub>m ?U" "h' \<le> Suc h" for i' U' h'
    using idml_repI[OF holds_mono[OF that] s(2)] that(1) by (simp add: holds_def)
  show ?thesis
  proof (cases v)
    case (Some n)
    then obtain u k where "n = URec u" "M rid = Some (u, k)" using g(3) by auto
    then show ?thesis using g(1) Some fin[OF g(2)] by (auto simp: idml_get_def)
  next
    case None
    obtain i2 where r: "ridt_get E i1 rid = Some (Inr (rm rid), i2)" "holds E fits (?U(rid := None)) ?nxt (Suc h) i2 Su rm am"
      using ridt_get_ok[of "?U(rid := None)"] g(3) None assms(2) by force
    show ?thesis
    proof (cases "rm rid")
      case Nn: None
      then have "M rid = None" using consistent_iff[OF s(2)] by simp
      then show ?thesis using g(1) None r Nn fin[OF r(2)] by (auto simp: idml_get_def unwrap_or_enoent_def map_le_def)
    next
      case (Some e)
      obtain u where u: "Su (re_drp e) = Some u" "M rid = Some (u, re_refcount e)" using consistentD(5)[OF s(2) Some] by blast
      obtain i3 where d: "on_ddml (\<lambda>d. ddml_get_direct (user_deser E) (ie_env E) d (re_drp e)) i2 = Some (Inr (URec u), i3)"
          "holds E fits (?U(rid := None)) ?nxt (Suc h) i3 Su rm am"
        using user_get_ok[OF r(2) u(1)] by blast
      obtain i4 where c: "rid_cache_insert E i3 rid (URec u) = Some i4" "holds E fits (?U(rid := None, rid \<mapsto> u)) ?nxt (Suc h) i4 Su rm am"
        using rid_cache_insert_ok[OF d(2) user_fits[OF d(2) u(1)], of rid] by auto
      show ?thesis using g(1) None r(1) Some d(1) c(1) u(2) fin[OF c(2)] by (auto simp: idml_get_def unwrap_or_enoent_def map_le_def)
    qed
  qed
qed

lemma count_down: "0 < k \<Longrightarrow> k < 2 ^ 64 \<Longrightarrow> wsub 64 k 1 = k - 1"
  by (simp add: wsub_def)

text \<open>The record is freed and gone from the cache: its entries are removed from both trees. A record with other references is only counted.\<close>

lemma unlink_ok:
  assumes "holds E fits ((map_option fst \<circ> M)(rid := None)) nxt h i (Su(re_drp e := None)) rm am" "consistent X M nxt Su rm am" "rm rid = Some e" "Suc h < 2 ^ 63 - 1"
  shows "\<exists>i1 i2. alloct_remove E i (drp_pba (re_drp e)) txg = Some (Inr (Some rid), i1) \<and> ridt_remove E i1 rid txg = Some (Inr (Some e), i2) \<and>
    idml_rep E fits X (Suc (Suc h)) i2 (M(rid := None)) \<and> id_next_rid i2 = nxt"
proof -
  have m: "(map_option fst \<circ> M)(rid := None) = map_option fst \<circ> M(rid := None)" by auto
  obtain i1 where a: "alloct_remove E i (drp_pba (re_drp e)) txg = Some (Inr (am (drp_pba (re_drp e))), i1)"
      "holds E fits (map_option fst \<circ> M(rid := None)) nxt (Suc h) i1 (Su(re_drp e := None)) rm (am(drp_pba (re_drp e) := None))"
    using alloct_remove_ok[OF assms(1)] assms(4) unfolding m by force
  obtain i2 where b: "ridt_remove E i1 rid txg = Some (Inr (rm rid), i2)"
      "holds E fits (map_option fst \<circ> M(rid := None)) nxt (Suc (Suc h)) i2 (Su(re_drp e := None)) (rm(rid := None)) (am(drp_pba (re_drp e) := None))"
    using ridt_remove_ok[OF a(2)] assms(4) by force
  show ?thesis
    using a(1) b idml_repI[OF b(2) consistent_drop[OF assms(2,3)]] consistentD(4)[OF assms(2,3)] assms(3) by (simp add: holds_def)
qed

lemma recount_ok:
  assumes "holds E fits (map_option fst \<circ> M) nxt h i Su rm am" "consistent X M nxt Su rm am" "rm rid = Some e" "h < 2 ^ 63 - 1"
    "1 < re_refcount e" "M rid = Some (u, re_refcount e)"
  shows "\<exists>i'. ridt_insert E i rid (e\<lparr>re_refcount := re_refcount e - 1\<rparr>) txg = Some (Inr (Some e), i') \<and>
    idml_rep E fits X (Suc h) i' (M(rid \<mapsto> (u, re_refcount e - 1))) \<and> id_next_rid i' = nxt"
proof -
  obtain i' where x: "ridt_insert E i rid (e\<lparr>re_refcount := re_refcount e - 1\<rparr>) txg = Some (Inr (rm rid), i')"
      "holds E fits (map_option fst \<circ> M) nxt (Suc h) i' Su (rm(rid \<mapsto> e\<lparr>re_refcount := re_refcount e - 1\<rparr>)) am"
    using ridt_insert_ok[OF assms(1,4)] by force
  have "map_option fst \<circ> M = map_option fst \<circ> M(rid \<mapsto> (u, re_refcount e - 1))" using assms(6) by auto
  then show ?thesis
    using x idml_repI[OF _ consistent_count[OF assms(2,3,5,6)], of E fits "Suc h" i'] assms(3) by (simp add: holds_def)
qed

lemma idml_rep_mono: "idml_rep E fits X h i M \<Longrightarrow> h \<le> h' \<Longrightarrow> idml_rep E fits X h' i M"
  unfolding idml_rep_def using holds_mono[OF _ map_le_refl] by blast

text \<open>\<open>delete\<close> and \<open>pop\<close> begin with a lookup.\<close>

lemma lookup_ok:
  assumes "idml_rep E fits X h i M" "h + 3 < 2 ^ 63 - 1"
  obtains Su rm am i1 where "ridt_get E i rid = Some (Inr (rm rid), i1)" "holds E fits (map_option fst \<circ> M) (id_next_rid i) (Suc h) i1 Su rm am"
    "consistent X M (id_next_rid i) Su rm am" "rm rid = None \<Longrightarrow> M rid = None \<and> idml_rep E fits X (h + 3) i1 M \<and> id_next_rid i1 = id_next_rid i"
    "\<And>e. rm rid = Some e \<Longrightarrow> \<exists>u. Su (re_drp e) = Some u \<and> M rid = Some (u, re_refcount e) \<and> wsub 64 (re_refcount e) 1 = re_refcount e - 1 \<and>
       (re_refcount e = 1 \<or> 1 < re_refcount e)"
proof -
  obtain Su rm am where s: "holds E fits (map_option fst \<circ> M) (id_next_rid i) h i Su rm am" "consistent X M (id_next_rid i) Su rm am"
    by (rule idml_repE[OF assms(1)])
  obtain i1 where r: "ridt_get E i rid = Some (Inr (rm rid), i1)" "holds E fits (map_option fst \<circ> M) (id_next_rid i) (Suc h) i1 Su rm am"
    using ridt_get_ok[OF s(1)] assms(2) by force
  have none: "M rid = None \<and> idml_rep E fits X (h + 3) i1 M \<and> id_next_rid i1 = id_next_rid i" if "rm rid = None"
    using that consistent_iff[OF s(2)] idml_rep_mono[OF idml_repI[OF r(2) s(2)]] r(2) by (simp add: holds_def)
  have some: "\<exists>u. Su (re_drp e) = Some u \<and> M rid = Some (u, re_refcount e) \<and> wsub 64 (re_refcount e) 1 = re_refcount e - 1 \<and>
      (re_refcount e = 1 \<or> 1 < re_refcount e)" if "rm rid = Some e" for e
    using consistentD[OF s(2) that] count_down[of "re_refcount e"] by auto
  show ?thesis by (rule that[OF r s(2) none some])
qed

lemma idml_delete_ok:
  assumes "idml_rep E fits X h i M" "h + 3 < 2 ^ 63 - 1"
  shows "\<exists>i'. idml_delete E i rid txg = Some (if M rid = None then Inl ENOENT else Inr (), i') \<and> idml_rep E fits X (h + 3) i' (release rid M) \<and>
    id_next_rid i' = id_next_rid i"
proof (rule lookup_ok[OF assms])
  fix Su rm am i1
  assume r: "ridt_get E i rid = Some (Inr (rm rid), i1)" "holds E fits (map_option fst \<circ> M) (id_next_rid i) (Suc h) i1 Su rm am"
      "consistent X M (id_next_rid i) Su rm am" and none: "rm rid = None \<Longrightarrow> M rid = None \<and> idml_rep E fits X (h + 3) i1 M \<and> id_next_rid i1 = id_next_rid i"
    and some: "\<And>e. rm rid = Some e \<Longrightarrow> \<exists>u. Su (re_drp e) = Some u \<and> M rid = Some (u, re_refcount e) \<and> wsub 64 (re_refcount e) 1 = re_refcount e - 1 \<and>
       (re_refcount e = 1 \<or> 1 < re_refcount e)"
  show ?thesis
  proof (cases "rm rid")
    case None
    then show ?thesis using r none by (simp add: idml_delete_def unwrap_or_enoent_def release_def)
  next
    case (Some e)
    obtain u where u: "Su (re_drp e) = Some u" "M rid = Some (u, re_refcount e)" "wsub 64 (re_refcount e) 1 = re_refcount e - 1"
        "re_refcount e = 1 \<or> 1 < re_refcount e"
      using some[OF Some] by blast
    show ?thesis
      using u(4)
    proof
      assume k: "1 < re_refcount e"
      obtain i2 where x: "ridt_insert E i1 rid (e\<lparr>re_refcount := re_refcount e - 1\<rparr>) txg = Some (Inr (Some e), i2)"
          "idml_rep E fits X (Suc (Suc h)) i2 (M(rid \<mapsto> (u, re_refcount e - 1)))" "id_next_rid i2 = id_next_rid i"
        using recount_ok[OF r(2,3) Some _ k u(2)] assms(2) by force
      show ?thesis using r(1) Some x idml_rep_mono[OF x(2), of "h + 3"] k u(2,3) by (simp add: idml_delete_def unwrap_or_enoent_def release_def)
    next
      assume k: "re_refcount e = 1"
      obtain v i2 where c: "rid_cache_remove E i1 rid = Some (v, i2)" "holds E fits ((map_option fst \<circ> M)(rid := None)) (id_next_rid i) (Suc h) i2 Su rm am"
        using rid_cache_remove_ok[OF r(2)] by blast
      obtain i3 where d: "on_ddml (\<lambda>d. ddml_delete_direct (ie_env E) d (re_drp e) txg) i2 = Some (Inr (), i3)"
          "holds E fits ((map_option fst \<circ> M)(rid := None)) (id_next_rid i) (Suc h) i3 (Su(re_drp e := None)) rm am"
        using user_delete_direct_ok[OF c(2) u(1)] by blast
      obtain i4 i5 where a: "alloct_remove E i3 (drp_pba (re_drp e)) txg = Some (Inr (Some rid), i4)" "ridt_remove E i4 rid txg = Some (Inr (Some e), i5)"
          "idml_rep E fits X (Suc (Suc (Suc h))) i5 (M(rid := None))" "id_next_rid i5 = id_next_rid i"
        using unlink_ok[OF d(2) r(3) Some, of txg] assms(2) by auto
      show ?thesis using r(1) Some c(1) d(1) a idml_rep_mono[OF a(3), of "h + 3"] u(2,3) k by (simp add: idml_delete_def unwrap_or_enoent_def release_def)
    qed
  qed
qed

lemma view_user: "f = Some (Inr (URec u), d) \<Longrightarrow> view_result as_user f = Some (Inr u, d)"
  by (simp add: view_result_def)

lemma idml_pop_ok:
  assumes "idml_rep E fits X h i M" "h + 3 < 2 ^ 63 - 1"
  shows "\<exists>i'. idml_pop E i rid txg = Some (case M rid of None \<Rightarrow> Inl ENOENT | Some (u, k) \<Rightarrow> Inr u, i') \<and> idml_rep E fits X (h + 3) i' (release rid M) \<and>
    id_next_rid i' = id_next_rid i"
proof (rule lookup_ok[OF assms])
  fix Su rm am i1
  let ?U = "map_option fst \<circ> M" and ?nxt = "id_next_rid i"
  assume r: "ridt_get E i rid = Some (Inr (rm rid), i1)" "holds E fits ?U ?nxt (Suc h) i1 Su rm am"
      "consistent X M ?nxt Su rm am" and none: "rm rid = None \<Longrightarrow> M rid = None \<and> idml_rep E fits X (h + 3) i1 M \<and> id_next_rid i1 = ?nxt"
    and some: "\<And>e. rm rid = Some e \<Longrightarrow> \<exists>u. Su (re_drp e) = Some u \<and> M rid = Some (u, re_refcount e) \<and> wsub 64 (re_refcount e) 1 = re_refcount e - 1 \<and>
       (re_refcount e = 1 \<or> 1 < re_refcount e)"
  show ?thesis
  proof (cases "rm rid")
    case None
    then show ?thesis using r none by (simp add: idml_pop_def unwrap_or_enoent_def release_def)
  next
    case (Some e)
    obtain u where u: "Su (re_drp e) = Some u" "M rid = Some (u, re_refcount e)" "wsub 64 (re_refcount e) 1 = re_refcount e - 1"
        "re_refcount e = 1 \<or> 1 < re_refcount e"
      using some[OF Some] by blast
    show ?thesis
      using u(4)
    proof
      assume k: "1 < re_refcount e"
      obtain v i2 where g: "rid_cache_get i1 rid = Some (v, i2)" "holds E fits ?U ?nxt (Suc h) i2 Su rm am"
          "case v of Some n \<Rightarrow> \<exists>u. n = URec u \<and> ?U rid = Some u | None \<Rightarrow> True"
        using rid_cache_get_ok[OF r(2)] by (force split: option.splits)
      have "\<exists>i3. copy_record E i2 v (re_drp e) = Some (Inr u, i3) \<and> holds E fits ?U ?nxt (Suc h) i3 Su rm am"
        using user_get_ok[OF g(2) u(1)] g(2,3) u(2) by (cases v) (auto simp: copy_record_def intro: view_user)
      then obtain i3 where d: "copy_record E i2 v (re_drp e) = Some (Inr u, i3)" "holds E fits ?U ?nxt (Suc h) i3 Su rm am" by blast
      obtain i4 where x: "ridt_insert E i3 rid (e\<lparr>re_refcount := re_refcount e - 1\<rparr>) txg = Some (Inr (Some e), i4)"
          "idml_rep E fits X (Suc (Suc h)) i4 (M(rid \<mapsto> (u, re_refcount e - 1)))" "id_next_rid i4 = ?nxt"
        using recount_ok[OF d(2) r(3) Some _ k u(2)] assms(2) by force
      have "idml_pop E i rid txg = Some (Inr u, i4)" using r(1) Some g(1) d(1) x(1) k u(3) by (simp add: idml_pop_def unwrap_or_enoent_def)
      then show ?thesis using x(2,3) idml_rep_mono[OF x(2), of "h + 3"] k u(2) by (simp add: release_def)
    next
      assume k: "re_refcount e = 1"
      obtain v i2 where c: "rid_cache_remove E i1 rid = Some (v, i2)" "holds E fits (?U(rid := None)) ?nxt (Suc h) i2 Su rm am"
          "\<forall>n. v = Some n \<longrightarrow> (\<exists>u. n = URec u \<and> ?U rid = Some u)"
        using rid_cache_remove_ok[OF r(2)] by blast
      have "\<exists>i3. take_record E i2 v (re_drp e) txg = Some (Inr u, i3) \<and> holds E fits (?U(rid := None)) ?nxt (Suc h) i3 (Su(re_drp e := None)) rm am"
        using user_delete_ok[OF c(2) u(1), of txg] user_pop_ok[OF c(2) u(1)] c(3) u(2) by (cases v) (auto simp: take_record_def intro: view_user)
      then obtain i3 where d: "take_record E i2 v (re_drp e) txg = Some (Inr u, i3)" "holds E fits (?U(rid := None)) ?nxt (Suc h) i3 (Su(re_drp e := None)) rm am" by blast
      obtain i4 i5 where a: "alloct_remove E i3 (drp_pba (re_drp e)) txg = Some (Inr (Some rid), i4)" "ridt_remove E i4 rid txg = Some (Inr (Some e), i5)"
          "idml_rep E fits X (Suc (Suc (Suc h))) i5 (M(rid := None))" "id_next_rid i5 = ?nxt"
        using unlink_ok[OF d(2) r(3) Some, of txg] assms(2) by auto
      have "idml_pop E i rid txg = Some (Inr u, i5)" using r(1) Some c(1) d(1) a(1,2) k u(3) by (simp add: idml_pop_def unwrap_or_enoent_def)
      then show ?thesis using a(4) idml_rep_mono[OF a(3), of "h + 3"] u(2) k by (simp add: release_def)
    qed
  qed
qed

lemma idml_put_ok:
  assumes "idml_rep E fits {} h i M" "h + 3 < 2 ^ 63 - 1" "fits (URec u)" "id_next_rid i < 2 ^ 64 - 1"
  shows "\<exists>r i'. idml_put E i u c txg = Some (r, i') \<and> id_next_rid i' = Suc (id_next_rid i) \<and>
    (case r of Inl e \<Rightarrow> e = ENOSPC \<and> (\<exists>d'. ddml_put_direct (ie_env E) (id_ddml i) (URec u) c txg = Some (Inl e, d')) \<and> idml_rep E fits {} (h + 3) i' M
     | Inr rid \<Rightarrow> rid = id_next_rid i \<and> idml_rep E fits {} (h + 3) i' (M(rid \<mapsto> (u, 1))))"
proof -
  let ?U = "map_option fst \<circ> M" and ?n = "id_next_rid i" and ?i = "i\<lparr>id_next_rid := u64 (id_next_rid i + 1)\<rparr>"
  obtain Su rm am where s: "holds E fits ?U ?n h i Su rm am" "consistent {} M ?n Su rm am" by (rule idml_repE[OF assms(1)])
  have nn: "u64 (?n + 1) = Suc ?n" using assms(4) by (simp add: wrapu_id)
  have h0: "holds E fits ?U (Suc ?n) h ?i Su rm am" using holds_next[OF s(1), of "Suc ?n"] nn by simp
  obtain r i1 where p: "on_ddml (\<lambda>d. ddml_put_direct (ie_env E) d (URec u) c txg) ?i = Some (r, i1)"
      "case r of Inl e \<Rightarrow> e = ENOSPC \<and> holds E fits ?U (Suc ?n) h i1 Su rm am
       | Inr drp \<Rightarrow> (\<forall>drp' \<in> dom Su. drp_pba drp' \<noteq> drp_pba drp) \<and> holds E fits ?U (Suc ?n) h i1 (Su(drp \<mapsto> u)) rm am"
    using user_put_ok[OF h0 assms(3)] by blast
  show ?thesis
  proof (cases r)
    case (Inl e)
    then have "e = ENOSPC" "holds E fits ?U (Suc ?n) h i1 Su rm am" using p(2) by simp_all
    moreover from this have "idml_rep E fits {} (h + 3) i1 M" "id_next_rid i1 = Suc ?n"
      using idml_repI[OF holds_mono consistent_next[OF s(2)], of E fits ?U h i1 "h + 3"] by (simp_all add: holds_def)
    moreover have "\<exists>d'. ddml_put_direct (ie_env E) (id_ddml i) (URec u) c txg = Some (Inl e, d')" using p(1) Inl by (auto simp: on_ddml_def bind_eq_Some_conv)
    ultimately show ?thesis using p(1) Inl by (simp add: idml_put_def)
  next
    case (Inr drp)
    then have fresh: "\<forall>drp' \<in> dom Su. drp_pba drp' \<noteq> drp_pba drp" and h1: "holds E fits ?U (Suc ?n) h i1 (Su(drp \<mapsto> u)) rm am"
      using p(2) by simp_all
    note new = consistent_new[OF s(2) fresh]
    obtain i2 where a: "ridt_insert E i1 ?n (ridt_entry_new drp) txg = Some (Inr (rm ?n), i2)"
        "holds E fits ?U (Suc ?n) (Suc h) i2 (Su(drp \<mapsto> u)) (rm(?n \<mapsto> ridt_entry_new drp)) am"
      using ridt_insert_ok[OF h1] assms(2) by force
    obtain i3 where b: "alloct_insert E i2 (drp_pba drp) ?n txg = Some (Inr (am (drp_pba drp)), i3)"
        "holds E fits ?U (Suc ?n) (Suc (Suc h)) i3 (Su(drp \<mapsto> u)) (rm(?n \<mapsto> ridt_entry_new drp)) (am(drp_pba drp \<mapsto> ?n))"
      using alloct_insert_ok[OF a(2)] assms(2) by force
    obtain i4 where c: "rid_cache_insert E i3 ?n (URec u) = Some i4"
        "holds E fits (?U(?n \<mapsto> u)) (Suc ?n) (Suc (Suc h)) i4 (Su(drp \<mapsto> u)) (rm(?n \<mapsto> ridt_entry_new drp)) (am(drp_pba drp \<mapsto> ?n))"
      using rid_cache_insert_ok[OF b(2) assms(3), of ?n] new(3) by auto
    have m: "?U(?n \<mapsto> u) = map_option fst \<circ> M(?n \<mapsto> (u, 1))" by auto
    have "holds E fits (map_option fst \<circ> M(?n \<mapsto> (u, 1))) (Suc ?n) (h + 3) i4 (Su(drp \<mapsto> u)) (rm(?n \<mapsto> ridt_entry_new drp)) (am(drp_pba drp \<mapsto> ?n))"
      by (rule holds_mono[OF c(2)[unfolded m]]) simp_all
    from idml_repI[OF this new(4)[of u]] have "idml_rep E fits {} (h + 3) i4 (M(?n \<mapsto> (u, 1)))" .
    moreover have "idml_put E i u c txg = Some (Inr ?n, i4)" using p(1) Inr a(1) b(1) c(1) new(1,2) by (simp add: idml_put_def Let_def)
    moreover have "id_next_rid i4 = Suc ?n" using c(2) by (simp add: holds_def)
    ultimately show ?thesis by simp
  qed
qed

end

end
