(* ===== verification/Idml_Move.thy ===== *)
theory Idml_Move
  imports Idml_Ops
begin

text \<open>
  Moving a record, as the cleaner does to empty a zone: the bytes are copied as they are on the disk, and the record stays the same for
  every client. The reverse entry of the old address stays in the allocation table.
\<close>

section \<open>Copying the bytes of a record\<close>

definition same_extent :: "DRP \<Rightarrow> DRP \<Rightarrow> bool" where
  "same_extent a b \<longleftrightarrow> drp_pba a = drp_pba b \<and> drp_csize a = drp_csize b \<and> drp_checksum a = drp_checksum b"

text \<open>The bytes \<open>bs\<close> are an image of the record \<open>n\<close>, compressed or not.\<close>

definition image_of :: "('n, 'h) DdmlEnv \<Rightarrow> bool \<Rightarrow> IoVec \<Rightarrow> 'n \<Rightarrow> bool" where
  "image_of env compressed bs n \<longleftrightarrow> 0 < length bs \<and> length bs < u32_max \<and> decode (ev_unblosc env) compressed bs = Some (ev_ser env n)"

text \<open>Plain bytes can be written even if they do not fit into the cache.\<close>

definition small :: "('n, 'h) DdmlEnv \<Rightarrow> 'n \<Rightarrow> bool" where
  "small env n \<longleftrightarrow> 0 < length (ev_ser env n) \<and> length (ev_ser env n) < u32_max"

context ddml_env
begin

lemma small_env: "ddml_env env (small env)"
  by unfold_locales (use weights blosc_ok blosc_len in \<open>auto simp: small_def\<close>)

lemma holds_small: "pool_holds env fits p live L \<Longrightarrow> pool_holds env (small env) p live L"
  using ser_len by (auto simp: pool_holds_def stored_def small_def)

lemma raw_read:
  assumes "quiet_rep env fits R d L" "L drp = Some n"
  obtains bs d' where "ddml_get_direct (\<lambda>bs. Some (raw bs)) env d (drp_as_uncompressed drp) = Some (Inr (raw bs), d')" "quiet_rep env fits R d' L"
    "image_of env (drp_compressed drp) bs n"
proof -
  obtain live where h: "pool_holds env fits (dd_pool d) live L" and c: "cache_agrees env fits R (dd_cache d) L" and q: "pool_quiet (dd_pool d)"
    using assms(1) by (auto simp: quiet_rep_def ddml_rep_def)
  show ?thesis
  proof (rule read_bytes[OF h assms(2)])
    fix ok p' bs
    assume b: "pool_holds env fits p' live L" "pool_quiet (dd_pool d) \<longrightarrow> pool_quiet p' \<and> ok = Inr ()" "length bs = drp_csize drp" "0 < drp_csize drp"
        "drp_csize drp < u32_max" "decode (ev_unblosc env) (drp_compressed drp) bs = Some (ev_ser env n)"
      and r: "\<And>drp' raw. drp_pba drp' = drp_pba drp \<Longrightarrow> drp_csize drp' = drp_csize drp \<Longrightarrow> drp_checksum drp' = drp_checksum drp \<Longrightarrow>
       decode (ev_unblosc env) (drp_compressed drp') bs = Some raw \<Longrightarrow> ddml_read env d drp' = Some (map_sum (\<lambda>e. e) (\<lambda>_. raw) ok, d\<lparr>dd_pool := p'\<rparr>)"
    have "ddml_read env d (drp_as_uncompressed drp) = Some (Inr bs, d\<lparr>dd_pool := p'\<rparr>)"
      using r[of "drp_as_uncompressed drp" bs] b(2) q by (simp add: drp_as_uncompressed_def decode_def)
    moreover have "quiet_rep env fits R (d\<lparr>dd_pool := p'\<rparr>) L" using b(1,2) q c by (intro quiet_repI) simp_all
    ultimately show ?thesis using that[of bs "d\<lparr>dd_pool := p'\<rparr>"] b(3-6) by (simp add: ddml_get_direct_def image_of_def)
  qed
qed

lemma put_raw_common:
  assumes "ddml_put_common env d n CNone txg = Some (Inr drp, d')"
  shows "\<not> drp_compressed drp"
proof -
  obtain r p where "pool_write (ev_zl env) (ev_weight env) (dd_pool d) (ev_ser env n) txg = Some (r, p)"
    using assms by (auto simp: ddml_put_common_def compress_def run_simps)
  then show ?thesis using assms by (cases r) (auto simp: ddml_put_common_def compress_def is_compressed_def run_simps)
qed

lemma stored_image:
  assumes "stored env (small env) p live drp m" "\<not> drp_compressed drp" "image_of env c (ev_ser env m) n" "fits n" "same_extent drp2 drp" "drp_compressed drp2 = c"
  shows "stored env fits p live drp2 n"
  using assms unfolding stored_def image_of_def same_extent_def drp_asize_def by (auto simp: decode_def split: if_splits)

lemma raw_write:
  assumes "quiet_rep env fits R d L" "fits n" "image_of env c bs n" "ev_ser env m = bs"
  shows "\<exists>r d'. ddml_put_direct env d m CNone txg = Some (r, d') \<and>
    (case r of Inl e \<Rightarrow> e = ENOSPC \<and> quiet_rep env fits R d' L
     | Inr drp \<Rightarrow> \<not> drp_compressed drp \<and> (\<forall>drp' \<in> dom L. drp_pba drp' \<noteq> drp_pba drp) \<and>
         (\<forall>drp2. same_extent drp2 drp \<longrightarrow> drp_compressed drp2 = c \<longrightarrow> quiet_rep env fits R d' (L(drp2 \<mapsto> n))))"
proof -
  obtain live where h: "pool_holds env fits (dd_pool d) live L" and ca: "cache_agrees env fits R (dd_cache d) L" and q: "pool_quiet (dd_pool d)"
    using assms(1) by (auto simp: quiet_rep_def ddml_rep_def)
  have m: "small env m" using assms(3,4) by (simp add: image_of_def small_def)
  have old: "fits n'" if "L drp' = Some n'" for drp' n' using h that by (auto simp: pool_holds_def stored_def)
  obtain r p' live' where r: "ddml_put_common env d m CNone txg = Some (r, d\<lparr>dd_pool := p'\<rparr>)"
      "case r of Inl _ \<Rightarrow> pool_holds env (small env) p' live' L
       | Inr drp \<Rightarrow> pool_holds env (small env) p' live' (L(drp \<mapsto> m)) \<and> (\<forall>drp' \<in> dom L. drp_pba drp' \<noteq> drp_pba drp)"
      "pool_quiet (dd_pool d) \<longrightarrow> pool_quiet p' \<and> (\<forall>e. r = Inl e \<longrightarrow> e = ENOSPC)"
    by (rule ddml_env.put_spec[OF small_env holds_small[OF h] m])
  show ?thesis
  proof (cases r)
    case (Inl e)
    then have "pool_holds env fits p' live' L" using r(2) old by (auto simp: pool_holds_def stored_def)
    then have "quiet_rep env fits R (d\<lparr>dd_pool := p'\<rparr>) L" using r(3) q ca by (intro quiet_repI) simp_all
    then show ?thesis using r q Inl by (simp add: ddml_put_direct_def)
  next
    case (Inr drp)
    then have s: "pool_holds env (small env) p' live' (L(drp \<mapsto> m))" and fresh: "\<forall>drp' \<in> dom L. drp_pba drp' \<noteq> drp_pba drp" using r(2) by simp_all
    have nc: "\<not> drp_compressed drp" using put_raw_common[of d m txg drp] r(1) Inr by simp
    have "quiet_rep env fits R (d\<lparr>dd_pool := p'\<rparr>) (L(drp2 \<mapsto> n))" if e: "same_extent drp2 drp" "drp_compressed drp2 = c" for drp2
    proof -
      have new: "stored env fits p' live' drp2 n"
        by (rule stored_image[of p' live' drp m, OF _ nc _ assms(2) e]) (use s assms(3,4) in \<open>simp_all add: pool_holds_def\<close>)
      have "L drp2 = None" using fresh e(1) by (cases "L drp2") (auto simp: same_extent_def)
      moreover have "stored env fits p' live' drp' n'" if "L drp' = Some n'" for drp' n'
      proof -
        have "drp' \<noteq> drp" using fresh that by auto
        then have "stored env (small env) p' live' drp' n'" using s that by (simp add: pool_holds_def)
        then show ?thesis using old[OF that] by (auto simp: stored_def)
      qed
      moreover have "inj_on drp_pba (dom (L(drp2 \<mapsto> n)))"
        using h fresh e(1) by (auto simp: pool_holds_def inj_on_def same_extent_def)
      ultimately have "pool_holds env fits p' live' (L(drp2 \<mapsto> n))" using new s by (simp add: pool_holds_def)
      then show ?thesis using agrees_grow[OF ca \<open>L drp2 = None\<close>] r(3) q by (intro quiet_repI) simp_all
    qed
    then show ?thesis using r(1) Inr nc fresh by (simp add: ddml_put_direct_def)
  qed
qed

end

section \<open>Moving a record\<close>

lemma consistent_move:
  assumes c: "consistent X M nxt Su rm am" and e: "rm rid = Some e" and u: "Su (re_drp e) = Some u" and fresh: "\<forall>drp' \<in> dom Su. drp_pba drp' \<noteq> drp_pba drp"
  shows "consistent (insert (drp_pba (re_drp e)) X) M nxt (Su(re_drp e := None, drp \<mapsto> u)) (rm(rid \<mapsto> e\<lparr>re_drp := drp\<rparr>)) (am(drp_pba drp \<mapsto> rid))"
    (is "consistent _ _ _ ?Su ?rm ?am")
proof -
  have live: "drp_pba (re_drp e') \<noteq> drp_pba drp" if "rm rid' = Some e'" for rid' e' using consistentD(5)[OF c that] fresh by auto
  have other: "drp_pba (re_drp e') \<noteq> drp_pba (re_drp e)" if "rm rid' = Some e'" "rid' \<noteq> rid" for rid' e'
    using consistentD(4)[OF c e] consistentD(4)[OF c that(1)] that(2) by auto
  show ?thesis
    unfolding consistent_def
  proof (intro conjI allI impI)
    fix rid' show "?rm rid' = None \<longleftrightarrow> M rid' = None" using consistent_iff[OF c, of rid'] consistent_iff[OF c, of rid] e by auto
  next
    fix rid' e' assume x: "?rm rid' = Some e'"
    have "0 < re_refcount e' \<and> re_refcount e' < 2 ^ 64 \<and> rid' < nxt \<and> ?am (drp_pba (re_drp e')) = Some rid' \<and> (\<exists>v. ?Su (re_drp e') = Some v \<and> M rid' = Some (v, re_refcount e'))"
    proof (cases "rid' = rid")
      case True
      then show ?thesis using x consistentD[OF c e] u by auto
    next
      case False
      then have r: "rm rid' = Some e'" using x by simp
      have "re_drp e' \<noteq> drp" "re_drp e' \<noteq> re_drp e" using live[OF r] other[OF r False] by auto
      then show ?thesis using consistentD[OF c r] live[OF r] by simp
    qed
    then show "0 < re_refcount e'" "re_refcount e' < 2 ^ 64" "rid' < nxt" "?am (drp_pba (re_drp e')) = Some rid'"
      "\<exists>v. ?Su (re_drp e') = Some v \<and> M rid' = Some (v, re_refcount e')"
      by blast+
  next
    fix pba rid' assume x: "?am pba = Some rid'"
    show "pba \<in> insert (drp_pba (re_drp e)) X \<or> (\<exists>e'. ?rm rid' = Some e' \<and> drp_pba (re_drp e') = pba)"
      using x consistent_am[OF c, of pba rid'] e by (cases "pba = drp_pba drp") auto
  next
    fix drp' v assume x: "?Su drp' = Some v"
    show "\<exists>rid' e'. ?rm rid' = Some e' \<and> re_drp e' = drp'"
    proof (cases "drp' = drp")
      case True
      then show ?thesis by (intro exI[of _ rid] exI[of _ "e\<lparr>re_drp := drp\<rparr>"]) simp
    next
      case False
      then have s: "Su drp' = Some v" "drp' \<noteq> re_drp e" using x by (auto split: if_splits)
      obtain rid' e' where "rm rid' = Some e'" "re_drp e' = drp'" using consistent_su[OF c s(1)] by blast
      then show ?thesis using s(2) e by (intro exI[of _ rid'] exI[of _ e']) auto
    qed
  qed
qed

text \<open>The record at \<open>old\<close> is now at the address that was returned; without space for the copy it stays where it was.\<close>

definition moved :: "('u, 'h) IdmlEnv \<Rightarrow> ('u IRecord \<Rightarrow> bool) \<Rightarrow> (RID \<rightharpoonup> 'u) \<Rightarrow> nat \<Rightarrow> nat \<Rightarrow> (DRP \<rightharpoonup> 'u) \<Rightarrow> (RID \<rightharpoonup> RidtEntry) \<Rightarrow> (PBA \<rightharpoonup> RID) \<Rightarrow>
    DRP \<Rightarrow> 'u \<Rightarrow> DRP result \<Rightarrow> 'u IDML \<Rightarrow> bool" where
  "moved E fits U nxt h Su rm am old u r i' \<longleftrightarrow>
     (case r of Inl e \<Rightarrow> e = ENOSPC \<and> holds E fits U nxt h i' Su rm am
      | Inr drp \<Rightarrow> (\<forall>drp' \<in> dom Su. drp_pba drp' \<noteq> drp_pba drp) \<and> holds E fits U nxt h i' (Su(old := None, drp \<mapsto> u)) rm am)"

context idml_env
begin

lemma raw_get_ok:
  assumes "holds E fits U nxt h i Su rm am" "Su drp = Some u"
  shows "\<exists>bs i'. on_ddml (\<lambda>d. ddml_get_direct (\<lambda>bs. Some (RawRec bs)) (ie_env E) d (drp_as_uncompressed drp)) i = Some (Inr (RawRec bs), i') \<and>
    holds E fits U nxt h i' Su rm am \<and> image_of (ie_env E) (drp_compressed drp) bs (URec u)"
proof (rule holdsE[OF assms(1)])
  fix Sr Sa
  assume s: "layer E fits U (id_ddml i) Sr Sa Su" "tree_wf Sr (id_ridt i)" "tree_wf Sa (id_alloct i)"
    "bt_get (tree_items Sr (id_ridt i)) = rm" "bt_get (tree_items Sa (id_alloct i)) = am"
    "id_next_rid i = nxt" "tr_height (id_ridt i) \<le> h" "tr_height (id_alloct i) \<le> h"
  note l = layer_user(1,2)[OF s(1) assms(2)]
  obtain bs d' where r: "ddml_get_direct (\<lambda>bs. Some (RawRec bs)) (ie_env E) (id_ddml i) (drp_as_uncompressed drp) = Some (Inr (RawRec bs), d')"
      "quiet_rep (ie_env E) fits (cached U) d' (records Sr Sa Su)" "image_of (ie_env E) (drp_compressed drp) bs (URec u)"
    by (rule raw_read[OF l, of RawRec])
  have "holds E fits U nxt h (i\<lparr>id_ddml := d'\<rparr>) Su rm am" using s r(2) by (intro holdsI) (simp_all add: layer_def)
  then show ?thesis using r(1,3) by (simp add: on_ddml_def)
qed

lemma raw_put_ok:
  assumes "holds E fits U nxt h i Su rm am" "fits (URec u)" "image_of (ie_env E) c bs (URec u)"
  shows "\<exists>r i'. on_ddml (\<lambda>d. ddml_put_direct (ie_env E) d (RawRec bs) CNone txg) i = Some (r, i') \<and>
    (case r of Inl e \<Rightarrow> e = ENOSPC \<and> holds E fits U nxt h i' Su rm am
     | Inr drp \<Rightarrow> \<not> drp_compressed drp \<and> (\<forall>drp' \<in> dom Su. drp_pba drp' \<noteq> drp_pba drp) \<and>
         (\<forall>drp2. same_extent drp2 drp \<longrightarrow> drp_compressed drp2 = c \<longrightarrow> holds E fits U nxt h i' (Su(drp2 \<mapsto> u)) rm am))"
proof (rule holdsE[OF assms(1)])
  fix Sr Sa
  assume s: "layer E fits U (id_ddml i) Sr Sa Su" "tree_wf Sr (id_ridt i)" "tree_wf Sa (id_alloct i)"
    "bt_get (tree_items Sr (id_ridt i)) = rm" "bt_get (tree_items Sa (id_alloct i)) = am"
    "id_next_rid i = nxt" "tr_height (id_ridt i) \<le> h" "tr_height (id_alloct i) \<le> h"
  have l: "quiet_rep (ie_env E) fits (cached U) (id_ddml i) (records Sr Sa Su)" "apart Sr Sa Su" using s(1) by (simp_all add: layer_def)
  obtain r d' where r: "ddml_put_direct (ie_env E) (id_ddml i) (RawRec bs) CNone txg = Some (r, d')"
      "case r of Inl e \<Rightarrow> e = ENOSPC \<and> quiet_rep (ie_env E) fits (cached U) d' (records Sr Sa Su)
       | Inr drp \<Rightarrow> \<not> drp_compressed drp \<and> (\<forall>drp' \<in> dom (records Sr Sa Su). drp_pba drp' \<noteq> drp_pba drp) \<and>
         (\<forall>drp2. same_extent drp2 drp \<longrightarrow> drp_compressed drp2 = c \<longrightarrow> quiet_rep (ie_env E) fits (cached U) d' ((records Sr Sa Su)(drp2 \<mapsto> URec u)))"
    using raw_write[OF l(1) assms(2,3) raw_ser] by blast
  have upd: "holds E fits U nxt h (i\<lparr>id_ddml := d'\<rparr>) Su' rm am" if "layer E fits U d' Sr Sa Su'" for Su'
    using s that by (intro holdsI) simp_all
  show ?thesis
  proof (cases r)
    case (Inl e)
    then show ?thesis using r upd[of Su] l(2) by (simp add: on_ddml_def layer_def)
  next
    case (Inr drp)
    have fresh: "\<forall>drp' \<in> dom (records Sr Sa Su). drp_pba drp' \<noteq> drp_pba drp" using r(2) Inr by simp
    have "layer E fits U d' Sr Sa (Su(drp2 \<mapsto> u))" if x: "same_extent drp2 drp" "drp_compressed drp2 = c" for drp2
    proof -
      have "records Sr Sa Su drp2 = None" using fresh x(1) by (cases "records Sr Sa Su drp2") (auto simp: same_extent_def)
      from embedsD(5,6)[OF embeds_records(3) l(2) this] show ?thesis using r(2) Inr x by (simp add: layer_def del: fun_upd_apply)
    qed
    then show ?thesis using r Inr upd fresh by (simp add: on_ddml_def records_dom)
  qed
qed

lemma rewrite_ok:
  assumes "holds E fits U nxt h i Su rm am" "Su old = Some u" "image_of (ie_env E) (drp_compressed old) bs (URec u)"
  shows "\<exists>r i'. rewrite_bytes E i bs old txg = Some (r, i') \<and>
    moved E fits U nxt h Su rm am old u (map_sum (\<lambda>e. e) (\<lambda>drp. drp_into_compressed drp old) r) i' \<and>
    (\<not> drp_compressed old \<longrightarrow> moved E fits U nxt h Su rm am old u r i')"
proof -
  obtain r i1 where r: "on_ddml (\<lambda>d. ddml_put_direct (ie_env E) d (RawRec bs) CNone txg) i = Some (r, i1)"
      "case r of Inl e \<Rightarrow> e = ENOSPC \<and> holds E fits U nxt h i1 Su rm am
       | Inr drp \<Rightarrow> \<not> drp_compressed drp \<and> (\<forall>drp' \<in> dom Su. drp_pba drp' \<noteq> drp_pba drp) \<and>
         (\<forall>drp2. same_extent drp2 drp \<longrightarrow> drp_compressed drp2 = drp_compressed old \<longrightarrow> holds E fits U nxt h i1 (Su(drp2 \<mapsto> u)) rm am)"
    using raw_put_ok[OF assms(1) user_fits[OF assms(1,2)] assms(3)] by blast
  show ?thesis
  proof (cases r)
    case (Inl e)
    then show ?thesis using r by (simp add: rewrite_bytes_def moved_def)
  next
    case (Inr drp)
    then have fresh: "\<forall>drp' \<in> dom Su. drp_pba drp' \<noteq> drp_pba drp" and nc: "\<not> drp_compressed drp"
      and h: "\<And>drp2. same_extent drp2 drp \<Longrightarrow> drp_compressed drp2 = drp_compressed old \<Longrightarrow> holds E fits U nxt h i1 (Su(drp2 \<mapsto> u)) rm am"
      using r(2) by simp_all
    have del: "\<exists>i2. on_ddml (\<lambda>d. ddml_delete_direct (ie_env E) d old txg) i1 = Some (Inr (), i2) \<and> holds E fits U nxt h i2 (Su(old := None, drp2 \<mapsto> u)) rm am"
      if x: "same_extent drp2 drp" "drp_compressed drp2 = drp_compressed old" for drp2
    proof -
      have ne: "old \<noteq> drp2" using fresh assms(2) x(1) by (auto simp: same_extent_def)
      from user_delete_direct_ok[OF h[OF x], of old u txg] show ?thesis using assms(2) ne by (simp add: fun_upd_twist)
    qed
    let ?drp = "drp_into_compressed drp old"
    have x: "same_extent ?drp drp" "drp_compressed ?drp = drp_compressed old" "same_extent drp drp" by (simp_all add: same_extent_def drp_into_compressed_def)
    obtain i2 where i2: "on_ddml (\<lambda>d. ddml_delete_direct (ie_env E) d old txg) i1 = Some (Inr (), i2)" "holds E fits U nxt h i2 (Su(old := None, ?drp \<mapsto> u)) rm am"
      using del[OF x(1,2)] by blast
    have "holds E fits U nxt h i2 (Su(old := None, drp \<mapsto> u)) rm am" if "\<not> drp_compressed old" using del[OF x(3)] that nc i2(1) by auto
    moreover have "drp_pba ?drp = drp_pba drp" by (simp add: drp_into_compressed_def)
    ultimately show ?thesis using r(1) Inr i2 fresh by (simp add: rewrite_bytes_def moved_def)
  qed
qed

lemma move_cache_miss_ok:
  assumes "holds E fits U nxt h i Su rm am" "Su (re_drp e) = Some u"
  shows "\<exists>r i'. move_cache_miss E i e txg = Some (r, i') \<and> moved E fits U nxt h Su rm am (re_drp e) u r i'"
proof -
  obtain bs i1 where g: "on_ddml (\<lambda>d. ddml_get_direct (\<lambda>bs. Some (RawRec bs)) (ie_env E) d (drp_as_uncompressed (re_drp e))) i = Some (Inr (RawRec bs), i1)"
      "holds E fits U nxt h i1 Su rm am" "image_of (ie_env E) (drp_compressed (re_drp e)) bs (URec u)"
    using raw_get_ok[OF assms] by blast
  obtain r i2 where "rewrite_bytes E i1 bs (re_drp e) txg = Some (r, i2)"
      "moved E fits U nxt h Su rm am (re_drp e) u (map_sum (\<lambda>e. e) (\<lambda>drp. drp_into_compressed drp (re_drp e)) r) i2"
    using rewrite_ok[OF g(2) assms(2) g(3)] by blast
  then show ?thesis using g(1) by (simp add: move_cache_miss_def Let_def)
qed

lemma rewrite_record_ok:
  assumes "holds E fits U nxt h i Su rm am" "Su (re_drp e) = Some u" "U rid = Some u"
  shows "\<exists>r i'. rewrite_record E i rid e txg = Some (r, i') \<and> moved E fits U nxt h Su rm am (re_drp e) u r i'"
proof (cases "drp_compressed (re_drp e) \<or> cache_get_ref (\<lambda>n. n) (Rid rid) (dd_cache (id_ddml i)) = None")
  case True
  then show ?thesis using move_cache_miss_ok[OF assms(1,2), of txg] by (auto simp: rewrite_record_def)
next
  case False
  then obtain t where t: "cache_get_ref (\<lambda>n. n) (Rid rid) (dd_cache (id_ddml i)) = Some t" and nc: "\<not> drp_compressed (re_drp e)" by blast
  then have "cache_content (dd_cache (id_ddml i)) (Rid rid) = Some t" by (auto simp: cache_get_ref_def cache_content_def)
  then have tu: "t = URec u" using cached_hit[OF assms(1)] assms(3) by fastforce
  have "image_of (ie_env E) (drp_compressed (re_drp e)) (ev_ser (ie_env E) t) (URec u)"
    using ser_len[OF user_fits[OF assms(1,2)]] nc tu by (simp add: image_of_def decode_def)
  from rewrite_ok[OF assms(1,2) this, of txg] show ?thesis using t nc by (auto simp: rewrite_record_def)
qed

lemma move_record_ok:
  assumes "idml_rep E fits X h i M" "M rid = Some (u, k)" "h + 3 < 2 ^ 63 - 1"
  shows "\<exists>r i'. move_record E i rid txg = Some (r, i') \<and>
    (case r of Inl x \<Rightarrow> x = ENOSPC \<and> idml_rep E fits X (h + 3) i' M
     | Inr drp \<Rightarrow> \<exists>e Su rm am i1. ridt_get E i rid = Some (Inr (Some e), i1) \<and> drp_pba drp \<noteq> drp_pba (re_drp e) \<and>
         holds E fits (map_option fst \<circ> M) (id_next_rid i) (h + 3) i' Su (rm(rid \<mapsto> e\<lparr>re_drp := drp\<rparr>)) (am(drp_pba drp \<mapsto> rid)) \<and> am (drp_pba (re_drp e)) = Some rid \<and>
         consistent (insert (drp_pba (re_drp e)) X) M (id_next_rid i) Su (rm(rid \<mapsto> e\<lparr>re_drp := drp\<rparr>)) (am(drp_pba drp \<mapsto> rid)))"
proof -
  let ?U = "map_option fst \<circ> M" and ?n = "id_next_rid i"
  obtain Su rm am where s: "holds E fits ?U ?n h i Su rm am" "consistent X M ?n Su rm am" by (rule idml_repE[OF assms(1)])
  obtain i1 where g: "ridt_get E i rid = Some (Inr (rm rid), i1)" "holds E fits ?U ?n (Suc h) i1 Su rm am"
    using ridt_get_ok[OF s(1)] assms(3) by force
  obtain e where e: "rm rid = Some e" using consistent_iff[OF s(2), of rid] assms(2) by (cases "rm rid") auto
  have u: "Su (re_drp e) = Some u" "?U rid = Some u" using consistentD(5)[OF s(2) e] assms(2) by auto
  obtain r i2 where r: "rewrite_record E i1 rid e txg = Some (r, i2)" "moved E fits ?U ?n (Suc h) Su rm am (re_drp e) u r i2"
    using rewrite_record_ok[OF g(2) u, of txg] by blast
  show ?thesis
  proof (cases r)
    case (Inl x)
    then have "x = ENOSPC" "holds E fits ?U ?n (Suc h) i2 Su rm am" using r(2) by (simp_all add: moved_def)
    moreover from this have "idml_rep E fits X (h + 3) i2 M" using idml_rep_mono[OF idml_repI[OF _ s(2)]] by simp
    moreover have "move_record E i rid txg = Some (Inl x, i2)" using g(1) e r(1) Inl by (simp add: move_record_def)
    ultimately show ?thesis by simp
  next
    case (Inr drp)
    let ?Su = "Su(re_drp e := None, drp \<mapsto> u)"
    have m: "\<forall>drp' \<in> dom Su. drp_pba drp' \<noteq> drp_pba drp" "holds E fits ?U ?n (Suc h) i2 ?Su rm am" using r(2) Inr by (simp_all add: moved_def)
    obtain i3 where a: "ridt_insert E i2 rid (e\<lparr>re_drp := drp\<rparr>) txg = Some (Inr (rm rid), i3)"
        "holds E fits ?U ?n (Suc (Suc h)) i3 ?Su (rm(rid \<mapsto> e\<lparr>re_drp := drp\<rparr>)) am"
      using ridt_insert_ok[OF m(2)] assms(3) by force
    obtain i4 where b: "alloct_insert E i3 (drp_pba drp) rid txg = Some (Inr (am (drp_pba drp)), i4)"
        "holds E fits ?U ?n (Suc (Suc (Suc h))) i4 ?Su (rm(rid \<mapsto> e\<lparr>re_drp := drp\<rparr>)) (am(drp_pba drp \<mapsto> rid))"
      using alloct_insert_ok[OF a(2)] assms(3) by force
    have "move_record E i rid txg = Some (Inr drp, i4)" using g(1) e r(1) Inr a(1) b(1) by (simp add: move_record_def)
    moreover have "drp_pba drp \<noteq> drp_pba (re_drp e)" using m(1) u(1) by auto
    moreover have "holds E fits ?U ?n (h + 3) i4 ?Su (rm(rid \<mapsto> e\<lparr>re_drp := drp\<rparr>)) (am(drp_pba drp \<mapsto> rid))" by (rule holds_mono[OF b(2)]) simp_all
    moreover have "ridt_get E i rid = Some (Inr (Some e), i1)" using g(1) e by simp
    ultimately show ?thesis using consistent_move[OF s(2) e u(1) m(1)] consistentD(4)[OF s(2) e] by auto
  qed
qed

end

end
