(* ===== verification/Idml_Flush.thy ===== *)
theory Idml_Flush
  imports Idml_Ops
begin

text \<open>
  Flushing the trees of the indirect layer, and opening the layer again from its label.
\<close>

text \<open>The nodes of a tree fit into records if those of the largest fanout do.\<close>

definition nodes_fit :: "((DRP, 'k, 'v) NodeData \<Rightarrow> bool) \<Rightarrow> (DRP, 'k, 'v) Tree \<Rightarrow> bool" where
  "nodes_fit fits t \<longleftrightarrow> (\<forall>n. node_clean n \<longrightarrow> node_len n \<le> node_max_fanout (tr_limits t) n \<longrightarrow> fits n)"

lemma quiet_flush:
  assumes "tree_store (strict_dml dml) rep fits" "rep d L" "tree_wf L t" "nodes_fit fits t"
  obtains r t' d' L' where "tree_flush dml False vflush t txg d = Some (r, t', d')" "rep d' L'" "only_full r"
    "r = Inr () \<longrightarrow> tree_wf L' t' \<and> \<not> tree_is_dirty t' \<and> tree_items L' t' = tree_items L t \<and> tr_height t' = tr_height t"
proof -
  obtain r t' d' L' where f: "tree_flush (strict_dml dml) False vflush t txg d = Some (r, t', d')" "rep d' L'"
      "r = Inr () \<Longrightarrow> tree_wf L' t' \<and> \<not> tree_is_dirty t' \<and> tree_items L' t' = tree_items L t \<and>
       adds L (tree_addrs L t) L' (tree_addrs L' t') \<and> tr_height t' = tr_height t \<and> tr_limits t' = tr_limits t"
    by (rule tree_store.flush_tree[OF assms(1-3), of vflush txg]) (use assms(4) in \<open>auto simp: nodes_fit_def\<close>)
  show ?thesis by (rule that[of r t' d' L']) (use f tree_flush_strict[OF f(1)] in auto)
qed

lemma reopen:
  fixes t :: "('a, 'k :: {linorder, order_bot}, 'v) Tree"
  assumes "tree_store dml rep fits" "tree_wf L t" "\<not> tree_is_dirty t"
  obtains tod where "tree_serialize t = Some tod" "tree_wf L (tree_open is ls seq tod)" "tree_items L (tree_open is ls seq tod) = tree_items L t"
    "tr_height (tree_open is ls seq tod :: ('a, 'k, 'v) Tree) = tr_height t"
proof -
  obtain tod where t: "tree_serialize t = Some tod" "tree_wf L (tree_open is ls seq tod)" "tree_items L (tree_open is ls seq tod) = tree_items L t"
    by (rule tree_store.reopen_tree[OF assms])
  then have "tr_height (tree_open is ls seq tod :: ('a, 'k, 'v) Tree) = tr_height t"
    by (auto simp: tree_serialize_def tree_open_def inner_new_def bind_eq_Some_conv)
  then show ?thesis using that t by blast
qed

context idml_env
begin

lemma flush_open_ok:
  assumes "idml_rep E fits X h i M" "nodes_fit (\<lambda>n. fits (RNode n)) (id_ridt i)" "nodes_fit (\<lambda>n. fits (ANode n)) (id_alloct i)"
  shows "\<exists>r i'. idml_flush_trees E i txg = Some (r, i') \<and> only_full r \<and>
    (r = Inr () \<longrightarrow> (\<exists>l. idml_label i' txg = Some l \<and> idml_rep E fits X h (idml_open asizes rsizes (id_ddml i') l) M \<and>
       id_next_rid (idml_open asizes rsizes (id_ddml i') l) = id_next_rid i))"
proof -
  let ?U = "map_option fst \<circ> M" and ?n = "id_next_rid i" and ?v = "\<lambda>v _ d. Some (Inr v, d)"
  obtain Su rm am where s: "holds E fits ?U ?n h i Su rm am" "consistent X M ?n Su rm am" by (rule idml_repE[OF assms(1)])
  obtain Sr Sa where l: "layer E fits ?U (id_ddml i) Sr Sa Su" "tree_wf Sr (id_ridt i)" "tree_wf Sa (id_alloct i)"
    "bt_get (tree_items Sr (id_ridt i)) = rm" "bt_get (tree_items Sa (id_alloct i)) = am"
    "id_next_rid i = ?n" "tr_height (id_ridt i) \<le> h" "tr_height (id_alloct i) \<le> h"
    by (rule holdsE[OF s(1)])
  obtain r1 t1 d1 Sa1 where a: "tree_flush (alloct_dml E) False ?v (id_alloct i) txg (id_ddml i) = Some (r1, t1, d1)" "layer E fits ?U d1 Sr Sa1 Su" "only_full r1"
      "r1 = Inr () \<longrightarrow> tree_wf Sa1 t1 \<and> \<not> tree_is_dirty t1 \<and> tree_items Sa1 t1 = tree_items Sa (id_alloct i) \<and> tr_height t1 = tr_height (id_alloct i)"
    by (rule quiet_flush[OF alloct_store l(1,3) assms(3), where vflush = ?v and txg = txg])
  obtain r2 t2 d2 Sr2 where b: "tree_flush (ridt_dml E) False ?v (id_ridt i) txg d1 = Some (r2, t2, d2)" "layer E fits ?U d2 Sr2 Sa1 Su" "only_full r2"
      "r2 = Inr () \<longrightarrow> tree_wf Sr2 t2 \<and> \<not> tree_is_dirty t2 \<and> tree_items Sr2 t2 = tree_items Sr (id_ridt i) \<and> tr_height t2 = tr_height (id_ridt i)"
    by (rule quiet_flush[OF ridt_store a(2) l(2) assms(2), where vflush = ?v and txg = txg])
  let ?i = "i\<lparr>id_alloct := t1, id_ddml := d2, id_ridt := t2\<rparr>"
  have f: "idml_flush_trees E i txg = Some (case r1 of Inl e \<Rightarrow> Inl e | Inr _ \<Rightarrow> r2, ?i)" using a(1) b(1) by (simp add: idml_flush_trees_def)
  have "\<exists>l. idml_label ?i txg = Some l \<and> idml_rep E fits X h (idml_open asizes rsizes d2 l) M \<and> id_next_rid (idml_open asizes rsizes d2 l) = ?n"
    if r: "r1 = Inr ()" "r2 = Inr ()"
  proof -
    have wa: "tree_wf Sa1 t1" "\<not> tree_is_dirty t1" and wb: "tree_wf Sr2 t2" "\<not> tree_is_dirty t2" using a(4) b(4) r by simp_all
    obtain ta where ta: "tree_serialize t1 = Some ta" "tree_wf Sa1 (tree_open (fst asizes) (snd asizes) True ta)"
        "tree_items Sa1 (tree_open (fst asizes) (snd asizes) True ta) = tree_items Sa1 t1" "tr_height (tree_open (fst asizes) (snd asizes) True ta :: (DRP, PBA, RID) Tree) = tr_height t1"
      by (rule reopen[OF alloct_store wa])
    obtain tb where tb: "tree_serialize t2 = Some tb" "tree_wf Sr2 (tree_open (fst rsizes) (snd rsizes) True tb)"
        "tree_items Sr2 (tree_open (fst rsizes) (snd rsizes) True tb) = tree_items Sr2 t2" "tr_height (tree_open (fst rsizes) (snd rsizes) True tb :: (DRP, RID, RidtEntry) Tree) = tr_height t2"
      by (rule reopen[OF ridt_store wb])
    let ?l = "\<lparr>il_alloct = ta, il_next_rid = ?n, il_ridt = tb, il_txg = txg\<rparr>"
    have "holds E fits ?U ?n h (idml_open asizes rsizes d2 ?l) Su rm am"
      by (rule holdsI[of E fits ?U _ Sr2 Sa1]) (use b(2,4) a(4) ta tb r l in \<open>simp_all add: idml_open_def\<close>)
    moreover have "idml_label ?i txg = Some ?l" using ta(1) tb(1) by (simp add: idml_label_def)
    ultimately show ?thesis using idml_repI[OF _ s(2)] by (auto simp: idml_open_def)
  qed
  then show ?thesis using f a(3) b(3) by (cases r1) auto
qed

end

end
