(* ===== verification/Ddml_Tree_Correct.thy ===== *)
theory Ddml_Tree_Correct
  imports Ddml_Tree
begin

text \<open>
  The correctness of the direct data management layer and of the trees on it, with an environment in which all that they
  rely on holds: records are encoded as sequences of fields, the compressor appends a byte, the hash is the sum of the bytes.
\<close>

section \<open>An environment\<close>

fun elem_ser :: "(DRP, nat, nat) IntElem \<Rightarrow> IoVec" where
  "elem_ser (IntElem k t (PAddr a)) =
     [k, txg_start t, txg_end t, pba_cluster (drp_pba a), pba_lba (drp_pba a), of_bool (drp_compressed a), drp_lsize a, drp_csize a, drp_checksum a]"
| "elem_ser _ = []"

fun ex_ser :: "(DRP, nat, nat) NodeData \<Rightarrow> IoVec" where
  "ex_ser (LeafNode xs) = 0 # concat (map (\<lambda>(k, v). [k, v]) xs)"
| "ex_ser (IntNode es) = 1 # concat (map elem_ser es)"

fun pairs_deser :: "IoVec \<Rightarrow> (nat \<times> nat) list option" where
  "pairs_deser [] = Some []"
| "pairs_deser (k # v # bs) = map_option (Cons (k, v)) (pairs_deser bs)"
| "pairs_deser _ = None"

fun elems_deser :: "IoVec \<Rightarrow> (DRP, nat, nat) IntElem list option" where
  "elems_deser [] = Some []"
| "elems_deser (k # s # e # c # l # z # ls # cs # ck # bs) =
     map_option (Cons (IntElem k \<lparr>txg_start = s, txg_end = e\<rparr>
       (PAddr \<lparr>drp_pba = PBA c l, drp_compressed = (z = 1), drp_lsize = ls, drp_csize = cs, drp_checksum = ck\<rparr>))) (elems_deser bs)"
| "elems_deser _ = None"

fun ex_deser :: "IoVec \<Rightarrow> (DRP, nat, nat) NodeData option" where
  "ex_deser (b # bs) = (if b = 0 then map_option LeafNode (pairs_deser bs) else map_option IntNode (elems_deser bs))"
| "ex_deser [] = None"

definition ex_env :: "((DRP, nat, nat) NodeData, nat) DdmlEnv" where
  "ex_env = \<lparr>ev_zl = \<lambda>_. ex_zl, ev_lz = \<lambda>_. ex_lz, ev_weight = \<lambda>s i. if 0 < st_size s ! i then Some (int (st_allocated_space s ! i * 100 div st_size s ! i)) else None, ev_hnew = 0, ev_hwrite = \<lambda>h bs. h + sum_list bs, ev_hfinish = \<lambda>h. h,
     ev_blosc = \<lambda>_ bs. bs @ [0], ev_unblosc = \<lambda>bs. Some (butlast bs), ev_ser = ex_ser, ev_len = \<lambda>_. 1\<rparr>"

definition ex_fits :: "(DRP, nat, nat) NodeData \<Rightarrow> bool" where
  "ex_fits n \<longleftrightarrow> node_clean n \<and> node_len n \<le> 100"

lemma ex_roundtrip: "node_clean n \<Longrightarrow> ex_deser (ex_ser n) = Some n"
proof (cases n)
  case (LeafNode xs)
  have "pairs_deser (concat (map (\<lambda>(k, v). [k, v]) xs)) = Some xs" by (induction xs) auto
  then show ?thesis using LeafNode by simp
next
  case (IntNode es)
  have "clean es \<Longrightarrow> elems_deser (concat (map elem_ser es)) = Some es"
  proof (induction es)
    case (Cons e es)
    then obtain k t a where "e = IntElem k t (PAddr a)" by (cases e) (auto simp: clean_def elim: ptr_is_addr.elims)
    then show ?case using Cons by (simp add: clean_def)
  qed simp
  then show "node_clean n \<Longrightarrow> ?thesis" using IntNode by simp
qed

lemma ex_ser_len: "length (ex_ser n) \<le> 1 + 9 * node_len n"
proof (cases n)
  case (LeafNode xs)
  have "length (concat (map (\<lambda>(k, v). [k, v]) xs)) = 2 * length xs" by (induction xs) auto
  then show ?thesis using LeafNode by simp
next
  case (IntNode es)
  have "length (elem_ser e) \<le> 9" for e by (induction e rule: elem_ser.induct) simp_all
  then have "length (concat (map elem_ser es)) \<le> 9 * length es" by (induction es) (simp_all add: add_mono)
  then show ?thesis using IntNode by simp
qed

abbreviation any_cached :: "CacheKey \<Rightarrow> 'n \<Rightarrow> bool" where
  "any_cached \<equiv> \<lambda>_ _. True"

interpretation ex: ddml_tree ex_env ex_fits ex_deser any_cached
proof
  fix n assume f: "ex_fits n"
  then show "ex_deser (ev_ser ex_env n) = Some n" using ex_roundtrip by (simp add: ex_env_def ex_fits_def)
  show "0 < length (ev_ser ex_env n) \<and> length (ev_ser ex_env n) < u32_max"
    using f ex_ser_len[of n] by (cases n) (simp_all add: ex_env_def ex_fits_def)
qed (simp_all add: ex_env_def weights_ok_def)

definition ex_disk :: Disk where
  "ex_disk = \<lparr>dk_blocks = \<lambda>_. [], dk_faults = [], dk_erase_faults = []\<rparr>"

definition ex_ddml :: "(DRP, nat, nat) NodeData DDML" where
  "ex_ddml = ddml_new (pool_new ''tank'' 1 [240] [(ex_cluster, ex_disk)]) (cache_with_capacity 1000)"

lemma ex_rep: "ddml_rep ex_env ex_fits any_cached ex_ddml Map.empty" and ex_quiet: "pool_quiet (dd_pool ex_ddml)"
proof -
  have "cluster_inv ex_zl ex_lz ex_cluster {(0, 1)}" using run_inv[OF ex_run] by blast
  then have "pool_holds ex_env ex_fits (dd_pool ex_ddml) (\<lambda>_. {(0, 1)}) Map.empty"
    by (simp add: pool_holds_def pool_inv_def ex_env_def ex_ddml_def ddml_new_def pool_new_def ex_disk_def)
  moreover have "cache_ok (ev_len ex_env) (cache_with_capacity 1000)"
    unfolding cache_ok_def by (intro exI[of _ "[]"]) (simp add: cache_list_def cache_with_capacity_def)
  then have "cache_agrees ex_env ex_fits any_cached (dd_cache ex_ddml) Map.empty"
    by (simp add: cache_agrees_def ex_ddml_def ddml_new_def ex_env_def cache_with_capacity_def cache_content_def)
  ultimately show "ddml_rep ex_env ex_fits any_cached ex_ddml Map.empty" by (rule ddml_repI)
  show "pool_quiet (dd_pool ex_ddml)" by (simp add: pool_quiet_def ex_ddml_def ddml_new_def pool_new_def ex_disk_def)
qed

definition ex_limits :: Limits where
  "ex_limits = \<lparr>min_int_fanout = 2, max_int_fanout = 5, min_leaf_fanout = 2, max_leaf_fanout = 5\<rparr>"

lemma tree_new_wf:
  assumes "fanouts_ok lim"
  shows "tree_wf L (tree_new int_size leaf_size lim seq)" "tree_items L (tree_new int_size leaf_size lim seq) = []"
  using assms by (auto simp: tree_new_def inner_new_def elem_default_def tree_wf_mem tree_wf_def tree_items_def elem_wf_def elem_items_def
      elem_addrs_def elem_map_def bt_ok_def node_max_fanout_def fanouts_ok_def)

section \<open>Records\<close>

text \<open>The operations of a data management layer, their outcomes, and the specification: a partial map from addresses to records.\<close>

datatype ('a, 'n) DmlOp = DGet 'a | DPop 'a TxgT | DDelete 'a TxgT | DPut 'n Compression TxgT

datatype ('a, 'n) DmlOut = OGet "'n result" | OPop "'n result" | ODelete "unit result" | OPut "'a result"

fun dml_exec :: "('d, 'a, 'n) Dml \<Rightarrow> ('a, 'n) DmlOp \<Rightarrow> 'd \<Rightarrow> (('a, 'n) DmlOut \<times> 'd) option" where
  "dml_exec dml (DGet a) d = map_option (\<lambda>(r, d). (OGet r, d)) (dml_get dml d a)"
| "dml_exec dml (DPop a txg) d = map_option (\<lambda>(r, d). (OPop r, d)) (dml_pop dml d a txg)"
| "dml_exec dml (DDelete a txg) d = map_option (\<lambda>(r, d). (ODelete r, d)) (dml_delete dml d a txg)"
| "dml_exec dml (DPut n c txg) d = map_option (\<lambda>(r, d). (OPut r, d)) (dml_put dml d n c txg)"

fun dml_legal :: "('n \<Rightarrow> bool) \<Rightarrow> ('a \<rightharpoonup> 'n) \<Rightarrow> ('a, 'n) DmlOp \<Rightarrow> bool" where
  "dml_legal fits L (DGet a) \<longleftrightarrow> L a \<noteq> None"
| "dml_legal fits L (DPop a txg) \<longleftrightarrow> L a \<noteq> None"
| "dml_legal fits L (DDelete a txg) \<longleftrightarrow> L a \<noteq> None"
| "dml_legal fits L (DPut n c txg) \<longleftrightarrow> fits n"

fun dml_spec :: "('a \<rightharpoonup> 'n) \<Rightarrow> ('a, 'n) DmlOp \<Rightarrow> ('a, 'n) DmlOut \<Rightarrow> ('a \<rightharpoonup> 'n) \<Rightarrow> bool" where
  "dml_spec L (DGet a) (OGet (Inr n)) L' \<longleftrightarrow> L a = Some n \<and> L' = L"
| "dml_spec L (DGet a) (OGet (Inl e)) L' \<longleftrightarrow> L' = L"
| "dml_spec L (DPop a txg) (OPop (Inr n)) L' \<longleftrightarrow> L a = Some n \<and> L' = L(a := None)"
| "dml_spec L (DPop a txg) (OPop (Inl e)) L' \<longleftrightarrow> L' = L"
| "dml_spec L (DDelete a txg) (ODelete (Inr u)) L' \<longleftrightarrow> L' = L(a := None)"
| "dml_spec L (DDelete a txg) (ODelete (Inl e)) L' \<longleftrightarrow> L' = L"
| "dml_spec L (DPut n c txg) (OPut (Inr a)) L' \<longleftrightarrow> L a = None \<and> L' = L(a \<mapsto> n)"
| "dml_spec L (DPut n c txg) (OPut (Inl e)) L' \<longleftrightarrow> L' = L"
| "dml_spec L _ _ L' \<longleftrightarrow> False"

fun out_ok :: "('a, 'n) DmlOut \<Rightarrow> bool" where
  "out_ok (OGet r) \<longleftrightarrow> (\<exists>n. r = Inr n)"
| "out_ok (OPop r) \<longleftrightarrow> (\<exists>n. r = Inr n)"
| "out_ok (ODelete r) \<longleftrightarrow> r = Inr ()"
| "out_ok (OPut r) \<longleftrightarrow> (\<forall>e. r = Inl e \<longrightarrow> e = ENOSPC)"

text \<open>C3. The direct data management layer refines a map from addresses to records. Every operation on a held address, and every \<open>put\<close> of a record that
  fits, completes without a panic and acts on the map or fails without an effect: \<open>get\<close> and \<open>pop\<close> return exactly the record that was put, whether from the cache
  or read, checked and decompressed from the disks, and \<open>put\<close> chooses an address that is free. If no disk operation fails, only
  a \<open>put\<close> can fail, and only for lack of space.\<close>

theorem ddml_refines_map:
  assumes "ddml_typed env fits deser R" "ddml_rep env fits R d L" "dml_legal fits L op"
  shows "\<exists>out d' L'. dml_exec (ddml_dml deser env) op d = Some (out, d') \<and> ddml_rep env fits R d' L' \<and> dml_spec L op out L' \<and>
    (pool_quiet (dd_pool d) \<longrightarrow> pool_quiet (dd_pool d') \<and> out_ok out)"
proof -
  have env: "ddml_env env fits" using assms(1) by (simp add: ddml_typed_def)
  show ?thesis
proof (cases op)
  case (DGet a)
  then obtain n where n: "L a = Some n" using assms(3) by auto
  obtain r d' where r: "ddml_get deser env d a = Some (r, d')" "ddml_rep env fits R d' L" "\<forall>n'. r = Inr n' \<longrightarrow> n' = n"
      "pool_quiet (dd_pool d) \<longrightarrow> pool_quiet (dd_pool d') \<and> (\<exists>n. r = Inr n)"
    using ddml_env.ddml_get_law[OF env assms(2) n, of deser] ddml_typed.held_deser[OF assms(1,2) n] by blast
  have "dml_spec L op (OGet r) L" using r(3) n DGet by (cases r) simp_all
  then show ?thesis using r DGet by (intro exI[of _ "OGet r"] exI[of _ d'] exI[of _ L]) (simp add: ddml_dml_def)
next
  case (DPop a txg)
  then obtain n where n: "L a = Some n" using assms(3) by auto
  obtain r d' L' where r: "ddml_pop deser env d a txg = Some (r, d')" "ddml_rep env fits R d' L'" "case r of Inr n' \<Rightarrow> n' = n \<and> L' = L(a := None) | Inl _ \<Rightarrow> L' = L"
      "pool_quiet (dd_pool d) \<longrightarrow> pool_quiet (dd_pool d') \<and> (\<exists>n. r = Inr n)"
    using ddml_env.ddml_pop_law[OF env assms(2) n, of deser] ddml_typed.held_deser[OF assms(1,2) n] by blast
  have "dml_spec L op (OPop r) L'" using r(3) n DPop by (cases r) simp_all
  then show ?thesis using r DPop by (intro exI[of _ "OPop r"] exI[of _ d'] exI[of _ L']) (simp add: ddml_dml_def)
next
  case (DDelete a txg)
  then obtain n where n: "L a = Some n" using assms(3) by auto
  obtain r d' L' where r: "ddml_delete env d a txg = Some (r, d')" "ddml_rep env fits R d' L'" "case r of Inr _ \<Rightarrow> L' = L(a := None) | Inl _ \<Rightarrow> L' = L"
      "pool_quiet (dd_pool d) \<longrightarrow> pool_quiet (dd_pool d') \<and> r = Inr ()"
    using ddml_env.ddml_delete_law[OF env assms(2) n] by blast
  have "dml_spec L op (ODelete r) L'" using r(3) DDelete by (cases r) simp_all
  then show ?thesis using r DDelete by (intro exI[of _ "ODelete r"] exI[of _ d'] exI[of _ L']) (simp add: ddml_dml_def)
next
  case (DPut n c txg)
  then have f: "fits n" using assms(3) by simp
  obtain r d' L' where r: "ddml_put env d n c txg = Some (r, d')" "ddml_rep env fits R d' L'"
      "case r of Inr a \<Rightarrow> L a = None \<and> L' = L(a \<mapsto> n) | Inl _ \<Rightarrow> L' = L"
      "pool_quiet (dd_pool d) \<longrightarrow> pool_quiet (dd_pool d') \<and> (\<forall>e. r = Inl e \<longrightarrow> e = ENOSPC)"
    using ddml_env.ddml_put_law[OF env assms(2) f] ddml_typed.cacheable[OF assms(1) f] by blast
  have "dml_spec L op (OPut r) L'" using r(3) DPut by (cases r) simp_all
  then show ?thesis using r DPut by (intro exI[of _ "OPut r"] exI[of _ d'] exI[of _ L']) (simp add: ddml_dml_def)
qed
qed

theorem ddml_refines_map_witness:
  "\<exists>r d' L'. ddml_put ex_env ex_ddml (LeafNode [(1, 2)]) (LZ4 None) 3 = Some (r, d') \<and> ddml_rep ex_env ex_fits any_cached d' L' \<and>
     (\<forall>drp. r = Inr drp \<longrightarrow> L' = [drp \<mapsto> LeafNode [(1, 2)]])"
proof -
  have "dml_legal ex_fits Map.empty (DPut (LeafNode [(1, 2)]) (LZ4 None) 3)" by (simp add: ex_fits_def)
  from ddml_refines_map[OF ex.ddml_typed_axioms ex_rep this] obtain out d' L' where
    o: "dml_exec (ddml_dml ex_deser ex_env) (DPut (LeafNode [(1, 2)]) (LZ4 None) 3) ex_ddml = Some (out, d')" "ddml_rep ex_env ex_fits any_cached d' L'"
      "dml_spec Map.empty (DPut (LeafNode [(1, 2)]) (LZ4 None) 3) out L'"
    by blast
  obtain r where r: "ddml_put ex_env ex_ddml (LeafNode [(1, 2)]) (LZ4 None) 3 = Some (r, d')" "out = OPut r"
    using o(1) by (auto simp: ddml_dml_def)
  then show ?thesis using o(2,3) by (cases r) auto
qed

section \<open>Trees\<close>

text \<open>C2. A tree on the direct data management layer is a sorted map: every run of insertions, lookups and removals terminates without a
  panic (the recursions need no more than twice the height as fuel) and keeps the tree a well-formed B+-tree. Each operation returns what the sorted
  map returns, or an error and then leaves the map as it was; if no disk operation fails, no operation returns an error.\<close>

theorem tree_refines_map:
  assumes "ddml_tree env fits deser R" "ddml_rep env fits R d L" "tree_wf L t"
    "2 * (tr_height t + length ops) \<le> fuel" "tr_height t + length ops < 2 ^ 63 - 1"
  shows "\<exists>rs t' d' L'. tree_run (ddml_dml deser env) fuel ops t d = Some (rs, t', d') \<and> ddml_rep env fits R d' L' \<and> tree_wf L' t' \<and>
    map_run (tree_items L t) ops rs (tree_items L' t') \<and> (pool_quiet (dd_pool d) \<longrightarrow> (\<forall>r \<in> set rs. \<exists>x. r = Inr x))"
proof -
  obtain rs t' d' L' where 1: "tree_run (ddml_dml deser env) fuel ops t d = Some (rs, t', d')" "ddml_rep env fits R d' L'" "tree_wf L' t'"
      "map_run (tree_items L t) ops rs (tree_items L' t')"
    using tree_store.tree_run_ok[OF ddml_tree.store[OF assms(1)] assms(2-5)] by blast
  moreover have "\<forall>r \<in> set rs. \<exists>x. r = Inr x" if "pool_quiet (dd_pool d)"
  proof -
    have "quiet_rep env fits R d L" using assms(2) that by (simp add: quiet_rep_def)
    from tree_store.tree_run_ok[OF ddml_tree.quiet_store[OF assms(1)] this assms(3-5)] tree_run_strict 1(1) show ?thesis by fastforce
  qed
  ultimately show ?thesis by blast
qed

theorem tree_refines_map_witness:
  "\<exists>t' d'. tree_run (ddml_dml ex_deser ex_env) 100 [TInsert 7 70 1, TGet 7, TRemove 7 1, TGet 7] (tree_new 16 16 ex_limits False) ex_ddml =
     Some ([Inr None, Inr (Some 70), Inr (Some 70), Inr None], t', d')"
proof -
  let ?ops = "[TInsert 7 70 1, TGet 7, TRemove 7 1, TGet 7] :: (nat, nat) TreeOp list" and ?t = "tree_new 16 16 ex_limits False :: (DRP, nat, nat) Tree"
  have lim: "fanouts_ok ex_limits" by (simp add: fanouts_ok_def ex_limits_def)
  have h: "tr_height ?t = 1" by (simp add: tree_new_def inner_new_def)
  have f: "2 * (tr_height ?t + length ?ops) \<le> 100" "tr_height ?t + length ?ops < 2 ^ 63 - 1" using h by simp_all
  obtain rs t' d' L' where r: "tree_run (ddml_dml ex_deser ex_env) 100 ?ops ?t ex_ddml = Some (rs, t', d')" "map_run (tree_items Map.empty ?t) ?ops rs (tree_items L' t')"
      "\<forall>r \<in> set rs. \<exists>x. r = Inr x"
    using tree_refines_map[OF ex.ddml_tree_axioms ex_rep tree_new_wf(1)[OF lim] f] ex_quiet by blast
  have "rs = [Inr None, Inr (Some 70), Inr (Some 70), Inr None]"
    using r(2,3) unfolding tree_new_wf(2)[OF lim] by (auto elim!: map_run.elims simp: bt_get_def bt_remove_def)
  then show ?thesis using r(1) by blast
qed

text \<open>The tree is well formed, and every lookup answers from the items.\<close>

definition reads_as ::
    "('d, 'a, ('a, 'k :: {linorder, order_bot}, 'v) NodeData) Dml \<Rightarrow> ('a, 'k, 'v) store \<Rightarrow> 'd \<Rightarrow> ('a, 'k, 'v) Tree \<Rightarrow> ('k \<times> 'v) list \<Rightarrow> bool" where
  "reads_as dml L d t items \<longleftrightarrow> tree_wf L t \<and> tree_items L t = items \<and>
     (\<forall>k. \<exists>r d'. tree_get dml (tr_height t) t k d = Some (r, d') \<and> (\<forall>x. r = Inr x \<longrightarrow> x = bt_get items k))"

lemma reads_asI:
  assumes "tree_store dml rep fits" "rep d L" "tree_wf L t"
  shows "reads_as dml L d t (tree_items L t)"
  unfolding reads_as_def
proof (intro conjI allI)
  fix k
  show "\<exists>r d'. tree_get dml (tr_height t) t k d = Some (r, d') \<and> (\<forall>x. r = Inr x \<longrightarrow> x = bt_get (tree_items L t) k)"
    by (rule tree_store.get_tree[OF assms order_refl, of k]) blast
qed (use assms(3) in simp_all)

text \<open>C4. A flush writes the whole tree: if it succeeds, the tree can be serialized, and the tree that is opened from its serialized form holds the
  same items and answers every lookup as the tree did. If no disk operation fails, a flush can fail only for lack of space.\<close>

theorem flush_open_roundtrip:
  assumes "ddml_tree env fits deser R" "ddml_rep env fits R d L" "tree_wf L t"
    "\<And>n. node_clean n \<Longrightarrow> node_len n \<le> node_max_fanout (tr_limits t) n \<Longrightarrow> fits n"
  shows "\<exists>r t' d' L'. tree_flush (ddml_dml deser env) False vflush t txg d = Some (r, t', d') \<and> ddml_rep env fits R d' L' \<and>
    (pool_quiet (dd_pool d) \<longrightarrow> only_full r) \<and>
    (r = Inr () \<longrightarrow> (\<exists>tod. tree_serialize t' = Some tod \<and> reads_as (ddml_dml deser env) L' d' (tree_open int_size leaf_size seq tod) (tree_items L t)))"
proof -
  note st = ddml_tree.store[OF assms(1)]
  obtain r t' d' L' where f: "tree_flush (ddml_dml deser env) False vflush t txg d = Some (r, t', d')" "ddml_rep env fits R d' L'"
      "r = Inr () \<Longrightarrow> tree_wf L' t' \<and> \<not> tree_is_dirty t' \<and> tree_items L' t' = tree_items L t \<and>
       adds L (tree_addrs L t) L' (tree_addrs L' t') \<and> tr_height t' = tr_height t \<and> tr_limits t' = tr_limits t"
    by (rule tree_store.flush_tree[OF st assms(2,3), of vflush txg]) (use assms(4) in auto)
  have full: "only_full r" if "pool_quiet (dd_pool d)"
  proof -
    have q: "quiet_rep env fits R d L" using assms(2) that by (simp add: quiet_rep_def)
    obtain rq tq dq where "tree_flush (strict_dml (ddml_dml deser env)) False vflush t txg d = Some (rq, tq, dq)"
      by (rule tree_store.flush_tree[OF ddml_tree.quiet_store[OF assms(1)] q assms(3), of vflush txg]) (use assms(4) in auto)
    from tree_flush_strict[OF this] f(1) show ?thesis by simp
  qed
  have re: "\<exists>tod. tree_serialize t' = Some tod \<and> reads_as (ddml_dml deser env) L' d' (tree_open int_size leaf_size seq tod) (tree_items L t)" if r: "r = Inr ()"
  proof -
    have w: "tree_wf L' t'" "\<not> tree_is_dirty t'" "tree_items L' t' = tree_items L t" using f(3)[OF r] by simp_all
    obtain tod where t2: "tree_serialize t' = Some tod" "tree_wf L' (tree_open int_size leaf_size seq tod)"
        "tree_items L' (tree_open int_size leaf_size seq tod) = tree_items L' t'"
      by (rule tree_store.reopen_tree[OF st w(1,2)])
    show ?thesis using t2(1) reads_asI[OF st f(2) t2(2)] t2(3) w(3) by auto
  qed
  show ?thesis
    by (intro exI[of _ r] exI[of _ t'] exI[of _ d'] exI[of _ L'] conjI impI; (rule f full re; assumption)?)
qed

theorem flush_open_roundtrip_witness:
  "\<exists>r t' d' L'. tree_flush (ddml_dml ex_deser ex_env) False (\<lambda>v _ d. Some (Inr v, d)) (tree_new 16 16 ex_limits False) 3 ex_ddml = Some (r, t', d') \<and>
     ddml_rep ex_env ex_fits any_cached d' L' \<and> (r = Inr () \<or> r = Inl ENOSPC)"
proof -
  have lim: "fanouts_ok ex_limits" by (simp add: fanouts_ok_def ex_limits_def)
  let ?t = "tree_new 16 16 ex_limits False :: (DRP, nat, nat) Tree" and ?v = "\<lambda>v _ d. Some (Inr v, d)"
  have fit: "ex_fits n" if "node_clean n" "node_len n \<le> node_max_fanout (tr_limits ?t) n" for n
    using that by (simp add: ex_fits_def node_max_fanout_def tree_new_def inner_new_def ex_limits_def split: if_splits)
  have "\<exists>r t' d' L'. tree_flush (ddml_dml ex_deser ex_env) False ?v ?t 3 ex_ddml = Some (r, t', d') \<and> ddml_rep ex_env ex_fits any_cached d' L' \<and>
      (pool_quiet (dd_pool ex_ddml) \<longrightarrow> only_full r) \<and>
      (r = Inr () \<longrightarrow> (\<exists>tod. tree_serialize t' = Some tod \<and> reads_as (ddml_dml ex_deser ex_env) L' d' (tree_open 16 16 False tod) (tree_items Map.empty ?t)))"
    by (rule flush_open_roundtrip[OF ex.ddml_tree_axioms ex_rep tree_new_wf(1)[OF lim]]) (rule fit)
  then obtain r t' d' L' where "tree_flush (ddml_dml ex_deser ex_env) False ?v ?t 3 ex_ddml = Some (r, t', d')" "ddml_rep ex_env ex_fits any_cached d' L'" "only_full r"
    using ex_quiet by (elim exE conjE) simp
  then show ?thesis by (cases r) auto
qed


text \<open>A data management layer that cannot store anything.\<close>

definition full_dml :: "(unit, nat, (nat, nat, nat) NodeData) Dml" where
  "full_dml = \<lparr>dml_delete = \<lambda>d _ _. Some (Inl EIO, d), dml_get = \<lambda>d _. Some (Inl EIO, d), dml_pop = \<lambda>d _ _. Some (Inl EIO, d),
     dml_put = \<lambda>d _ _ _. Some (Inl EIO, d)\<rparr>"


end
