(* ===== verification/Idml_Correct.thy ===== *)
theory Idml_Correct
  imports Idml_Move Idml_Flush Ddml_Tree_Correct
begin

text \<open>
  The indirect data management layer refines a map from record identifiers to records with reference counts, with an environment in which
  all that it relies on holds.
\<close>

section \<open>Runs of operations\<close>

fun dml_run :: "('d, 'a, 'n) Dml \<Rightarrow> ('a, 'n) DmlOp list \<Rightarrow> 'd \<Rightarrow> (('a, 'n) DmlOut list \<times> 'd) option" where
  "dml_run dml [] d = Some ([], d)"
| "dml_run dml (op # ops) d = do {
     (out, d) \<leftarrow> dml_exec dml op d;
     (outs, d) \<leftarrow> dml_run dml ops d;
     Some (out # outs, d)
   }"

text \<open>The specification: identifiers are given out in order and never again.\<close>

definition read_rid :: "(RID \<rightharpoonup> 'u \<times> nat) \<Rightarrow> RID \<Rightarrow> 'u result" where
  "read_rid M rid = (case M rid of None \<Rightarrow> Inl ENOENT | Some (u, k) \<Rightarrow> Inr u)"

fun rid_step :: "(RID \<rightharpoonup> 'u \<times> nat) \<times> nat \<Rightarrow> (RID, 'u) DmlOp \<Rightarrow> (RID, 'u) DmlOut \<Rightarrow> (RID \<rightharpoonup> 'u \<times> nat) \<times> nat \<Rightarrow> bool" where
  "rid_step (M, nxt) (DGet rid) (OGet r) s \<longleftrightarrow> r = read_rid M rid \<and> s = (M, nxt)"
| "rid_step (M, nxt) (DPop rid txg) (OPop r) s \<longleftrightarrow> r = read_rid M rid \<and> s = (release rid M, nxt)"
| "rid_step (M, nxt) (DDelete rid txg) (ODelete r) s \<longleftrightarrow> r = map_sum (\<lambda>e. e) (\<lambda>_. ()) (read_rid M rid) \<and> s = (release rid M, nxt)"
| "rid_step (M, nxt) (DPut u c txg) (OPut r) s \<longleftrightarrow> r = Inr nxt \<and> s = (M(nxt \<mapsto> (u, 1)), Suc nxt) \<or> r = Inl ENOSPC \<and> s = (M, Suc nxt)"
| "rid_step _ _ _ _ \<longleftrightarrow> False"

fun rid_run :: "(RID \<rightharpoonup> 'u \<times> nat) \<times> nat \<Rightarrow> (RID, 'u) DmlOp list \<Rightarrow> (RID, 'u) DmlOut list \<Rightarrow> (RID \<rightharpoonup> 'u \<times> nat) \<times> nat \<Rightarrow> bool" where
  "rid_run s [] [] s' \<longleftrightarrow> s' = s"
| "rid_run s (op # ops) (out # outs) s' \<longleftrightarrow> (\<exists>s1. rid_step s op out s1 \<and> rid_run s1 ops outs s')"
| "rid_run _ _ _ _ \<longleftrightarrow> False"

lemma rid_run_Cons: "rid_run s (op # ops) outs s' \<longleftrightarrow> (\<exists>out outs' s1. outs = out # outs' \<and> rid_step s op out s1 \<and> rid_run s1 ops outs' s')"
  by (cases outs) auto

lemma rid_run_Nil: "rid_run s [] outs s' \<longleftrightarrow> outs = [] \<and> s' = s"
  by (cases outs) auto

lemma rid_step_out:
  "rid_step (M, nxt) (DGet rid) out s \<longleftrightarrow> out = OGet (read_rid M rid) \<and> s = (M, nxt)"
  "rid_step (M, nxt) (DPop rid txg) out s \<longleftrightarrow> out = OPop (read_rid M rid) \<and> s = (release rid M, nxt)"
  "rid_step (M, nxt) (DDelete rid txg) out s \<longleftrightarrow> out = ODelete (map_sum (\<lambda>e. e) (\<lambda>_. ()) (read_rid M rid)) \<and> s = (release rid M, nxt)"
  "rid_step (M, nxt) (DPut u c txg) out s \<longleftrightarrow> out = OPut (Inr nxt) \<and> s = (M(nxt \<mapsto> (u, 1)), Suc nxt) \<or> out = OPut (Inl ENOSPC) \<and> s = (M, Suc nxt)"
  by (cases out; auto)+

fun puts_fit :: "('u IRecord \<Rightarrow> bool) \<Rightarrow> (RID, 'u) DmlOp list \<Rightarrow> bool" where
  "puts_fit fits [] \<longleftrightarrow> True"
| "puts_fit fits (DPut u c txg # ops) \<longleftrightarrow> fits (URec u) \<and> puts_fit fits ops"
| "puts_fit fits (_ # ops) \<longleftrightarrow> puts_fit fits ops"

context idml_env
begin

lemma idml_step:
  assumes "idml_rep E fits {} h i M" "h + 3 < 2 ^ 63 - 1" "id_next_rid i < 2 ^ 64 - 1" "puts_fit fits (op # ops)"
  shows "\<exists>out i' M'. dml_exec (idml_dml E) op i = Some (out, i') \<and> idml_rep E fits {} (h + 3) i' M' \<and> rid_step (M, id_next_rid i) op out (M', id_next_rid i') \<and>
    id_next_rid i' \<le> Suc (id_next_rid i) \<and> puts_fit fits ops"
proof (cases op)
  case (DGet rid)
  have h: "h < 2 ^ 63 - 1" using assms(2) by simp
  obtain i' where i': "idml_get E i rid = Some (read_rid M rid, i')" "idml_rep E fits {} (Suc h) i' M" "id_next_rid i' = id_next_rid i"
    using idml_get_ok[OF assms(1) h, of rid] unfolding read_rid_def by blast
  then show ?thesis using DGet assms(4) idml_rep_mono[OF i'(2), of "h + 3"] by (simp add: idml_dml_def)
next
  case (DPop rid txg)
  obtain i' where "idml_pop E i rid txg = Some (read_rid M rid, i')" "idml_rep E fits {} (h + 3) i' (release rid M)" "id_next_rid i' = id_next_rid i"
    using idml_pop_ok[OF assms(1,2), of rid txg] unfolding read_rid_def by blast
  then show ?thesis using DPop assms(4) by (simp add: idml_dml_def)
next
  case (DDelete rid txg)
  obtain i' where "idml_delete E i rid txg = Some (if M rid = None then Inl ENOENT else Inr (), i')" "idml_rep E fits {} (h + 3) i' (release rid M)"
      "id_next_rid i' = id_next_rid i"
    using idml_delete_ok[OF assms(1,2), of rid txg] by blast
  then show ?thesis using DDelete assms(4) by (simp add: idml_dml_def read_rid_def split: option.splits)
next
  case (DPut u c txg)
  then have f: "fits (URec u)" "puts_fit fits ops" using assms(4) by simp_all
  obtain r i' where "idml_put E i u c txg = Some (r, i')" "id_next_rid i' = Suc (id_next_rid i)"
      "case r of Inl e \<Rightarrow> e = ENOSPC \<and> (\<exists>d'. ddml_put_direct (ie_env E) (id_ddml i) (URec u) c txg = Some (Inl e, d')) \<and> idml_rep E fits {} (h + 3) i' M | Inr rid \<Rightarrow> rid = id_next_rid i \<and> idml_rep E fits {} (h + 3) i' (M(rid \<mapsto> (u, 1)))"
    using idml_put_ok[OF assms(1,2) f(1) assms(3), of c txg] by blast
  then show ?thesis using DPut f(2) by (cases r) (auto simp: idml_dml_def)
qed

lemma idml_run:
  assumes "idml_rep E fits {} h i M" "h + 3 * length ops < 2 ^ 63 - 1" "id_next_rid i + length ops < 2 ^ 64" "puts_fit fits ops"
  shows "\<exists>outs i' M'. dml_run (idml_dml E) ops i = Some (outs, i') \<and> idml_rep E fits {} (h + 3 * length ops) i' M' \<and>
    rid_run (M, id_next_rid i) ops outs (M', id_next_rid i')"
  using assms
proof (induction ops arbitrary: i M h)
  case (Cons op ops)
  obtain out i1 M1 where 1: "dml_exec (idml_dml E) op i = Some (out, i1)" "idml_rep E fits {} (h + 3) i1 M1"
      "rid_step (M, id_next_rid i) op out (M1, id_next_rid i1)" "id_next_rid i1 \<le> Suc (id_next_rid i)" "puts_fit fits ops"
    using idml_step[OF Cons.prems(1) _ _ Cons.prems(4)] Cons.prems(2,3) by auto
  obtain outs i2 M2 where "dml_run (idml_dml E) ops i1 = Some (outs, i2)" "idml_rep E fits {} (h + 3 + 3 * length ops) i2 M2"
      "rid_run (M1, id_next_rid i1) ops outs (M2, id_next_rid i2)"
    using Cons.IH[OF 1(2)] 1(4,5) Cons.prems(2,3) by auto
  then show ?case using 1(1,3) by (auto simp: algebra_simps)
qed auto

end

section \<open>An environment\<close>

text \<open>Encoders write fields one after the other, decoders return what is left.\<close>

definition codec :: "('x \<Rightarrow> IoVec) \<Rightarrow> (IoVec \<Rightarrow> ('x \<times> IoVec) option) \<Rightarrow> ('x \<Rightarrow> bool) \<Rightarrow> bool" where
  "codec e d ok \<longleftrightarrow> (\<forall>x bs. ok x \<longrightarrow> d (e x @ bs) = Some (x, bs))"

fun num_deser :: "IoVec \<Rightarrow> (nat \<times> IoVec) option" where
  "num_deser (x # bs) = Some (x, bs)"
| "num_deser [] = None"

fun pba_ser :: "PBA \<Rightarrow> IoVec" where
  "pba_ser (PBA c l) = [c, l]"

fun pba_deser :: "IoVec \<Rightarrow> (PBA \<times> IoVec) option" where
  "pba_deser (c # l # bs) = Some (PBA c l, bs)"
| "pba_deser _ = None"

definition drp_ser :: "DRP \<Rightarrow> IoVec" where
  "drp_ser a = [pba_cluster (drp_pba a), pba_lba (drp_pba a), of_bool (drp_compressed a), drp_lsize a, drp_csize a, drp_checksum a]"

fun drp_deser :: "IoVec \<Rightarrow> (DRP \<times> IoVec) option" where
  "drp_deser (c # l # z # ls # cs # ck # bs) =
     Some (\<lparr>drp_pba = PBA c l, drp_compressed = (z = 1), drp_lsize = ls, drp_csize = cs, drp_checksum = ck\<rparr>, bs)"
| "drp_deser _ = None"

definition entry_ser :: "RidtEntry \<Rightarrow> IoVec" where
  "entry_ser e = drp_ser (re_drp e) @ [re_refcount e]"

definition entry_deser :: "IoVec \<Rightarrow> (RidtEntry \<times> IoVec) option" where
  "entry_deser bs = do { (a, bs) \<leftarrow> drp_deser bs; (k, bs) \<leftarrow> num_deser bs; Some (\<lparr>re_drp = a, re_refcount = k\<rparr>, bs) }"

fun many_deser :: "(IoVec \<Rightarrow> ('x \<times> IoVec) option) \<Rightarrow> nat \<Rightarrow> IoVec \<Rightarrow> ('x list \<times> IoVec) option" where
  "many_deser d 0 bs = Some ([], bs)"
| "many_deser d (Suc n) bs = do { (x, bs) \<leftarrow> d bs; (xs, bs) \<leftarrow> many_deser d n bs; Some (x # xs, bs) }"

fun child_ser :: "('k \<Rightarrow> IoVec) \<Rightarrow> (DRP, 'k, 'v) IntElem \<Rightarrow> IoVec" where
  "child_ser ek (IntElem k t (PAddr a)) = ek k @ [txg_start t, txg_end t] @ drp_ser a"
| "child_ser ek _ = []"

definition child_deser :: "(IoVec \<Rightarrow> ('k \<times> IoVec) option) \<Rightarrow> IoVec \<Rightarrow> ((DRP, 'k, 'v) IntElem \<times> IoVec) option" where
  "child_deser dk bs = do {
     (k, bs) \<leftarrow> dk bs;
     (s, bs) \<leftarrow> num_deser bs;
     (e, bs) \<leftarrow> num_deser bs;
     (a, bs) \<leftarrow> drp_deser bs;
     Some (IntElem k \<lparr>txg_start = s, txg_end = e\<rparr> (PAddr a), bs)
   }"

definition pair_deser :: "(IoVec \<Rightarrow> ('k \<times> IoVec) option) \<Rightarrow> (IoVec \<Rightarrow> ('v \<times> IoVec) option) \<Rightarrow> IoVec \<Rightarrow> (('k \<times> 'v) \<times> IoVec) option" where
  "pair_deser dk dv bs = do { (k, bs) \<leftarrow> dk bs; (v, bs) \<leftarrow> dv bs; Some ((k, v), bs) }"

fun node_ser :: "('k \<Rightarrow> IoVec) \<Rightarrow> ('v \<Rightarrow> IoVec) \<Rightarrow> (DRP, 'k, 'v) NodeData \<Rightarrow> IoVec" where
  "node_ser ek ev (LeafNode xs) = 0 # length xs # concat (map (\<lambda>(k, v). ek k @ ev v) xs)"
| "node_ser ek ev (IntNode es) = 1 # length es # concat (map (child_ser ek) es)"

fun node_deser :: "(IoVec \<Rightarrow> ('k \<times> IoVec) option) \<Rightarrow> (IoVec \<Rightarrow> ('v \<times> IoVec) option) \<Rightarrow> IoVec \<Rightarrow> (DRP, 'k, 'v) NodeData option" where
  "node_deser dk dv (b # n # bs) =
     (if b = 0 then map_option (LeafNode \<circ> fst) (many_deser (pair_deser dk dv) n bs) else map_option (IntNode \<circ> fst) (many_deser (child_deser dk) n bs))"
| "node_deser dk dv _ = None"

lemma codecs:
  "codec (\<lambda>x. [x]) num_deser (\<lambda>_. True)" "codec pba_ser pba_deser (\<lambda>_. True)" "codec drp_ser drp_deser (\<lambda>_. True)" "codec entry_ser entry_deser (\<lambda>_. True)"
proof -
  have p: "pba_deser (pba_ser x @ bs) = Some (x, bs)" for x bs by (cases x) simp
  have d: "drp_deser (drp_ser x @ bs) = Some (x, bs)" for x bs by (cases x) (simp add: drp_ser_def)
  show "codec (\<lambda>x. [x]) num_deser (\<lambda>_. True)" "codec pba_ser pba_deser (\<lambda>_. True)" "codec drp_ser drp_deser (\<lambda>_. True)"
    using p d by (simp_all add: codec_def)
  show "codec entry_ser entry_deser (\<lambda>_. True)" using d by (simp add: codec_def entry_ser_def entry_deser_def)
qed

lemma many_roundtrip:
  assumes "codec e d ok" "\<forall>x \<in> set xs. ok x"
  shows "many_deser d (length xs) (concat (map e xs) @ bs) = Some (xs, bs)"
  using assms(2)
proof (induction xs)
  case (Cons x xs)
  then have "d (e x @ concat (map e xs) @ bs) = Some (x, concat (map e xs) @ bs)" using assms(1) by (simp add: codec_def)
  then show ?case using Cons by simp
qed simp

lemma node_roundtrip:
  fixes n :: "(DRP, 'k, 'v) NodeData"
  assumes k: "codec ek dk (\<lambda>_. True)" and v: "codec ev dv (\<lambda>_. True)" and "node_clean n"
  shows "node_deser dk dv (node_ser ek ev n) = Some n"
proof (cases n)
  case (LeafNode xs)
  have "codec (\<lambda>(k, v). ek k @ ev v) (pair_deser dk dv) (\<lambda>_. True)" using k v by (simp add: codec_def pair_deser_def)
  from many_roundtrip[OF this, of xs "[]"] show ?thesis using LeafNode by simp
next
  case (IntNode es)
  have "child_deser dk (child_ser ek e @ bs) = Some (e, bs)" if p: "ptr_is_addr (ie_ptr e)" for e :: "(DRP, 'k, 'v) IntElem" and bs
  proof -
    obtain k t a where "e = IntElem k t (PAddr a)" using p by (cases e) (auto elim: ptr_is_addr.elims)
    then show ?thesis using k codecs(3) by (simp add: codec_def child_deser_def)
  qed
  then have c: "codec (child_ser ek) (child_deser dk :: _ \<Rightarrow> ((DRP, 'k, 'v) IntElem \<times> _) option) (\<lambda>e. ptr_is_addr (ie_ptr e))" by (simp add: codec_def)
  have "\<forall>e \<in> set es. ptr_is_addr (ie_ptr e)" using IntNode assms(3) by (auto simp: clean_def)
  from many_roundtrip[OF c this, of "[]"] show ?thesis using IntNode by simp
qed

lemma concat_length_le: "(\<And>x. length (e x) \<le> c) \<Longrightarrow> length (concat (map e xs)) \<le> c * length xs"
  by (induction xs) (simp_all add: add_mono)

lemma node_ser_len:
  assumes "\<And>k. length (ek k) \<le> 2" "\<And>v. length (ev v) \<le> 8"
  shows "length (node_ser ek ev n) \<le> 2 + 10 * node_len n"
proof (cases n)
  case (LeafNode xs)
  have "length (case x of (k, v) \<Rightarrow> ek k @ ev v) \<le> 10" for x using assms(1)[of "fst x"] assms(2)[of "snd x"] by (cases x) simp
  from concat_length_le[of "\<lambda>(k, v). ek k @ ev v", OF this] show ?thesis using LeafNode by simp
next
  case (IntNode es)
  have "length (child_ser ek e) \<le> 10" for e
    using assms(1) by (cases "(ek, e)" rule: child_ser.cases) (auto simp: drp_ser_def)
  from concat_length_le[OF this] show ?thesis using IntNode by simp
qed

text \<open>The sizes of the nodes are those of \<open>IDML::create\<close>: a leaf of the allocation table has up to 5005 entries.\<close>

fun ex_iser :: "nat IRecord \<Rightarrow> IoVec" where
  "ex_iser (RNode n) = node_ser (\<lambda>x. [x]) entry_ser n"
| "ex_iser (ANode n) = node_ser pba_ser (\<lambda>x. [x]) n"
| "ex_iser (URec u) = [u]"
| "ex_iser (RawRec bs) = bs"

fun ex_ifits :: "nat IRecord \<Rightarrow> bool" where
  "ex_ifits (RNode n) \<longleftrightarrow> node_clean n \<and> node_len n \<le> 10000"
| "ex_ifits (ANode n) \<longleftrightarrow> node_clean n \<and> node_len n \<le> 10000"
| "ex_ifits (URec u) \<longleftrightarrow> True"
| "ex_ifits (RawRec bs) \<longleftrightarrow> 0 < length bs \<and> length bs < u32_max"

definition ex_denv :: "(nat IRecord, nat) DdmlEnv" where
  "ex_denv = \<lparr>ev_zl = \<lambda>_. ex_zl, ev_lz = \<lambda>_. ex_lz, ev_weight = ev_weight ex_env, ev_hnew = 0, ev_hwrite = \<lambda>h bs. h + sum_list bs, ev_hfinish = \<lambda>h. h,
     ev_blosc = \<lambda>_ bs. bs @ [0], ev_unblosc = \<lambda>bs. Some (butlast bs), ev_ser = ex_iser, ev_len = \<lambda>_. 1\<rparr>"

definition ex_ienv :: "(nat, nat) IdmlEnv" where
  "ex_ienv = \<lparr>ie_env = ex_denv, ie_rdeser = node_deser num_deser entry_deser, ie_adeser = node_deser pba_deser num_deser,
     ie_udeser = \<lambda>bs. case bs of [u] \<Rightarrow> Some u | _ \<Rightarrow> None\<rparr>"

interpretation exi: idml_env ex_ienv ex_ifits
proof
  show "weights_ok (ev_weight (ie_env ex_ienv))" using ex.weights by (simp add: ex_ienv_def ex_denv_def)
  show "0 < length (ev_ser (ie_env ex_ienv) n) \<and> length (ev_ser (ie_env ex_ienv) n) < u32_max" if "ex_ifits n" for n
  proof (cases n)
    case (RNode m)
    have "length (node_ser (\<lambda>x. [x]) entry_ser m) \<le> 2 + 10 * node_len m" by (rule node_ser_len) (simp_all add: entry_ser_def drp_ser_def)
    then show ?thesis using that RNode by (cases m) (simp_all add: ex_ienv_def ex_denv_def)
  next
    case (ANode m)
    have "length (pba_ser k) \<le> 2" for k by (cases k) simp
    then have "length (node_ser pba_ser (\<lambda>x. [x]) m) \<le> 2 + 10 * node_len m" by (rule node_ser_len) simp
    then show ?thesis using that ANode by (cases m) (simp_all add: ex_ienv_def ex_denv_def)
  qed (use that in \<open>simp_all add: ex_ienv_def ex_denv_def\<close>)
qed (simp_all add: ex_ienv_def ex_denv_def node_roundtrip codecs)

definition ex_iddml :: "nat IRecord DDML" where
  "ex_iddml = ddml_new (pool_new ''tank'' 1 [240] [(ex_cluster, ex_disk)]) (cache_with_capacity 1000)"

text \<open>The entries of the allocation table have 10 + 8 bytes, those of the RIDT 8 + 35, and a pointer to a child 8 + 4 + 27 bytes and the key. The second pair gives the
  expected size of a leaf and of an interior node in bytes: the compression ratios times 4096.\<close>

definition ex_idml :: "nat IDML option" where
  "ex_idml = idml_create (49, 18) (67584, 11505) (47, 43) (17285, 15278) ex_iddml"

lemma ex_layer: "layer ex_ienv ex_ifits Map.empty ex_iddml Map.empty Map.empty Map.empty"
proof -
  have "cluster_inv ex_zl ex_lz ex_cluster {(0, 1)}" using run_inv[OF ex_run] by blast
  then have p: "pool_holds ex_denv ex_ifits (dd_pool ex_iddml) (\<lambda>_. {(0, 1)}) Map.empty"
    by (simp add: pool_holds_def pool_inv_def ex_denv_def ex_iddml_def ddml_new_def pool_new_def ex_disk_def)
  have "cache_ok (ev_len ex_denv) (cache_with_capacity 1000)"
    unfolding cache_ok_def by (intro exI[of _ "[]"]) (simp add: cache_list_def cache_with_capacity_def)
  then have c: "cache_agrees ex_denv ex_ifits (cached Map.empty) (dd_cache ex_iddml) Map.empty"
    by (simp add: cache_agrees_def ex_iddml_def ddml_new_def ex_denv_def cache_with_capacity_def cache_content_def)
  have q: "pool_quiet (dd_pool ex_iddml)" by (simp add: pool_quiet_def ex_iddml_def ddml_new_def pool_new_def ex_disk_def)
  have "records Map.empty Map.empty Map.empty = (Map.empty :: DRP \<rightharpoonup> nat IRecord)" by (simp add: fun_eq_iff records_def)
  then show ?thesis
    using ddml_repI[OF p c] q by (simp add: layer_def quiet_rep_def ex_ienv_def apart_def)
qed

lemma ex_idml_rep: "\<exists>i. ex_idml = Some i \<and> idml_rep ex_ienv ex_ifits {} 1 i Map.empty \<and> id_next_rid i = 0 \<and>
  nodes_fit (\<lambda>n. ex_ifits (RNode n)) (id_ridt i) \<and> nodes_fit (\<lambda>n. ex_ifits (ANode n)) (id_alloct i)"
proof -
  let ?la = "\<lparr>min_int_fanout = 78, max_int_fanout = 312, min_leaf_fanout = 1252, max_leaf_fanout = 5005\<rparr>"
  let ?lr = "\<lparr>min_int_fanout = 109, max_int_fanout = 433, min_leaf_fanout = 134, max_leaf_fanout = 535\<rparr>"
  let ?i = "\<lparr>id_ddml = ex_iddml, id_next_rid = 0, id_transaction = 0, id_alloct = tree_new 49 18 ?la True, id_ridt = tree_new 47 43 ?lr True\<rparr> :: nat IDML"
  have f: "mk_fanout True 18 67584 = Some (1252, 5005)" "mk_fanout True 49 11505 = Some (78, 312)" "mk_fanout True 43 17285 = Some (134, 535)"
      "mk_fanout True 47 15278 = Some (109, 433)"
    by (simp_all add: mk_fanout_def wsub_id wrapu_id div_roundup_eq assert_that_def)
  have "ex_idml = Some ?i" by (simp add: ex_idml_def idml_create_def tree_create_def f)
  moreover have lim: "fanouts_ok ?la" "fanouts_ok ?lr" by (simp_all add: fanouts_ok_def)
  have "holds ex_ienv ex_ifits (map_option fst \<circ> Map.empty) 0 1 ?i Map.empty Map.empty Map.empty"
  proof (rule holdsI)
    show "layer ex_ienv ex_ifits (map_option fst \<circ> Map.empty) (id_ddml ?i) Map.empty Map.empty Map.empty" using ex_layer by (simp add: comp_def)
  qed (simp_all add: tree_new_wf[OF lim(1)] tree_new_wf[OF lim(2)] fun_eq_iff, simp_all add: tree_new_def inner_new_def)
  then have "idml_rep ex_ienv ex_ifits {} 1 ?i Map.empty" by (rule idml_repI) (simp add: consistent_def)
  moreover have "nodes_fit (\<lambda>n. ex_ifits (RNode n)) (id_ridt ?i)" "nodes_fit (\<lambda>n. ex_ifits (ANode n)) (id_alloct ?i)"
    by (auto simp: nodes_fit_def node_max_fanout_def tree_new_def inner_new_def split: if_splits)
  ultimately show ?thesis by (intro exI[of _ ?i]) simp
qed

text \<open>The first record can be written.\<close>

lemma ex_write: "\<exists>c' ops dk'. cluster_write ex_zl ex_cluster [7] 1 = Some (Inr 1, c', ops) \<and> disk_ops ex_zl ops ex_disk = (Inr (), dk')"
  by (simp add: cluster_write_def ex_cluster_def div_roundup_eq BYTES_PER_LBA_def fsm_try_allocate_def oz_write_pointer_def fsm_dirty_zone_def ex_disk_def
      assert_that_def wsub_id wrapu_id SPACEMAP_ZONES_PER_LBA_def)

lemma ex_put: "\<exists>drp d'. ddml_put_direct ex_denv ex_iddml (URec 7) CNone 1 = Some (Inr drp, d')"
proof -
  obtain c' ops dk' where "cluster_write ex_zl ex_cluster [7] 1 = Some (Inr 1, c', ops)" "disk_ops ex_zl ops ex_disk = (Inr (), dk')"
    using ex_write by blast
  then show ?thesis
    by (simp add: ddml_put_direct_def ddml_put_common_def ex_denv_def compress_def ex_iddml_def ddml_new_def pool_new_def pool_write_def choose_cluster_def
        stats_queue_def stats_space_def write_outcome_def vec_modify_def div_roundup_eq BYTES_PER_LBA_def vec_get_def ex_env_def wrapu_id)
qed

lemma ex_stored: "\<exists>i i1. ex_idml = Some i \<and> idml_put ex_ienv i 7 CNone 1 = Some (Inr 0, i1) \<and> idml_rep ex_ienv ex_ifits {} 4 i1 [0 \<mapsto> (7, 1)]"
proof -
  obtain i where i: "ex_idml = Some i" "idml_rep ex_ienv ex_ifits {} 1 i Map.empty" "id_next_rid i = 0" using ex_idml_rep by blast
  have d: "id_ddml i = ex_iddml" using i(1) by (auto simp: ex_idml_def idml_create_def bind_eq_Some_conv)
  have f: "ex_ifits (URec 7)" "1 + 3 < (2 :: nat) ^ 63 - 1" "id_next_rid i < 2 ^ 64 - 1" using i(3) by simp_all
  obtain r i1 where r: "idml_put ex_ienv i 7 CNone 1 = Some (r, i1)"
      "case r of Inl e \<Rightarrow> e = ENOSPC \<and> (\<exists>d'. ddml_put_direct (ie_env ex_ienv) (id_ddml i) (URec 7) CNone 1 = Some (Inl e, d')) \<and> idml_rep ex_ienv ex_ifits {} (1 + 3) i1 Map.empty
       | Inr rid \<Rightarrow> rid = id_next_rid i \<and> idml_rep ex_ienv ex_ifits {} (1 + 3) i1 [rid \<mapsto> (7, 1)]"
    using exi.idml_put_ok[OF i(2) f(2,1,3), of CNone 1] by blast
  have "ie_env ex_ienv = ex_denv" by (simp add: ex_ienv_def)
  then show ?thesis using r i d ex_put by (cases r) auto
qed

section \<open>Refinement\<close>

text \<open>C1. The indirect data management layer refines a map from record identifiers to records with reference counts: if no disk operation fails, every run of
  \<open>get\<close>, \<open>pop\<close>, \<open>delete\<close> and \<open>put\<close> terminates without a panic, \<open>get\<close> and \<open>pop\<close> return exactly the record that was put under the identifier, \<open>pop\<close> and \<open>delete\<close> give up one
  reference, unknown identifiers give \<open>ENOENT\<close> and have no effect, and \<open>put\<close> uses the next identifier and fails only for lack of space. The RIDT and
  the allocation table stay exact inverses, and every record that is stored has an identifier; this is part of \<open>idml_rep\<close>.\<close>

theorem idml_refines_map:
  assumes "idml_env E fits" "idml_rep E fits {} h i M" "puts_fit fits ops" "h + 3 * length ops < 2 ^ 63 - 1" "id_next_rid i + length ops < 2 ^ 64"
  shows "\<exists>outs i' M'. dml_run (idml_dml E) ops i = Some (outs, i') \<and> idml_rep E fits {} (h + 3 * length ops) i' M' \<and>
    rid_run (M, id_next_rid i) ops outs (M', id_next_rid i')"
  by (rule idml_env.idml_run[OF assms(1,2,4,5,3)])

theorem idml_refines_map_witness:
  "\<exists>i outs i' M'. ex_idml = Some i \<and> dml_run (idml_dml ex_ienv) [DPut 7 CNone 1, DGet 0, DPop 0 1, DDelete 0 1] i = Some (outs, i') \<and>
     rid_run (Map.empty, 0) [DPut 7 CNone 1, DGet 0, DPop 0 1, DDelete 0 1] outs (M', 1) \<and>
     (outs = [OPut (Inr 0), OGet (Inr 7), OPop (Inr 7), ODelete (Inl ENOENT)] \<or>
      outs = [OPut (Inl ENOSPC), OGet (Inl ENOENT), OPop (Inl ENOENT), ODelete (Inl ENOENT)])"
proof -
  let ?ops = "[DPut 7 CNone 1, DGet 0, DPop 0 1, DDelete 0 1] :: (RID, nat) DmlOp list"
  obtain i where i: "ex_idml = Some i" "idml_rep ex_ienv ex_ifits {} 1 i Map.empty" "id_next_rid i = 0" using ex_idml_rep by blast
  have "puts_fit ex_ifits ?ops" "1 + 3 * length ?ops < 2 ^ 63 - 1" "id_next_rid i + length ?ops < 2 ^ 64" using i(3) by simp_all
  from idml_refines_map[OF exi.idml_env_axioms i(2) this] obtain outs i' M' where
    o: "dml_run (idml_dml ex_ienv) ?ops i = Some (outs, i')" "rid_run (Map.empty, 0) ?ops outs (M', id_next_rid i')"
    unfolding i(3) by blast
  have "id_next_rid i' = 1 \<and> (outs = [OPut (Inr 0), OGet (Inr 7), OPop (Inr 7), ODelete (Inl ENOENT)] \<or>
      outs = [OPut (Inl ENOSPC), OGet (Inl ENOENT), OPop (Inl ENOENT), ODelete (Inl ENOENT)])"
    using o(2) by (auto simp: rid_run_Cons rid_run_Nil rid_step_out read_rid_def release_def)
  then show ?thesis using i(1) o by auto
qed

text \<open>C5. The indirect layer survives a restart: if no disk operation fails, a flush of its trees fails only for lack of space, and after a success the layer that is
  opened from the label that \<open>write_label\<close> writes holds the same records under the same identifiers, and will not use an identifier again.\<close>

theorem idml_label_roundtrip:
  assumes "idml_env E fits" "idml_rep E fits X h i M" "nodes_fit (\<lambda>n. fits (RNode n)) (id_ridt i)" "nodes_fit (\<lambda>n. fits (ANode n)) (id_alloct i)"
  shows "\<exists>r i'. idml_flush_trees E i txg = Some (r, i') \<and> only_full r \<and>
    (r = Inr () \<longrightarrow> (\<exists>l. idml_label i' txg = Some l \<and> idml_rep E fits X h (idml_open asizes rsizes (id_ddml i') l) M \<and>
       id_next_rid (idml_open asizes rsizes (id_ddml i') l) = id_next_rid i))"
  by (rule idml_env.flush_open_ok[OF assms])

theorem idml_label_roundtrip_witness:
  "\<exists>i r i'. ex_idml = Some i \<and> idml_flush_trees ex_ienv i 1 = Some (r, i') \<and>
     (r = Inr () \<longrightarrow> (\<exists>l. idml_label i' 1 = Some l \<and> idml_rep ex_ienv ex_ifits {} 1 (idml_open (49, 18) (47, 43) (id_ddml i') l) Map.empty))"
proof -
  obtain i where i: "ex_idml = Some i" "idml_rep ex_ienv ex_ifits {} 1 i Map.empty" "nodes_fit (\<lambda>n. ex_ifits (RNode n)) (id_ridt i)"
      "nodes_fit (\<lambda>n. ex_ifits (ANode n)) (id_alloct i)"
    using ex_idml_rep by blast
  obtain r i' where f: "idml_flush_trees ex_ienv i 1 = Some (r, i')"
      "r = Inr () \<longrightarrow> (\<exists>l. idml_label i' 1 = Some l \<and> idml_rep ex_ienv ex_ifits {} 1 (idml_open (49, 18) (47, 43) (id_ddml i') l) Map.empty)"
    using idml_label_roundtrip[OF exi.idml_env_axioms i(2-4), of 1 "(49, 18)" "(47, 43)"] by blast
  then show ?thesis using i(1) by blast
qed

text \<open>C6. \<open>move_record\<close> keeps every record: if no disk operation fails, it writes the record to a new address, compressed or not as it was, and updates the RIDT, or it
  fails for lack of space and changes nothing. The reverse entry of the freed address stays: until the cleaner deletes it, an insertion into the
  allocation table at that address finds the entry, which \<open>put\<close> takes for a double allocation.\<close>

theorem move_record_keeps_records:
  assumes "idml_env E fits" "idml_rep E fits X h i M" "M rid = Some (u, k)" "h + 3 < 2 ^ 63 - 1"
  shows "\<exists>r i'. move_record E i rid txg = Some (r, i') \<and>
    (case r of Inl x \<Rightarrow> x = ENOSPC \<and> idml_rep E fits X (h + 3) i' M
     | Inr drp \<Rightarrow> \<exists>e i1 i2 i3. ridt_get E i rid = Some (Inr (Some e), i1) \<and> ridt_get E i' rid = Some (Inr (Some (e\<lparr>re_drp := drp\<rparr>)), i2) \<and>
         idml_rep E fits (insert (drp_pba (re_drp e)) X) (h + 3) i' M \<and>
         drp_pba drp \<noteq> drp_pba (re_drp e) \<and> alloct_insert E i' (drp_pba (re_drp e)) rid' txg' = Some (Inr (Some rid), i3))"
proof -
  obtain r i' where r: "move_record E i rid txg = Some (r, i')"
    "case r of Inl x \<Rightarrow> x = ENOSPC \<and> idml_rep E fits X (h + 3) i' M
     | Inr drp \<Rightarrow> \<exists>e Su rm am i1. ridt_get E i rid = Some (Inr (Some e), i1) \<and> drp_pba drp \<noteq> drp_pba (re_drp e) \<and>
         holds E fits (map_option fst \<circ> M) (id_next_rid i) (h + 3) i' Su (rm(rid \<mapsto> e\<lparr>re_drp := drp\<rparr>)) (am(drp_pba drp \<mapsto> rid)) \<and> am (drp_pba (re_drp e)) = Some rid \<and>
         consistent (insert (drp_pba (re_drp e)) X) M (id_next_rid i) Su (rm(rid \<mapsto> e\<lparr>re_drp := drp\<rparr>)) (am(drp_pba drp \<mapsto> rid))"
    using idml_env.move_record_ok[OF assms] by blast
  show ?thesis
  proof (cases r)
    case (Inr drp)
    then obtain e Su rm am i1 where m: "ridt_get E i rid = Some (Inr (Some e), i1)" "drp_pba drp \<noteq> drp_pba (re_drp e)" "am (drp_pba (re_drp e)) = Some rid"
        "holds E fits (map_option fst \<circ> M) (id_next_rid i) (h + 3) i' Su (rm(rid \<mapsto> e\<lparr>re_drp := drp\<rparr>)) (am(drp_pba drp \<mapsto> rid))"
        "consistent (insert (drp_pba (re_drp e)) X) M (id_next_rid i) Su (rm(rid \<mapsto> e\<lparr>re_drp := drp\<rparr>)) (am(drp_pba drp \<mapsto> rid))"
      using r(2) by auto
    obtain i2 where "ridt_get E i' rid = Some (Inr (Some (e\<lparr>re_drp := drp\<rparr>)), i2)"
      using idml_env.ridt_get_ok[OF assms(1) m(4), of rid] assms(4) by auto
    moreover obtain i3 where "alloct_insert E i' (drp_pba (re_drp e)) rid' txg' = Some (Inr (Some rid), i3)"
      using idml_env.alloct_insert_ok[OF assms(1) m(4), of "drp_pba (re_drp e)" rid' txg'] assms(4) m(2,3) by auto
    ultimately show ?thesis using r(1) Inr m(1,2) idml_repI[OF m(4,5)] by auto
  qed (use r in auto)
qed

theorem move_record_keeps_records_witness:
  "\<exists>i i1 r i'. ex_idml = Some i \<and> idml_put ex_ienv i 7 CNone 1 = Some (Inr 0, i1) \<and> move_record ex_ienv i1 0 2 = Some (r, i') \<and>
     (\<exists>X. idml_rep ex_ienv ex_ifits X 7 i' [0 \<mapsto> (7, 1)])"
proof -
  obtain i i1 where i: "ex_idml = Some i" "idml_put ex_ienv i 7 CNone 1 = Some (Inr 0, i1)" "idml_rep ex_ienv ex_ifits {} 4 i1 [0 \<mapsto> (7, 1)]"
    using ex_stored by blast
  have m: "[0 \<mapsto> (7, 1)] 0 = Some (7 :: nat, 1 :: nat)" "4 + 3 < (2 :: nat) ^ 63 - 1" by simp_all
  obtain r i' where "move_record ex_ienv i1 0 2 = Some (r, i')" "\<exists>X. idml_rep ex_ienv ex_ifits X 7 i' [0 \<mapsto> (7, 1)]"
    using move_record_keeps_records[OF exi.idml_env_axioms i(3) m, of 2] by (fastforce split: sum.split_asm)
  then show ?thesis using i(1,2) by blast
qed

end
