(* ===== verification/Fs_Tree.thy ===== *)
theory Fs_Tree
  imports Property Dml
begin

unbundle bit_operations_syntax

text \<open>
  \<open>bfffs/src/common/fs_tree.rs\<close>: the keys and values of a file system's tree. A key packs the number of an object, the type of an
  item and an offset or hash into 128 bits; keys are compared as numbers.

  The hasher MetroHash64 (with the derived \<open>Hash\<close> of a namespace) and the constants of \<open>libc\<close> are parameters. Names are
  sequences of bytes.
\<close>

section \<open>Keys\<close>

datatype ExtAttrNamespace = NsUser | NsSystem

datatype ObjKeyDiscriminant = KDirEntry | KInode | KExtent | KExtAttr | KProperty

fun discriminant_u8 :: "ObjKeyDiscriminant \<Rightarrow> nat" where
  "discriminant_u8 KDirEntry = 0"
| "discriminant_u8 KInode = 1"
| "discriminant_u8 KExtent = 2"
| "discriminant_u8 KExtAttr = 3"
| "discriminant_u8 KProperty = 4"

datatype ObjKey = OkDirEntry nat | OkInode | OkExtent nat | OkExtAttr nat | OkProperty PropertyName

type_synonym OsString = "byte list"

record 'h NameHasher =
  nh_new :: 'h
  nh_namespace :: "'h \<Rightarrow> ExtAttrNamespace \<Rightarrow> 'h"
  nh_write :: "'h \<Rightarrow> byte list \<Rightarrow> 'h"
  nh_finish :: "'h \<Rightarrow> nat"

definition objkey_dir_entry :: "'h NameHasher \<Rightarrow> OsString \<Rightarrow> ObjKey option" where
  "objkey_dir_entry hs name =
     (if 47 \<in> set name then None
      else Some (OkDirEntry (nh_finish hs (nh_write hs (nh_new hs) name) AND (2 ^ 56 - 1))))"

definition objkey_extattr :: "'h NameHasher \<Rightarrow> ExtAttrNamespace \<Rightarrow> OsString \<Rightarrow> ObjKey" where
  "objkey_extattr hs ns name = OkExtAttr (nh_finish hs (nh_write hs (nh_namespace hs (nh_new hs) ns) name) AND (2 ^ 56 - 1))"

fun objkey_discriminant :: "ObjKey \<Rightarrow> nat" where
  "objkey_discriminant (OkDirEntry _) = discriminant_u8 KDirEntry"
| "objkey_discriminant OkInode = discriminant_u8 KInode"
| "objkey_discriminant (OkExtent _) = discriminant_u8 KExtent"
| "objkey_discriminant (OkExtAttr _) = discriminant_u8 KExtAttr"
| "objkey_discriminant (OkProperty _) = discriminant_u8 KProperty"

text \<open>\<open>*prop as u64\<close>: the position in the declaration of the enum.\<close>

fun propname_u64 :: "PropertyName \<Rightarrow> nat" where
  "propname_u64 PN_Atime = 0"
| "propname_u64 PN_RecordSize = 1"
| "propname_u64 PN_Invalid = 2"

fun objkey_offset :: "ObjKey \<Rightarrow> nat" where
  "objkey_offset (OkDirEntry x) = x"
| "objkey_offset OkInode = 0"
| "objkey_offset (OkExtent x) = x"
| "objkey_offset (OkExtAttr x) = x"
| "objkey_offset (OkProperty p) = propname_u64 p"

text \<open>\<open>struct FSKey(u128)\<close> and its bit fields.\<close>

type_synonym FSKey = nat

definition fskey_object :: "FSKey \<Rightarrow> nat" where
  "fskey_object k = take_bit 64 (drop_bit 64 k)"

definition fskey_objtype :: "FSKey \<Rightarrow> nat" where
  "fskey_objtype k = take_bit 8 (drop_bit 56 k)"

definition fskey_offset :: "FSKey \<Rightarrow> nat" where
  "fskey_offset k = take_bit 56 k"

definition fskey_compose :: "nat \<Rightarrow> nat \<Rightarrow> nat \<Rightarrow> FSKey" where
  "fskey_compose object objtype offset = take_bit 128 (push_bit 64 object) OR push_bit 56 objtype OR offset"

definition fskey_new :: "nat \<Rightarrow> ObjKey \<Rightarrow> FSKey" where
  "fskey_new object objkey = fskey_compose object (objkey_discriminant objkey) (objkey_offset objkey)"

text \<open>A range \<open>start..end\<close>: the start is included, the end is not.\<close>

definition fskey_dirent_range :: "nat \<Rightarrow> nat \<Rightarrow> FSKey \<times> FSKey" where
  "fskey_dirent_range ino offset =
     (let objkey = OkDirEntry 0 in
      (fskey_compose ino (objkey_discriminant objkey) offset, fskey_compose ino (objkey_discriminant objkey + 1) 0))"

definition fskey_extattr_range :: "nat \<Rightarrow> FSKey \<times> FSKey" where
  "fskey_extattr_range ino =
     (let objkey = OkExtAttr 0 in
      (fskey_compose ino (objkey_discriminant objkey) 0, fskey_compose ino (objkey_discriminant objkey + 1) 0))"

text \<open>The offsets are a range whose bounds may be missing.\<close>

definition fskey_extent_range :: "nat \<Rightarrow> nat option \<Rightarrow> nat option \<Rightarrow> FSKey \<times> FSKey" where
  "fskey_extent_range ino s e =
     (let discriminant = discriminant_u8 KExtent in
      (case s of Some s \<Rightarrow> fskey_compose ino discriminant s | None \<Rightarrow> fskey_compose ino discriminant 0,
       case e of Some e \<Rightarrow> fskey_compose ino discriminant e | None \<Rightarrow> fskey_compose ino (discriminant + 1) 0))"

definition fskey_obj_range :: "nat \<Rightarrow> FSKey \<times> FSKey" where
  "fskey_obj_range ino = (fskey_compose ino 0 0, fskey_compose (u64 (ino + 1)) 0 0)"

definition fskey_is_direntry :: "FSKey \<Rightarrow> bool" where
  "fskey_is_direntry k \<longleftrightarrow> fskey_objtype k = discriminant_u8 KDirEntry"

definition fskey_is_extattr :: "FSKey \<Rightarrow> bool" where
  "fskey_is_extattr k \<longleftrightarrow> fskey_objtype k = discriminant_u8 KExtAttr"

definition fskey_is_inode :: "FSKey \<Rightarrow> bool" where
  "fskey_is_inode k \<longleftrightarrow> fskey_objtype k = discriminant_u8 KInode"

section \<open>Values\<close>

record Dirent =
  de_ino :: nat
  de_dtype :: nat
  de_name :: OsString

text \<open>The buffer of an inline extent, which the source shares by reference counting.\<close>

record InlineExtent =
  ix_buf :: IoVec

record 'a BlobExtent =
  bx_lsize :: nat
  bx_rid :: 'a

record InlineExtAttr =
  ia_namespace :: ExtAttrNamespace
  ia_name :: OsString
  ia_extent :: InlineExtent

record 'a BlobExtAttr =
  ba_namespace :: ExtAttrNamespace
  ba_name :: OsString
  ba_extent :: "'a BlobExtent"

datatype 'a ExtAttr = EaInline InlineExtAttr | EaBlob "'a BlobExtAttr"

fun extattr_as_inline :: "'a ExtAttr \<Rightarrow> InlineExtAttr option" where
  "extattr_as_inline (EaInline x) = Some x"
| "extattr_as_inline (EaBlob _) = None"

fun extattr_name :: "'a ExtAttr \<Rightarrow> OsString" where
  "extattr_name (EaInline x) = ia_name x"
| "extattr_name (EaBlob x) = ba_name x"

fun extattr_namespace :: "'a ExtAttr \<Rightarrow> ExtAttrNamespace" where
  "extattr_namespace (EaInline x) = ia_namespace x"
| "extattr_namespace (EaBlob x) = ba_namespace x"

datatype FileType = FtFifo | FtChar nat | FtDir | FtBlock nat | FtReg nat | FtLink OsString | FtSocket

text \<open>The constants of \<open>libc\<close> for each type of file, in the order of the declaration.\<close>

record LibcTypes =
  lc_fifo :: nat
  lc_chr :: nat
  lc_dir :: nat
  lc_blk :: nat
  lc_reg :: nat
  lc_lnk :: nat
  lc_sock :: nat

fun libc_of :: "LibcTypes \<Rightarrow> FileType \<Rightarrow> nat" where
  "libc_of c FtFifo = lc_fifo c"
| "libc_of c (FtChar _) = lc_chr c"
| "libc_of c FtDir = lc_dir c"
| "libc_of c (FtBlock _) = lc_blk c"
| "libc_of c (FtReg _) = lc_reg c"
| "libc_of c (FtLink _) = lc_lnk c"
| "libc_of c FtSocket = lc_sock c"

definition filetype_dtype :: "LibcTypes \<Rightarrow> FileType \<Rightarrow> nat" where
  "filetype_dtype dt ft = libc_of dt ft"

definition filetype_mode :: "LibcTypes \<Rightarrow> FileType \<Rightarrow> nat" where
  "filetype_mode s_if ft = libc_of s_if ft"

type_synonym Timespec = "int \<times> int"

record Inode =
  in_size :: nat
  in_nlink :: nat
  in_flags :: nat
  in_atime :: Timespec
  in_mtime :: Timespec
  in_ctime :: Timespec
  in_birthtime :: Timespec
  in_uid :: nat
  in_gid :: nat
  in_perm :: nat
  in_file_type :: FileType

text \<open>\<open>1 << exp\<close> on \<open>usize\<close>; a file that is not regular has no record size: a panic.\<close>

definition inode_record_size :: "Inode \<Rightarrow> nat option" where
  "inode_record_size i = (case in_file_type i of FtReg exp \<Rightarrow> Some (push_bit (exp mod 64) 1) | _ \<Rightarrow> None)"

datatype 'a FSValue =
    FvDirEntry Dirent
  | FvInode Inode
  | FvInlineExtent InlineExtent
  | FvBlobExtent "'a BlobExtent"
  | FvExtAttr "'a ExtAttr"
  | FvExtAttrs "'a ExtAttr list"
  | FvDirEntries "Dirent list"
  | FvProperty Property

datatype 'a Extent = XInline InlineExtent | XBlob "'a BlobExtent"

fun fsvalue_as_direntries :: "'a FSValue \<Rightarrow> Dirent list option" where
  "fsvalue_as_direntries (FvDirEntries x) = Some x"
| "fsvalue_as_direntries _ = None"

fun fsvalue_as_direntry :: "'a FSValue \<Rightarrow> Dirent option" where
  "fsvalue_as_direntry (FvDirEntry x) = Some x"
| "fsvalue_as_direntry _ = None"

fun fsvalue_as_extattr :: "'a FSValue \<Rightarrow> 'a ExtAttr option" where
  "fsvalue_as_extattr (FvExtAttr x) = Some x"
| "fsvalue_as_extattr _ = None"

fun fsvalue_as_extent :: "'a FSValue \<Rightarrow> 'a Extent option" where
  "fsvalue_as_extent (FvInlineExtent x) = Some (XInline x)"
| "fsvalue_as_extent (FvBlobExtent x) = Some (XBlob x)"
| "fsvalue_as_extent _ = None"

fun fsvalue_as_inode :: "'a FSValue \<Rightarrow> Inode option" where
  "fsvalue_as_inode (FvInode x) = Some x"
| "fsvalue_as_inode _ = None"

section \<open>Hash table items\<close>

datatype ('t, 'a) HTValue = HtSingle 't | HtBucket "'t list" | HtOther "'a FSValue" | HtNone

text \<open>The trait \<open>HTItem\<close>, with its associated type \<open>'x\<close>.\<close>

record ('t, 'x, 'a) HTItem =
  ht_enotfound :: error
  ht_aux :: "'t \<Rightarrow> 'x"
  ht_from_table :: "'a FSValue option \<Rightarrow> ('t, 'a) HTValue"
  ht_into_bucket :: "'t list \<Rightarrow> 'a FSValue"
  ht_into_fsvalue :: "'t \<Rightarrow> 'a FSValue"
  ht_same :: "'t \<Rightarrow> 'x \<Rightarrow> OsString \<Rightarrow> bool"
  ht_try_from :: "'a FSValue \<Rightarrow> 't option"

fun dirent_from_table :: "'a FSValue option \<Rightarrow> (Dirent, 'a) HTValue" where
  "dirent_from_table (Some (FvDirEntry x)) = HtSingle x"
| "dirent_from_table (Some (FvDirEntries x)) = HtBucket x"
| "dirent_from_table (Some x) = HtOther x"
| "dirent_from_table None = HtNone"

definition dirent_item :: "(Dirent, nat, 'a) HTItem" where
  "dirent_item =
     \<lparr>ht_enotfound = ENOENT, ht_aux = de_ino, ht_from_table = dirent_from_table, ht_into_bucket = FvDirEntries, ht_into_fsvalue = FvDirEntry,
      ht_same = \<lambda>d _ name. de_name d = name, ht_try_from = fsvalue_as_direntry\<rparr>"

fun extattr_from_table :: "'a FSValue option \<Rightarrow> ('a ExtAttr, 'a) HTValue" where
  "extattr_from_table (Some (FvExtAttr x)) = HtSingle x"
| "extattr_from_table (Some (FvExtAttrs x)) = HtBucket x"
| "extattr_from_table (Some x) = HtOther x"
| "extattr_from_table None = HtNone"

definition extattr_item :: "('a ExtAttr, ExtAttrNamespace, 'a) HTItem" where
  "extattr_item =
     \<lparr>ht_enotfound = ENOATTR, ht_aux = extattr_namespace, ht_from_table = extattr_from_table, ht_into_bucket = FvExtAttrs, ht_into_fsvalue = FvExtAttr,
      ht_same = \<lambda>x aux name. extattr_namespace x = aux \<and> extattr_name x = name, ht_try_from = fsvalue_as_extattr\<rparr>"

section \<open>Flushing\<close>

text \<open>Large buffers are written as records of their own; \<open>dml\<close> is the data management layer as it stores plain buffers.\<close>

definition BLOB_THRESHOLD :: nat where
  "BLOB_THRESHOLD = BYTES_PER_LBA div 4"

definition inline_extattr_flush :: "('d, 'a, IoVec) Dml \<Rightarrow> InlineExtAttr \<Rightarrow> TxgT \<Rightarrow> 'd \<Rightarrow> ('a ExtAttr result \<times> 'd) option" where
  "inline_extattr_flush dml x txg d =
     (let lsize = length (ix_buf (ia_extent x)) in
      if lsize > BLOB_THRESHOLD then do {
        (r, d) \<leftarrow> dml_put dml d (ix_buf (ia_extent x)) CNone txg;
        Some (map_sum (\<lambda>e. e) (\<lambda>rid. EaBlob \<lparr>ba_namespace = ia_namespace x, ba_name = ia_name x, ba_extent = \<lparr>bx_lsize = u32 lsize, bx_rid = rid\<rparr>\<rparr>) r, d)
      } else Some (Inr (EaInline x), d))"

fun extattr_flush :: "('d, 'a, IoVec) Dml \<Rightarrow> 'a ExtAttr \<Rightarrow> TxgT \<Rightarrow> 'd \<Rightarrow> ('a ExtAttr result \<times> 'd) option" where
  "extattr_flush dml (EaInline x) txg d = inline_extattr_flush dml x txg d"
| "extattr_flush dml (EaBlob x) txg d = Some (Inr (EaBlob x), d)"

definition inline_extent_flush :: "('d, 'a, IoVec) Dml \<Rightarrow> InlineExtent \<Rightarrow> TxgT \<Rightarrow> 'd \<Rightarrow> ('a FSValue result \<times> 'd) option" where
  "inline_extent_flush dml x txg d =
     (let lsize = length (ix_buf x) in
      if lsize > BLOB_THRESHOLD then do {
        (r, d) \<leftarrow> dml_put dml d (ix_buf x) CNone txg;
        Some (map_sum (\<lambda>e. e) (\<lambda>rid. FvBlobExtent \<lparr>bx_lsize = u32 lsize, bx_rid = rid\<rparr>) r, d)
      } else Some (Inr (FvInlineExtent x), d))"

text \<open>\<open>join_all\<close>: the futures run one after the other, and the first error is the error of all.\<close>

fun extattrs_flush :: "('d, 'a, IoVec) Dml \<Rightarrow> 'a ExtAttr list \<Rightarrow> TxgT \<Rightarrow> 'd \<Rightarrow> ('a ExtAttr list result \<times> 'd) option" where
  "extattrs_flush dml [] txg d = Some (Inr [], d)"
| "extattrs_flush dml (x # xs) txg d = do {
     (r, d) \<leftarrow> extattr_flush dml x txg d;
     (rs, d) \<leftarrow> extattrs_flush dml xs txg d;
     Some (case r of Inl e \<Rightarrow> Inl e | Inr x \<Rightarrow> map_sum (\<lambda>e. e) (\<lambda>xs. x # xs) rs, d)
   }"

fun fsvalue_flush :: "('d, 'a, IoVec) Dml \<Rightarrow> 'a FSValue \<Rightarrow> TxgT \<Rightarrow> 'd \<Rightarrow> ('a FSValue result \<times> 'd) option" where
  "fsvalue_flush dml (FvInlineExtent x) txg d = inline_extent_flush dml x txg d"
| "fsvalue_flush dml (FvExtAttr x) txg d = do {
     (r, d) \<leftarrow> extattr_flush dml x txg d;
     Some (map_sum (\<lambda>e. e) FvExtAttr r, d)
   }"
| "fsvalue_flush dml (FvExtAttrs xs) txg d = do {
     (r, d) \<leftarrow> extattrs_flush dml xs txg d;
     Some (map_sum (\<lambda>e. e) FvExtAttrs r, d)
   }"
| "fsvalue_flush dml v txg d = Some (Inr v, d)"

section \<open>The order of the keys\<close>

text \<open>An offset or hash must fit its 56 bits.\<close>


definition valid_objkey :: "ObjKey \<Rightarrow> bool" where
  "valid_objkey ok \<longleftrightarrow> objkey_offset ok < 2 ^ 56"

lemma or_shift:
  assumes "y < 2 ^ n" shows "push_bit n x OR y = x * 2 ^ n + (y :: nat)"
proof -
  have y: "take_bit n y = y" using assms by (simp add: take_bit_nat_eq_self_iff)
  have "push_bit n x AND y = 0"
    by (subst y[symmetric]) (auto simp: bit_eq_iff bit_simps)
  then show ?thesis by (simp add: disjunctive_add_eq_or[symmetric] push_bit_eq_mult)
qed

lemma fskey_compose_sum:
  assumes "object < 2 ^ 64" "objtype < 2 ^ 8" "offset < 2 ^ 56"
  shows "fskey_compose object objtype offset = (object * 2 ^ 8 + objtype) * 2 ^ 56 + offset"
proof -
  have t: "take_bit 128 (push_bit 64 object) = push_bit 56 (push_bit 8 object)"
    using assms(1) by (simp add: push_bit_eq_mult take_bit_eq_mod)
  have "fskey_compose object objtype offset = push_bit 56 (push_bit 8 object OR objtype) OR offset"
    by (simp add: fskey_compose_def t push_bit_or ac_simps)
  also have "\<dots> = (object * 2 ^ 8 + objtype) * 2 ^ 56 + offset" unfolding or_shift[OF assms(3)] or_shift[OF assms(2)] ..
  finally show ?thesis .
qed

lemma discriminant_bound: "objkey_discriminant ok < 5"
  by (cases ok) simp_all

lemma fskey_new_sum:
  assumes "ino < 2 ^ 64" "valid_objkey ok"
  shows "fskey_new ino ok = (ino * 2 ^ 8 + objkey_discriminant ok) * 2 ^ 56 + objkey_offset ok"
  using assms discriminant_bound[of ok] by (simp add: fskey_new_def fskey_compose_sum valid_objkey_def)

lemma digits:
  fixes a b c :: nat
  assumes "b < 2 ^ 8" "c < 2 ^ 56"
  shows "((a * 2 ^ 8 + b) * 2 ^ 56 + c) div 2 ^ 64 = a" "((a * 2 ^ 8 + b) * 2 ^ 56 + c) div 2 ^ 56 mod 2 ^ 8 = b"
    "((a * 2 ^ 8 + b) * 2 ^ 56 + c) mod 2 ^ 56 = c"
proof -
  let ?n = "(a * 2 ^ 8 + b) * 2 ^ 56 + c"
  have d: "?n div 2 ^ 56 = a * 2 ^ 8 + b" using assms(2) by simp
  then show "?n div 2 ^ 56 mod 2 ^ 8 = b" using assms(1) by simp
  have "?n div 2 ^ 64 = ?n div 2 ^ 56 div 2 ^ 8" by (simp add: div_mult2_eq[symmetric])
  then show "?n div 2 ^ 64 = a" unfolding d using assms(1) by simp
  show "?n mod 2 ^ 56 = c" using mod_mult_self3[of "a * 2 ^ 8 + b" "2 ^ 56" c] assms(2) by (simp only: mod_less)
qed

lemma fskey_fields:
  assumes "ino < 2 ^ 64" "valid_objkey ok"
  shows "fskey_object (fskey_new ino ok) = ino" "fskey_objtype (fskey_new ino ok) = objkey_discriminant ok" "fskey_offset (fskey_new ino ok) = objkey_offset ok"
  using digits[of "objkey_discriminant ok" "objkey_offset ok" ino] assms discriminant_bound[of ok]
  by (simp_all add: fskey_new_sum fskey_object_def fskey_objtype_def fskey_offset_def take_bit_eq_mod drop_bit_eq_div valid_objkey_def)

lemma objkey_eqI: "objkey_discriminant a = objkey_discriminant b \<Longrightarrow> objkey_offset a = objkey_offset b \<Longrightarrow> a = b"
proof (cases a; cases b; simp)
  fix p q :: PropertyName assume "propname_u64 p = propname_u64 q" then show "p = q" by (cases p; cases q) simp_all
qed

text \<open>Keys are compared by object, then by type, then by offset.\<close>

lemma digits_less:
  fixes a b c a' b' c' :: nat
  assumes "b < 2 ^ 8" "c < 2 ^ 56" "b' < 2 ^ 8" "c' < 2 ^ 56"
  shows "(a * 2 ^ 8 + b) * 2 ^ 56 + c < (a' * 2 ^ 8 + b') * 2 ^ 56 + c' \<longleftrightarrow> a < a' \<or> a = a' \<and> (b < b' \<or> b = b' \<and> c < c')"
proof -
  have l: "x * m + y < x' * m + y' \<longleftrightarrow> x < x' \<or> x = x' \<and> y < y'" if "y < m" "y' < m" for x y x' y' m :: nat
  proof (cases x x' rule: linorder_cases)
    case less
    then have "x * m + m \<le> x' * m" using mult_le_mono1[of "Suc x" x' m] by simp
    then show ?thesis using less that by simp
  next
    case greater
    then have "x' * m + m \<le> x * m" using mult_le_mono1[of "Suc x'" x m] by simp
    then show ?thesis using greater that by simp
  qed simp
  have "a * 2 ^ 8 + b = a' * 2 ^ 8 + b' \<longleftrightarrow> a = a' \<and> b = b'"
    using l[of b "2 ^ 8" b' a a'] l[of b' "2 ^ 8" b a' a] assms(1,3) by (metis nat_neq_iff)
  then show ?thesis using l[of c "2 ^ 56" c' "a * 2 ^ 8 + b" "a' * 2 ^ 8 + b'"] l[of b "2 ^ 8" b' a a'] assms by auto
qed

definition in_range :: "FSKey \<Rightarrow> FSKey \<times> FSKey \<Rightarrow> bool" where
  "in_range k r \<longleftrightarrow> fst r \<le> k \<and> k < snd r"

lemma in_compose_range:
  assumes "ino < 2 ^ 64" "valid_objkey ok" "i1 < 2 ^ 64" "t1 < 2 ^ 8" "o1 < 2 ^ 56" "i2 < 2 ^ 64" "t2 < 2 ^ 8" "o2 < 2 ^ 56"
  shows "in_range (fskey_new ino ok) (fskey_compose i1 t1 o1, fskey_compose i2 t2 o2) \<longleftrightarrow>
    (i1 < ino \<or> i1 = ino \<and> (t1 < objkey_discriminant ok \<or> t1 = objkey_discriminant ok \<and> o1 \<le> objkey_offset ok)) \<and>
    (ino < i2 \<or> ino = i2 \<and> (objkey_discriminant ok < t2 \<or> objkey_discriminant ok = t2 \<and> objkey_offset ok < o2))"
  using assms discriminant_bound[of ok] digits_less[of "objkey_discriminant ok" "objkey_offset ok" t1 o1 ino i1]
    digits_less[of "objkey_discriminant ok" "objkey_offset ok" t2 o2 ino i2]
  by (auto simp: in_range_def fskey_new_sum fskey_compose_sum valid_objkey_def not_less[symmetric])

text \<open>C0. The keys of a file system sort by object, type and offset: each of the ranges that the file system queries contains exactly the items
  it is meant for, of its own object only, and the fields of a key are those it was made of. This holds for offsets below \<open>2^56\<close> and for all objects
  but the last.\<close>

theorem fskey_ranges:
  assumes "ino < 2 ^ 64 - 1" "ino' < 2 ^ 64" "valid_objkey ok" "off < 2 ^ 56" "\<forall>x. s = Some x \<longrightarrow> x < 2 ^ 56" "\<forall>x. e = Some x \<longrightarrow> x < 2 ^ 56"
  shows "(in_range (fskey_new ino' ok) (fskey_dirent_range ino off) \<longleftrightarrow> ino' = ino \<and> (\<exists>h. ok = OkDirEntry h \<and> off \<le> h)) \<and>
    (in_range (fskey_new ino' ok) (fskey_extattr_range ino) \<longleftrightarrow> ino' = ino \<and> (\<exists>h. ok = OkExtAttr h)) \<and>
    (in_range (fskey_new ino' ok) (fskey_extent_range ino s e) \<longleftrightarrow>
       ino' = ino \<and> (\<exists>x. ok = OkExtent x \<and> (\<forall>y. s = Some y \<longrightarrow> y \<le> x) \<and> (\<forall>y. e = Some y \<longrightarrow> x < y))) \<and>
    (in_range (fskey_new ino' ok) (fskey_obj_range ino) \<longleftrightarrow> ino' = ino) \<and>
    fskey_object (fskey_new ino' ok) = ino' \<and>
    (fskey_is_direntry (fskey_new ino' ok) \<longleftrightarrow> (\<exists>h. ok = OkDirEntry h)) \<and>
    (fskey_is_extattr (fskey_new ino' ok) \<longleftrightarrow> (\<exists>h. ok = OkExtAttr h)) \<and>
    (fskey_is_inode (fskey_new ino' ok) \<longleftrightarrow> ok = OkInode) \<and> fskey_offset (fskey_new ino' ok) = objkey_offset ok"
proof (intro conjI)
  note c = in_compose_range[OF assms(2,3)]
  have i: "ino < 2 ^ 64" using assms(1) by simp
  show "in_range (fskey_new ino' ok) (fskey_dirent_range ino off) \<longleftrightarrow> ino' = ino \<and> (\<exists>h. ok = OkDirEntry h \<and> off \<le> h)"
    using i assms(4) unfolding fskey_dirent_range_def Let_def by (subst c) (cases ok; auto)+
  show "in_range (fskey_new ino' ok) (fskey_extattr_range ino) \<longleftrightarrow> ino' = ino \<and> (\<exists>h. ok = OkExtAttr h)"
    using i unfolding fskey_extattr_range_def Let_def by (subst c) (cases ok; auto)+
  show "in_range (fskey_new ino' ok) (fskey_extent_range ino s e) \<longleftrightarrow>
       ino' = ino \<and> (\<exists>x. ok = OkExtent x \<and> (\<forall>y. s = Some y \<longrightarrow> y \<le> x) \<and> (\<forall>y. e = Some y \<longrightarrow> x < y))"
    using i assms(5,6) unfolding fskey_extent_range_def Let_def by (cases s; cases e; simp del: objkey_discriminant.simps; subst c) (cases ok; auto)+
  show "in_range (fskey_new ino' ok) (fskey_obj_range ino) \<longleftrightarrow> ino' = ino"
    using i assms(1) unfolding fskey_obj_range_def by (subst c) (auto simp: wrapu_id)
  note f = fskey_fields[OF assms(2,3)]
  show "fskey_object (fskey_new ino' ok) = ino'" "fskey_offset (fskey_new ino' ok) = objkey_offset ok" using f by simp_all
  show "fskey_is_direntry (fskey_new ino' ok) \<longleftrightarrow> (\<exists>h. ok = OkDirEntry h)" "fskey_is_extattr (fskey_new ino' ok) \<longleftrightarrow> (\<exists>h. ok = OkExtAttr h)"
    "fskey_is_inode (fskey_new ino' ok) \<longleftrightarrow> ok = OkInode"
    using f(2) by (cases ok; simp add: fskey_is_direntry_def fskey_is_extattr_def fskey_is_inode_def)+
qed

theorem fskey_ranges_witness:
  "(in_range (fskey_new 5 (OkExtent 4096)) (fskey_extent_range 5 (Some 4096) (Some 8192)) \<longleftrightarrow> True) \<and>
   (in_range (fskey_new 5 (OkExtent 4096)) (fskey_extattr_range 5) \<longleftrightarrow> False)"
  using fskey_ranges[of 5 5 "OkExtent 4096" 0 "Some 4096" "Some 8192"] by (simp add: valid_objkey_def)

text \<open>C0. The offset of an extent is not checked, and nothing cuts it to the 56 bits of its field: the key of an extent at \<open>2^56\<close> bytes or
  more is the key of an extended attribute of the same file.\<close>

theorem extent_key_collides:
  assumes "h < 2 ^ 56"
  shows "fskey_new ino (OkExtent (2 ^ 56 + h)) = fskey_new ino (OkExtAttr h)"
proof -
  have "push_bit 56 1 OR h = 2 ^ 56 + h" using or_shift[OF assms, of 1] by simp
  moreover have "push_bit 56 2 OR (push_bit 56 1 OR h) = push_bit 56 3 OR (h :: nat)"
    by (simp add: push_bit_or[symmetric] or.assoc[symmetric])
  ultimately show ?thesis by (simp add: fskey_new_def fskey_compose_def ac_simps)
qed

theorem extent_key_collides_witness: "fskey_new 5 (OkExtent (2 ^ 56 + 7)) = fskey_new 5 (OkExtAttr 7)"
  by (rule extent_key_collides) simp

end
