(* ===== verification/Spec2Isabelle.thy ===== *)
theory Spec2Isabelle
  imports Property Vdev_Block_Correct Vdev_File_Correct Raid_Module Cache_Correct Idml_Correct Fs_Tree
begin

text \<open>
  A verification library for BFFFS, a copy-on-write file system with declustered RAID for zoned and ordinary disks. The program is
  written in Rust; all paths below are relative to \<open>bfffs/src/common/\<close>.

  \<^bold>\<open>The program.\<close> From the bottom to the top: a \<^emph>\<open>file vdev\<close> (\<open>vdev_file.rs\<close>) divides a disk into zones and
  reserves space for labels (\<open>label.rs\<close>) and spacemaps; a \<^emph>\<open>block vdev\<close> (\<open>vdev_block.rs\<close>) schedules the operations of one
  disk; a \<^emph>\<open>RAID vdev\<close> (\<open>raid/\<close>) spreads stripes with their parity over the disks, following a declustered layout
  (\<open>raid/prime_s.rs\<close>); a \<^emph>\<open>cluster\<close> (\<open>cluster.rs\<close>) writes to open zones in the manner of a log and keeps a map of the free space;
  a \<^emph>\<open>pool\<close> (\<open>pool.rs\<close>) is a number of clusters; the \<^emph>\<open>direct data management layer\<close> (\<open>ddml/\<close>) stores compressed and
  checksummed records in the pool, through a cache (\<open>cache/\<close>); copy-on-write B+-trees (\<open>tree/\<close>) keep their nodes in a data
  management layer; the \<^emph>\<open>indirect data management layer\<close> (\<open>idml/\<close>) names every record by an identifier, with
  two trees that map identifiers to addresses and back; the keys and values of the file system's own trees are those of \<open>fs_tree.rs\<close>.

  \<^bold>\<open>Conventions.\<close> Definitions carry the names of the source, with a prefix for the type they are methods of.
  Structures are records, enumerations datatypes. Unsigned machine integers are natural numbers whose arithmetic is that of a release
  build: \<open>u8\<close>, \<open>u16\<close>, \<open>u32\<close> and \<open>u64\<close> of \<open>Prelude\<close> wrap, at the places where the source can overflow; the layout uses
  signed integers with \<open>i16\<close> and \<open>i32\<close>. A panic is \<^const>\<open>None\<close>; a \<open>Result\<close> is a sum with the error on the left. An operation that
  changes its object takes the state and returns it. Asynchronous code is read as the sequence of steps that its futures take: futures that are
  joined all run, one after the other, and the first error is the result; the trees are thus sequential, and the locks of nodes, of which
  the source never holds two in conflict within one operation, are left out. The RAID vdev and the file vdev return the requests that they
  make to their disks; the theorems hold for every order in which the disks serve these. Code that is not part of the repository is a parameter with
  named assumptions: MetroHash, Blosc, ISA-L, the encoder of \<open>serde\<close>, the order in which \<open>BinaryHeap\<close> returns equal elements and
  the outcome of disk operations.

  \<^bold>\<open>The theories and what they show.\<close>

  \<^item> \<open>Prelude\<close>, \<open>Common\<close> (\<open>mod.rs\<close>), \<open>BTree_Map\<close> (the ordered map of the Rust library, against the locale \<open>ordered_map\<close>) and
    \<open>Residues\<close> (number theory) are shared by the others. \<open>Property\<close> (\<open>property.rs\<close>): dataset properties and their parser.

  \<^item> \<open>Declust\<close> (\<open>raid/declust.rs\<close>), \<open>Prime_S\<close>, \<open>Prime_S_Correct\<close>, \<open>Prime_S_Layout\<close>, \<open>Prime_S_Iter\<close>, \<open>Prime_S_Iter_Correct\<close>
    (\<open>raid/prime_s.rs\<close>): \<open>id2loc\<close> and \<open>loc2id\<close> are inverse bijections, no disk holds two chunks of a stripe, the incremental iterators
    agree with \<open>id2loc\<close>. This holds for up to 181 disks, the largest prime whose products fit the \<open>i16\<close> of the source; for 191 disks it is
    refuted. The locale \<open>Locator\<close> is the trait of that name.

  \<^item> \<open>Label\<close> (\<open>label.rs\<close>): labels are read back layer by layer, and damage is detected.

  \<^item> \<open>Vdev_File\<close>, \<open>Vdev_File_Correct\<close> (\<open>vdev_file.rs\<close>), \<open>Zoned_Vdev\<close> (the locale \<open>zoned_vdev\<close>, the geometry of \<open>vdev.rs\<close>): requests within a zone
    never touch labels or spacemaps; a label is found as long as one of its copies is intact.

  \<^item> \<open>Vdev_Block\<close>, \<open>Vdev_Block_Correct\<close> (\<open>vdev_block.rs\<close>): the scheduler implements C-LOOK, keeps its queue depth and respects
    \<open>sync_all\<close> as a barrier. The locale \<open>priority_queue\<close> is what it needs of the heap.

  \<^item> \<open>Codec\<close> (\<open>raid/codec.rs\<close>), \<open>Sg_Cursor\<close> (\<open>raid/sgcursor.rs\<close>), \<open>Vdev_Raid\<close> (\<open>raid/vdev_raid.rs\<close>) with \<open>Stripe_Buffer\<close>, \<open>Raid_Layout\<close>,
    \<open>Raid_Write\<close>, \<open>Raid_Write_Multi\<close>, \<open>Raid_Read\<close>, \<open>Raid_Read_Multi\<close>, \<open>Raid_Stream\<close>, \<open>Raid_Correct\<close> and \<open>Raid_Array\<close>: the RAID vdev is an array of
    bytes; writes, reads, flushes and the finishing of zones act on it as expected, through the stripe buffer and on the disks, and every
    stripe on the disks has the parity of its data. \<open>Raid_Module\<close> (\<open>raid/vdev_onedisk.rs\<close>, \<open>raid/mod.rs\<close>): a vdev is opened again from its disks in any order.

  \<^item> \<open>Free_Space_Map\<close>, \<open>Free_Space_Map_Correct\<close>, \<open>Cluster\<close>, \<open>Cluster_Correct\<close> (\<open>cluster.rs\<close>): the extents that clients hold are disjoint and in
    zones that are not erased, with the set of live extents as ghost state; the map of the free space is read back from what was flushed.

  \<^item> \<open>Pool\<close>, \<open>Pool_Correct\<close> (\<open>pool.rs\<close>): the blocks of live extents keep their content, also if disk operations fail.

  \<^item> \<open>Cache\<close>, \<open>Cache_Correct\<close> (\<open>cache/cache.rs\<close>): the doubly linked list of the cache is a list in the order of the last use. The locale \<open>block_cache\<close>
    is what the layers above rely on.

  \<^item> \<open>Dml\<close> (\<open>dml.rs\<close>: compression and the trait of a data management layer; its contract is the locale \<open>dml_laws\<close>), \<open>Ddml\<close>, \<open>Ddml_Correct\<close> (\<open>ddml/\<close>):
    the direct layer fulfils the contract, whichever reads and writes fail. An erase that fails is outside the
    contract: the source has then already forgotten the zone.

  \<^item> \<open>Tree_Node\<close> (\<open>tree/node.rs\<close>), \<open>Btree\<close> (\<open>tree/tree/mod.rs\<close>), \<open>Btree_Inv\<close>, \<open>Btree_Remove\<close>, \<open>Btree_Correct\<close>, \<open>Btree_Flush\<close>, \<open>Btree_Errors\<close>: a tree over any data
    management layer that keeps \<open>dml_laws\<close> (the locale \<open>tree_store\<close>) is a sorted map; errors have no effect, except that a
    flush that fails loses the root. The descent through the tree has fuel: twice the height is enough, since each level is entered at most twice
    (once more after a repair), and the theorems show that every operation returns. \<open>Ddml_Tree\<close>, \<open>Ddml_Tree_Correct\<close>: the trees on the direct layer, through cache, compression, pool and cluster.

  \<^item> \<open>Idml\<close>, \<open>Idml_Store\<close>, \<open>Idml_Ops\<close>, \<open>Idml_Move\<close>, \<open>Idml_Flush\<close>, \<open>Idml_Correct\<close> (\<open>idml/\<close>): the indirect layer is a map from identifiers to records with
    reference counts, its two trees are inverse to each other, moving a record changes nothing for its clients, and the layer is
    opened again from its label. These theorems assume that no disk operation fails (\<open>pool_quiet\<close>); running out of space is covered. Identifiers are
    assumed not to reach \<open>2^64\<close>, heights of trees not to reach \<open>2^63\<close>.

  \<^bold>\<open>Not modelled.\<close> Range queries, range deletion, zone cleaning and the audits of the trees, and what the indirect layer does with these: they are
  futures that restart at every lock. The cleaner, the database and the datasets: they consist of the
  concurrency between transactions, timers and threads. The device manager probes disks; the FUSE server, the fio engine and the command
  line tool translate between interfaces; the bindings to ISA-L call foreign code.
\<close>

end
